(* ===== verification/Prelude.thy ===== *)
theory Prelude
  imports Main "HOL-Library.Word"
begin

text \<open>
  Shared vocabulary of the development: the widths of the C integer types, the allocation
  discipline of the engine (an oracle for the outcome of each allocation and a count of the
  live blocks) with the error monad the allocating operations run in, and generic lemmas on
  words and lists that several components use.
\<close>

unbundle bit_operations_syntax

section \<open>The C integer types\<close>

type_synonym u8 = "8 word"
type_synonym u16 = "16 word"
type_synonym u32 = "32 word"
type_synonym u64 = "64 word"

lemma unat_lt_u8: "unat (x :: u8) < 256"
  using unsigned_less [of x] by simp

lemma unat_lt_u16: "unat (x :: u16) < 65536"
  using unsigned_less [of x] by simp

lemma unat_lt_u32: "unat (x :: u32) < 4294967296"
  using unsigned_less [of x] by simp

lemma unat_lt_u64: "unat (x :: u64) < 18446744073709551616"
  using unsigned_less [of x] by simp

lemma unat_plus_nowrap:
  "unat a + unat b < 2 ^ LENGTH('a) \<Longrightarrow> unat (a + b :: 'a::len word) = unat a + unat b"
  using unat_add_lem by blast

lemma unat_times_nowrap:
  "unat a * unat b < 2 ^ LENGTH('a) \<Longrightarrow> unat (a * b :: 'a::len word) = unat a * unat b"
  using unat_mult_lem by blast

lemma unat_plus_if_u32:
  "unat (a + b :: u32) = (if unat a + unat b < 4294967296 then unat a + unat b
     else unat a + unat b - 4294967296)"
  by (simp add: unat_plus_if')

lemma unat_minus_if_u32:
  "unat (a - b :: u32) = (if unat b \<le> unat a then unat a - unat b
     else unat a + 4294967296 - unat b)"
  by (simp add: unat_sub_if')

lemma unat_ucast_up_u64 [simp]: "unat (ucast (x :: u32) :: u64) = unat x"
proof -
  have "unat x < 2 ^ 64" using unat_lt_u32 [of x] by (rule less_trans) simp
  then show ?thesis by (simp add: unsigned_ucast_eq take_bit_nat_eq_self_iff)
qed

lemma unat_ucast_down_u32: "unat (ucast (x :: u64) :: u32) = unat x mod 4294967296"
  by (simp add: unsigned_ucast_eq take_bit_eq_mod)

lemma unat_drop_bit: "unat (drop_bit n w) = unat w div 2 ^ n"
  by (rule trans [OF unat_drop_bit_eq drop_bit_eq_div])

text \<open>Disjoint parts of a word put together with a shift and \<open>OR\<close>.\<close>

lemma not_bit_below:
  "b < 2 ^ k \<Longrightarrow> k \<le> n \<Longrightarrow> \<not> bit (b :: nat) n"
  by (metis bit_take_bit_iff not_le take_bit_nat_eq_self)

lemma or_push_bit_nat:
  assumes "b < 2 ^ k"
  shows "push_bit k a OR b = a * 2 ^ k + (b :: nat)"
proof -
  have "push_bit k a + b = push_bit k a OR b"
    by (rule disjunctive_add) (use assms not_bit_below in \<open>auto simp: bit_push_bit_iff\<close>)
  then show ?thesis by (simp add: push_bit_eq_mult)
qed

lemma unat_push_bit:
  "k \<le> LENGTH('a) \<Longrightarrow>
   unat (push_bit k (y :: 'a::len word)) = (unat y mod 2 ^ (LENGTH('a) - k)) * 2 ^ k"
proof -
  assume "k \<le> LENGTH('a)"
  then have "(2 :: nat) ^ LENGTH('a) = 2 ^ (LENGTH('a) - k) * 2 ^ k"
    by (simp flip: power_add)
  then have "take_bit LENGTH('a) (push_bit k (unat y)) = (unat y mod 2 ^ (LENGTH('a) - k)) * 2 ^ k"
    by (simp add: take_bit_eq_mod push_bit_eq_mult mult_mod_left)
  then show ?thesis by (simp only: unsigned_push_bit_eq)
qed

lemma unat_push_bit_or:
  assumes "k \<le> LENGTH('a)" and "unat (x :: 'a::len word) < 2 ^ k"
  shows "unat (push_bit k y OR x) = (unat y mod 2 ^ (LENGTH('a) - k)) * 2 ^ k + unat x"
proof -
  have "unat (push_bit k y OR x) = unat (push_bit k y) OR unat x"
    by (rule unsigned_or_eq)
  also have "unat (push_bit k y) = push_bit k (unat y mod 2 ^ (LENGTH('a) - k))"
    using assms(1) by (simp only: unat_push_bit) (simp add: push_bit_eq_mult)
  also have "\<dots> OR unat x = (unat y mod 2 ^ (LENGTH('a) - k)) * 2 ^ k + unat x"
    using assms(2) by (rule or_push_bit_nat)
  finally show ?thesis .
qed

lemma unat_and_mask: "unat (x AND mask k) = unat x mod 2 ^ k"
proof -
  have "unat (x AND mask k) = unat (take_bit k x)" by (simp only: take_bit_eq_mask)
  also have "\<dots> = take_bit k (unat x)" by (rule unsigned_take_bit_eq)
  finally show ?thesis by (simp add: take_bit_eq_mod)
qed

lemma sint_u32: "sint (v :: u32) = (if unat v < 2147483648 then int (unat v) else int (unat v) - 4294967296)"
proof -
  define x where "x = uint v + 2147483648"
  have "sint v = signed_take_bit 31 (uint v)" by (simp add: sint_uint)
  also have "\<dots> = take_bit (Suc 31) (uint v + 2 ^ 31) - 2 ^ 31"
    by (rule signed_take_bit_eq_take_bit_shift)
  finally have s: "sint v = x mod 4294967296 - 2147483648" by (simp add: x_def take_bit_eq_mod)
  have b: "0 \<le> uint v" "uint v < 4294967296" using uint_bounded [of v] by simp_all
  have u: "int (unat v) = uint v" by simp
  show ?thesis
  proof (cases "unat v < 2147483648")
    case True
    then have "uint v < 2147483648" using u by linarith
    then have "x mod 4294967296 = x" using b by (intro mod_pos_pos_trivial) (simp_all add: x_def)
    with s True u show ?thesis by (simp add: x_def)
  next
    case False
    then have "2147483648 \<le> uint v" using u by linarith
    then have "x mod 4294967296 = (x - 4294967296) mod 4294967296"
      by (intro mod_pos_geq) (simp_all add: x_def)
    also have "\<dots> = x - 4294967296"
      using b \<open>2147483648 \<le> uint v\<close> by (intro mod_pos_pos_trivial) (simp_all add: x_def)
    finally show ?thesis using s False u by (simp add: x_def)
  qed
qed

lemma unat_of_bool: "unat (of_bool b :: 'a::len word) = of_bool b"
  by (cases b) simp_all

section \<open>Allocation\<close>

text \<open>
  Every allocating function of the engine goes through \<open>js_malloc\<close>, \<open>js_realloc\<close> and
  \<open>js_free\<close>, and gives up at the first allocation that fails. \<open>mem_outcomes\<close> lists the
  outcomes of the next allocations (when the list is used up they succeed), so a theorem
  for every \<open>mem\<close> covers a failure at any point. \<open>mem_live\<close> counts the blocks handed out
  and not yet freed.
\<close>

record mem =
  mem_outcomes :: "bool list"
  mem_live :: int

text \<open>\<open>Undefined\<close> stands for undefined behaviour: a failed assertion, an overflow of \<open>int\<close>, a bad pointer; \<open>Diverges\<close> for a loop
  that does not end.\<close>

datatype js_error = OutOfMemory | RangeError string | URIError string | InternalError string | Undefined | Diverges

definition INT_MAX :: nat where
  "INT_MAX = 2147483647"

type_synonym 'a alloc = "mem \<Rightarrow> (js_error + 'a) \<times> mem"

definition return_m :: "'a \<Rightarrow> 'a alloc" where
  "return_m x s = (Inr x, s)"

definition throw_m :: "js_error \<Rightarrow> 'a alloc" where
  "throw_m e s = (Inl e, s)"

text \<open>
  \<open>guard_m m c f\<close>: run \<open>m\<close>; if it fails run the cleanup \<open>c\<close> (the \<open>if (!r)\<close> branch that frees
  what is held) and pass the error on, otherwise go on with the result. \<open>bind_m\<close> has nothing
  to clean up, and \<open>ignore_m\<close> goes on whether \<open>m\<close> fails or not.
\<close>

definition guard_m :: "'a alloc \<Rightarrow> unit alloc \<Rightarrow> ('a \<Rightarrow> 'b alloc) \<Rightarrow> 'b alloc" where
  "guard_m m c f s = (case m s of (Inl e, s') \<Rightarrow> (Inl e, snd (c s')) | (Inr x, s') \<Rightarrow> f x s')"

definition bind_m :: "'a alloc \<Rightarrow> ('a \<Rightarrow> 'b alloc) \<Rightarrow> 'b alloc" where
  "bind_m m f = guard_m m (return_m ()) f"

definition then_m :: "unit alloc \<Rightarrow> 'b alloc \<Rightarrow> 'b alloc" where
  "then_m m n = bind_m m (\<lambda>_. n)"

definition ignore_m :: "unit alloc \<Rightarrow> 'b alloc \<Rightarrow> 'b alloc" where
  "ignore_m m n s = n (snd (m s))"

definition js_malloc :: "unit alloc" where
  "js_malloc s = (case mem_outcomes s of
       [] \<Rightarrow> (Inr (), s\<lparr>mem_live := mem_live s + 1\<rparr>)
     | ok # oks \<Rightarrow>
         (if ok then (Inr (), s\<lparr>mem_outcomes := oks, mem_live := mem_live s + 1\<rparr>)
          else (Inl OutOfMemory, s\<lparr>mem_outcomes := oks\<rparr>)))"

text \<open>\<open>js_realloc\<close> of a live block: the block stays live whether it succeeds or not.\<close>

definition js_realloc :: "unit alloc" where
  "js_realloc s = (case mem_outcomes s of
       [] \<Rightarrow> (Inr (), s)
     | ok # oks \<Rightarrow> (if ok then Inr () else Inl OutOfMemory, s\<lparr>mem_outcomes := oks\<rparr>))"

definition js_free :: "unit alloc" where
  "js_free s = (Inr (), s\<lparr>mem_live := mem_live s - 1\<rparr>)"

text \<open>
  The contract of an allocating operation: \<open>runs P k E e m\<close> says that, from every state, \<open>m\<close>
  either returns a value in \<open>P\<close> with \<open>k\<close> more live blocks, or fails with \<open>e\<close> more live blocks,
  by an error in \<open>E\<close> or because an allocation failed; and that it does not run out of
  memory when no allocation fails.
\<close>

definition runs :: "('a \<Rightarrow> bool) \<Rightarrow> int \<Rightarrow> (js_error \<Rightarrow> bool) \<Rightarrow> int \<Rightarrow> 'a alloc \<Rightarrow> bool" where
  "runs P k E e m \<longleftrightarrow> (\<forall>s. (mem_outcomes s = [] \<longrightarrow> mem_outcomes (snd (m s)) = []) \<and>
     (case m s of
        (Inl err, s') \<Rightarrow> (E err \<or> err = OutOfMemory \<and> mem_outcomes s \<noteq> []) \<and> mem_live s' = mem_live s + e
      | (Inr x, s') \<Rightarrow> P x \<and> mem_live s' = mem_live s + k))"

text \<open>A cleanup that frees \<open>n\<close> blocks.\<close>

definition frees :: "int \<Rightarrow> unit alloc \<Rightarrow> bool" where
  "frees n c \<longleftrightarrow> (\<forall>s. c s = (Inr (), s\<lparr>mem_live := mem_live s - n\<rparr>))"

lemma frees_js_free: "frees 1 js_free"
  by (simp add: frees_def js_free_def)

lemma frees_return: "frees 0 (return_m ())"
  by (simp add: frees_def return_m_def)

lemma frees_then: "frees n c \<Longrightarrow> frees n' c' \<Longrightarrow> frees (n + n') (then_m c c')"
  by (simp add: frees_def then_m_def bind_m_def guard_m_def)

lemma runsD:
  assumes "runs P k E e m" and "m s = (r, s')"
  shows "(mem_outcomes s = [] \<longrightarrow> mem_outcomes s' = []) \<and>
    (case r of Inl err \<Rightarrow> (E err \<or> err = OutOfMemory \<and> mem_outcomes s \<noteq> []) \<and> mem_live s' = mem_live s + e
     | Inr x \<Rightarrow> P x \<and> mem_live s' = mem_live s + k)"
proof -
  from assms(1) have "(mem_outcomes s = [] \<longrightarrow> mem_outcomes (snd (m s)) = []) \<and>
     (case m s of
        (Inl err, s') \<Rightarrow> (E err \<or> err = OutOfMemory \<and> mem_outcomes s \<noteq> []) \<and> mem_live s' = mem_live s + e
      | (Inr x, s') \<Rightarrow> P x \<and> mem_live s' = mem_live s + k)"
    unfolding runs_def by (rule spec)
  with assms(2) show ?thesis by (simp split: sum.splits)
qed

lemma runsI:
  assumes "\<And>s r s'. m s = (r, s') \<Longrightarrow> (mem_outcomes s = [] \<longrightarrow> mem_outcomes s' = []) \<and>
    (case r of Inl err \<Rightarrow> (E err \<or> err = OutOfMemory \<and> mem_outcomes s \<noteq> []) \<and> mem_live s' = mem_live s + e
     | Inr x \<Rightarrow> P x \<and> mem_live s' = mem_live s + k)"
  shows "runs P k E e m"
  unfolding runs_def using assms by (auto split: prod.splits sum.splits)

lemma runs_return: "P x \<Longrightarrow> k = 0 \<Longrightarrow> runs P k E e (return_m x)"
  by (simp add: runs_def return_m_def)

lemma runs_throw: "E err \<Longrightarrow> e = 0 \<Longrightarrow> runs P k E e (throw_m err)"
  by (simp add: runs_def throw_m_def)

lemma runs_malloc: "runs (\<lambda>_. True) 1 E 0 js_malloc"
  by (auto simp: runs_def js_malloc_def split: list.splits)

lemma runs_realloc: "runs (\<lambda>_. True) 0 E 0 js_realloc"
  by (auto simp: runs_def js_realloc_def split: list.splits)

lemma runs_weaken:
  assumes "runs P k E e m" and "\<And>x. P x \<Longrightarrow> P' x" and "\<And>err. E err \<Longrightarrow> E' err"
  shows "runs P' k E' e m"
proof (rule runsI)
  fix s r s'
  assume "m s = (r, s')"
  from runsD [OF assms(1) this] assms(2,3)
  show "(mem_outcomes s = [] \<longrightarrow> mem_outcomes s' = []) \<and>
    (case r of Inl err \<Rightarrow> (E' err \<or> err = OutOfMemory \<and> mem_outcomes s \<noteq> []) \<and> mem_live s' = mem_live s + e
     | Inr x \<Rightarrow> P' x \<and> mem_live s' = mem_live s + k)"
    by (auto split: sum.splits)
qed

lemma runs_guard:
  assumes m: "runs Q j E e1 m" and c: "frees n c" and e: "e = e1 - n"
    and f: "\<And>x. Q x \<Longrightarrow> runs P (k - j) E (e - j) (f x)"
  shows "runs P k E e (guard_m m c f)"
proof (rule runsI)
  fix s r s'
  assume g: "guard_m m c f s = (r, s')"
  obtain r1 s1 where ms: "m s = (r1, s1)" by force
  note m1 = runsD [OF m ms]
  show "(mem_outcomes s = [] \<longrightarrow> mem_outcomes s' = []) \<and>
    (case r of Inl err \<Rightarrow> (E err \<or> err = OutOfMemory \<and> mem_outcomes s \<noteq> []) \<and> mem_live s' = mem_live s + e
     | Inr x \<Rightarrow> P x \<and> mem_live s' = mem_live s + k)"
  proof (cases r1)
    case (Inl err)
    with g c have "r = Inl err" and "s' = s1\<lparr>mem_live := mem_live s1 - n\<rparr>"
      by (auto simp: guard_m_def ms frees_def)
    with m1 Inl e show ?thesis by auto
  next
    case (Inr x)
    with g have fx: "f x s1 = (r, s')" by (simp add: guard_m_def ms)
    from m1 Inr have "Q x" by simp
    from runsD [OF f [OF this] fx] m1 Inr show ?thesis by (auto split: sum.splits)
  qed
qed

lemma runs_bind:
  assumes "runs Q j E e m" and "\<And>x. Q x \<Longrightarrow> runs P (k - j) E (e - j) (f x)"
  shows "runs P k E e (bind_m m f)"
  unfolding bind_m_def by (rule runs_guard [OF assms(1) frees_return]) (simp_all add: assms(2))

lemma runs_then_free:
  assumes "frees n c" and m: "runs P (k + n) E (e + n) m"
  shows "runs P k E e (then_m c m)"
proof (rule runsI)
  fix s r s'
  assume "then_m c m s = (r, s')"
  with assms(1) have "m (s\<lparr>mem_live := mem_live s - n\<rparr>) = (r, s')"
    by (simp add: then_m_def bind_m_def guard_m_def frees_def)
  from runsD [OF m this]
  show "(mem_outcomes s = [] \<longrightarrow> mem_outcomes s' = []) \<and>
    (case r of Inl err \<Rightarrow> (E err \<or> err = OutOfMemory \<and> mem_outcomes s \<noteq> []) \<and> mem_live s' = mem_live s + e
     | Inr x \<Rightarrow> P x \<and> mem_live s' = mem_live s + k)"
    by (auto split: sum.splits)
qed

lemma runs_ignore_realloc:
  assumes m: "runs P k E e m"
  shows "runs P k E e (ignore_m js_realloc m)"
proof (rule runsI)
  fix s r s'
  define s1 where "s1 = snd (js_realloc s)"
  assume "ignore_m js_realloc m s = (r, s')"
  then have ms: "m s1 = (r, s')" by (simp add: ignore_m_def s1_def)
  have "mem_live s1 = mem_live s" and "mem_outcomes s = [] \<Longrightarrow> mem_outcomes s1 = []"
    by (auto simp: s1_def js_realloc_def split: list.splits)
  with runsD [OF m ms]
  show "(mem_outcomes s = [] \<longrightarrow> mem_outcomes s' = []) \<and>
    (case r of Inl err \<Rightarrow> (E err \<or> err = OutOfMemory \<and> mem_outcomes s \<noteq> []) \<and> mem_live s' = mem_live s + e
     | Inr x \<Rightarrow> P x \<and> mem_live s' = mem_live s + k)"
    by (auto split: sum.splits)
qed

text \<open>
  The contract of an operation that may fail with blocks still held: as \<open>runs\<close>, without the
  count on the failing path.
\<close>

definition yields :: "('a \<Rightarrow> bool) \<Rightarrow> int \<Rightarrow> (js_error \<Rightarrow> bool) \<Rightarrow> 'a alloc \<Rightarrow> bool" where
  "yields P k E m \<longleftrightarrow> (\<forall>s r s'. m s = (r, s') \<longrightarrow> (mem_outcomes s = [] \<longrightarrow> mem_outcomes s' = []) \<and>
     (case r of Inl err \<Rightarrow> E err \<or> err = OutOfMemory \<and> mem_outcomes s \<noteq> []
      | Inr x \<Rightarrow> P x \<and> mem_live s' = mem_live s + k))"

lemma yieldsD:
  assumes "yields P k E m" and "m s = (r, s')"
  shows "(mem_outcomes s = [] \<longrightarrow> mem_outcomes s' = []) \<and>
     (case r of Inl err \<Rightarrow> E err \<or> err = OutOfMemory \<and> mem_outcomes s \<noteq> []
      | Inr x \<Rightarrow> P x \<and> mem_live s' = mem_live s + k)"
  using assms(1)[unfolded yields_def, rule_format, OF assms(2)] by blast

lemma yields_runs: "runs P k E e m \<Longrightarrow> yields P k E m"
  unfolding yields_def
proof (intro allI impI)
  fix s r s'
  assume m: "runs P k E e m" and ms: "m s = (r, s')"
  from runsD [OF m ms] show "(mem_outcomes s = [] \<longrightarrow> mem_outcomes s' = []) \<and>
     (case r of Inl err \<Rightarrow> E err \<or> err = OutOfMemory \<and> mem_outcomes s \<noteq> []
      | Inr x \<Rightarrow> P x \<and> mem_live s' = mem_live s + k)"
    by (auto split: sum.splits)
qed

lemma yields_weaken:
  assumes "yields P k E m" and "\<And>x. P x \<Longrightarrow> P' x" and "\<And>err. E err \<Longrightarrow> E' err"
  shows "yields P' k E' m"
  unfolding yields_def
proof (intro allI impI)
  fix s r s'
  assume ms: "m s = (r, s')"
  from yieldsD [OF assms(1) ms] assms(2,3)
  show "(mem_outcomes s = [] \<longrightarrow> mem_outcomes s' = []) \<and>
     (case r of Inl err \<Rightarrow> E' err \<or> err = OutOfMemory \<and> mem_outcomes s \<noteq> []
      | Inr x \<Rightarrow> P' x \<and> mem_live s' = mem_live s + k)"
    by (auto split: sum.splits)
qed

lemma yields_bind:
  assumes m: "yields Q j E m" and f: "\<And>x. Q x \<Longrightarrow> yields P (k - j) E (f x)"
  shows "yields P k E (bind_m m f)"
  unfolding yields_def
proof (intro allI impI)
  fix s r s'
  assume b: "bind_m m f s = (r, s')"
  obtain r1 s1 where ms: "m s = (r1, s1)" by force
  note m1 = yieldsD [OF m ms]
  show "(mem_outcomes s = [] \<longrightarrow> mem_outcomes s' = []) \<and>
     (case r of Inl err \<Rightarrow> E err \<or> err = OutOfMemory \<and> mem_outcomes s \<noteq> []
      | Inr x \<Rightarrow> P x \<and> mem_live s' = mem_live s + k)"
  proof (cases r1)
    case (Inl err)
    with b m1 show ?thesis by (auto simp: bind_m_def guard_m_def return_m_def ms)
  next
    case (Inr x)
    with b have fx: "f x s1 = (r, s')" by (simp add: bind_m_def guard_m_def ms)
    from m1 Inr have "Q x" by simp
    from yieldsD [OF f [OF this] fx] m1 Inr show ?thesis by (auto split: sum.splits)
  qed
qed

lemma yields_then_free:
  assumes "frees n c" and "yields P (k + n) E m"
  shows "yields P k E (then_m c m)"
  unfolding then_m_def
  by (rule yields_bind [of "\<lambda>_. True" "- n"]) (use assms in \<open>auto simp: yields_def frees_def\<close>)

end
