(* ===== verification/Limbs.thy ===== *)
theory Limbs
  imports Prelude
begin

text \<open>
  The limb arithmetic under the BigInt type (\<open>js_mp_*\<close> in \<open>src/qjs/quickjs.c\<close>): numbers as
  little-endian arrays of 32-bit limbs, modelled as lists, each loop over the limbs as a
  recursion on the list. Every routine gets a lemma that states its result as an equation
  between the natural numbers the arrays stand for.
\<close>

type_synonym limb = "32 word"
type_synonym dlimb = "64 word"

text \<open>The number a limb array stands for: the sum of \<open>tab[i] * 2^(32 * i)\<close>.\<close>

fun lval :: "limb list \<Rightarrow> nat" where
  "lval [] = 0"
| "lval (x # xs) = unat x + 4294967296 * lval xs"

lemma lval_append: "lval (xs @ ys) = lval xs + 4294967296 ^ length xs * lval ys"
  by (induction xs) (simp_all add: algebra_simps)

lemma lval_bound: "lval xs < 4294967296 ^ length xs"
proof (induction xs)
  case Nil
  then show ?case by simp
next
  case (Cons x xs)
  have "lval (x # xs) < 4294967296 * (1 + lval xs)" using unat_lt_u32 [of x] by simp
  also have "\<dots> \<le> 4294967296 * 4294967296 ^ length xs"
    using Cons by (intro mult_left_mono) auto
  finally show ?case by simp
qed

lemma lval_replicate_0 [simp]: "lval (replicate n 0) = 0"
  by (induction n) simp_all

lemma lval_inj: "length xs = length ys \<Longrightarrow> lval xs = lval ys \<Longrightarrow> xs = ys"
proof (induction xs ys rule: list_induct2)
  case Nil
  then show ?case by simp
next
  case (Cons x xs y ys)
  have "unat x = lval (x # xs) mod 4294967296" using unat_lt_u32 [of x] by simp
  also have "\<dots> = unat y" using Cons.prems unat_lt_u32 [of y] by simp
  finally have "unat x = unat y" .
  then have "x = y" by (simp add: word_unat_eq_iff)
  with Cons show ?case by simp
qed

section \<open>Addition and subtraction\<close>

text \<open>The macro \<open>ADDC(res, carry_out, op1, op2, carry_in)\<close>: the pair (\<open>res\<close>, \<open>carry_out\<close>).\<close>

definition ADDC :: "limb \<Rightarrow> limb \<Rightarrow> limb \<Rightarrow> limb \<times> limb" where
  "ADDC op1 op2 carry_in =
     (let v = op1;
          a = v + op2;
          k1 = a < v;
          k = carry_in;
          a' = a + k
      in (a', of_bool (a' < k \<or> k1)))"

text \<open>\<open>js_mp_add\<close>: \<open>op1\<close> and \<open>op2\<close> have the same length \<open>n\<close>; the result array and the carry.\<close>

fun js_mp_add :: "limb list \<Rightarrow> limb list \<Rightarrow> limb \<Rightarrow> limb list \<times> limb" where
  "js_mp_add (x # xs) (y # ys) carry =
     (let (r, c) = ADDC x y carry; (rs, c') = js_mp_add xs ys c in (r # rs, c'))"
| "js_mp_add _ _ carry = ([], carry)"

text \<open>The body of the loop of \<open>js_mp_sub\<close>.\<close>

definition SUBC :: "limb \<Rightarrow> limb \<Rightarrow> limb \<Rightarrow> limb \<times> limb" where
  "SUBC op1 op2 k =
     (let v = op1;
          a = v - op2;
          k1 = a > v;
          v' = a - k
      in (v', of_bool (v' > a \<or> k1)))"

fun js_mp_sub :: "limb list \<Rightarrow> limb list \<Rightarrow> limb \<Rightarrow> limb list \<times> limb" where
  "js_mp_sub (x # xs) (y # ys) k =
     (let (r, k') = SUBC x y k; (rs, k'') = js_mp_sub xs ys k' in (r # rs, k''))"
| "js_mp_sub _ _ k = ([], k)"

text \<open>\<open>js_mp_neg\<close>: 0 - \<open>op2\<close>, starting with carry 1.\<close>

fun mp_neg_loop :: "limb list \<Rightarrow> limb \<Rightarrow> limb list \<times> limb" where
  "mp_neg_loop [] carry = ([], carry)"
| "mp_neg_loop (x # xs) carry =
     (let v = NOT x + carry;
          carry' = of_bool (v < carry);
          (rs, c) = mp_neg_loop xs carry'
      in (v # rs, c))"

definition js_mp_neg :: "limb list \<Rightarrow> limb list \<times> limb" where
  "js_mp_neg op2 = mp_neg_loop op2 1"

lemma ADDC_val:
  assumes "ADDC x y c = (r, c')" and "unat c \<le> 1"
  shows "unat r + 4294967296 * unat c' = unat x + unat y + unat c" and "unat c' \<le> 1"
proof -
  note x = unat_lt_u32 [of x] and y = unat_lt_u32 [of y]
  from assms show "unat r + 4294967296 * unat c' = unat x + unat y + unat c"
    using x y
    by (auto simp: ADDC_def Let_def word_less_nat_alt unat_plus_if_u32 unat_of_bool split: if_splits)
  from assms show "unat c' \<le> 1"
    by (auto simp: ADDC_def Let_def unat_of_bool)
qed

lemma js_mp_add_val:
  assumes "length xs = length ys" and "unat c \<le> 1" and "js_mp_add xs ys c = (rs, c')"
  shows "lval rs + 4294967296 ^ length xs * unat c' = lval xs + lval ys + unat c
    \<and> unat c' \<le> 1 \<and> length rs = length xs"
  using assms
proof (induction xs ys arbitrary: c rs c' rule: list_induct2)
  case Nil
  then show ?case by simp
next
  case (Cons x xs y ys)
  obtain r c1 where a: "ADDC x y c = (r, c1)" by force
  obtain rs1 c2 where b: "js_mp_add xs ys c1 = (rs1, c2)" by force
  from ADDC_val [OF a Cons.prems(1)] Cons.IH [OF _ b] Cons.prems(2) a b
  show ?case by (auto simp: algebra_simps)
qed

lemma SUBC_val:
  assumes "SUBC x y c = (r, c')" and "unat c \<le> 1"
  shows "unat r + unat y + unat c = unat x + 4294967296 * unat c'" and "unat c' \<le> 1"
proof -
  note x = unat_lt_u32 [of x] and y = unat_lt_u32 [of y]
  from assms show "unat r + unat y + unat c = unat x + 4294967296 * unat c'"
    using x y
    by (auto simp: SUBC_def Let_def word_less_nat_alt unat_minus_if_u32 unat_of_bool split: if_splits)
  from assms show "unat c' \<le> 1"
    by (auto simp: SUBC_def Let_def unat_of_bool)
qed

lemma js_mp_sub_val:
  assumes "length xs = length ys" and "unat c \<le> 1" and "js_mp_sub xs ys c = (rs, c')"
  shows "lval rs + lval ys + unat c = lval xs + 4294967296 ^ length xs * unat c'
    \<and> unat c' \<le> 1 \<and> length rs = length xs"
  using assms
proof (induction xs ys arbitrary: c rs c' rule: list_induct2)
  case Nil
  then show ?case by simp
next
  case (Cons x xs y ys)
  obtain r c1 where a: "SUBC x y c = (r, c1)" by force
  obtain rs1 c2 where b: "js_mp_sub xs ys c1 = (rs1, c2)" by force
  from SUBC_val [OF a Cons.prems(1)] Cons.IH [OF _ b] Cons.prems(2) a b
  show ?case by (auto simp: algebra_simps)
qed

lemma unat_minus_1_u32: "unat (-1 :: u32) = 4294967295"
  by (simp add: unsigned_minus_1_eq_mask mask_eq_exp_minus_1)

lemma unat_not_u32: "unat (NOT x :: u32) = 4294967295 - unat x"
proof -
  have "NOT x = -1 - x" by (simp add: not_eq_complement)
  also have "unat \<dots> = 4294967295 - unat x"
    using unat_lt_u32 [of x] by (simp add: unat_sub_if' unat_minus_1_u32)
  finally show ?thesis .
qed

lemma mp_neg_loop_val:
  assumes "unat c \<le> 1" and "mp_neg_loop xs c = (rs, c')"
  shows "lval rs + lval xs + 1 + 4294967296 ^ length xs * unat c' = 4294967296 ^ length xs + unat c
    \<and> unat c' \<le> 1 \<and> length rs = length xs"
  using assms
proof (induction xs arbitrary: c rs c')
  case Nil
  then show ?case by simp
next
  case (Cons x xs)
  define v where "v = NOT x + c"
  define c1 :: limb where "c1 = of_bool (v < c)"
  obtain rs1 c2 where b: "mp_neg_loop xs c1 = (rs1, c2)" by force
  note x = unat_lt_u32 [of x]
  have c1: "unat c1 \<le> 1" by (simp add: c1_def unat_of_bool)
  have v: "unat v + 4294967296 * unat c1 + unat x = 4294967295 + unat c"
    using Cons.prems(1) x
    by (auto simp: v_def c1_def unat_of_bool word_less_nat_alt unat_plus_if_u32 unat_not_u32)
  have "mp_neg_loop (x # xs) c = (v # rs1, c2)"
    using b by (simp add: v_def c1_def)
  with Cons.prems(2) have "rs = v # rs1" and "c' = c2" by simp_all
  with Cons.IH [OF c1 b] v show ?case by (simp add: algebra_simps)
qed

lemma js_mp_neg_val:
  assumes "js_mp_neg xs = (rs, c)"
  shows "lval rs = (4294967296 ^ length xs - lval xs) mod 4294967296 ^ length xs"
    and "length rs = length xs"
proof -
  from mp_neg_loop_val [of 1 xs rs c] assms
  have e: "lval rs + lval xs + 1 + 4294967296 ^ length xs * unat c = 4294967296 ^ length xs + 1"
    and c: "unat c \<le> 1" and l: "length rs = length xs" by (auto simp: js_mp_neg_def)
  show "length rs = length xs" by (rule l)
  have b: "lval xs < 4294967296 ^ length xs" by (rule lval_bound)
  show "lval rs = (4294967296 ^ length xs - lval xs) mod 4294967296 ^ length xs"
  proof (cases "unat c = 0")
    case True
    with e have "lval rs = 4294967296 ^ length xs - lval xs" by simp
    then show ?thesis using lval_bound [of rs] l by simp
  next
    case False
    with c have "unat c = 1" by simp
    with e have "lval rs = 0" and "lval xs = 0" by simp_all
    then show ?thesis by simp
  qed
qed

section \<open>Multiplication and division by one limb\<close>

text \<open>A double limb from its halves, \<open>((js_dlimb_t)hi << 32) | lo\<close>.\<close>

definition mk_dlimb :: "limb \<Rightarrow> limb \<Rightarrow> dlimb" where
  "mk_dlimb hi lo = push_bit 32 (ucast hi) OR ucast lo"

lemma unat_mk_dlimb [simp]: "unat (mk_dlimb hi lo) = unat hi * 4294967296 + unat lo"
  using unat_lt_u32 [of hi] unat_lt_u32 [of lo]
  by (simp add: mk_dlimb_def unat_push_bit_or)

fun js_mp_mul1 :: "limb list \<Rightarrow> limb \<Rightarrow> limb \<Rightarrow> limb list \<times> limb" where
  "js_mp_mul1 [] b l = ([], l)"
| "js_mp_mul1 (x # xs) b l =
     (let t = ucast x * ucast b + ucast l :: dlimb;
          (rs, l') = js_mp_mul1 xs b (ucast (drop_bit 32 t))
      in (ucast t # rs, l'))"

text \<open>\<open>js_mp_div1\<close>: from the most significant limb down, carrying the remainder \<open>r\<close>.\<close>

fun js_mp_div1 :: "limb list \<Rightarrow> limb \<Rightarrow> limb \<Rightarrow> limb list \<times> limb" where
  "js_mp_div1 [] b r = ([], r)"
| "js_mp_div1 (x # xs) b r =
     (let (qs, r1) = js_mp_div1 xs b r;
          a1 = mk_dlimb r1 x
      in (ucast (a1 div ucast b) # qs, ucast (a1 mod ucast b)))"

text \<open>\<open>js_mp_add_mul1\<close>: \<open>tabr += taba * b\<close> on \<open>n\<close> limbs; the high word.\<close>

fun mp_add_mul1_loop :: "limb list \<Rightarrow> limb list \<Rightarrow> limb \<Rightarrow> limb \<Rightarrow> limb list \<times> limb" where
  "mp_add_mul1_loop (r # rs) (x # xs) b l =
     (let t = ucast x * ucast b + ucast l + ucast r :: dlimb;
          (rs', l') = mp_add_mul1_loop rs xs b (ucast (drop_bit 32 t))
      in (ucast t # rs', l'))"
| "mp_add_mul1_loop _ _ b l = ([], l)"

definition js_mp_add_mul1 :: "limb list \<Rightarrow> limb list \<Rightarrow> limb \<Rightarrow> limb list \<times> limb" where
  "js_mp_add_mul1 tabr taba b = mp_add_mul1_loop tabr taba b 0"

text \<open>\<open>js_mp_sub_mul1\<close>: \<open>tabr -= taba * b\<close>; the value to subtract from the high word.\<close>

fun mp_sub_mul1_loop :: "limb list \<Rightarrow> limb list \<Rightarrow> limb \<Rightarrow> limb \<Rightarrow> limb list \<times> limb" where
  "mp_sub_mul1_loop (r # rs) (x # xs) b l =
     (let t = ucast r - ucast x * ucast b - ucast l :: dlimb;
          (rs', l') = mp_sub_mul1_loop rs xs b (ucast (- drop_bit 32 t))
      in (ucast t # rs', l'))"
| "mp_sub_mul1_loop _ _ b l = ([], l)"

definition js_mp_sub_mul1 :: "limb list \<Rightarrow> limb list \<Rightarrow> limb \<Rightarrow> limb list \<times> limb" where
  "js_mp_sub_mul1 tabr taba b = mp_sub_mul1_loop tabr taba b 0"

text \<open>
  \<open>js_mp_mul_basecase\<close>: schoolbook multiplication. \<open>result\<close> holds the limbs written so far; the
  iteration for \<open>op2[i]\<close> adds into \<open>result[i ..]\<close> and writes the limb \<open>result[i + op1_size]\<close>.
\<close>

fun mp_mul_loop :: "limb list \<Rightarrow> limb list \<Rightarrow> limb list \<Rightarrow> nat \<Rightarrow> limb list" where
  "mp_mul_loop result op1 [] i = result"
| "mp_mul_loop result op1 (y # ys) i =
     (let (seg, r) = js_mp_add_mul1 (drop i result) op1 y
      in mp_mul_loop (take i result @ seg @ [r]) op1 ys (Suc i))"

fun js_mp_mul_basecase :: "limb list \<Rightarrow> limb list \<Rightarrow> limb list" where
  "js_mp_mul_basecase op1 (y # ys) =
     (let (rs, r) = js_mp_mul1 op1 y 0 in mp_mul_loop (rs @ [r]) op1 ys 1)"
| "js_mp_mul_basecase op1 [] = []"

lemma limb_prod_bound: "unat (x :: limb) * unat (y :: limb) \<le> 4294967295 * 4294967295"
  using unat_lt_u32 [of x] unat_lt_u32 [of y] by (intro mult_mono) auto

lemma dlimb_split: "unat (ucast t :: limb) + 4294967296 * unat (ucast (drop_bit 32 t) :: limb) = unat (t :: dlimb)"
proof -
  have "unat t div 4294967296 < 4294967296" using unat_lt_u64 [of t] by simp
  then show ?thesis by (simp add: unat_ucast_down_u32 unat_drop_bit)
qed

lemma unat_mul_add_u64:
  fixes x y l r :: limb
  shows "unat (ucast x * ucast y + ucast l :: dlimb) = unat x * unat y + unat l"
    and "unat (ucast x * ucast y + ucast l + ucast r :: dlimb) = unat x * unat y + unat l + unat r"
proof -
  note b = limb_prod_bound [of x y] unat_lt_u32 [of l] unat_lt_u32 [of r]
  have m: "unat (ucast x * ucast y :: dlimb) = unat x * unat y"
    using b by (subst unat_times_nowrap) simp_all
  have a: "unat (ucast x * ucast y + ucast l :: dlimb) = unat x * unat y + unat l"
    using b by (subst unat_plus_nowrap) (simp_all add: m)
  show "unat (ucast x * ucast y + ucast l :: dlimb) = unat x * unat y + unat l" by (rule a)
  show "unat (ucast x * ucast y + ucast l + ucast r :: dlimb) = unat x * unat y + unat l + unat r"
    using b by (subst unat_plus_nowrap) (simp_all add: a)
qed

lemma js_mp_mul1_val:
  assumes "js_mp_mul1 xs b l = (rs, l')"
  shows "lval rs + 4294967296 ^ length xs * unat l' = lval xs * unat b + unat l
    \<and> length rs = length xs"
  using assms
proof (induction xs arbitrary: l rs l')
  case Nil
  then show ?case by simp
next
  case (Cons x xs)
  define t :: dlimb where "t = ucast x * ucast b + ucast l"
  obtain rs1 where c: "js_mp_mul1 xs b (ucast (drop_bit 32 t)) = (rs1, l')" and rs: "rs = ucast t # rs1"
    using Cons.prems by (auto simp: t_def Let_def split: prod.splits)
  have "unat (ucast t :: limb) + 4294967296 * unat (ucast (drop_bit 32 t) :: limb) = unat x * unat b + unat l"
    by (simp only: dlimb_split) (simp add: t_def unat_mul_add_u64)
  with Cons.IH [OF c] rs show ?case by (auto simp: algebra_simps)
qed

lemma js_mp_add_mul1_val_loop:
  assumes "length xs = length ys" and "mp_add_mul1_loop xs ys b l = (rs, l')"
  shows "lval rs + 4294967296 ^ length xs * unat l' = lval xs + lval ys * unat b + unat l
    \<and> length rs = length xs"
  using assms
proof (induction xs ys arbitrary: l rs l' rule: list_induct2)
  case Nil
  then show ?case by simp
next
  case (Cons r xs x ys)
  define t :: dlimb where "t = ucast x * ucast b + ucast l + ucast r"
  obtain rs1 where c: "mp_add_mul1_loop xs ys b (ucast (drop_bit 32 t)) = (rs1, l')"
    and rs: "rs = ucast t # rs1"
    using Cons.prems by (auto simp: t_def Let_def split: prod.splits)
  have "unat (ucast t :: limb) + 4294967296 * unat (ucast (drop_bit 32 t) :: limb)
      = unat x * unat b + unat l + unat r"
    by (simp only: dlimb_split) (simp add: t_def unat_mul_add_u64)
  with Cons.IH [OF c] rs show ?case by (auto simp: algebra_simps)
qed

lemma js_mp_add_mul1_val:
  assumes "length xs = length ys" and "js_mp_add_mul1 xs ys b = (rs, l')"
  shows "lval rs + 4294967296 ^ length xs * unat l' = lval xs + lval ys * unat b"
    and "length rs = length xs"
  using js_mp_add_mul1_val_loop [OF assms(1), of b 0 rs l'] assms(2)
  by (simp_all add: js_mp_add_mul1_def)

lemma mp_mul_loop_val:
  assumes "length result = length op1 + i"
  shows "lval (mp_mul_loop result op1 ys i) = lval result + 4294967296 ^ i * lval op1 * lval ys
    \<and> length (mp_mul_loop result op1 ys i) = length op1 + i + length ys"
  using assms
proof (induction ys arbitrary: result i)
  case Nil
  then show ?case by simp
next
  case (Cons y ys)
  obtain seg r where m: "js_mp_add_mul1 (drop i result) op1 y = (seg, r)" by force
  have len: "length (drop i result) = length op1" using Cons.prems by simp
  note v = js_mp_add_mul1_val [OF len m]
  define res' where "res' = take i result @ seg @ [r]"
  have res: "lval result = lval (take i result) + 4294967296 ^ i * lval (drop i result)"
    using lval_append [of "take i result" "drop i result"] Cons.prems by simp
  have "lval res' = lval (take i result)
      + 4294967296 ^ i * (lval seg + 4294967296 ^ length seg * unat r)"
    using Cons.prems v(2) len by (simp add: res'_def lval_append min_def)
  also have "\<dots> = lval result + 4294967296 ^ i * (lval op1 * unat y)"
    using v len res by (simp add: algebra_simps)
  finally have a: "lval res' = lval result + 4294967296 ^ i * (lval op1 * unat y)" .
  have b: "length res' = length op1 + Suc i"
    using Cons.prems v(2) by (simp add: res'_def)
  from Cons.IH [OF b] a show ?case
    by (simp add: m res'_def algebra_simps)
qed

lemma js_mp_mul_basecase_val:
  assumes "ys \<noteq> []"
  shows "lval (js_mp_mul_basecase xs ys) = lval xs * lval ys"
    and "length (js_mp_mul_basecase xs ys) = length xs + length ys"
proof -
  from assms obtain z zs where ys: "ys = z # zs" by (cases ys) auto
  obtain rs r where m: "js_mp_mul1 xs z 0 = (rs, r)" by force
  note v = js_mp_mul1_val [OF m]
  have l: "length (rs @ [r]) = length xs + 1" using v by simp
  from mp_mul_loop_val [OF l, of zs] v m
  show "lval (js_mp_mul_basecase xs ys) = lval xs * lval ys"
    and "length (js_mp_mul_basecase xs ys) = length xs + length ys"
    by (simp_all add: ys lval_append algebra_simps)
qed

lemma js_mp_div1_val:
  assumes "js_mp_div1 xs b r = (qs, r')" and "unat r < unat b"
  shows "lval qs * unat b + unat r' = 4294967296 ^ length xs * unat r + lval xs
    \<and> unat r' < unat b \<and> length qs = length xs"
  using assms(1)
proof (induction xs arbitrary: qs r')
  case Nil
  then show ?case using assms(2) by simp
next
  case (Cons x xs)
  obtain qs1 r1 where d: "js_mp_div1 xs b r = (qs1, r1)" by force
  define a1 where "a1 = mk_dlimb r1 x"
  have qs: "qs = ucast (a1 div ucast b) # qs1" and r': "r' = ucast (a1 mod ucast b)"
    using Cons.prems d by (auto simp: a1_def Let_def)
  note IH = Cons.IH [OF d]
  have a1: "unat a1 = unat r1 * 4294967296 + unat x" by (simp add: a1_def)
  note x = unat_lt_u32 [of x] and bl = unat_lt_u32 [of b]
  have "unat a1 < unat b * 4294967296"
  proof -
    have "(unat r1 + 1) * 4294967296 \<le> unat b * 4294967296" using IH by (intro mult_right_mono) auto
    then show ?thesis using a1 x by simp
  qed
  then have "unat a1 div unat b < 4294967296" by (simp add: less_mult_imp_div_less mult.commute)
  then have q: "unat (ucast (a1 div ucast b) :: limb) = unat a1 div unat b"
    by (simp add: unat_ucast_down_u32 unat_div_distrib)
  have "unat a1 mod unat b < unat b" using assms(2) by simp
  with bl have m: "unat r' = unat a1 mod unat b"
    by (simp add: r' unat_ucast_down_u32 unat_mod_distrib)
  have "unat (ucast (a1 div ucast b) :: limb) * unat b + unat r' = unat a1"
    by (simp add: q m)
  with IH m qs a1 assms(2) show ?case by (auto simp: algebra_simps)
qed

lemma sub_mul1_step:
  fixes x b l r :: limb
  defines "t \<equiv> ucast r - ucast x * ucast b - ucast l :: dlimb"
  shows "unat (ucast t :: limb) + unat x * unat b + unat l
    = unat r + 4294967296 * unat (ucast (- drop_bit 32 t) :: limb)"
proof -
  define p where "p = unat x * unat b + unat l"
  note bnd = limb_prod_bound [of x b] unat_lt_u32 [of l] unat_lt_u32 [of r]
  have p: "unat (ucast x * ucast b + ucast l :: dlimb) = p" by (simp add: p_def unat_mul_add_u64)
  have t: "t = ucast r - (ucast x * ucast b + ucast l)" by (simp add: t_def)
  have p_le: "p \<le> 18446744069414584320" using bnd by (simp add: p_def)
  show ?thesis
  proof (cases "p \<le> unat r")
    case True
    then have ut: "unat t = unat r - p" unfolding t by (subst unat_sub_if') (simp add: p)
    with bnd have "unat t < 4294967296" by simp
    then have "drop_bit 32 t = 0" and "unat (ucast t :: limb) = unat t"
      by (simp_all add: unat_drop_bit unat_ucast_down_u32 word_unat_eq_iff)
    with True ut show ?thesis by (simp add: p_def)
  next
    case False
    then have ut: "unat t = unat r + 18446744073709551616 - p"
      unfolding t by (subst unat_sub_if') (simp add: p)
    define h where "h = unat t div 4294967296"
    have hb: "h < 4294967296" using unat_lt_u64 [of t] by (simp add: h_def)
    have h0: "0 < h" using ut p_le by (simp add: h_def div_greater_zero_iff)
    have hd: "unat (drop_bit 32 t) = h" by (simp add: unat_drop_bit h_def)
    then have "drop_bit 32 t \<noteq> 0" using h0 by (metis unat_0 less_not_refl)
    then have "unat (- drop_bit 32 t) = 18446744073709551616 - h"
      using hd h0 unat_sub_if' [of 0 "drop_bit 32 t"] by simp
    also have "\<dots> = (4294967296 - h) + 4294967295 * 4294967296" using hb by simp
    finally have nh: "unat (ucast (- drop_bit 32 t) :: limb) = 4294967296 - h"
      using h0 by (simp only: unat_ucast_down_u32 mod_mult_self1) simp
    have "unat t = h * 4294967296 + unat (ucast t :: limb)"
      by (simp add: unat_ucast_down_u32 h_def)
    then have "unat (ucast t :: limb) + p = unat r + 4294967296 * (4294967296 - h)"
      using ut hb p_le by simp
    then show ?thesis by (simp add: nh p_def)
  qed
qed

lemma mp_sub_mul1_loop_val:
  assumes "length xs = length ys" and "mp_sub_mul1_loop xs ys b l = (rs, l')"
  shows "lval rs + lval ys * unat b + unat l = lval xs + 4294967296 ^ length xs * unat l'
    \<and> length rs = length xs"
  using assms
proof (induction xs ys arbitrary: l rs l' rule: list_induct2)
  case Nil
  then show ?case by simp
next
  case (Cons r xs x ys)
  define t :: dlimb where "t = ucast r - ucast x * ucast b - ucast l"
  obtain rs1 where c: "mp_sub_mul1_loop xs ys b (ucast (- drop_bit 32 t)) = (rs1, l')"
    and rs: "rs = ucast t # rs1"
    using Cons.prems by (auto simp: t_def Let_def split: prod.splits)
  from Cons.IH [OF c] rs sub_mul1_step [of r x b l, folded t_def] show ?case
    by (auto simp: algebra_simps)
qed

lemma js_mp_sub_mul1_val:
  assumes "length xs = length ys" and "js_mp_sub_mul1 xs ys b = (rs, l')"
  shows "lval rs + lval ys * unat b = lval xs + 4294967296 ^ length xs * unat l'"
    and "length rs = length xs"
  using mp_sub_mul1_loop_val [OF assms(1), of b 0 rs l'] assms(2)
  by (simp_all add: js_mp_sub_mul1_def)

section \<open>Division by an invariant limb\<close>

text \<open>
  Division by a normalized divisor (top bit set) with a precomputed reciprocal: \<open>d_inv\<close> is
  \<open>floor((2^64 - 1) / d) - 2^32\<close>, and \<open>js_udiv1norm\<close> multiplies by it and corrects once. The
  pair is the quotient and the remainder (\<open>*pr\<close>).
\<close>

definition js_udiv1norm_init :: "limb \<Rightarrow> limb" where
  "js_udiv1norm_init d =
     (let a1 = - d - 1; a0 = -1 in ucast (mk_dlimb a1 a0 div ucast d))"

definition js_udiv1norm :: "limb \<Rightarrow> limb \<Rightarrow> limb \<Rightarrow> limb \<Rightarrow> limb \<times> limb" where
  "js_udiv1norm a1 a0 d d_inv =
     (let n1m = signed_drop_bit 31 a0;
          n_adj = a0 + (n1m AND d);
          a = ucast d_inv * ucast (a1 - n1m) + ucast n_adj :: dlimb;
          q = ucast (drop_bit 32 a) + a1;
          a' = mk_dlimb a1 a0 - ucast q * ucast d - ucast d;
          ah = ucast (drop_bit 32 a');
          q' = q + (1 + ah);
          r = ucast a' + (ah AND d)
      in (q', r))"

lemma recip_division:
  fixes M d v a1 a0 n1 :: int
  assumes d: "M \<le> 2 * d" "d < M" and a1: "0 \<le> a1" "a1 < d" and a0: "0 \<le> a0" "a0 < M"
    and v: "v = (M * M - 1) div d - M"
    and n1: "n1 = (if M \<le> 2 * a0 then 1 else 0)"
  defines "q \<equiv> a1 + (v * (a1 + n1) + (a0 + n1 * (d - M))) div M"
  shows "q * d \<le> a1 * M + a0 \<and> a1 * M + a0 < q * d + 2 * d"
proof -
  define e where "e = (M * M - 1) mod d"
  define Y where "Y = v * (a1 + n1) + (a0 + n1 * (d - M))"
  define \<rho> where "\<rho> = Y mod M"
  define T where "T = (1 + e) * a1 + (M - d) * a0 - n1 * ((M - d) * (M - d) - 1 - e) + d * \<rho>"
  have d0: "0 < d" and M0: "0 < M" using assms by auto
  have e: "0 \<le> e" "e < d" using d0 by (simp_all add: e_def)
  have "d * (v + M) = M * M - 1 - e"
    using div_mult_mod_eq [of "M * M - 1" d] by (simp add: v e_def algebra_simps)
  then have dv: "d * v = M * M - 1 - e - d * M" by (simp add: algebra_simps)
  have rho: "0 \<le> \<rho>" "\<rho> < M" using M0 by (simp_all add: \<rho>_def)
  have Y: "Y - \<rho> = M * (Y div M)" by (simp add: \<rho>_def minus_mod_eq_mult_div)
  have q: "q = a1 + Y div M" by (simp add: q_def Y_def)
  have T: "M * (a1 * M + a0 - q * d) = T"
  proof -
    have "M * (a1 * M + a0 - q * d) = M * (a1 * M + a0) - d * (M * a1 + (Y - \<rho>))"
      unfolding Y q by (simp add: algebra_simps)
    also have "d * Y = (d * v) * (a1 + n1) + d * (a0 + n1 * (d - M))"
      by (simp add: Y_def algebra_simps)
    then have "M * (a1 * M + a0) - d * (M * a1 + (Y - \<rho>)) = T"
      by (simp add: dv T_def algebra_simps)
    finally show ?thesis .
  qed
  have bounds: "0 \<le> T \<and> T < M * (2 * d)"
  proof (cases "M \<le> 2 * a0")
    case True
    have T1: "T = (1 + e) * (a1 + 1) + (M - d) * (a0 + d - M) + d * \<rho>"
      using True by (simp add: T_def n1 algebra_simps)
    have "(1 + e) * (a1 + 1) \<le> d * d" using e a1 by (intro mult_mono) auto
    moreover have "(M - d) * (a0 + d - M) \<le> (M - d) * d"
      using d a0 by (intro mult_left_mono) auto
    moreover have "d * \<rho> \<le> d * (M - 1)" using rho d0 by (intro mult_left_mono) auto
    moreover have "d * d + (M - d) * d + d * (M - 1) < M * (2 * d)"
      using d0 by (simp add: algebra_simps)
    moreover have "0 \<le> (1 + e) * (a1 + 1)" "0 \<le> (M - d) * (a0 + d - M)" "0 \<le> d * \<rho>"
      using True assms e rho d0 by auto
    ultimately show ?thesis unfolding T1 by linarith
  next
    case False
    have T0: "T = (1 + e) * a1 + (M - d) * a0 + d * \<rho>"
      using False by (simp add: T_def n1)
    have "(1 + e) * a1 \<le> d * d" using e a1 by (intro mult_mono) auto
    moreover have "(M - d) * a0 \<le> (M - d) * d"
      using False d a0 by (intro mult_left_mono) auto
    moreover have "d * \<rho> \<le> d * (M - 1)" using rho d0 by (intro mult_left_mono) auto
    moreover have "d * d + (M - d) * d + d * (M - 1) < M * (2 * d)"
      using d0 by (simp add: algebra_simps)
    moreover have "0 \<le> (1 + e) * a1" "0 \<le> (M - d) * a0" "0 \<le> d * \<rho>"
      using assms e rho d0 by auto
    ultimately show ?thesis unfolding T0 by linarith
  qed
  then have "0 \<le> M * (a1 * M + a0 - q * d)" and "M * (a1 * M + a0 - q * d) < M * (2 * d)"
    by (simp_all add: T)
  then have "0 \<le> a1 * M + a0 - q * d" and "a1 * M + a0 - q * d < 2 * d"
    using M0 by (simp_all add: zero_le_mult_iff)
  then show ?thesis by simp
qed

lemma signed_drop_bit_31: "signed_drop_bit 31 (x :: 32 word) = (if 2147483648 \<le> unat x then -1 else 0)"
proof -
  have b: "bit x 31 \<longleftrightarrow> 2147483648 \<le> unat x"
  proof -
    have "bit x 31 \<longleftrightarrow> odd (unat x div 2147483648)"
      using bit_unsigned_iff [of x 31, where 'a = nat] by (simp add: bit_iff_odd)
    moreover have "unat x div 2147483648 = (if 2147483648 \<le> unat x then 1 else 0)"
      using unat_lt_u32 [of x] by (auto simp: div_if)
    ultimately show ?thesis by simp
  qed
  show ?thesis
    by (rule bit_word_eqI) (auto simp: bit_signed_drop_bit_iff b not_less_eq_eq Suc_le_eq)
qed

lemma udiv1norm_init_val:
  assumes "2147483648 \<le> unat d"
  shows "int (unat (js_udiv1norm_init d)) = (4294967296 * 4294967296 - 1) div int (unat d) - 4294967296"
proof -
  define D where "D = unat d"
  note dl = unat_lt_u32 [of d]
  have D: "2147483648 \<le> D" "D < 4294967296" using assms dl by (simp_all add: D_def)
  have "unat (- d) = 4294967296 - D"
    using D unat_sub_if' [of 0 d] by (simp add: D_def)
  then have a1: "unat (- d - 1) = 4294967295 - D"
    using D by (subst unat_sub_if') (simp add: D_def)
  have a: "unat (mk_dlimb (- d - 1) (- 1)) = 18446744073709551615 - D * 4294967296"
    using D by (simp add: a1 unat_minus_1_u32)
  have q: "(18446744073709551615 - D * 4294967296) div D = 18446744073709551615 div D - 4294967296"
  proof -
    have "18446744073709551615 div D = (18446744073709551615 - D * 4294967296 + 4294967296 * D) div D"
      using D by simp
    also have "\<dots> = (18446744073709551615 - D * 4294967296) div D + 4294967296"
      using D by (subst div_mult_self1) auto
    finally show ?thesis by simp
  qed
  have "18446744073709551615 div D \<le> 18446744073709551615 div 2147483648"
    using D by (intro div_le_mono2) auto
  then have ql: "18446744073709551615 div D - 4294967296 < (4294967296 :: nat)" by simp
  have "4294967296 * D \<le> 18446744073709551615" using D by simp
  then have qg: "4294967296 \<le> 18446744073709551615 div D"
    using D by (simp add: less_eq_div_iff_mult_less_eq)
  have "unat (js_udiv1norm_init d) = 18446744073709551615 div D - 4294967296"
    using ql by (simp add: js_udiv1norm_init_def unat_ucast_down_u32 unat_div_distrib a q D_def [symmetric] del: unat_mk_dlimb)
  then show ?thesis using qg by (simp add: D_def zdiv_int)
qed

lemma js_udiv1norm_val:
  assumes d: "2147483648 \<le> unat d" and a1: "unat a1 < unat d"
    and r: "js_udiv1norm a1 a0 d (js_udiv1norm_init d) = (q, r)"
  shows "unat q = (unat a1 * 4294967296 + unat a0) div unat d"
    and "unat r = (unat a1 * 4294967296 + unat a0) mod unat d"
proof -
  define D A1 A0 V where "D = unat d" and "A1 = unat a1" and "A0 = unat a0"
    and "V = unat (js_udiv1norm_init d)"
  define n1 :: nat where "n1 = (if 2147483648 \<le> A0 then 1 else 0)"
  define nadj where "nadj = (if 2147483648 \<le> A0 then A0 + D - 4294967296 else A0)"
  define Y where "Y = V * (A1 + n1) + nadj"
  define Q where "Q = A1 + Y div 4294967296"
  define N where "N = A1 * 4294967296 + A0"
  have D: "2147483648 \<le> D" "D < 4294967296" and A1: "A1 < D" and A0: "A0 < 4294967296"
    using d a1 unat_lt_u32 [of d] unat_lt_u32 [of a0] by (simp_all add: D_def A1_def A0_def)
  have "int V = (4294967296 * 4294967296 - 1) div int D - 4294967296"
    unfolding V_def D_def by (rule udiv1norm_init_val [OF d])
  from recip_division [OF _ _ _ _ _ _ this, of "int A1" "int A0" "int n1"]
  have "int Q * int D \<le> int N \<and> int N < int Q * int D + 2 * int D"
    using D A1 A0 by (auto simp: n1_def Q_def N_def Y_def nadj_def zdiv_int add_diff_eq)
  then have "int (Q * D) \<le> int N" and "int N < int (Q * D + 2 * D)" by simp_all
  then have QN: "Q * D \<le> N" "N < Q * D + 2 * D" by linarith+
  have NM: "N < D * 4294967296"
  proof -
    have "(A1 + 1) * 4294967296 \<le> D * 4294967296" using A1 by (intro mult_right_mono) auto
    then show ?thesis using A0 by (simp add: N_def)
  qed
  have nl: "unat (a0 + (signed_drop_bit 31 a0 AND d)) = nadj"
    using D A0 by (simp add: signed_drop_bit_31 nadj_def unat_plus_if_u32 A0_def [symmetric] D_def [symmetric])
  have al: "unat (a1 - signed_drop_bit 31 a0) = A1 + n1"
    using D A1 by (simp add: signed_drop_bit_31 n1_def unat_plus_if_u32 A0_def [symmetric] A1_def [symmetric])
  define a :: dlimb where "a = ucast (js_udiv1norm_init d) * ucast (a1 - signed_drop_bit 31 a0)
    + ucast (a0 + (signed_drop_bit 31 a0 AND d))"
  have aY: "unat a = Y" by (simp only: a_def unat_mul_add_u64 nl al V_def Y_def)
  have hY: "Y div 4294967296 < 4294967296" using unat_lt_u64 [of a] by (simp add: aY)
  define qw where "qw = ucast (drop_bit 32 a) + a1"
  have "Q < 4294967296"
  proof -
    have "Q * D < 4294967296 * D" using QN NM by linarith
    then show ?thesis by (simp only: mult_less_cancel2)
  qed
  then have qw: "unat qw = Q"
    using hY by (simp add: qw_def unat_plus_if_u32 unat_ucast_down_u32 unat_drop_bit aY Q_def A1_def)
  define a' where "a' = mk_dlimb a1 a0 - ucast qw * ucast d - ucast d"
  define ah :: limb where "ah = ucast (drop_bit 32 a')"
  have qr: "q = qw + (1 + ah)" "r = ucast a' + (ah AND d)"
    using r by (simp_all add: js_udiv1norm_def Let_def a_def qw_def a'_def ah_def)
  have m: "unat (mk_dlimb a1 a0) = N" by (simp add: N_def A1_def A0_def)
  have p: "unat (ucast qw * ucast d + ucast d :: dlimb) = Q * D + D"
    by (simp add: unat_mul_add_u64 qw D_def)
  have a': "a' = mk_dlimb a1 a0 - (ucast qw * ucast d + ucast d)" by (simp add: a'_def)
  have "unat q * D + unat r = N \<and> unat r < D"
  proof (cases "Q * D + D \<le> N")
    case True
    have ua: "unat a' = N - (Q * D + D)"
      unfolding a' using True by (subst unat_sub_if') (simp add: p m del: unat_mk_dlimb)
    have small: "unat a' < D" using QN True by (simp add: ua)
    then have "ah = 0" using D
      by (simp add: ah_def word_unat_eq_iff unat_ucast_down_u32 unat_drop_bit)
    moreover have "Q + 1 < 4294967296"
    proof -
      have "(Q + 1) * D = Q * D + D" by simp
      then have "(Q + 1) * D < 4294967296 * D" using True NM by linarith
      then show ?thesis by (simp only: mult_less_cancel2)
    qed
    ultimately have "unat q = Q + 1" and "unat r = unat a'"
      using qw small D by (simp_all add: qr unat_plus_if_u32 unat_ucast_down_u32)
    with ua True small show ?thesis by (simp add: algebra_simps)
  next
    case False
    define z where "z = Q * D + D - N"
    have z: "0 < z" "z \<le> D" using False QN by (auto simp: z_def)
    have ua: "unat a' = 18446744073709551616 - z"
      unfolding a' using False by (subst unat_sub_if') (simp add: p m z_def del: unat_mk_dlimb)
    also have "\<dots> = (4294967296 - z) + 4294967295 * 4294967296" using z D by simp
    finally have ua2: "unat a' = (4294967296 - z) + 4294967295 * 4294967296" .
    have zl: "4294967296 - z < 4294967296" using z by simp
    have "unat ah = 4294967295"
      using zl by (simp add: ah_def unat_ucast_down_u32 unat_drop_bit ua2)
    then have ah: "ah = -1" by (simp add: word_unat_eq_iff unat_minus_1_u32)
    have low: "unat (ucast a' :: limb) = 4294967296 - z"
      using zl by (simp only: unat_ucast_down_u32 ua2 mod_mult_self1 mod_less)
    have "unat q = Q" by (simp add: qr ah qw)
    moreover have "unat r = D - z"
      using z D low by (simp add: qr ah unat_plus_if_u32 D_def [symmetric])
    ultimately show ?thesis using z QN by (simp add: z_def)
  qed
  then have e: "N = unat r + unat q * D" and l: "unat r < D" by simp_all
  have "N div D = unat q" unfolding e using l by simp
  moreover have "N mod D = unat r" unfolding e using l by simp
  ultimately show "unat q = (unat a1 * 4294967296 + unat a0) div unat d"
    and "unat r = (unat a1 * 4294967296 + unat a0) mod unat d"
    by (simp_all add: N_def A1_def A0_def D_def)
qed

end
