(* ===== verification/Limb_Division.thy ===== *)
theory Limb_Division
  imports Limbs
begin

text \<open>
  Shifts of limb arrays and the multi-limb division of \<open>src/qjs/quickjs.c\<close>
  (\<open>js_mp_shl\<close>, \<open>js_mp_shr\<close>, \<open>js_mp_div1norm\<close>, \<open>js_mp_divnorm\<close>): Knuth's algorithm D with
  the quotient digit estimated from the top limb of the divisor alone and corrected by
  adding the divisor back until the partial remainder is no longer negative. The add-back
  loop of the code has no bound of its own; it is a \<open>partial_function\<close> and the proof shows
  that it returns.
\<close>

section \<open>Shifts\<close>

text \<open>\<open>1 \<le> shift \<le> 31\<close>. The low bits shifted in are \<open>l\<close> (0 in the first call).\<close>

fun mp_shl_loop :: "limb list \<Rightarrow> nat \<Rightarrow> limb \<Rightarrow> limb list \<times> limb" where
  "mp_shl_loop [] shift l = ([], l)"
| "mp_shl_loop (v # vs) shift l =
     (let (rs, l') = mp_shl_loop vs shift (drop_bit (32 - shift) v)
      in ((push_bit shift v OR l) # rs, l'))"

definition js_mp_shl :: "limb list \<Rightarrow> nat \<Rightarrow> limb list \<times> limb" where
  "js_mp_shl taba shift = mp_shl_loop taba shift 0"

text \<open>\<open>js_mp_shr\<close> goes from the top limb down; the pair is the result and the last limb read.\<close>

fun mp_shr_loop :: "limb list \<Rightarrow> nat \<Rightarrow> limb \<Rightarrow> limb list \<times> limb" where
  "mp_shr_loop [] shift high = ([], high)"
| "mp_shr_loop (a # as) shift high =
     (let (rs, l) = mp_shr_loop as shift high
      in ((drop_bit shift a OR push_bit (32 - shift) l) # rs, a))"

definition js_mp_shr :: "limb list \<Rightarrow> nat \<Rightarrow> limb \<Rightarrow> limb list \<times> limb" where
  "js_mp_shr tab shift high =
     (let (rs, l) = mp_shr_loop tab shift high in (rs, l AND mask shift))"

lemma mp_shl_loop_val:
  assumes "mp_shl_loop xs s l = (rs, l')" and "0 < s" "s < 32" and "unat l < 2 ^ s"
  shows "lval rs + 4294967296 ^ length xs * unat l' = lval xs * 2 ^ s + unat l
    \<and> length rs = length xs \<and> unat l' < 2 ^ s"
  using assms(1,4)
proof (induction xs arbitrary: l rs l')
  case Nil
  then show ?case by simp
next
  case (Cons v vs)
  obtain rs1 l1 where c: "mp_shl_loop vs s (drop_bit (32 - s) v) = (rs1, l1)" by force
  have rs: "rs = (push_bit s v OR l) # rs1" and l': "l' = l1"
    using Cons.prems(1) c by simp_all
  have M: "(4294967296 :: nat) = 2 ^ (32 - s) * 2 ^ s"
    using assms(3) by (simp flip: power_add)
  have "unat v < 2 ^ s * 2 ^ (32 - s)" using unat_lt_u32 [of v] by (simp only: M mult.commute)
  then have d: "unat (drop_bit (32 - s) v) < 2 ^ s"
    by (simp only: unat_drop_bit) (simp add: less_mult_imp_div_less)
  have "unat (push_bit s v OR l) = unat v mod 2 ^ (32 - s) * 2 ^ s + unat l"
    using assms(3) Cons.prems(2) by (subst unat_push_bit_or) simp_all
  moreover have "unat v * 2 ^ s = 4294967296 * unat (drop_bit (32 - s) v) + unat v mod 2 ^ (32 - s) * 2 ^ s"
  proof -
    have "unat v * 2 ^ s
        = (2 ^ (32 - s) * (unat v div 2 ^ (32 - s)) + unat v mod 2 ^ (32 - s)) * 2 ^ s"
      by (simp only: mult_div_mod_eq)
    also have "\<dots> = (2 ^ (32 - s) * 2 ^ s) * (unat v div 2 ^ (32 - s)) + unat v mod 2 ^ (32 - s) * 2 ^ s"
      by (simp only: algebra_simps)
    finally show ?thesis by (simp only: M unat_drop_bit)
  qed
  ultimately have "unat (push_bit s v OR l) + 4294967296 * unat (drop_bit (32 - s) v)
      = unat v * 2 ^ s + unat l" by simp
  with Cons.IH [OF c d] rs l' show ?case by (simp add: algebra_simps)
qed

lemma js_mp_shl_val:
  assumes "js_mp_shl xs s = (rs, l)" and "0 < s" "s < 32"
  shows "lval rs + 4294967296 ^ length xs * unat l = lval xs * 2 ^ s"
    and "length rs = length xs" and "unat l < 2 ^ s"
  using mp_shl_loop_val [of xs s 0 rs l] assms by (simp_all add: js_mp_shl_def)

lemma mp_shr_loop_val:
  assumes "mp_shr_loop xs s h = (rs, l)" and "0 < s" "s < 32"
  shows "lval rs * 2 ^ s + unat l mod 2 ^ s
      = lval xs + 4294967296 ^ length xs * (unat h mod 2 ^ s)
    \<and> length rs = length xs"
  using assms(1)
proof (induction xs arbitrary: rs l)
  case Nil
  then show ?case by simp
next
  case (Cons a as)
  obtain rs1 l1 where c: "mp_shr_loop as s h = (rs1, l1)" by force
  have rs: "rs = (drop_bit s a OR push_bit (32 - s) l1) # rs1" and l: "l = a"
    using Cons.prems c by auto
  have M: "(4294967296 :: nat) = 2 ^ (32 - s) * 2 ^ s"
    using assms(3) by (simp flip: power_add)
  have "unat a < 2 ^ (32 - s) * 2 ^ s" using unat_lt_u32 [of a] by (simp only: M)
  then have d: "unat (drop_bit s a) < 2 ^ (32 - s)"
    by (simp only: unat_drop_bit) (simp add: less_mult_imp_div_less)
  have "unat (drop_bit s a OR push_bit (32 - s) l1) = unat l1 mod 2 ^ s * 2 ^ (32 - s) + unat (drop_bit s a)"
    using unat_push_bit_or [of "32 - s" "drop_bit s a" l1] assms(3) d by (simp add: or.commute)
  then have "unat (drop_bit s a OR push_bit (32 - s) l1) * 2 ^ s
      = 4294967296 * (unat l1 mod 2 ^ s) + unat (drop_bit s a) * 2 ^ s"
    by (simp only: M add_mult_distrib) (simp add: algebra_simps)
  moreover have "unat (drop_bit s a) * 2 ^ s + unat a mod 2 ^ s = unat a"
    by (simp only: unat_drop_bit div_mult_mod_eq)
  ultimately have "unat (drop_bit s a OR push_bit (32 - s) l1) * 2 ^ s + unat a mod 2 ^ s
      = unat a + 4294967296 * (unat l1 mod 2 ^ s)" by simp
  with Cons.IH [OF c] rs l show ?case by (simp add: algebra_simps)
qed

lemma js_mp_shr_val:
  assumes "js_mp_shr xs s h = (rs, r)" and "0 < s" "s < 32"
  shows "lval rs * 2 ^ s + unat r = lval xs + 4294967296 ^ length xs * (unat h mod 2 ^ s)"
    and "unat r < 2 ^ s" and "length rs = length xs"
proof -
  obtain l where c: "mp_shr_loop xs s h = (rs, l)" and r: "r = l AND mask s"
    using assms(1) by (auto simp: js_mp_shr_def split: prod.splits)
  from mp_shr_loop_val [OF c assms(2,3)] r
  show "lval rs * 2 ^ s + unat r = lval xs + 4294967296 ^ length xs * (unat h mod 2 ^ s)"
    and "unat r < 2 ^ s" and "length rs = length xs"
    by (simp_all only: unat_and_mask) simp_all
qed

section \<open>Division by a normalized limb\<close>

fun mp_div1norm_loop :: "limb list \<Rightarrow> limb \<Rightarrow> limb \<Rightarrow> limb \<Rightarrow> limb list \<times> limb" where
  "mp_div1norm_loop [] b b_inv r = ([], r)"
| "mp_div1norm_loop (x # xs) b b_inv r =
     (let (qs, r1) = mp_div1norm_loop xs b b_inv r;
          (q, r2) = js_udiv1norm r1 x b b_inv
      in (q # qs, r2))"

text \<open>
  \<open>UDIV1NORM_THRESHOLD\<close> is 3. The \<open>else\<close> branch of the code is the loop of \<open>js_mp_div1\<close>.
\<close>

definition js_mp_div1norm :: "limb list \<Rightarrow> limb \<Rightarrow> limb \<Rightarrow> limb list \<times> limb" where
  "js_mp_div1norm taba b r =
     (if 3 \<le> length taba then mp_div1norm_loop taba b (js_udiv1norm_init b) r
      else js_mp_div1 taba b r)"

lemma mp_div1norm_loop_eq:
  assumes "2147483648 \<le> unat b" and "unat r < unat b"
  shows "mp_div1norm_loop xs b (js_udiv1norm_init b) r = js_mp_div1 xs b r"
proof (induction xs)
  case Nil
  then show ?case by simp
next
  case (Cons x xs)
  obtain qs r1 where d: "js_mp_div1 xs b r = (qs, r1)" by force
  obtain q r2 where u: "js_udiv1norm r1 x b (js_udiv1norm_init b) = (q, r2)" by force
  obtain qs' r' where d': "js_mp_div1 (x # xs) b r = (qs', r')" by force
  have r1: "unat r1 < unat b" using js_mp_div1_val [OF d assms(2)] by simp
  define N where "N = unat r1 * 4294967296 + unat x"
  note uv = js_udiv1norm_val [OF assms(1) r1 u, folded N_def]
  have qs': "qs' = ucast (mk_dlimb r1 x div ucast b) # qs" "r' = ucast (mk_dlimb r1 x mod ucast b)"
    using d d' by (auto simp: Let_def)
  have m: "unat (mk_dlimb r1 x) = N" by (simp add: N_def)
  have "N div unat b < 4294967296" using uv(1) unat_lt_u32 [of q] by simp
  then have "unat (ucast (mk_dlimb r1 x div ucast b) :: limb) = N div unat b"
    by (simp add: unat_ucast_down_u32 unat_div_distrib m del: unat_mk_dlimb)
  moreover have "N mod unat b < 4294967296" using uv(2) unat_lt_u32 [of r2] by simp
  then have "unat (ucast (mk_dlimb r1 x mod ucast b) :: limb) = N mod unat b"
    by (simp add: unat_ucast_down_u32 unat_mod_distrib m del: unat_mk_dlimb)
  ultimately have "qs' = q # qs" and "r' = r2"
    using uv by (simp_all add: qs' word_unat_eq_iff)
  moreover have "mp_div1norm_loop (x # xs) b (js_udiv1norm_init b) r = (q # qs, r2)"
    by (simp add: Cons.IH d u)
  ultimately show ?case using d' by simp
qed

text \<open>Both branches of \<open>js_mp_div1norm\<close> compute the same division.\<close>

lemma js_mp_div1norm_eq:
  "2147483648 \<le> unat b \<Longrightarrow> unat r < unat b \<Longrightarrow> js_mp_div1norm xs b r = js_mp_div1 xs b r"
  by (simp add: js_mp_div1norm_def mp_div1norm_loop_eq)

section \<open>Multi-limb division\<close>

text \<open>
  The loop that adds the divisor back: \<open>seg\<close> is \<open>taba[i .. i+nb-1]\<close> and \<open>hi\<close> is \<open>taba[i + nb]\<close>.
\<close>

partial_function (option) divnorm_add_back ::
  "limb list \<Rightarrow> limb list \<Rightarrow> limb \<Rightarrow> limb \<Rightarrow> (limb \<times> limb list \<times> limb) option" where
  "divnorm_add_back tabb seg hi q =
     (let q' = q - 1;
          (seg', c) = js_mp_add seg tabb 0
      in if c \<noteq> 0
         then (let hi' = hi + 1
               in if hi' = 0 then Some (q', seg', hi')
                  else divnorm_add_back tabb seg' hi' q')
         else divnorm_add_back tabb seg' hi q')"

text \<open>The estimate of the next quotient digit from the two top limbs.\<close>

definition divnorm_estimate :: "limb \<Rightarrow> limb \<Rightarrow> limb \<Rightarrow> limb \<Rightarrow> limb" where
  "divnorm_estimate b1 b1_inv hi next =
     (if hi \<ge> b1 then -1
      else if b1_inv \<noteq> 0 then fst (js_udiv1norm hi next b1 b1_inv)
      else ucast (mk_dlimb hi next div ucast b1))"

text \<open>One iteration: the quotient digit and the new \<open>taba[i .. i+nb]\<close>.\<close>

definition divnorm_step ::
  "limb list \<Rightarrow> limb \<Rightarrow> limb \<Rightarrow> limb list \<Rightarrow> limb \<Rightarrow> (limb \<times> limb list \<times> limb) option" where
  "divnorm_step tabb b1 b1_inv seg hi =
     (let q = divnorm_estimate b1 b1_inv hi (last seg);
          (seg', r) = js_mp_sub_mul1 seg tabb q;
          v = hi;
          a = v - r;
          c = a > v
      in if c then divnorm_add_back tabb seg' a q else Some (q, seg', a))"

text \<open>
  The loop \<open>for(i = n - 1; i >= 0; i--)\<close>, with \<open>Suc i\<close> iterations to go; \<open>tabq\<close> holds the
  digits found so far, the most significant last.
\<close>

fun divnorm_loop ::
  "limb list \<Rightarrow> limb \<Rightarrow> limb \<Rightarrow> nat \<Rightarrow> limb list \<Rightarrow> limb list \<Rightarrow> (limb list \<times> limb list) option" where
  "divnorm_loop tabb b1 b1_inv 0 taba tabq = Some (tabq, taba)"
| "divnorm_loop tabb b1 b1_inv (Suc i) taba tabq =
     (let nb = length tabb in
      case divnorm_step tabb b1 b1_inv (take nb (drop i taba)) (taba ! (i + nb)) of
        None \<Rightarrow> None
      | Some (q, seg, hi) \<Rightarrow>
          divnorm_loop tabb b1 b1_inv i (take i taba @ seg @ hi # drop (i + nb + 1) taba) (q # tabq))"

text \<open>The first quotient digit, 0 or 1: the limbs are compared from the top one down.\<close>

fun divnorm_first :: "limb list \<Rightarrow> limb list \<Rightarrow> limb" where
  "divnorm_first (a # as) (b # bs) =
     (if a \<noteq> b then (if a < b then 0 else 1) else divnorm_first as bs)"
| "divnorm_first _ _ = 1"

text \<open>
  \<open>js_mp_divnorm\<close>: the quotient array \<open>tabq\<close> and the new contents of \<open>taba\<close>, whose low \<open>nb\<close>
  limbs are the remainder; \<open>None\<close> if an add-back loop does not return.
\<close>

definition js_mp_divnorm :: "limb list \<Rightarrow> limb list \<Rightarrow> (limb list \<times> limb list) option" where
  "js_mp_divnorm taba tabb =
     (let na = length taba;
          nb = length tabb;
          b1 = last tabb
      in if nb = 1
         then (let (tabq, r) = js_mp_div1norm taba b1 0 in Some (tabq, taba[0 := r]))
         else
           (let n = na - nb;
                b1_inv = (if 3 \<le> n then js_udiv1norm_init b1 else 0);
                q = divnorm_first (rev (drop n taba)) (rev tabb);
                taba' = (if q \<noteq> 0 then take n taba @ fst (js_mp_sub (drop n taba) tabb 0) else taba)
            in divnorm_loop tabb b1 b1_inv n taba' [q]))"

text \<open>
  The add-back loop. \<open>X\<close> is the partial remainder, negative, stored in two's complement over
  the limbs \<open>seg\<close> and \<open>hi\<close>.
\<close>

lemma divnorm_add_back_val:
  assumes "length seg = length tabb" and "0 < lval tabb" and "hi \<noteq> 0"
    and "X = int (lval seg) + 4294967296 ^ length tabb * (int (unat hi) - 4294967296)"
  shows "\<exists>k seg'. divnorm_add_back tabb seg hi q = Some (q - of_nat k, seg', 0)
    \<and> int (lval seg') = X + int k * int (lval tabb) \<and> lval seg' < lval tabb
    \<and> length seg' = length tabb"
  using assms
proof (induction "nat (- X)" arbitrary: seg hi q X rule: less_induct)
  case less
  define B :: nat where "B = 4294967296 ^ length tabb"
  obtain seg1 c where a: "js_mp_add seg tabb 0 = (seg1, c)" by force
  from js_mp_add_val [OF less.prems(1) _ a] less.prems(1)
  have v: "lval seg1 + B * unat c = lval seg + lval tabb" and c1: "unat c \<le> 1"
    and l1: "length seg1 = length tabb" by (simp_all add: B_def)
  have b0: "0 < lval tabb" by (rule less.prems(2))
  have hl: "unat hi < 4294967296" by (rule unat_lt_u32)
  have X: "X = int (lval seg) + int B * (int (unat hi) - 4294967296)"
    using less.prems(4) by (simp add: B_def)
  have segB: "lval seg < B" using lval_bound [of seg] less.prems(1) by (simp add: B_def)
  have "int (unat hi) - 4294967296 \<le> -1" using hl by linarith
  then have "int B * (int (unat hi) - 4294967296) \<le> int B * (-1)"
    by (rule mult_left_mono) simp
  then have Xneg: "X < 0" using X segB by simp
  define X' where "X' = X + int (lval tabb)"
  have fuel: "nat (- X') < nat (- X)" using Xneg b0 by (simp add: X'_def)
  show ?case
  proof (cases "unat c = 0")
    case True
    then have c0: "c = 0" by (simp add: unat_eq_0)
    have X1: "X' = int (lval seg1) + 4294967296 ^ length tabb * (int (unat hi) - 4294967296)"
      using v True X by (simp add: X'_def B_def)
    obtain k seg' where
      IH: "divnorm_add_back tabb seg1 hi (q - 1) = Some (q - 1 - of_nat k, seg', 0)"
        "int (lval seg') = X' + int k * int (lval tabb)" "lval seg' < lval tabb"
        "length seg' = length tabb"
      using less.hyps [OF fuel l1 b0 less.prems(3) X1, of "q - 1"] by blast
    have "divnorm_add_back tabb seg hi q = Some (q - of_nat (Suc k), seg', 0)"
      using IH(1) by (subst divnorm_add_back.simps) (simp add: a c0 algebra_simps)
    with IH show ?thesis
      by (intro exI [of _ "Suc k"] exI [of _ seg']) (simp add: X'_def algebra_simps)
  next
    case False
    then have c: "unat c = 1" using c1 by simp
    then have cn: "c \<noteq> 0" by auto
    have v': "lval seg1 + B = lval seg + lval tabb" using v c by simp
    show ?thesis
    proof (cases "hi + 1 = 0")
      case True
      then have "unat hi = 4294967295"
        using unat_plus_if_u32 [of hi 1] hl by (auto split: if_splits)
      then have "int (lval seg1) = X'" using v' X by (simp add: X'_def)
      moreover have "divnorm_add_back tabb seg hi q = Some (q - of_nat 1, seg1, 0)"
        by (subst divnorm_add_back.simps) (simp add: a cn True)
      moreover have "int (lval seg1) < int (lval tabb)"
        using \<open>int (lval seg1) = X'\<close> Xneg by (simp add: X'_def)
      ultimately show ?thesis using l1
        by (intro exI [of _ 1] exI [of _ seg1]) (simp add: X'_def)
    next
      case nz: False
      then have "unat hi + 1 < 4294967296"
        using unat_plus_if_u32 [of hi 1] hl by (auto simp: word_unat_eq_iff split: if_splits)
      then have uh: "unat (hi + 1) = unat hi + 1" by (simp add: unat_plus_if_u32)
      have X1: "X' = int (lval seg1) + 4294967296 ^ length tabb * (int (unat (hi + 1)) - 4294967296)"
      proof -
        have "int (lval seg1) = int (lval seg) + int (lval tabb) - int B" using v' by linarith
        moreover have "int (unat (hi + 1)) = int (unat hi) + 1" using uh by linarith
        ultimately have "X' = int (lval seg1) + int B * (int (unat (hi + 1)) - 4294967296)"
          unfolding X'_def X by (simp only: algebra_simps)
        then show ?thesis by (simp add: B_def)
      qed
      obtain k seg' where
        IH: "divnorm_add_back tabb seg1 (hi + 1) (q - 1) = Some (q - 1 - of_nat k, seg', 0)"
          "int (lval seg') = X' + int k * int (lval tabb)" "lval seg' < lval tabb"
          "length seg' = length tabb"
        using less.hyps [OF fuel l1 b0 nz X1, of "q - 1"] by blast
      have "divnorm_add_back tabb seg hi q = Some (q - of_nat (Suc k), seg', 0)"
        using IH(1) by (subst divnorm_add_back.simps) (simp add: a cn nz Let_def diff_diff_eq)
      with IH show ?thesis
        by (intro exI [of _ "Suc k"] exI [of _ seg']) (simp add: X'_def algebra_simps)
    qed
  qed
qed

text \<open>The estimate is never below the true digit.\<close>

lemma divnorm_estimate_ge:
  assumes nb: "length tabb = Suc k" "length seg = Suc k"
    and b1: "b1 = last tabb" "2147483648 \<le> unat b1"
    and inv: "b1_inv = 0 \<or> b1_inv = js_udiv1norm_init b1"
    and w: "lval seg + 4294967296 ^ Suc k * unat hi < 4294967296 * lval tabb"
  shows "lval seg + 4294967296 ^ Suc k * unat hi
    < (unat (divnorm_estimate b1 b1_inv hi (last seg)) + 1) * lval tabb"
proof (cases "b1 \<le> hi")
  case True
  then have "divnorm_estimate b1 b1_inv hi (last seg) = -1" by (simp add: divnorm_estimate_def)
  with w show ?thesis by (simp add: unat_minus_1_u32)
next
  case False
  then have lt: "unat hi < unat b1" by (simp add: word_le_nat_alt)
  define N where "N = unat hi * 4294967296 + unat (last seg)"
  define P :: nat where "P = 4294967296 ^ k"
  have "N < unat b1 * 4294967296"
  proof -
    have "(unat hi + 1) * 4294967296 \<le> unat b1 * 4294967296" using lt by (intro mult_right_mono) auto
    then show ?thesis using unat_lt_u32 [of "last seg"] by (simp add: N_def)
  qed
  then have Ndiv: "N div unat b1 < 4294967296" by (simp add: less_mult_imp_div_less mult.commute)
  have est: "unat (divnorm_estimate b1 b1_inv hi (last seg)) = N div unat b1"
  proof (cases "b1_inv = 0")
    case True
    have "unat (mk_dlimb hi (last seg)) = N" by (simp add: N_def)
    with True False Ndiv show ?thesis
      by (simp add: divnorm_estimate_def unat_ucast_down_u32 unat_div_distrib del: unat_mk_dlimb)
  next
    case False
    obtain q r where u: "js_udiv1norm hi (last seg) b1 (js_udiv1norm_init b1) = (q, r)" by force
    from js_udiv1norm_val(1) [OF b1(2) lt u] False inv \<open>\<not> b1 \<le> hi\<close> show ?thesis
      by (auto simp: divnorm_estimate_def u N_def)
  qed
  have b: "tabb \<noteq> []" and s: "seg \<noteq> []" using nb by auto
  have "lval tabb = lval (butlast tabb) + P * unat b1"
    using lval_append [of "butlast tabb" "[last tabb]"] b b1(1) nb by (simp add: P_def)
  then have Bge: "P * unat b1 \<le> lval tabb" by simp
  have seg: "lval seg = lval (butlast seg) + P * unat (last seg)"
    using lval_append [of "butlast seg" "[last seg]"] s nb by (simp add: P_def)
  have low: "lval (butlast seg) < P" using lval_bound [of "butlast seg"] nb by (simp add: P_def)
  have "lval seg + 4294967296 ^ Suc k * unat hi = lval (butlast seg) + P * N"
    by (simp add: seg N_def P_def algebra_simps)
  also have "\<dots> < P * (N + 1)" using low by simp
  also have "\<dots> \<le> P * ((N div unat b1 + 1) * unat b1)"
  proof -
    have "N < (N div unat b1 + 1) * unat b1"
      using b1(2) dividend_less_div_times [of "unat b1" N] by (simp add: algebra_simps)
    then show ?thesis by (intro mult_left_mono) auto
  qed
  also have "\<dots> = (N div unat b1 + 1) * (P * unat b1)" by (simp add: algebra_simps)
  also have "\<dots> \<le> (N div unat b1 + 1) * lval tabb" using Bge by (rule mult_left_mono) simp
  finally show ?thesis by (simp add: est)
qed

text \<open>One iteration finds the exact digit and the remainder, and clears the top limb.\<close>

lemma divnorm_step_val:
  assumes nb: "length tabb = Suc k" "length seg = Suc k"
    and b1: "b1 = last tabb" "2147483648 \<le> unat b1"
    and inv: "b1_inv = 0 \<or> b1_inv = js_udiv1norm_init b1"
    and w: "lval seg + 4294967296 ^ Suc k * unat hi < 4294967296 * lval tabb"
  shows "\<exists>q seg'. divnorm_step tabb b1 b1_inv seg hi = Some (q, seg', 0)
    \<and> lval seg + 4294967296 ^ Suc k * unat hi = unat q * lval tabb + lval seg'
    \<and> lval seg' < lval tabb \<and> length seg' = Suc k"
proof -
  define q0 where "q0 = divnorm_estimate b1 b1_inv hi (last seg)"
  define B :: nat where "B = 4294967296 ^ Suc k"
  define W where "W = lval seg + B * unat hi"
  obtain seg1 r where s: "js_mp_sub_mul1 seg tabb q0 = (seg1, r)" by force
  note sv = js_mp_sub_mul1_val [OF _ s]
  have v: "lval seg1 + lval tabb * unat q0 = lval seg + B * unat r" and l1: "length seg1 = Suc k"
    using sv nb by (simp_all add: B_def)
  have up: "W < (unat q0 + 1) * lval tabb"
    using divnorm_estimate_ge [OF nb b1 inv w] by (simp add: W_def B_def q0_def)
  have step: "divnorm_step tabb b1 b1_inv seg hi
      = (if hi - r > hi then divnorm_add_back tabb seg1 (hi - r) q0 else Some (q0, seg1, hi - r))"
    by (simp add: divnorm_step_def Let_def s flip: q0_def)
  note rl = unat_lt_u32 [of r] and hl = unat_lt_u32 [of hi]
  have tB: "lval tabb < B" using lval_bound [of tabb] nb by (simp add: B_def)
  show ?thesis
  proof (cases "unat r \<le> unat hi")
    case True
    then have a: "unat (hi - r) = unat hi - unat r" by (simp add: unat_minus_if_u32)
    have eq: "W = unat q0 * lval tabb + (lval seg1 + B * (unat hi - unat r))"
    proof -
      have "B * unat hi = B * unat r + B * (unat hi - unat r)"
        using True by (simp flip: distrib_left)
      then show ?thesis using v by (simp add: W_def algebra_simps)
    qed
    with up have lt: "lval seg1 + B * (unat hi - unat r) < lval tabb" by simp
    then have "B * (unat hi - unat r) < B * 1" using tB by linarith
    then have "unat hi - unat r < 1" by (simp only: mult_less_cancel1)
    then have z: "unat hi - unat r = 0" by linarith
    then have h0: "hi - r = 0" using a by (simp add: unat_eq_0)
    have "\<not> hi - r > hi" by (simp add: h0)
    then have "divnorm_step tabb b1 b1_inv seg hi = Some (q0, seg1, 0)" by (simp add: step h0)
    with eq lt z l1 show ?thesis by (intro exI [of _ q0] exI [of _ seg1]) (simp add: W_def B_def)
  next
    case False
    then have a: "unat (hi - r) = unat hi + 4294967296 - unat r" by (simp add: unat_minus_if_u32)
    then have gt: "hi - r > hi" and nz: "hi - r \<noteq> 0"
      using rl hl False by (auto simp: word_less_nat_alt)
    define X where "X = int (lval seg1) + 4294967296 ^ length tabb * (int (unat (hi - r)) - 4294967296)"
    have XW: "X = int W - int (unat q0) * int (lval tabb)"
    proof -
      have "int (unat (hi - r)) - 4294967296 = int (unat hi) - int (unat r)"
        using a False hl rl by linarith
      then have "X = int (lval seg1) + int B * (int (unat hi) - int (unat r))"
        unfolding X_def using nb by (simp only: B_def of_nat_power of_nat_numeral)
      moreover have "int (lval seg1) + int (lval tabb) * int (unat q0) = int (lval seg) + int B * int (unat r)"
        using v by (metis of_nat_add of_nat_mult)
      ultimately show ?thesis by (simp only: W_def of_nat_add of_nat_mult) (simp add: algebra_simps)
    qed
    have b0: "0 < lval tabb" using w by (cases "lval tabb") auto
    obtain k' seg' where ab: "divnorm_add_back tabb seg1 (hi - r) q0 = Some (q0 - of_nat k', seg', 0)"
      "int (lval seg') = X + int k' * int (lval tabb)" "lval seg' < lval tabb" "length seg' = length tabb"
      using divnorm_add_back_val [OF _ b0 nz X_def, of q0] l1 nb by auto
    have e: "int W = (int (unat q0) - int k') * int (lval tabb) + int (lval seg')"
      using ab(2) XW by (simp add: algebra_simps)
    have "0 \<le> int (unat q0) - int k'"
    proof (rule ccontr)
      assume "\<not> 0 \<le> int (unat q0) - int k'"
      then have "int (unat q0) - int k' \<le> -1" by linarith
      then have "(int (unat q0) - int k') * int (lval tabb) \<le> -1 * int (lval tabb)"
        by (rule mult_right_mono) simp
      with e ab(3) show False by simp
    qed
    then have kq: "k' \<le> unat q0" by linarith
    then have uq: "unat (q0 - of_nat k') = unat q0 - k'"
      using unat_lt_u32 [of q0] by (simp add: unat_minus_if_u32 unat_of_nat)
    have "W = unat (q0 - of_nat k') * lval tabb + lval seg'"
      using e kq by (simp only: uq flip: of_nat_diff of_nat_mult of_nat_add)
    moreover have "divnorm_step tabb b1 b1_inv seg hi = Some (q0 - of_nat k', seg', 0)"
      by (simp only: step gt ab(1) if_True)
    ultimately show ?thesis using ab nb
      by (intro exI [of _ "q0 - of_nat k'"] exI [of _ seg']) (simp add: W_def B_def)
  qed
qed

lemma drop_take_Suc_eq:
  assumes "i + n < length xs"
  shows "take (Suc n) (drop i xs) = take n (drop i xs) @ [xs ! (i + n)]"
    and "take (Suc n) (drop i xs) = xs ! i # take n (drop (Suc i) xs)"
proof -
  show "take (Suc n) (drop i xs) = take n (drop i xs) @ [xs ! (i + n)]"
    using assms by (simp add: take_Suc_conv_app_nth)
  have "drop i xs = xs ! i # drop (Suc i) xs"
    using assms by (simp add: Cons_nth_drop_Suc)
  then show "take (Suc n) (drop i xs) = xs ! i # take n (drop (Suc i) xs)" by simp
qed

text \<open>The whole loop: digits and remainder of the number in the low \<open>i + nb\<close> limbs.\<close>

lemma divnorm_loop_val:
  assumes nb: "length tabb = Suc k"
    and b1: "b1 = last tabb" "2147483648 \<le> unat b1"
    and inv: "b1_inv = 0 \<or> b1_inv = js_udiv1norm_init b1"
    and len: "i + Suc k \<le> length taba"
    and lt: "lval (take (Suc k) (drop i taba)) < lval tabb"
  shows "\<exists>qs taba'. divnorm_loop tabb b1 b1_inv i taba tabq = Some (qs @ tabq, taba')
    \<and> length qs = i \<and> length taba' = length taba
    \<and> lval (take (i + Suc k) taba) = lval qs * lval tabb + lval (take (Suc k) taba')
    \<and> lval (take (Suc k) taba') < lval tabb"
  using len lt
proof (induction i arbitrary: taba tabq)
  case 0
  then show ?case by simp
next
  case (Suc i)
  define seg where "seg = take (Suc k) (drop i taba)"
  define hi where "hi = taba ! (i + Suc k)"
  define P :: nat where "P = 4294967296 ^ i"
  have il: "i + Suc k < length taba" using Suc.prems(1) by simp
  have ls: "length seg = Suc k" using il by (simp add: seg_def)
  have win: "lval (take (Suc (Suc k)) (drop i taba)) = lval seg + 4294967296 ^ Suc k * unat hi"
    by (simp only: drop_take_Suc_eq(1) [OF il] lval_append)
      (use ls in \<open>simp add: seg_def hi_def\<close>)
  have "lval (take (Suc (Suc k)) (drop i taba)) = unat (taba ! i) + 4294967296 * lval (take (Suc k) (drop (Suc i) taba))"
    by (simp only: drop_take_Suc_eq(2) [OF il] lval.simps)
  also have "\<dots> < 4294967296 * (lval (take (Suc k) (drop (Suc i) taba)) + 1)"
    using unat_lt_u32 [of "taba ! i"] by simp
  also have "\<dots> \<le> 4294967296 * lval tabb" using Suc.prems(2) by (intro mult_left_mono) auto
  finally have w: "lval seg + 4294967296 ^ Suc k * unat hi < 4294967296 * lval tabb"
    by (simp only: win)
  obtain q seg' where st: "divnorm_step tabb b1 b1_inv seg hi = Some (q, seg', 0)"
    and e: "lval seg + 4294967296 ^ Suc k * unat hi = unat q * lval tabb + lval seg'"
    and l: "lval seg' < lval tabb" and ls': "length seg' = Suc k"
    using divnorm_step_val [OF nb ls b1 inv w] by blast
  define taba1 where "taba1 = take i taba @ seg' @ 0 # drop (i + Suc k + 1) taba"
  have len1: "length taba1 = length taba" using il ls' by (simp add: taba1_def)
  have d1: "take (Suc k) (drop i taba1) = seg'" using il ls' by (simp add: taba1_def)
  have t1: "take (i + Suc k) taba1 = take i taba @ seg'" using il ls' by (simp add: taba1_def)
  obtain qs taba' where IH:
    "divnorm_loop tabb b1 b1_inv i taba1 (q # tabq) = Some (qs @ q # tabq, taba')"
    "length qs = i" "length taba' = length taba1"
    "lval (take (i + Suc k) taba1) = lval qs * lval tabb + lval (take (Suc k) taba')"
    "lval (take (Suc k) taba') < lval tabb"
    using Suc.IH [of taba1 "q # tabq"] il len1 d1 l by auto
  have run: "divnorm_loop tabb b1 b1_inv (Suc i) taba tabq = Some ((qs @ [q]) @ tabq, taba')"
    using st IH(1) nb by (simp add: Let_def taba1_def seg_def hi_def)
  have "lval (take (Suc i + Suc k) taba) = lval (take i taba @ take (Suc (Suc k)) (drop i taba))"
    using take_add [of i "Suc (Suc k)" taba] by simp
  also have "\<dots> = lval (take i taba) + P * (unat q * lval tabb + lval seg')"
    using il by (simp only: lval_append win e) (simp add: P_def)
  also have "\<dots> = lval (take i taba @ seg') + P * unat q * lval tabb"
    using il by (simp add: lval_append P_def algebra_simps)
  also have "\<dots> = lval (qs @ [q]) * lval tabb + lval (take (Suc k) taba')"
    using IH(2) IH(4) [unfolded t1]
    by (simp add: lval_append [of qs] P_def algebra_simps)
  finally show ?case
    using run IH len1 by (intro exI [of _ "qs @ [q]"] exI [of _ taba']) simp
qed

lemma divnorm_first_val:
  "length as = length bs \<Longrightarrow>
   divnorm_first as bs = (if lval (rev as) < lval (rev bs) then 0 else 1)"
proof (induction as bs rule: list_induct2)
  case Nil
  then show ?case by simp
next
  case (Cons a as b bs)
  define P :: nat where "P = 4294967296 ^ length as"
  have l: "lval (rev as) < P" "lval (rev bs) < P"
    using lval_bound [of "rev as"] lval_bound [of "rev bs"] Cons.hyps by (simp_all add: P_def)
  have e: "lval (rev (a # as)) = lval (rev as) + P * unat a"
    "lval (rev (b # bs)) = lval (rev bs) + P * unat b"
    using Cons.hyps by (simp_all add: lval_append P_def)
  have less: "x + P * u < y + P * v" if "u < v" "x < P" for x y u v :: nat
  proof -
    have "P * (u + 1) \<le> P * v" using that by (intro mult_left_mono) auto
    then show ?thesis using that by simp
  qed
  consider "unat a < unat b" | "unat b < unat a" | "a = b"
    by (metis linorder_neqE_nat word_unat_eq_iff)
  then show ?case
  proof cases
    case 1
    with less [OF 1 l(1), of "lval (rev bs)"] show ?thesis
      by (auto simp: e word_less_nat_alt simp del: rev.simps)
  next
    case 2
    with less [OF 2 l(2), of "lval (rev as)"] show ?thesis
      by (auto simp: e word_less_nat_alt simp del: rev.simps)
  next
    case 3
    then show ?thesis unfolding e using Cons.IH by simp
  qed
qed

text \<open>
  \<open>js_mp_divnorm\<close> returns, and its arrays are the quotient and the remainder. \<open>na - nb\<close>
  must not be negative and the divisor's top bit must be set.
\<close>

lemma js_mp_divnorm_val:
  assumes nb: "tabb \<noteq> []" and len: "length tabb \<le> length taba"
    and b1: "2147483648 \<le> unat (last tabb)"
  shows "\<exists>tabq taba'. js_mp_divnorm taba tabb = Some (tabq, taba')
    \<and> length tabq = length taba - length tabb + 1 \<and> length taba' = length taba
    \<and> lval tabq = lval taba div lval tabb
    \<and> lval (take (length tabb) taba') = lval taba mod lval tabb"
proof (cases "length tabb = 1")
  case True
  then obtain b where tb: "tabb = [b]" by (auto simp: length_Suc_conv)
  have b: "2147483648 \<le> unat b" using b1 by (simp add: tb)
  obtain qs r where d: "js_mp_div1 taba b 0 = (qs, r)" by force
  have r0: "unat (0 :: limb) < unat b" using b by simp
  from js_mp_div1_val [OF d r0]
  have v: "lval taba = lval qs * unat b + unat r" "unat r < unat b" "length qs = length taba" by auto
  have run: "js_mp_divnorm taba tabb = Some (qs, taba[0 := r])"
    by (simp add: js_mp_divnorm_def tb js_mp_div1norm_eq [OF b r0] d del: One_nat_def)
  have t: "take 1 (taba[0 := r]) = [r]" using len tb by (cases taba) auto
  have "lval qs = lval taba div unat b" and "unat r = lval taba mod unat b"
    using v by simp_all
  with run v t show ?thesis using len tb by simp
next
  case False
  define n where "n = length taba - length tabb"
  obtain k where k: "length tabb = Suc k" using nb by (cases tabb) auto
  define B :: nat where "B = 4294967296 ^ length tabb"
  define hi where "hi = drop n taba"
  have lh: "length hi = length tabb" using len by (simp add: hi_def n_def)
  have hB: "lval hi < B" using lval_bound [of hi] lh by (simp add: B_def)
  have bge: "B \<le> 2 * lval tabb"
  proof -
    have "lval tabb = lval (butlast tabb) + 4294967296 ^ k * unat (last tabb)"
      using lval_append [of "butlast tabb" "[last tabb]"] nb k by simp
    moreover have "4294967296 ^ k * 2147483648 \<le> (4294967296 ^ k * unat (last tabb) :: nat)"
      using b1 by (rule mult_left_mono) simp
    moreover have "B = 2 * (4294967296 ^ k * 2147483648)" by (simp add: B_def k)
    ultimately show ?thesis by linarith
  qed
  define q where "q = divnorm_first (rev hi) (rev tabb)"
  have qv: "q = (if lval hi < lval tabb then 0 else 1)"
    using divnorm_first_val [of "rev hi" "rev tabb"] lh by (simp add: q_def)
  define taba1 where "taba1 = (if q \<noteq> 0 then take n taba @ fst (js_mp_sub hi tabb 0) else taba)"
  define b1_inv where "b1_inv = (if 3 \<le> n then js_udiv1norm_init (last tabb) else 0)"
  obtain sb c where sb: "js_mp_sub hi tabb 0 = (sb, c)" by force
  from js_mp_sub_val [OF lh _ sb]
  have sv: "lval sb + lval tabb = lval hi + B * unat c" and sl: "length sb = length tabb" and c1: "unat c \<le> 1"
    using lh by (simp_all add: B_def)
  have nl: "n \<le> length taba" by (simp add: n_def)
  have len1: "length taba1 = length taba" using len sl by (simp add: taba1_def sb n_def)
  have hi1: "lval (drop n taba1) < lval tabb \<and> lval taba = lval taba1 + 4294967296 ^ n * (unat q * lval tabb)"
  proof (cases "lval hi < lval tabb")
    case True
    then show ?thesis using qv by (simp add: taba1_def hi_def)
  next
    case False
    have "c = 0"
    proof (rule ccontr)
      assume "c \<noteq> 0"
      then have "unat c = 1" using c1 by (metis One_nat_def le_Suc_eq le_zero_eq unat_eq_0)
      with sv False lval_bound [of sb] sl show False by (simp add: B_def)
    qed
    with sv have sv': "lval sb + lval tabb = lval hi" by simp
    have "drop n taba1 = sb" using nl False qv by (simp add: taba1_def sb)
    moreover have "lval sb < lval tabb" using sv' hB bge by simp
    moreover have "lval taba = lval (take n taba) + 4294967296 ^ n * lval hi"
      using lval_append [of "take n taba" hi] nl by (simp add: hi_def)
    moreover have "lval taba1 = lval (take n taba) + 4294967296 ^ n * lval sb"
      using nl False qv by (simp add: taba1_def sb lval_append)
    ultimately show ?thesis using False qv by (simp add: sv' [symmetric] algebra_simps)
  qed
  have inv: "b1_inv = 0 \<or> b1_inv = js_udiv1norm_init (last tabb)" by (simp add: b1_inv_def)
  have nk: "n + Suc k = length taba1" using len1 len k by (simp add: n_def)
  then have lc: "n + Suc k \<le> length taba1" by simp
  have "take (Suc k) (drop n taba1) = drop n taba1" using nk by simp
  then have hl: "lval (take (Suc k) (drop n taba1)) < lval tabb" using hi1 by simp
  obtain qs taba' where r: "divnorm_loop tabb (last tabb) b1_inv n taba1 [q] = Some (qs @ [q], taba')"
    "length qs = n" "length taba' = length taba1"
    "lval (take (n + Suc k) taba1) = lval qs * lval tabb + lval (take (Suc k) taba')"
    "lval (take (Suc k) taba') < lval tabb"
    using divnorm_loop_val [OF k refl b1 inv lc hl, of "[q]"] by auto
  have full: "take (n + Suc k) taba1 = taba1" using nk by simp
  have run: "js_mp_divnorm taba tabb = Some (qs @ [q], taba')"
  proof -
    have "js_mp_divnorm taba tabb = divnorm_loop tabb (last tabb) b1_inv n taba1 [q]"
      unfolding js_mp_divnorm_def Let_def taba1_def b1_inv_def q_def hi_def n_def
      using False by simp
    then show ?thesis using r(1) by simp
  qed
  have "lval taba = lval (qs @ [q]) * lval tabb + lval (take (Suc k) taba')"
    using hi1 r(2,4) full by (simp add: lval_append algebra_simps)
  with r(5) have "lval (qs @ [q]) = lval taba div lval tabb"
    and "lval (take (Suc k) taba') = lval taba mod lval tabb"
    by simp_all
  with run r len1 k show ?thesis by (simp add: n_def)
qed

end
