(* ===== verification/Cutils.thy ===== *)
theory Cutils
  imports Prelude
begin

text \<open>
  The small integer helpers of \<open>src/qjs/cutils.h\<close>: bit counting, byte swapping, surrogates and
  hexadecimal digits. The bit counters are the builtins of the C compiler, undefined at 0.
\<close>

section \<open>Counting bits\<close>

text \<open>The number of zero bits above the highest set bit among the low \<open>n\<close> bits.\<close>

fun zeros_from :: "nat \<Rightarrow> 'a::len word \<Rightarrow> nat" where
  "zeros_from 0 a = 0"
| "zeros_from (Suc n) a = (if bit a n then 0 else Suc (zeros_from n a))"

definition clz32 :: "u32 \<Rightarrow> nat" where
  "clz32 a = zeros_from 32 a"

definition clz64 :: "u64 \<Rightarrow> nat" where
  "clz64 a = zeros_from 64 a"

lemma zeros_from_le: "zeros_from n a \<le> n"
  by (induction n) auto

lemma bit_unat_iff: "bit a n \<longleftrightarrow> odd (unat (a :: 'a::len word) div 2 ^ n)"
  using bit_unsigned_iff [of a n, where 'a = nat] by (auto simp: bit_iff_odd dest: bit_imp_le_length)

lemma below_half: "x < 2 ^ Suc n \<Longrightarrow> even (x div 2 ^ n) \<Longrightarrow> x < (2 :: nat) ^ n"
proof -
  assume "x < 2 ^ Suc n" and even: "even (x div 2 ^ n)"
  then have "x div 2 ^ n < 2" by (simp add: less_mult_imp_div_less mult.commute)
  moreover have "even y \<Longrightarrow> y < 2 \<Longrightarrow> y = 0" for y :: nat by presburger
  ultimately have "x div 2 ^ n = 0" using even by blast
  then show ?thesis by (simp add: div_eq_0_iff)
qed

lemma zeros_from_bound:
  "unat (a :: 'a::len word) < 2 ^ n \<Longrightarrow> unat a < 2 ^ (n - zeros_from n a)"
proof (induction n)
  case 0
  then show ?case by simp
next
  case (Suc n)
  show ?case
  proof (cases "bit a n")
    case True
    with Suc.prems show ?thesis by simp
  next
    case False
    then have "unat a < 2 ^ n" using Suc.prems by (simp add: below_half bit_unat_iff)
    from Suc.IH [OF this] False show ?thesis by simp
  qed
qed

lemma zeros_from_lower:
  assumes "unat (a :: 'a::len word) < 2 ^ n" and "a \<noteq> 0"
  shows "zeros_from n a < n" and "2 ^ (n - zeros_from n a - 1) \<le> unat a"
proof -
  have "zeros_from n a < n \<and> 2 ^ (n - zeros_from n a - 1) \<le> unat a"
    using assms(1)
  proof (induction n)
    case 0
    with assms(2) show ?case by (simp add: unat_eq_0)
  next
    case (Suc n)
    show ?case
    proof (cases "bit a n")
      case True
      then have "unat a div 2 ^ n \<noteq> 0" by (metis bit_unat_iff even_zero)
      then have "2 ^ n \<le> unat a" by (simp add: div_eq_0_iff)
      with True show ?thesis by simp
    next
      case False
      then have "unat a < 2 ^ n" using Suc.prems by (simp add: below_half bit_unat_iff)
      from Suc.IH [OF this] False show ?thesis by simp
    qed
  qed
  then show "zeros_from n a < n" and "2 ^ (n - zeros_from n a - 1) \<le> unat a" by simp_all
qed

lemma clz32_bounds:
  assumes "a \<noteq> 0"
  shows "clz32 a < 32" and "2 ^ (31 - clz32 a) \<le> unat a" and "unat a < 2 ^ (32 - clz32 a)"
  using zeros_from_lower [of a 32] zeros_from_bound [of a 32] unat_lt_u32 [of a] assms
  by (simp_all add: clz32_def del: zeros_from.simps)

lemma clz64_bounds:
  assumes "a \<noteq> 0"
  shows "clz64 a < 64" and "2 ^ (63 - clz64 a) \<le> unat a" and "unat a < 2 ^ (64 - clz64 a)"
  using zeros_from_lower [of a 64] zeros_from_bound [of a 64] unat_lt_u64 [of a] assms
  by (simp_all add: clz64_def del: zeros_from.simps)

lemma pow2_between_unique:
  fixes x :: nat
  assumes "2 ^ a \<le> x" "x < 2 ^ Suc a" "2 ^ b \<le> x" "x < 2 ^ Suc b"
  shows "a = (b :: nat)"
proof -
  have "(2 :: nat) ^ a < 2 ^ Suc b" "(2 :: nat) ^ b < 2 ^ Suc a" using assms by linarith+
  then have "a < Suc b" "b < Suc a" by (auto dest!: power_less_imp_less_exp [rotated] simp del: power_Suc)
  then show ?thesis by simp
qed

lemma clz32_eqI:
  assumes "c < 32" and "2 ^ (31 - c) \<le> unat a" and "unat a < 2 ^ (32 - c)"
  shows "clz32 a = c"
proof -
  have a0: "a \<noteq> 0" using assms(2) by auto
  note b = clz32_bounds [OF a0]
  have e: "32 - c = Suc (31 - c)" "32 - clz32 a = Suc (31 - clz32 a)" using assms(1) b(1) by simp_all
  have "31 - c = 31 - clz32 a"
    by (rule pow2_between_unique [OF assms(2) _ b(2)]) (use assms(3) b(3) e in simp_all)
  then show ?thesis using assms(1) b(1) by simp
qed

end
