(* ===== verification/BigInt.thy ===== *)
theory BigInt
  imports Limb_Division Cutils "HOL-Library.Signed_Division"
begin

text \<open>
  The BigInt type of the engine (\<open>JSBigInt\<close> and \<open>js_bigint_*\<close> in \<open>src/qjs/quickjs.c\<close>): two's
  complement numbers over 32-bit limbs, kept at their minimal length. A \<open>JSBigInt\<close> is the list
  of its limbs (\<open>len\<close> is the length of the list); the reference count, always 1 for the results
  built here, is left out. Allocation goes through the monad of the prelude, so that running
  out of memory and the size limit are results of the model.
\<close>

type_synonym bigint = "limb list"

definition JS_BIGINT_MAX_SIZE :: nat where
  "JS_BIGINT_MAX_SIZE = 1024 * 1024 div 32"

definition too_large_to_allocate :: js_error where
  "too_large_to_allocate = RangeError ''BigInt is too large to allocate''"

section \<open>Construction\<close>

text \<open>\<open>js_bigint_new\<close>: the size check and the allocation; the limbs are written by the caller.\<close>

definition js_bigint_new :: "nat \<Rightarrow> unit alloc" where
  "js_bigint_new n =
     (if n > JS_BIGINT_MAX_SIZE then throw_m too_large_to_allocate else js_malloc)"

text \<open>The buffers on the stack need no allocation.\<close>

definition js_bigint_set_si :: "limb \<Rightarrow> bigint" where
  "js_bigint_set_si a = [a]"

definition js_bigint_set_si64 :: "64 word \<Rightarrow> bigint" where
  "js_bigint_set_si64 a =
     (if sint a \<ge> - 2147483648 \<and> sint a \<le> 2147483647 then [ucast a]
      else [ucast a, ucast (signed_drop_bit 32 a)])"

definition js_bigint_new_si :: "limb \<Rightarrow> bigint alloc" where
  "js_bigint_new_si a = bind_m (js_bigint_new 1) (\<lambda>_. return_m [a])"

definition js_bigint_new_si64 :: "64 word \<Rightarrow> bigint alloc" where
  "js_bigint_new_si64 a =
     (if sint a \<ge> - 2147483648 \<and> sint a \<le> 2147483647 then js_bigint_new_si (ucast a)
      else bind_m (js_bigint_new 2) (\<lambda>_. return_m [ucast a, ucast (signed_drop_bit 32 a)]))"

definition js_bigint_new_ui64 :: "64 word \<Rightarrow> bigint alloc" where
  "js_bigint_new_ui64 a =
     (if unat a \<le> 9223372036854775807 then js_bigint_new_si64 a
      else bind_m (js_bigint_new 3) (\<lambda>_. return_m [ucast a, ucast (drop_bit 32 a), 0]))"

definition js_bigint_new_di :: "64 word \<Rightarrow> bigint alloc" where
  "js_bigint_new_di a =
     (if a = scast (ucast a :: limb) then bind_m (js_bigint_new 1) (\<lambda>_. return_m [ucast a])
      else bind_m (js_bigint_new 2) (\<lambda>_. return_m [ucast a, ucast (signed_drop_bit 32 a)]))"

section \<open>Normalization\<close>

text \<open>The top limb \<open>v\<close> over the limb \<open>w\<close> only repeats the sign of \<open>w\<close>.\<close>

definition redundant_limb :: "limb \<Rightarrow> limb \<Rightarrow> bool" where
  "redundant_limb v w \<longleftrightarrow> \<not> ((v \<noteq> 0 \<and> v \<noteq> -1) \<or> (v AND 1) \<noteq> drop_bit 31 w)"

fun norm_len :: "bigint \<Rightarrow> nat \<Rightarrow> nat" where
  "norm_len a l =
     (if l > 1 \<and> redundant_limb (a ! (l - 1)) (a ! (l - 2)) then norm_len a (l - 1) else l)"

declare norm_len.simps [simp del]

text \<open>The shrinking \<open>js_realloc\<close> may fail; its failure is ignored.\<close>

definition js_bigint_normalize1 :: "bigint \<Rightarrow> nat \<Rightarrow> bigint alloc" where
  "js_bigint_normalize1 a l =
     (let l' = norm_len a l
      in if l' \<noteq> length a then ignore_m js_realloc (return_m (take l' a)) else return_m a)"

definition js_bigint_normalize :: "bigint \<Rightarrow> bigint alloc" where
  "js_bigint_normalize a = js_bigint_normalize1 a (length a)"

definition js_bigint_sign :: "bigint \<Rightarrow> limb" where
  "js_bigint_sign a = drop_bit 31 (last a)"

definition js_bigint_get_si_sat :: "bigint \<Rightarrow> limb" where
  "js_bigint_get_si_sat a =
     (if length a = 1 then hd a
      else if js_bigint_sign a \<noteq> 0 then 0x80000000 else 0x7fffffff)"

text \<open>Add the limb \<open>op1\<close> on top unless it is redundant.\<close>

definition js_bigint_extend :: "bigint \<Rightarrow> limb \<Rightarrow> bigint alloc" where
  "js_bigint_extend r op1 =
     (if (op1 \<noteq> 0 \<and> op1 \<noteq> -1) \<or> (op1 AND 1) \<noteq> drop_bit 31 (last r)
      then guard_m js_realloc js_free (\<lambda>_. return_m (r @ [op1]))
      else js_bigint_normalize r)"

section \<open>Arithmetic\<close>

text \<open>\<open>a + b\<close>, or \<open>a - b\<close> with \<open>b_neg\<close>: the common part, then the longer operand against the sign
  of the shorter one.\<close>

definition js_bigint_add :: "bigint \<Rightarrow> bigint \<Rightarrow> bool \<Rightarrow> bigint alloc" where
  "js_bigint_add a b b_neg =
     (let n2 = max (length a) (length b);
          n1 = min (length a) (length b)
      in bind_m (js_bigint_new n2) (\<lambda>_.
        (let neg = - of_bool b_neg :: limb;
             (lo, carry) = js_mp_add (take n1 a) (map (\<lambda>x. x XOR neg) (take n1 b)) (of_bool b_neg);
             a_sign = - js_bigint_sign a;
             b_sign = (- js_bigint_sign b) XOR neg;
             (hi, carry) =
               (if length a > length b
                then js_mp_add (drop n1 a) (replicate (n2 - n1) b_sign) carry
                else if length a < length b
                then js_mp_add (replicate (n2 - n1) a_sign) (map (\<lambda>x. x XOR neg) (drop n1 b)) carry
                else ([], carry))
         in js_bigint_extend (lo @ hi) (a_sign + b_sign + carry))))"

definition js_bigint_neg :: "bigint \<Rightarrow> bigint alloc" where
  "js_bigint_neg a = js_bigint_add (js_bigint_set_si 0) a True"

text \<open>Unsigned product, then the correction for negative operands.\<close>

definition js_bigint_mul :: "bigint \<Rightarrow> bigint \<Rightarrow> bigint alloc" where
  "js_bigint_mul a b =
     bind_m (js_bigint_new (length a + length b)) (\<lambda>_.
       (let r = js_mp_mul_basecase a b;
            r = (if js_bigint_sign a \<noteq> 0
                 then take (length a) r @ fst (js_mp_sub (drop (length a) r) b 0) else r);
            r = (if js_bigint_sign b \<noteq> 0
                 then take (length b) r @ fst (js_mp_sub (drop (length b) r) a 0) else r)
        in js_bigint_normalize r))"

text \<open>Drop the zero limbs on top, keeping at least one limb (\<open>while (na > 1 && tab[na - 1] == 0)\<close>).\<close>

fun strip_zeros :: "limb list \<Rightarrow> nat \<Rightarrow> nat" where
  "strip_zeros tab n = (if n > 1 \<and> tab ! (n - 1) = 0 then strip_zeros tab (n - 1) else n)"

declare strip_zeros.simps [simp del]

definition js_limb_clz :: "limb \<Rightarrow> nat" where
  "js_limb_clz a = (if a = 0 then 32 else clz32 a)"

section \<open>The numbers\<close>

text \<open>The signed number a BigInt stands for, and the invariant of its representation.\<close>

definition bval :: "bigint \<Rightarrow> int" where
  "bval a = int (lval a) - (if js_bigint_sign a = 0 then 0 else 4294967296 ^ length a)"

definition bigint_wf :: "bigint \<Rightarrow> bool" where
  "bigint_wf a \<longleftrightarrow> a \<noteq> [] \<and>
     (1 < length a \<longrightarrow> \<not> redundant_limb (a ! (length a - 1)) (a ! (length a - 2)))"

lemma top_bit_u32: "drop_bit 31 (v :: limb) = (if unat v < 2147483648 then 0 else 1)"
proof -
  have "unat v div 2147483648 = (if unat v < 2147483648 then 0 else 1)"
    using unat_lt_u32 [of v] by (auto simp: div_nat_eqI)
  then have "unat (drop_bit 31 v) = (if unat v < 2147483648 then 0 else 1)"
    by (simp only: unat_drop_bit) simp
  then show ?thesis by (auto simp: word_unat_eq_iff split: if_splits)
qed

lemma lval_top:
  assumes "a \<noteq> []"
  shows "2 * lval a < 4294967296 ^ length a \<longleftrightarrow> unat (last a) < 2147483648"
proof -
  define P :: nat where "P = 4294967296 ^ (length a - 1)"
  have e: "lval a = lval (butlast a) + P * unat (last a)"
    using lval_append [of "butlast a" "[last a]"] assms by (simp add: P_def)
  have l: "lval (butlast a) < P" using lval_bound [of "butlast a"] by (simp add: P_def)
  have B: "4294967296 ^ length a = 2 * (P * 2147483648)"
    using assms by (cases a) (simp_all add: P_def)
  show ?thesis
  proof (cases "unat (last a) < 2147483648")
    case True
    define X where "X = P * unat (last a)"
    have "X + P = P * (unat (last a) + 1)" by (simp add: X_def)
    also have "\<dots> \<le> P * 2147483648" using True by (intro mult_left_mono) auto
    finally have "2 * lval a < 4294967296 ^ length a" using l by (simp add: e B flip: X_def)
    with True show ?thesis by simp
  next
    case False
    define X where "X = P * unat (last a)"
    have "P * 2147483648 \<le> X" unfolding X_def using False by (intro mult_left_mono) auto
    then have "\<not> 2 * lval a < 4294967296 ^ length a" by (simp add: e B flip: X_def)
    with False show ?thesis by simp
  qed
qed

lemma js_bigint_sign_cases:
  "js_bigint_sign a = (if unat (last a) < 2147483648 then 0 else 1)"
  by (simp only: js_bigint_sign_def top_bit_u32)

lemma bval_cases:
  assumes "a \<noteq> []"
  shows "bval a = (if 2 * int (lval a) < 4294967296 ^ length a then int (lval a)
    else int (lval a) - 4294967296 ^ length a)"
proof -
  have "2 * int (lval a) < 4294967296 ^ length a \<longleftrightarrow> int (2 * lval a) < int (4294967296 ^ length a)"
    by simp
  also have "\<dots> \<longleftrightarrow> unat (last a) < 2147483648"
    by (simp only: of_nat_less_iff lval_top [OF assms])
  finally show ?thesis by (simp add: bval_def js_bigint_sign_cases)
qed

lemma int_lval_bound: "int (lval a) < 4294967296 ^ length a"
  using lval_bound [of a] by (metis of_nat_less_iff of_nat_numeral of_nat_power)

lemma bval_range:
  assumes "a \<noteq> []"
  shows "- (4294967296 ^ length a) \<le> 2 * bval a" and "2 * bval a < 4294967296 ^ length a"
proof -
  have l: "0 \<le> int (lval a)" "int (lval a) < 4294967296 ^ length a"
    by (simp_all add: lval_bound)
  have "bval a = int (lval a) \<and> 2 * int (lval a) < 4294967296 ^ length a
    \<or> bval a = int (lval a) - 4294967296 ^ length a \<and> \<not> 2 * int (lval a) < 4294967296 ^ length a"
    by (simp add: bval_cases [OF assms])
  with l show "- (4294967296 ^ length a) \<le> 2 * bval a" and "2 * bval a < 4294967296 ^ length a"
    by linarith+
qed

lemma sign_bval:
  assumes "a \<noteq> []"
  shows "js_bigint_sign a = (if bval a < 0 then 1 else 0)"
  using int_lval_bound [of a] by (simp add: bval_def js_bigint_sign_cases)

text \<open>A number in range with the right residue is the value.\<close>

lemma bval_eqI:
  assumes "a \<noteq> []" and "int (lval a) = v + 4294967296 ^ length a * k"
    and "- (4294967296 ^ length a) \<le> 2 * v" and "2 * v < 4294967296 ^ length a"
  shows "bval a = v"
proof -
  define B :: int where "B = 4294967296 ^ length a"
  have B0: "0 < B" by (simp add: B_def)
  obtain j where j: "bval a = int (lval a) - B * j"
    using bval_cases [OF assms(1)] by (cases "2 * int (lval a) < 4294967296 ^ length a")
      (auto simp: B_def intro: that [of 0] that [of 1])
  have d: "bval a - v = B * (k - j)" using assms(2) j by (simp add: B_def algebra_simps)
  have "- B < bval a - v" and "bval a - v < B"
    using bval_range [OF assms(1)] assms(3,4) by (simp_all add: B_def)
  then have "B * (-1) < B * (k - j)" and "B * (k - j) < B * 1" by (simp_all add: d)
  then have "-1 < k - j \<and> k - j < 1" using B0 by (simp only: mult_less_cancel_left_pos)
  then have "k - j = 0" by linarith
  with d show ?thesis by simp
qed

section \<open>Normalization keeps the number\<close>

lemma bval_snoc: "bval (r @ [v]) = int (lval r) + 4294967296 ^ length r * sint v"
  by (simp add: bval_def js_bigint_sign_cases lval_append sint_u32 algebra_simps)

lemma bval_extend_redundant:
  assumes "redundant_limb v (last r)" and "r \<noteq> []"
  shows "bval (r @ [v]) = bval r"
proof -
  have "v = 0 \<and> unat (last r) < 2147483648 \<or> v = -1 \<and> \<not> unat (last r) < 2147483648"
    using assms(1) by (auto simp: redundant_limb_def top_bit_u32 split: if_splits)
  then show ?thesis
    by (auto simp: bval_snoc) (auto simp: bval_def js_bigint_sign_cases)
qed

lemma norm_len_val:
  assumes "0 < l" and "l \<le> length a"
  shows "0 < norm_len a l \<and> norm_len a l \<le> l
    \<and> bval (take (norm_len a l) a) = bval (take l a) \<and> bigint_wf (take (norm_len a l) a)"
  using assms
proof (induction a l rule: norm_len.induct)
  case (1 a l)
  show ?case
  proof (cases "l > 1 \<and> redundant_limb (a ! (l - 1)) (a ! (l - 2))")
    case True
    have l1: "0 < l - 1" "l - 1 \<le> length a" using True "1.prems" by simp_all
    have t: "take l a = take (l - 1) a @ [a ! (l - 1)]"
      using True "1.prems" by (metis One_nat_def Suc_diff_1 Suc_le_lessD take_Suc_conv_app_nth)
    have "last (take (l - 1) a) = a ! (l - 2)"
      using True "1.prems" by (subst last_conv_nth) (auto simp: numeral_2_eq_2 min_def)
    then have "bval (take l a) = bval (take (l - 1) a)"
      using True l1 unfolding t by (intro bval_extend_redundant) auto
    moreover have "norm_len a l = norm_len a (l - 1)"
      using True by (subst norm_len.simps) simp
    ultimately show ?thesis using "1.IH" [OF True l1] diff_le_self [of l 1]
      by (simp only:) (blast intro: le_trans)
  next
    case False
    then have n: "norm_len a l = l" by (subst norm_len.simps) auto
    have "bigint_wf (take l a)"
      using False "1.prems" by (auto simp: bigint_wf_def min_def)
    with n "1.prems" show ?thesis by (simp only:) simp
  qed
qed

lemma runs_normalize1:
  assumes "0 < l" and "l \<le> length a"
  shows "runs (\<lambda>r. bval r = bval (take l a) \<and> bigint_wf r \<and> length r \<le> l) 0 E e (js_bigint_normalize1 a l)"
proof -
  note n = norm_len_val [OF assms]
  have "runs (\<lambda>r. bval r = bval (take l a) \<and> bigint_wf r \<and> length r \<le> l) 0 E e
      (return_m (take (norm_len a l) a))"
    using n by (intro runs_return) auto
  moreover have "norm_len a l = length a \<Longrightarrow> take (norm_len a l) a = a" by simp
  ultimately show ?thesis
    by (auto simp: js_bigint_normalize1_def Let_def intro: runs_ignore_realloc)
qed

lemma runs_normalize:
  "a \<noteq> [] \<Longrightarrow> runs (\<lambda>r. bval r = bval a \<and> bigint_wf r \<and> length r \<le> length a) 0 E e (js_bigint_normalize a)"
  using runs_normalize1 [of "length a" a E e] by (simp add: js_bigint_normalize_def)

lemma runs_extend:
  assumes "r \<noteq> []"
  shows "runs (\<lambda>y. bval y = int (lval r) + 4294967296 ^ length r * sint op1 \<and> bigint_wf y
    \<and> length y \<le> length r + 1) 0 E (-1) (js_bigint_extend r op1)"
proof (cases "redundant_limb op1 (last r)")
  case True
  then have "js_bigint_extend r op1 = js_bigint_normalize r"
    by (auto simp: js_bigint_extend_def redundant_limb_def)
  moreover have "bval r = int (lval r) + 4294967296 ^ length r * sint op1"
    using bval_extend_redundant [OF True assms] by (simp add: bval_snoc)
  ultimately show ?thesis
    by (simp only:) (rule runs_weaken [OF runs_normalize [OF assms]]; simp)
next
  case False
  then have e: "js_bigint_extend r op1 = guard_m js_realloc js_free (\<lambda>_. return_m (r @ [op1]))"
    by (simp add: js_bigint_extend_def redundant_limb_def)
  have "bigint_wf (r @ [op1])"
    using False assms by (auto simp: bigint_wf_def nth_append last_conv_nth numeral_2_eq_2)
  then show ?thesis unfolding e
    by (intro runs_guard [OF runs_realloc frees_js_free] runs_return) (simp_all add: bval_snoc)
qed

section \<open>Addition\<close>

definition size_error :: "nat \<Rightarrow> js_error \<Rightarrow> bool" where
  "size_error n err \<longleftrightarrow> err = too_large_to_allocate \<and> JS_BIGINT_MAX_SIZE < n"

lemma runs_bigint_new: "runs (\<lambda>_. n \<le> JS_BIGINT_MAX_SIZE) 1 (size_error n) 0 (js_bigint_new n)"
  unfolding js_bigint_new_def
  by (cases "n > JS_BIGINT_MAX_SIZE")
     (auto simp: size_error_def intro!: runs_throw intro: runs_weaken [OF runs_malloc])

text \<open>The usual shape of an operation: allocate \<open>n\<close> limbs, then compute.\<close>

lemma runs_new_bind:
  assumes "n \<le> JS_BIGINT_MAX_SIZE \<Longrightarrow> runs P 0 (size_error n) (-1) (f ())"
  shows "runs P 1 (size_error n) 0 (bind_m (js_bigint_new n) f)"
  by (rule runs_bind [OF runs_bigint_new]) (use assms in simp)

lemma js_mp_add_append:
  "length xs = length ys \<Longrightarrow> js_mp_add (xs @ xs') (ys @ ys') c =
    (let (lo, c1) = js_mp_add xs ys c; (hi, c2) = js_mp_add xs' ys' c1 in (lo @ hi, c2))"
  by (induction xs ys arbitrary: c rule: list_induct2) (simp_all split: prod.splits)

lemma unat_max_u32: "unat (-1 :: limb) = 4294967295"
  by (simp add: unsigned_minus_1_eq_mask mask_eq_exp_minus_1)

lemma lval_replicate_m1: "lval (replicate k (-1)) + 1 = 4294967296 ^ k"
  by (induction k) (simp_all add: unat_max_u32)

lemma xor_m1: "x XOR (-1) = NOT (x :: limb)"
  by (simp add: bit_eq_iff bit_xor_iff bit_not_iff)

lemma unat_not_sum: "unat (NOT x :: limb) + unat x = 4294967295"
  using unat_not_u32 [of x] unat_lt_u32 [of x] by simp

lemma lval_map_not: "lval (map (\<lambda>x. NOT x) xs) + lval xs + 1 = 4294967296 ^ length xs"
proof (induction xs)
  case (Cons x xs)
  then show ?case using unat_not_sum [of x] by simp
qed simp

text \<open>\<open>a\<close> written out to \<open>length a + k\<close> limbs with copies of its sign.\<close>

definition sign_extended :: "bigint \<Rightarrow> nat \<Rightarrow> limb list" where
  "sign_extended a k = a @ replicate k (- js_bigint_sign a)"

definition sgn_bit :: "bigint \<Rightarrow> int" where
  "sgn_bit a = (if js_bigint_sign a = 0 then 0 else 1)"

lemma sign_extended_val:
  "int (lval (sign_extended a k)) = bval a + sgn_bit a * 4294967296 ^ (length a + k)"
proof (cases "js_bigint_sign a = 0")
  case True
  then show ?thesis by (simp add: sign_extended_def lval_append lval_replicate_0 bval_def sgn_bit_def)
next
  case False
  then have s: "js_bigint_sign a = 1" by (simp add: js_bigint_sign_cases split: if_splits)
  have "int (lval (replicate k (-1))) + 1 = 4294967296 ^ k"
    using lval_replicate_m1 [of k] by (metis of_nat_Suc of_nat_numeral of_nat_power Suc_eq_plus1 add.commute)
  then have "int (lval (replicate k (-1))) = 4294967296 ^ k - 1" by linarith
  then show ?thesis using s
    by (simp add: sign_extended_def lval_append bval_def sgn_bit_def right_diff_distrib power_add)
qed

lemma unat_le_1_cases: "unat (c :: limb) \<le> 1 \<Longrightarrow> c = 0 \<or> c = 1"
  by (auto simp: le_Suc_eq word_unat_eq_iff)

lemma js_bigint_sign_01: "js_bigint_sign a = 0 \<or> js_bigint_sign a = 1"
  by (simp add: js_bigint_sign_cases)

text \<open>The top limb \<open>a_sign + b_sign + carry\<close> as a signed number.\<close>

lemma sint_top_limb:
  assumes "s = 0 \<or> s = (1 :: limb)" and "t = 0 \<or> t = (1 :: limb)" and "c = 0 \<or> c = (1 :: limb)"
  shows "sint (- s + - t + c) = int (unat c) - int (unat s) - int (unat t)"
  using assms by (elim disjE) simp_all

text \<open>The two loops of \<open>js_bigint_add\<close> are one addition of the sign-extended operands.\<close>

lemma js_bigint_add_eq:
  assumes "a \<noteq> []" and "b \<noteq> []"
  shows "js_bigint_add a b b_neg =
    bind_m (js_bigint_new (max (length a) (length b))) (\<lambda>_.
      (let (r, carry) = js_mp_add (sign_extended a (length b - length a))
             (map (\<lambda>x. x XOR - of_bool b_neg) (sign_extended b (length a - length b))) (of_bool b_neg)
       in js_bigint_extend r (- js_bigint_sign a + ((- js_bigint_sign b) XOR - of_bool b_neg) + carry)))"
proof -
  define neg where "neg = (- of_bool b_neg :: limb)"
  define f where "f = (\<lambda>x :: limb. x XOR neg)"
  note d = js_bigint_add_def Let_def neg_def [symmetric] f_def [symmetric] sign_extended_def
  consider "length a < length b" | "length a = length b" | "length a > length b" by linarith
  then show ?thesis
  proof cases
    case 1
    have b: "map f b = map f (take (length a) b) @ map f (drop (length a) b)"
      by (simp flip: map_append)
    show ?thesis using 1 unfolding d
      by (simp add: b js_mp_add_append split: prod.splits)
  next
    case 2
    then show ?thesis unfolding d by (simp split: prod.splits)
  next
    case 3
    have a: "a = take (length b) a @ drop (length b) a" by simp
    have e: "js_mp_add a (map f b @ ys) c = (let (lo, c1) = js_mp_add (take (length b) a) (map f b) c;
      (hi, c2) = js_mp_add (drop (length b) a) ys c1 in (lo @ hi, c2))" for ys c
      by (subst a, subst js_mp_add_append) (use 3 in simp_all)
    have r: "(- js_bigint_sign b) XOR neg = f (- js_bigint_sign b)" by (simp only: f_def)
    show ?thesis using 3 unfolding d by (simp add: e r split: prod.splits)
  qed
qed

lemma xor_sign:
  "(- js_bigint_sign b) XOR - of_bool b_neg = - (if b_neg then 1 - js_bigint_sign b else js_bigint_sign b)"
  using js_bigint_sign_01 [of b] by (cases b_neg) auto

lemma sgn_bit_unat: "int (unat (js_bigint_sign a)) = sgn_bit a"
  using js_bigint_sign_01 [of a] by (auto simp: sgn_bit_def)

text \<open>The second operand of the addition, complemented for a subtraction.\<close>

lemma add_operand_val:
  assumes "length b + k = n"
  shows "int (lval (map (\<lambda>x. x XOR - of_bool b_neg) (sign_extended b k))) + of_bool b_neg
    = (if b_neg then - bval b + (1 - sgn_bit b) * 4294967296 ^ n
       else bval b + sgn_bit b * 4294967296 ^ n)"
proof (cases b_neg)
  case True
  have l: "length (sign_extended b k) = n" using assms by (simp add: sign_extended_def)
  have "int (lval (map (\<lambda>x. NOT x) (sign_extended b k)) + lval (sign_extended b k) + 1)
      = int (4294967296 ^ n)"
    by (simp only: lval_map_not l)
  then have "int (lval (map (\<lambda>x. NOT x) (sign_extended b k))) + int (lval (sign_extended b k)) + 1
      = 4294967296 ^ n"
    by simp
  with True assms sign_extended_val [of b k] show ?thesis by (simp add: algebra_simps)
next
  case False
  with assms sign_extended_val [of b k] show ?thesis by simp
qed

lemma runs_add:
  assumes "a \<noteq> []" and "b \<noteq> []"
  shows "runs (\<lambda>r. bval r = bval a + (if b_neg then - bval b else bval b) \<and> bigint_wf r
      \<and> length r \<le> max (length a) (length b) + 1) 1
    (size_error (max (length a) (length b))) 0 (js_bigint_add a b b_neg)"
  unfolding js_bigint_add_eq [OF assms]
proof (rule runs_new_bind, goal_cases)
  case 1
  define n where "n = max (length a) (length b)"
  define A where "A = sign_extended a (length b - length a)"
  define B where "B = map (\<lambda>x. x XOR - of_bool b_neg) (sign_extended b (length a - length b))"
  have lA: "length A = n" and lB: "length B = n" by (simp_all add: A_def B_def n_def sign_extended_def)
  obtain r c where rc: "js_mp_add A B (of_bool b_neg) = (r, c)" by force
  have v: "lval r + 4294967296 ^ n * unat c = lval A + lval B + unat (of_bool b_neg :: limb)"
    and c: "unat c \<le> 1" and lr: "length r = n"
    using js_mp_add_val [OF _ _ rc] lA lB by simp_all
  define t :: limb where "t = (if b_neg then 1 - js_bigint_sign b else js_bigint_sign b)"
  have t01: "t = 0 \<or> t = 1" using js_bigint_sign_01 [of b] by (auto simp: t_def)
  have s: "sint (- js_bigint_sign a + - t + c) = int (unat c) - sgn_bit a - int (unat t)"
    by (simp only: sint_top_limb [OF js_bigint_sign_01 t01 unat_le_1_cases [OF c]] sgn_bit_unat)
  have ut: "int (unat t) = (if b_neg then 1 - sgn_bit b else sgn_bit b)"
    using js_bigint_sign_01 [of b] by (auto simp: t_def sgn_bit_def)
  define X :: int where "X = 4294967296 ^ n"
  have "int (lval r + 4294967296 ^ n * unat c) = int (lval A + lval B + unat (of_bool b_neg :: limb))"
    by (simp only: v)
  then have vi: "int (lval r) + X * int (unat c) = int (lval A) + (int (lval B) + of_bool b_neg)"
    by (simp add: unat_of_bool X_def del: of_nat_unat)
  have vA: "int (lval A) = bval a + sgn_bit a * X"
    using sign_extended_val [of a "length b - length a"] by (simp add: A_def n_def X_def max_def split: if_splits)
  have vB: "int (lval B) + of_bool b_neg = (if b_neg then - bval b else bval b) + int (unat t) * X"
    unfolding B_def ut X_def by (subst add_operand_val [of _ _ n]) (simp_all add: n_def)
  have res: "int (lval r) + X * sint (- js_bigint_sign a + - t + c)
      = bval a + (if b_neg then - bval b else bval b)"
    using vi vA vB by (simp only: s) (simp add: algebra_simps)
  have r0: "r \<noteq> []" using lr assms by (auto simp: n_def)
  show ?case
    unfolding A_def [symmetric] B_def [symmetric] rc xor_sign t_def [symmetric] prod.case Let_def
    by (rule runs_weaken [OF runs_extend [OF r0]]) (use res lr in \<open>simp_all add: X_def n_def\<close>)
qed

lemma runs_neg:
  assumes "a \<noteq> []"
  shows "runs (\<lambda>r. bval r = - bval a \<and> bigint_wf r \<and> length r \<le> length a + 1) 1
    (size_error (length a)) 0 (js_bigint_neg a)"
proof -
  have "max (Suc 0) (length a) = length a" using assms by (cases a) simp_all
  then show ?thesis
    using runs_add [of "[0]" a True] assms
    by (simp add: js_bigint_neg_def js_bigint_set_si_def bval_def js_bigint_sign_def)
qed

section \<open>Multiplication\<close>

lemma sub_high_val:
  assumes "length r = n + length v"
  shows "\<exists>k. int (lval (take n r @ fst (js_mp_sub (drop n r) v 0)))
      = int (lval r) - 4294967296 ^ n * int (lval v) + 4294967296 ^ (n + length v) * k"
    and "length (take n r @ fst (js_mp_sub (drop n r) v 0)) = length r"
proof -
  obtain rs c where s: "js_mp_sub (drop n r) v 0 = (rs, c)" by force
  have l: "length (drop n r) = length v" using assms by simp
  have v: "lval rs + lval v = lval (drop n r) + 4294967296 ^ length v * unat c"
    and lr: "length rs = length v"
    using js_mp_sub_val [OF l _ s] assms by simp_all
  have r: "lval r = lval (take n r) + 4294967296 ^ n * lval (drop n r)"
    using lval_append [of "take n r" "drop n r"] assms by (simp add: min_def)
  define X :: int where "X = 4294967296 ^ n"
  have "int (lval rs + lval v) = int (lval (drop n r) + 4294967296 ^ length v * unat c)" by (simp only: v)
  then have vi: "int (lval rs) = int (lval (drop n r)) + 4294967296 ^ length v * int (unat c) - int (lval v)"
    by (simp del: of_nat_unat)
  have "int (lval (take n r @ rs)) = int (lval (take n r)) + X * int (lval rs)"
    using assms by (simp add: lval_append min_def X_def)
  also have "\<dots> = (int (lval (take n r)) + X * int (lval (drop n r))) - X * int (lval v)
      + X * 4294967296 ^ length v * int (unat c)"
    unfolding vi by (simp add: algebra_simps del: of_nat_unat)
  also have "int (lval (take n r)) + X * int (lval (drop n r)) = int (lval r)"
    by (simp add: r X_def)
  finally have "int (lval (take n r @ rs)) = int (lval r) - 4294967296 ^ n * int (lval v)
      + 4294967296 ^ (n + length v) * int (unat c)"
    by (simp add: X_def power_add del: of_nat_unat)
  then show "\<exists>k. int (lval (take n r @ fst (js_mp_sub (drop n r) v 0)))
      = int (lval r) - 4294967296 ^ n * int (lval v) + 4294967296 ^ (n + length v) * k"
    unfolding s fst_conv by blast
  show "length (take n r @ fst (js_mp_sub (drop n r) v 0)) = length r"
    using assms lr by (simp add: s)
qed

lemma bval_sgn_bit: "bval a = int (lval a) - sgn_bit a * 4294967296 ^ length a"
  by (simp add: bval_def sgn_bit_def)

lemma abs_bval: "a \<noteq> [] \<Longrightarrow> 2 * \<bar>bval a\<bar> \<le> 4294967296 ^ length a"
  using bval_range [of a] by (simp add: abs_le_iff)

lemma mul_range:
  fixes x y P Q :: int
  assumes "2 * \<bar>x\<bar> \<le> P" and "2 * \<bar>y\<bar> \<le> Q" and "0 < P" and "0 < Q"
  shows "- (P * Q) \<le> 2 * (x * y)" and "2 * (x * y) < P * Q"
proof -
  have "(2 * \<bar>x\<bar>) * (2 * \<bar>y\<bar>) \<le> P * Q" using assms by (intro mult_mono) auto
  then have b: "4 * \<bar>x * y\<bar> \<le> P * Q" by (simp add: abs_mult)
  have "0 < P * Q" using assms by simp
  with b show "- (P * Q) \<le> 2 * (x * y)" and "2 * (x * y) < P * Q" by linarith+
qed

lemma runs_mul:
  assumes "a \<noteq> []" and "b \<noteq> []"
  shows "runs (\<lambda>r. bval r = bval a * bval b \<and> bigint_wf r \<and> length r \<le> length a + length b) 1
    (size_error (length a + length b)) 0 (js_bigint_mul a b)"
  unfolding js_bigint_mul_def
proof (rule runs_new_bind, goal_cases)
  case 1
  define P Q :: int where "P = 4294967296 ^ length a" and "Q = 4294967296 ^ length b"
  define r0 where "r0 = js_mp_mul_basecase a b"
  define r1 where "r1 = (if js_bigint_sign a \<noteq> 0
    then take (length a) r0 @ fst (js_mp_sub (drop (length a) r0) b 0) else r0)"
  define r2 where "r2 = (if js_bigint_sign b \<noteq> 0
    then take (length b) r1 @ fst (js_mp_sub (drop (length b) r1) a 0) else r1)"
  have v0: "int (lval r0) = int (lval a) * int (lval b)" and l0: "length r0 = length a + length b"
    by (simp_all add: r0_def js_mp_mul_basecase_val [OF assms(2)])
  have "\<exists>k. int (lval r1) = int (lval r0) - sgn_bit a * P * int (lval b) + P * Q * k"
    using sub_high_val(1) [OF l0] by (auto simp: r1_def sgn_bit_def P_def Q_def power_add intro: exI [of _ 0])
  then obtain k1 where v1: "int (lval r1) = int (lval r0) - sgn_bit a * P * int (lval b) + P * Q * k1" ..
  have l1: "length r1 = length b + length a"
    using sub_high_val(2) [OF l0] l0 by (simp add: r1_def)
  have "\<exists>k. int (lval r2) = int (lval r1) - sgn_bit b * Q * int (lval a) + P * Q * k"
    using sub_high_val(1) [OF l1]
    by (auto simp: r2_def sgn_bit_def P_def Q_def power_add mult.commute intro: exI [of _ 0])
  then obtain k2 where v2: "int (lval r2) = int (lval r1) - sgn_bit b * Q * int (lval a) + P * Q * k2" ..
  have l2: "length r2 = length a + length b"
    using sub_high_val(2) [OF l1] l1 by (simp add: r2_def)
  have ab: "bval a * bval b = int (lval a) * int (lval b) - sgn_bit a * P * int (lval b)
      - sgn_bit b * Q * int (lval a) + P * Q * (sgn_bit a * sgn_bit b)"
    by (simp add: bval_sgn_bit P_def Q_def algebra_simps)
  have PQ: "4294967296 ^ length r2 = P * Q" by (simp add: l2 P_def Q_def power_add)
  have e: "int (lval r2) = bval a * bval b + P * Q * (k1 + k2 - sgn_bit a * sgn_bit b)"
    by (simp add: v2 v1 v0 ab algebra_simps)
  have rg: "- (P * Q) \<le> 2 * (bval a * bval b)" "2 * (bval a * bval b) < P * Q"
    by (rule mul_range [OF abs_bval [OF assms(1), folded P_def] abs_bval [OF assms(2), folded Q_def]];
        simp add: P_def Q_def)+
  have n: "r2 \<noteq> []" using l2 assms by auto
  have "bval r2 = bval a * bval b"
    by (rule bval_eqI [OF n, of _ "k1 + k2 - sgn_bit a * sgn_bit b"]) (use e rg PQ in simp_all)
  then have "runs (\<lambda>r. bval r = bval a * bval b \<and> bigint_wf r \<and> length r \<le> length a + length b) 0
      (size_error (length a + length b)) (-1) (js_bigint_normalize r2)"
    by (intro runs_weaken [OF runs_normalize [OF n]]) (simp_all add: l2)
  then show ?case by (simp only: Let_def r0_def r1_def r2_def)
qed

end
