(* ===== verification/BigInt_Ops.thy ===== *)
theory BigInt_Ops
  imports BigInt
begin

text \<open>
  Division, the bitwise operations, shifts, powers and comparison of BigInts (\<open>js_bigint_divrem\<close>,
  \<open>js_bigint_logic\<close>, \<open>js_bigint_not\<close>, \<open>js_bigint_shl\<close>, \<open>js_bigint_shr\<close>, \<open>js_bigint_pow\<close> and
  \<open>js_bigint_cmp\<close> in \<open>src/qjs/quickjs.c\<close>), each shown to compute the mathematical operation on
  the numbers the operands stand for.
\<close>

section \<open>Division\<close>

definition division_by_zero :: js_error where
  "division_by_zero = RangeError ''BigInt division by zero''"

definition abs_limbs :: "bigint \<Rightarrow> limb list" where
  "abs_limbs a = (if js_bigint_sign a \<noteq> 0 then fst (js_mp_neg a) else a)"

text \<open>
  The words of a fresh array that are not written yet are shown as 0; none is read before it
  is written. \<open>tabb\<close> and \<open>q\<close> are separate blocks, freed on every path.
\<close>

text \<open>The block that normalizes \<open>b\<close>: the shifted divisor, the shifted dividend and its length.\<close>

definition divrem_shift :: "limb list \<Rightarrow> limb list \<Rightarrow> nat \<Rightarrow> nat \<Rightarrow> nat \<Rightarrow> limb list \<times> limb list \<times> nat" where
  "divrem_shift tabb r na nb shift =
     (if shift \<noteq> 0
      then (let (tb, _) = js_mp_shl (take nb tabb) shift;
                (ra, h) = js_mp_shl (take na r) shift;
                r1 = ra @ drop na r
            in if h \<noteq> 0 then (tb, r1[na := h], na + 1) else (tb, r1, na))
      else (take nb tabb, r, na))"

text \<open>The two ends of the function, \<open>is_rem\<close> and the quotient.\<close>

definition divrem_remainder :: "limb list \<Rightarrow> nat \<Rightarrow> nat \<Rightarrow> limb \<Rightarrow> bigint alloc" where
  "divrem_remainder r nb shift a_sign =
     (let r = (if shift \<noteq> 0 then fst (js_mp_shr (take nb r) shift 0) @ drop nb r else r);
          r = r[nb := 0];
          nb = nb + 1;
          r = (if a_sign \<noteq> 0 then fst (js_mp_neg (take nb r)) @ drop nb r else r)
      in js_bigint_normalize1 r nb)"

definition divrem_quotient :: "limb list \<Rightarrow> limb \<Rightarrow> limb \<Rightarrow> bigint alloc" where
  "divrem_quotient tabq a_sign b_sign =
     (let q = tabq @ [0];
          q = (if (a_sign XOR b_sign) \<noteq> 0 then fst (js_mp_neg q) else q)
      in js_bigint_normalize q)"

definition js_bigint_divrem :: "bigint \<Rightarrow> bigint \<Rightarrow> bool \<Rightarrow> bigint alloc" where
  "js_bigint_divrem a b is_rem =
     (if length b = 1 \<and> b ! 0 = 0 then throw_m division_by_zero
      else
        (let a_sign = js_bigint_sign a;
             b_sign = js_bigint_sign b
         in bind_m (js_bigint_new (length a + 2)) (\<lambda>_.
           (let r = abs_limbs a @ [0, 0];
                na = strip_zeros r (length a)
            in guard_m js_malloc js_free (\<lambda>_.
              (let tabb = abs_limbs b;
                   nb = strip_zeros tabb (length b)
               in if na < nb
                  then then_m js_free (then_m js_free
                    (if is_rem then bind_m (js_bigint_new (length a)) (\<lambda>_. return_m a)
                     else js_bigint_new_si 0))
                  else
                    (let shift = js_limb_clz (tabb ! (nb - 1));
                         (tabb, r, na) = divrem_shift tabb r na nb shift
                     in guard_m (js_bigint_new (na - nb + 2)) (then_m js_free js_free) (\<lambda>_.
                       (case js_mp_divnorm (take na r) tabb of
                          None \<Rightarrow> throw_m Diverges
                        | Some (tabq, taba) \<Rightarrow>
                            then_m js_free
                              (if is_rem
                               then then_m js_free (divrem_remainder (taba @ drop na r) nb shift a_sign)
                               else then_m js_free (divrem_quotient tabq a_sign b_sign)))))))))))"

section \<open>Bitwise operations\<close>

datatype logic_op = OP_or | OP_and | OP_xor

fun logic_limb :: "logic_op \<Rightarrow> limb \<Rightarrow> limb \<Rightarrow> limb" where
  "logic_limb OP_or x y = x OR y"
| "logic_limb OP_and x y = x AND y"
| "logic_limb OP_xor x y = x XOR y"

definition js_bigint_logic :: "bigint \<Rightarrow> bigint \<Rightarrow> logic_op \<Rightarrow> bigint alloc" where
  "js_bigint_logic a b op =
     (let (a, b) = (if length a < length b then (b, a) else (a, b));
          a_len = length a;
          b_len = length b;
          b_sign = - js_bigint_sign b
      in bind_m (js_bigint_new a_len) (\<lambda>_.
        js_bigint_normalize
          (map2 (logic_limb op) (take b_len a) b @ map (\<lambda>x. logic_limb op x b_sign) (drop b_len a))))"

definition js_bigint_not :: "bigint \<Rightarrow> bigint alloc" where
  "js_bigint_not a = bind_m (js_bigint_new (length a)) (\<lambda>_. return_m (map (\<lambda>x. NOT x) a))"

section \<open>Shifts\<close>

definition js_bigint_shl :: "bigint \<Rightarrow> u32 \<Rightarrow> bigint alloc" where
  "js_bigint_shl a shift1 =
     (if length a = 1 \<and> a ! 0 = 0 then js_bigint_new_si 0
      else
        (let d = unat shift1 div 32;
             shift = unat shift1 mod 32
         in bind_m (js_bigint_new (length a + d)) (\<lambda>_.
           if shift = 0 then return_m (replicate d 0 @ a)
           else (let (rs, l) = js_mp_shl a shift;
                     l = (if js_bigint_sign a \<noteq> 0 then l OR push_bit shift (-1) else l)
                 in js_bigint_extend (replicate d 0 @ rs) l))))"

definition js_bigint_shr :: "bigint \<Rightarrow> u32 \<Rightarrow> bigint alloc" where
  "js_bigint_shr a shift1 =
     (let d = unat shift1 div 32;
          shift = unat shift1 mod 32;
          a_sign = js_bigint_sign a
      in if d \<ge> length a then js_bigint_new_si (- a_sign)
         else bind_m (js_bigint_new (length a - d)) (\<lambda>_.
           if shift = 0 then return_m (drop d a)
           else js_bigint_normalize (fst (js_mp_shr (drop d a) shift (- a_sign)))))"

section \<open>Comparison\<close>

fun cmp_from_top :: "limb list \<Rightarrow> limb list \<Rightarrow> int" where
  "cmp_from_top (x # xs) (y # ys) = (if x \<noteq> y then (if x < y then -1 else 1) else cmp_from_top xs ys)"
| "cmp_from_top _ _ = 0"

definition js_bigint_cmp :: "bigint \<Rightarrow> bigint \<Rightarrow> int" where
  "js_bigint_cmp a b =
     (let a_sign = js_bigint_sign a;
          b_sign = js_bigint_sign b
      in if a_sign \<noteq> b_sign then 1 - 2 * int (unat a_sign)
         else if length a \<noteq> length b
         then (if length a < length b then 2 * int (unat a_sign) - 1 else 1 - 2 * int (unat a_sign))
         else cmp_from_top (rev a) (rev b))"

section \<open>Bits of a number\<close>

lemma bit_lval: "bit (lval xs) i \<longleftrightarrow> i div 32 < length xs \<and> bit (xs ! (i div 32)) (i mod 32)"
proof (induction xs arbitrary: i)
  case (Cons x xs)
  have e: "lval (x # xs) = push_bit 32 (lval xs) OR unat x"
    using or_push_bit_nat [of "unat x" 32 "lval xs"] unat_lt_u32 [of x] by simp
  show ?case
  proof (cases "i < 32")
    case True
    then show ?thesis by (simp only: e bit_or_iff) (simp add: bit_push_bit_iff bit_unsigned_iff)
  next
    case False
    then have d: "i div 32 = Suc ((i - 32) div 32)" and m: "i mod 32 = (i - 32) mod 32"
      by (simp_all add: le_div_geq le_mod_geq)
    have "\<not> bit (unat x) i"
      using False unat_lt_u32 [of x] by (intro not_bit_below [of _ 32]) simp_all
    then have "bit (lval (x # xs)) i \<longleftrightarrow> bit (lval xs) (i - 32)"
      using False by (simp only: e bit_or_iff) (simp add: bit_push_bit_iff)
    then show ?thesis by (simp only: Cons.IH d m) simp
  qed
qed simp

lemma bit_minus_exp: "bit (- (2 ^ k) :: int) i \<longleftrightarrow> k \<le> i"
proof -
  have "- (2 ^ k) = push_bit k (-1 :: int)" by (simp add: push_bit_eq_mult)
  then show ?thesis by (simp only: bit_push_bit_iff) simp
qed

lemma bit_bval:
  assumes "a \<noteq> []"
  shows "bit (bval a) i \<longleftrightarrow>
    (if i div 32 < length a then bit (a ! (i div 32)) (i mod 32) else js_bigint_sign a \<noteq> 0)"
proof -
  have p: "(4294967296 :: int) ^ length a = 2 ^ (32 * length a)" by (simp add: power_mult)
  have b: "bit (int (lval a)) i \<longleftrightarrow> i div 32 < length a \<and> bit (a ! (i div 32)) (i mod 32)"
    by (simp only: bit_of_nat_iff bit_lval) simp
  have i: "i div 32 < length a \<longleftrightarrow> i < 32 * length a" by (simp add: div_less_iff_less_mult mult.commute)
  show ?thesis
  proof (cases "js_bigint_sign a = 0")
    case True
    then show ?thesis using b by (simp add: bval_def)
  next
    case False
    have "bval a = int (lval a) + - (2 ^ (32 * length a))" using False by (simp add: bval_def p)
    also have "\<dots> = int (lval a) OR - (2 ^ (32 * length a))"
      by (rule disjunctive_add)
         (simp only: bit_minus_exp bit_of_nat_iff bit_lval i possible_bit_def, linarith)
    finally show ?thesis using False b by (simp only: bit_or_iff bit_minus_exp i) auto
  qed
qed

section \<open>The bitwise operations on the numbers\<close>

fun logic_bit :: "logic_op \<Rightarrow> bool \<Rightarrow> bool \<Rightarrow> bool" where
  "logic_bit OP_or x y = (x \<or> y)"
| "logic_bit OP_and x y = (x \<and> y)"
| "logic_bit OP_xor x y = (x \<noteq> y)"

fun logic_int :: "logic_op \<Rightarrow> int \<Rightarrow> int \<Rightarrow> int" where
  "logic_int OP_or x y = x OR y"
| "logic_int OP_and x y = x AND y"
| "logic_int OP_xor x y = x XOR y"

lemma bit_logic_limb: "bit (logic_limb op x y) j \<longleftrightarrow> logic_bit op (bit x j) (bit y j)"
  by (cases op) (simp_all add: bit_or_iff bit_and_iff bit_xor_iff)

lemma bit_logic_int: "bit (logic_int op x y) j \<longleftrightarrow> logic_bit op (bit x j) (bit y j)"
  by (cases op) (simp_all add: bit_or_iff bit_and_iff bit_xor_iff)

lemma logic_int_commute: "logic_int op x y = logic_int op y x"
  by (cases op) (simp_all add: or.commute and.commute xor.commute)

lemma sign_bit: "js_bigint_sign a \<noteq> 0 \<longleftrightarrow> bit (last a) 31"
  by (simp add: js_bigint_sign_def bit_iff_odd_drop_bit top_bit_u32)

lemma bit_neg_sign: "j < 32 \<Longrightarrow> bit (- js_bigint_sign b) j \<longleftrightarrow> js_bigint_sign b \<noteq> 0"
  using js_bigint_sign_01 [of b] by auto

lemma bval_logic:
  fixes a b :: bigint and op :: logic_op
  assumes "b \<noteq> []" and "length b \<le> length a"
  defines "r \<equiv> map2 (logic_limb op) (take (length b) a) b
    @ map (\<lambda>x. logic_limb op x (- js_bigint_sign b)) (drop (length b) a)"
  shows "bval r = logic_int op (bval a) (bval b)" and "r \<noteq> []" and "length r = length a"
proof -
  have a: "a \<noteq> []" using assms(1,2) by auto
  show l: "length r = length a" using assms(2) by (simp add: r_def)
  then show r0: "r \<noteq> []" using a by auto
  have n: "r ! k = logic_limb op (a ! k) (if k < length b then b ! k else - js_bigint_sign b)"
    if "k < length a" for k
    using that assms(2) by (auto simp: r_def nth_append)
  have s: "js_bigint_sign r \<noteq> 0 \<longleftrightarrow> logic_bit op (js_bigint_sign a \<noteq> 0) (js_bigint_sign b \<noteq> 0)"
  proof -
    have "last r = r ! (length a - 1)" using r0 l by (simp add: last_conv_nth)
    also have "\<dots> = logic_limb op (last a)
        (if length a - 1 < length b then b ! (length a - 1) else - js_bigint_sign b)"
      using a by (subst n) (simp_all add: last_conv_nth)
    finally have "bit (last r) 31 \<longleftrightarrow> logic_bit op (bit (last a) 31)
        (if length a - 1 < length b then bit (b ! (length a - 1)) 31 else js_bigint_sign b \<noteq> 0)"
      by (simp add: bit_logic_limb bit_neg_sign)
    moreover have "length a - 1 < length b \<Longrightarrow> b ! (length a - 1) = last b"
    proof -
      assume "length a - 1 < length b"
      then have "length a - 1 = length b - 1" using assms(2) by linarith
      then show ?thesis using assms(1) by (metis last_conv_nth)
    qed
    ultimately show ?thesis by (simp add: sign_bit split: if_splits)
  qed
  show "bval r = logic_int op (bval a) (bval b)"
  proof (rule bit_eqI)
    fix i
    have "bit (bval r) i \<longleftrightarrow> logic_bit op (bit (bval a) i) (bit (bval b) i)"
    proof (cases "i div 32 < length a")
      case True
      then show ?thesis using assms(2)
        by (simp add: bit_bval [OF r0] bit_bval [OF a] bit_bval [OF assms(1)] l n
            bit_logic_limb bit_neg_sign)
    next
      case False
      then show ?thesis using assms(2) s
        by (simp add: bit_bval [OF r0] bit_bval [OF a] bit_bval [OF assms(1)] l)
    qed
    then show "bit (bval r) i \<longleftrightarrow> bit (logic_int op (bval a) (bval b)) i"
      by (simp only: bit_logic_int)
  qed
qed

lemma runs_logic:
  assumes "a \<noteq> []" and "b \<noteq> []"
  shows "runs (\<lambda>r. bval r = logic_int op (bval a) (bval b) \<and> bigint_wf r
      \<and> length r \<le> max (length a) (length b)) 1
    (size_error (max (length a) (length b))) 0 (js_bigint_logic a b op)"
proof -
  have main: "runs (\<lambda>r. bval r = logic_int op (bval x) (bval y) \<and> bigint_wf r \<and> length r \<le> length x) 1
      (size_error (length x)) 0
      (bind_m (js_bigint_new (length x)) (\<lambda>_. js_bigint_normalize
        (map2 (logic_limb op) (take (length y) x) y
          @ map (\<lambda>z. logic_limb op z (- js_bigint_sign y)) (drop (length y) x))))"
    if "y \<noteq> []" "length y \<le> length x" for x y
    using bval_logic [OF that, of op]
    by (intro runs_new_bind runs_weaken [OF runs_normalize]) simp_all
  show ?thesis
  proof (cases "length a < length b")
    case True
    then show ?thesis using main [of a b] assms
      by (simp add: js_bigint_logic_def Let_def logic_int_commute [of op "bval a"] max_def)
  next
    case False
    then show ?thesis using main [of b a] assms
      by (simp add: js_bigint_logic_def Let_def max_def)
  qed
qed

lemma bval_not:
  assumes "a \<noteq> []"
  shows "bval (map (\<lambda>x. NOT x) a) = - bval a - 1"
proof -
  have "int (lval (map (\<lambda>x. NOT x) a) + lval a + 1) = int (4294967296 ^ length a)"
    by (simp only: lval_map_not)
  then have "int (lval (map (\<lambda>x. NOT x) a)) = (- bval a - 1)
      + 4294967296 ^ length (map (\<lambda>x. NOT x) a) * (1 - sgn_bit a)"
    by (simp add: bval_sgn_bit algebra_simps)
  note residue = this
  define P :: int where "P = 4294967296 ^ length a"
  have "even P" using assms by (simp add: P_def)
  then obtain h where h: "P = 2 * h" by (rule evenE)
  have "- P \<le> 2 * bval a" and "2 * bval a < P" using bval_range [OF assms] by (simp_all add: P_def)
  with h have "- P \<le> 2 * (- bval a - 1)" and "2 * (- bval a - 1) < P" by simp_all
  with residue show ?thesis
    by (intro bval_eqI [of _ _ "1 - sgn_bit a"]) (use assms in \<open>simp_all add: P_def\<close>)
qed

lemma redundant_limb_cases:
  "redundant_limb v w \<longleftrightarrow> (v = 0 \<and> unat w < 2147483648) \<or> (v = -1 \<and> \<not> unat w < 2147483648)"
  by (auto simp: redundant_limb_def top_bit_u32)

lemma redundant_not: "redundant_limb (NOT v) (NOT w) = redundant_limb v w"
proof -
  have "NOT v = 0 \<longleftrightarrow> v = -1" and "NOT v = -1 \<longleftrightarrow> v = 0"
    by (simp_all add: not_eq_complement) (metis add.inverse_inverse)+
  moreover have "unat (NOT w) < 2147483648 \<longleftrightarrow> \<not> unat w < 2147483648"
    using unat_not_sum [of w] by linarith
  ultimately show ?thesis by (auto simp: redundant_limb_cases)
qed

lemma runs_not:
  assumes "bigint_wf a"
  shows "runs (\<lambda>r. bval r = - bval a - 1 \<and> bigint_wf r \<and> length r = length a) 1
    (size_error (length a)) 0 (js_bigint_not a)"
  unfolding js_bigint_not_def
  by (intro runs_new_bind runs_return) (use assms in \<open>auto simp: bval_not bigint_wf_def redundant_not\<close>)

section \<open>The shifts on the numbers\<close>

lemma lval_replicate_append: "lval (replicate d 0 @ xs) = 4294967296 ^ d * lval xs"
  by (simp add: lval_append lval_replicate_0)

lemma bval_replicate_append:
  "a \<noteq> [] \<Longrightarrow> bval (replicate d 0 @ a) = 4294967296 ^ d * bval a"
  by (simp add: bval_def lval_replicate_append js_bigint_sign_def algebra_simps power_add)

lemma wf_replicate_append:
  assumes "bigint_wf a" and "a \<noteq> [0]"
  shows "bigint_wf (replicate d 0 @ a)"
proof (cases "length a = 1")
  case True
  then obtain x where a: "a = [x]" by (cases a) auto
  show ?thesis
  proof (cases d)
    case 0
    then show ?thesis using assms by simp
  next
    case (Suc k)
    have "(replicate d 0 @ a) ! (d - 1) = replicate d 0 ! (d - 1)"
      using Suc by (simp only: nth_append length_replicate) simp
    also have "\<dots> = 0" using Suc by (intro nth_replicate) simp
    finally have "(replicate d 0 @ a) ! (d - 1) = 0" .
    then show ?thesis using assms(2) a Suc
      by (simp add: bigint_wf_def redundant_limb_cases nth_append)
  qed
next
  case False
  moreover have "length a \<noteq> 0" using assms(1) by (simp add: bigint_wf_def)
  ultimately have l: "2 \<le> length a" by linarith
  have "(replicate d 0 @ a) ! (d + length a - 1) = a ! (length a - 1)"
    and "(replicate d 0 @ a) ! (d + length a - 2) = a ! (length a - 2)"
    using l by (auto simp: nth_append)
  then show ?thesis using assms(1) l by (simp add: bigint_wf_def)
qed

lemma unat_m1_mod:
  assumes "k \<le> 32"
  shows "unat (-1 :: limb) mod 2 ^ k = 2 ^ k - 1"
proof -
  define E F :: nat where "E = 2 ^ k" and "F = 2 ^ (32 - k)"
  have e: "E * F = 4294967296" using assms by (simp add: E_def F_def flip: power_add)
  have "0 < E" "0 < F" by (simp_all add: E_def F_def)
  then obtain f where f: "F = Suc f" by (cases F) auto
  have "4294967295 = (E - 1) + E * f" using e \<open>0 < E\<close> unfolding f by simp
  then have "4294967295 mod E = (E - 1) mod E" by (metis mod_mult_self2)
  then show ?thesis using \<open>0 < E\<close> by (simp add: unat_max_u32 E_def)
qed

lemma top_of_shl:
  assumes "unat (l :: limb) < 2 ^ s" and "0 < s" and "s < 32"
  shows "sint l = int (unat l)" and "sint (l OR push_bit s (-1)) = int (unat l) - 2 ^ s"
proof -
  have p: "(2 :: nat) ^ s \<le> 2 ^ 31" using assms(3) by (intro power_increasing) auto
  then show "sint l = int (unat l)" using assms(1) by (subst sint_u32) simp
  define E F :: nat where "E = 2 ^ (32 - s)" and "F = 2 ^ s"
  have e: "E * F = 4294967296" using assms(3) by (simp add: E_def F_def flip: power_add)
  have m: "unat (-1 :: limb) mod 2 ^ (32 - s) = E - 1"
    unfolding E_def by (rule unat_m1_mod) simp
  have "unat (l OR push_bit s (-1)) = (E - 1) * F + unat l"
    using unat_push_bit_or [of s l "-1"] assms m by (simp add: or.commute F_def)
  also have "(E - 1) * F = 4294967296 - F" by (simp add: left_diff_distrib' e)
  finally have u: "unat (l OR push_bit s (-1)) = 4294967296 - 2 ^ s + unat l" by (simp only: F_def)
  then have "int (unat (l OR push_bit s (-1))) = 4294967296 - 2 ^ s + int (unat l)"
    using p by simp
  moreover have "\<not> unat (l OR push_bit s (-1)) < 2147483648" using u p by simp
  ultimately show "sint (l OR push_bit s (-1)) = int (unat l) - 2 ^ s"
    by (simp only: sint_u32 if_False)
qed

lemma shift_split: "(4294967296 :: int) ^ (n div 32) * 2 ^ (n mod 32) = 2 ^ n"
proof -
  have "(4294967296 :: int) ^ (n div 32) * 2 ^ (n mod 32) = 2 ^ (32 * (n div 32) + n mod 32)"
    by (simp only: power_add power_mult) simp
  also have "32 * (n div 32) + n mod 32 = n" by simp
  finally show ?thesis .
qed

lemma runs_new_si: "runs (\<lambda>r. r = [v]) 1 (size_error 1) 0 (js_bigint_new_si v)"
  unfolding js_bigint_new_si_def by (intro runs_new_bind runs_return) simp_all

lemma runs_new_si_ok: "runs (\<lambda>r. r = [v]) 1 E 0 (js_bigint_new_si v)"
  by (rule runs_weaken [OF runs_new_si]) (auto simp: size_error_def JS_BIGINT_MAX_SIZE_def)

lemma bval_single: "bval [v] = sint v"
  by (simp add: bval_def js_bigint_sign_cases sint_u32)

lemma wf_single: "bigint_wf [v]"
  by (simp add: bigint_wf_def)

lemma runs_shl:
  assumes "bigint_wf a"
  shows "runs (\<lambda>r. bval r = bval a * 2 ^ unat n \<and> bigint_wf r \<and> length r \<le> length a + unat n div 32 + 1) 1
    (size_error (length a + unat n div 32)) 0 (js_bigint_shl a n)"
proof (cases "length a = 1 \<and> a ! 0 = 0")
  case True
  then have "a = [0]" by (cases a) auto
  then show ?thesis using True
    by (simp add: js_bigint_shl_def)
       (rule runs_weaken [OF runs_new_si_ok]; simp add: bval_single wf_single)
next
  case False
  define d s where "d = unat n div 32" and "s = unat n mod 32"
  have a: "a \<noteq> []" "a \<noteq> [0]" using assms False by (auto simp: bigint_wf_def)
  have sp: "bval a * 2 ^ unat n = 4294967296 ^ d * (bval a * 2 ^ s)"
    by (simp add: d_def s_def flip: shift_split [of "unat n"])
  have s32: "s < 32" by (simp add: s_def)
  obtain rs l where sh: "js_mp_shl a s = (rs, l)" by force
  define top where "top = (if js_bigint_sign a \<noteq> 0 then l OR push_bit s (-1) else l)"
  have "runs (\<lambda>r. bval r = bval a * 2 ^ unat n \<and> bigint_wf r \<and> length r \<le> length a + d + 1) 0
    (size_error (length a + d)) (-1)
    (if s = 0 then return_m (replicate d 0 @ a) else js_bigint_extend (replicate d 0 @ rs) top)"
  proof (cases "s = 0")
    case True
    then show ?thesis using a assms
      by (auto simp: sp bval_replicate_append intro!: runs_return wf_replicate_append)
  next
    case False
    have v: "lval rs + 4294967296 ^ length a * unat l = lval a * 2 ^ s"
      and lr: "length rs = length a" and ub: "unat l < 2 ^ s"
      using js_mp_shl_val [OF sh] False s32 by auto
    have st: "sint top = int (unat l) - sgn_bit a * 2 ^ s"
      using top_of_shl [OF ub] False s32 by (auto simp: top_def sgn_bit_def)
    have "int (lval rs + 4294967296 ^ length a * unat l) = int (lval a * 2 ^ s)" by (simp only: v)
    then have vi: "int (lval rs) + 4294967296 ^ length a * int (unat l) = int (lval a) * 2 ^ s"
      by (simp del: of_nat_unat)
    define X :: int where "X = 4294967296 ^ length a"
    have "int (lval rs) + X * sint top = bval a * 2 ^ s"
      using vi unfolding st bval_sgn_bit X_def [symmetric] by (simp add: algebra_simps)
    then have "4294967296 ^ d * (int (lval rs) + X * sint top) = bval a * 2 ^ unat n"
      by (simp add: sp)
    then have "int (lval (replicate d 0 @ rs)) + 4294967296 ^ length (replicate d (0 :: limb) @ rs) * sint top
        = bval a * 2 ^ unat n"
      by (simp add: lval_replicate_append power_add lr X_def algebra_simps)
    moreover have "replicate d 0 @ rs \<noteq> []" using a lr by auto
    ultimately show ?thesis using False
      by (simp only: if_False) (rule runs_weaken [OF runs_extend]; simp add: lr)
  qed
  then show ?thesis using False
    by (simp add: js_bigint_shl_def Let_def sh top_def flip: d_def s_def split: if_splits)
       (auto intro: runs_new_bind)
qed

lemma bval_drop:
  assumes "d < length a"
  shows "bval (drop d a) = bval a div 4294967296 ^ d"
proof -
  define X :: int where "X = 4294967296 ^ d"
  have X0: "0 < X" by (simp add: X_def)
  have n: "length a = d + (length a - d)" using assms by simp
  have s: "sgn_bit (drop d a) = sgn_bit a"
    using assms by (simp add: sgn_bit_def js_bigint_sign_def)
  have "lval a = lval (take d a) + 4294967296 ^ d * lval (drop d a)"
    using lval_append [of "take d a" "drop d a"] assms by (simp add: min_def)
  then have "int (lval a) = int (lval (take d a)) + X * int (lval (drop d a))" by (simp add: X_def)
  then have "bval a = int (lval (take d a)) + X * int (lval (drop d a))
      - sgn_bit a * 4294967296 ^ (d + (length a - d))"
    using n by (simp add: bval_sgn_bit)
  also have "\<dots> = int (lval (take d a)) + X * bval (drop d a)"
    using s by (simp add: bval_sgn_bit X_def power_add algebra_simps)
  finally have e: "bval a = int (lval (take d a)) + X * bval (drop d a)" .
  have "int (lval (take d a)) < X" using int_lval_bound [of "take d a"] assms by (simp add: X_def)
  then have "bval a div X = bval (drop d a)" using X0 by (simp add: e)
  then show ?thesis by (simp add: X_def)
qed

lemma wf_drop: "bigint_wf a \<Longrightarrow> d < length a \<Longrightarrow> bigint_wf (drop d a)"
  by (auto simp: bigint_wf_def)

lemma bval_shr:
  assumes sh: "js_mp_shr a s (- js_bigint_sign a) = (rs, r)" and "a \<noteq> []" and s: "0 < s" "s < 32"
  shows "bval rs = bval a div 2 ^ s" and "length rs = length a"
proof -
  define P F :: int where "P = 4294967296 ^ length a" and "F = 2 ^ s"
  have v: "lval rs * 2 ^ s + unat r = lval a + 4294967296 ^ length a * (unat (- js_bigint_sign a) mod 2 ^ s)"
    and r: "unat r < 2 ^ s"
    using js_mp_shr_val [OF sh s] by simp_all
  show l: "length rs = length a" using js_mp_shr_val [OF sh s] by simp
  have F0: "0 < F" by (simp add: F_def)
  have m: "int (unat (- js_bigint_sign a) mod 2 ^ s) = sgn_bit a * (F - 1)"
  proof (cases "js_bigint_sign a = 0")
    case False
    then have "js_bigint_sign a = 1" using js_bigint_sign_01 [of a] by simp
    moreover have "unat (-1 :: limb) mod 2 ^ s = 2 ^ s - 1"
      by (rule unat_m1_mod) (use s in simp)
    ultimately show ?thesis by (simp add: sgn_bit_def F_def)
  qed (simp add: sgn_bit_def)
  have "int (lval rs * 2 ^ s + unat r)
      = int (lval a + 4294967296 ^ length a * (unat (- js_bigint_sign a) mod 2 ^ s))"
    by (simp only: v)
  then have vi: "int (lval rs) * F + int (unat r) = int (lval a) + P * (sgn_bit a * (F - 1))"
    using m by (simp add: F_def P_def del: of_nat_unat)
  have ri: "int (unat r) < F" using r by (simp add: F_def del: of_nat_unat)
  have e: "bval a = F * (int (lval rs) - P * sgn_bit a) + int (unat r)"
    using vi unfolding bval_sgn_bit P_def [symmetric] by (simp add: algebra_simps del: of_nat_unat)
  then have "bval a div F = int (lval rs) - P * sgn_bit a"
    using ri F0 by (simp del: of_nat_unat)
  then have q: "int (lval rs) = bval a div F + P * sgn_bit a" by simp
  have b: "- P \<le> 2 * bval a" "2 * bval a < P"
    using bval_range [OF assms(2)] by (simp_all add: P_def)
  have "bval rs = bval a div F"
  proof (rule bval_eqI [of _ _ "sgn_bit a"])
    show "rs \<noteq> []" using l assms(2) by auto
    show "int (lval rs) = bval a div F + 4294967296 ^ length rs * sgn_bit a" using q by (simp add: l P_def)
    show "- (4294967296 ^ length rs) \<le> 2 * (bval a div F)"
    proof (cases "0 \<le> bval a")
      case True
      then have "0 \<le> bval a div F" using F0 by (simp add: pos_imp_zdiv_nonneg_iff)
      moreover have "0 < P" by (simp add: P_def)
      ultimately show ?thesis by (simp add: l flip: P_def)
    next
      case False
      then have "bval a div 1 \<le> bval a div F" using F0 by (intro zdiv_mono2_neg) auto
      then show ?thesis using b by (simp add: l flip: P_def)
    qed
    show "2 * (bval a div F) < 4294967296 ^ length rs"
    proof (cases "0 \<le> bval a")
      case True
      then have "bval a div F \<le> bval a div 1" using F0 by (intro zdiv_mono2) auto
      then show ?thesis using b by (simp add: l flip: P_def)
    next
      case False
      then have "bval a div F < 0" using F0 by (simp add: pos_imp_zdiv_neg_iff)
      moreover have "0 < P" by (simp add: P_def)
      ultimately show ?thesis by (simp add: l flip: P_def)
    qed
  qed
  then show "bval rs = bval a div 2 ^ s" by (simp add: F_def)
qed

lemma div_minus1:
  assumes "- D \<le> x" and "x < (0 :: int)"
  shows "x div D = -1"
proof -
  have "0 < D" using assms by linarith
  then have "(x + D) div D = x div D + 1" by (intro div_add_self2) auto
  moreover have "(x + D) div D = 0" using assms by (intro div_pos_pos_trivial) auto
  ultimately show ?thesis by linarith
qed

lemma runs_shr:
  assumes "bigint_wf a"
  shows "runs (\<lambda>r. bval r = bval a div 2 ^ unat n \<and> bigint_wf r \<and> length r \<le> length a) 1
    (size_error (length a)) 0 (js_bigint_shr a n)"
proof -
  define d s where "d = unat n div 32" and "s = unat n mod 32"
  have a: "a \<noteq> []" using assms by (auto simp: bigint_wf_def)
  have sp: "bval a div 2 ^ unat n = bval a div 4294967296 ^ d div 2 ^ s"
    by (simp add: d_def s_def zdiv_zmult2_eq flip: shift_split [of "unat n"])
  show ?thesis
  proof (cases "length a \<le> d")
    case True
    define D :: int where "D = 4294967296 ^ d"
    have "(4294967296 :: int) ^ length a \<le> D" unfolding D_def using True by (intro power_increasing) auto
    then have "- D \<le> bval a" "bval a < D" using bval_range [OF a] by linarith+
    then have "bval a div D = - sgn_bit a"
      using sign_bval [OF a] by (cases "bval a < 0") (auto simp: sgn_bit_def div_minus1)
    moreover have "- sgn_bit a div 2 ^ s = - sgn_bit a"
      by (simp add: sgn_bit_def div_eq_minus1)
    ultimately have "bval a div 2 ^ unat n = bval [- js_bigint_sign a]"
      using js_bigint_sign_01 [of a] by (auto simp: sp D_def bval_single sgn_bit_def)
    then show ?thesis using True a
      by (simp add: js_bigint_shr_def Let_def flip: d_def s_def)
         (rule runs_weaken [OF runs_new_si_ok], auto simp: wf_single Suc_le_eq)
  next
    case False
    define x where "x = drop d a"
    have x: "x \<noteq> []" "bigint_wf x" "length x = length a - d" and bx: "bval x = bval a div 4294967296 ^ d"
      and sx: "js_bigint_sign x = js_bigint_sign a"
      using False wf_drop [OF assms] bval_drop [of d a] by (auto simp: x_def js_bigint_sign_def)
    obtain rs h where sh: "js_mp_shr x s (- js_bigint_sign a) = (rs, h)" by force
    have "runs (\<lambda>r. bval r = bval a div 2 ^ unat n \<and> bigint_wf r \<and> length r \<le> length a) 0
      (size_error (length a - d)) (-1) (if s = 0 then return_m x else js_bigint_normalize rs)"
    proof (cases "s = 0")
      case True
      then show ?thesis using x bx by (auto simp: sp intro!: runs_return)
    next
      case False
      have "bval rs = bval a div 2 ^ unat n" "length rs = length x"
        using bval_shr [OF sh [folded sx] x(1)] False by (simp_all add: sp bx s_def)
      then show ?thesis using False x
        by simp (rule runs_weaken [OF runs_normalize]; auto)
    qed
    then have "runs (\<lambda>r. bval r = bval a div 2 ^ unat n \<and> bigint_wf r \<and> length r \<le> length a) 1
      (size_error (length a - d)) 0 (js_bigint_shr a n)"
      using False
      by (simp add: js_bigint_shr_def Let_def sh flip: d_def s_def x_def split: if_splits)
         (auto intro: runs_new_bind)
    then show ?thesis by (rule runs_weaken) (auto simp: size_error_def)
  qed
qed

section \<open>Comparison of the numbers\<close>

lemma lval_snoc: "lval (xs @ [x]) = lval xs + 4294967296 ^ length xs * unat x"
  by (simp add: lval_append)

lemma cmp_from_top_val:
  assumes "length xs = length ys"
  shows "cmp_from_top xs ys = sgn (int (lval (rev xs)) - int (lval (rev ys)))"
  using assms
proof (induction xs ys rule: list_induct2)
  case (Cons x xs y ys)
  define P where "P = (4294967296 :: nat) ^ length xs"
  have lx: "lval (rev (x # xs)) = lval (rev xs) + P * unat x"
    and ly: "lval (rev (y # ys)) = lval (rev ys) + P * unat y"
    using Cons.hyps by (simp_all add: lval_snoc P_def)
  have b: "lval (rev xs) < P" "lval (rev ys) < P"
    using lval_bound [of "rev xs"] lval_bound [of "rev ys"] Cons.hyps by (simp_all add: P_def)
  have less: "l + P * u < m + P * v" if "u < v" "l < P" for l m u v :: nat
  proof -
    have "P + P * u \<le> P * v" using that(1) by (metis Suc_leI mult_Suc_right mult_le_mono2)
    with that(2) show ?thesis by linarith
  qed
  show ?case
  proof (cases "x = y")
    case True
    then show ?thesis using Cons.IH lx ly by simp
  next
    case False
    then consider "unat x < unat y" | "unat y < unat x"
      by (metis linorder_neqE_nat word_unat_eq_iff)
    then show ?thesis
    proof cases
      case 1
      then have "lval (rev (x # xs)) < lval (rev (y # ys))" unfolding lx ly using b by (intro less)
      then show ?thesis using 1 False by (simp add: word_less_nat_alt del: rev.simps)
    next
      case 2
      then have "lval (rev (y # ys)) < lval (rev (x # xs))" unfolding lx ly using b by (intro less)
      then show ?thesis using 2 False by (simp add: word_less_nat_alt del: rev.simps)
    qed
  qed
qed simp

text \<open>A normalized number of more than one limb is out of range for fewer limbs.\<close>

lemma bval_wf_large:
  assumes "bigint_wf a" and "1 < length a"
  shows "bval a < 0 \<Longrightarrow> 2 * bval a < - (4294967296 ^ (length a - 1))"
    and "0 \<le> bval a \<Longrightarrow> 4294967296 ^ (length a - 1) \<le> 2 * bval a"
proof -
  define r v where "r = butlast a" and "v = last a"
  have a: "a = r @ [v]" and r: "r \<noteq> []" and lr: "length r = length a - 1"
    using assms(2) by (cases a rule: rev_cases; auto simp: r_def v_def)+
  define P :: int where "P = 4294967296 ^ length r"
  have bv: "bval a = int (lval r) + P * sint v" by (simp add: a bval_snoc P_def)
  have "a ! (length a - 2) = last r" and "a ! (length a - 1) = v"
    using r by (simp_all add: a nth_append last_conv_nth numeral_2_eq_2)
  then have nr: "\<not> redundant_limb v (last r)" using assms by (simp add: bigint_wf_def)
  have l: "0 \<le> int (lval r)" "int (lval r) < P" using int_lval_bound [of r] by (simp_all add: P_def)
  have t: "2 * int (lval r) < P \<longleftrightarrow> unat (last r) < 2147483648"
  proof -
    have "2 * int (lval r) < P \<longleftrightarrow> int (2 * lval r) < int (4294967296 ^ length r)" by (simp add: P_def)
    then show ?thesis by (simp only: of_nat_less_iff lval_top [OF r])
  qed
  have sv: "sint v = 0 \<longleftrightarrow> v = 0" "sint v = -1 \<longleftrightarrow> v = -1"
    by (metis sint_0 signed_word_eqI) (metis sint_n1 signed_word_eqI)
  have P0: "0 < P" by (simp add: P_def)
  show "bval a < 0 \<Longrightarrow> 2 * bval a < - (4294967296 ^ (length a - 1))"
  proof -
    assume "bval a < 0"
    have "sint v < 0"
    proof (rule ccontr)
      assume "\<not> sint v < 0"
      then have "0 \<le> P * sint v" using P0 by (intro mult_nonneg_nonneg) auto
      then show False using \<open>bval a < 0\<close> bv l by simp
    qed
    then consider "sint v = -1" | "sint v \<le> -2" by linarith
    then show ?thesis
    proof cases
      case 1
      then show ?thesis using nr sv t bv by (auto simp: redundant_limb_cases lr P_def)
    next
      case 2
      then have "P * sint v \<le> P * (-2)" using P0 by (intro mult_left_mono) auto
      then have "2 * bval a < - P" using bv l P0 by linarith
      then show ?thesis by (simp add: P_def lr)
    qed
  qed
  show "0 \<le> bval a \<Longrightarrow> 4294967296 ^ (length a - 1) \<le> 2 * bval a"
  proof -
    assume nn: "0 \<le> bval a"
    have "0 \<le> sint v"
    proof (rule ccontr)
      assume "\<not> 0 \<le> sint v"
      then have "P * sint v \<le> P * (-1)" using P0 by (intro mult_left_mono) auto
      then show False using nn bv l by simp
    qed
    then consider "sint v = 0" | "1 \<le> sint v" by linarith
    then show ?thesis
    proof cases
      case 1
      then show ?thesis using nr sv t bv by (auto simp: redundant_limb_cases lr P_def)
    next
      case 2
      then have "P * 1 \<le> P * sint v" using P0 by (intro mult_left_mono) auto
      then have "P \<le> 2 * bval a" using bv l P0 by linarith
      then show ?thesis by (simp add: P_def lr)
    qed
  qed
qed

lemma bval_zero_iff:
  assumes "bigint_wf b"
  shows "bval b = 0 \<longleftrightarrow> b = [0]"
proof
  have b0: "b \<noteq> []" using assms by (simp add: bigint_wf_def)
  assume z: "bval b = 0"
  show "b = [0]"
  proof (cases "length b = 1")
    case True
    then obtain y where "b = [y]" by (cases b) auto
    with z show ?thesis by (simp add: bval_single) (metis sint_0 signed_word_eqI)
  next
    case False
    then have "1 < length b" using b0 by (cases b) auto
    from bval_wf_large(2) [OF assms this] z
    have "(4294967296 :: int) ^ (length b - 1) \<le> 0" by simp
    moreover have "(0 :: int) < 4294967296 ^ (length b - 1)" by simp
    ultimately show ?thesis by linarith
  qed
qed (simp add: bval_single)

lemma bval_lt_shorter:
  assumes "bigint_wf a" and "bigint_wf b" and "length a < length b"
  shows "0 \<le> bval b \<Longrightarrow> bval a < bval b" and "bval b < 0 \<Longrightarrow> bval b < bval a"
proof -
  have a: "a \<noteq> []" using assms(1) by (simp add: bigint_wf_def)
  then have "0 < length a" by simp
  then have b: "1 < length b" using assms(3) by linarith
  have "(4294967296 :: int) ^ length a \<le> 4294967296 ^ (length b - 1)"
    using assms(3) by (intro power_increasing) auto
  with bval_range [OF a] bval_wf_large [OF assms(2) b]
  show "0 \<le> bval b \<Longrightarrow> bval a < bval b" and "bval b < 0 \<Longrightarrow> bval b < bval a"
    by linarith+
qed

lemma js_bigint_cmp_val:
  assumes "bigint_wf a" and "bigint_wf b"
  shows "js_bigint_cmp a b = sgn (bval a - bval b)"
proof -
  have n: "a \<noteq> []" "b \<noteq> []" using assms by (auto simp: bigint_wf_def)
  note s = sign_bval [OF n(1)] sign_bval [OF n(2)]
  show ?thesis
  proof (cases "js_bigint_sign a = js_bigint_sign b")
    case False
    then show ?thesis by (auto simp: js_bigint_cmp_def Let_def s split: if_splits)
  next
    case True
    then have st: "bval a < 0 \<longleftrightarrow> bval b < 0" by (simp add: s split: if_splits)
    consider "length a < length b" | "length b < length a" | "length a = length b" by linarith
    then show ?thesis
    proof cases
      case 1
      then show ?thesis using True st bval_lt_shorter [OF assms 1]
        by (auto simp: js_bigint_cmp_def Let_def s)
    next
      case 2
      then show ?thesis using True st bval_lt_shorter [OF assms(2,1) 2]
        by (auto simp: js_bigint_cmp_def Let_def s)
    next
      case 3
      have "js_bigint_cmp a b = sgn (int (lval a) - int (lval b))"
        using True 3 by (simp add: js_bigint_cmp_def cmp_from_top_val)
      also have "int (lval a) - int (lval b) = bval a - bval b"
        using True 3 by (simp add: bval_sgn_bit sgn_bit_def)
      finally show ?thesis .
    qed
  qed
qed

lemma minus_twos: "sint v < 0 \<Longrightarrow> int (unat (- v)) = - sint (v :: limb)"
proof -
  assume "sint v < 0"
  then have n: "\<not> unat v < 2147483648" by (auto simp: sint_u32)
  then have v0: "v \<noteq> 0" by auto
  then have "unat (- v) = 4294967296 - unat v" by (simp add: unat_minus_if_u32 unat_gt_0 flip: diff_0)
  then have "int (unat (- v)) = 4294967296 - int (unat v)" using unat_lt_u32 [of v] by simp
  with n show ?thesis by (simp only: sint_u32 if_False)
qed

lemma abs_limb_val:
  fixes v :: limb
  defines "w \<equiv> (if sint v < 0 then - v else v)"
  shows "int (unat w) = \<bar>sint v\<bar>"
proof (cases "sint v < 0")
  case True
  then show ?thesis using minus_twos by (simp add: w_def)
next
  case False
  then have "unat v < 2147483648" using unat_lt_u32 [of v] by (auto simp: sint_u32 split: if_splits)
  then show ?thesis using False by (simp add: w_def sint_u32)
qed

section \<open>The division on the numbers\<close>

lemma abs_limbs_val:
  assumes "a \<noteq> []"
  shows "lval (abs_limbs a) = nat \<bar>bval a\<bar>" and "length (abs_limbs a) = length a"
proof -
  obtain rs c where n: "js_mp_neg a = (rs, c)" by force
  note nv = js_mp_neg_val [OF n]
  show "length (abs_limbs a) = length a" by (simp add: abs_limbs_def n nv)
  show "lval (abs_limbs a) = nat \<bar>bval a\<bar>"
  proof (cases "js_bigint_sign a = 0")
    case True
    then show ?thesis by (simp add: abs_limbs_def bval_def)
  next
    case False
    then have b: "bval a = int (lval a) - int (4294967296 ^ length a)" by (simp add: bval_def)
    have "0 < lval a" using False bval_range [OF assms] b by (cases "lval a") auto
    then have "lval rs = 4294967296 ^ length a - lval a"
      by (simp add: nv)
    then have "int (lval rs) = int (4294967296 ^ length a) - int (lval a)"
      using lval_bound [of a] by simp
    then have "int (lval rs) = - bval a" by (simp add: b)
    then show ?thesis using False by (simp add: abs_limbs_def n)
  qed
qed

lemma strip_zeros_val:
  assumes "0 < n" and "n \<le> length tab"
  shows "0 < strip_zeros tab n \<and> strip_zeros tab n \<le> n
    \<and> lval (take (strip_zeros tab n) tab) = lval (take n tab)
    \<and> (strip_zeros tab n = 1 \<or> tab ! (strip_zeros tab n - 1) \<noteq> 0)"
  using assms
proof (induction tab n rule: strip_zeros.induct)
  case (1 tab n)
  show ?case
  proof (cases "n > 1 \<and> tab ! (n - 1) = 0")
    case True
    have l1: "0 < n - 1" "n - 1 \<le> length tab" using True "1.prems" by simp_all
    have t: "take n tab = take (n - 1) tab @ [tab ! (n - 1)]"
      using True "1.prems" by (metis One_nat_def Suc_diff_1 Suc_le_lessD take_Suc_conv_app_nth)
    have "lval (take n tab) = lval (take (n - 1) tab)"
      unfolding t lval_append using True by simp
    moreover have "strip_zeros tab n = strip_zeros tab (n - 1)"
      using True by (subst strip_zeros.simps) simp
    ultimately show ?thesis using "1.IH" [OF True l1] diff_le_self [of n 1]
      by (simp only:) (blast intro: le_trans)
  next
    case False
    then have e: "strip_zeros tab n = n" by (subst strip_zeros.simps) auto
    show ?thesis unfolding e using False "1.prems" by auto
  qed
qed

lemma lval_top_nonzero:
  assumes "n < length tab" and "tab ! n \<noteq> 0"
  shows "4294967296 ^ n \<le> lval (take (Suc n) tab)"
proof -
  have "1 \<le> unat (tab ! n)" using assms(2) by (simp add: Suc_le_eq unat_gt_0)
  then have "4294967296 ^ n * 1 \<le> 4294967296 ^ n * unat (tab ! n)" by (intro mult_left_mono) auto
  moreover have "lval (take (Suc n) tab) = lval (take n tab) + 4294967296 ^ n * unat (tab ! n)"
    using assms(1) by (simp add: take_Suc_conv_app_nth lval_append)
  ultimately show ?thesis by linarith
qed

text \<open>The operands of the division, in the two shapes of the code: with \<open>shift = 0\<close> and shifted.\<close>

lemma clz_norm:
  assumes "v \<noteq> (0 :: limb)"
  shows "js_limb_clz v < 32" and "2147483648 \<le> unat v * 2 ^ js_limb_clz v"
    and "unat v * 2 ^ js_limb_clz v < 4294967296"
proof -
  define c where "c = js_limb_clz v"
  have c: "c < 32" "2 ^ (31 - c) \<le> unat v" "unat v < 2 ^ (32 - c)"
    using clz32_bounds [OF assms] assms by (simp_all add: c_def js_limb_clz_def)
  have "(2 :: nat) ^ (31 - c) * 2 ^ c \<le> unat v * 2 ^ c" using c(2) by (intro mult_right_mono) auto
  moreover have "(2 :: nat) ^ (31 - c) * 2 ^ c = 2147483648" using c(1) by (simp flip: power_add)
  ultimately show "2147483648 \<le> unat v * 2 ^ js_limb_clz v" unfolding c_def by linarith
  have "unat v * 2 ^ c < 2 ^ (32 - c) * 2 ^ c" using c(3) by simp
  moreover have "(2 :: nat) ^ (32 - c) * 2 ^ c = 4294967296" using c(1) by (simp flip: power_add)
  ultimately show "unat v * 2 ^ js_limb_clz v < 4294967296" unfolding c_def by linarith
  show "js_limb_clz v < 32" using c(1) by (simp add: c_def)
qed

lemma shl_divisor:
  assumes sh: "js_mp_shl xs s = (rs, h)" and xs: "xs \<noteq> []" "last xs \<noteq> 0"
    and s: "s = js_limb_clz (last xs)" "0 < s"
  shows "lval rs = lval xs * 2 ^ s" and "length rs = length xs" and "2147483648 \<le> unat (last rs)"
proof -
  note c = clz_norm [OF xs(2), folded s(1)]
  note v = js_mp_shl_val [OF sh s(2) c(1)]
  show lr: "length rs = length xs" by (rule v(2))
  define P where "P = (4294967296 :: nat) ^ (length xs - 1)"
  define t where "t = unat (last xs)"
  have lx: "lval xs = lval (butlast xs) + P * t"
    using lval_append [of "butlast xs" "[last xs]"] xs(1) by (simp add: P_def t_def)
  have bx: "lval (butlast xs) < P" using lval_bound [of "butlast xs"] by (simp add: P_def)
  have PL: "4294967296 ^ length xs = P * 4294967296" using xs(1) by (cases xs) (simp_all add: P_def)
  have "t * 2 ^ s + 2 ^ s \<le> 4294967296"
  proof -
    have "(t + 1) \<le> 2 ^ (32 - s)"
      using clz32_bounds(3) [OF xs(2)] xs(2) by (simp add: t_def s(1) js_limb_clz_def)
    then have "(t + 1) * 2 ^ s \<le> 2 ^ (32 - s) * 2 ^ s" by (intro mult_right_mono) auto
    also have "(2 :: nat) ^ (32 - s) * 2 ^ s = 4294967296" using c(1) by (simp flip: power_add)
    finally show ?thesis by simp
  qed
  then have "P * (t * 2 ^ s + 2 ^ s) \<le> P * 4294967296" by (intro mult_left_mono) auto
  moreover have "lval xs * 2 ^ s < P * (t * 2 ^ s + 2 ^ s)"
  proof -
    have "lval xs < P * (t + 1)" using lx bx by simp
    then have "lval xs * 2 ^ s < P * (t + 1) * 2 ^ s" by simp
    then show ?thesis by (simp add: algebra_simps)
  qed
  ultimately have lt: "lval xs * 2 ^ s < 4294967296 ^ length xs" unfolding PL by linarith
  have "unat h = 0"
  proof (rule ccontr)
    assume "unat h \<noteq> 0"
    then have "4294967296 ^ length xs * 1 \<le> 4294967296 ^ length xs * unat h"
      by (intro mult_left_mono) auto
    then show False using v(1) lt by linarith
  qed
  then show e: "lval rs = lval xs * 2 ^ s" using v(1) by simp
  show "2147483648 \<le> unat (last rs)"
  proof (rule ccontr)
    assume "\<not> 2147483648 \<le> unat (last rs)"
    moreover have "rs \<noteq> []" using lr xs(1) by auto
    ultimately have "2 * lval rs < 4294967296 ^ length rs" by (subst lval_top) auto
    then have "2 * (lval xs * 2 ^ s) < P * 4294967296" by (simp add: e lr PL)
    moreover have "P * 2147483648 \<le> P * (t * 2 ^ s)" using c(2) by (intro mult_left_mono) (simp_all add: t_def)
    moreover have "P * (t * 2 ^ s) \<le> lval xs * 2 ^ s" by (simp add: lx algebra_simps)
    ultimately show False by linarith
  qed
qed

lemma divrem_shift_val:
  assumes p: "divrem_shift tabb r na nb (js_limb_clz (tabb ! (nb - 1))) = (tb, r', na')"
    and nb: "0 < nb" "nb \<le> length tabb" "tabb ! (nb - 1) \<noteq> 0" and na: "nb \<le> na" "na < length r"
  defines "s \<equiv> js_limb_clz (tabb ! (nb - 1))"
  shows "length tb = nb" and "2147483648 \<le> unat (last tb)"
    and "lval tb = lval (take nb tabb) * 2 ^ s"
    and "length r' = length r" and "na \<le> na'" and "na' \<le> na + 1"
    and "lval (take na' r') = lval (take na r) * 2 ^ s"
proof -
  have "length (take nb tabb) = nb" using nb by simp
  then have lt: "take nb tabb \<noteq> []" "last (take nb tabb) = tabb ! (nb - 1)"
    using nb last_conv_nth [of "take nb tabb"] by (cases "tabb = []"; auto)+
  note c = clz_norm [OF nb(3), folded s_def]
  have "length tb = nb \<and> 2147483648 \<le> unat (last tb) \<and> lval tb = lval (take nb tabb) * 2 ^ s \<and>
    length r' = length r \<and> na \<le> na' \<and> na' \<le> na + 1 \<and> lval (take na' r') = lval (take na r) * 2 ^ s"
  proof (cases "s = 0")
    case True
    then have "tb = take nb tabb \<and> r' = r \<and> na' = na" using p [folded s_def] by (simp add: divrem_shift_def)
    moreover have "2147483648 \<le> unat (last (take nb tabb))" using c True lt by simp
    ultimately show "length tb = nb \<and> 2147483648 \<le> unat (last tb) \<and> lval tb = lval (take nb tabb) * 2 ^ s \<and>
      length r' = length r \<and> na \<le> na' \<and> na' \<le> na + 1 \<and> lval (take na' r') = lval (take na r) * 2 ^ s"
      using True nb by (simp add: min_def)
  next
    case False
    obtain t0 u where tb: "js_mp_shl (take nb tabb) s = (t0, u)" by force
    obtain ra h where ra: "js_mp_shl (take na r) s = (ra, h)" by force
    note dv = shl_divisor [OF tb lt(1)] and av = js_mp_shl_val [OF ra _ c(1)]
    have lra: "length ra = na" using av(2) False na by simp
    have ar: "lval ra + 4294967296 ^ na * unat h = lval (take na r) * 2 ^ s"
      using av(1) False na by simp
    have t: "tb = t0 \<and> r' = (if h \<noteq> 0 then (ra @ drop na r)[na := h] else ra @ drop na r)
        \<and> na' = (if h \<noteq> 0 then na + 1 else na)"
      using p [folded s_def] False tb ra by (auto simp: divrem_shift_def Let_def split: if_splits)
    have tk: "take (na + 1) ((ra @ drop na r)[na := h]) = ra @ [h]"
      using lra na by (simp add: take_Suc_conv_app_nth)
    have "lval (take na' r') = lval (take na r) * 2 ^ s"
      using t ar lra tk by (cases "h = 0") (simp_all add: lval_append)
    then show "length tb = nb \<and> 2147483648 \<le> unat (last tb) \<and> lval tb = lval (take nb tabb) * 2 ^ s \<and>
      length r' = length r \<and> na \<le> na' \<and> na' \<le> na + 1 \<and> lval (take na' r') = lval (take na r) * 2 ^ s"
      using t dv False nb lra na lt by (simp add: s_def)
  qed
  then show "length tb = nb" and "2147483648 \<le> unat (last tb)"
    and "lval tb = lval (take nb tabb) * 2 ^ s"
    and "length r' = length r" and "na \<le> na'" and "na' \<le> na + 1"
    and "lval (take na' r') = lval (take na r) * 2 ^ s"
    by simp_all
qed

lemma bval_signed:
  assumes "int (lval q) = v" and "q \<noteq> []" and "2 * v < 4294967296 ^ length q"
  shows "bval (if neg then fst (js_mp_neg q) else q) = (if neg then - v else v)"
    and "length (if neg then fst (js_mp_neg q) else q) = length q"
proof -
  obtain rs c where n: "js_mp_neg q = (rs, c)" by force
  note nv = js_mp_neg_val [OF n]
  show l: "length (if neg then fst (js_mp_neg q) else q) = length q" by (simp add: n nv)
  have v0: "0 \<le> v" using assms(1) by (metis of_nat_0_le_iff)
  show "bval (if neg then fst (js_mp_neg q) else q) = (if neg then - v else v)"
  proof (cases neg)
    case False
    then show ?thesis using assms v0 by (intro bval_eqI [of _ _ 0]) simp_all
  next
    case True
    have "int (lval rs) = - v + 4294967296 ^ length q * (if v = 0 then 0 else 1)"
    proof (cases "lval q = 0")
      case True
      then show ?thesis using assms(1) by (simp add: nv)
    next
      case False
      then have "lval rs = 4294967296 ^ length q - lval q" by (simp add: nv)
      then have "int (lval rs) = int (4294967296 ^ length q) - int (lval q)"
        using lval_bound [of q] by simp
      then show ?thesis using False assms(1) by simp
    qed
    then show ?thesis using True assms v0 n nv
      by (intro bval_eqI [of _ _ "if v = 0 then 0 else 1"]) auto
  qed
qed

lemma size_error_mono: "k \<le> n \<Longrightarrow> size_error k err \<Longrightarrow> size_error n err"
  by (auto simp: size_error_def)

lemma runs_divrem_quotient:
  assumes "tabq \<noteq> []" and "int (lval tabq) = A div B" and "0 \<le> A" and "0 \<le> B"
    and "v = sgn x * sgn y * (A div B)" and "A = \<bar>x\<bar>" and "B = \<bar>y\<bar>"
    and "sx = (if x < 0 then 1 else 0)" and "sy = (if y < 0 then 1 else 0)"
  shows "runs (\<lambda>r. bval r = v \<and> bigint_wf r) 0 E e (divrem_quotient tabq sx sy)"
proof -
  define neg where "neg \<longleftrightarrow> (sx XOR sy) \<noteq> 0"
  define q where "q = (if neg then fst (js_mp_neg (tabq @ [0])) else tabq @ [0])"
  have lt: "2 * (A div B) < 4294967296 ^ length (tabq @ [0 :: limb])"
    using int_lval_bound [of tabq] assms(2) by simp
  have lv: "int (lval (tabq @ [0])) = A div B" using assms(2) by (simp add: lval_append)
  have b: "bval q = (if neg then - (A div B) else A div B)" and l: "length q = length (tabq @ [0 :: limb])"
    using bval_signed [OF lv _ lt, of neg] by (simp_all add: q_def)
  have "v = (if neg then - (A div B) else A div B)"
    using assms(5-9) by (auto simp: neg_def sgn_if)
  then have "bval q = v" using b by simp
  moreover have "q \<noteq> []" using l by auto
  ultimately show ?thesis
    unfolding divrem_quotient_def Let_def neg_def [symmetric] q_def [symmetric]
    by (intro runs_weaken [OF runs_normalize]) auto
qed

lemma runs_divrem_remainder:
  assumes r: "int (lval (take nb r)) = (A mod B) * 2 ^ s" and nb: "nb < length r" and s: "s < 32"
    and A: "A = \<bar>x\<bar>" and v: "v = sgn x * (A mod B)" and sx: "sx = (if x < 0 then 1 else 0)"
  shows "runs (\<lambda>r. bval r = v \<and> bigint_wf r) 0 E e (divrem_remainder r nb s sx)"
proof -
  define r1 where "r1 = (if s \<noteq> 0 then fst (js_mp_shr (take nb r) s 0) @ drop nb r else r)"
  have r1: "length r1 = length r \<and> int (lval (take nb r1)) = A mod B"
  proof (cases "s = 0")
    case True
    with r show ?thesis by (simp add: r1_def)
  next
    case False
    obtain rs t where sh: "js_mp_shr (take nb r) s 0 = (rs, t)" by force
    note v = js_mp_shr_val [OF sh _ s]
    have lr: "length rs = nb" using v(3) False nb by simp
    have e: "int (lval rs) * 2 ^ s + int (unat t) = (A mod B) * 2 ^ s"
    proof -
      have "int (lval rs * 2 ^ s + unat t) = int (lval (take nb r))" using v(1) False by simp
      then show ?thesis using r by (simp del: of_nat_unat)
    qed
    have t: "int (unat t) < 2 ^ s"
      using v(2) False by (simp del: of_nat_unat)
    have "int (lval rs) = (int (lval rs) * 2 ^ s + int (unat t)) div 2 ^ s"
      using t by (simp del: of_nat_unat)
    also have "\<dots> = A mod B" unfolding e by simp
    finally show ?thesis using False sh lr nb by (simp add: r1_def)
  qed
  define q where "q = take nb r1 @ [0]"
  have t: "take (nb + 1) (r1[nb := 0]) = q"
    using r1 nb by (simp add: take_Suc_conv_app_nth q_def)
  have lq: "length q = nb + 1" using r1 nb by (simp add: q_def)
  have lv: "int (lval q) = A mod B" using r1 by (simp add: q_def lval_append)
  have lt: "2 * (A mod B) < 4294967296 ^ length q"
    using int_lval_bound [of "take nb r1"] r1 nb by (simp add: lq)
  have q0: "q \<noteq> []" by (simp add: q_def)
  define q1 where "q1 = (if sx \<noteq> 0 then fst (js_mp_neg q) else q)"
  have b: "bval q1 = (if sx \<noteq> 0 then - (A mod B) else A mod B)" and l: "length q1 = nb + 1"
    using bval_signed [OF lv q0 lt, of "sx \<noteq> 0"] by (simp_all add: q1_def lq)
  define r3 where "r3 = (if sx \<noteq> 0 then fst (js_mp_neg q) @ drop (nb + 1) (r1[nb := 0]) else r1[nb := 0])"
  have "take (nb + 1) r3 = q1" using t l by (auto simp: r3_def q1_def)
  then have t3: "take (Suc nb) r3 = q1" by simp
  have l3: "nb + 1 \<le> length r3" using l r1 nb by (auto simp: r3_def q1_def)
  have "bval q1 = v" using b v A sx by (auto simp: sgn_if)
  then have "runs (\<lambda>r. bval r = v \<and> bigint_wf r) 0 E e (js_bigint_normalize1 r3 (nb + 1))"
    using l3 by (intro runs_weaken [OF runs_normalize1 [where E = E]]) (auto simp: t3)
  then show ?thesis by (simp only: divrem_remainder_def Let_def r1_def [symmetric] t r3_def)
qed

definition divrem_error :: "bigint \<Rightarrow> bigint \<Rightarrow> js_error \<Rightarrow> bool" where
  "divrem_error a b err \<longleftrightarrow> (if b = [0] then err = division_by_zero else size_error (length a + 2) err)"

lemma runs_divrem:
  fixes is_rem :: bool
  assumes "bigint_wf a" and "bigint_wf b"
  defines "v \<equiv> if is_rem then sgn (bval a) * (\<bar>bval a\<bar> mod \<bar>bval b\<bar>)
               else sgn (bval a) * sgn (bval b) * (\<bar>bval a\<bar> div \<bar>bval b\<bar>)"
  shows "runs (\<lambda>r. b \<noteq> [0] \<and> bval r = v \<and> bigint_wf r) 1 (divrem_error a b) 0 (js_bigint_divrem a b is_rem)"
proof (cases "b = [0]")
  case True
  then show ?thesis by (auto simp: js_bigint_divrem_def divrem_error_def intro: runs_throw)
next
  case False
  have a0: "a \<noteq> []" and b0: "b \<noteq> []" using assms by (auto simp: bigint_wf_def)
  have nz: "\<not> (length b = 1 \<and> b ! 0 = 0)" using False by (cases b) auto
  define A B where "A = nat \<bar>bval a\<bar>" and "B = nat \<bar>bval b\<bar>"
  define tabb r where "tabb = abs_limbs b" and "r = abs_limbs a @ [0, 0]"
  define na nb where "na = strip_zeros r (length a)" and "nb = strip_zeros tabb (length b)"
  note la = abs_limbs_val [OF a0] and lb = abs_limbs_val [OF b0]
  have lr: "length r = length a + 2" and ltb: "length tabb = length b"
    and vr: "lval (take (length a) r) = A" and vb: "lval (take (length b) tabb) = B"
    by (simp_all add: r_def tabb_def la lb A_def B_def)
  have na: "0 < na" "na \<le> length a" "lval (take na r) = A" "na = 1 \<or> r ! (na - 1) \<noteq> 0"
    using strip_zeros_val [of "length a" r] a0 lr vr by (auto simp: na_def)
  have nb: "0 < nb" "nb \<le> length tabb" "lval (take nb tabb) = B" "nb = 1 \<or> tabb ! (nb - 1) \<noteq> 0"
    using strip_zeros_val [of "length b" tabb] b0 ltb vb by (auto simp: nb_def)
  have "bval b \<noteq> 0" using bval_zero_iff [OF assms(2)] False by simp
  then have B0: "0 < B" by (simp add: B_def)
  have top: "tabb ! (nb - 1) \<noteq> 0"
  proof (cases "nb = 1")
    case True
    then have "take nb tabb = [tabb ! 0]" using nb(2) by (cases tabb) simp_all
    then have "B = unat (tabb ! 0)" using nb(3) by simp
    then show ?thesis using B0 True by auto
  qed (use nb(4) in simp)
  have le: "A < B" if "na < nb"
  proof -
    have "(4294967296 :: nat) ^ na \<le> 4294967296 ^ (nb - 1)" using that by (intro power_increasing) auto
    moreover have "4294967296 ^ (nb - 1) \<le> B"
      using lval_top_nonzero [of "nb - 1" tabb] nb top by simp
    moreover have "A < 4294967296 ^ na" using lval_bound [of "take na r"] na lr by (simp add: min_def split: if_splits)
    ultimately show ?thesis by linarith
  qed
  obtain tb r' na' where ds: "divrem_shift tabb r na nb (js_limb_clz (tabb ! (nb - 1))) = (tb, r', na')"
    by (rule prod_cases3)
  define s where "s = js_limb_clz (tabb ! (nb - 1))"
  have intA: "int A = \<bar>bval a\<bar>" and intB: "int B = \<bar>bval b\<bar>" by (simp_all add: A_def B_def)
  have E: "size_error k err \<Longrightarrow> divrem_error a b err" if "k \<le> length a + 2" for k err
    using size_error_mono [OF that] False by (simp add: divrem_error_def)
  let ?P = "\<lambda>x. bval x = v \<and> bigint_wf x"
  have small: "runs ?P 1 (divrem_error a b) 0
      (if is_rem then bind_m (js_bigint_new (length a)) (\<lambda>_. return_m a) else js_bigint_new_si 0)"
    if "na < nb"
  proof -
    have AB: "int A div int B = 0" "int A mod int B = int A" using le [OF that] by simp_all
    show ?thesis
    proof (cases is_rem)
      case True
      then have "bval a = v" using AB(2) unfolding v_def intA [symmetric] intB [symmetric]
        by (simp add: A_def mult_sgn_abs)
      then have "runs ?P 1 (size_error (length a)) 0 (bind_m (js_bigint_new (length a)) (\<lambda>_. return_m a))"
        using assms(1) by (intro runs_new_bind runs_return) simp_all
      then have "runs ?P 1 (divrem_error a b) 0 (bind_m (js_bigint_new (length a)) (\<lambda>_. return_m a))"
        by (rule runs_weaken) (auto intro: E [of "length a"])
      then show ?thesis using True by simp
    next
      case False
      then have "v = 0" using AB(1) unfolding v_def intA [symmetric] intB [symmetric] by simp
      then have "runs ?P 1 (divrem_error a b) 0 (js_bigint_new_si 0)"
        by (intro runs_weaken [OF runs_new_si_ok]) (auto simp: bval_single wf_single)
      then show ?thesis using False by simp
    qed
  qed
  have large: "runs ?P (-1) (divrem_error a b) (-2)
      (guard_m (js_bigint_new (na' - nb + 2)) (then_m js_free js_free) (\<lambda>_.
         (case js_mp_divnorm (take na' r') tb of
            None \<Rightarrow> throw_m Diverges
          | Some (tabq, taba) \<Rightarrow>
              then_m js_free
                (if is_rem
                 then then_m js_free (divrem_remainder (taba @ drop na' r') nb s (js_bigint_sign a))
                 else then_m js_free (divrem_quotient tabq (js_bigint_sign a) (js_bigint_sign b))))))"
    if "nb \<le> na"
  proof -
    have nar: "na < length r" using na lr by simp
    note d = divrem_shift_val [OF ds nb(1,2) top that nar, folded s_def]
    have s32: "s < 32" using clz_norm [OF top] by (simp add: s_def)
    have na'r: "na' < length r'" using d na lr by simp
    have l1: "length (take na' r') = na'" using na'r by simp
    have tb0: "tb \<noteq> []" using d(1) nb(1) by auto
    have ltk: "length tb \<le> length (take na' r')" using d(1,5) l1 that by simp
    obtain tabq taba where q: "js_mp_divnorm (take na' r') tb = Some (tabq, taba)"
      and lq: "length tabq = na' - nb + 1" and lta: "length taba = na'"
      and vq: "lval tabq = (A * 2 ^ s) div (B * 2 ^ s)"
      and vt: "lval (take nb taba) = (A * 2 ^ s) mod (B * 2 ^ s)"
      using js_mp_divnorm_val [OF tb0 ltk d(2)] d(1,3,7) na(3) nb(3) l1 by auto
    have q1: "int (lval tabq) = int A div int B" using vq by (simp add: zdiv_int)
    have "lval (take nb taba) = (A mod B) * 2 ^ s" using vt by (simp add: mult_mod_left)
    moreover have "take nb (taba @ drop na' r') = take nb taba" using lta d(5) that by simp
    ultimately have "lval (take nb (taba @ drop na' r')) = (A mod B) * 2 ^ s" by (simp only:)
    then have t1: "int (lval (take nb (taba @ drop na' r'))) = (int A mod int B) * 2 ^ s"
      by (simp only: of_nat_mult zmod_int of_nat_power of_nat_numeral)
    note sa = sign_bval [OF a0] and sb = sign_bval [OF b0]
    have fin: "runs ?P (-1) (divrem_error a b) (-2)
        (if is_rem then then_m js_free (divrem_remainder (taba @ drop na' r') nb s (js_bigint_sign a))
         else then_m js_free (divrem_quotient tabq (js_bigint_sign a) (js_bigint_sign b)))"
    proof (cases is_rem)
      case True
      have "runs ?P 0 (divrem_error a b) (-1) (divrem_remainder (taba @ drop na' r') nb s (js_bigint_sign a))"
        by (rule runs_divrem_remainder [OF t1 _ s32, of "bval a"])
           (use True lta na'r d(5) that in \<open>simp_all add: v_def intA intB sa\<close>)
      then show ?thesis using True by (simp add: runs_then_free [OF frees_js_free])
    next
      case False
      have "runs ?P 0 (divrem_error a b) (-1) (divrem_quotient tabq (js_bigint_sign a) (js_bigint_sign b))"
        by (rule runs_divrem_quotient [OF _ q1, of _ "bval a" "bval b"])
           (use False lq in \<open>auto simp: v_def intA intB sa sb\<close>)
      then show ?thesis using False by (simp add: runs_then_free [OF frees_js_free])
    qed
    have fr: "frees 2 (then_m js_free js_free)"
      using frees_then [OF frees_js_free frees_js_free] by simp
    have sz: "na' - nb + 2 \<le> length a + 2" using d(6) na(2) nb(1) by linarith
    show ?thesis unfolding q option.case prod.case
      by (rule runs_guard [OF runs_weaken [OF runs_bigint_new, where E' = "divrem_error a b"] fr])
         (use fin in \<open>auto intro: E [OF sz] runs_then_free [OF frees_js_free]\<close>)
  qed
  have body: "runs ?P (-1) (divrem_error a b) (-2)
      (if na < nb then then_m js_free (then_m js_free
          (if is_rem then bind_m (js_bigint_new (length a)) (\<lambda>_. return_m a) else js_bigint_new_si 0))
       else guard_m (js_bigint_new (na' - nb + 2)) (then_m js_free js_free) (\<lambda>_.
         (case js_mp_divnorm (take na' r') tb of
            None \<Rightarrow> throw_m Diverges
          | Some (tabq, taba) \<Rightarrow>
              then_m js_free
                (if is_rem
                 then then_m js_free (divrem_remainder (taba @ drop na' r') nb s (js_bigint_sign a))
                 else then_m js_free (divrem_quotient tabq (js_bigint_sign a) (js_bigint_sign b))))))"
    using small large by (auto intro!: runs_then_free [OF frees_js_free])
  have eq: "js_bigint_divrem a b is_rem = bind_m (js_bigint_new (length a + 2)) (\<lambda>_. guard_m js_malloc js_free (\<lambda>_.
      (if na < nb then then_m js_free (then_m js_free
          (if is_rem then bind_m (js_bigint_new (length a)) (\<lambda>_. return_m a) else js_bigint_new_si 0))
       else guard_m (js_bigint_new (na' - nb + 2)) (then_m js_free js_free) (\<lambda>_.
         (case js_mp_divnorm (take na' r') tb of
            None \<Rightarrow> throw_m Diverges
          | Some (tabq, taba) \<Rightarrow>
              then_m js_free
                (if is_rem
                 then then_m js_free (divrem_remainder (taba @ drop na' r') nb s (js_bigint_sign a))
                 else then_m js_free (divrem_quotient tabq (js_bigint_sign a) (js_bigint_sign b))))))))"
    unfolding js_bigint_divrem_def if_not_P [OF nz] Let_def r_def [symmetric] tabb_def [symmetric]
      na_def [symmetric] nb_def [symmetric] s_def [symmetric] ds [folded s_def] prod.case ..
  have "runs ?P 1 (divrem_error a b) 0 (js_bigint_divrem a b is_rem)"
    unfolding eq
    by (rule runs_bind [OF runs_weaken [OF runs_bigint_new, where E' = "divrem_error a b"]])
       (use body in \<open>auto intro: E [OF order_refl] runs_guard [OF runs_malloc frees_js_free]\<close>)
  then show ?thesis by (rule runs_weaken) (use False in simp_all)
qed

end
