(* ===== verification/BigInt_Pow.thy ===== *)
theory BigInt_Pow
  imports BigInt_Ops
begin

text \<open>
  Powers of BigInts (\<open>js_bigint_pow\<close> in \<open>src/qjs/quickjs.c\<close>): the special bases, the power of two
  written directly, and square-and-multiply for the rest.
\<close>

section \<open>The operation\<close>

definition negative_exponent :: js_error where
  "negative_exponent = RangeError ''BigInt negative exponent''"

definition too_large :: js_error where
  "too_large = RangeError ''BigInt is too large''"

text \<open>
  The loop over the bits of \<open>e\<close> below the top one; \<open>Suc i\<close> stands for the index \<open>i\<close>. When a product
  fails the code returns without freeing \<open>r\<close>.
\<close>

fun pow_loop :: "bigint \<Rightarrow> u32 \<Rightarrow> nat \<Rightarrow> bigint \<Rightarrow> bigint alloc" where
  "pow_loop a e 0 r = return_m r"
| "pow_loop a e (Suc i) r =
     bind_m (js_bigint_mul r r) (\<lambda>r1. then_m js_free
       (if bit e i
        then bind_m (js_bigint_mul r1 a) (\<lambda>r2. then_m js_free (pow_loop a e i r2))
        else pow_loop a e i r1))"

text \<open>The general case, from the label-free test \<open>b->len > 1\<close> on.\<close>

definition pow_general :: "bigint \<Rightarrow> bigint \<Rightarrow> bigint alloc" where
  "pow_general a b =
     (if length b > 1 then throw_m too_large
      else if unat (b ! 0) > 2147483647 then throw_m too_large
      else (let e = b ! 0;
                n_bits = 32 - clz32 e
            in bind_m (js_bigint_new (length a)) (\<lambda>_. pow_loop a e (n_bits - 1) a)))"

text \<open>The base \<open>v = 2^n\<close> or \<open>- 2^n\<close>.\<close>

definition pow_of_two :: "limb \<Rightarrow> bool \<Rightarrow> bigint \<Rightarrow> bigint alloc" where
  "pow_of_two v is_neg b =
     (let n = 32 - 1 - js_limb_clz v
      in if length b > 1 then throw_m too_large
         else if unat (b ! 0) > 2147483647 then throw_m too_large
         else (let e1 = unat (b ! 0) * n
               in if e1 > JS_BIGINT_MAX_SIZE * 32 then throw_m too_large
                  else (let e = e1;
                            is_neg = (is_neg \<and> bit (b ! 0) 0);
                            len = (e + 32 + 1 - of_bool is_neg) div 32
                        in bind_m (js_bigint_new len) (\<lambda>_.
                          return_m ((replicate len 0)
                            [e div 32 := push_bit (e mod 32) (1 - 2 * of_bool is_neg)])))))"

definition js_bigint_pow :: "bigint \<Rightarrow> bigint \<Rightarrow> bigint alloc" where
  "js_bigint_pow a b =
     (if js_bigint_sign b \<noteq> 0 then throw_m negative_exponent
      else if length b = 1 \<and> b ! 0 = 0 then js_bigint_new_si 1
      else if length a = 1
      then (let v = a ! 0
            in if v \<le> 1 then js_bigint_new_si v
               else if v = -1 then js_bigint_new_si (1 - 2 * (b ! 0 AND 1))
               else (let is_neg = sint v < 0;
                         v = (if is_neg then - v else v)
                     in if (v AND (v - 1)) = 0 then pow_of_two v is_neg b else pow_general a b))
      else pow_general a b)"

section \<open>Square and multiply\<close>

definition pow_error :: "bigint \<Rightarrow> bigint \<Rightarrow> js_error \<Rightarrow> bool" where
  "pow_error a b err \<longleftrightarrow> bval b < 0 \<and> err = negative_exponent
     \<or> (err = too_large \<or> err = too_large_to_allocate)
       \<and> int JS_BIGINT_MAX_SIZE < bval b * int (length a)"

lemma size_error_le: "k \<le> n \<Longrightarrow> size_error k err \<Longrightarrow> err = too_large_to_allocate \<and> JS_BIGINT_MAX_SIZE < n"
  by (auto simp: size_error_def)

lemma yields_mul:
  assumes "bigint_wf a" and "bigint_wf b" and "length a + length b \<le> n"
  shows "yields (\<lambda>r. bval r = bval a * bval b \<and> bigint_wf r \<and> length r \<le> length a + length b) 1
    (size_error n) (js_bigint_mul a b)"
proof -
  have "a \<noteq> []" "b \<noteq> []" using assms(1,2) by (auto simp: bigint_wf_def)
  then show ?thesis
    by (intro yields_weaken [OF yields_runs [OF runs_mul]]) (auto intro: size_error_mono [OF assms(3)])
qed

lemma yields_pow_loop:
  assumes "bigint_wf a" and "bigint_wf r" and "bval r = bval a ^ (unat e div 2 ^ i)"
    and "length r \<le> (unat e div 2 ^ i) * length a"
  shows "yields (\<lambda>r. bval r = bval a ^ unat e \<and> bigint_wf r \<and> length r \<le> unat e * length a) 0
    (size_error (unat e * length a)) (pow_loop a e i r)"
  using assms(2-)
proof (induction i arbitrary: r)
  case 0
  then show ?case by (auto simp: yields_def return_m_def)
next
  case (Suc i)
  define k where "k = unat e div 2 ^ Suc i"
  have half: "unat e div 2 ^ i div 2 = k"
    by (simp only: k_def power_Suc2 div_mult2_eq)
  then have kd: "unat e div 2 ^ i = 2 * k + of_bool (bit e i)"
    by (auto simp: bit_unat_iff)
  have ke: "2 * k + of_bool (bit e i) \<le> unat e" by (simp flip: kd)
  have r: "bval r = bval a ^ k" "length r \<le> k * length a" using Suc.prems by (simp_all add: k_def)
  have b1: "length r + length r \<le> 2 * k * length a" using r(2) by simp
  have n1: "2 * k * length a \<le> unat e * length a" using ke by (intro mult_right_mono) auto
  show ?case unfolding pow_loop.simps
  proof (rule yields_bind [OF yields_mul [OF Suc.prems(1,1) order_trans [OF b1 n1]]],
      rule yields_then_free [OF frees_js_free])
    fix r1 assume "bval r1 = bval r * bval r \<and> bigint_wf r1 \<and> length r1 \<le> length r + length r"
    then have r1: "bval r1 = bval a ^ (2 * k)" "bigint_wf r1" "length r1 \<le> 2 * k * length a"
      using b1 r(1) by (auto simp: mult_2 power_add)
    show "yields (\<lambda>r. bval r = bval a ^ unat e \<and> bigint_wf r \<and> length r \<le> unat e * length a) (0 - 1 + 1)
      (size_error (unat e * length a))
      (if bit e i then bind_m (js_bigint_mul r1 a) (\<lambda>r2. then_m js_free (pow_loop a e i r2))
       else pow_loop a e i r1)"
    proof (cases "bit e i")
      case False
      then show ?thesis using Suc.IH [OF r1(2)] r1 kd by simp
    next
      case True
      have l: "length r1 + length a \<le> (2 * k + 1) * length a" using r1(3) by simp
      have n: "(2 * k + 1) * length a \<le> unat e * length a" using ke True by (intro mult_right_mono) auto
      have "yields (\<lambda>r. bval r = bval a ^ unat e \<and> bigint_wf r \<and> length r \<le> unat e * length a) 0
        (size_error (unat e * length a))
        (bind_m (js_bigint_mul r1 a) (\<lambda>r2. then_m js_free (pow_loop a e i r2)))"
      proof (rule yields_bind [OF yields_mul [OF r1(2) assms(1) order_trans [OF l n]]],
          rule yields_then_free [OF frees_js_free])
        fix r2 assume "bval r2 = bval r1 * bval a \<and> bigint_wf r2 \<and> length r2 \<le> length r1 + length a"
        then have "bval r2 = bval a ^ (2 * k + 1)" "bigint_wf r2" "length r2 \<le> (2 * k + 1) * length a"
          using r1(1) l by auto
        then show "yields (\<lambda>r. bval r = bval a ^ unat e \<and> bigint_wf r \<and> length r \<le> unat e * length a)
          (0 - 1 + 1) (size_error (unat e * length a)) (pow_loop a e i r2)"
          using Suc.IH [of r2] kd True by simp
      qed
      then show ?thesis using True by simp
    qed
  qed
qed

lemma single_exponent:
  assumes "bigint_wf b" and "length b = 1" and "js_bigint_sign b = 0"
  shows "b = [b ! 0]" and "bval b = int (unat (b ! 0))" and "unat (b ! 0) \<le> 2147483647"
proof -
  show e: "b = [b ! 0]" using assms(2) by (cases b) auto
  have "unat (b ! 0) < 2147483648"
    using assms(3) e by (metis js_bigint_sign_cases last_ConsL zero_neq_one)
  then show "unat (b ! 0) \<le> 2147483647" by simp
  then show "bval b = int (unat (b ! 0))"
    by (subst e, subst bval_single, subst sint_u32) simp
qed

lemma long_exponent:
  assumes "bigint_wf b" and "length b > 1" and "js_bigint_sign b = 0" and "0 < length a"
  shows "int JS_BIGINT_MAX_SIZE < bval b * int (length a)"
proof -
  have b0: "b \<noteq> []" using assms(2) by auto
  have "0 \<le> bval b" using sign_bval [OF b0] assms(3) by (simp split: if_splits)
  then have "4294967296 ^ (length b - 1) \<le> 2 * bval b" by (rule bval_wf_large(2) [OF assms(1,2)])
  moreover have "(4294967296 :: int) ^ 1 \<le> 4294967296 ^ (length b - 1)"
    using assms(2) by (intro power_increasing) auto
  ultimately have "2147483648 \<le> bval b" by simp
  then have "2147483648 * 1 \<le> bval b * int (length a)" using assms(4) by (intro mult_mono) (auto simp: Suc_le_eq)
  then show ?thesis by (simp add: JS_BIGINT_MAX_SIZE_def)
qed

lemma pow_error_too_large: "int JS_BIGINT_MAX_SIZE < bval b * int (length a) \<Longrightarrow> pow_error a b too_large"
  by (simp add: pow_error_def)

lemma yields_throw: "E err \<Longrightarrow> yields P k E (throw_m err)"
  by (simp add: yields_def throw_m_def)

lemma yields_new_bind:
  assumes "\<And>err. size_error n err \<Longrightarrow> E err" and "yields P (k - 1) E (f ())"
  shows "yields P k E (bind_m (js_bigint_new n) f)"
  by (rule yields_bind [OF yields_weaken [OF yields_runs [OF runs_bigint_new], where P' = "\<lambda>_. True"]])
     (use assms in auto)

lemma yields_pow_general:
  assumes a: "bigint_wf a" and b: "bigint_wf b" "js_bigint_sign b = 0" "b \<noteq> [0]"
  shows "yields (\<lambda>r. bval r = bval a ^ nat (bval b) \<and> bigint_wf r) 1 (pow_error a b) (pow_general a b)"
proof (cases "length b > 1")
  case True
  have "0 < length a" using a by (simp add: bigint_wf_def)
  with True long_exponent [OF b(1) True b(2)] show ?thesis
    by (auto simp: pow_general_def intro!: yields_throw pow_error_too_large)
next
  case False
  then have l: "length b = 1" using b(1) by (cases b) (auto simp: bigint_wf_def)
  note bs = single_exponent [OF b(1) l b(2)]
  define e where "e = b ! 0"
  have e0: "e \<noteq> 0" using bs(1) b(3) by (auto simp: e_def)
  have ev: "nat (bval b) = unat e" using bs(2) by (simp add: e_def)
  define nb where "nb = 32 - clz32 e"
  have c: "clz32 e < 32" "2 ^ (nb - 1) \<le> unat e" "unat e < 2 ^ nb"
    using clz32_bounds [OF e0] by (simp_all add: nb_def)
  have "nb = Suc (nb - 1)" using c(1) by (simp add: nb_def)
  then have "(2 :: nat) ^ nb = 2 ^ (nb - 1) * 2" by (metis power_Suc2)
  then have top: "unat e div 2 ^ (nb - 1) = 1" using c(2,3) by (intro div_nat_eqI) auto
  have la: "length a \<le> unat e * length a" using e0 by (simp add: unat_eq_0 Suc_le_eq unat_gt_0)
  have er: "pow_error a b err" if "size_error (unat e * length a) err" for err
  proof -
    have "int JS_BIGINT_MAX_SIZE < int (unat e * length a)"
      using that by (simp only: size_error_def of_nat_less_iff)
    also have "\<dots> = bval b * int (length a)" by (simp only: bs(2) e_def of_nat_mult)
    finally show ?thesis using that by (simp add: size_error_def pow_error_def)
  qed
  have "yields (\<lambda>r. bval r = bval a ^ unat e \<and> bigint_wf r \<and> length r \<le> unat e * length a) 0
    (size_error (unat e * length a)) (pow_loop a e (nb - 1) a)"
    by (rule yields_pow_loop [OF a a]; simp only: top power_one_right mult_1)
  then have loop: "yields (\<lambda>r. bval r = bval a ^ nat (bval b) \<and> bigint_wf r) (1 - 1) (pow_error a b)
    (pow_loop a e (nb - 1) a)"
    unfolding diff_self by (rule yields_weaken) (use er in \<open>simp_all add: ev\<close>)
  have "yields (\<lambda>r. bval r = bval a ^ nat (bval b) \<and> bigint_wf r) 1 (pow_error a b)
     (bind_m (js_bigint_new (length a)) (\<lambda>_. pow_loop a e (nb - 1) a))"
    by (rule yields_new_bind [OF _ loop], rule er, rule size_error_mono [OF la])
  then show ?thesis using False bs(3) by (simp add: pow_general_def Let_def nb_def e_def)
qed

section \<open>Powers of two\<close>

lemma power_of_two_test:
  assumes "v \<noteq> (0 :: limb)" and "v AND (v - 1) = 0"
  shows "unat v = 2 ^ (31 - clz32 v)"
proof (rule ccontr)
  assume ne: "unat v \<noteq> 2 ^ (31 - clz32 v)"
  define m where "m = 31 - clz32 v"
  have "Suc m = 32 - clz32 v" using clz32_bounds(1) [OF assms(1)] by (simp add: m_def)
  then have c: "2 ^ m \<le> unat v" "unat v < 2 ^ Suc m"
    using clz32_bounds [OF assms(1)] by (simp_all only: m_def)
  have "unat (v - 1) = unat v - 1" using assms(1) by (simp add: unat_minus_one)
  then have c1: "2 ^ m \<le> unat (v - 1)" "unat (v - 1) < 2 ^ Suc m" using c ne by (simp_all add: m_def)
  have "unat v div 2 ^ m = 1" "unat (v - 1) div 2 ^ m = 1"
    using c c1 by (auto intro!: div_nat_eqI)
  then have "bit v m" "bit (v - 1) m" by (simp_all add: bit_unat_iff)
  then have "bit (v AND (v - 1)) m" by (simp add: bit_and_iff)
  with assms(2) show False by simp
qed

text \<open>The array \<open>pow_of_two\<close> writes stands for \<open>2^e\<close> or \<open>- 2^e\<close>.\<close>

lemma sint_push_one: "j < 31 \<Longrightarrow> sint (push_bit j 1 :: limb) = 2 ^ j"
  and sint_push_minus: "j < 32 \<Longrightarrow> sint (push_bit j (-1) :: limb) = - (2 ^ j)"
proof -
  assume "j < 31"
  then have p: "(2 :: nat) ^ j \<le> 2 ^ 30" by (intro power_increasing) auto
  have "unat (push_bit j 1 :: limb) = 2 ^ j"
    using \<open>j < 31\<close> by (subst unat_push_bit) simp_all
  then show "sint (push_bit j 1 :: limb) = 2 ^ j" using p by (subst sint_u32) simp
next
  assume "j < 32"
  show "sint (push_bit j (-1) :: limb) = - (2 ^ j)"
  proof (cases "j = 0")
    case False
    then show ?thesis using top_of_shl(2) [of 0 j] \<open>j < 32\<close> by (simp del: push_bit_minus_one_eq_not_mask)
  qed simp
qed

lemma pow_of_two_limbs:
  fixes neg :: bool and e :: nat
  defines "len \<equiv> (e + 33 - of_bool neg) div 32"
  defines "r \<equiv> (replicate len 0)[e div 32 := push_bit (e mod 32) (1 - 2 * of_bool neg) :: limb]"
  shows "bval r = (if neg then - (2 ^ e) else 2 ^ e)" and "bigint_wf r"
proof -
  define k j where "k = e div 32" and "j = e mod 32"
  have e: "e = 32 * k + j" and j: "j < 32" by (simp_all add: k_def j_def)
  have p: "(2 :: int) ^ e = 4294967296 ^ k * 2 ^ j" by (simp add: e power_add power_mult)
  have up: "(replicate (k + n) 0)[k := x] = replicate k 0 @ x # replicate (n - 1) (0 :: limb)" if "0 < n" for n x
  proof -
    have "(replicate (k + n) 0)[k := x] = replicate k 0 @ (replicate n 0)[0 := x]"
      by (simp only: replicate_add list_update_append) simp
    then show ?thesis using that by (cases n) simp_all
  qed
  have "bval r = (if neg then - (2 ^ e) else 2 ^ e) \<and> bigint_wf r"
  proof (cases neg)
    case True
    have "len = k + 1" using j by (simp add: len_def True e)
    then have r: "r = replicate k 0 @ [push_bit j (-1)]"
      using up [of 1 "push_bit j (-1)"] by (simp add: r_def True k_def j_def)
    have "push_bit j (-1) \<noteq> (0 :: limb)" using sint_push_minus [OF j] by (metis neg_equal_0_iff_equal power_not_zero sint_0 zero_neq_numeral)
    then show ?thesis unfolding r p using True
      by (simp add: bval_replicate_append bval_single sint_push_minus j wf_replicate_append wf_single
        del: push_bit_minus_one_eq_not_mask)
  next
    case False
    show ?thesis
    proof (cases "j = 31")
      case True
      have "len = k + 2" by (simp add: len_def False e True)
      then have r: "r = replicate k 0 @ [push_bit 31 1, 0]"
        using up [of 2 "push_bit 31 1"] True by (simp add: r_def False k_def j_def)
      have "bigint_wf [push_bit 31 1, 0 :: limb]" by (simp add: bigint_wf_def redundant_limb_cases)
      moreover have "bval [push_bit 31 1, 0 :: limb] = 2 ^ 31" by (simp add: bval_def js_bigint_sign_def)
      ultimately show ?thesis unfolding r p using False True
        by (simp add: bval_replicate_append wf_replicate_append)
    next
      case j31: False
      have "len = k + 1" using j j31 by (simp add: len_def False e)
      then have r: "r = replicate k 0 @ [push_bit j 1]"
        using up [of 1 "push_bit j 1"] by (simp add: r_def False k_def j_def)
      have s: "sint (push_bit j 1 :: limb) = 2 ^ j" using j j31 by (intro sint_push_one) simp
      then have "push_bit j 1 \<noteq> (0 :: limb)" by (metis power_not_zero sint_0 zero_neq_numeral)
      then show ?thesis unfolding r p using False s
        by (simp add: bval_replicate_append bval_single wf_replicate_append wf_single)
    qed
  qed
  then show "bval r = (if neg then - (2 ^ e) else 2 ^ e)" and "bigint_wf r" by simp_all
qed

lemma yields_pow_of_two:
  assumes v: "unat v = 2 ^ n" "n \<le> 31" "n = 31 - js_limb_clz v" "0 < n"
    and a: "bval a = (if is_neg then - (2 ^ n) else 2 ^ n)" "0 < length a"
    and b: "bigint_wf b" "js_bigint_sign b = 0"
  shows "yields (\<lambda>r. bval r = bval a ^ nat (bval b) \<and> bigint_wf r) 1 (pow_error a b) (pow_of_two v is_neg b)"
proof (cases "length b > 1")
  case True
  with long_exponent [OF b(1) True b(2) a(2)] show ?thesis
    by (auto simp: pow_of_two_def Let_def intro!: yields_throw pow_error_too_large)
next
  case False
  then have l: "length b = 1" using b(1) by (cases b) (auto simp: bigint_wf_def)
  note bs = single_exponent [OF b(1) l b(2)]
  define B where "B = unat (b ! 0)"
  define e where "e = B * n"
  have n: "32 - 1 - js_limb_clz v = n" using v(3) by simp
  have big: "pow_error a b err" if "32 * JS_BIGINT_MAX_SIZE \<le> e + 1"
      and "err = too_large \<or> err = too_large_to_allocate" for err
  proof -
    have "e \<le> B * 31" unfolding e_def using v(2) by (intro mult_left_mono) auto
    then have "JS_BIGINT_MAX_SIZE < B" using that(1) by (simp add: JS_BIGINT_MAX_SIZE_def)
    then have "int JS_BIGINT_MAX_SIZE < int B * 1" by simp
    also have "\<dots> \<le> int B * int (length a)" using a(2) by (intro mult_left_mono) (auto simp: Suc_le_eq)
    finally have "int JS_BIGINT_MAX_SIZE < bval b * int (length a)" by (simp only: bs(2) B_def)
    with that(2) show ?thesis by (simp add: pow_error_def)
  qed
  show ?thesis
  proof (cases "e > JS_BIGINT_MAX_SIZE * 32")
    case True
    then have "pow_error a b too_large" by (intro big) auto
    then show ?thesis using False bs(3) True unfolding pow_of_two_def Let_def n
      by (simp add: B_def e_def yields_throw)
  next
    case small: False
    define neg where "neg \<longleftrightarrow> is_neg \<and> bit (b ! 0) 0"
    define len where "len = (e + 33 - of_bool neg) div 32"
    define r where "r = (replicate len 0)[e div 32 := push_bit (e mod 32) (1 - 2 * of_bool neg) :: limb]"
    have rv: "bval r = (if neg then - (2 ^ e) else 2 ^ e)" "bigint_wf r"
      using pow_of_two_limbs [of e neg] by (simp_all only: r_def len_def)
    have odd: "bit (b ! 0) 0 \<longleftrightarrow> odd B" by (simp add: bit_unat_iff B_def)
    have "bval a ^ B = (if neg then - (2 ^ e) else 2 ^ e)"
      by (auto simp: a(1) neg_def odd e_def mult.commute [of B] power_mult)
    then have val: "bval r = bval a ^ nat (bval b)" using rv(1) bs(2) by (simp add: B_def)
    have er: "pow_error a b err" if "size_error len err" for err
    proof (rule big)
      have "JS_BIGINT_MAX_SIZE < (e + 33) div 32"
        using that div_le_mono [of "e + 33 - of_bool neg" "e + 33" 32] by (simp add: size_error_def len_def)
      then show "32 * JS_BIGINT_MAX_SIZE \<le> e + 1" by linarith
      show "err = too_large \<or> err = too_large_to_allocate" using that by (simp add: size_error_def)
    qed
    have l: "(e + 32 + 1 - of_bool neg) div 32 = len" by (simp add: len_def)
    have "pow_of_two v is_neg b = bind_m (js_bigint_new len) (\<lambda>_. return_m r)"
      using False bs(3) small unfolding pow_of_two_def Let_def n B_def [symmetric] e_def [symmetric]
        neg_def [symmetric] l r_def [symmetric] by simp
    then show ?thesis
      by (simp only:) (rule yields_new_bind; simp add: er val rv yields_def return_m_def)
  qed
qed

section \<open>The whole function\<close>

lemma and_one: "(x AND 1) = (of_bool (bit x 0) :: limb)"
  by (simp add: and_one_eq mod_2_eq_odd bit_0)

lemma minus_one_power:
  assumes "b \<noteq> []" and "0 \<le> bval b"
  shows "sint (1 - 2 * (b ! 0 AND 1)) = (-1) ^ nat (bval b)"
proof -
  have "bit (bval b) 0 \<longleftrightarrow> bit (b ! 0) 0" using assms(1) by (simp add: bit_bval)
  then have "bit (b ! 0) 0 \<longleftrightarrow> odd (nat (bval b))" using assms(2) by (simp add: even_nat_iff bit_0)
  then show ?thesis by (cases "bit (b ! 0) 0") (simp_all only: and_one, simp_all)
qed

lemma yields_pow_single:
  assumes b: "bigint_wf b" "js_bigint_sign b = 0" "b \<noteq> [0]" and a: "bval a = sint v" "bigint_wf a"
    and v: "\<not> v \<le> 1" "v \<noteq> -1"
  defines "w \<equiv> (if sint v < 0 then - v else v)"
  shows "yields (\<lambda>r. bval r = bval a ^ nat (bval b) \<and> bigint_wf r) 1 (pow_error a b)
    (if (w AND (w - 1)) = 0 then pow_of_two w (sint v < 0) b else pow_general a b)"
proof (cases "(w AND (w - 1)) = 0")
  case False
  then show ?thesis using yields_pow_general [OF a(2) b] by simp
next
  case True
  have w: "int (unat w) = \<bar>sint v\<bar>" unfolding w_def by (rule abs_limb_val)
  have "sint v = sint (0 :: limb) \<Longrightarrow> v = 0" "sint v = sint (1 :: limb) \<Longrightarrow> v = 1"
    "sint v = sint (-1 :: limb) \<Longrightarrow> v = -1"
    by (simp_all only: signed_word_eqI)
  then have "sint v \<noteq> 0" "sint v \<noteq> 1" "sint v \<noteq> -1" using v by auto
  then have w2: "2 \<le> unat w" using w by linarith
  then have w0: "w \<noteq> 0" by auto
  define n where "n = 31 - clz32 w"
  have wn: "unat w = 2 ^ n" unfolding n_def by (rule power_of_two_test [OF w0 True])
  have "n \<noteq> 0" using wn w2 by (cases n) auto
  moreover have "bval a = (if sint v < 0 then - (2 ^ n) else 2 ^ n)"
    using w wn by (simp add: a(1) abs_if split: if_splits)
  moreover have "0 < length a" using a(2) by (simp add: bigint_wf_def)
  ultimately have "yields (\<lambda>r. bval r = bval a ^ nat (bval b) \<and> bigint_wf r) 1 (pow_error a b)
      (pow_of_two w (sint v < 0) b)"
    by (intro yields_pow_of_two [of _ n] b wn) (simp_all add: n_def js_limb_clz_def w0)
  then show ?thesis using True by simp
qed

lemma yields_pow:
  assumes "bigint_wf a" and "bigint_wf b"
  shows "yields (\<lambda>r. 0 \<le> bval b \<and> bval r = bval a ^ nat (bval b) \<and> bigint_wf r) 1 (pow_error a b) (js_bigint_pow a b)"
proof (cases "js_bigint_sign b = 0")
  case False
  moreover have "b \<noteq> []" using assms by (simp add: bigint_wf_def)
  ultimately have "bval b < 0" by (simp add: sign_bval split: if_splits)
  then show ?thesis using False by (simp add: js_bigint_pow_def pow_error_def yields_throw)
next
  case sb: True
  have b0: "b \<noteq> []" using assms(2) by (simp add: bigint_wf_def)
  then have nn: "0 \<le> bval b" using sb by (simp add: sign_bval split: if_splits)
  let ?P = "\<lambda>r. bval r = bval a ^ nat (bval b) \<and> bigint_wf r"
  have single: "yields ?P 1 (pow_error a b) (js_bigint_new_si v)"
    if "sint v = bval a ^ nat (bval b)" for v
    by (rule yields_weaken [OF yields_runs [OF runs_new_si_ok]]) (auto simp: that bval_single wf_single)
  have "yields ?P 1 (pow_error a b) (js_bigint_pow a b)"
  proof (cases "length b = 1 \<and> b ! 0 = 0")
    case True
    then have "b = [0]" by (cases b) auto
    then show ?thesis using single [of 1] sb by (simp add: js_bigint_pow_def bval_single)
  next
    case bz: False
    then have bz': "b \<noteq> [0]" by auto
    have bp: "nat (bval b) \<noteq> 0" using bval_zero_iff [OF assms(2)] bz' nn by auto
    consider "length a \<noteq> 1" | "length a = 1" "a ! 0 \<le> 1" | "length a = 1" "a ! 0 = -1" "\<not> a ! 0 \<le> 1"
      | "length a = 1" "\<not> a ! 0 \<le> 1" "a ! 0 \<noteq> -1" by blast
    then show ?thesis
    proof cases
      case 1
      then show ?thesis using yields_pow_general [OF assms sb bz'] sb
        unfolding js_bigint_pow_def if_not_P [OF bz] by simp
    next
      case 2
      then have "a ! 0 = 0 \<or> a ! 0 = 1" by (intro unat_le_1_cases) (simp add: word_le_nat_alt)
      moreover have "bval a = sint (a ! 0)" using 2 by (cases a) (simp_all add: bval_single)
      ultimately have "sint (a ! 0) = bval a ^ nat (bval b)" using bp by auto
      then show ?thesis using single 2 sb unfolding js_bigint_pow_def if_not_P [OF bz] by simp
    next
      case 3
      have "bval a = -1" using 3 by (cases a) (simp_all add: bval_single)
      then show ?thesis using single [OF minus_one_power [OF b0 nn, folded \<open>bval a = -1\<close>]] 3 sb
        unfolding js_bigint_pow_def if_not_P [OF bz] by simp
    next
      case 4
      have "bval a = sint (a ! 0)" using 4 by (cases a) (simp_all add: bval_single)
      from yields_pow_single [OF assms(2) sb bz' this assms(1) 4(2,3)] 4 sb
      show ?thesis unfolding js_bigint_pow_def if_not_P [OF bz] by (simp add: Let_def)
    qed
  qed
  then show ?thesis by (rule yields_weaken) (simp_all add: nn)
qed

end
