(* ===== verification/BigInt_Float.thy ===== *)
theory BigInt_Float
  imports BigInt_Ops
begin

text \<open>
  BigInts and doubles (\<open>js_bigint_get_mant_exp\<close>, \<open>shr_rndn\<close>, \<open>js_bigint_to_float64\<close>,
  \<open>js_bigint_from_float64\<close> and \<open>js_bigint_float64_cmp\<close> in \<open>src/qjs/quickjs.c\<close>). A double is the
  64-bit pattern the functions work on (\<open>float64_as_uint64\<close>); its number is given by
  \<open>f64_scaled\<close>, the value times \<open>2^1074\<close>, which is an integer for every finite double.
\<close>

section \<open>Doubles\<close>

definition f64_sign :: "u64 \<Rightarrow> bool" where
  "f64_sign x \<longleftrightarrow> bit x 63"

definition f64_exp :: "u64 \<Rightarrow> nat" where
  "f64_exp x = unat (drop_bit 52 x AND mask 11)"

definition f64_mant :: "u64 \<Rightarrow> nat" where
  "f64_mant x = unat (x AND mask 52)"

text \<open>The number of a finite double, times \<open>2^1074\<close>.\<close>

definition f64_scaled :: "u64 \<Rightarrow> int" where
  "f64_scaled x = (if f64_sign x then -1 else 1) *
     (if f64_exp x = 0 then int (f64_mant x)
      else (2 ^ 52 + int (f64_mant x)) * 2 ^ (f64_exp x - 1))"

definition f64_make :: "bool \<Rightarrow> u64 \<Rightarrow> u64 \<Rightarrow> u64" where
  "f64_make sg e mant = push_bit 63 (of_bool sg) OR push_bit 52 e OR mant"

text \<open>The conversion \<open>(double)(int32_t)\<close> of the language, exact.\<close>

definition f64_of_int32 :: "u32 \<Rightarrow> u64" where
  "f64_of_int32 v =
     (if v = 0 then 0
      else (let w = (if sint v < 0 then - v else v);
                n = 31 - clz32 w
            in f64_make (sint v < 0) (of_nat (n + 1023)) (push_bit (52 - n) (ucast w) AND mask 52)))"

section \<open>The mantissa of a BigInt\<close>

fun abs_loop :: "limb list \<Rightarrow> limb \<Rightarrow> limb \<Rightarrow> limb list \<times> limb" where
  "abs_loop [] sg carry = ([], carry)"
| "abs_loop (x # xs) sg carry =
     (let v = (x XOR (- sg)) + carry;
          (vs, c) = abs_loop xs sg (of_bool (v < carry))
      in (v # vs, c))"

text \<open>
  \<open>n2\<close> is 3. With fewer than three limbs the missing low ones of \<open>t\<close> are 0. The pair is the
  returned mantissa and \<open>*pexp\<close>.
\<close>

definition js_bigint_get_mant_exp :: "bigint \<Rightarrow> u64 \<times> int" where
  "js_bigint_get_mant_exp a =
     (let n1 = length a - 3;
          sg = js_bigint_sign a;
          (lo, carry) = abs_loop (take n1 a) sg sg;
          low_bits = fold (OR) lo 0;
          t = replicate (3 - length a) 0 @ fst (abs_loop (drop n1 a) sg carry);
          a1 = push_bit 32 (ucast (t ! 2)) OR ucast (t ! 1) :: u64;
          a0 = push_bit 32 (ucast (t ! 0)) OR of_bool (low_bits \<noteq> 0) :: u64;
          shift = clz64 a1;
          (a1, a0) = (if shift \<noteq> 0 then (push_bit shift a1 OR drop_bit (64 - shift) a0, push_bit shift a0)
                      else (a1, a0));
          a1 = a1 OR of_bool (a0 \<noteq> 0);
          e = int (length a) * 32 - int shift - 1
      in (a1, e))"

definition shr_rndn :: "u64 \<Rightarrow> nat \<Rightarrow> u64" where
  "shr_rndn a n =
     (let addend = (drop_bit n a AND 1) + (push_bit (n - 1) 1 - 1)
      in drop_bit n (a + addend))"

definition js_bigint_to_float64 :: "bigint \<Rightarrow> u64" where
  "js_bigint_to_float64 a =
     (if length a = 1 then f64_of_int32 (a ! 0)
      else
        (let sg = js_bigint_sign a;
             (mant, e) = js_bigint_get_mant_exp a;
             (mant, e) =
               (if e > 1023 then (0, 1024)
                else (let mant = drop_bit 1 mant OR (mant AND 1);
                          mant = shr_rndn mant 10;
                          (mant, e) = (if mant \<ge> push_bit 53 1 then (drop_bit 1 mant, e + 1) else (mant, e))
                      in (mant AND mask 52, e)))
         in f64_make (sg \<noteq> 0) (word_of_int (e + 1023)) mant))"

section \<open>From a double\<close>

datatype from_float64 = Integer bigint | NotInteger | NaN_or_Infinity

definition js_bigint_from_float64 :: "u64 \<Rightarrow> from_float64 alloc" where
  "js_bigint_from_float64 a =
     (let sg = drop_bit 63 a;
          e = drop_bit 52 a AND mask 11;
          mant = a AND mask 52
      in if e = 2047 then return_m NaN_or_Infinity
         else if e = 0 \<and> mant = 0 then bind_m (js_bigint_new_si 0) (\<lambda>r. return_m (Integer r))
         else
           (let e = int (unat e) - 1023;
                mant = mant OR push_bit 52 1
            in if e < 0 then return_m NotInteger
               else if e < 52 \<and> mant AND mask (nat (52 - e)) \<noteq> 0 then return_m NotInteger
               else
                 (let (mant, e) = (if e < 52 then (drop_bit (nat (52 - e)) mant, 0) else (mant, e - 52));
                      mant = (if sg \<noteq> 0 then - mant else mant)
                  in bind_m (js_bigint_shl (js_bigint_set_si64 mant) (word_of_int e))
                       (\<lambda>r. return_m (Integer r)))))"

section \<open>Comparison with a double\<close>

definition js_bigint_float64_cmp :: "bigint \<Rightarrow> u64 \<Rightarrow> int" where
  "js_bigint_float64_cmp a b1 =
     (let b_sign = int (unat (drop_bit 63 b1));
          e = int (unat (drop_bit 52 b1 AND mask 11));
          mant = b1 AND mask 52;
          a_sign = int (unat (js_bigint_sign a))
      in if e = 2047 then (if mant \<noteq> 0 then 2 else 2 * b_sign - 1)
         else if e = 0 \<and> mant = 0 then (if length a = 1 \<and> a ! 0 = 0 then 0 else 1 - 2 * a_sign)
         else if length a = 1 \<and> a ! 0 = 0 then 2 * b_sign - 1
         else if a_sign \<noteq> b_sign then 1 - 2 * a_sign
         else
           (let e = e - 1023;
                (a_mant, f) = js_bigint_get_mant_exp a
            in if f \<noteq> e then (if f < e then -1 else 1)
               else
                 (let mant = push_bit 11 (mant OR push_bit 52 1)
                  in if a_mant < mant then 2 * a_sign - 1
                     else if a_mant > mant then 1 - 2 * a_sign
                     else 0)))"

section \<open>The mantissa is the number, rounded to odd\<close>

lemma abs_loop_append:
  "abs_loop (xs @ ys) s c = (let (l, c1) = abs_loop xs s c; (h, c2) = abs_loop ys s c1 in (l @ h, c2))"
  by (induction xs arbitrary: c) (simp_all add: Let_def split: prod.splits)

lemma abs_loop_length: "length (fst (abs_loop xs s c)) = length xs"
  by (induction xs arbitrary: c) (simp_all add: Let_def split: prod.splits, metis fst_conv)

lemma abs_loop_0: "abs_loop xs 0 0 = (xs, 0)"
  by (induction xs) simp_all

lemma abs_loop_1: "abs_loop xs 1 c = mp_neg_loop xs c"
  by (induction xs arbitrary: c) (simp_all add: xor_m1 Let_def split: prod.splits)

lemma abs_loop_abs_limbs:
  "fst (abs_loop a (js_bigint_sign a) (js_bigint_sign a)) = abs_limbs a"
  using js_bigint_sign_01 [of a] by (auto simp: abs_limbs_def abs_loop_0 abs_loop_1 js_mp_neg_def)

text \<open>The two loops together read the limbs of the absolute value.\<close>

lemma abs_loop_split:
  assumes "abs_loop (take n a) (js_bigint_sign a) (js_bigint_sign a) = (lo, c)"
  shows "lo @ fst (abs_loop (drop n a) (js_bigint_sign a) c) = abs_limbs a"
    and "length lo = min n (length a)"
proof -
  have "abs_limbs a = fst (abs_loop (take n a @ drop n a) (js_bigint_sign a) (js_bigint_sign a))"
    by (simp add: abs_loop_abs_limbs)
  also have "\<dots> = lo @ fst (abs_loop (drop n a) (js_bigint_sign a) c)"
    unfolding abs_loop_append assms by (simp split: prod.splits)
  finally show "lo @ fst (abs_loop (drop n a) (js_bigint_sign a) c) = abs_limbs a" by simp
  show "length lo = min n (length a)"
    using abs_loop_length [of "take n a" "js_bigint_sign a" "js_bigint_sign a"] assms by (simp add: min.commute)
qed

lemma or_eq_0_word: "(x OR y) = 0 \<longleftrightarrow> x = 0 \<and> y = (0 :: 'a::len word)"
  by (auto simp: bit_eq_iff bit_or_iff)

lemma low_bits_zero: "fold (OR) lo (x :: limb) = 0 \<longleftrightarrow> x = 0 \<and> lval lo = 0"
  by (induction lo arbitrary: x) (auto simp: or_eq_0_word unat_eq_0)

text \<open>The arithmetic of the normalization: \<open>F\<close> in two parts, shifted left by \<open>s\<close>.\<close>

lemma mant_exp_arith:
  fixes L t0 W n s :: nat
  defines "P \<equiv> 4294967296 ^ n" and "T \<equiv> t0 + 4294967296 * W"
  assumes L: "L < P" and t0: "t0 < 4294967296" and s: "s \<le> 32"
    and W: "2 ^ (63 - s) \<le> W" "W < 2 ^ (64 - s)"
  shows "(L + P * T) * 2 ^ s div (P * 4294967296) = W * 2 ^ s + t0 div 2 ^ (32 - s)"
    and "(L + P * T) * 2 ^ s mod (P * 4294967296) = 0 \<longleftrightarrow> L = 0 \<and> t0 mod 2 ^ (32 - s) = 0"
    and "P * 2 ^ 95 \<le> (L + P * T) * 2 ^ s" and "(L + P * T) * 2 ^ s < P * 2 ^ 96"
proof -
  define G E where "G = (2 :: nat) ^ s" and "E = (2 :: nat) ^ (32 - s)"
  have EG: "E * G = 4294967296" using s by (simp add: E_def G_def flip: power_add)
  have E0: "0 < E" and G0: "0 < G" and P0: "0 < P" by (simp_all add: E_def G_def P_def)
  define u v where "u = t0 div E" and "v = t0 mod E"
  have t: "t0 = u * E + v" and v: "v < E" using E0 by (simp_all add: u_def v_def)
  define R where "R = (L + P * v) * G"
  have "L + P * v < P * (v + 1)" using L by simp
  also have "\<dots> \<le> P * E" using v by (intro mult_left_mono) auto
  finally have "R < P * E * G" unfolding R_def using G0 by simp
  then have R: "R < P * 4294967296" using EG by (simp add: mult.assoc)
  have "(L + P * T) * G = P * (E * G) * (W * G + u) + R"
    by (simp add: T_def t R_def EG [symmetric] algebra_simps)
  then have Y: "(L + P * T) * G = P * 4294967296 * (W * G + u) + R" by (simp add: EG)
  have "(L + P * T) * G div (P * 4294967296) = W * G + u" using R P0 by (simp add: Y)
  then show "(L + P * T) * 2 ^ s div (P * 4294967296) = W * 2 ^ s + t0 div 2 ^ (32 - s)"
    by (simp only: G_def u_def E_def)
  have "(L + P * T) * G mod (P * 4294967296) = R" using R by (simp add: Y)
  then show "(L + P * T) * 2 ^ s mod (P * 4294967296) = 0 \<longleftrightarrow> L = 0 \<and> t0 mod 2 ^ (32 - s) = 0"
    using G0 P0 by (simp add: R_def v_def G_def E_def)
  have "(63 - s) + s = 63" "(64 - s) + s = 64" using s by simp_all
  then have p: "2 ^ (63 - s) * G = (2 :: nat) ^ 63" "2 ^ (64 - s) * G = (2 :: nat) ^ 64"
    unfolding G_def by (simp_all only: power_add [symmetric])
  have "(2 :: nat) ^ 63 \<le> W * G" unfolding p(1) [symmetric] using W(1) by (intro mult_right_mono) auto
  then have lo: "2 ^ 63 \<le> W * G + u" by simp
  have "P * 4294967296 * 2 ^ 63 \<le> P * 4294967296 * (W * G + u)" using lo by (intro mult_left_mono) auto
  moreover have "P * 2 ^ 95 = P * 4294967296 * 2 ^ 63" by simp
  ultimately show "P * 2 ^ 95 \<le> (L + P * T) * 2 ^ s"
    unfolding G_def [symmetric] Y by linarith
  have "u < G"
  proof -
    have "u * E < G * E" using t t0 EG by (simp add: mult.commute)
    then show ?thesis by simp
  qed
  moreover have "(W + 1) * G \<le> 2 ^ 64" unfolding p(2) [symmetric] using W(2) by (intro mult_right_mono) auto
  ultimately have "W * G + u + 1 \<le> 2 ^ 64" by (simp add: algebra_simps)
  then have "P * 4294967296 * (W * G + u + 1) \<le> P * 4294967296 * 2 ^ 64" by (intro mult_left_mono) auto
  moreover have "P * 2 ^ 96 = P * 4294967296 * 2 ^ 64" by simp
  moreover have "P * 4294967296 * (W * G + u + 1) = P * 4294967296 * (W * G + u) + P * 4294967296"
    by (simp only: distrib_left mult_1_right)
  ultimately show "(L + P * T) * 2 ^ s < P * 2 ^ 96"
    unfolding G_def [symmetric] Y using R by linarith
qed

text \<open>The word computation of the normalized pair \<open>a1\<close>, \<open>a0\<close>.\<close>

lemma mant_words:
  fixes a1 :: u64 and t0 :: limb and b :: bool
  assumes s: "s = clz64 a1" "s \<le> 32" and a1: "a1 \<noteq> 0"
  defines "a0 \<equiv> push_bit 32 (ucast t0) OR of_bool b :: u64"
  defines "p \<equiv> (if s \<noteq> 0 then (push_bit s a1 OR drop_bit (64 - s) a0, push_bit s a0) else (a1, a0))"
  shows "unat (fst p) = unat a1 * 2 ^ s + unat t0 div 2 ^ (32 - s)"
    and "snd p = 0 \<longleftrightarrow> \<not> b \<and> unat t0 mod 2 ^ (32 - s) = 0"
proof -
  have ob: "unat (of_bool b :: u64) < 2 ^ 32" by (cases b) simp_all
  have "unat (ucast t0 :: u64) mod 2 ^ 32 = unat t0" using unat_lt_u32 [of t0] by simp
  then have a0: "unat a0 = unat t0 * 4294967296 + of_bool b"
    unfolding a0_def using unat_push_bit_or [of 32 "of_bool b :: u64" "ucast t0 :: u64"] ob
    by (simp add: unat_of_bool)
  have w: "unat a1 < 2 ^ (64 - s)" using clz64_bounds(3) [OF a1] by (simp add: s(1))
  define E where "E = (2 :: nat) ^ (32 - s)"
  have "64 - s = 32 + (32 - s)" using s(2) by simp
  then have e64: "(2 :: nat) ^ (64 - s) = 4294967296 * E" by (simp only: power_add E_def) simp
  have E0: "0 < E" by (simp add: E_def)
  have bd: "unat a0 div 4294967296 = unat t0" by (simp add: a0)
  have bm: "unat a0 mod 4294967296 = of_bool b"
    unfolding a0 by (simp only: mod_mult_self3) (cases b; simp)
  have dv: "unat a0 div 2 ^ (64 - s) = unat t0 div E"
    unfolding e64 by (simp add: div_mult2_eq bd)
  have "unat a0 mod (4294967296 * E) = 4294967296 * (unat t0 mod E) + of_bool b"
    unfolding mod_mult2_eq bd bm by simp
  then have md: "unat a0 mod 2 ^ (64 - s) = 0 \<longleftrightarrow> \<not> b \<and> unat t0 mod E = 0"
    unfolding e64 by auto
  have "unat (fst p) = unat a1 * 2 ^ s + unat t0 div E \<and> (snd p = 0 \<longleftrightarrow> \<not> b \<and> unat t0 mod E = 0)"
  proof (cases "s = 0")
    case True
    have "unat t0 div E = 0" using True unat_lt_u32 [of t0] by (simp add: E_def)
    moreover have "a0 = 0 \<longleftrightarrow> unat a0 mod 2 ^ (64 - s) = 0"
      using True unat_lt_u64 [of a0] by (simp add: unat_eq_0)
    ultimately show ?thesis using True md by (simp add: p_def)
  next
    case False
    have lt: "unat (drop_bit (64 - s) a0) < 2 ^ s"
    proof -
      have "unat a0 < 2 ^ s * 2 ^ (64 - s)"
        using unat_lt_u64 [of a0] s(2) by (simp flip: power_add)
      then show ?thesis by (simp add: unat_drop_bit less_mult_imp_div_less)
    qed
    have s64: "s \<le> LENGTH(64)" using s(2) by simp
    have "unat (push_bit s a1 OR drop_bit (64 - s) a0)
        = unat a1 mod 2 ^ (64 - s) * 2 ^ s + unat (drop_bit (64 - s) a0)"
      using unat_push_bit_or [OF s64 lt, of a1] by simp
    also have "\<dots> = unat a1 * 2 ^ s + unat t0 div E"
      using w dv by (simp only: unat_drop_bit mod_less)
    finally have f: "unat (push_bit s a1 OR drop_bit (64 - s) a0) = unat a1 * 2 ^ s + unat t0 div E" .
    have "push_bit s a0 = 0 \<longleftrightarrow> unat (push_bit s a0) = 0" by (simp only: unat_eq_0)
    also have "\<dots> \<longleftrightarrow> unat a0 mod 2 ^ (64 - s) = 0"
      using unat_push_bit [OF s64, of a0] by simp
    finally show ?thesis using f md False by (simp add: p_def)
  qed
  then show "unat (fst p) = unat a1 * 2 ^ s + unat t0 div 2 ^ (32 - s)"
    and "snd p = 0 \<longleftrightarrow> \<not> b \<and> unat t0 mod 2 ^ (32 - s) = 0"
    by (simp_all only: E_def)
qed

text \<open>A normalized number leaves at least \<open>2^63\<close> in the top three limbs.\<close>

lemma abs_large:
  assumes "bigint_wf a" and "a \<noteq> [0]"
  defines "A \<equiv> nat \<bar>bval a\<bar>" and "n1 \<equiv> length a - 3"
  shows "4294967296 ^ n1 * 2 ^ 64 \<le> 2 * (A * 4294967296 ^ (3 - length a))"
proof (cases "length a = 1")
  case True
  have "bval a \<noteq> 0" using bval_zero_iff [OF assms(1)] assms(2) by simp
  then have "1 \<le> A" by (simp add: A_def)
  then show ?thesis using True by (simp add: n1_def)
next
  case False
  moreover have "length a \<noteq> 0" using assms(1) by (simp add: bigint_wf_def)
  ultimately have l: "1 < length a" by linarith
  have "(4294967296 :: int) ^ (length a - 1) \<le> 2 * \<bar>bval a\<bar>"
    using bval_wf_large [OF assms(1) l] by (cases "bval a < 0") auto
  then have "nat (4294967296 ^ (length a - 1)) \<le> nat (2 * \<bar>bval a\<bar>)" by (rule nat_mono)
  then have le: "4294967296 ^ (length a - 1) \<le> 2 * A"
    by (simp add: A_def nat_mult_distrib nat_power_eq)
  show ?thesis
  proof (cases "length a = 2")
    case True
    then show ?thesis using le by (simp add: n1_def)
  next
    case False
    then have "length a - 1 = n1 + 2" using l by (simp add: n1_def)
    then show ?thesis using le False l by (simp add: power_add)
  qed
qed

lemma js_bigint_get_mant_exp_val:
  assumes "bigint_wf a" and "a \<noteq> [0]"
  defines "A \<equiv> nat \<bar>bval a\<bar>"
  shows "\<exists>m e. js_bigint_get_mant_exp a = (m, int e) \<and> 2 ^ e \<le> A \<and> A < 2 ^ (e + 1)
    \<and> unat m = (A * 2 ^ 63 div 2 ^ e) OR of_bool (A * 2 ^ 63 mod 2 ^ e \<noteq> 0)"
proof -
  have a0: "a \<noteq> []" using assms(1) by (simp add: bigint_wf_def)
  define n1 where "n1 = length a - 3"
  define P where "P = (4294967296 :: nat) ^ n1"
  obtain lo c where lo: "abs_loop (take n1 a) (js_bigint_sign a) (js_bigint_sign a) = (lo, c)" by force
  define hi where "hi = fst (abs_loop (drop n1 a) (js_bigint_sign a) c)"
  have ab: "lo @ hi = abs_limbs a" and ll: "length lo = n1"
    using abs_loop_split [OF lo] by (simp_all add: hi_def n1_def)
  have lh: "length hi = length a - n1" using abs_loop_length [of "drop n1 a" "js_bigint_sign a" c] by (simp add: hi_def)
  define t where "t = replicate (3 - length a) 0 @ hi"
  have lt: "length t = 3" using lh a0 by (cases "length a") (simp_all add: t_def n1_def)
  then obtain t0 t1 t2 where t: "t = [t0, t1, t2]"
    by (auto simp: numeral_3_eq_3 length_Suc_conv)
  define W where "W = unat t1 + 4294967296 * unat t2"
  define T where "T = unat t0 + 4294967296 * W"
  have T: "lval t = T" by (simp add: t T_def W_def)
  define L where "L = lval lo"
  have L: "L < P" using lval_bound [of lo] by (simp add: L_def ll P_def)
  have Aeq: "lval (abs_limbs a) = A" using abs_limbs_val [OF a0] by (simp add: A_def)
  define K where "K = (4294967296 :: nat) ^ (3 - length a)"
  have F: "A * K = L + P * T"
  proof -
    have "lval t = K * lval hi" by (simp add: t_def lval_append lval_replicate_0 K_def)
    moreover have "A = L + P * lval hi" unfolding Aeq [symmetric] ab [symmetric] by (simp add: lval_append L_def P_def ll)
    moreover have "K = 1 \<or> P = 1 \<and> L = 0" using ll by (auto simp: K_def P_def L_def n1_def)
    ultimately show ?thesis using T by auto
  qed
  have Wb: "2147483648 \<le> W"
  proof (rule ccontr)
    assume n: "\<not> 2147483648 \<le> W"
    have "P * 2 ^ 64 \<le> 2 * (L + P * T)"
      using abs_large [OF assms(1,2)] F by (simp add: P_def n1_def A_def K_def)
    also have "\<dots> < P * (2 * (T + 1))" using L by simp
    finally have "2 ^ 64 < 2 * (T + 1)" by simp
    moreover have "T + 1 \<le> 4294967296 * 2147483648" using n unat_lt_u32 [of t0] by (simp add: T_def)
    ultimately show False by simp
  qed
  define a1 :: u64 where "a1 = push_bit 32 (ucast t2) OR ucast t1"
  have a1: "unat a1 = W" using unat_mk_dlimb [of t2 t1] by (simp add: a1_def mk_dlimb_def W_def)
  then have a1n: "a1 \<noteq> 0" using Wb by auto
  define s where "s = clz64 a1"
  note cz = clz64_bounds [OF a1n, folded s_def, unfolded a1]
  have s32: "s \<le> 32"
  proof (rule ccontr)
    assume "\<not> s \<le> 32"
    then have "(2 :: nat) ^ (64 - s) \<le> 2 ^ 31" by (intro power_increasing) auto
    then show False using cz(3) Wb by simp
  qed
  define low_bits where "low_bits = fold (OR) lo (0 :: limb)"
  have lowz: "low_bits \<noteq> 0 \<longleftrightarrow> L \<noteq> 0" by (simp add: low_bits_def low_bits_zero L_def)
  define p where "p = (if s \<noteq> 0
    then (push_bit s a1 OR drop_bit (64 - s) (push_bit 32 (ucast t0) OR of_bool (low_bits \<noteq> 0)),
          push_bit s (push_bit 32 (ucast t0) OR of_bool (low_bits \<noteq> 0)))
    else (a1, push_bit 32 (ucast t0) OR of_bool (low_bits \<noteq> 0) :: u64))"
  note mw = mant_words [OF s_def s32 a1n, of t0 "low_bits \<noteq> 0", folded p_def, unfolded a1]
  note ar = mant_exp_arith [OF L [unfolded P_def] unat_lt_u32 [of t0] s32 cz(2,3), folded P_def, folded T_def]
  define X D where "X = (L + P * T) * 2 ^ s" and "D = P * 4294967296"
  have q: "unat (fst p) = X div D" and r: "snd p = 0 \<longleftrightarrow> X mod D = 0"
    using mw ar lowz by (simp_all add: X_def D_def)
  define m where "m = fst p OR of_bool (snd p \<noteq> 0)"
  have m: "unat m = (X div D) OR of_bool (X mod D \<noteq> 0)"
    using q r by (simp add: m_def unsigned_or_eq unat_of_bool)
  define E' where "E' = 32 * n1 + (95 - s)"
  define k where "k = 32 * (3 - length a)"
  have Kp: "K = 2 ^ k" by (simp add: K_def k_def power_mult)
  have Pp: "P = 2 ^ (32 * n1)" by (simp add: P_def power_mult)
  have es: "E' + s = 32 * n1 + 95" "E' + 1 + s = 32 * n1 + 96" using s32 by (simp_all add: E'_def)
  have e1: "2 ^ E' * 2 ^ s = P * 2 ^ 95" and e2: "2 ^ (E' + 1) * 2 ^ s = P * 2 ^ 96"
    unfolding Pp by (simp_all only: es power_add [symmetric])
  have "2 ^ E' * 2 ^ s \<le> (A * K) * 2 ^ s" and "(A * K) * 2 ^ s < 2 ^ (E' + 1) * 2 ^ s"
    unfolding e1 e2 F by (rule ar)+
  then have FE: "2 ^ E' \<le> A * K" "A * K < 2 ^ (E' + 1)" by simp_all
  have A1: "1 \<le> A" using bval_zero_iff [OF assms(1)] assms(2) by (simp add: A_def Suc_le_eq)
  have "(2 :: nat) ^ k < 2 ^ (E' + 1)" using A1 FE(2) unfolding Kp
    by (metis le_less_trans mult_le_mono1 mult_1)
  then have "k < E' + 1" by (rule power_less_imp_less_exp [rotated]) simp
  then have kE: "k \<le> E'" by simp
  define e where "e = E' - k"
  have Ek: "(2 :: nat) ^ E' = 2 ^ e * K" using kE by (simp add: e_def Kp flip: power_add)
  have K0: "0 < K" by (simp add: K_def)
  have Alo: "2 ^ e \<le> A" using FE(1) K0 by (simp add: Ek)
  have Ahi: "A < 2 ^ (e + 1)" using FE(2) K0 by (simp add: Ek)
  have scale: "X * 2 ^ 63 = (A * 2 ^ 63) * (K * 2 ^ s)" "D * 2 ^ 63 = 2 ^ e * (K * 2 ^ s)"
  proof -
    show "X * 2 ^ 63 = (A * 2 ^ 63) * (K * 2 ^ s)" by (simp add: X_def flip: F)
    have "2 ^ e * (K * 2 ^ s) = P * 2 ^ 95" using e1 by (simp add: Ek mult.assoc)
    then show "D * 2 ^ 63 = 2 ^ e * (K * 2 ^ s)" by (simp add: D_def)
  qed
  have "X div D = (X * 2 ^ 63) div (D * 2 ^ 63)" by (rule div_mult_mult2 [symmetric]) simp
  also have "\<dots> = A * 2 ^ 63 div 2 ^ e" unfolding scale using K0 by (intro div_mult_mult2) simp
  finally have dv: "X div D = A * 2 ^ 63 div 2 ^ e" .
  have "X mod D * 2 ^ 63 = (A * 2 ^ 63 mod 2 ^ e) * (K * 2 ^ s)"
    by (simp only: mult_mod_left scale)
  then have md: "X mod D = 0 \<longleftrightarrow> A * 2 ^ 63 mod 2 ^ e = 0" using K0 by (metis mult_is_0 power_not_zero neq0_conv zero_neq_numeral)
  have ex: "int (length a) * 32 - int s - 1 = int e"
  proof -
    have "int e = int E' - int k" using kE by (simp add: e_def)
    moreover have "int E' = 32 * int n1 + 95 - int s" using s32 by (simp add: E'_def)
    moreover have "int n1 - int (3 - length a) = int (length a) - 3" by (simp add: n1_def)
    ultimately show ?thesis by (simp add: k_def)
  qed
  have "js_bigint_get_mant_exp a = (m, int e)"
  proof -
    have "t ! 0 = t0" "t ! 1 = t1" "t ! 2 = t2" by (simp_all add: t)
    then show ?thesis
      unfolding js_bigint_get_mant_exp_def Let_def n1_def [symmetric] lo prod.case hi_def [symmetric]
        t_def [symmetric] low_bits_def [symmetric] a1_def [symmetric]
      by (simp only: a1_def [symmetric] s_def [symmetric] p_def [symmetric] ex m_def prod.case_eq_if)
  qed
  then show ?thesis using Alo Ahi m dv md by auto
qed

section \<open>The comparison on the numbers\<close>

lemma sticky_cmp:
  fixes q r d M :: nat
  assumes "even M" and "r < d"
  shows "(q OR of_bool (r \<noteq> 0)) < M \<longleftrightarrow> q * d + r < M * d"
    and "M < (q OR of_bool (r \<noteq> 0)) \<longleftrightarrow> M * d < q * d + r"
proof -
  have lt: "q * d + r < M * d \<longleftrightarrow> q < M"
  proof
    assume "q < M"
    then have "(q + 1) * d \<le> M * d" by (intro mult_right_mono) auto
    then show "q * d + r < M * d" using assms(2) by simp
  next
    assume a: "q * d + r < M * d"
    show "q < M"
    proof (rule ccontr)
      assume "\<not> q < M"
      then have "M * d \<le> q * d" by (intro mult_right_mono) auto
      with a show False by simp
    qed
  qed
  have o: "q OR of_bool (r \<noteq> 0) = (if r \<noteq> 0 \<and> even q then q + 1 else q)"
    by (cases "r = 0") (simp_all add: or_Suc_0_eq)
  have "q < M \<Longrightarrow> even q \<Longrightarrow> q + 1 < M" using assms(1) by (metis Suc_eq_plus1 Suc_leI even_Suc le_neq_implies_less)
  then show l: "(q OR of_bool (r \<noteq> 0)) < M \<longleftrightarrow> q * d + r < M * d"
    unfolding lt o by auto
  have "q * d + r = M * d \<longleftrightarrow> q = M \<and> r = 0"
  proof
    assume e: "q * d + r = M * d"
    then have "(q * d + r) div d = (M * d) div d" by simp
    then have "q = M" using assms(2) by simp
    with e show "q = M \<and> r = 0" by simp
  qed simp
  moreover have "(q OR of_bool (r \<noteq> 0)) = M \<longleftrightarrow> q = M \<and> r = 0"
    unfolding o using assms(1) by auto
  ultimately show "M < (q OR of_bool (r \<noteq> 0)) \<longleftrightarrow> M * d < q * d + r"
    using l by (metis linorder_neqE_nat not_less_iff_gr_or_eq)
qed

lemma unat_sign_bit: "int (unat (drop_bit 63 (x :: u64))) = of_bool (f64_sign x)"
proof -
  have "unat x div 2 ^ 63 < 2" using unat_lt_u64 [of x] by simp
  then have "unat x div 2 ^ 63 = of_bool (odd (unat x div 2 ^ 63))"
    by (metis mod_less mod_2_eq_odd)
  then show ?thesis by (simp only: unat_drop_bit f64_sign_def bit_unat_iff) (metis of_nat_of_bool)
qed

lemma f64_exp_lt: "f64_exp x < 2048"
  using unat_and_mask [of "drop_bit 52 x" 11] by (simp add: f64_exp_def)

lemma f64_mant_lt: "f64_mant x < 2 ^ 52"
  using unat_and_mask [of x 52] by (simp add: f64_mant_def)

lemma f64_scaled_normal:
  assumes "f64_exp x \<noteq> 0"
  shows "2 ^ (f64_exp x + 51) \<le> \<bar>f64_scaled x\<bar>" and "\<bar>f64_scaled x\<bar> < 2 ^ (f64_exp x + 52)"
proof -
  define k where "k = f64_exp x - 1"
  define S :: int where "S = 2 ^ k"
  have k: "f64_exp x = k + 1" using assms by (simp add: k_def)
  have m: "int (f64_mant x) < 2 ^ 52" using f64_mant_lt [of x] by (metis of_nat_less_iff of_nat_numeral of_nat_power)
  have s: "\<bar>f64_scaled x\<bar> = (2 ^ 52 + int (f64_mant x)) * S"
    using assms by (simp add: f64_scaled_def S_def k abs_mult)
  have S0: "0 < S" by (simp add: S_def)
  have e: "(2 :: int) ^ (f64_exp x + 51) = 2 ^ 52 * S" "(2 :: int) ^ (f64_exp x + 52) = (2 ^ 52 + 2 ^ 52) * S"
    by (simp_all add: k S_def power_add)
  show "2 ^ (f64_exp x + 51) \<le> \<bar>f64_scaled x\<bar>"
    unfolding e s using S0 by (intro mult_right_mono) auto
  show "\<bar>f64_scaled x\<bar> < 2 ^ (f64_exp x + 52)"
    unfolding e s using S0 m by (intro mult_strict_right_mono) auto
qed

lemma f64_scaled_zero_iff: "f64_scaled x = 0 \<longleftrightarrow> f64_exp x = 0 \<and> f64_mant x = 0"
proof (cases "f64_exp x = 0")
  case True
  then show ?thesis by (simp add: f64_scaled_def)
next
  case False
  have "(0 :: int) < 2 ^ (f64_exp x + 51)" by simp
  then have "0 < \<bar>f64_scaled x\<bar>" using f64_scaled_normal(1) [OF False] by linarith
  then show ?thesis using False by simp
qed

lemma f64_scaled_abs: "f64_scaled x = (if f64_sign x then - \<bar>f64_scaled x\<bar> else \<bar>f64_scaled x\<bar>)"
  by (simp add: f64_scaled_def abs_mult)

text \<open>Same sign and same power of two below both.\<close>

definition same_binade :: "int \<Rightarrow> u64 \<Rightarrow> bool" where
  "same_binade v b \<longleftrightarrow> 1023 \<le> f64_exp b \<and> 2 ^ (f64_exp b - 1023) \<le> \<bar>v\<bar> \<and> \<bar>v\<bar> < 2 ^ (f64_exp b - 1022)"

lemma mant_with_hidden_bit:
  "unat (push_bit 11 ((b AND mask 52) OR push_bit 52 (1 :: u64))) = (2 ^ 52 + f64_mant b) * 2 ^ 11"
proof -
  define y where "y = (b AND mask 52) OR push_bit 52 (1 :: u64)"
  have u: "unat y = 2 ^ 52 + f64_mant b"
    using unat_push_bit_or [of 52 "b AND mask 52" "1 :: u64"] f64_mant_lt [of b]
    by (simp add: f64_mant_def or.commute y_def)
  have "2 ^ 52 + f64_mant b < 2 ^ 53" using f64_mant_lt [of b] by simp
  moreover have "unat (push_bit 11 y) = (unat y mod 2 ^ 53) * 2 ^ 11"
    by (subst unat_push_bit) simp_all
  ultimately show ?thesis by (simp only: u y_def [symmetric] mod_less)
qed

lemma scaled_order:
  fixes A B :: nat
  assumes A: "2 ^ f \<le> A" "A < 2 ^ (f + 1)" and B: "2 ^ (g + 51) \<le> B" "B < 2 ^ (g + 52)"
  shows "f + 1023 < g \<Longrightarrow> A * 2 ^ 1074 < B" and "g < f + 1023 \<Longrightarrow> B < A * 2 ^ 1074"
proof -
  have a: "(2 :: nat) ^ (f + 1074) = 2 ^ f * 2 ^ 1074" "(2 :: nat) ^ (f + 1 + 1074) = 2 ^ (f + 1) * 2 ^ 1074"
    by (simp_all only: power_add)
  have lo: "2 ^ (f + 1074) \<le> A * 2 ^ 1074" unfolding a using A(1) by (intro mult_right_mono) auto
  have hi: "A * 2 ^ 1074 < 2 ^ (f + 1 + 1074)" unfolding a using A(2) by (intro mult_strict_right_mono) auto
  show "A * 2 ^ 1074 < B" if "f + 1023 < g"
  proof -
    have "(2 :: nat) ^ (f + 1 + 1074) \<le> 2 ^ (g + 51)" using that by (intro power_increasing) auto
    with hi B(1) show ?thesis by linarith
  qed
  show "B < A * 2 ^ 1074" if "g < f + 1023"
  proof -
    have "(2 :: nat) ^ (g + 52) \<le> 2 ^ (f + 1074)" using that by (intro power_increasing) auto
    with lo B(2) show ?thesis by linarith
  qed
qed

lemma sgn_diff: "sgn (int y - int b) = (if y < b then -1 else if b < y then 1 else 0)"
  by (auto simp: sgn_if)

text \<open>
  The last branch, both operands of the same sign and not zero: the code compares the absolute
  values, and turns the result round for negative numbers only when the exponents agree.
\<close>

lemma cmp_same_sign:
  assumes a: "bigint_wf a" "a \<noteq> [0]" and b: "f64_scaled b \<noteq> 0" "f64_exp b \<noteq> 2047"
    and sg: "bval a < 0 \<longleftrightarrow> f64_sign b"
  defines "d \<equiv> sgn (\<bar>bval a\<bar> * 2 ^ 1074 - \<bar>f64_scaled b\<bar>)"
  shows "js_bigint_float64_cmp a b =
    (if f64_sign b \<and> same_binade (bval a) b then - d else d)"
proof -
  define A where "A = nat \<bar>bval a\<bar>"
  define B where "B = nat \<bar>f64_scaled b\<bar>"
  define g where "g = f64_exp b"
  have a0: "a \<noteq> []" using a(1) by (simp add: bigint_wf_def)
  have AB: "\<bar>bval a\<bar> = int A" "\<bar>f64_scaled b\<bar> = int B" by (simp_all add: A_def B_def)
  obtain m f where mf: "js_bigint_get_mant_exp a = (m, int f)" and f: "2 ^ f \<le> A" "A < 2 ^ (f + 1)"
    and m: "unat m = (A * 2 ^ 63 div 2 ^ f) OR of_bool (A * 2 ^ 63 mod 2 ^ f \<noteq> 0)"
    using js_bigint_get_mant_exp_val [OF a, folded A_def] by auto
  have d: "d = (if A * 2 ^ 1074 < B then -1 else if B < A * 2 ^ 1074 then 1 else 0)"
  proof -
    have "\<bar>bval a\<bar> * 2 ^ 1074 - \<bar>f64_scaled b\<bar> = int (A * 2 ^ 1074) - int B" by (simp add: AB)
    then show ?thesis unfolding d_def by (simp only: sgn_diff)
  qed
  have sgb: "int (unat (js_bigint_sign a)) = of_bool (f64_sign b)" "int (unat (drop_bit 63 b)) = of_bool (f64_sign b)"
    using sign_bval [OF a0] sg by simp (rule unat_sign_bit)
  have z1: "\<not> (length a = 1 \<and> a ! 0 = 0)" using a(2) by (cases a) auto
  have ge: "int (unat (drop_bit 52 b AND mask 11)) = int g" by (simp add: g_def f64_exp_def)
  have z2: "\<not> (int g = 0 \<and> b AND mask 52 = 0)"
    using b(1) by (auto simp: f64_scaled_zero_iff g_def f64_mant_def unat_eq_0)
  have gg: "int g \<noteq> 2047" using b(2) by (simp add: g_def)
  define M where "M = (2 ^ 52 + f64_mant b) * 2 ^ 11"
  have cmp: "js_bigint_float64_cmp a b =
      (if int f \<noteq> int g - 1023 then (if int f < int g - 1023 then -1 else 1)
       else if unat m < M then 2 * of_bool (f64_sign b) - 1
       else if M < unat m then 1 - 2 * of_bool (f64_sign b) else 0)"
    unfolding js_bigint_float64_cmp_def Let_def sgb ge mf prod.case
      if_not_P [OF gg] if_not_P [OF z2] if_not_P [OF z1]
    by (simp only: word_less_nat_alt mant_with_hidden_bit M_def [symmetric] simp_thms if_False)
  have sb: "same_binade (bval a) b \<longleftrightarrow> int f = int g - 1023"
  proof
    assume "int f = int g - 1023"
    then have "g = f + 1023" by simp
    moreover have "int (2 ^ f) \<le> int A" "int A < int (2 ^ (f + 1))"
      by (simp_all only: of_nat_le_iff of_nat_less_iff f)
    ultimately show "same_binade (bval a) b" by (simp add: same_binade_def AB flip: g_def)
  next
    assume s: "same_binade (bval a) b"
    define k where "k = g - 1023"
    have "1023 \<le> g" using s by (simp add: same_binade_def g_def)
    then have k: "g = k + 1023" "g - 1022 = k + 1" by (simp_all add: k_def)
    have "int (2 ^ k) \<le> int A" "int A < int (2 ^ (k + 1))"
      using s by (simp_all add: same_binade_def AB k flip: g_def)
    then have "2 ^ k \<le> A" "A < 2 ^ (k + 1)" by (simp_all only: of_nat_le_iff of_nat_less_iff)
    with f have "(2 :: nat) ^ k < 2 ^ (f + 1)" "(2 :: nat) ^ f < 2 ^ (k + 1)" by linarith+
    then have "k < f + 1" "f < k + 1" by (meson one_less_numeral_iff power_less_imp_less_exp semiring_norm(76))+
    then show "int f = int g - 1023" using k by simp
  qed
  show ?thesis
  proof (cases "int f = int g - 1023")
    case False
    have "d = (if int f < int g - 1023 then -1 else 1)"
    proof (cases "g = 0")
      case True
      have "B < 2 ^ 52" using True f64_mant_lt [of b] by (simp add: B_def f64_scaled_def g_def abs_mult)
      also have "(2 :: nat) ^ 52 \<le> 2 ^ f * 2 ^ 1074" by simp
      also have "\<dots> \<le> A * 2 ^ 1074" using f(1) by (intro mult_right_mono) auto
      finally have "B < A * 2 ^ 1074" .
      moreover have "\<not> int f < int g - 1023" using True by simp
      ultimately show ?thesis unfolding d by simp
    next
      case gn: False
      have "2 ^ (g + 51) \<le> int B" "int B < 2 ^ (g + 52)"
        using f64_scaled_normal [OF gn [unfolded g_def]] by (simp_all only: AB g_def)
      then have "int (2 ^ (g + 51)) \<le> int B" "int B < int (2 ^ (g + 52))" by (simp_all only: of_nat_power of_nat_numeral)
      then have Bg: "2 ^ (g + 51) \<le> B" "B < 2 ^ (g + 52)" by (simp_all only: of_nat_le_iff of_nat_less_iff)
      consider "f + 1023 < g" | "g < f + 1023" using False by linarith
      then show ?thesis
      proof cases
        case 1
        then show ?thesis using scaled_order(1) [OF f Bg] by (simp add: d)
      next
        case 2
        then show ?thesis using scaled_order(2) [OF f Bg] by (simp add: d)
      qed
    qed
    then show ?thesis unfolding cmp sb using False by simp
  next
    case True
    then have g: "g = f + 1023" by simp
    have "int B = (2 ^ 52 + int (f64_mant b)) * 2 ^ (g - 1)"
      using g by (simp add: AB(2) [symmetric] f64_scaled_def abs_mult flip: g_def)
    then have "int B = int ((2 ^ 52 + f64_mant b) * 2 ^ (g - 1))" by simp
    then have "B = (2 ^ 52 + f64_mant b) * 2 ^ (g - 1)" by (simp only: of_nat_eq_iff)
    moreover have "g - 1 = 11 + f + 1011" using g by simp
    ultimately have B: "B = M * 2 ^ f * 2 ^ 1011" by (simp only: M_def power_add mult.assoc)
    have A: "A * 2 ^ 1074 = (A * 2 ^ 63) * 2 ^ 1011" by (simp only: power_add [symmetric] mult.assoc) simp
    have dm: "A * 2 ^ 63 = (A * 2 ^ 63 div 2 ^ f) * 2 ^ f + A * 2 ^ 63 mod 2 ^ f"
      by (simp only: div_mult_mod_eq)
    have "even M" by (simp add: M_def)
    moreover have "A * 2 ^ 63 mod 2 ^ f < 2 ^ f" by simp
    ultimately have "unat m < M \<longleftrightarrow> A * 2 ^ 63 < M * 2 ^ f" "M < unat m \<longleftrightarrow> M * 2 ^ f < A * 2 ^ 63"
      unfolding m using sticky_cmp [of M "A * 2 ^ 63 mod 2 ^ f" "2 ^ f" "A * 2 ^ 63 div 2 ^ f"] dm by simp_all
    moreover have "A * 2 ^ 1074 < B \<longleftrightarrow> A * 2 ^ 63 < M * 2 ^ f" "B < A * 2 ^ 1074 \<longleftrightarrow> M * 2 ^ f < A * 2 ^ 63"
      unfolding A B by (simp_all only: mult_less_cancel2) simp_all
    ultimately show ?thesis unfolding cmp sb d using True by (cases "f64_sign b") auto
  qed
qed

definition f64_is_nan :: "u64 \<Rightarrow> bool" where
  "f64_is_nan x \<longleftrightarrow> f64_exp x = 2047 \<and> f64_mant x \<noteq> 0"

lemma js_bigint_float64_cmp_val:
  assumes "bigint_wf a"
  shows "js_bigint_float64_cmp a b =
    (if f64_is_nan b then 2
     else if f64_exp b = 2047 then (if f64_sign b then 1 else -1)
     else if bval a < 0 \<and> f64_sign b \<and> f64_scaled b \<noteq> 0 \<and> \<not> same_binade (bval a) b
     then - sgn (bval a * 2 ^ 1074 - f64_scaled b)
     else sgn (bval a * 2 ^ 1074 - f64_scaled b))"
proof -
  have a0: "a \<noteq> []" using assms by (simp add: bigint_wf_def)
  have z: "length a = 1 \<and> a ! 0 = 0 \<longleftrightarrow> bval a = 0"
    using bval_zero_iff [OF assms] by (cases a) auto
  have ge: "int (unat (drop_bit 52 b AND mask 11)) = int (f64_exp b)" by (simp add: f64_exp_def)
  have gm: "b AND mask 52 = 0 \<longleftrightarrow> f64_mant b = 0" by (simp add: f64_mant_def unat_eq_0)
  have sb: "int (unat (drop_bit 63 b)) = of_bool (f64_sign b)" by (rule unat_sign_bit)
  have sa: "int (unat (js_bigint_sign a)) = of_bool (bval a < 0)" by (simp add: sign_bval [OF a0])
  note defs = js_bigint_float64_cmp_def Let_def sa sb ge gm z
  consider "f64_exp b = 2047" | "f64_exp b \<noteq> 2047" "f64_scaled b = 0"
    | "f64_exp b \<noteq> 2047" "f64_scaled b \<noteq> 0" "bval a = 0"
    | "f64_exp b \<noteq> 2047" "f64_scaled b \<noteq> 0" "bval a \<noteq> 0" "bval a < 0 \<longleftrightarrow> \<not> f64_sign b"
    | "f64_exp b \<noteq> 2047" "f64_scaled b \<noteq> 0" "bval a \<noteq> 0" "bval a < 0 \<longleftrightarrow> f64_sign b"
    by blast
  then show ?thesis
  proof cases
    case 1
    then show ?thesis unfolding defs by (simp add: f64_is_nan_def)
  next
    case 2
    then have "f64_exp b = 0 \<and> f64_mant b = 0" by (simp add: f64_scaled_zero_iff)
    then show ?thesis using 2 unfolding defs by (simp add: f64_is_nan_def sgn_if mult_less_0_iff)
  next
    case 3
    then have "\<not> (f64_exp b = 0 \<and> f64_mant b = 0)" by (simp add: f64_scaled_zero_iff)
    moreover have "sgn (- f64_scaled b) = (if f64_sign b then 1 else -1)"
      using 3(2) by (subst f64_scaled_abs) (simp add: sgn_if)
    ultimately show ?thesis using 3 unfolding defs by (simp add: f64_is_nan_def)
  next
    case 4
    then have n: "\<not> (f64_exp b = 0 \<and> f64_mant b = 0)" by (simp add: f64_scaled_zero_iff)
    have "sgn (bval a * 2 ^ 1074 - f64_scaled b) = (if bval a < 0 then -1 else 1)"
    proof (cases "bval a < 0")
      case True
      then have "bval a * 2 ^ 1074 < 0" by (simp add: mult_less_0_iff)
      moreover have "0 \<le> f64_scaled b" using 4(4) True by (subst f64_scaled_abs) simp
      ultimately show ?thesis using True by (simp add: sgn_if)
    next
      case False
      then have "0 < bval a * 2 ^ 1074" using 4(3) by (simp add: zero_less_mult_iff)
      moreover have "f64_scaled b \<le> 0" using 4(4) False by (subst f64_scaled_abs) simp
      ultimately show ?thesis using False by (simp add: sgn_if)
    qed
    then show ?thesis using 4 n unfolding defs by (simp add: f64_is_nan_def)
  next
    case 5
    have "a \<noteq> [0]" using 5(3) bval_zero_iff [OF assms] by simp
    note c = cmp_same_sign [OF assms this 5(2,1,4)]
    have "sgn (bval a * 2 ^ 1074 - f64_scaled b)
      = (if f64_sign b then - sgn (\<bar>bval a\<bar> * 2 ^ 1074 - \<bar>f64_scaled b\<bar>)
         else sgn (\<bar>bval a\<bar> * 2 ^ 1074 - \<bar>f64_scaled b\<bar>))"
    proof (cases "f64_sign b")
      case True
      have "bval a * 2 ^ 1074 - f64_scaled b = - (\<bar>bval a\<bar> * 2 ^ 1074 - \<bar>f64_scaled b\<bar>)"
        using True 5(4) f64_scaled_abs [of b] by simp
      then show ?thesis using True by (simp only: sgn_minus if_True)
    next
      case False
      have "bval a * 2 ^ 1074 - f64_scaled b = \<bar>bval a\<bar> * 2 ^ 1074 - \<bar>f64_scaled b\<bar>"
        using False 5(4) f64_scaled_abs [of b] by simp
      then show ?thesis using False by (simp only: if_False)
    qed
    then show ?thesis unfolding c using 5(1,2,4) by (auto simp: f64_is_nan_def)
  qed
qed

section \<open>Rounding to nearest\<close>

text \<open>\<open>n / d\<close> rounded to the nearest integer, ties to even.\<close>

definition rne :: "nat \<Rightarrow> nat \<Rightarrow> nat" where
  "rne n d = n div d + of_bool (d < 2 * (n mod d) \<or> 2 * (n mod d) = d \<and> odd (n div d))"

lemma rne_scale: "0 < k \<Longrightarrow> rne (n * k) (d * k) = rne n d"
proof -
  assume k: "0 < k"
  have "2 * (n mod d * k) = (2 * (n mod d)) * k" by simp
  then show ?thesis using k by (simp add: rne_def mult_mod_left [symmetric])
qed

lemma rne_exact: "d dvd n \<Longrightarrow> rne n d = n div d"
  by (cases "d = 0") (auto simp: rne_def)

lemma rne_sticky:
  assumes "2 \<le> n" and "0 < c"
  shows "rne ((X div c) OR of_bool (X mod c \<noteq> 0)) (2 ^ n) = rne X (c * 2 ^ n)"
proof -
  define h where "h = (2 :: nat) ^ (n - 1)"
  obtain k where k: "n = Suc (Suc k)" using assms(1) by (metis add_2_eq_Suc le_Suc_ex)
  have H: "2 ^ n = 2 * h" and ev: "even h" by (simp_all add: h_def k)
  have h0: "0 < h" by (simp add: h_def)
  define Y r where "Y = X div c" and "r = X mod c"
  have X: "X = Y * c + r" and rc: "r < c" using assms(2) by (simp_all add: Y_def r_def)
  define q y where "q = Y div (2 * h)" and "y = Y mod (2 * h)"
  have Y: "Y = q * (2 * h) + y" unfolding q_def y_def by (simp only: div_mult_mod_eq)
  have yh: "y < 2 * h" using h0 by (simp add: y_def)
  define y' where "y' = (if r \<noteq> 0 \<and> even y then y + 1 else y)"
  have "even Y \<longleftrightarrow> even y" by (simp add: Y)
  then have o: "Y OR of_bool (r \<noteq> 0) = q * (2 * h) + y'"
    by (cases "r = 0") (simp_all add: or_Suc_0_eq y'_def Y)
  have y'h: "y' < 2 * h"
  proof -
    have "y \<noteq> 2 * h - 1 \<or> odd y" using h0 by auto
    then show ?thesis using yh by (auto simp: y'_def)
  qed
  have L: "rne (q * (2 * h) + y') (2 * h) = q + of_bool (h < y' \<or> y' = h \<and> odd q)"
    using y'h h0 by (simp add: rne_def)
  have Xd: "X = q * (c * (2 * h)) + (y * c + r)" by (simp add: X Y algebra_simps)
  have "y * c + r < (y + 1) * c" using rc by simp
  also have "\<dots> \<le> 2 * h * c" using yh by (intro mult_right_mono) auto
  finally have rl: "y * c + r < c * (2 * h)" by (simp add: mult.commute)
  have R: "rne X (c * (2 * h)) = q + of_bool (c * h < y * c + r \<or> y * c + r = c * h \<and> odd q)"
    using rl assms(2) h0 by (simp add: rne_def Xd)
  have g: "c * h < y * c + r \<longleftrightarrow> h < y'" and e: "y * c + r = c * h \<longleftrightarrow> y' = h"
  proof -
    consider "y < h" | "y = h" | "h < y" by linarith
    then have "(c * h < y * c + r \<longleftrightarrow> h < y') \<and> (y * c + r = c * h \<longleftrightarrow> y' = h)"
    proof cases
      case 1
      have "(y + 1) * c \<le> h * c" using 1 by (intro mult_right_mono) auto
      then have "y * c + r < c * h" using rc by (simp add: mult.commute)
      moreover have "y' < h" using 1 ev by (auto simp: y'_def) (metis even_Suc Suc_lessI)
      ultimately show ?thesis by simp
    next
      case 2
      then show ?thesis using ev by (simp add: y'_def mult.commute)
    next
      case 3
      have "(h + 1) * c \<le> y * c" using 3 by (intro mult_right_mono) auto
      then have "c * h < y * c + r" using assms(2) by (simp add: mult.commute)
      moreover have "h < y'" using 3 by (simp add: y'_def)
      ultimately show ?thesis by simp
    qed
    then show "c * h < y * c + r \<longleftrightarrow> h < y'" and "y * c + r = c * h \<longleftrightarrow> y' = h" by simp_all
  qed
  show ?thesis unfolding H Y_def [symmetric] r_def [symmetric] o L R g e ..
qed

lemma shr_rndn_val:
  assumes "unat a < 2 ^ 63"
  shows "unat (shr_rndn a 10) = rne (unat a) (2 ^ 10)"
proof -
  define A where "A = unat a"
  define q r where "q = A div 1024" and "r = A mod 1024"
  have A: "A = q * 1024 + r" "r < 1024" by (simp_all add: q_def r_def)
  have a1: "unat (drop_bit 10 a AND 1) = q mod 2"
    using unat_and_mask [of "drop_bit 10 a" 1] by (simp add: unat_drop_bit q_def A_def)
  have ad: "unat ((drop_bit 10 a AND 1) + (push_bit (10 - 1) 1 - 1)) = q mod 2 + 511"
    by (subst unat_plus_nowrap) (simp_all add: a1)
  have "A + (q mod 2 + 511) < 2 ^ 64" using assms by (simp add: A_def)
  then have "unat (a + ((drop_bit 10 a AND 1) + (push_bit (10 - 1) 1 - 1))) = A + (q mod 2 + 511)"
    by (subst unat_plus_nowrap) (simp_all only: ad A_def len_num1 len_bit0, simp_all)
  then have "unat (shr_rndn a 10) = (A + (q mod 2 + 511)) div 1024"
    by (simp add: shr_rndn_def Let_def unat_drop_bit)
  also have "\<dots> = q + (r + q mod 2 + 511) div 1024" by (simp add: A(1) algebra_simps)
  also have "(r + q mod 2 + 511) div 1024 = of_bool (512 < r \<or> r = 512 \<and> odd q)"
  proof (cases "512 < r \<or> r = 512 \<and> odd q")
    case True
    then have "1024 \<le> r + q mod 2 + 511" by (auto simp: odd_iff_mod_2_eq_one)
    moreover have "r + q mod 2 + 511 < 2048" using A(2) by simp
    ultimately show ?thesis using True by (simp add: div_nat_eqI)
  next
    case False
    then have "r + q mod 2 + 511 < 1024" by (auto simp: not_less le_less even_iff_mod_2_eq_zero)
    then show ?thesis using False by simp
  qed
  finally show ?thesis by (auto simp: rne_def q_def r_def A_def)
qed

section \<open>Conversion to a double\<close>

text \<open>The number of bits, and the nearest number with 53 of them.\<close>

fun bits :: "nat \<Rightarrow> nat" where
  "bits n = (if n = 0 then 0 else Suc (bits (n div 2)))"

declare bits.simps [simp del]

definition f64_round :: "nat \<Rightarrow> nat" where
  "f64_round A = rne A (2 ^ (bits A - 53)) * 2 ^ (bits A - 53)"

lemma bits_eq: "2 ^ e \<le> A \<Longrightarrow> A < 2 ^ Suc e \<Longrightarrow> bits A = Suc e"
proof (induction e arbitrary: A)
  case 0
  then have "A = 1" by simp
  then show ?case by (simp add: bits.simps)
next
  case (Suc e)
  have "2 ^ e \<le> A div 2" "A div 2 < 2 ^ Suc e" using Suc.prems by auto
  from Suc.IH [OF this] Suc.prems show ?case by (subst bits.simps) auto
qed

lemma f64_round_small: "2 ^ e \<le> A \<Longrightarrow> A < 2 ^ Suc e \<Longrightarrow> e \<le> 52 \<Longrightarrow> f64_round A = A"
  by (simp add: f64_round_def bits_eq rne_exact)

lemma f64_make_fields:
  assumes "unat mant < 2 ^ 52" and "unat e < 2048"
  shows "f64_sign (f64_make sg e mant) = sg" and "f64_exp (f64_make sg e mant) = unat e"
    and "f64_mant (f64_make sg e mant) = unat mant"
proof -
  have l: "unat (push_bit 52 e OR mant) = unat e * 2 ^ 52 + unat mant"
    using unat_push_bit_or [of 52 mant e] assms by simp
  then have "unat (push_bit 52 e OR mant) < 2 ^ 63" using assms by simp
  then have "unat (push_bit 63 (of_bool sg) OR (push_bit 52 e OR mant))
      = (unat (of_bool sg :: u64) mod 2) * 2 ^ 63 + unat (push_bit 52 e OR mant)"
    using unat_push_bit_or [of 63 "push_bit 52 e OR mant" "of_bool sg :: u64"] by simp
  also have "unat (of_bool sg :: u64) mod 2 = of_bool sg" by (cases sg) simp_all
  finally have u: "unat (f64_make sg e mant) = of_bool sg * 2 ^ 63 + (unat e * 2 ^ 52 + unat mant)"
    by (simp only: f64_make_def or.assoc l)
  define s :: nat where "s = of_bool sg"
  have "unat (f64_make sg e mant) div 2 ^ 63 = s"
    unfolding u s_def [symmetric] using assms by (intro div_nat_eqI) simp_all
  then show "f64_sign (f64_make sg e mant) = sg"
    by (simp only: f64_sign_def bit_unat_iff s_def) simp
  have "(s * 2 ^ 63 + (unat e * 2 ^ 52 + unat mant)) div 2 ^ 52 = s * 2048 + unat e"
    using assms by (intro div_nat_eqI) simp_all
  then have "unat (f64_make sg e mant) div 2 ^ 52 = s * 2048 + unat e"
    by (simp only: u s_def)
  then show "f64_exp (f64_make sg e mant) = unat e"
    unfolding f64_exp_def unat_and_mask unat_drop_bit using assms(2) by simp
  have "s * 2 ^ 63 + (unat e * 2 ^ 52 + unat mant) = (s * 2048 + unat e) * 2 ^ 52 + unat mant" by simp
  then have "(s * 2 ^ 63 + (unat e * 2 ^ 52 + unat mant)) mod 2 ^ 52 = unat mant"
    using assms(1) by (simp only: mod_mult_self3 mod_less)
  then show "f64_mant (f64_make sg e mant) = unat mant"
    by (simp only: f64_mant_def unat_and_mask u s_def)
qed

lemma f64_scaled_make:
  assumes "2 ^ 52 \<le> M" "M < 2 ^ 53" and "unat mant = M - 2 ^ 52" and "unat e = g + 1" and "g < 2046"
  shows "f64_scaled (f64_make sg e mant) = (if sg then -1 else 1) * (int M * 2 ^ g)"
    and "f64_exp (f64_make sg e mant) = g + 1"
proof -
  have "unat mant < 2 ^ 52" "unat e < 2048" using assms by simp_all
  note f = f64_make_fields [OF this, of sg]
  show "f64_exp (f64_make sg e mant) = g + 1" using f assms(4) by simp
  have "2 ^ 52 + int (unat mant) = int M" using assms(1,3) by simp
  then show "f64_scaled (f64_make sg e mant) = (if sg then -1 else 1) * (int M * 2 ^ g)"
    unfolding f64_scaled_def f assms(4) by (simp del: of_nat_unat)
qed

lemma unat_of_nat_u64: "k < 2 ^ 64 \<Longrightarrow> unat (of_nat k :: u64) = k"
  by (simp add: unsigned_of_nat take_bit_nat_eq_self_iff)

lemma f64_of_int32_val:
  "f64_scaled (f64_of_int32 v) = sint v * 2 ^ 1074 \<and> f64_exp (f64_of_int32 v) < 2047"
proof (cases "v = 0")
  case True
  then show ?thesis by (simp add: f64_of_int32_def f64_scaled_def f64_exp_def f64_mant_def)
next
  case False
  define w where "w = (if sint v < 0 then - v else v)"
  define W where "W = unat w"
  have Wv: "int W = \<bar>sint v\<bar>" unfolding W_def w_def by (rule abs_limb_val)
  have w0: "w \<noteq> 0" using False by (auto simp: w_def)
  define n where "n = 31 - clz32 w"
  have n: "2 ^ n \<le> W" "W < 2 ^ (n + 1)" "n \<le> 31"
  proof -
    have "32 - clz32 w = n + 1" using clz32_bounds(1) [OF w0] by (simp add: n_def)
    then show "2 ^ n \<le> W" "W < 2 ^ (n + 1)" "n \<le> 31"
      using clz32_bounds(2,3) [OF w0] by (simp_all only: W_def n_def)
  qed
  define M where "M = W * 2 ^ (52 - n)"
  have p: "(2 :: nat) ^ n * 2 ^ (52 - n) = 2 ^ 52" "(2 :: nat) ^ (n + 1) * 2 ^ (52 - n) = 2 ^ 53"
    using n(3) by (simp_all flip: power_add)
  have M: "2 ^ 52 \<le> M" "M < 2 ^ 53"
    unfolding p [symmetric] M_def using n by (auto intro!: mult_right_mono mult_strict_right_mono)
  have uw: "unat (ucast w :: u64) = W" by (simp add: W_def)
  have "unat (push_bit (52 - n) (ucast w :: u64)) = M"
  proof -
    have "W < 2 ^ (64 - (52 - n))"
    proof -
      have "(2 :: nat) ^ (n + 1) \<le> 2 ^ (64 - (52 - n))" using n(3) by (intro power_increasing) auto
      then show ?thesis using n(2) by linarith
    qed
    then show ?thesis by (subst unat_push_bit) (simp_all add: M_def flip: W_def)
  qed
  then have m: "unat (push_bit (52 - n) (ucast w :: u64) AND mask 52) = M - 2 ^ 52"
    using M by (simp only: unat_and_mask) (simp add: mod_if)
  have e: "unat (of_nat (n + 1023) :: u64) = (n + 1022) + 1"
    using n(3) by (subst unat_of_nat_u64) simp_all
  have g: "n + 1022 < 2046" using n(3) by simp
  note r = f64_scaled_make [OF M m e g, of "sint v < 0"]
  have d: "f64_of_int32 v = f64_make (sint v < 0) (of_nat (n + 1023)) (push_bit (52 - n) (ucast w) AND mask 52)"
    unfolding f64_of_int32_def Let_def w_def [symmetric] n_def [symmetric] using False by simp
  have "52 - n + (n + 1022) = 1074" using n(3) by simp
  then have "M * 2 ^ (n + 1022) = W * 2 ^ 1074" unfolding M_def mult.assoc by (simp only: power_add [symmetric])
  then have "int (M * 2 ^ (n + 1022)) = int (W * 2 ^ 1074)" by (simp only:)
  then have "int M * 2 ^ (n + 1022) = \<bar>sint v\<bar> * 2 ^ 1074"
    by (simp only: of_nat_mult of_nat_power of_nat_numeral Wv)
  then have "f64_scaled (f64_of_int32 v) = (if sint v < 0 then -1 else 1) * (\<bar>sint v\<bar> * 2 ^ 1074)"
    unfolding d r(1) by (simp only:)
  moreover have "f64_exp (f64_of_int32 v) < 2047" unfolding d r(2) using g by linarith
  ultimately show ?thesis by (simp add: abs_if split: if_splits)
qed

lemma mant_rounding:
  assumes "2 ^ e \<le> A" and "A < 2 ^ (e + 1)"
    and m: "unat m = (A * 2 ^ 63 div 2 ^ e) OR of_bool (A * 2 ^ 63 mod 2 ^ e \<noteq> 0)"
  defines "R \<equiv> unat (shr_rndn (drop_bit 1 m OR (m AND 1)) 10)"
  shows "R * 2 ^ e = f64_round A * 2 ^ 52" and "2 ^ 52 \<le> R" and "R \<le> 2 ^ 53"
proof -
  define X where "X = A * 2 ^ 63"
  define Q r where "Q = X div 2 ^ e" and "r = X mod 2 ^ e"
  have odd1: "x OR of_bool b = (if b \<and> even x then x + 1 else x)" for x :: nat and b
    by (cases b) (simp_all add: or_Suc_0_eq)
  have um: "unat m = (if r \<noteq> 0 \<and> even Q then Q + 1 else Q)"
    unfolding m X_def [symmetric] Q_def [symmetric] r_def [symmetric] by (rule odd1)
  have "unat (drop_bit 1 m OR (m AND 1)) = unat m div 2 OR unat m mod 2"
    using unat_and_mask [of m 1] by (simp add: unsigned_or_eq unat_drop_bit)
  also have "\<dots> = (unat m div 2) OR of_bool (odd (unat m))" by (simp add: mod_2_eq_odd)
  also have "unat m div 2 = Q div 2" using um by auto
  also have "odd (unat m) \<longleftrightarrow> odd Q \<or> r \<noteq> 0" using um by auto
  also have "odd Q \<or> r \<noteq> 0 \<longleftrightarrow> X mod 2 ^ Suc e \<noteq> 0"
  proof -
    have "X mod (2 ^ e * 2) = 2 ^ e * (Q mod 2) + r" by (simp only: mod_mult2_eq Q_def r_def)
    then have "X mod 2 ^ Suc e = 2 ^ e * (Q mod 2) + r" by (simp add: mult.commute)
    then show ?thesis by (auto simp: odd_iff_mod_2_eq_one even_iff_mod_2_eq_zero)
  qed
  also have "Q div 2 = X div 2 ^ Suc e" by (simp add: Q_def div_mult2_eq [symmetric] mult.commute)
  finally have m1: "unat (drop_bit 1 m OR (m AND 1)) = (X div 2 ^ Suc e) OR of_bool (X mod 2 ^ Suc e \<noteq> 0)" .
  have Xb: "2 ^ 63 * 2 ^ e \<le> X" "X < 2 ^ 64 * 2 ^ e"
    using assms(1,2) by (simp_all add: X_def)
  then have q1: "X div 2 ^ Suc e < 2 ^ 63" by (intro less_mult_imp_div_less) simp
  then have m1b: "unat (drop_bit 1 m OR (m AND 1)) < 2 ^ 63"
  proof -
    have "even (X div 2 ^ Suc e) \<Longrightarrow> X div 2 ^ Suc e + 1 < 2 ^ 63"
      using q1 by (metis Suc_eq_plus1 Suc_lessI even_Suc even_numeral even_power zero_less_numeral)
    then show ?thesis unfolding m1 odd1 using q1 by auto
  qed
  have "R = rne ((X div 2 ^ Suc e) OR of_bool (X mod 2 ^ Suc e \<noteq> 0)) (2 ^ 10)"
    unfolding R_def by (subst shr_rndn_val [OF m1b]) (simp only: m1)
  also have "\<dots> = rne X (2 ^ Suc e * 2 ^ 10)" by (rule rne_sticky) simp_all
  also have "(2 :: nat) ^ Suc e * 2 ^ 10 = 2 ^ 11 * 2 ^ e" by simp
  finally have R: "R = rne X (2 ^ 11 * 2 ^ e)" .
  define D where "D = (2 :: nat) ^ 11 * 2 ^ e"
  have D0: "0 < D" by (simp add: D_def)
  have "2 ^ 52 * D \<le> X" "X < 2 ^ 53 * D" using Xb by (simp_all add: D_def)
  then have "2 ^ 52 \<le> X div D" "X div D < 2 ^ 53"
    by (simp_all only: less_eq_div_iff_mult_less_eq [OF D0] less_mult_imp_div_less)
  then show "2 ^ 52 \<le> R" and "R \<le> 2 ^ 53" unfolding R D_def [symmetric] rne_def by (auto simp: of_bool_def)
  have bA: "bits A = Suc e" using assms(1,2) by (intro bits_eq) simp_all
  show "R * 2 ^ e = f64_round A * 2 ^ 52"
  proof (cases "52 \<le> e")
    case True
    then obtain k where k: "e = 52 + k" by (auto simp: le_iff_add)
    have "R = rne (A * 2 ^ 63) (2 ^ k * 2 ^ 63)" by (simp add: R X_def k power_add mult.commute)
    then have "R = rne A (2 ^ k)" by (simp only: rne_scale zero_less_power zero_less_numeral)
    then show ?thesis by (simp add: f64_round_def bA k power_add)
  next
    case False
    then have e52: "e \<le> 52" by simp
    have s: "(2 :: nat) ^ 63 = 2 ^ (52 - e) * (2 ^ 11 * 2 ^ e)" using e52 by (simp flip: power_add)
    have "X = A * 2 ^ (52 - e) * (2 ^ 11 * 2 ^ e)" unfolding X_def s by (simp only: mult.assoc)
    then have "R = A * 2 ^ (52 - e)" unfolding R by (simp add: rne_exact)
    moreover have "f64_round A = A" using assms(1,2) e52 by (intro f64_round_small) simp_all
    ultimately show ?thesis using e52 by (simp add: mult.assoc flip: power_add)
  qed
qed

lemma js_bigint_to_float64_val:
  assumes "bigint_wf a"
  defines "R \<equiv> f64_round (nat \<bar>bval a\<bar>)" and "x \<equiv> js_bigint_to_float64 a"
  shows "if R < 2 ^ 1024 then f64_exp x < 2047 \<and> f64_scaled x = sgn (bval a) * int R * 2 ^ 1074
    else f64_exp x = 2047 \<and> f64_mant x = 0 \<and> (f64_sign x \<longleftrightarrow> bval a < 0)"
proof (cases "length a = 1")
  case True
  then obtain v where a: "a = [v]" by (cases a) auto
  have x: "x = f64_of_int32 v" by (simp add: x_def a js_bigint_to_float64_def)
  have bv: "bval a = sint v" by (simp add: a bval_single)
  define A where "A = nat \<bar>bval a\<bar>"
  have "2 * \<bar>bval a\<bar> \<le> 4294967296 ^ length a" using abs_bval [of a] a by simp
  then have A: "A \<le> 2147483648" by (simp add: A_def a)
  have "R = A"
  proof (cases "A = 0")
    case True
    then show ?thesis by (simp add: R_def A_def [symmetric] f64_round_def rne_exact bits.simps)
  next
    case False
    then obtain e where e: "2 ^ e \<le> A" "A < 2 ^ Suc e" using ex_power_ivl1 [of 2 A] by auto
    have "(2 :: nat) ^ e < 2 ^ 52" using e(1) A by simp
    then have "e < 52" by (rule power_less_imp_less_exp [rotated]) simp
    then show ?thesis unfolding R_def A_def [symmetric] using e by (intro f64_round_small) auto
  qed
  moreover have "sgn (bval a) * int A = bval a" by (simp add: A_def sgn_mult_abs)
  moreover have "R < 2 ^ 1024"
  proof -
    have "(2147483648 :: nat) < 2 ^ 1024" by simp
    then show ?thesis using A \<open>R = A\<close> by linarith
  qed
  ultimately show ?thesis using f64_of_int32_val [of v] by (simp only: if_True x bv simp_thms)
next
  case False
  then have a0: "a \<noteq> [0]" and an: "a \<noteq> []" using assms(1) by (auto simp: bigint_wf_def)
  define A where "A = nat \<bar>bval a\<bar>"
  obtain m e where me: "js_bigint_get_mant_exp a = (m, int e)" and e: "2 ^ e \<le> A" "A < 2 ^ (e + 1)"
    and m: "unat m = (A * 2 ^ 63 div 2 ^ e) OR of_bool (A * 2 ^ 63 mod 2 ^ e \<noteq> 0)"
    using js_bigint_get_mant_exp_val [OF assms(1) a0, folded A_def] by auto
  define y where "y = shr_rndn (drop_bit 1 m OR (m AND 1)) 10"
  define N where "N = unat y"
  have N: "N * 2 ^ e = R * 2 ^ 52" "2 ^ 52 \<le> N" "N \<le> 2 ^ 53"
    using mant_rounding [OF e m] by (simp_all only: N_def y_def R_def A_def)
  have sg: "js_bigint_sign a \<noteq> 0 \<longleftrightarrow> bval a < 0" by (simp add: sign_bval [OF an])
  have bn: "bval a \<noteq> 0" using bval_zero_iff [OF assms(1)] a0 by simp
  have Rlt: "R < 2 ^ 1024 \<longleftrightarrow> N * 2 ^ e < 2 ^ 53 * 2 ^ 1023"
    unfolding N(1) by simp
  have xd: "x = (let (mant, e') = (if int e > 1023 then (0, 1024)
                else (let (mant, e') = (if y \<ge> push_bit 53 1 then (drop_bit 1 y, int e + 1) else (y, int e))
                      in (mant AND mask 52, e')))
         in f64_make (bval a < 0) (word_of_int (e' + 1023)) mant)"
    unfolding x_def js_bigint_to_float64_def me sg Let_def y_def prod.case using False by simp
  have y53: "y \<ge> push_bit 53 1 \<longleftrightarrow> N = 2 ^ 53"
    using N(3) by (simp add: word_le_nat_alt N_def)
  have inf: "x = f64_make (bval a < 0) 2047 0 \<Longrightarrow> f64_exp x = 2047 \<and> f64_mant x = 0 \<and> (f64_sign x \<longleftrightarrow> bval a < 0)"
    using f64_make_fields [of 0 2047 "bval a < 0"] by simp
  have scaled: "sgn (bval a) * int R * 2 ^ 1074 = (if bval a < 0 then -1 else 1) * (int (N * 2 ^ e) * 2 ^ 1022)"
    unfolding N(1) using bn by (simp add: sgn_if)
  consider "1023 < e" | "e \<le> 1023" "N = 2 ^ 53" | "e \<le> 1023" "N < 2 ^ 53" using N(3) by linarith
  then show ?thesis
  proof cases
    case 1
    have "2 ^ 52 * 2 ^ 1024 \<le> N * (2 :: nat) ^ e" using N(2) 1 by (intro mult_mono power_increasing) auto
    then have "\<not> R < 2 ^ 1024" unfolding Rlt by simp
    then show ?thesis using inf 1 by (simp add: xd)
  next
    case 2
    have x2: "x = f64_make (bval a < 0) (word_of_int (int e + 1 + 1023)) (drop_bit 1 y AND mask 52)"
      using 2 by (simp add: xd y53 [simplified])
    have m0: "unat (drop_bit 1 y AND mask 52) = 0"
      using 2(2) by (simp only: unat_and_mask unat_drop_bit N_def [symmetric]) simp
    show ?thesis
    proof (cases "e = 1023")
      case True
      have "drop_bit 1 y AND mask 52 = 0" using m0 by (simp only: unat_eq_0)
      then have "x = f64_make (bval a < 0) 2047 0" by (simp add: x2 True)
      moreover have "\<not> R < 2 ^ 1024" unfolding Rlt by (simp add: True 2)
      ultimately show ?thesis using inf by simp
    next
      case False
      have ee: "unat (word_of_int (int e + 1 + 1023) :: u64) = (e + 1023) + 1"
      proof -
        have "word_of_int (int e + 1 + 1023) = (of_nat (e + 1024) :: u64)" by simp
        moreover have "unat (of_nat (e + 1024) :: u64) = e + 1024" using 2(1) by (intro unat_of_nat_u64) simp
        ultimately show ?thesis by (simp add: add.commute)
      qed
      have "unat (drop_bit 1 y AND mask 52) = 2 ^ 52 - 2 ^ 52" using m0 by simp
      note fs = f64_scaled_make [OF order_refl _ this ee, of "bval a < 0"]
      have g: "e + 1023 < 2046" using False 2(1) by simp
      have "R < 2 ^ 1024"
      proof -
        have "(2 :: nat) ^ 53 * 2 ^ e < 2 ^ 53 * 2 ^ 1023"
          using False 2(1) by (intro mult_strict_left_mono power_strict_increasing) simp_all
        then show ?thesis unfolding Rlt 2(2) .
      qed
      moreover have "int (2 ^ 52) * 2 ^ (e + 1023) = int (N * 2 ^ e) * 2 ^ 1022"
        by (simp add: 2 power_add)
      ultimately show ?thesis using fs g scaled by (simp only: x2 if_True) simp
    qed
  next
    case 3
    have x3: "x = f64_make (bval a < 0) (word_of_int (int e + 1023)) (y AND mask 52)"
      using 3 by (simp add: xd y53 [simplified])
    have m1: "unat (y AND mask 52) = N - 2 ^ 52"
      using N(2) 3(2) by (simp only: unat_and_mask N_def [symmetric]) (simp add: mod_if)
    have ee: "unat (word_of_int (int e + 1023) :: u64) = (e + 1022) + 1"
    proof -
      have "word_of_int (int e + 1023) = (of_nat (e + 1023) :: u64)" by simp
      moreover have "unat (of_nat (e + 1023) :: u64) = e + 1023" using 3(1) by (intro unat_of_nat_u64) simp
      ultimately show ?thesis by simp
    qed
    note fs = f64_scaled_make [OF N(2) 3(2) m1 ee, of "bval a < 0"]
    have g: "e + 1022 < 2046" using 3(1) by simp
    have "N * 2 ^ e < 2 ^ 53 * 2 ^ 1023"
    proof -
      have "N * 2 ^ e < 2 ^ 53 * (2 :: nat) ^ e" using 3(2) by (intro mult_strict_right_mono) auto
      also have "\<dots> \<le> 2 ^ 53 * 2 ^ 1023" using 3(1) by (intro mult_left_mono power_increasing) auto
      finally show ?thesis .
    qed
    then have "R < 2 ^ 1024" unfolding Rlt .
    moreover have "int N * 2 ^ (e + 1022) = int (N * 2 ^ e) * 2 ^ 1022" by (simp add: power_add)
    ultimately show ?thesis using fs g scaled by (simp only: x3 if_True) simp
  qed
qed

section \<open>Conversion from a double\<close>

lemma sint_word_of_int:
  assumes "- (2 ^ (LENGTH('a) - 1)) \<le> k" and "k < 2 ^ (LENGTH('a) - 1)"
  shows "sint (word_of_int k :: 'a::len word) = k"
  using assms by (simp add: signed_of_int signed_take_bit_int_eq_self)

lemma ucast_sint_u64: "(ucast (v :: u64) :: limb) = word_of_int (sint v)"
  by transfer (simp add: take_bit_signed_take_bit)

lemma bval_set_si64:
  "bval (js_bigint_set_si64 v) = sint v \<and> bigint_wf (js_bigint_set_si64 v)
    \<and> length (js_bigint_set_si64 v) \<le> 2"
proof (cases "sint v \<ge> - 2147483648 \<and> sint v \<le> 2147483647")
  case True
  have "sint (word_of_int (sint v) :: limb) = sint v"
    using True by (intro sint_word_of_int) simp_all
  then have "sint (ucast v :: limb) = sint v" by (simp only: ucast_sint_u64)
  then show ?thesis using True by (simp add: js_bigint_set_si64_def bval_single wf_single)
next
  case False
  define lo hi where "lo = (ucast v :: limb)" and "hi = (ucast (signed_drop_bit 32 v) :: limb)"
  have r: "- (2 ^ 63) \<le> sint v" "sint v < 2 ^ 63" using sint_greater_eq [of v] sint_less [of v] by simp_all
  have "sint (signed_drop_bit 32 v) = sint v div 4294967296"
    by (simp add: sint_signed_drop_bit_eq drop_bit_eq_div)
  then have "hi = word_of_int (sint v div 4294967296)"
    by (simp only: hi_def ucast_sint_u64)
  moreover have "- 2147483648 \<le> sint v div 4294967296" "sint v div 4294967296 < 2147483648"
    using zdiv_mono1 [OF r(1), of 4294967296] zdiv_mono1 [of "sint v" "2 ^ 63 - 1" 4294967296] r(2)
    by simp_all
  ultimately have h: "sint hi = sint v div 4294967296" by (simp only:) (rule sint_word_of_int; simp)
  have l: "int (unat lo) = sint v mod 4294967296"
  proof -
    have "uint (word_of_int (sint v) :: limb) = sint v mod 2 ^ 32" by (simp only: uint_word_of_int) simp
    moreover have "int (unat lo) = uint lo" by simp
    ultimately show ?thesis by (simp only: lo_def ucast_sint_u64) simp
  qed
  have b: "bval [lo, hi] = sint v"
    using bval_snoc [of "[lo]" hi] h l by simp
  have "\<not> redundant_limb hi lo"
  proof
    assume "redundant_limb hi lo"
    then have "bval [lo, hi] = bval [lo]" using bval_extend_redundant [of hi "[lo]"] by simp
    then have "sint v = sint lo" using b by (simp add: bval_single)
    moreover have "- 2147483648 \<le> sint lo" "sint lo \<le> 2147483647" using sint_greater_eq [of lo] sint_less [of lo] by simp_all
    ultimately show False using False by simp
  qed
  moreover have "js_bigint_set_si64 v = [lo, hi]"
    unfolding js_bigint_set_si64_def if_not_P [OF False] lo_def hi_def ..
  ultimately show ?thesis using b by (simp add: bigint_wf_def)
qed

text \<open>The last step of the conversion: the integer \<open>mant * 2^e\<close> with a sign.\<close>

lemma runs_from_mant:
  fixes neg :: bool
  assumes "unat mant < 2 ^ 53" and "0 \<le> e" and "e < 1000"
  defines "v \<equiv> (if neg then - int (unat mant) else int (unat mant))"
  shows "runs (\<lambda>x. \<exists>r. x = Integer r \<and> bval r = v * 2 ^ nat e \<and> bigint_wf r) 1 (\<lambda>_. False) 0
    (bind_m (js_bigint_shl (js_bigint_set_si64 (if neg then - mant else mant)) (word_of_int e))
      (\<lambda>r. return_m (Integer r)))"
proof -
  define w where "w = (if neg then - mant else mant)"
  define U where "U = int (unat mant)"
  have "int (unat mant) < int (2 ^ 53)" using assms(1) by (simp only: of_nat_less_iff)
  then have U: "0 \<le> U" "U < 9007199254740992" unfolding U_def by (simp_all del: of_nat_unat)
  have m: "mant = word_of_int U" by (simp add: U_def)
  have v: "v = (if neg then - U else U)" by (simp only: v_def U_def)
  have "w = word_of_int v" by (simp add: w_def v m)
  moreover have "sint (word_of_int v :: u64) = v"
    by (rule sint_word_of_int) (use U in \<open>auto simp: v\<close>)
  ultimately have sw: "sint w = v" by (simp only:)
  note si = bval_set_si64 [of w, unfolded sw]
  have ue: "unat (word_of_int e :: u32) = nat e"
    using assms(2,3) by (simp add: unsigned_of_int take_bit_int_eq_self)
  have "nat e div 32 \<le> 1000 div 32" using assms(3) by (intro div_le_mono) simp
  then have len: "length (js_bigint_set_si64 w) + nat e div 32 \<le> 40" using si by simp
  have "runs (\<lambda>r. bval r = v * 2 ^ nat e \<and> bigint_wf r) 1 (\<lambda>_. False) 0
      (js_bigint_shl (js_bigint_set_si64 w) (word_of_int e))"
    by (rule runs_weaken [OF runs_shl])
       (use si len in \<open>auto simp: ue size_error_def JS_BIGINT_MAX_SIZE_def\<close>)
  then show ?thesis unfolding w_def [symmetric]
    by (rule runs_bind) (auto intro: runs_return)
qed

lemma f64_scaled_not_integer:
  assumes "f64_exp x < 1023" and "f64_scaled x \<noteq> 0"
  shows "\<not> 2 ^ 1074 dvd f64_scaled x"
proof
  assume d: "2 ^ 1074 dvd f64_scaled x"
  then have "(2 :: int) ^ 1074 \<le> \<bar>f64_scaled x\<bar>" using assms(2) by (intro zdvd_imp_le) auto
  moreover have "\<bar>f64_scaled x\<bar> < 2 ^ 1074"
  proof (cases "f64_exp x = 0")
    case True
    have "int (f64_mant x) < int (2 ^ 52)" using f64_mant_lt [of x] by (simp only: of_nat_less_iff)
    also have "int (2 ^ 52) \<le> 2 ^ 1074" by simp
    finally show ?thesis using True by (simp add: f64_scaled_def abs_mult)
  next
    case False
    have "\<bar>f64_scaled x\<bar> < 2 ^ (f64_exp x + 52)" by (rule f64_scaled_normal(2) [OF False])
    also have "(2 :: int) ^ (f64_exp x + 52) \<le> 2 ^ 1074" using assms(1) by (intro power_increasing) auto
    finally show ?thesis .
  qed
  ultimately show False by linarith
qed

lemma js_bigint_from_float64_val:
  fixes x :: u64
  defines "from \<equiv> js_bigint_from_float64 x"
  shows "f64_exp x = 2047 \<Longrightarrow> from = return_m NaN_or_Infinity"
    and "f64_exp x \<noteq> 2047 \<Longrightarrow> \<not> 2 ^ 1074 dvd f64_scaled x \<Longrightarrow> from = return_m NotInteger"
    and "f64_exp x \<noteq> 2047 \<Longrightarrow> 2 ^ 1074 dvd f64_scaled x \<Longrightarrow>
      runs (\<lambda>y. \<exists>r. y = Integer r \<and> bval r * 2 ^ 1074 = f64_scaled x \<and> bigint_wf r) 1 (\<lambda>_. False) 0 from"
proof -
  define E m where "E = f64_exp x" and "m = f64_mant x"
  have Ew: "drop_bit 52 x AND mask 11 = of_nat E" "unat (drop_bit 52 x AND mask 11) = E"
    by (simp_all add: E_def f64_exp_def)
  have E2: "E < 2048" unfolding E_def by (rule f64_exp_lt)
  have m52: "m < 2 ^ 52" unfolding m_def by (rule f64_mant_lt)
  have e2047: "drop_bit 52 x AND mask 11 = 2047 \<longleftrightarrow> E = 2047" and e0: "drop_bit 52 x AND mask 11 = 0 \<longleftrightarrow> E = 0"
    using Ew(2) by (auto simp: word_unat_eq_iff)
  have m0: "x AND mask 52 = 0 \<longleftrightarrow> m = 0" by (simp add: m_def f64_mant_def unat_eq_0)
  have sg: "drop_bit 63 x \<noteq> 0 \<longleftrightarrow> f64_sign x"
  proof -
    have "drop_bit 63 x \<noteq> 0 \<longleftrightarrow> int (unat (drop_bit 63 x)) \<noteq> 0"
      by (simp only: of_nat_eq_0_iff unat_eq_0)
    then show ?thesis by (simp only: unat_sign_bit) simp
  qed
  define M where "M = (x AND mask 52) OR push_bit 52 1"
  have uM: "unat M = 2 ^ 52 + m"
    using unat_push_bit_or [of 52 "x AND mask 52" "1 :: u64"] m52
    by (simp add: m_def f64_mant_def or.commute M_def)
  have M53: "unat M < 2 ^ 53" using uM m52 by simp
  have F: "from = (if E = 2047 then return_m NaN_or_Infinity
         else if E = 0 \<and> m = 0 then bind_m (js_bigint_new_si 0) (\<lambda>r. return_m (Integer r))
         else
           (let e = int E - 1023
            in if e < 0 then return_m NotInteger
               else if e < 52 \<and> M AND mask (nat (52 - e)) \<noteq> 0 then return_m NotInteger
               else
                 (let (mant, e) = (if e < 52 then (drop_bit (nat (52 - e)) M, 0) else (M, e - 52))
                  in bind_m (js_bigint_shl (js_bigint_set_si64 (if f64_sign x then - mant else mant)) (word_of_int e))
                       (\<lambda>r. return_m (Integer r)))))"
    unfolding from_def js_bigint_from_float64_def Let_def e2047 e0 m0 Ew(2) sg M_def [symmetric]
    by (rule refl)
  define S :: int where "S = (if f64_sign x then -1 else 1)"
  show "f64_exp x = 2047 \<Longrightarrow> from = return_m NaN_or_Infinity"
    by (simp add: F flip: E_def)
  have large: "from = bind_m (js_bigint_shl (js_bigint_set_si64 (if f64_sign x then - M else M))
        (word_of_int (int E - 1023 - 52))) (\<lambda>r. return_m (Integer r))
      \<and> f64_scaled x = S * int (unat M) * 2 ^ nat (int E - 1023 - 52) * 2 ^ 1074"
    if "1075 \<le> E" "E \<noteq> 2047"
  proof
    show "from = bind_m (js_bigint_shl (js_bigint_set_si64 (if f64_sign x then - M else M))
        (word_of_int (int E - 1023 - 52))) (\<lambda>r. return_m (Integer r))"
      using that by (simp add: F Let_def)
    have "nat (int E - 1023 - 52) + 1074 = E - 1" using that by simp
    then have "(2 :: int) ^ (E - 1) = 2 ^ nat (int E - 1023 - 52) * 2 ^ 1074" by (simp only: power_add [symmetric])
    then show "f64_scaled x = S * int (unat M) * 2 ^ nat (int E - 1023 - 52) * 2 ^ 1074"
      using that by (simp add: f64_scaled_def uM S_def flip: E_def m_def del: of_nat_unat)
  qed
  define k where "k = 1075 - E"
  have small: "from = (if unat M mod 2 ^ k \<noteq> 0 then return_m NotInteger
      else bind_m (js_bigint_shl (js_bigint_set_si64 (if f64_sign x then - drop_bit k M else drop_bit k M))
        (word_of_int 0)) (\<lambda>r. return_m (Integer r)))
      \<and> f64_scaled x * 2 ^ k = S * int (unat M) * 2 ^ 1074"
    if "1023 \<le> E" "E < 1075"
  proof
    have k: "nat (52 - (int E - 1023)) = k" using that by (simp add: k_def)
    have t: "M AND mask k \<noteq> 0 \<longleftrightarrow> unat M mod 2 ^ k \<noteq> 0" by (metis unat_and_mask unat_eq_0)
    show "from = (if unat M mod 2 ^ k \<noteq> 0 then return_m NotInteger
      else bind_m (js_bigint_shl (js_bigint_set_si64 (if f64_sign x then - drop_bit k M else drop_bit k M))
        (word_of_int 0)) (\<lambda>r. return_m (Integer r)))"
      using that unfolding F Let_def k t by simp
    have "E - 1 + k = 1074" using that by (simp add: k_def)
    then have "(2 :: int) ^ (E - 1) * 2 ^ k = 2 ^ 1074" by (simp only: power_add [symmetric])
    then show "f64_scaled x * 2 ^ k = S * int (unat M) * 2 ^ 1074"
      using that by (simp add: f64_scaled_def uM S_def mult.assoc flip: E_def m_def del: of_nat_unat)
  qed
  have kd: "2 ^ 1074 dvd f64_scaled x \<longleftrightarrow> unat M mod 2 ^ k = 0" if "1023 \<le> E" "E < 1075"
  proof -
    have "2 ^ 1074 dvd f64_scaled x \<longleftrightarrow> 2 ^ 1074 * 2 ^ k dvd f64_scaled x * 2 ^ k" by simp
    also have "\<dots> \<longleftrightarrow> 2 ^ k * 2 ^ 1074 dvd S * int (unat M) * 2 ^ 1074"
      using small [OF that] by (simp add: mult.commute)
    also have "\<dots> \<longleftrightarrow> 2 ^ k dvd S * int (unat M)" by simp
    also have "\<dots> \<longleftrightarrow> int (2 ^ k) dvd int (unat M)" by (simp add: S_def del: of_nat_unat)
    also have "\<dots> \<longleftrightarrow> unat M mod 2 ^ k = 0" by (simp only: int_dvd_int_iff) (simp only: dvd_eq_mod_eq_0)
    finally show ?thesis .
  qed
  show "from = return_m NotInteger" if "f64_exp x \<noteq> 2047" "\<not> 2 ^ 1074 dvd f64_scaled x"
  proof -
    have E: "E \<noteq> 2047" using that(1) by (simp add: E_def)
    have z: "\<not> (E = 0 \<and> m = 0)" using that(2) f64_scaled_zero_iff [of x] by (auto simp: E_def m_def)
    consider "E < 1023" | "1023 \<le> E" "E < 1075" | "1075 \<le> E" by linarith
    then show ?thesis
    proof cases
      case 1
      then show ?thesis using z E unfolding F by (simp only: if_False Let_def) simp
    next
      case 2
      then show ?thesis using small [OF 2] kd [OF 2] that(2) by simp
    next
      case 3
      then have "2 ^ 1074 dvd f64_scaled x" using large [OF 3 E] by simp
      with that(2) show ?thesis by contradiction
    qed
  qed
  show "runs (\<lambda>y. \<exists>r. y = Integer r \<and> bval r * 2 ^ 1074 = f64_scaled x \<and> bigint_wf r) 1 (\<lambda>_. False) 0 from"
    if "f64_exp x \<noteq> 2047" "2 ^ 1074 dvd f64_scaled x"
  proof -
    have E: "E \<noteq> 2047" using that(1) by (simp add: E_def)
    consider "E < 1023" | "1023 \<le> E" "E < 1075" | "1075 \<le> E" by linarith
    then show ?thesis
    proof cases
      case 1
      then have z: "f64_scaled x = 0" using f64_scaled_not_integer [of x] that(2) by (auto simp: E_def)
      then have "E = 0 \<and> m = 0" by (simp add: f64_scaled_zero_iff E_def m_def)
      then have "from = bind_m (js_bigint_new_si 0) (\<lambda>r. return_m (Integer r))" by (simp add: F)
      then show ?thesis
        by (simp only:) (rule runs_bind [OF runs_new_si_ok]; auto simp: z bval_single wf_single intro!: runs_return)
    next
      case 2
      define q where "q = unat M div 2 ^ k"
      have uq: "unat (drop_bit k M) = q" by (simp add: unat_drop_bit q_def)
      have "q \<le> unat M" by (simp add: q_def)
      then have q53: "unat (drop_bit k M) < 2 ^ 53" using M53 by (simp add: uq)
      have f: "from = bind_m (js_bigint_shl (js_bigint_set_si64 (if f64_sign x then - drop_bit k M else drop_bit k M))
        (word_of_int 0)) (\<lambda>r. return_m (Integer r))"
        using small [OF 2] kd [OF 2] that(2) by simp
      have Mq: "unat M = q * 2 ^ k" using kd [OF 2] that(2) by (simp add: q_def dvd_eq_mod_eq_0)
      have "f64_scaled x * 2 ^ k = S * int q * 2 ^ 1074 * 2 ^ k"
        using small [OF 2] by (simp add: Mq mult.assoc mult.commute mult.left_commute del: of_nat_unat)
      then have sx: "f64_scaled x = S * int q * 2 ^ 1074" by simp
      show ?thesis unfolding f
        by (rule runs_weaken [OF runs_from_mant [OF q53]])
           (auto simp: sx uq S_def simp del: of_nat_unat split: if_splits)
    next
      case 3
      have g: "0 \<le> int E - 1023 - 52" "int E - 1023 - 52 < 1000" using 3 E2 by simp_all
      show ?thesis unfolding conjunct1 [OF large [OF 3 E]]
        by (rule runs_weaken [OF runs_from_mant [OF M53 g]])
           (use large [OF 3 E] in \<open>auto simp: S_def simp del: of_nat_unat split: if_splits\<close>)
    qed
  qed
qed

end
