(* ===== verification/BigInt_Spec.thy ===== *)
theory BigInt_Spec
  imports BigInt_Pow BigInt_Float
begin

text \<open>
  What the BigInt operations promise the interpreter: an interface of integer arithmetic as a
  locale, its consequences for a client, its interpretation on the functions of
  \<open>src/qjs/quickjs.c\<close>, and the properties of the component.
\<close>

section \<open>The interface\<close>

text \<open>
  A representation of the integers in which every number has one representation, with operations
  that allocate. \<open>E\<close> holds of the errors other than running out of memory.
\<close>

locale integer_ops =
  fixes wf :: "'r \<Rightarrow> bool" and val :: "'r \<Rightarrow> int" and E :: "js_error \<Rightarrow> bool"
    and add sub mul quot rem :: "'r \<Rightarrow> 'r \<Rightarrow> 'r alloc"
  assumes canonical: "wf a \<Longrightarrow> wf b \<Longrightarrow> val a = val b \<Longrightarrow> a = b"
    and add_contract: "wf a \<Longrightarrow> wf b \<Longrightarrow> runs (\<lambda>r. val r = val a + val b \<and> wf r) 1 E 0 (add a b)"
    and sub_contract: "wf a \<Longrightarrow> wf b \<Longrightarrow> runs (\<lambda>r. val r = val a - val b \<and> wf r) 1 E 0 (sub a b)"
    and mul_contract: "wf a \<Longrightarrow> wf b \<Longrightarrow> runs (\<lambda>r. val r = val a * val b \<and> wf r) 1 E 0 (mul a b)"
    and quot_contract: "wf a \<Longrightarrow> wf b \<Longrightarrow>
      runs (\<lambda>r. val b \<noteq> 0 \<and> val r = sgn (val a) * sgn (val b) * (\<bar>val a\<bar> div \<bar>val b\<bar>) \<and> wf r) 1 E 0 (quot a b)"
    and rem_contract: "wf a \<Longrightarrow> wf b \<Longrightarrow>
      runs (\<lambda>r. val b \<noteq> 0 \<and> val r = sgn (val a) * (\<bar>val a\<bar> mod \<bar>val b\<bar>) \<and> wf r) 1 E 0 (rem a b)"
begin

text \<open>What a successful call returns.\<close>

lemma result:
  assumes "runs P k E e m" and "m s = (Inr r, s')"
  shows "P r" and "mem_live s' = mem_live s + k"
  using runsD [OF assms] by simp_all

lemma add_result:
  assumes "wf a" and "wf b" and "add a b s = (Inr r, s')"
  shows "val r = val a + val b" and "wf r"
  using result(1) [OF add_contract [OF assms(1,2)] assms(3)] by simp_all

lemma mul_result:
  assumes "wf a" and "wf b" and "mul a b s = (Inr r, s')"
  shows "val r = val a * val b" and "wf r"
  using result(1) [OF mul_contract [OF assms(1,2)] assms(3)] by simp_all

lemma quot_result:
  assumes "wf a" and "wf b" and "quot a b s = (Inr r, s')"
  shows "val r = sgn (val a) * sgn (val b) * (\<bar>val a\<bar> div \<bar>val b\<bar>)" and "wf r"
  using result(1) [OF quot_contract [OF assms(1,2)] assms(3)] by simp_all

lemma rem_result:
  assumes "wf a" and "wf b" and "rem a b s = (Inr r, s')"
  shows "val r = sgn (val a) * (\<bar>val a\<bar> mod \<bar>val b\<bar>)" and "wf r" and "val b \<noteq> 0"
  using result(1) [OF rem_contract [OF assms(1,2)] assms(3)] by simp_all

text \<open>The laws of arithmetic hold of the representations the calls return, not only of the numbers.\<close>

lemma add_comm:
  assumes "wf a" and "wf b" and "add a b s = (Inr r, s')" and "add b a t = (Inr r', t')"
  shows "r = r'"
  using add_result [OF assms(1,2,3)] add_result [OF assms(2,1,4)] by (intro canonical) simp_all

lemma distrib:
  assumes "wf a" "wf b" "wf c"
    and "add b c s1 = (Inr bc, t1)" and "mul a bc s2 = (Inr l, t2)"
    and "mul a b s3 = (Inr ab, t3)" and "mul a c s4 = (Inr ac, t4)" and "add ab ac s5 = (Inr r, t5)"
  shows "l = r"
proof (rule canonical)
  note bc = add_result [OF assms(2,3,4)]
  note l = mul_result [OF assms(1) bc(2) assms(5)]
  note ab = mul_result [OF assms(1,2,6)] and ac = mul_result [OF assms(1,3,7)]
  note r = add_result [OF ab(2) ac(2) assms(8)]
  show "wf l" and "wf r" by (rule l, rule r)
  show "val l = val r" using bc l ab ac r by (simp add: algebra_simps)
qed

lemma quot_rem:
  assumes "wf a" "wf b"
    and "quot a b s1 = (Inr q, t1)" and "rem a b s2 = (Inr m, t2)"
    and "mul q b s3 = (Inr p, t3)" and "add p m s4 = (Inr r, t4)"
  shows "r = a" and "\<bar>val m\<bar> < \<bar>val b\<bar>" and "val m = 0 \<or> sgn (val m) = sgn (val a)"
proof -
  note q = quot_result [OF assms(1,2,3)] and m = rem_result [OF assms(1,2,4)]
  note p = mul_result [OF q(2) assms(2,5)]
  note r = add_result [OF p(2) m(2) assms(6)]
  have "val q * val b = sgn (val a) * ((\<bar>val a\<bar> div \<bar>val b\<bar>) * \<bar>val b\<bar>)"
    using q(1) by (simp add: abs_sgn mult.assoc mult.commute mult.left_commute)
  then have "val r = sgn (val a) * ((\<bar>val a\<bar> div \<bar>val b\<bar>) * \<bar>val b\<bar> + \<bar>val a\<bar> mod \<bar>val b\<bar>)"
    by (simp only: r(1) p(1) m(1) distrib_left)
  also have "\<dots> = val a" by (simp only: div_mult_mod_eq sgn_mult_abs)
  finally show "r = a" using r(2) assms(1) by (intro canonical)
  have "0 \<le> \<bar>val a\<bar> mod \<bar>val b\<bar>" "\<bar>val a\<bar> mod \<bar>val b\<bar> < \<bar>val b\<bar>" using m(3) by simp_all
  then show "\<bar>val m\<bar> < \<bar>val b\<bar>" using m(3) by (simp add: m(1) abs_mult sgn_if)
  show "val m = 0 \<or> sgn (val m) = sgn (val a)"
    using \<open>0 \<le> \<bar>val a\<bar> mod \<bar>val b\<bar>\<close> by (auto simp: m(1) sgn_mult)
qed

end

section \<open>The interface on the code\<close>

lemma bval_inj:
  assumes "bigint_wf a" and "bigint_wf b" and "bval a = bval b"
  shows "a = b"
proof -
  have "length a = length b"
  proof (rule ccontr)
    assume "length a \<noteq> length b"
    then consider "length a < length b" | "length b < length a" by linarith
    then show False
    proof cases
      case 1
      from bval_lt_shorter [OF assms(1,2) 1] assms(3) show False by linarith
    next
      case 2
      from bval_lt_shorter [OF assms(2,1) 2] assms(3) show False by linarith
    qed
  qed
  moreover have "js_bigint_sign a = js_bigint_sign b"
    using assms by (simp add: bigint_wf_def sign_bval)
  ultimately have "lval a = lval b" using assms(3) by (simp add: bval_def split: if_splits)
  with \<open>length a = length b\<close> show ?thesis by (rule lval_inj)
qed

definition range_error :: "js_error \<Rightarrow> bool" where
  "range_error err \<longleftrightarrow> err = too_large_to_allocate \<or> err = division_by_zero"

lemma size_error_range: "size_error n err \<Longrightarrow> range_error err"
  by (simp add: size_error_def range_error_def)

lemma divrem_error_range: "divrem_error a b err \<Longrightarrow> range_error err"
  by (auto simp: divrem_error_def range_error_def size_error_def split: if_splits)

lemmas bigint_wf_nonempty = conjunct1 [OF iffD1 [OF bigint_wf_def]]

interpretation bigint: integer_ops bigint_wf bval range_error
  "\<lambda>a b. js_bigint_add a b False" "\<lambda>a b. js_bigint_add a b True" js_bigint_mul
  "\<lambda>a b. js_bigint_divrem a b False" "\<lambda>a b. js_bigint_divrem a b True"
proof (unfold_locales, goal_cases)
  case (1 a b)
  then show ?case by (rule bval_inj)
next
  case (2 a b)
  then show ?case
    by (intro runs_weaken [OF runs_add]) (auto dest: bigint_wf_nonempty intro: size_error_range)
next
  case (3 a b)
  then show ?case
    by (intro runs_weaken [OF runs_add]) (auto dest: bigint_wf_nonempty intro: size_error_range)
next
  case (4 a b)
  then show ?case
    by (intro runs_weaken [OF runs_mul]) (auto dest: bigint_wf_nonempty intro: size_error_range)
next
  case (5 a b)
  show ?case
    by (rule runs_weaken [OF runs_divrem [OF 5]])
       (use bval_zero_iff [OF 5(2)] in \<open>auto intro: divrem_error_range\<close>)
next
  case (6 a b)
  show ?case
    by (rule runs_weaken [OF runs_divrem [OF 6]])
       (use bval_zero_iff [OF 6(2)] in \<open>auto intro: divrem_error_range\<close>)
qed

section \<open>Evaluation\<close>

text \<open>The equations that run the operations on concrete limbs.\<close>

lemmas alloc_eval = bind_m_def guard_m_def then_m_def return_m_def throw_m_def ignore_m_def
  js_malloc_def js_realloc_def js_free_def js_bigint_new_def JS_BIGINT_MAX_SIZE_def

lemmas bigint_eval = alloc_eval Let_def js_bigint_sign_def redundant_limb_def norm_len.simps
  js_bigint_normalize_def js_bigint_normalize1_def js_bigint_extend_def strip_zeros.simps
  js_bigint_new_si_def

lemma wf_two: "bigint_wf [x, y] \<longleftrightarrow> \<not> redundant_limb y x"
  by (simp add: bigint_wf_def)

lemma bval_two: "bval [x, y] = int (unat x) + 4294967296 * sint y"
  using bval_snoc [of "[x]" y] by simp

text \<open>A BigInt and a double that are equal lie between the same powers of two.\<close>

lemma equal_same_binade:
  assumes "v * 2 ^ 1074 = f64_scaled b" and "v \<noteq> 0"
  shows "same_binade v b"
proof -
  have av: "\<bar>f64_scaled b\<bar> = \<bar>v\<bar> * 2 ^ 1074" by (simp add: abs_mult flip: assms(1))
  have "1 * 2 ^ 1074 \<le> \<bar>v\<bar> * 2 ^ 1074" using assms(2) by (intro mult_right_mono) auto
  then have lo: "2 ^ 1074 \<le> \<bar>f64_scaled b\<bar>" by (simp only: av mult_1)
  have z: "f64_scaled b \<noteq> 0" using assms by auto
  have "2 ^ 1074 dvd f64_scaled b" by (simp flip: assms(1))
  then have g: "1023 \<le> f64_exp b" using f64_scaled_not_integer [of b] z by fastforce
  then have n: "f64_exp b \<noteq> 0" by simp
  define k where "k = f64_exp b - 1023"
  have e: "f64_exp b + 51 = k + 1074" "f64_exp b + 52 = (k + 1) + 1074" "f64_exp b - 1022 = k + 1"
    using g by (simp_all add: k_def)
  have "2 ^ k * 2 ^ 1074 \<le> \<bar>v\<bar> * 2 ^ 1074" "\<bar>v\<bar> * 2 ^ 1074 < 2 ^ (k + 1) * 2 ^ 1074"
    using f64_scaled_normal [OF n] unfolding av e power_add by simp_all
  then have "2 ^ k \<le> \<bar>v\<bar>" "\<bar>v\<bar> < 2 ^ (k + 1)"
    by (simp_all only: mult_le_cancel_right_pos mult_less_cancel_right_pos zero_less_power zero_less_numeral)
  then show ?thesis using g by (simp add: same_binade_def e flip: k_def)
qed

section \<open>The properties\<close>

text \<open>C1: \<open>js_bigint_divrem\<close> computes the quotient rounded towards zero and the remainder with the
  sign of the dividend, in normal form, holding exactly the block of the result; division by zero is
  the RangeError of the language, and the only other errors are the size limit and running out of
  memory, with nothing left allocated.\<close>
theorem js_bigint_divrem_correct:
  assumes "bigint_wf a" and "bigint_wf b" and "js_bigint_divrem a b is_rem s = (res, s')"
  shows "case res of
      Inr r \<Rightarrow> b \<noteq> [0] \<and> bigint_wf r \<and> mem_live s' = mem_live s + 1
        \<and> bval r = (if is_rem then sgn (bval a) * (\<bar>bval a\<bar> mod \<bar>bval b\<bar>)
                    else sgn (bval a) * sgn (bval b) * (\<bar>bval a\<bar> div \<bar>bval b\<bar>))
    | Inl err \<Rightarrow> mem_live s' = mem_live s
        \<and> (if b = [0] then err = division_by_zero
           else err = too_large_to_allocate \<and> JS_BIGINT_MAX_SIZE < length a + 2
             \<or> err = OutOfMemory \<and> mem_outcomes s \<noteq> [])"
proof (cases "b = [0]")
  case True
  then have "js_bigint_divrem a b is_rem s = (Inl division_by_zero, s)"
    by (simp add: js_bigint_divrem_def throw_m_def)
  then have "res = Inl division_by_zero" "s' = s" using assms(3) by auto
  then show ?thesis using True by simp
next
  case False
  from runsD [OF runs_divrem [OF assms(1,2)] assms(3)] False
  show ?thesis by (simp add: divrem_error_def size_error_def split: sum.splits)
qed

theorem js_bigint_divrem_correct_witness:
  "js_bigint_divrem [-7] [2] True \<lparr>mem_outcomes = [], mem_live = 0\<rparr>
     = (Inr [-1], \<lparr>mem_outcomes = [], mem_live = 1\<rparr>)
   \<and> bval [-1] = sgn (bval [-7]) * (\<bar>bval [-7]\<bar> mod \<bar>bval [2]\<bar>)"
proof -
  have clz: "clz32 (2 :: limb) = 30" by (rule clz32_eqI) simp_all
  have e: "js_bigint_divrem [-7] [2] True \<lparr>mem_outcomes = [], mem_live = 0\<rparr>
     = (Inr [-1], \<lparr>mem_outcomes = [], mem_live = 1\<rparr>)"
    by (simp add: js_bigint_divrem_def bigint_eval abs_limbs_def js_mp_neg_def js_limb_clz_def clz
        divrem_shift_def divrem_remainder_def js_mp_shl_def js_mp_shr_def js_mp_divnorm_def
        js_mp_div1norm_def mk_dlimb_def)
  show ?thesis
    using js_bigint_divrem_correct [OF wf_single wf_single e] e by simp
qed

text \<open>C2: addition and subtraction of BigInts (\<open>js_bigint_add\<close>, \<open>b_neg\<close> for the difference) are exact
  and normalized at every length of the operands, fail only by the size limit or for lack of memory,
  and leave nothing allocated when they fail.\<close>
theorem js_bigint_add_correct:
  assumes "bigint_wf a" and "bigint_wf b" and "js_bigint_add a b b_neg s = (res, s')"
  shows "case res of
      Inr r \<Rightarrow> bval r = (if b_neg then bval a - bval b else bval a + bval b) \<and> bigint_wf r
        \<and> mem_live s' = mem_live s + 1
    | Inl err \<Rightarrow> mem_live s' = mem_live s
        \<and> (err = too_large_to_allocate \<and> JS_BIGINT_MAX_SIZE < max (length a) (length b)
           \<or> err = OutOfMemory \<and> mem_outcomes s \<noteq> [])"
  using runsD [OF runs_add [OF bigint_wf_nonempty [OF assms(1)] bigint_wf_nonempty [OF assms(2)]] assms(3)]
  by (simp add: size_error_def split: sum.splits)

theorem js_bigint_add_correct_witness:
  "js_bigint_add [-1, 1] [1] False \<lparr>mem_outcomes = [], mem_live = 0\<rparr>
     = (Inr [0, 2], \<lparr>mem_outcomes = [], mem_live = 1\<rparr>)
   \<and> bval [0, 2] = bval [-1, 1] + bval [1]"
proof -
  have e: "js_bigint_add [-1, 1] [1] False \<lparr>mem_outcomes = [], mem_live = 0\<rparr>
     = (Inr [0, 2], \<lparr>mem_outcomes = [], mem_live = 1\<rparr>)"
    by (simp add: js_bigint_add_def bigint_eval ADDC_def word_less_nat_alt unat_max_u32)
  have "bigint_wf [-1, 1]" by (simp add: wf_two redundant_limb_def)
  from js_bigint_add_correct [OF this wf_single e] e show ?thesis by simp
qed

text \<open>C3: \<open>js_bigint_mul\<close> computes the product, in normal form, under the same conditions.\<close>
theorem js_bigint_mul_correct:
  assumes "bigint_wf a" and "bigint_wf b" and "js_bigint_mul a b s = (res, s')"
  shows "case res of
      Inr r \<Rightarrow> bval r = bval a * bval b \<and> bigint_wf r \<and> mem_live s' = mem_live s + 1
    | Inl err \<Rightarrow> mem_live s' = mem_live s
        \<and> (err = too_large_to_allocate \<and> JS_BIGINT_MAX_SIZE < length a + length b
           \<or> err = OutOfMemory \<and> mem_outcomes s \<noteq> [])"
  using runsD [OF runs_mul [OF bigint_wf_nonempty [OF assms(1)] bigint_wf_nonempty [OF assms(2)]] assms(3)]
  by (simp add: size_error_def split: sum.splits)

theorem js_bigint_mul_correct_witness:
  "js_bigint_mul [5] [-7] \<lparr>mem_outcomes = [], mem_live = 0\<rparr>
     = (Inr [-35], \<lparr>mem_outcomes = [], mem_live = 1\<rparr>) \<and> bval [-35] = bval [5] * bval [-7]"
proof -
  have e: "js_bigint_mul [5] [-7] \<lparr>mem_outcomes = [], mem_live = 0\<rparr>
     = (Inr [-35], \<lparr>mem_outcomes = [], mem_live = 1\<rparr>)"
    by (simp add: js_bigint_mul_def bigint_eval SUBC_def)
  from js_bigint_mul_correct [OF wf_single wf_single e] e show ?thesis by simp
qed

text \<open>Quotient, remainder, product and sum fit together: \<open>(a / b) * b + a % b\<close> is the very
  representation \<open>a\<close>, and the remainder is smaller than \<open>b\<close> and has the sign of \<open>a\<close>.\<close>
lemma js_bigint_quot_rem:
  assumes "bigint_wf a" and "bigint_wf b"
    and "js_bigint_divrem a b False s1 = (Inr q, t1)" and "js_bigint_divrem a b True s2 = (Inr m, t2)"
    and "js_bigint_mul q b s3 = (Inr p, t3)" and "js_bigint_add p m False s4 = (Inr r, t4)"
  shows "r = a \<and> \<bar>bval m\<bar> < \<bar>bval b\<bar> \<and> (bval m = 0 \<or> sgn (bval m) = sgn (bval a))"
  using bigint.quot_rem [OF assms] by blast

lemma js_bigint_quot_rem_witness:
  "js_bigint_divrem [1] [2] False \<lparr>mem_outcomes = [], mem_live = 0\<rparr>
     = (Inr [0], \<lparr>mem_outcomes = [], mem_live = 1\<rparr>)
   \<and> \<bar>bval [1]\<bar> < \<bar>bval [2]\<bar>"
proof -
  let ?m = "\<lambda>k. \<lparr>mem_outcomes = [], mem_live = k\<rparr>"
  have clz: "clz32 (2 :: limb) = 30" by (rule clz32_eqI) simp_all
  note div = js_bigint_divrem_def bigint_eval abs_limbs_def js_mp_neg_def js_limb_clz_def clz
        divrem_shift_def divrem_remainder_def divrem_quotient_def js_mp_shl_def js_mp_shr_def
        js_mp_divnorm_def js_mp_div1norm_def mk_dlimb_def
  have q: "js_bigint_divrem [1] [2] False (?m 0) = (Inr [0], ?m 1)" by (simp add: div)
  have m: "js_bigint_divrem [1] [2] True (?m 0) = (Inr [1], ?m 1)" by (simp add: div)
  have p: "js_bigint_mul [0] [2] (?m 0) = (Inr [0], ?m 1)"
    by (simp add: js_bigint_mul_def bigint_eval)
  have r: "js_bigint_add [0] [1] False (?m 0) = (Inr [1], ?m 1)"
    by (simp add: js_bigint_add_def bigint_eval ADDC_def)
  from js_bigint_quot_rem [OF wf_single wf_single q m p r] q show ?thesis by simp
qed

text \<open>C4: the bitwise operators act on the infinite two's complement expansion of the numbers:
  \<open>js_bigint_logic\<close> is AND, OR and XOR of the integers and \<open>js_bigint_not\<close> is \<open>- a - 1\<close>, for operands
  of any sign and length.\<close>
theorem js_bigint_bitwise_correct:
  assumes "bigint_wf a" and "bigint_wf b"
  shows "runs (\<lambda>r. bval r = (case op of OP_or \<Rightarrow> bval a OR bval b | OP_and \<Rightarrow> bval a AND bval b
            | OP_xor \<Rightarrow> bval a XOR bval b) \<and> bigint_wf r) 1
      (size_error (max (length a) (length b))) 0 (js_bigint_logic a b op)
    \<and> runs (\<lambda>r. bval r = NOT (bval a) \<and> bigint_wf r) 1 (size_error (length a)) 0 (js_bigint_not a)"
proof
  have "logic_int op (bval a) (bval b) = (case op of OP_or \<Rightarrow> bval a OR bval b
      | OP_and \<Rightarrow> bval a AND bval b | OP_xor \<Rightarrow> bval a XOR bval b)"
    by (cases op) simp_all
  then show "runs (\<lambda>r. bval r = (case op of OP_or \<Rightarrow> bval a OR bval b | OP_and \<Rightarrow> bval a AND bval b
            | OP_xor \<Rightarrow> bval a XOR bval b) \<and> bigint_wf r) 1
      (size_error (max (length a) (length b))) 0 (js_bigint_logic a b op)"
    using runs_weaken [OF runs_logic [OF bigint_wf_nonempty [OF assms(1)] bigint_wf_nonempty [OF assms(2)]]]
    by simp
  show "runs (\<lambda>r. bval r = NOT (bval a) \<and> bigint_wf r) 1 (size_error (length a)) 0 (js_bigint_not a)"
    by (rule runs_weaken [OF runs_not [OF assms(1)]]) (simp_all add: not_eq_complement)
qed

theorem js_bigint_bitwise_correct_witness:
  "fst (js_bigint_logic [-1] [5] OP_and \<lparr>mem_outcomes = [], mem_live = 0\<rparr>) = Inr [5]
   \<and> bval [5] = bval [-1] AND bval [5]"
proof -
  have e: "js_bigint_logic [-1] [5] OP_and \<lparr>mem_outcomes = [], mem_live = 0\<rparr>
      = (Inr [5], \<lparr>mem_outcomes = [], mem_live = 1\<rparr>)"
    by (simp add: js_bigint_logic_def bigint_eval)
  from runsD [OF conjunct1 [OF js_bigint_bitwise_correct [OF wf_single wf_single]] e] e
  show ?thesis by simp
qed

text \<open>C5: \<open>js_bigint_shl\<close> multiplies by the power of two and \<open>js_bigint_shr\<close> divides by it rounding
  down (the arithmetic shift), both in normal form; shifting out every limb gives 0 or -1.\<close>
theorem js_bigint_shifts_correct:
  assumes "bigint_wf a"
  shows "runs (\<lambda>r. bval r = bval a * 2 ^ unat n \<and> bigint_wf r) 1
      (size_error (length a + unat n div 32)) 0 (js_bigint_shl a n)
    \<and> runs (\<lambda>r. bval r = bval a div 2 ^ unat n \<and> bigint_wf r) 1 (size_error (length a)) 0 (js_bigint_shr a n)"
  by (rule conjI; rule runs_weaken [OF runs_shl [OF assms]] runs_weaken [OF runs_shr [OF assms]]; simp)

theorem js_bigint_shifts_correct_witness:
  "fst (js_bigint_shr [-5] 40 \<lparr>mem_outcomes = [], mem_live = 0\<rparr>) = Inr [-1]
   \<and> bval [-1] = bval [-5] div 2 ^ 40"
proof -
  have e: "js_bigint_shr [-5] 40 \<lparr>mem_outcomes = [], mem_live = 0\<rparr>
      = (Inr [-1], \<lparr>mem_outcomes = [], mem_live = 1\<rparr>)"
    by (simp add: js_bigint_shr_def bigint_eval)
  from runsD [OF conjunct2 [OF js_bigint_shifts_correct [OF wf_single]] e] e
  show ?thesis by simp
qed

text \<open>C6: \<open>js_bigint_pow\<close> returns the power for every exponent that is not negative; it throws the
  RangeError of the language for a negative one, and gives up for size only when the result may not
  fit: never when the exponent times the length of the base is at most \<open>JS_BIGINT_MAX_SIZE\<close> limbs.\<close>
theorem js_bigint_pow_correct:
  assumes "bigint_wf a" and "bigint_wf b" and "js_bigint_pow a b s = (res, s')"
  shows "case res of
      Inr r \<Rightarrow> 0 \<le> bval b \<and> bval r = bval a ^ nat (bval b) \<and> bigint_wf r \<and> mem_live s' = mem_live s + 1
    | Inl err \<Rightarrow> bval b < 0 \<and> err = negative_exponent
        \<or> (err = too_large \<or> err = too_large_to_allocate) \<and> int JS_BIGINT_MAX_SIZE < bval b * int (length a)
        \<or> err = OutOfMemory \<and> mem_outcomes s \<noteq> []"
  using yieldsD [OF yields_pow [OF assms(1,2)] assms(3)]
  by (auto simp: pow_error_def split: sum.splits)

theorem js_bigint_pow_correct_witness:
  "js_bigint_pow [-2] [3] \<lparr>mem_outcomes = [], mem_live = 0\<rparr>
     = (Inr [-8], \<lparr>mem_outcomes = [], mem_live = 1\<rparr>) \<and> bval [-8] = bval [-2] ^ 3"
proof -
  have clz: "clz32 (2 :: limb) = 30" by (rule clz32_eqI) simp_all
  have e: "js_bigint_pow [-2] [3] \<lparr>mem_outcomes = [], mem_live = 0\<rparr>
     = (Inr [-8], \<lparr>mem_outcomes = [], mem_live = 1\<rparr>)"
    by (simp add: js_bigint_pow_def bigint_eval pow_of_two_def js_limb_clz_def clz word_le_nat_alt
        unat_minus_if_u32 mask_numeral)
  from js_bigint_pow_correct [OF wf_single wf_single e] e show ?thesis by (simp add: bval_single)
qed

text \<open>When the second multiplication of \<open>3n ** 4n\<close> runs out of memory, \<open>js_bigint_pow\<close> reports the
  error and one block is never freed: the early \<open>return NULL\<close> forgets \<open>r\<close>.\<close>
lemma js_bigint_pow_leak:
  "js_bigint_pow [3] [4] \<lparr>mem_outcomes = [True, False], mem_live = 0\<rparr>
     = (Inl OutOfMemory, \<lparr>mem_outcomes = [], mem_live = 1\<rparr>)"
proof -
  have clz: "clz32 (4 :: limb) = 29" by (rule clz32_eqI) simp_all
  have fails: "js_bigint_mul a b \<lparr>mem_outcomes = [False], mem_live = 1\<rparr>
      = (Inl OutOfMemory, \<lparr>mem_outcomes = [], mem_live = 1\<rparr>)" if "length a + length b \<le> 2" for a b
    using that by (simp add: js_bigint_mul_def js_bigint_new_def JS_BIGINT_MAX_SIZE_def bind_m_def
        guard_m_def return_m_def js_malloc_def)
  have "pow_loop [3] 4 2 [3] \<lparr>mem_outcomes = [False], mem_live = 1\<rparr>
      = (Inl OutOfMemory, \<lparr>mem_outcomes = [], mem_live = 1\<rparr>)"
    by (simp add: numeral_2_eq_2 bind_m_def guard_m_def return_m_def fails)
  then show ?thesis
    by (simp add: js_bigint_pow_def js_bigint_sign_def pow_general_def clz word_le_nat_alt
        js_bigint_new_def JS_BIGINT_MAX_SIZE_def bind_m_def guard_m_def return_m_def js_malloc_def)
qed

text \<open>C7: \<open>js_bigint_cmp\<close> decides the order of the numbers; in particular it returns 0 exactly for
  equal arrays of limbs.\<close>
theorem js_bigint_cmp_correct:
  assumes "bigint_wf a" and "bigint_wf b"
  shows "js_bigint_cmp a b = sgn (bval a - bval b) \<and> (js_bigint_cmp a b = 0 \<longleftrightarrow> a = b)"
  using js_bigint_cmp_val [OF assms] bval_inj [OF assms] by (auto simp: sgn_eq_0_iff)

theorem js_bigint_cmp_correct_witness: "js_bigint_cmp [-1] [0, 1] = -1"
  using js_bigint_cmp_correct [of "[-1]" "[0, 1]"]
  by (simp add: wf_single wf_two redundant_limb_def bval_single bval_two)

text \<open>C8: \<open>js_bigint_to_float64\<close> rounds to the nearest double, ties to even, and gives the infinity of
  the right sign exactly when the rounded number does not fit.\<close>
theorem js_bigint_to_float64_nearest:
  assumes "bigint_wf a"
  shows "if f64_round (nat \<bar>bval a\<bar>) < 2 ^ 1024
    then f64_exp (js_bigint_to_float64 a) < 2047
      \<and> f64_scaled (js_bigint_to_float64 a) = sgn (bval a) * int (f64_round (nat \<bar>bval a\<bar>)) * 2 ^ 1074
    else f64_exp (js_bigint_to_float64 a) = 2047 \<and> f64_mant (js_bigint_to_float64 a) = 0
      \<and> (f64_sign (js_bigint_to_float64 a) \<longleftrightarrow> bval a < 0)"
  by (rule js_bigint_to_float64_val [OF assms])

theorem js_bigint_to_float64_nearest_witness:
  "f64_scaled (js_bigint_to_float64 [5]) = 5 * 2 ^ 1074"
proof -
  have "f64_round 5 = 5" by (rule f64_round_small [of 2]) simp_all
  moreover have "(5 :: nat) < 2 ^ 1024"
  proof -
    have "(5 :: nat) < 2 ^ 3" by simp
    also have "\<dots> \<le> 2 ^ 1024" by (rule power_increasing) simp_all
    finally show ?thesis .
  qed
  ultimately show ?thesis
    using js_bigint_to_float64_nearest [OF wf_single, of 5] by (simp only: bval_single) simp
qed

text \<open>C9: \<open>js_bigint_from_float64\<close> tells NaN and the infinities from the finite doubles, refuses
  exactly the finite doubles that are not integers, and converts the others without error whatever
  their size.\<close>
theorem js_bigint_from_float64_exact:
  "if f64_exp x = 2047 then js_bigint_from_float64 x = return_m NaN_or_Infinity
   else if \<not> 2 ^ 1074 dvd f64_scaled x then js_bigint_from_float64 x = return_m NotInteger
   else runs (\<lambda>y. \<exists>r. y = Integer r \<and> bval r * 2 ^ 1074 = f64_scaled x \<and> bigint_wf r) 1 (\<lambda>_. False) 0
     (js_bigint_from_float64 x)"
  using js_bigint_from_float64_val [of x] by simp

text \<open>C10: \<open>js_bigint_float64_cmp\<close> compares a BigInt with a double exactly (2 for NaN, and the
  infinities on their sides of every number), except when both are finite, negative and lie between
  different powers of two.\<close>
theorem js_bigint_float64_cmp_correct:
  assumes "bigint_wf a"
    and "\<not> (bval a < 0 \<and> f64_sign b) \<or> f64_exp b = 2047 \<or> f64_scaled b = 0 \<or> same_binade (bval a) b"
  shows "js_bigint_float64_cmp a b =
    (if f64_is_nan b then 2
     else if f64_exp b = 2047 then (if f64_sign b then 1 else -1)
     else sgn (bval a * 2 ^ 1074 - f64_scaled b))"
proof -
  from assms(2) show ?thesis unfolding js_bigint_float64_cmp_val [OF assms(1)] by (auto simp: f64_is_nan_def)
qed

theorem js_bigint_float64_cmp_correct_witness:
  "js_bigint_float64_cmp [5] 0x3FE0000000000000 = 1"
proof -
  have "f64_exp 0x3FE0000000000000 = 1022" "f64_mant 0x3FE0000000000000 = 0" "\<not> f64_sign 0x3FE0000000000000"
    by (simp_all add: f64_exp_def f64_mant_def f64_sign_def mask_eq_exp_minus_1)
  then show ?thesis
    using js_bigint_float64_cmp_correct [OF wf_single, of 5 "0x3FE0000000000000"]
    by (simp add: f64_is_nan_def f64_scaled_def bval_single)
qed

text \<open>C11: for a negative BigInt and a negative double between different powers of two the comparison
  is the wrong way round: the code returns the order of the absolute values.\<close>
theorem js_bigint_float64_cmp_reversed:
  assumes "bigint_wf a" and "bval a < 0" and "f64_sign b" and "f64_scaled b \<noteq> 0" and "f64_exp b \<noteq> 2047"
    and "\<not> same_binade (bval a) b"
  shows "js_bigint_float64_cmp a b = - sgn (bval a * 2 ^ 1074 - f64_scaled b)
    \<and> bval a * 2 ^ 1074 \<noteq> f64_scaled b"
proof
  show "js_bigint_float64_cmp a b = - sgn (bval a * 2 ^ 1074 - f64_scaled b)"
    unfolding js_bigint_float64_cmp_val [OF assms(1)] using assms(2-) by (simp only: f64_is_nan_def simp_thms if_True if_False)
  show "bval a * 2 ^ 1074 \<noteq> f64_scaled b"
  proof -
    have "bval a \<noteq> 0" using assms(2) by simp
    then show ?thesis using equal_same_binade assms(6) by blast
  qed
qed

theorem js_bigint_float64_cmp_reversed_witness:
  "js_bigint_float64_cmp [-5] 0xBFE0000000000000 = 1 \<and> bval [-5] * 2 ^ 1074 < f64_scaled 0xBFE0000000000000"
proof -
  let ?b = "0xBFE0000000000000 :: u64"
  have f: "f64_exp ?b = 1022" "f64_mant ?b = 0" "f64_sign ?b"
    by (simp_all add: f64_exp_def f64_mant_def f64_sign_def mask_eq_exp_minus_1)
  then have b: "f64_scaled ?b = - (2 ^ 1073)" by (simp add: f64_scaled_def)
  have nb: "\<not> same_binade (bval [-5]) ?b" using f by (simp add: same_binade_def)
  have "js_bigint_float64_cmp [-5] ?b = - sgn (bval [-5] * 2 ^ 1074 - f64_scaled ?b)"
    using js_bigint_float64_cmp_reversed [OF wf_single, of "-5" ?b] f b nb by (simp add: bval_single)
  then show ?thesis by (simp add: b bval_single)
qed

end
