(* ===== verification/Rqsort.thy ===== *)
theory Rqsort
  imports Prelude "HOL-Library.Multiset" "HOL-Library.While_Combinator"
begin

text \<open>
  The sorting routine of \<open>src/qjs/cutils.h\<close> (\<open>rqsort\<close>, \<open>heapsortx\<close>, \<open>med3\<close>): an iterative
  quicksort with a three-way partition, a stack of at most 50 pending segments, insertion sort for
  small fragments and heap sort when the depth limit is reached. The array is a list of elements;
  the byte offsets of the code are element indices here. The comparison \<open>cmp\<close> is any function:
  the result is always a permutation, and it is sorted when \<open>cmp\<close> is a total preorder.
\<close>

section \<open>Exchanging elements\<close>

text \<open>\<open>swap(base + i, base + j, size)\<close>, and \<open>swap_block\<close> on \<open>k\<close> elements.\<close>

definition swap :: "'a list \<Rightarrow> nat \<Rightarrow> nat \<Rightarrow> 'a list" where
  "swap xs i j = xs[i := xs ! j, j := xs ! i]"

fun swap_block :: "'a list \<Rightarrow> nat \<Rightarrow> nat \<Rightarrow> nat \<Rightarrow> 'a list" where
  "swap_block xs a b 0 = xs"
| "swap_block xs a b (Suc k) = swap_block (swap xs a b) (Suc a) (Suc b) k"

section \<open>Heap sort\<close>

text \<open>The loop that sifts the element at \<open>r\<close> down in the first \<open>n\<close> elements.\<close>

function sift :: "('a \<Rightarrow> 'a \<Rightarrow> int) \<Rightarrow> 'a list \<Rightarrow> nat \<Rightarrow> nat \<Rightarrow> 'a list" where
  "sift cmp xs r n =
     (let c = r * 2 + 1
      in if c < n
         then (let c = (if c < n - 1 \<and> cmp (xs ! c) (xs ! (c + 1)) \<le> 0 then c + 1 else c)
               in if cmp (xs ! r) (xs ! c) > 0 then xs else sift cmp (swap xs r c) c n)
         else xs)"
  by auto
termination by (relation "measure (\<lambda>(cmp, xs, r, n). n - r)") (auto simp: Let_def)

declare sift.simps [simp del]

text \<open>The first loop (\<open>i\<close> from \<open>nmemb / 2\<close> down) and the second (\<open>i\<close> from the last element down).\<close>

fun heap_build :: "('a \<Rightarrow> 'a \<Rightarrow> int) \<Rightarrow> 'a list \<Rightarrow> nat \<Rightarrow> 'a list" where
  "heap_build cmp xs 0 = xs"
| "heap_build cmp xs (Suc i) = heap_build cmp (sift cmp xs i (length xs)) i"

fun heap_extract :: "('a \<Rightarrow> 'a \<Rightarrow> int) \<Rightarrow> 'a list \<Rightarrow> nat \<Rightarrow> 'a list" where
  "heap_extract cmp xs 0 = xs"
| "heap_extract cmp xs (Suc i) = heap_extract cmp (sift cmp (swap xs 0 (Suc i)) 0 (Suc i)) i"

definition heapsortx :: "('a \<Rightarrow> 'a \<Rightarrow> int) \<Rightarrow> 'a list \<Rightarrow> 'a list" where
  "heapsortx cmp xs =
     (if length xs > 1 then heap_extract cmp (heap_build cmp xs (length xs div 2)) (length xs - 1) else xs)"

section \<open>Partition\<close>

text \<open>The index of the median of the elements at three indices.\<close>

definition med3 :: "('a \<Rightarrow> 'a \<Rightarrow> int) \<Rightarrow> 'a list \<Rightarrow> nat \<Rightarrow> nat \<Rightarrow> nat \<Rightarrow> nat" where
  "med3 cmp xs a b c =
     (if cmp (xs ! a) (xs ! b) < 0
      then (if cmp (xs ! b) (xs ! c) < 0 then b else if cmp (xs ! a) (xs ! c) < 0 then c else a)
      else (if cmp (xs ! b) (xs ! c) > 0 then b else if cmp (xs ! a) (xs ! c) < 0 then a else c))"

text \<open>
  The two inner loops. \<open>i\<close>, \<open>lt\<close>, \<open>j\<close> and \<open>gt\<close> are \<open>pi\<close>, \<open>plt\<close>, \<open>pj\<close> and \<open>pgt\<close> as indices; the
  pivot is at index 0.
\<close>

function part_up :: "('a \<Rightarrow> 'a \<Rightarrow> int) \<Rightarrow> 'a list \<Rightarrow> nat \<Rightarrow> nat \<Rightarrow> nat \<Rightarrow> 'a list \<times> nat \<times> nat" where
  "part_up cmp xs i lt j =
     (if i < j \<and> cmp (xs ! 0) (xs ! i) \<ge> 0
      then (if cmp (xs ! 0) (xs ! i) = 0 then part_up cmp (swap xs lt i) (i + 1) (lt + 1) j
            else part_up cmp xs (i + 1) lt j)
      else (xs, i, lt))"
  by auto
termination by (relation "measure (\<lambda>(cmp, xs, i, lt, j). j - i)") auto

declare part_up.simps [simp del]

text \<open>\<open>Suc j\<close> is \<open>pj\<close> before the decrement in the condition.\<close>

fun part_down :: "('a \<Rightarrow> 'a \<Rightarrow> int) \<Rightarrow> 'a list \<Rightarrow> nat \<Rightarrow> nat \<Rightarrow> nat \<Rightarrow> 'a list \<times> nat \<times> nat" where
  "part_down cmp xs i 0 gt = (xs, 0, gt)"
| "part_down cmp xs i (Suc j) gt =
     (if i < j \<and> cmp (xs ! 0) (xs ! j) \<le> 0
      then (if cmp (xs ! 0) (xs ! j) = 0 then part_down cmp (swap xs (gt - 1) j) i j (gt - 1)
            else part_down cmp xs i j gt)
      else (xs, j, gt))"

lemma part_up_bounds:
  "part_up cmp xs i lt j = (xs', i', lt') \<Longrightarrow> i \<le> i' \<and> (i \<le> j \<longrightarrow> i' \<le> j)"
proof (induction cmp xs i lt j rule: part_up.induct)
  case (1 cmp xs i lt j)
  show ?case
  proof (cases "i < j \<and> cmp (xs ! 0) (xs ! i) \<ge> 0")
    case True
    then show ?thesis using 1 by (subst (asm) (3) part_up.simps) (fastforce split: if_splits)
  next
    case False
    then show ?thesis using "1.prems" by (subst (asm) part_up.simps) auto
  qed
qed

lemma part_down_bounds: "part_down cmp xs i j gt = (xs', j', gt') \<Longrightarrow> j' \<le> j \<and> (0 < j \<longrightarrow> j' < j)"
  by (induction cmp xs i j gt rule: part_down.induct) (fastforce split: if_splits)+

text \<open>The outer loop of the partition; the result is the array with \<open>lt\<close>, \<open>i\<close> and \<open>gt\<close> at the end.\<close>

function part_loop ::
  "('a \<Rightarrow> 'a \<Rightarrow> int) \<Rightarrow> 'a list \<Rightarrow> nat \<Rightarrow> nat \<Rightarrow> nat \<Rightarrow> nat \<Rightarrow> 'a list \<times> nat \<times> nat \<times> nat" where
  "part_loop cmp xs i lt j gt =
     (let (xs1, i1, lt1) = part_up cmp xs i lt j;
          (xs2, j1, gt1) = part_down cmp xs1 i1 j gt
      in if i1 \<ge> j1 then (xs2, lt1, i1, gt1)
         else part_loop cmp (swap xs2 i1 j1) (i1 + 1) lt1 j1 gt1)"
  by auto
termination
proof (relation "measure (\<lambda>(cmp, xs, i, lt, j, gt). j - i)", goal_cases)
  case (2 cmp xs i lt j gt p1 xs1 p1' i1 lt1 p2 xs2 p2' j1 gt1)
  then show ?case
    using part_up_bounds [of cmp xs i lt j xs1 i1 lt1] part_down_bounds [of cmp xs1 i1 j gt xs2 j1 gt1]
    by auto
qed simp

declare part_loop.simps [simp del]

text \<open>
  One round of quicksort on a segment: choose the pivot, partition, and move the elements equal to
  the pivot to the middle. The result is the segment with the bounds \<open>lt\<close> and \<open>gt\<close> of the middle.
\<close>

definition partition :: "('a \<Rightarrow> 'a \<Rightarrow> int) \<Rightarrow> 'a list \<Rightarrow> 'a list \<times> nat \<times> nat" where
  "partition cmp xs =
     (let n = length xs;
          m4 = n div 4;
          m = med3 cmp xs m4 (2 * m4) (3 * m4);
          xs = swap xs 0 m;
          (xs, lt, i, gt) = part_loop cmp xs 1 1 n n;
          xs = swap_block xs 0 (i - min lt (i - lt)) (min lt (i - lt));
          xs = swap_block xs i (n - min (n - gt) (gt - i)) (min (n - gt) (gt - i))
      in (xs, i - lt, n - (gt - i)))"

section \<open>Insertion sort and the main loop\<close>

fun insert_down :: "('a \<Rightarrow> 'a \<Rightarrow> int) \<Rightarrow> 'a list \<Rightarrow> nat \<Rightarrow> 'a list" where
  "insert_down cmp xs 0 = xs"
| "insert_down cmp xs (Suc j) =
     (if cmp (xs ! j) (xs ! Suc j) > 0 then insert_down cmp (swap xs (Suc j) j) j else xs)"

text \<open>\<open>k\<close> counts the elements still to insert.\<close>

fun insertion_sort :: "('a \<Rightarrow> 'a \<Rightarrow> int) \<Rightarrow> 'a list \<Rightarrow> nat \<Rightarrow> nat \<Rightarrow> 'a list" where
  "insertion_sort cmp xs i 0 = xs"
| "insertion_sort cmp xs i (Suc k) = insertion_sort cmp (insert_down cmp xs i) (Suc i) k"

text \<open>
  The pending segments as \<open>(base, count, depth)\<close>. The head of the list is the segment held in
  \<open>ptr\<close>, \<open>nmemb\<close> and \<open>depth\<close>, and the rest is \<open>stack\<close> with its top first. One step is one round
  of the inner loop with its exit: a deep segment goes to heap sort, a large one is partitioned and
  its larger part is put on the stack below the part that is processed next, a small one is sorted by
  insertion. \<open>splice\<close> writes a segment back.
\<close>

type_synonym segment = "nat \<times> nat \<times> nat"

definition splice :: "'a list \<Rightarrow> nat \<Rightarrow> 'a list \<Rightarrow> 'a list" where
  "splice xs p ys = take p xs @ ys @ drop (p + length ys) xs"

definition rqsort_step :: "('a \<Rightarrow> 'a \<Rightarrow> int) \<Rightarrow> 'a list \<times> segment list \<Rightarrow> 'a list \<times> segment list" where
  "rqsort_step cmp st =
     (case st of
        (xs, []) \<Rightarrow> (xs, [])
      | (xs, (p, n, d) # stk) \<Rightarrow>
          (let seg = take n (drop p xs)
           in if n > 6
              then (if Suc d > 50 then (splice xs p (heapsortx cmp seg), stk)
                    else (let (ys, lt, gt) = partition cmp seg;
                              l = (p, lt, Suc d);
                              r = (p + gt, n - gt, Suc d)
                          in (splice xs p ys, (if lt > n - gt then r # l # stk else l # r # stk))))
              else (splice xs p (insertion_sort cmp seg 1 (n - 1)), stk)))"

definition rqsort_init :: "'a list \<Rightarrow> 'a list \<times> segment list" where
  "rqsort_init xs = (xs, if length xs < 2 then [] else [(0, length xs, 0)])"

definition rqsort :: "('a \<Rightarrow> 'a \<Rightarrow> int) \<Rightarrow> 'a list \<Rightarrow> 'a list option" where
  "rqsort cmp xs =
     map_option fst (while_option (\<lambda>st. snd st \<noteq> []) (rqsort_step cmp) (rqsort_init xs))"

section \<open>Every routine permutes the elements\<close>

lemma length_swap [simp]: "length (swap xs i j) = length xs"
  by (simp add: swap_def)

lemma mset_swap_elems [simp]: "i < length xs \<Longrightarrow> j < length xs \<Longrightarrow> mset (swap xs i j) = mset xs"
  by (simp add: swap_def mset_swap)

lemma nth_swap:
  "i < length xs \<Longrightarrow> j < length xs \<Longrightarrow>
   swap xs i j ! k = (if k = j then xs ! i else if k = i then xs ! j else xs ! k)"
  by (auto simp: swap_def nth_list_update)

lemma take_swap: "i < n \<Longrightarrow> j < n \<Longrightarrow> n \<le> length xs \<Longrightarrow> take n (swap xs i j) = swap (take n xs) i j"
  by (simp add: swap_def take_update_swap)

lemma drop_swap: "i < n \<Longrightarrow> j < n \<Longrightarrow> drop n (swap xs i j) = drop n xs"
  by (simp add: swap_def)

lemma swap_block_perm:
  "a + k \<le> length xs \<Longrightarrow> b + k \<le> length xs \<Longrightarrow>
   length (swap_block xs a b k) = length xs \<and> mset (swap_block xs a b k) = mset xs"
  by (induction xs a b k rule: swap_block.induct) auto

lemma sift_perm:
  "n \<le> length xs \<Longrightarrow>
   length (sift cmp xs r n) = length xs \<and>
   mset (take n (sift cmp xs r n)) = mset (take n xs) \<and> drop n (sift cmp xs r n) = drop n xs"
proof (induction cmp xs r n rule: sift.induct)
  case (1 cmp xs r n)
  define c where "c = (if r * 2 + 1 < n - 1 \<and> cmp (xs ! (r * 2 + 1)) (xs ! (r * 2 + 1 + 1)) \<le> 0
    then r * 2 + 1 + 1 else r * 2 + 1)"
  have e: "sift cmp xs r n = (if r * 2 + 1 < n \<and> \<not> cmp (xs ! r) (xs ! c) > 0 then sift cmp (swap xs r c) c n else xs)"
    by (subst sift.simps) (simp add: Let_def c_def)
  show ?case
  proof (cases "r * 2 + 1 < n \<and> \<not> cmp (xs ! r) (xs ! c) > 0")
    case True
    then have b: "r < n" "c < n" by (auto simp: c_def)
    have "length (sift cmp (swap xs r c) c n) = length (swap xs r c) \<and>
      mset (take n (sift cmp (swap xs r c) c n)) = mset (take n (swap xs r c)) \<and>
      drop n (sift cmp (swap xs r c) c n) = drop n (swap xs r c)"
      by (rule "1.IH" [OF refl _ c_def]) (use True "1.prems" in auto)
    then show ?thesis using True b "1.prems" e by (simp add: take_swap drop_swap)
  next
    case False
    then show ?thesis using e by auto
  qed
qed

lemma sift_all:
  "n \<le> length xs \<Longrightarrow> length (sift cmp xs r n) = length xs \<and> mset (sift cmp xs r n) = mset xs"
  using sift_perm [of n xs cmp r] append_take_drop_id [of n "sift cmp xs r n"] append_take_drop_id [of n xs]
  by (metis mset_append)

lemma heap_build_perm:
  "k \<le> length xs \<Longrightarrow> length (heap_build cmp xs k) = length xs \<and> mset (heap_build cmp xs k) = mset xs"
  by (induction cmp xs k rule: heap_build.induct) (auto simp: sift_all)

lemma heap_extract_perm:
  "k < length xs \<Longrightarrow> length (heap_extract cmp xs k) = length xs \<and> mset (heap_extract cmp xs k) = mset xs"
proof (induction cmp xs k rule: heap_extract.induct)
  case (2 cmp xs i)
  have "0 < length xs" using "2.prems" by linarith
  then have "mset (swap xs 0 (Suc i)) = mset xs" using "2.prems" by (intro mset_swap_elems)
  then show ?case using 2 by (simp add: sift_all)
qed simp

lemma heapsortx_perm: "length (heapsortx cmp xs) = length xs \<and> mset (heapsortx cmp xs) = mset xs"
  using heap_build_perm [of "length xs div 2" xs cmp]
  by (simp add: heapsortx_def heap_extract_perm)

lemma insert_down_perm:
  "k < length xs \<Longrightarrow> length (insert_down cmp xs k) = length xs \<and> mset (insert_down cmp xs k) = mset xs"
  by (induction cmp xs k rule: insert_down.induct) auto

lemma insertion_sort_perm:
  "i + k \<le> length xs \<Longrightarrow>
   length (insertion_sort cmp xs i k) = length xs \<and> mset (insertion_sort cmp xs i k) = mset xs"
  by (induction cmp xs i k rule: insertion_sort.induct) (auto simp: insert_down_perm)

section \<open>The partition invariant\<close>

text \<open>
  \<open>parts\<close> says how the elements of the four ranges compare with the pivot at index 0:
  equal below \<open>lt\<close>, smaller from \<open>lt\<close> to \<open>i\<close>, greater from \<open>j\<close> to \<open>gt\<close> and equal from \<open>gt\<close>.
\<close>

definition parts :: "('a \<Rightarrow> 'a \<Rightarrow> int) \<Rightarrow> 'a list \<Rightarrow> nat \<Rightarrow> nat \<Rightarrow> nat \<Rightarrow> nat \<Rightarrow> bool" where
  "parts cmp xs lt i j gt \<longleftrightarrow>
     1 \<le> lt \<and> lt \<le> i \<and> j \<le> gt \<and> i \<le> gt \<and> gt \<le> length xs \<and>
     (\<forall>k. 1 \<le> k \<and> k < lt \<longrightarrow> cmp (xs ! 0) (xs ! k) = 0) \<and>
     (\<forall>k. lt \<le> k \<and> k < i \<longrightarrow> cmp (xs ! 0) (xs ! k) > 0) \<and>
     (\<forall>k. j \<le> k \<and> k < gt \<longrightarrow> cmp (xs ! 0) (xs ! k) < 0) \<and>
     (\<forall>k. gt \<le> k \<and> k < length xs \<longrightarrow> cmp (xs ! 0) (xs ! k) = 0)"

text \<open>The same elements with the same pivot.\<close>

definition permuted :: "'a list \<Rightarrow> 'a list \<Rightarrow> bool" where
  "permuted xs ys \<longleftrightarrow> length ys = length xs \<and> mset ys = mset xs \<and> ys ! 0 = xs ! 0"

lemma permuted_refl [simp]: "permuted xs xs"
  by (simp add: permuted_def)

lemma permuted_trans: "permuted xs ys \<Longrightarrow> permuted ys zs \<Longrightarrow> permuted xs zs"
  by (simp add: permuted_def)

lemma permuted_swap: "0 < i \<Longrightarrow> 0 < j \<Longrightarrow> i < length xs \<Longrightarrow> j < length xs \<Longrightarrow> permuted xs (swap xs i j)"
  by (simp add: permuted_def nth_swap)

lemma part_up_parts:
  "parts cmp xs lt i j gt \<Longrightarrow> i \<le> j \<Longrightarrow> part_up cmp xs i lt j = (xs', i', lt') \<Longrightarrow>
   parts cmp xs' lt' i' j gt \<and> permuted xs xs' \<and> i' \<le> j \<and>
   (i' < j \<longrightarrow> cmp (xs' ! 0) (xs' ! i') < 0)"
proof (induction cmp xs i lt j rule: part_up.induct)
  case (1 cmp xs i lt j)
  have p: "1 \<le> lt" "lt \<le> i" "j \<le> gt" "gt \<le> length xs" using "1.prems"(1) by (auto simp: parts_def)
  show ?case
  proof (cases "i < j \<and> cmp (xs ! 0) (xs ! i) \<ge> 0")
    case False
    then have "(xs', i', lt') = (xs, i, lt)" using "1.prems"(3) by (subst (asm) part_up.simps) auto
    then show ?thesis using 1 False by auto
  next
    case True
    show ?thesis
    proof (cases "cmp (xs ! 0) (xs ! i) = 0")
      case eq: True
      have s: "parts cmp (swap xs lt i) (lt + 1) (i + 1) j gt"
        using "1.prems"(1) True eq p by (auto simp: parts_def nth_swap less_Suc_eq)
      have "permuted xs (swap xs lt i)" using True p by (intro permuted_swap) auto
      moreover have "part_up cmp (swap xs lt i) (i + 1) (lt + 1) j = (xs', i', lt')"
        using "1.prems"(3) True eq by (subst (asm) part_up.simps) simp
      ultimately show ?thesis using "1.IH"(1) [OF True eq s] True permuted_trans by fastforce
    next
      case ne: False
      have s: "parts cmp xs lt (i + 1) j gt"
        using "1.prems"(1) True ne p by (auto simp: parts_def less_Suc_eq)
      moreover have "part_up cmp xs (i + 1) lt j = (xs', i', lt')"
        using "1.prems"(3) True ne by (subst (asm) part_up.simps) simp
      ultimately show ?thesis using "1.IH"(2) [OF True ne s] True by fastforce
    qed
  qed
qed

lemma parts_move:
  assumes "parts cmp xs lt i (Suc j) gt" and "i < j" and "cmp (xs ! 0) (xs ! j) < 0"
  shows "parts cmp xs lt i j gt"
proof -
  have "cmp (xs ! 0) (xs ! k) < 0" if "j \<le> k" "k < gt" for k
    using assms that by (cases "k = j") (auto simp: parts_def)
  then show ?thesis using assms by (simp add: parts_def)
qed

lemma parts_swap_down:
  assumes "parts cmp xs lt i (Suc j) gt" and "i < j" and "cmp (xs ! 0) (xs ! j) = 0"
  shows "parts cmp (swap xs (gt - 1) j) lt i j (gt - 1)"
proof -
  obtain g where g: "gt = Suc g" using assms by (cases gt) (auto simp: parts_def)
  have b: "g < length xs" "j < length xs" "j \<le> g" "0 < j" "i < g" "1 \<le> lt" "lt \<le> i"
    using assms by (auto simp: parts_def g)
  have n: "swap xs g j ! k = (if k = j then xs ! g else if k = g then xs ! j else xs ! k)" for k
    using b by (simp add: nth_swap)
  have z: "swap xs g j ! 0 = xs ! 0" using b by (auto simp: n)
  have "cmp (xs ! 0) (swap xs g j ! k) < 0" if "j \<le> k" "k < g" for k
    using assms b that by (cases "k = j") (auto simp: parts_def n g)
  moreover have "cmp (xs ! 0) (swap xs g j ! k) = 0" if "g \<le> k" "k < length xs" for k
    using assms b that by (cases "k = g") (auto simp: parts_def n g)
  moreover have "cmp (xs ! 0) (swap xs g j ! k) = 0" if "1 \<le> k" "k < lt" for k
    using assms b that by (simp add: parts_def n g)
  moreover have "cmp (xs ! 0) (swap xs g j ! k) > 0" if "lt \<le> k" "k < i" for k
    using assms b that by (simp add: parts_def n g)
  ultimately show ?thesis using b unfolding parts_def by (simp add: g z)
qed

lemma parts_close:
  assumes "parts cmp xs lt i (Suc j) gt" and "\<not> i < j" and "i \<le> Suc j"
    and "i \<le> j \<Longrightarrow> cmp (xs ! 0) (xs ! i) < 0"
  shows "parts cmp xs lt i i gt"
proof -
  have "cmp (xs ! 0) (xs ! k) < 0" if "i \<le> k" "k < gt" for k
  proof (cases "k = i \<and> i \<le> j")
    case True
    then show ?thesis using assms(4) by simp
  next
    case False
    then have "Suc j \<le> k" using assms(2,3) that by auto
    then show ?thesis using assms(1) that by (simp add: parts_def)
  qed
  then show ?thesis using assms(1) by (simp add: parts_def)
qed

lemma part_down_parts:
  "parts cmp xs lt i j gt \<Longrightarrow> i \<le> j \<Longrightarrow> part_down cmp xs i j gt = (xs', j', gt') \<Longrightarrow>
   i < j \<longrightarrow> cmp (xs ! 0) (xs ! i) < 0 \<Longrightarrow>
   parts cmp xs' lt i (if i < j' then Suc j' else i) gt' \<and> permuted xs xs' \<and>
   (i < j' \<longrightarrow> cmp (xs' ! 0) (xs' ! j') > 0 \<and> cmp (xs' ! 0) (xs' ! i) < 0)"
proof (induction cmp xs i j gt rule: part_down.induct)
  case (1 cmp xs i gt)
  then show ?case by (auto simp: parts_def)
next
  case (2 cmp xs i j gt)
  show ?case
  proof (cases "i < j \<and> cmp (xs ! 0) (xs ! j) \<le> 0")
    case False
    then have r: "xs' = xs" "j' = j" "gt' = gt" using "2.prems"(3) by auto
    show ?thesis
    proof (cases "i < j")
      case True
      then show ?thesis using "2.prems" False unfolding r by simp
    next
      case b: False
      have "parts cmp xs lt i i gt" by (rule parts_close) (use "2.prems" b in auto)
      then show ?thesis using b unfolding r by simp
    qed
  next
    case True
    have g: "i < gt - 1" "gt - 1 < length xs" "j < length xs" using True "2.prems"(1) by (auto simp: parts_def)
    have l: "0 < i" using "2.prems"(1) by (auto simp: parts_def)
    have i: "cmp (xs ! 0) (xs ! i) < 0" using "2.prems"(4) True by simp
    show ?thesis
    proof (cases "cmp (xs ! 0) (xs ! j) = 0")
      case eq: True
      have s: "parts cmp (swap xs (gt - 1) j) lt i j (gt - 1)"
        using "2.prems"(1) True eq by (intro parts_swap_down) auto
      have "swap xs (gt - 1) j ! 0 = xs ! 0" "swap xs (gt - 1) j ! i = xs ! i"
        using l True g by (auto simp: swap_def nth_list_update)
      with i have c: "cmp (swap xs (gt - 1) j ! 0) (swap xs (gt - 1) j ! i) < 0" by simp
      have d: "part_down cmp (swap xs (gt - 1) j) i j (gt - 1) = (xs', j', gt')"
        using "2.prems"(3) True eq by simp
      have "permuted xs (swap xs (gt - 1) j)" using True g by (intro permuted_swap) auto
      moreover have "i \<le> j" using True by simp
      moreover have "i < j \<longrightarrow> cmp (swap xs (gt - 1) j ! 0) (swap xs (gt - 1) j ! i) < 0"
        using c by simp
      moreover note "2.IH"(1) [OF True eq s _ d]
      ultimately show ?thesis using permuted_trans by metis
    next
      case ne: False
      have s: "parts cmp xs lt i j gt" by (rule parts_move) (use "2.prems"(1) True ne in auto)
      have d: "part_down cmp xs i j gt = (xs', j', gt')" using "2.prems"(3) True ne by simp
      have "i \<le> j" using True by simp
      from "2.IH"(2) [OF True ne s this d] i show ?thesis by simp
    qed
  qed
qed

lemma parts_swap:
  assumes "parts cmp xs lt i (Suc j) gt" and "i < j" and "cmp (xs ! 0) (xs ! j) > 0" "cmp (xs ! 0) (xs ! i) < 0"
  shows "parts cmp (swap xs i j) lt (i + 1) j gt"
proof -
  have b: "i < length xs" "j < length xs" "j < gt" "1 \<le> lt" "lt \<le> i" "0 < i" "gt \<le> length xs"
    using assms by (auto simp: parts_def)
  have n: "swap xs i j ! k = (if k = j then xs ! i else if k = i then xs ! j else xs ! k)" for k
    using b by (simp add: nth_swap)
  have z: "swap xs i j ! 0 = xs ! 0" using b assms(2) by (simp add: n)
  have "cmp (xs ! 0) (swap xs i j ! k) < 0" if "j \<le> k" "k < gt" for k
    using assms b that by (cases "k = j") (auto simp: parts_def n)
  moreover have "cmp (xs ! 0) (swap xs i j ! k) = 0" if "gt \<le> k" "k < length xs" for k
    using assms b that by (simp add: parts_def n)
  moreover have "cmp (xs ! 0) (swap xs i j ! k) = 0" if "1 \<le> k" "k < lt" for k
    using assms b that by (simp add: parts_def n)
  moreover have "cmp (xs ! 0) (swap xs i j ! k) > 0" if "lt \<le> k" "k < i + 1" for k
    using assms b that by (cases "k = i") (auto simp: parts_def n)
  ultimately show ?thesis using b assms(2) unfolding parts_def z by simp
qed

lemma part_loop_parts:
  "parts cmp xs lt i j gt \<Longrightarrow> i \<le> j \<Longrightarrow> part_loop cmp xs i lt j gt = (xs', lt', i', gt') \<Longrightarrow>
   parts cmp xs' lt' i' i' gt' \<and> permuted xs xs'"
proof (induction cmp xs i lt j gt arbitrary: xs' lt' i' gt' rule: part_loop.induct)
  case (1 cmp xs i lt j gt)
  obtain xs1 i1 lt1 where u: "part_up cmp xs i lt j = (xs1, i1, lt1)" by (cases "part_up cmp xs i lt j")
  obtain xs2 j1 gt1 where d: "part_down cmp xs1 i1 j gt = (xs2, j1, gt1)"
    by (cases "part_down cmp xs1 i1 j gt")
  have up: "parts cmp xs1 lt1 i1 j gt" "permuted xs xs1" "i1 \<le> j" "i1 < j \<Longrightarrow> cmp (xs1 ! 0) (xs1 ! i1) < 0"
    using part_up_parts [OF "1.prems"(1,2) u] by auto
  have down: "parts cmp xs2 lt1 i1 (if i1 < j1 then Suc j1 else i1) gt1" "permuted xs1 xs2"
    "i1 < j1 \<Longrightarrow> cmp (xs2 ! 0) (xs2 ! j1) > 0" "i1 < j1 \<Longrightarrow> cmp (xs2 ! 0) (xs2 ! i1) < 0"
    using part_down_parts [OF up(1,3) d] up(4) by auto
  have r: "part_loop cmp xs i lt j gt =
    (if i1 \<ge> j1 then (xs2, lt1, i1, gt1) else part_loop cmp (swap xs2 i1 j1) (i1 + 1) lt1 j1 gt1)"
    by (subst part_loop.simps) (simp add: u d)
  show ?case
  proof (cases "i1 \<ge> j1")
    case True
    then show ?thesis using r down "1.prems"(3) up(2) permuted_trans by auto
  next
    case False
    then have s: "parts cmp (swap xs2 i1 j1) lt1 (i1 + 1) j1 gt1" using down by (intro parts_swap) auto
    have b: "0 < i1" "i1 < length xs2" "j1 < length xs2"
      using down False by (auto simp: parts_def)
    then have "permuted xs2 (swap xs2 i1 j1)" using False by (intro permuted_swap) auto
    moreover have "part_loop cmp (swap xs2 i1 j1) (i1 + 1) lt1 j1 gt1 = (xs', lt', i', gt')"
      using r False "1.prems"(3) by simp
    ultimately show ?thesis
      using "1.IH" [OF u [symmetric] refl refl d [symmetric] refl refl False s] down up(2) False
      by (auto intro: permuted_trans)
  qed
qed

text \<open>Exchanging two disjoint blocks.\<close>

lemma swap_block_nth:
  "a + k \<le> b \<Longrightarrow> b + k \<le> length xs \<Longrightarrow>
   swap_block xs a b k ! m =
     (if a \<le> m \<and> m < a + k then xs ! (m - a + b) else if b \<le> m \<and> m < b + k then xs ! (m - b + a) else xs ! m)"
proof (induction xs a b k rule: swap_block.induct)
  case (2 xs a b k)
  have n: "swap xs a b ! m = (if m = b then xs ! a else if m = a then xs ! b else xs ! m)" for m
    using "2.prems" by (simp add: nth_swap)
  have "swap_block (swap xs a b) (Suc a) (Suc b) k ! m =
    (if Suc a \<le> m \<and> m < Suc a + k then swap xs a b ! (m - Suc a + Suc b)
     else if Suc b \<le> m \<and> m < Suc b + k then swap xs a b ! (m - Suc b + Suc a) else swap xs a b ! m)"
    using "2.prems" by (intro "2.IH") auto
  then show ?case
    using "2.prems" by (cases "m < a"; cases "m = a"; cases "m < b"; cases "m = b") (auto simp: n Suc_diff_Suc)
qed auto

text \<open>After the round: smaller elements below \<open>lt\<close>, equal ones up to \<open>gt\<close>, greater ones from \<open>gt\<close>.\<close>

lemma partition_parts:
  assumes "partition cmp xs = (ys, lt, gt)" and n: "4 \<le> length xs"
  shows "length ys = length xs" "mset ys = mset xs" "lt < gt" "gt \<le> length xs"
    and "\<exists>p\<in>set xs. (\<forall>k<lt. cmp p (ys ! k) > 0) \<and>
      (\<forall>k. lt \<le> k \<and> k < gt \<longrightarrow> ys ! k = p \<or> cmp p (ys ! k) = 0) \<and>
      (\<forall>k. gt \<le> k \<and> k < length ys \<longrightarrow> cmp p (ys ! k) < 0)"
proof -
  define m where "m = med3 cmp xs (length xs div 4) (2 * (length xs div 4)) (3 * (length xs div 4))"
  define xs0 where "xs0 = swap xs 0 m"
  have m: "m < length xs" using n unfolding m_def med3_def by auto
  have p0: "length xs0 = length xs" "mset xs0 = mset xs"
    unfolding xs0_def using m n by (auto intro!: mset_swap_elems)
  obtain zs l i g where loop: "part_loop cmp xs0 1 1 (length xs) (length xs) = (zs, l, i, g)"
    by (cases "part_loop cmp xs0 1 1 (length xs) (length xs)")
  have "parts cmp xs0 1 1 (length xs) (length xs)" using n p0 by (simp add: parts_def)
  from part_loop_parts [OF this _ loop] n have z: "parts cmp zs l i i g" "permuted xs0 zs" by auto
  define s where "s = min l (i - l)"
  define t where "t = min (length xs - g) (g - i)"
  define ws where "ws = swap_block zs 0 (i - s) s"
  have r: "ys = swap_block ws i (length xs - t) t" "lt = i - l" "gt = length xs - (g - i)"
    using assms(1) loop unfolding xs0_def m_def ws_def s_def t_def by (auto simp: partition_def Let_def)
  have b: "1 \<le> l" "l \<le> i" "i \<le> g" "g \<le> length xs" "length zs = length xs"
    using z p0 by (auto simp: parts_def permuted_def)
  have s: "s \<le> i - s" "s \<le> i" and t: "i + t \<le> length xs - t" "t \<le> length xs"
    using b by (auto simp: s_def t_def)
  have ws: "length ws = length xs" "mset ws = mset xs"
    using swap_block_perm [of 0 s zs "i - s"] s b z(2) p0 by (auto simp: ws_def permuted_def)
  have ys: "length ys = length xs" "mset ys = mset xs"
    using swap_block_perm [of i t ws "length xs - t"] t ws by (auto simp: r)
  show "length ys = length xs" "mset ys = mset xs" by (fact ys)+
  show "lt < gt" "gt \<le> length xs" using b n by (auto simp: r)
  note lg = r(2,3)
  have yk: "ys ! k = ws ! (if i \<le> k \<and> k < i + t then k - i + (length xs - t)
      else if length xs - t \<le> k \<and> k < length xs then k - (length xs - t) + i else k)" for k
    using t ws unfolding r(1) by (subst swap_block_nth) auto
  have wk: "ws ! k = zs ! (if k < s then k + (i - s) else if i - s \<le> k \<and> k < i then k - (i - s) else k)" for k
    using s b unfolding ws_def by (subst swap_block_nth) auto
  define p where "p = zs ! 0"
  have "p \<in> set zs" unfolding p_def using b n by (intro nth_mem) auto
  also have "set zs = set xs" using z(2) p0 by (metis mset_eq_setD permuted_def)
  finally have "p \<in> set xs" .
  have eq: "k = 0 \<or> cmp p (zs ! k) = 0" if "k < l \<or> g \<le> k" "k < length xs" for k
    using z(1) that b by (cases "k = 0") (auto simp: parts_def p_def)
  have less: "cmp p (zs ! k) > 0" if "l \<le> k" "k < i" for k using z(1) that by (auto simp: parts_def p_def)
  have greater: "cmp p (zs ! k) < 0" if "i \<le> k" "k < g" for k using z(1) that by (auto simp: parts_def p_def)
  have ss: "s \<le> l" "s \<le> i - l" "s = l \<or> s = i - l" and tt: "t \<le> length xs - g" "t \<le> g - i" "t = length xs - g \<or> t = g - i"
    by (auto simp: s_def t_def)
  have "cmp p (ys ! k) > 0" if k: "k < lt" for k
  proof -
    have "\<not> i \<le> k" "\<not> length xs - t \<le> k" using k b tt lg by auto
    then have "ys ! k = ws ! k" by (simp only: yk) auto
    also have "ws ! k = zs ! (if k < s then k + (i - s) else k)" using k b ss lg by (auto simp: wk)
    finally show ?thesis using less k b ss lg by auto
  qed
  moreover have "cmp p (ys ! k) < 0" if k: "gt \<le> k" "k < length ys" for k
  proof (cases "length xs - t \<le> k")
    case True
    define h where "h = k - (length xs - t) + i"
    have h: "i \<le> h" "h < g" using True k b ys tt by (auto simp: h_def)
    have "\<not> k < i + t" using True t by auto
    then have "ys ! k = ws ! h" using True k ys by (simp add: yk h_def)
    also have "ws ! h = zs ! h" using h ss b by (auto simp: wk)
    finally show ?thesis using greater h by simp
  next
    case False
    have "i \<le> k" "k < g" "\<not> k < i + t" using False k b ys tt lg by auto
    then show ?thesis using greater False ss b by (simp add: yk wk)
  qed
  moreover have "ys ! k = p \<or> cmp p (ys ! k) = 0" if k: "lt \<le> k" "k < gt" for k
  proof -
    have len: "k < length xs" using k lg by auto
    have zp: ?thesis if "ys ! k = zs ! h" "h < l \<or> g \<le> h" "h < length xs" for h
      using eq [of h] that by (auto simp: p_def)
    consider "k < i" "i - s \<le> k" | "k < i" "k < i - s" | "i \<le> k" "k < i + t" | "i \<le> k" "i + t \<le> k"
      by linarith
    then show ?thesis
    proof cases
      case 1
      then have "\<not> length xs - t \<le> k" "\<not> k < s" using s t by linarith+
      then have "ys ! k = zs ! (k - (i - s))" using 1 by (simp add: yk wk)
      moreover have "k - (i - s) < l" using 1 ss(1) s by linarith
      ultimately show ?thesis using len by (intro zp [of "k - (i - s)"]) auto
    next
      case 2
      then have "\<not> length xs - t \<le> k" "\<not> k < s" using k(1) ss(2) t lg(1) by linarith+
      then have "ys ! k = zs ! k" using 2 by (simp add: yk wk)
      moreover have "k < l" using 2 k(1) lg(1) ss(3) b by (elim disjE) linarith+
      ultimately show ?thesis using len by (intro zp [of "k"]) auto
    next
      case 3
      define h where "h = k - i + (length xs - t)"
      have "\<not> h < s" "\<not> h < i" using 3 s t unfolding h_def by linarith+
      then have "ys ! k = zs ! h" using 3 by (simp add: yk wk h_def)
      moreover have "g \<le> h" "h < length xs" using 3 tt(1) t b unfolding h_def by linarith+
      ultimately show ?thesis using len by (intro zp [of "h"]) auto
    next
      case 4
      then have "\<not> length xs - t \<le> k" "\<not> k < s" using k(2) lg(2) tt(2) s b by linarith+
      then have "ys ! k = zs ! k" using 4 by (simp add: yk wk)
      moreover have "g \<le> k" using 4 tt(3) k(2) lg(2) b by (elim disjE) linarith+
      ultimately show ?thesis using len by (intro zp [of "k"]) auto
    qed
  qed
  ultimately show "\<exists>p\<in>set xs. (\<forall>k<lt. cmp p (ys ! k) > 0) \<and>
      (\<forall>k. lt \<le> k \<and> k < gt \<longrightarrow> ys ! k = p \<or> cmp p (ys ! k) = 0) \<and>
      (\<forall>k. gt \<le> k \<and> k < length ys \<longrightarrow> cmp p (ys ! k) < 0)" using \<open>p \<in> set xs\<close> by blast
qed

section \<open>Sorting under a total preorder\<close>

text \<open>
  The contract of a comparison function: its sign flips when the arguments are exchanged, and it is
  transitive. Elements that compare equal need not be equal.
\<close>

locale comparison =
  fixes cmp :: "'a \<Rightarrow> 'a \<Rightarrow> int"
  assumes cmp_flip: "cmp a b < 0 \<longleftrightarrow> cmp b a > 0"
    and cmp_trans: "cmp a b \<le> 0 \<Longrightarrow> cmp b c \<le> 0 \<Longrightarrow> cmp a c \<le> 0"
begin

lemma cmp_total: "cmp a b \<le> 0 \<or> cmp b a \<le> 0"
  using cmp_flip [of a b] by linarith

lemma cmp_refl: "cmp a a \<le> 0"
  using cmp_total [of a a] by simp

lemma cmp_zero_flip: "cmp a b = 0 \<longleftrightarrow> cmp b a = 0"
  using cmp_flip [of a b] cmp_flip [of b a] by linarith

lemma cmp_pos_le: "cmp a b > 0 \<Longrightarrow> cmp b a \<le> 0"
  using cmp_flip [of b a] by linarith

text \<open>All elements of a range are in order.\<close>

definition ordered_upto :: "'a list \<Rightarrow> nat \<Rightarrow> bool" where
  "ordered_upto xs m \<longleftrightarrow> (\<forall>a b. a < b \<and> b < m \<longrightarrow> cmp (xs ! a) (xs ! b) \<le> 0)"

lemma insert_down_ordered:
  "j < m \<Longrightarrow> m \<le> length xs \<Longrightarrow> (\<forall>a b. a < b \<and> b < m \<and> b \<noteq> j \<longrightarrow> cmp (xs ! a) (xs ! b) \<le> 0) \<Longrightarrow>
   ordered_upto (insert_down cmp xs j) m"
proof (induction j arbitrary: xs)
  case 0
  then show ?case by (auto simp: ordered_upto_def)
next
  case (Suc j)
  note le = Suc.prems(3) [rule_format]
  show ?case
  proof (cases "cmp (xs ! j) (xs ! Suc j) > 0")
    case True
    define ys where "ys = swap xs (Suc j) j"
    have n: "ys ! k = (if k = j then xs ! Suc j else if k = Suc j then xs ! j else xs ! k)" for k
      using Suc.prems by (simp add: ys_def nth_swap)
    have "cmp (ys ! a) (ys ! b) \<le> 0" if "a < b" "b < m" "b \<noteq> j" for a b
    proof (cases "b = Suc j")
      case b: True
      then show ?thesis using that le [of a j] cmp_pos_le [OF True] Suc.prems(1)
        by (cases "a = j") (auto simp: n)
    next
      case b: False
      define a' where "a' = (if a = j then Suc j else if a = Suc j then j else a)"
      have "a' < b" using that b by (auto simp: a'_def)
      then show ?thesis using le [of a' b] that b by (auto simp: n a'_def split: if_splits)
    qed
    then show ?thesis using Suc.IH True Suc.prems by (simp add: ys_def)
  next
    case False
    have "cmp (xs ! a) (xs ! b) \<le> 0" if "a < b" "b < m" for a b
    proof (cases "b = Suc j \<and> a \<noteq> j")
      case True
      then have "cmp (xs ! a) (xs ! j) \<le> 0" using that le [of a j] by simp
      then show ?thesis using True False cmp_trans [of "xs ! a" "xs ! j" "xs ! b"] by simp
    next
      case o: False
      then show ?thesis using that False le [of a b] by (cases "b = Suc j") auto
    qed
    then show ?thesis using False by (simp add: ordered_upto_def)
  qed
qed

lemma insertion_sort_ordered:
  "ordered_upto xs i \<Longrightarrow> i + k \<le> length xs \<Longrightarrow> ordered_upto (insertion_sort cmp xs i k) (i + k)"
proof (induction k arbitrary: xs i)
  case (Suc k)
  have "ordered_upto (insert_down cmp xs i) (Suc i)"
    using Suc.prems by (intro insert_down_ordered) (auto simp: ordered_upto_def)
  moreover have "length (insert_down cmp xs i) = length xs"
    using Suc.prems insert_down_perm [of i xs cmp] by simp
  ultimately show ?case using Suc.IH [of "insert_down cmp xs i" "Suc i"] Suc.prems by simp
qed simp

text \<open>
  The heap property of the elements whose parent is at index \<open>m\<close> or above, and its weakening
  while the element at \<open>r\<close> is being sifted.
\<close>

definition heap_from :: "'a list \<Rightarrow> nat \<Rightarrow> nat \<Rightarrow> bool" where
  "heap_from xs m n \<longleftrightarrow> (\<forall>k. 0 < k \<and> k < n \<and> m \<le> (k - 1) div 2 \<longrightarrow> cmp (xs ! k) (xs ! ((k - 1) div 2)) \<le> 0)"

definition heap_except :: "'a list \<Rightarrow> nat \<Rightarrow> nat \<Rightarrow> nat \<Rightarrow> bool" where
  "heap_except xs m r n \<longleftrightarrow>
     (\<forall>k. 0 < k \<and> k < n \<and> m \<le> (k - 1) div 2 \<and> (k - 1) div 2 \<noteq> r \<longrightarrow>
        cmp (xs ! k) (xs ! ((k - 1) div 2)) \<le> 0) \<and>
     (\<forall>k. 0 < k \<and> k < n \<and> (k - 1) div 2 = r \<and> 0 < r \<and> m \<le> (r - 1) div 2 \<longrightarrow>
        cmp (xs ! k) (xs ! ((r - 1) div 2)) \<le> 0)"

lemma parent_cases: "0 < k \<Longrightarrow> (k - 1) div 2 = r \<longleftrightarrow> k = r * 2 + 1 \<or> k = r * 2 + 1 + (1 :: nat)"
  by (cases k) (auto simp: eq_commute [of _ r] div_nat_eqI)

lemma sift_heap:
  "heap_except xs m r n \<Longrightarrow> m \<le> r \<Longrightarrow> r < n \<Longrightarrow> n \<le> length xs \<Longrightarrow> heap_from (sift cmp xs r n) m n"
proof (induction "n - r" arbitrary: xs r rule: less_induct)
  case less
  define l where "l = r * 2 + 1"
  define c where "c = (if l < n - 1 \<and> cmp (xs ! l) (xs ! (l + 1)) \<le> 0 then l + 1 else l)"
  have e: "sift cmp xs r n = (if l < n \<and> \<not> cmp (xs ! r) (xs ! c) > 0 then sift cmp (swap xs r c) c n else xs)"
    by (subst sift.simps) (simp add: Let_def c_def l_def)
  have child: "k = l \<or> k = l + 1" if "0 < k" "(k - 1) div 2 = r" for k
    using parent_cases [OF that(1)] that(2) by (simp add: l_def)
  have big: "cmp (xs ! k) (xs ! c) \<le> 0" if "0 < k" "k < n" "(k - 1) div 2 = r" for k
    using child [OF that(1,3)] that(2) cmp_refl cmp_pos_le [of "xs ! l" "xs ! (l + 1)"] by (auto simp: c_def)
  have up: "cmp (xs ! k) (xs ! ((k - 1) div 2)) \<le> 0"
    if "0 < k" "k < n" "m \<le> (k - 1) div 2" "(k - 1) div 2 \<noteq> r" for k
    using less.prems(1) that by (simp add: heap_except_def)
  show ?case
  proof (cases "l < n \<and> \<not> cmp (xs ! r) (xs ! c) > 0")
    case False
    have "cmp (xs ! k) (xs ! ((k - 1) div 2)) \<le> 0" if k: "0 < k" "k < n" "m \<le> (k - 1) div 2" for k
    proof (cases "(k - 1) div 2 = r")
      case True
      then have "l < n" using child [OF k(1) True] k(2) by auto
      then have "cmp (xs ! c) (xs ! r) \<le> 0" using False cmp_pos_le by auto
      then show ?thesis using big [OF k(1,2) True] cmp_trans True by blast
    qed (use up k in simp)
    then show ?thesis unfolding e heap_from_def using False by auto
  next
    case True
    have c: "c < n" "r < c" "(c - 1) div 2 = r" "0 < c" using True by (auto simp: c_def l_def)
    define ys where "ys = swap xs r c"
    have n: "ys ! k = (if k = c then xs ! r else if k = r then xs ! c else xs ! k)" for k
      using c less.prems by (simp add: ys_def nth_swap)
    have "cmp (ys ! k) (ys ! ((k - 1) div 2)) \<le> 0"
      if k: "0 < k" "k < n" "m \<le> (k - 1) div 2" "(k - 1) div 2 \<noteq> c" for k
    proof (cases "(k - 1) div 2 = r")
      case p: True
      have "k \<noteq> r" using p k(1) by auto
      then show ?thesis using True p big [OF k(1,2) p] c by (auto simp: n)
    next
      case p: False
      have "k \<noteq> c" using p c by auto
      show ?thesis
      proof (cases "k = r")
        case True
        then have "cmp (xs ! c) (xs ! ((k - 1) div 2)) \<le> 0"
          using less.prems(1) c k by (auto simp: heap_except_def)
        then show ?thesis using True p k \<open>k \<noteq> c\<close> by (simp add: n)
      qed (use up [OF k(1,2,3) p] p k \<open>k \<noteq> c\<close> in \<open>simp add: n\<close>)
    qed
    moreover have "cmp (ys ! k) (ys ! ((c - 1) div 2)) \<le> 0" if k: "0 < k" "k < n" "(k - 1) div 2 = c" for k
    proof -
      have "k \<noteq> c" "k \<noteq> r" "c \<noteq> r" using k c by auto
      then show ?thesis using up [OF k(1,2)] k c less.prems(2) by (simp add: n)
    qed
    ultimately have x: "heap_except ys m c n" by (auto simp: heap_except_def)
    have "heap_from (sift cmp ys c n) m n"
      by (rule less.hyps [OF _ x]) (use c less.prems in \<open>auto simp: ys_def\<close>)
    then show ?thesis using e True by (simp add: ys_def)
  qed
qed

end

context comparison
begin

lemma heap_build_heap:
  "k \<le> length xs div 2 \<Longrightarrow> heap_from xs k (length xs) \<Longrightarrow> heap_from (heap_build cmp xs k) 0 (length xs)"
proof (induction k arbitrary: xs)
  case (Suc k)
  have "heap_except xs k k (length xs)"
    using Suc.prems(2) by (auto simp: heap_from_def heap_except_def)
  then have "heap_from (sift cmp xs k (length xs)) k (length xs)"
    using Suc.prems(1) by (intro sift_heap) auto
  moreover have "length (sift cmp xs k (length xs)) = length xs" by (simp add: sift_all)
  ultimately show ?case using Suc.IH [of "sift cmp xs k (length xs)"] Suc.prems(1) by simp
qed simp

lemma heap_root: "heap_from xs 0 n \<Longrightarrow> k < n \<Longrightarrow> cmp (xs ! k) (xs ! 0) \<le> 0"
proof (induction k rule: less_induct)
  case (less k)
  show ?case
  proof (cases "k = 0")
    case False
    then have "cmp (xs ! ((k - 1) div 2)) (xs ! 0) \<le> 0" using less by auto
    moreover have "cmp (xs ! k) (xs ! ((k - 1) div 2)) \<le> 0"
      using less.prems False by (simp add: heap_from_def)
    ultimately show ?thesis using cmp_trans by blast
  qed (simp add: cmp_refl)
qed

lemma heap_extract_sorted:
  "i < length xs \<Longrightarrow> heap_from xs 0 (Suc i) \<Longrightarrow> sorted_wrt (\<lambda>a b. cmp a b \<le> 0) (drop (Suc i) xs) \<Longrightarrow>
   (\<forall>x\<in>set (take (Suc i) xs). \<forall>y\<in>set (drop (Suc i) xs). cmp x y \<le> 0) \<Longrightarrow>
   sorted_wrt (\<lambda>a b. cmp a b \<le> 0) (heap_extract cmp xs i)"
proof (induction i arbitrary: xs)
  case 0
  then show ?case by (cases xs) auto
next
  case (Suc i)
  define ys where "ys = swap xs 0 (Suc i)"
  define zs where "zs = sift cmp ys 0 (Suc i)"
  have n: "ys ! k = (if k = Suc i then xs ! 0 else if k = 0 then xs ! Suc i else xs ! k)" for k
    using Suc.prems unfolding ys_def by (subst nth_swap) auto
  have len: "length ys = length xs" "length zs = length xs"
    using Suc.prems by (auto simp: ys_def zs_def sift_perm)
  have "heap_except ys 0 0 (Suc i)"
    using Suc.prems(2) by (auto simp: heap_except_def heap_from_def n)
  then have heap: "heap_from zs 0 (Suc i)"
    unfolding zs_def using Suc.prems(1) len by (intro sift_heap) auto
  have "drop (Suc i) zs = drop (Suc i) ys"
    using Suc.prems(1) len by (simp add: zs_def sift_perm)
  also have "\<dots> = xs ! 0 # drop (Suc (Suc i)) ys"
    using Suc.prems(1) len by (simp add: Cons_nth_drop_Suc [symmetric] n)
  finally have d: "drop (Suc i) zs = xs ! 0 # drop (Suc (Suc i)) xs" by (simp add: ys_def drop_swap)
  have "set (take (Suc i) zs) = set (take (Suc i) ys)"
    using Suc.prems(1) len by (intro mset_eq_setD) (simp add: zs_def sift_perm)
  also have "\<dots> \<subseteq> set (take (Suc (Suc i)) xs)"
  proof
    fix y assume "y \<in> set (take (Suc i) ys)"
    then obtain k where "k < Suc i" "y = ys ! k" using len Suc.prems(1) by (auto simp: in_set_conv_nth)
    then show "y \<in> set (take (Suc (Suc i)) xs)"
      using Suc.prems(1) by (auto simp: n in_set_conv_nth intro: exI [of _ "Suc i"] exI [of _ k] split: if_splits)
  qed
  finally have t: "set (take (Suc i) zs) \<subseteq> set (take (Suc (Suc i)) xs)" .
  have root: "cmp x (xs ! 0) \<le> 0" if "x \<in> set (take (Suc (Suc i)) xs)" for x
    using that heap_root [OF Suc.prems(2)] by (auto simp: in_set_conv_nth)
  have "xs ! 0 \<in> set (take (Suc (Suc i)) xs)" using Suc.prems(1) by (auto simp: in_set_conv_nth intro!: exI [of _ 0])
  then have "sorted_wrt (\<lambda>a b. cmp a b \<le> 0) (drop (Suc i) zs)"
    using Suc.prems(3,4) by (simp add: d)
  moreover have "\<forall>x\<in>set (take (Suc i) zs). \<forall>y\<in>set (drop (Suc i) zs). cmp x y \<le> 0"
    using t root Suc.prems(4) unfolding d by auto
  ultimately have "sorted_wrt (\<lambda>a b. cmp a b \<le> 0) (heap_extract cmp zs i)"
    using Suc.prems(1) heap len by (intro Suc.IH) auto
  then show ?case by (simp add: zs_def ys_def)
qed

lemma heapsortx_sorted: "sorted_wrt (\<lambda>a b. cmp a b \<le> 0) (heapsortx cmp xs)"
proof (cases "length xs > 1")
  case True
  have "heap_from xs (length xs div 2) (length xs)" by (auto simp: heap_from_def)
  then have h: "heap_from (heap_build cmp xs (length xs div 2)) 0 (length xs)" by (intro heap_build_heap) auto
  have "length (heap_build cmp xs (length xs div 2)) = length xs" by (simp add: heap_build_perm)
  moreover have "Suc (length xs - 1) = length xs" using True by linarith
  ultimately have "sorted_wrt (\<lambda>a b. cmp a b \<le> 0)
    (heap_extract cmp (heap_build cmp xs (length xs div 2)) (length xs - 1))"
    using True h by (intro heap_extract_sorted; simp only:) auto
  then show ?thesis using True by (simp add: heapsortx_def)
next
  case False
  then show ?thesis by (cases xs) (auto simp: heapsortx_def)
qed

text \<open>The order the partition leaves.\<close>

lemma partition_ordered:
  assumes "partition cmp xs = (ys, lt, gt)" and "4 \<le> length xs" and ab: "a < b" "b < length xs"
    and "\<not> b < lt" and "\<not> gt \<le> a"
  shows "cmp (ys ! a) (ys ! b) \<le> 0"
proof -
  have len: "length ys = length xs" by (rule partition_parts [OF assms(1,2)])
  obtain p where p: "\<forall>k<lt. cmp p (ys ! k) > 0" "\<forall>k. lt \<le> k \<and> k < gt \<longrightarrow> ys ! k = p \<or> cmp p (ys ! k) = 0"
    "\<forall>k. gt \<le> k \<and> k < length ys \<longrightarrow> cmp p (ys ! k) < 0"
    using partition_parts(5) [OF assms(1,2)] by blast
  have "cmp (ys ! a) p \<le> 0"
    using p(1,2) assms(6) cmp_pos_le cmp_refl cmp_zero_flip by (metis linorder_not_le order_refl)
  moreover have "cmp p (ys ! b) \<le> 0"
    using p(2,3) assms(5) ab len cmp_refl by (metis less_imp_le linorder_not_le)
  ultimately show ?thesis by (rule cmp_trans)
qed

end

section \<open>The main loop\<close>

text \<open>
  The invariant of the pending segments for any comparison: they lie in the array, do not overlap,
  and their depths are at most 50, strictly decrease down the stack and are positive there.
\<close>

fun apart :: "segment \<Rightarrow> segment \<Rightarrow> bool" where
  "apart (p, n, d) (q, m, e) \<longleftrightarrow> p + n \<le> q \<or> q + m \<le> p"

fun pending_ok :: "nat \<Rightarrow> segment list \<Rightarrow> bool" where
  "pending_ok len [] \<longleftrightarrow> True"
| "pending_ok len (s # stk) \<longleftrightarrow>
     (\<forall>(q, m, e)\<in>set (s # stk). q + m \<le> len) \<and> sorted_wrt apart (s # stk) \<and>
     snd (snd s) \<le> 50 \<and> sorted_wrt (\<lambda>d e. e < d) (map (snd \<circ> snd) stk) \<and>
     (\<forall>(q, m, e)\<in>set stk. 1 \<le> e \<and> e \<le> snd (snd s))"

definition pending_size :: "segment list \<Rightarrow> nat" where
  "pending_size stk = sum_list (map (\<lambda>(p, n, d). 2 * n + 1) stk)"

lemma length_splice [simp]: "p + length ys \<le> length xs \<Longrightarrow> length (splice xs p ys) = length xs"
  by (simp add: splice_def)

lemma nth_splice:
  "p + length ys \<le> length xs \<Longrightarrow>
   splice xs p ys ! k = (if p \<le> k \<and> k < p + length ys then ys ! (k - p) else xs ! k)"
  by (auto simp: splice_def nth_append)

lemma mset_splice:
  assumes "p + n \<le> length xs" and "mset ys = mset (take n (drop p xs))"
  shows "mset (splice xs p ys) = mset xs"
proof -
  have "length ys = n" using assms mset_eq_length [OF assms(2)] by simp
  have "mset xs = mset (take p xs) + mset (drop p xs)"
    by (metis append_take_drop_id mset_append)
  also have "mset (drop p xs) = mset (take n (drop p xs)) + mset (drop n (drop p xs))"
    by (metis append_take_drop_id mset_append)
  finally show ?thesis using assms(2) \<open>length ys = n\<close> by (simp add: splice_def add.commute)
qed

text \<open>
  What a step does to the segment at the head: it permutes it, and either finishes it or
  replaces it by the two outer parts of its partition.
\<close>

lemma rqsort_step_cases:
  assumes "p + n \<le> length xs"
  obtains
    (finish) ys where "rqsort_step cmp (xs, (p, n, d) # stk) = (splice xs p ys, stk)"
      "mset ys = mset (take n (drop p xs))"
      "ys = heapsortx cmp (take n (drop p xs)) \<or> ys = insertion_sort cmp (take n (drop p xs)) 1 (n - 1)"
  | (split) ys lt gt new where
      "rqsort_step cmp (xs, (p, n, d) # stk) = (splice xs p ys, new @ stk)" "d < 50"
      "partition cmp (take n (drop p xs)) = (ys, lt, gt)" "mset ys = mset (take n (drop p xs))"
      "6 < n" "lt < gt" "gt \<le> n"
      "new = [(p, lt, Suc d), (p + gt, n - gt, Suc d)] \<or> new = [(p + gt, n - gt, Suc d), (p, lt, Suc d)]"
proof (cases "n > 6")
  case False
  define seg where "seg = take n (drop p xs)"
  have "length seg = n" using assms by (simp add: seg_def)
  then have "mset (insertion_sort cmp seg 1 (n - 1)) = mset seg"
    using insertion_sort_perm [of 1 "n - 1" seg cmp] by (cases "n = 0") auto
  then show ?thesis using False finish [of "insertion_sort cmp seg 1 (n - 1)"]
    by (simp add: rqsort_step_def seg_def)
next
  case True
  define seg where "seg = take n (drop p xs)"
  have len: "length seg = n" using assms by (simp add: seg_def)
  show ?thesis
  proof (cases "Suc d > 50")
    case d: True
    then show ?thesis using True finish [of "heapsortx cmp seg"]
      by (simp add: rqsort_step_def seg_def heapsortx_perm)
  next
    case d: False
    obtain ys lt gt where p: "partition cmp seg = (ys, lt, gt)" by (cases "partition cmp seg")
    note b = partition_parts(2-4) [OF p] 
    show ?thesis
      by (rule split [of ys "if lt > n - gt then [(p + gt, n - gt, Suc d), (p, lt, Suc d)]
            else [(p, lt, Suc d), (p + gt, n - gt, Suc d)]" lt gt])
        (use True d p b len in \<open>auto simp: rqsort_step_def seg_def\<close>)
  qed
qed

lemma pending_ok_split:
  assumes "pending_ok len ((p, n, d) # rest)" and "d < 50" and "lt < gt" and "gt \<le> n"
  shows "pending_ok len ((p, lt, Suc d) # (p + gt, n - gt, Suc d) # rest)"
    and "pending_ok len ((p + gt, n - gt, Suc d) # (p, lt, Suc d) # rest)"
proof -
  have r: "p + n \<le> len" "\<forall>(q, m, e)\<in>set rest. q + m \<le> len" "sorted_wrt apart rest"
    "sorted_wrt (\<lambda>d e. e < d) (map (snd \<circ> snd) rest)" "\<forall>(q, m, e)\<in>set rest. 1 \<le> e \<and> e \<le> d"
    using assms(1) by auto
  have a: "apart (p, lt, Suc d) s \<and> apart (p + gt, n - gt, Suc d) s" if "s \<in> set rest" for s
  proof -
    have "apart (p, n, d) s" using assms(1) that by auto
    then show ?thesis using assms(3,4) by (cases s) auto
  qed
  have e: "\<forall>e\<in>set (map (snd \<circ> snd) rest). e < Suc d" "\<forall>(q, m, e)\<in>set rest. 1 \<le> e \<and> e \<le> Suc d"
    using r(5) by fastforce+
  show "pending_ok len ((p, lt, Suc d) # (p + gt, n - gt, Suc d) # rest)"
    "pending_ok len ((p + gt, n - gt, Suc d) # (p, lt, Suc d) # rest)"
    using r(1-4) a e assms(2-4) by simp_all
qed

lemma rqsort_step_ok:
  assumes "pending_ok (length xs) stk" and "stk \<noteq> []" and "rqsort_step cmp (xs, stk) = (ys, stk')"
  shows "length ys = length xs" "mset ys = mset xs" "pending_ok (length xs) stk'"
    "pending_size stk' < pending_size stk"
proof -
  obtain p n d rest where stk: "stk = (p, n, d) # rest" using assms(2) by (cases stk) auto
  then have b: "p + n \<le> length xs" using assms(1) by simp
  have len: "length zs = n" if "mset zs = mset (take n (drop p xs))" for zs
    using mset_eq_length [OF that] b by simp
  have rest: "pending_ok (length xs) rest" using assms(1) stk by (cases rest) auto
  have goal: "length ys = length xs \<and> mset ys = mset xs \<and> pending_ok (length xs) stk' \<and>
    pending_size stk' < pending_size stk"
  proof (rule rqsort_step_cases [OF b, of cmp d rest], goal_cases finish split)
    case (finish zs)
    then have "ys = splice xs p zs" "stk' = rest" using assms(3) stk by auto
    then show ?case using b rest mset_splice [OF b finish(2)] len [OF finish(2)]
      by (simp add: pending_size_def stk)
  next
    case (split zs lt gt new)
    then have e: "ys = splice xs p zs" "stk' = new @ rest" using assms(3) stk by auto
    have "pending_ok (length xs) (new @ rest)"
      using pending_ok_split [OF assms(1) [unfolded stk] split(2,6,7)] split(8) by auto
    moreover have "pending_size new < 2 * n + 1" using split(5-8) by (auto simp: pending_size_def)
    ultimately show ?case using b mset_splice [OF b split(4)] len [OF split(4)]
      by (simp add: pending_size_def e stk)
  qed
  then show "length ys = length xs" "mset ys = mset xs" "pending_ok (length xs) stk'"
    "pending_size stk' < pending_size stk" by auto
qed

lemma pending_ok_init: "fst (rqsort_init xs) = xs" "pending_ok (length xs) (snd (rqsort_init xs))"
  by (simp_all add: rqsort_init_def)

lemma sorted_depths_bound:
  "sorted_wrt (\<lambda>d e. e < d) ds \<Longrightarrow> (\<forall>d\<in>set ds. 1 \<le> d \<and> d \<le> (m :: nat)) \<Longrightarrow> length ds \<le> m"
proof (induction ds arbitrary: m)
  case (Cons d ds)
  then have "length ds \<le> d - 1" by (intro Cons.IH) auto
  then show ?case using Cons.prems by auto
qed simp

lemma pending_ok_length: "pending_ok len stk \<Longrightarrow> length (tl stk) \<le> 50"
proof (cases stk)
  case (Cons s rest)
  assume ok: "pending_ok len stk"
  have "length (map (snd \<circ> snd) rest) \<le> 50"
    using ok Cons by (intro sorted_depths_bound) (fastforce simp: case_prod_unfold)+
  then show ?thesis using Cons by simp
qed simp

context comparison
begin

text \<open>Elements are in order except inside a pending segment.\<close>

definition ordered_except :: "'a list \<Rightarrow> segment list \<Rightarrow> bool" where
  "ordered_except xs stk \<longleftrightarrow>
     (\<forall>a b. a < b \<and> b < length xs \<longrightarrow>
        cmp (xs ! a) (xs ! b) \<le> 0 \<or> (\<exists>(p, n, d)\<in>set stk. p \<le> a \<and> b < p + n))"

lemma ordered_except_splice:
  assumes ord: "ordered_except xs ((p, n, d) # stk)" and ok: "pending_ok (length xs) ((p, n, d) # stk)"
    and ys: "mset ys = mset (take n (drop p xs))"
    and inner: "\<And>a b. a < b \<Longrightarrow> b < n \<Longrightarrow>
      cmp (ys ! a) (ys ! b) \<le> 0 \<or> (\<exists>(q, m, e)\<in>set new. q \<le> p + a \<and> p + b < q + m)"
  shows "ordered_except (splice xs p ys) (new @ stk)"
  unfolding ordered_except_def
proof (intro allI impI)
  fix a b assume ab: "a < b \<and> b < length (splice xs p ys)"
  have n: "p + n \<le> length xs" using ok by simp
  have len: "length ys = n" using mset_eq_length [OF ys] n by simp
  have len': "length (splice xs p ys) = length xs" using n len by simp
  have z: "splice xs p ys ! k = (if p \<le> k \<and> k < p + n then ys ! (k - p) else xs ! k)" for k
    using n by (simp add: nth_splice len)
  have src: "\<exists>k'. (p \<le> k \<and> k < p + n \<longleftrightarrow> p \<le> k' \<and> k' < p + n) \<and> (\<not> (p \<le> k \<and> k < p + n) \<longrightarrow> k' = k) \<and>
    splice xs p ys ! k = xs ! k'" for k
  proof (cases "p \<le> k \<and> k < p + n")
    case True
    then have "k - p < length ys" unfolding len by linarith
    then have "ys ! (k - p) \<in> set (take n (drop p xs))"
      unfolding mset_eq_setD [OF ys, symmetric] by (rule nth_mem)
    then obtain i where "i < n" "ys ! (k - p) = xs ! (p + i)" using n by (auto simp: in_set_conv_nth)
    then show ?thesis using True z by (intro exI [of _ "p + i"]) auto
  qed (use z in auto)
  show "cmp (splice xs p ys ! a) (splice xs p ys ! b) \<le> 0 \<or>
    (\<exists>(q, m, e)\<in>set (new @ stk). q \<le> a \<and> b < q + m)"
  proof (cases "p \<le> a \<and> b < p + n")
    case True
    then show ?thesis using inner [of "a - p" "b - p"] ab by (auto simp: z)
  next
    case False
    obtain a' where a': "p \<le> a \<and> a < p + n \<longleftrightarrow> p \<le> a' \<and> a' < p + n"
      "\<not> (p \<le> a \<and> a < p + n) \<longrightarrow> a' = a" "splice xs p ys ! a = xs ! a'"
      using src [of a] by (elim exE conjE)
    obtain b' where b': "p \<le> b \<and> b < p + n \<longleftrightarrow> p \<le> b' \<and> b' < p + n"
      "\<not> (p \<le> b \<and> b < p + n) \<longrightarrow> b' = b" "splice xs p ys ! b = xs ! b'"
      using src [of b] by (elim exE conjE)
    have lt: "a' < b'" "b' < length xs" "\<not> (p \<le> a' \<and> b' < p + n)"
    proof -
      consider "p \<le> a" "a < p + n" "p + n \<le> b" | "a < p" "p \<le> b" "b < p + n"
        | "\<not> (p \<le> a \<and> a < p + n)" "\<not> (p \<le> b \<and> b < p + n)"
        using ab False by linarith
      then have "a' < b' \<and> b' < length xs \<and> \<not> (p \<le> a' \<and> b' < p + n)"
      proof cases
        case 1
        then have "p \<le> a' \<and> a' < p + n" "b' = b" using a'(1) b'(2) by simp_all
        then show ?thesis using 1 ab len' by simp
      next
        case 2
        then have "p \<le> b' \<and> b' < p + n" "a' = a" using b'(1) a'(2) by simp_all
        then show ?thesis using 2 n by simp
      next
        case 3
        then have "a' = a" "b' = b" using a'(2) b'(2) by simp_all
        then show ?thesis using ab len' False by simp
      qed
      then show "a' < b'" "b' < length xs" "\<not> (p \<le> a' \<and> b' < p + n)" by auto
    qed
    have "cmp (xs ! a') (xs ! b') \<le> 0 \<or> (\<exists>(q, m, e)\<in>set ((p, n, d) # stk). q \<le> a' \<and> b' < q + m)"
      using ord lt(1,2) unfolding ordered_except_def by blast
    then consider "cmp (xs ! a') (xs ! b') \<le> 0" | q m e where "(q, m, e) \<in> set stk" "q \<le> a'" "b' < q + m"
      using lt(3) by auto
    then show ?thesis
    proof cases
      case 1
      then show ?thesis by (simp add: a'(3) b'(3))
    next
      case 2
      have "apart (p, n, d) (q, m, e)" using ok 2(1) by auto
      then have "p + n \<le> q \<or> q + m \<le> p" by simp
      then have "\<not> (p \<le> a' \<and> a' < p + n)" "\<not> (p \<le> b' \<and> b' < p + n)" using 2(2,3) lt(1) by linarith+
      then have "a' = a" "b' = b" using a'(1,2) b'(1,2) by blast+
      then show ?thesis using 2 by (intro disjI2 bexI [of _ "(q, m, e)"]) auto
    qed
  qed
qed

lemma insertion_sort_all: "ordered_upto (insertion_sort cmp xs 1 (length xs - 1)) (length xs)"
  using insertion_sort_ordered [of xs 1 "length xs - 1"]
  by (cases xs) (auto simp: ordered_upto_def)

lemma rqsort_step_ordered:
  assumes "ordered_except xs stk" and ok: "pending_ok (length xs) stk" and "stk \<noteq> []"
    and "rqsort_step cmp (xs, stk) = (ys, stk')"
  shows "ordered_except ys stk'"
proof -
  obtain p n d rest where stk: "stk = (p, n, d) # rest" using assms(3) by (cases stk) auto
  then have b: "p + n \<le> length xs" using ok by simp
  define seg where "seg = take n (drop p xs)"
  have len: "length seg = n" using b by (simp add: seg_def)
  note splice = ordered_except_splice [OF assms(1) [unfolded stk] ok [unfolded stk]]
  show ?thesis
  proof (rule rqsort_step_cases [OF b, of cmp d rest], goal_cases finish split)
    case (finish zs)
    have "cmp (zs ! a) (zs ! b) \<le> 0" if "a < b" "b < n" for a b
    proof -
      have "length zs = n" using mset_eq_length [OF finish(2)] b by simp
      then show ?thesis
        using finish(3) that heapsortx_sorted [of seg] insertion_sort_all [of seg] len
        unfolding seg_def [symmetric] by (auto simp: sorted_wrt_iff_nth_less ordered_upto_def)
    qed
    then have "ordered_except (splice xs p zs) ([] @ rest)" by (intro splice [OF finish(2)]) auto
    then show ?case using finish(1) assms(4) stk by simp
  next
    case (split zs lt gt new)
    have "cmp (zs ! a) (zs ! b) \<le> 0 \<or> (\<exists>(q, m, e)\<in>set new. q \<le> p + a \<and> p + b < q + m)"
      if "a < b" "b < n" for a b
    proof (cases "b < lt \<or> gt \<le> a")
      case True
      then show ?thesis using split(8) that by auto
    next
      case False
      then show ?thesis using split(3,5) that len partition_ordered [of seg zs lt gt a b]
        by (auto simp: seg_def)
    qed
    then have "ordered_except (splice xs p zs) (new @ rest)" by (intro splice [OF split(4)])
    then show ?case using split(1) assms(4) stk by simp
  qed
qed

end

lemma rqsort_runs:
  assumes "\<And>xs stk ys stk'. Q xs stk \<Longrightarrow> pending_ok (length xs) stk \<Longrightarrow> stk \<noteq> [] \<Longrightarrow>
      rqsort_step cmp (xs, stk) = (ys, stk') \<Longrightarrow> Q ys stk'"
    and "Q xs (snd (rqsort_init xs))"
  shows "\<exists>ys. rqsort cmp xs = Some ys \<and> mset ys = mset xs \<and> Q ys []"
proof -
  define P where "P = (\<lambda>(ys, stk). length ys = length xs \<and> mset ys = mset xs \<and>
    pending_ok (length xs) stk \<and> Q ys stk)"
  have step: "P (rqsort_step cmp st) \<and> pending_size (snd (rqsort_step cmp st)) < pending_size (snd st)"
    if st: "P st" "snd st \<noteq> []" for st
  proof -
    obtain ys stk where e: "st = (ys, stk)" by (cases st)
    obtain zs stk' where z: "rqsort_step cmp (ys, stk) = (zs, stk')" by (cases "rqsort_step cmp (ys, stk)")
    have ok: "length ys = length xs" "mset ys = mset xs" "pending_ok (length ys) stk" "Q ys stk" "stk \<noteq> []"
      using st by (auto simp: P_def e)
    note s = rqsort_step_ok [OF ok(3,5) z] and q = assms(1) [OF ok(4,3,5) z]
    show ?thesis using s q ok(1,2) by (simp add: e z P_def)
  qed
  have init: "P (rqsort_init xs)" using assms(2) by (simp add: P_def rqsort_init_def)
  obtain t where t: "while_option (\<lambda>st. snd st \<noteq> []) (rqsort_step cmp) (rqsort_init xs) = Some t"
    using measure_while_option_Some [where P = P and b = "\<lambda>st. snd st \<noteq> []" and c = "rqsort_step cmp"
      and f = "\<lambda>st. pending_size (snd st)", OF step init] by metis
  have "P t" by (rule while_option_rule [OF conjunct1 [OF step] t init])
  moreover have "snd t = []" using while_option_stop [OF t] by simp
  ultimately show ?thesis using t by (cases t) (simp add: rqsort_def P_def)
qed

context comparison
begin

lemma rqsort_sorted:
  "\<exists>ys. rqsort cmp xs = Some ys \<and> mset ys = mset xs \<and> sorted_wrt (\<lambda>a b. cmp a b \<le> 0) ys"
proof -
  have "\<exists>ys. rqsort cmp xs = Some ys \<and> mset ys = mset xs \<and> ordered_except ys []"
    using rqsort_step_ordered by (intro rqsort_runs) (auto simp: ordered_except_def rqsort_init_def)
  then show ?thesis by (auto simp: ordered_except_def sorted_wrt_iff_nth_less)
qed

end

text \<open>C14: sorting with a consistent comparison returns, and the result is the same elements in order.
\<close>

theorem rqsort_correct:
  assumes "comparison cmp"
  shows "\<exists>ys. rqsort cmp xs = Some ys \<and> mset ys = mset xs \<and> sorted_wrt (\<lambda>a b. cmp a b \<le> 0) ys"
  by (rule comparison.rqsort_sorted [OF assms])

theorem rqsort_correct_witness:
  "\<exists>ys. rqsort (\<lambda>a b. a - b) [3, 1, 2 :: int] = Some ys \<and> mset ys = mset [3, 1, 2] \<and>
    sorted_wrt (\<lambda>a b. a - b \<le> 0) ys"
  by (rule rqsort_correct) (unfold_locales, auto)

text \<open>C15: with any comparison at all, for example an inconsistent one supplied by a script, sorting
  returns and the result is a permutation of the input.
\<close>

theorem rqsort_permutes: "\<exists>ys. rqsort cmp xs = Some ys \<and> mset ys = mset xs"
  using rqsort_runs [of "\<lambda>_ _. True"] by simp

lemma rqsort_reach_ok:
  "case (rqsort_step cmp ^^ k) (rqsort_init xs) of
     (ys, stk) \<Rightarrow> length ys = length xs \<and> pending_ok (length xs) stk"
proof (induction k)
  case 0
  show ?case by (simp add: rqsort_init_def)
next
  case (Suc k)
  obtain ys stk where st: "(rqsort_step cmp ^^ k) (rqsort_init xs) = (ys, stk)"
    by (cases "(rqsort_step cmp ^^ k) (rqsort_init xs)")
  obtain zs stk' where z: "rqsort_step cmp (ys, stk) = (zs, stk')" by (cases "rqsort_step cmp (ys, stk)")
  have ok: "length ys = length xs" "pending_ok (length ys) stk" using Suc st by auto
  show ?case
  proof (cases "stk = []")
    case True
    then have "zs = ys" "stk' = []" using z by (auto simp: rqsort_step_def)
    then show ?thesis using st z ok by simp
  next
    case False
    show ?thesis using rqsort_step_ok [OF ok(2) False z] ok st z by simp
  qed
qed

text \<open>C16: whatever the comparison answers, the local stack never holds more than its 50 entries, and the
  current and the stacked segments lie inside the array.
\<close>

theorem rqsort_stack_bound:
  "case (rqsort_step cmp ^^ k) (rqsort_init xs) of
     (ys, stk) \<Rightarrow> length (tl stk) \<le> 50 \<and> list_all (\<lambda>(p, n, d). p + n \<le> length ys) stk"
proof -
  obtain ys stk where st: "(rqsort_step cmp ^^ k) (rqsort_init xs) = (ys, stk)"
    by (cases "(rqsort_step cmp ^^ k) (rqsort_init xs)")
  then have ok: "length ys = length xs" "pending_ok (length xs) stk" using rqsort_reach_ok [where k = k and cmp = cmp and xs = xs] by auto
  moreover have "list_all (\<lambda>(p, n, d). p + n \<le> length xs) stk" using ok(2) by (cases stk) (auto simp: list_all_iff)
  ultimately show ?thesis using st pending_ok_length by simp
qed

end
