(* ===== verification/Char_Range.thy ===== *)
theory Char_Range
  imports Prelude Rqsort
begin

text \<open>
  Sets of code points as in \<open>src/qjs/libunicode.c\<close> and \<open>libunicode.h\<close> (\<open>CharRange\<close>): the points where
  membership changes, in increasing order. The operations of the code (\<open>cr_add_point\<close>, \<open>cr_op\<close>,
  \<open>cr_compress\<close>, \<open>cr_union1\<close>, \<open>cr_invert\<close>, \<open>cr_sort_and_remove_overlap\<close>) run with
  an allocator that may fail at any call. Membership of \<open>v\<close> means that an odd number of points is at
  most \<open>v\<close>; each operation is the set operation, and its result is the unique representation of its set.
\<close>

section \<open>The data\<close>

text \<open>
  \<open>len\<close> is the length of \<open>points\<close>; \<open>size\<close> is the capacity, and \<open>points\<close> is \<open>NULL\<close> when it is 0.
\<close>

record char_range =
  points :: "u32 list"
  size_of :: nat

datatype cr_op_enum = CR_OP_UNION | CR_OP_INTER | CR_OP_XOR

text \<open>An operation that updates a range in place: whether it succeeded, the range and the allocator.\<close>

type_synonym cr_result = "bool \<times> char_range \<times> mem"

definition cr_init :: char_range where
  "cr_init = \<lparr>points = [], size_of = 0\<rparr>"

definition cr_free :: "char_range \<Rightarrow> mem \<Rightarrow> mem" where
  "cr_free cr s = (if size_of cr = 0 then s else snd (js_free s))"

definition cr_realloc :: "char_range \<Rightarrow> nat \<Rightarrow> mem \<Rightarrow> cr_result" where
  "cr_realloc cr n s =
     (if n > size_of cr
      then (let new_size = max n (size_of cr * 3 div 2)
            in case (if size_of cr = 0 then js_malloc s else js_realloc s) of
                 (Inl _, s') \<Rightarrow> (False, cr, s')
               | (Inr _, s') \<Rightarrow> (True, cr\<lparr>size_of := new_size\<rparr>, s'))
      else (True, cr, s))"

text \<open>Go on after success, stop after a failure.\<close>

definition on_ok :: "cr_result \<Rightarrow> (char_range \<Rightarrow> mem \<Rightarrow> cr_result) \<Rightarrow> cr_result" where
  "on_ok r f = (case r of (ok, cr, s) \<Rightarrow> (if ok then f cr s else (False, cr, s)))"

definition cr_add_point :: "char_range \<Rightarrow> u32 \<Rightarrow> mem \<Rightarrow> cr_result" where
  "cr_add_point cr v s =
     on_ok (if length (points cr) \<ge> size_of cr then cr_realloc cr (length (points cr) + 1) s else (True, cr, s))
       (\<lambda>cr s. (True, cr\<lparr>points := points cr @ [v]\<rparr>, s))"

definition cr_add_interval :: "char_range \<Rightarrow> u32 \<Rightarrow> u32 \<Rightarrow> mem \<Rightarrow> cr_result" where
  "cr_add_interval cr c1 c2 s =
     on_ok (if length (points cr) + 2 > size_of cr then cr_realloc cr (length (points cr) + 2) s else (True, cr, s))
       (\<lambda>cr s. (True, cr\<lparr>points := points cr @ [c1, c2]\<rparr>, s))"

definition cr_copy :: "char_range \<Rightarrow> char_range \<Rightarrow> mem \<Rightarrow> cr_result" where
  "cr_copy cr cr1 s =
     on_ok (cr_realloc cr (length (points cr1)) s) (\<lambda>cr s. (True, cr\<lparr>points := points cr1\<rparr>, s))"

text \<open>
  \<open>cr_compress\<close>: the inner loop returns the last \<open>j\<close>; the outer loop returns the points written to
  \<open>pt[0..k)\<close>, which are never read again because \<open>k \<le> i\<close>.
\<close>

function merge_end :: "u32 list \<Rightarrow> nat \<Rightarrow> nat" where
  "merge_end pt j = (if j + 3 < length pt \<and> pt ! (j + 1) = pt ! (j + 2) then merge_end pt (j + 2) else j)"
  by auto
termination by (relation "measure (\<lambda>(pt, j). length pt - j)") auto

declare merge_end.simps [simp del]

lemma merge_end_ge: "j \<le> merge_end pt j"
proof (induction pt j rule: merge_end.induct)
  case (1 pt j)
  then show ?case by (subst merge_end.simps) auto
qed

function compress_loop :: "u32 list \<Rightarrow> nat \<Rightarrow> u32 list" where
  "compress_loop pt i =
     (if i + 1 < length pt
      then (if pt ! i = pt ! (i + 1) then compress_loop pt (i + 2)
            else pt ! i # pt ! (merge_end pt i + 1) # compress_loop pt (merge_end pt i + 2))
      else [])"
  by auto
termination
proof (relation "measure (\<lambda>(pt, i). length pt - i)", goal_cases)
  case (3 pt i)
  then show ?case using merge_end_ge [of i pt] by simp
qed auto

declare compress_loop.simps [simp del]

definition cr_compress :: "char_range \<Rightarrow> char_range" where
  "cr_compress cr = cr\<lparr>points := compress_loop (points cr) 0\<rparr>"

text \<open>\<open>cr_op\<close>: the status that the two positions give, and the loop over both point lists.\<close>

fun is_in :: "cr_op_enum \<Rightarrow> nat \<Rightarrow> nat \<Rightarrow> bool" where
  "is_in CR_OP_UNION a_idx b_idx \<longleftrightarrow> odd a_idx \<or> odd b_idx"
| "is_in CR_OP_INTER a_idx b_idx \<longleftrightarrow> odd a_idx \<and> odd b_idx"
| "is_in CR_OP_XOR a_idx b_idx \<longleftrightarrow> odd a_idx \<noteq> odd b_idx"

definition next_point :: "u32 list \<Rightarrow> nat \<Rightarrow> u32 list \<Rightarrow> nat \<Rightarrow> (u32 \<times> nat \<times> nat) option" where
  "next_point a_pt a_idx b_pt b_idx =
     (if a_idx < length a_pt \<and> b_idx < length b_pt
      then (if a_pt ! a_idx < b_pt ! b_idx then Some (a_pt ! a_idx, a_idx + 1, b_idx)
            else if a_pt ! a_idx = b_pt ! b_idx then Some (a_pt ! a_idx, a_idx + 1, b_idx + 1)
            else Some (b_pt ! b_idx, a_idx, b_idx + 1))
      else if a_idx < length a_pt then Some (a_pt ! a_idx, a_idx + 1, b_idx)
      else if b_idx < length b_pt then Some (b_pt ! b_idx, a_idx, b_idx + 1)
      else None)"

function op_loop ::
  "cr_op_enum \<Rightarrow> u32 list \<Rightarrow> nat \<Rightarrow> u32 list \<Rightarrow> nat \<Rightarrow> char_range \<Rightarrow> mem \<Rightarrow> cr_result" where
  "op_loop op a_pt a_idx b_pt b_idx cr s =
     (case next_point a_pt a_idx b_pt b_idx of
        None \<Rightarrow> (True, cr, s)
      | Some (v, a_idx', b_idx') \<Rightarrow>
          (if is_in op a_idx' b_idx' \<noteq> odd (length (points cr))
           then on_ok (cr_add_point cr v s) (\<lambda>cr s. op_loop op a_pt a_idx' b_pt b_idx' cr s)
           else op_loop op a_pt a_idx' b_pt b_idx' cr s))"
  by auto
termination
  by (relation "measure (\<lambda>(op, a, i, b, j, cr, s). (length a - i) + (length b - j))")
    (auto simp: next_point_def split: if_splits)

declare op_loop.simps [simp del]

definition cr_op :: "char_range \<Rightarrow> u32 list \<Rightarrow> u32 list \<Rightarrow> cr_op_enum \<Rightarrow> mem \<Rightarrow> cr_result" where
  "cr_op cr a_pt b_pt op s = on_ok (op_loop op a_pt 0 b_pt 0 cr s) (\<lambda>cr s. (True, cr_compress cr, s))"

definition cr_union1 :: "char_range \<Rightarrow> u32 list \<Rightarrow> mem \<Rightarrow> cr_result" where
  "cr_union1 cr b_pt s =
     (case cr_op cr_init (points cr) b_pt CR_OP_UNION s of (ok, cr', s') \<Rightarrow> (ok, cr', cr_free cr s'))"

definition cr_union_interval :: "char_range \<Rightarrow> u32 \<Rightarrow> u32 \<Rightarrow> mem \<Rightarrow> cr_result" where
  "cr_union_interval cr c1 c2 s = cr_union1 cr [c1, c2 + 1] s"

definition UINT32_MAX :: u32 where
  "UINT32_MAX = 0xFFFFFFFF"

definition cr_invert :: "char_range \<Rightarrow> mem \<Rightarrow> cr_result" where
  "cr_invert cr s =
     on_ok (cr_realloc cr (length (points cr) + 2) s)
       (\<lambda>cr s. (True, cr_compress (cr\<lparr>points := [0] @ points cr @ [UINT32_MAX]\<rparr>), s))"

section \<open>Membership and the canonical representation\<close>

definition count_upto :: "u32 list \<Rightarrow> u32 \<Rightarrow> nat" where
  "count_upto pts v = length (filter (\<lambda>p. p \<le> v) pts)"

definition cr_mem :: "u32 list \<Rightarrow> u32 \<Rightarrow> bool" where
  "cr_mem pts v \<longleftrightarrow> odd (count_upto pts v)"

definition canonical :: "u32 list \<Rightarrow> bool" where
  "canonical pts \<longleftrightarrow> sorted_wrt (<) pts \<and> even (length pts)"

lemma count_upto_simps [simp]:
  "count_upto [] v = 0"
  "count_upto (p # pts) v = of_bool (p \<le> v) + count_upto pts v"
  "count_upto (xs @ ys) v = count_upto xs v + count_upto ys v"
  by (simp_all add: count_upto_def)

lemma count_upto_all: "(\<And>p. p \<in> set pts \<Longrightarrow> p \<le> v) \<Longrightarrow> count_upto pts v = length pts"
  by (simp add: count_upto_def filter_id_conv)

lemma count_upto_none: "(\<And>p. p \<in> set pts \<Longrightarrow> v < p) \<Longrightarrow> count_upto pts v = 0"
  by (force simp: count_upto_def filter_empty_conv)

lemma le_UINT32_MAX [simp]: "(v :: u32) \<le> UINT32_MAX"
  using unat_lt_u32 [of v] by (simp add: UINT32_MAX_def word_le_nat_alt)

lemma count_upto_max [simp]: "count_upto pts UINT32_MAX = length pts"
  by (rule count_upto_all) simp

lemma sorted_imp_le: "sorted_wrt (<) pts \<Longrightarrow> sorted (pts :: u32 list)"
  by (simp add: strict_sorted_iff)

text \<open>Two strictly increasing lists of points with the same members are equal.\<close>

lemma cr_mem_unique:
  "sorted_wrt (<) xs \<Longrightarrow> sorted_wrt (<) ys \<Longrightarrow> (\<And>v. cr_mem xs v = cr_mem ys v) \<Longrightarrow> xs = ys"
proof (induction xs arbitrary: ys)
  case Nil
  show ?case
  proof (cases ys)
    case (Cons y ys')
    then have "cr_mem ys y" using Nil.prems(2) by (simp add: cr_mem_def count_upto_none)
    then show ?thesis using Nil.prems(3) [of y] by (simp add: cr_mem_def)
  qed simp
next
  case (Cons x xs)
  have first: "cr_mem (z # zs) z" "v < z \<Longrightarrow> \<not> cr_mem (z # zs) v" if "sorted_wrt (<) (z # zs)" for z zs v
  proof -
    show "cr_mem (z # zs) z" using that by (simp add: cr_mem_def count_upto_none)
    assume "v < z"
    moreover from this have "count_upto zs v = 0" using that by (intro count_upto_none) (auto intro: less_trans)
    ultimately show "\<not> cr_mem (z # zs) v" by (simp add: cr_mem_def)
  qed
  have "cr_mem ys x" using first(1) [OF Cons.prems(1)] Cons.prems(3) by blast
  then obtain y ys' where ys: "ys = y # ys'" by (cases ys) (auto simp: cr_mem_def)
  have "x = y"
  proof (rule ccontr)
    assume "x \<noteq> y"
    then consider "x < y" | "y < x" by fastforce
    then show False using Cons.prems first unfolding ys by cases metis+
  qed
  moreover have "xs = ys'"
  proof (rule Cons.IH)
    show "sorted_wrt (<) xs" "sorted_wrt (<) ys'" using Cons.prems ys by auto
    show "cr_mem xs v = cr_mem ys' v" for v
      using Cons.prems(3) [of v] \<open>x = y\<close> by (cases "y \<le> v") (simp_all add: ys cr_mem_def)
  qed
  ultimately show ?case by (simp add: ys)
qed

section \<open>Compression\<close>

lemma merge_end_spec:
  "i + 1 < length pt \<Longrightarrow>
   merge_end pt i + 1 < length pt \<and>
   (even (merge_end pt i) \<longleftrightarrow> even i) \<and>
   (merge_end pt i + 3 < length pt \<longrightarrow> pt ! (merge_end pt i + 1) \<noteq> pt ! (merge_end pt i + 2)) \<and>
   odd (count_upto (drop i pt) v) = odd (count_upto (pt ! i # drop (merge_end pt i + 1) pt) v)"
proof (induction pt i rule: merge_end.induct)
  case (1 pt j)
  have d: "drop j pt = pt ! j # drop (Suc j) pt" using "1.prems" by (simp add: Cons_nth_drop_Suc)
  show ?case
  proof (cases "j + 3 < length pt \<and> pt ! (j + 1) = pt ! (j + 2)")
    case True
    have e: "j + 2 = Suc (Suc j)" "j + 3 = Suc (Suc (Suc j))" by simp_all
    have two: "drop (j + 2) pt = pt ! (j + 2) # drop (j + 3) pt"
      using True unfolding e by (intro Cons_nth_drop_Suc [symmetric]) auto
    moreover have "drop (Suc j) pt = pt ! (j + 1) # pt ! (j + 2) # drop (j + 3) pt"
      unfolding two [symmetric] using True Cons_nth_drop_Suc [of "j + 1" pt] by simp
    ultimately show ?thesis using "1.IH" [OF True] True d by (subst (1 2 3 4 5 6) merge_end.simps) auto
  next
    case False
    then have "merge_end pt j = j" by (subst merge_end.simps) auto
    then show ?thesis using "1.prems" False d by simp
  qed
qed

lemma compress_loop_spec:
  "sorted pt \<Longrightarrow> even (length pt) \<Longrightarrow> even i \<Longrightarrow>
   canonical (compress_loop pt i) \<and> set (compress_loop pt i) \<subseteq> set (drop i pt) \<and>
   length (compress_loop pt i) \<le> length pt - i \<and>
   (\<forall>v. cr_mem (compress_loop pt i) v = cr_mem (drop i pt) v)"
proof (induction pt i rule: compress_loop.induct)
  case (1 pt i)
  show ?case
  proof (cases "i + 1 < length pt")
    case False
    then have "\<not> i < length pt" using "1.prems" by presburger
    then show ?thesis using False by (simp add: compress_loop.simps [of pt i] canonical_def)
  next
    case len: True
    have d: "drop i pt = pt ! i # pt ! (i + 1) # drop (i + 2) pt"
      using len by (simp add: Cons_nth_drop_Suc)
    show ?thesis
    proof (cases "pt ! i = pt ! (i + 1)")
      case True
      have "compress_loop pt i = compress_loop pt (i + 2)" using len True by (simp add: compress_loop.simps [of pt i])
      then show ?thesis using "1.IH"(1) [OF len True] "1.prems" d True by (auto simp: cr_mem_def)
    next
      case False
      define m where "m = merge_end pt i"
      define rest where "rest = compress_loop pt (m + 2)"
      have m: "m + 1 < length pt" "even m" "i \<le> m" "m + 3 < length pt \<Longrightarrow> pt ! (m + 1) \<noteq> pt ! (m + 2)"
        using merge_end_spec [OF len] "1.prems" merge_end_ge [of i pt] by (auto simp: m_def)
      have c: "compress_loop pt i = pt ! i # pt ! (m + 1) # rest"
        using len False by (simp add: compress_loop.simps [of pt i] m_def rest_def)
      have IH: "canonical rest" "set rest \<subseteq> set (drop (m + 2) pt)" "length rest \<le> length pt - (m + 2)"
        "\<And>v. cr_mem rest v = cr_mem (drop (m + 2) pt) v"
        using "1.IH"(2) [OF len False] "1.prems" m by (auto simp: m_def rest_def)
      have dm: "drop (m + 1) pt = pt ! (m + 1) # drop (m + 2) pt" using m(1) by (simp add: Cons_nth_drop_Suc)
      have le: "pt ! a \<le> pt ! b" if "a \<le> b" "b < length pt" for a b
        using "1.prems"(1) that by (rule sorted_nth_mono)
      have "pt ! i \<le> pt ! (i + 1)" "pt ! (i + 1) \<le> pt ! (m + 1)" using le len m by auto
      then have first: "pt ! i < pt ! (m + 1)" using False by simp
      have later: "pt ! (m + 1) < x" if "x \<in> set (drop (m + 2) pt)" for x
      proof -
        obtain h where "h < length pt - (m + 2)" "x = pt ! (m + 2 + h)"
          using \<open>x \<in> set (drop (m + 2) pt)\<close> by (auto simp: in_set_conv_nth)
        then obtain k where k: "m + 2 \<le> k" "k < length pt" "x = pt ! k" by (intro that [of "m + 2 + h"]) auto
        then have "m + 3 < length pt" using "1.prems"(2) m(2) by presburger
        then have "pt ! (m + 1) < pt ! (m + 2)" using m(4) le [of "m + 1" "m + 2"] by auto
        then show ?thesis using le [of "m + 2" k] k by auto
      qed
      have "set (drop (m + 2) pt) \<subseteq> set (drop (i + 2) pt)" using m(3) by (intro set_drop_subset_set_drop) simp
      moreover have "pt ! (m + 1) \<in> set (drop i pt)"
        using m by (auto simp: in_set_conv_nth intro: exI [of _ "m + 1 - i"])
      ultimately have "set (compress_loop pt i) \<subseteq> set (drop i pt)" using c d IH(2) by auto
      moreover have "canonical (compress_loop pt i)"
        using IH(1,2) first later unfolding c by (auto simp: canonical_def intro: less_trans)
      moreover have "cr_mem (compress_loop pt i) v = cr_mem (drop i pt) v" for v
        using merge_end_spec [OF len, of v] IH(4) [of v] unfolding c cr_mem_def m_def [symmetric] dm by auto
      ultimately show ?thesis using IH(3) m by (simp add: c)
    qed
  qed
qed

lemma cr_compress_spec:
  assumes "sorted (points cr)" and "even (length (points cr))"
  shows "canonical (points (cr_compress cr))" "cr_mem (points (cr_compress cr)) v = cr_mem (points cr) v"
    "length (points (cr_compress cr)) \<le> length (points cr)" "size_of (cr_compress cr) = size_of cr"
  using compress_loop_spec [OF assms, of 0] by (simp_all add: cr_compress_def)

section \<open>The allocation contract\<close>

text \<open>
  \<open>cr_done cr s Q r\<close>: started on \<open>cr\<close> in the allocator state \<open>s\<close>, the result \<open>r\<close> fails only if an
  allocation may fail, keeps count of the block of the range, stays within the capacity and has points
  in \<open>Q\<close> when it succeeds.
\<close>

definition owned :: "char_range \<Rightarrow> int" where
  "owned cr = of_bool (size_of cr \<noteq> 0)"

definition in_capacity :: "char_range \<Rightarrow> bool" where
  "in_capacity cr \<longleftrightarrow> length (points cr) \<le> size_of cr"

definition cr_done :: "char_range \<Rightarrow> mem \<Rightarrow> (u32 list \<Rightarrow> bool) \<Rightarrow> cr_result \<Rightarrow> bool" where
  "cr_done cr s Q r \<longleftrightarrow> (case r of (ok, cr', s') \<Rightarrow>
     (mem_outcomes s = [] \<longrightarrow> ok \<and> mem_outcomes s' = []) \<and>
     mem_live s' - owned cr' = mem_live s - owned cr \<and> in_capacity cr' \<and> (ok \<longrightarrow> Q (points cr')))"

lemma cr_done_return: "in_capacity cr' \<Longrightarrow> owned cr' = owned cr \<Longrightarrow> Q (points cr') \<Longrightarrow> cr_done cr s Q (True, cr', s)"
  by (simp add: cr_done_def)

lemma cr_done_on_ok:
  assumes "cr_done cr s Q r"
    and "\<And>cr' s'. in_capacity cr' \<Longrightarrow> Q (points cr') \<Longrightarrow> cr_done cr' s' R (f cr' s')"
  shows "cr_done cr s R (on_ok r f)"
proof -
  obtain ok cr' s' where r: "r = (ok, cr', s')" by (cases r)
  show ?thesis
  proof (cases ok)
    case True
    have "in_capacity cr'" "Q (points cr')" using assms(1) r True by (auto simp: cr_done_def)
    then have f: "cr_done cr' s' R (f cr' s')" by (rule assms(2))
    obtain ok2 cr2 s2 where "f cr' s' = (ok2, cr2, s2)" by (cases "f cr' s'")
    then show ?thesis using f assms(1) True by (simp add: r cr_done_def on_ok_def)
  next
    case False
    then show ?thesis using assms(1) by (simp add: r cr_done_def on_ok_def)
  qed
qed

lemma cr_done_weaken: "cr_done cr s Q r \<Longrightarrow> (\<And>p. Q p \<Longrightarrow> R p) \<Longrightarrow> cr_done cr s R r"
  by (auto simp: cr_done_def)

text \<open>After \<open>cr_realloc\<close> the capacity is at least the one asked for.\<close>

lemma cr_realloc_cases:
  assumes "in_capacity cr" and "cr_realloc cr n s = (ok, cr', s')"
  shows "points cr' = points cr" "in_capacity cr'" "ok \<Longrightarrow> n \<le> size_of cr'"
    "mem_outcomes s = [] \<Longrightarrow> ok \<and> mem_outcomes s' = []"
    "mem_live s' - owned cr' = mem_live s - owned cr"
  using assms
  by (auto simp: cr_realloc_def Let_def in_capacity_def owned_def js_malloc_def js_realloc_def
      split: if_splits sum.splits list.splits)

lemma cr_done_realloc:
  assumes "in_capacity cr" and "\<And>cr' s'. in_capacity cr' \<Longrightarrow> points cr' = points cr \<Longrightarrow> n \<le> size_of cr' \<Longrightarrow>
    cr_done cr' s' R (f cr' s')"
  shows "cr_done cr s R (on_ok (cr_realloc cr n s) f)"
proof -
  obtain ok cr' s' where r: "cr_realloc cr n s = (ok, cr', s')" by (cases "cr_realloc cr n s")
  note c = cr_realloc_cases [OF assms(1) r]
  show ?thesis
  proof (cases ok)
    case True
    then have f: "cr_done cr' s' R (f cr' s')" using c(1,2,3) by (intro assms(2)) auto
    obtain ok2 cr2 s2 where "f cr' s' = (ok2, cr2, s2)" by (cases "f cr' s'")
    then show ?thesis using f c(4,5) True by (simp add: r cr_done_def on_ok_def)
  next
    case False
    then show ?thesis using c by (auto simp: r cr_done_def on_ok_def)
  qed
qed

lemma cr_done_points:
  assumes "length ps \<le> size_of cr" and "Q ps"
  shows "cr_done cr s Q (True, cr\<lparr>points := ps\<rparr>, s)"
  using assms by (simp add: cr_done_def in_capacity_def owned_def)

lemma cr_add_point_done:
  assumes "in_capacity cr"
  shows "cr_done cr s (\<lambda>ps. ps = points cr @ [v]) (cr_add_point cr v s)"
proof (cases "length (points cr) \<ge> size_of cr")
  case True
  then show ?thesis unfolding cr_add_point_def using assms
    by (auto intro!: cr_done_realloc cr_done_points)
next
  case False
  then show ?thesis
    by (auto simp: cr_add_point_def on_ok_def intro!: cr_done_points)
qed

lemma cr_add_interval_done:
  assumes "in_capacity cr"
  shows "cr_done cr s (\<lambda>ps. ps = points cr @ [c1, c2]) (cr_add_interval cr c1 c2 s)"
proof (cases "length (points cr) + 2 > size_of cr")
  case True
  then show ?thesis unfolding cr_add_interval_def using assms
    by (auto intro!: cr_done_realloc cr_done_points)
next
  case False
  then show ?thesis
    by (auto simp: cr_add_interval_def on_ok_def intro!: cr_done_points)
qed

lemma cr_copy_done:
  "in_capacity cr \<Longrightarrow> cr_done cr s (\<lambda>ps. ps = points cr1) (cr_copy cr cr1 s)"
  unfolding cr_copy_def by (rule cr_done_realloc) (auto intro!: cr_done_points)

section \<open>Set operations\<close>

text \<open>
  The invariant of the loop: the points written and the points consumed are at most the points to
  come, and membership in the output is the operation on membership in the consumed prefixes.
\<close>

definition op_inv :: "cr_op_enum \<Rightarrow> u32 list \<Rightarrow> nat \<Rightarrow> u32 list \<Rightarrow> nat \<Rightarrow> u32 list \<Rightarrow> bool" where
  "op_inv op a i b j out \<longleftrightarrow>
     i \<le> length a \<and> j \<le> length b \<and> sorted out \<and>
     (\<forall>x\<in>set out \<union> set (take i a) \<union> set (take j b). \<forall>y\<in>set (drop i a) \<union> set (drop j b). x \<le> y) \<and>
     (\<forall>v. odd (count_upto out v) = is_in op (count_upto (take i a) v) (count_upto (take j b) v))"

lemma is_in_parity: "is_in op i j = is_in op i' j'" if "even i = even i'" "even j = even j'"
  using that by (cases op) auto

lemma next_point_cases:
  assumes "next_point a i b j = Some (p, i', j')" and "sorted a" and "sorted b" and "i \<le> length a" "j \<le> length b"
  shows "i' \<le> length a" "j' \<le> length b"
    "i' = i \<and> take i' a = take i a \<or> take i' a = take i a @ [p]"
    "j' = j \<and> take j' b = take j b \<or> take j' b = take j b @ [p]"
    "p \<in> set (drop i a) \<union> set (drop j b)"
    "\<forall>y\<in>set (drop i' a) \<union> set (drop j' b). p \<le> y"
    "set (drop i' a) \<subseteq> set (drop i a)" "set (drop j' b) \<subseteq> set (drop j b)"
proof -
  have a: "i < length a \<Longrightarrow> a ! i \<in> set (drop i a) \<and> (\<forall>y\<in>set (drop i a). a ! i \<le> y)"
    using assms(2) by (auto simp: Cons_nth_drop_Suc [symmetric] in_set_conv_nth sorted_iff_nth_mono)
  have b: "j < length b \<Longrightarrow> b ! j \<in> set (drop j b) \<and> (\<forall>y\<in>set (drop j b). b ! j \<le> y)"
    using assms(3) by (auto simp: Cons_nth_drop_Suc [symmetric] in_set_conv_nth sorted_iff_nth_mono)
  have sub: "set (drop (Suc k) zs) \<subseteq> set (drop k zs)" for k and zs :: "u32 list"
    by (rule set_drop_subset_set_drop) simp
  show "i' \<le> length a" "j' \<le> length b"
    "i' = i \<and> take i' a = take i a \<or> take i' a = take i a @ [p]"
    "j' = j \<and> take j' b = take j b \<or> take j' b = take j b @ [p]"
    "p \<in> set (drop i a) \<union> set (drop j b)"
    using assms(1,4,5) a b by (auto simp: next_point_def take_Suc_conv_app_nth split: if_splits)
  show "set (drop i' a) \<subseteq> set (drop i a)" "set (drop j' b) \<subseteq> set (drop j b)"
    using assms(1) sub [of i a] sub [of j b] by (auto simp: next_point_def split: if_splits)
  show "\<forall>y\<in>set (drop i' a) \<union> set (drop j' b). p \<le> y"
    using assms(1) a b sub [of i a] sub [of j b]
    by (auto simp: next_point_def split: if_splits intro: order_trans less_imp_le)
qed

lemma op_inv_step:
  assumes inv: "op_inv op a i b j out" and "sorted a" and "sorted b" and "next_point a i b j = Some (p, i', j')"
  shows "op_inv op a i' b j' (if is_in op i' j' \<noteq> odd (length out) then out @ [p] else out)"
proof -
  have ij: "i \<le> length a" "j \<le> length b" "sorted out"
    and below: "\<And>x y. x \<in> set out \<union> set (take i a) \<union> set (take j b) \<Longrightarrow>
      y \<in> set (drop i a) \<union> set (drop j b) \<Longrightarrow> x \<le> y"
    and mem: "\<And>v. odd (count_upto out v) = is_in op (count_upto (take i a) v) (count_upto (take j b) v)"
    using inv unfolding op_inv_def by blast+
  note n = next_point_cases [OF assms(4,2,3) ij(1,2)]
  define out' where "out' = (if is_in op i' j' \<noteq> odd (length out) then out @ [p] else out)"
  have p: "x \<le> p" if "x \<in> set out' \<union> set (take i' a) \<union> set (take j' b)" for x
    using that below [OF _ n(5)] n(3,4) by (auto simp: out'_def split: if_splits)
  have "sorted out'" using ij(3) below [OF _ n(5)] by (auto simp: out'_def sorted_append)
  moreover have "x \<le> y" if "x \<in> set out' \<union> set (take i' a) \<union> set (take j' b)"
    "y \<in> set (drop i' a) \<union> set (drop j' b)" for x y
    using p [OF that(1)] n(6) that(2) order_trans by blast
  moreover have "odd (count_upto out' v) = is_in op (count_upto (take i' a) v) (count_upto (take j' b) v)" for v
  proof (cases "p \<le> v")
    case True
    have "count_upto out' v = length out'" "count_upto (take i' a) v = i'" "count_upto (take j' b) v = j'"
      using order_trans [OF p True] n(1,2) by (subst count_upto_all; simp)+
    then show ?thesis by (auto simp: out'_def)
  next
    case False
    then have "count_upto out' v = count_upto out v" "count_upto (take i' a) v = count_upto (take i a) v"
      "count_upto (take j' b) v = count_upto (take j b) v"
      using n(3,4) by (auto simp: out'_def)
    then show ?thesis using mem by simp
  qed
  ultimately show ?thesis using n(1,2) unfolding op_inv_def out'_def by blast
qed

text \<open>The result of the loop when it succeeds.\<close>

definition op_result :: "cr_op_enum \<Rightarrow> u32 list \<Rightarrow> u32 list \<Rightarrow> u32 list \<Rightarrow> bool" where
  "op_result op a b out \<longleftrightarrow> sorted out \<and>
     (\<forall>v. cr_mem out v = is_in op (count_upto a v) (count_upto b v))"

lemma op_loop_done:
  "in_capacity cr \<Longrightarrow> sorted a \<Longrightarrow> sorted b \<Longrightarrow> op_inv op a i b j (points cr) \<Longrightarrow>
   cr_done cr s (op_result op a b) (op_loop op a i b j cr s)"
proof (induction op a i b j cr s rule: op_loop.induct)
  case (1 op a i b j cr s)
  show ?case
  proof (cases "next_point a i b j")
    case None
    then have "i = length a" "j = length b"
      using "1.prems"(4) by (auto simp: next_point_def op_inv_def split: if_splits)
    then have "op_result op a b (points cr)"
      using "1.prems"(4) by (simp add: op_result_def op_inv_def cr_mem_def)
    then show ?thesis using None "1.prems"(1)
      by (simp add: op_loop.simps [of op a i b j] cr_done_return)
  next
    case (Some t)
    obtain p i' j' where t: "t = (p, i', j')" by (cases t)
    note inv = op_inv_step [OF "1.prems"(4,2,3) Some [unfolded t]]
    show ?thesis
    proof (cases "is_in op i' j' \<noteq> odd (length (points cr))")
      case True
      have "cr_done cr s (op_result op a b) (on_ok (cr_add_point cr p s) (\<lambda>cr s. op_loop op a i' b j' cr s))"
        by (rule cr_done_on_ok [OF cr_add_point_done [OF "1.prems"(1)]])
          (use "1.IH"(1) [OF Some t [symmetric] refl True] "1.prems" inv True in auto)
      then show ?thesis using Some t True by (simp add: op_loop.simps [of op a i b j])
    next
      case False
      then have "cr_done cr s (op_result op a b) (op_loop op a i' b j' cr s)"
        using "1.IH"(2) [OF Some t [symmetric] refl False] "1.prems" inv by simp
      then show ?thesis using Some t False by (simp add: op_loop.simps [of op a i b j])
    qed
  qed
qed

lemma op_result_length:
  "op_result op a b out \<Longrightarrow> even (length a) \<Longrightarrow> even (length b) \<Longrightarrow> even (length out)"
proof -
  assume r: "op_result op a b out" and e: "even (length a)" "even (length b)"
  have "odd (length out) = is_in op (length a) (length b)"
    using r by (simp add: op_result_def cr_mem_def flip: count_upto_max)
  then show ?thesis using e by (cases op) auto
qed

text \<open>
  The points of the set \<open>op\<close> of the members of \<open>a\<close> and \<open>b\<close>, in the canonical form.
\<close>

definition cr_union_of :: "cr_op_enum \<Rightarrow> u32 list \<Rightarrow> u32 list \<Rightarrow> u32 list \<Rightarrow> bool" where
  "cr_union_of op a b ps \<longleftrightarrow> canonical ps \<and>
     (\<forall>v. cr_mem ps v = (case op of
        CR_OP_UNION \<Rightarrow> cr_mem a v \<or> cr_mem b v
      | CR_OP_INTER \<Rightarrow> cr_mem a v \<and> cr_mem b v
      | CR_OP_XOR \<Rightarrow> cr_mem a v \<noteq> cr_mem b v))"

lemma op_inv_start: "op_inv op a 0 b 0 []"
  by (cases op) (auto simp: op_inv_def)

lemma cr_op_done:
  assumes "in_capacity cr" and "points cr = []" and "sorted a" "sorted b" "even (length a)" "even (length b)"
  shows "cr_done cr s (cr_union_of op a b) (cr_op cr a b op s)"
  unfolding cr_op_def
proof (rule cr_done_on_ok [OF op_loop_done])
  fix cr' s' assume c: "in_capacity cr'" and r: "op_result op a b (points cr')"
  have p: "sorted (points cr')" "even (length (points cr'))"
    using r op_result_length [OF r assms(5,6)] by (auto simp: op_result_def)
  have m: "cr_mem (points cr') v = is_in op (count_upto a v) (count_upto b v)" for v
    using r by (simp add: op_result_def)
  have "cr_union_of op a b (points (cr_compress cr'))"
    unfolding cr_union_of_def using cr_compress_spec [OF p] m by (cases op) (simp_all add: cr_mem_def)
  moreover have "in_capacity (cr_compress cr')"
    using c cr_compress_spec(3,4) [OF p] by (simp add: in_capacity_def)
  moreover have "owned (cr_compress cr') = owned cr'" using cr_compress_spec(4) [OF p] by (simp add: owned_def)
  ultimately show "cr_done cr' s' (cr_union_of op a b) (True, cr_compress cr', s')"
    by (intro cr_done_return)
qed (use assms op_inv_start in auto)

lemma cr_union1_done:
  assumes "in_capacity cr" and "canonical (points cr)" and "sorted b" and "even (length b)"
  shows "cr_done cr s (cr_union_of CR_OP_UNION (points cr) b) (cr_union1 cr b s)"
proof -
  obtain ok cr' s' where r: "cr_op cr_init (points cr) b CR_OP_UNION s = (ok, cr', s')"
    by (cases "cr_op cr_init (points cr) b CR_OP_UNION s")
  have "cr_done cr_init s (cr_union_of CR_OP_UNION (points cr) b) (ok, cr', s')"
    unfolding r [symmetric] using assms
    by (intro cr_op_done) (auto simp: canonical_def sorted_imp_le in_capacity_def cr_init_def)
  moreover have "cr_union1 cr b s = (ok, cr', cr_free cr s')" by (simp add: cr_union1_def r)
  moreover have "owned cr_init = 0" by (simp add: owned_def cr_init_def)
  ultimately show ?thesis by (auto simp: cr_done_def cr_free_def owned_def js_free_def)
qed

definition cr_inverse_of :: "u32 list \<Rightarrow> u32 list \<Rightarrow> bool" where
  "cr_inverse_of a ps \<longleftrightarrow> canonical ps \<and> (\<forall>v. cr_mem ps v \<longleftrightarrow> v \<noteq> UINT32_MAX \<and> \<not> cr_mem a v)"

lemma cr_invert_done:
  assumes "in_capacity cr" and "sorted (points cr)" and "even (length (points cr))"
  shows "cr_done cr s (cr_inverse_of (points cr)) (cr_invert cr s)"
  unfolding cr_invert_def
proof (rule cr_done_realloc [OF assms(1)])
  fix cr' s' assume c: "in_capacity cr'" "points cr' = points cr" "length (points cr) + 2 \<le> size_of cr'"
  define ps where "ps = [0] @ points cr @ [UINT32_MAX]"
  have ps: "sorted ps" "even (length ps)" using assms by (auto simp: ps_def sorted_append)
  note k = compress_loop_spec [OF ps, of 0]
  have "cr_mem ps v \<longleftrightarrow> v \<noteq> UINT32_MAX \<and> \<not> cr_mem (points cr) v" for v
  proof -
    have "UINT32_MAX \<le> v \<longleftrightarrow> v = UINT32_MAX" using le_UINT32_MAX [of v] by (auto intro: order_antisym)
    then show ?thesis using assms(3) by (auto simp: ps_def cr_mem_def)
  qed
  then have "cr_inverse_of (points cr) (compress_loop ps 0)" using k by (simp add: cr_inverse_of_def)
  moreover have "length (compress_loop ps 0) \<le> size_of cr'" using k c(3) by (simp add: ps_def)
  ultimately show "cr_done cr' s' (cr_inverse_of (points cr))
      (True, cr_compress (cr'\<lparr>points := [0] @ points cr' @ [UINT32_MAX]\<rparr>), s')"
    using cr_done_points [of "compress_loop ps 0" cr' "cr_inverse_of (points cr)" s']
    by (simp add: cr_compress_def ps_def c(2))
qed

section \<open>Sorting intervals and removing overlaps\<close>

definition point_cmp :: "u32 \<Rightarrow> u32 \<Rightarrow> int" where
  "point_cmp v1 v2 = of_bool (v1 > v2) - of_bool (v1 < v2)"

text \<open>The points read as \<open>len / 2\<close> pairs; the comparison only sees the first component.\<close>

fun pairs_of :: "u32 list \<Rightarrow> (u32 \<times> u32) list" where
  "pairs_of (a # b # ps) = (a, b) # pairs_of ps"
| "pairs_of _ = []"

fun points_of :: "(u32 \<times> u32) list \<Rightarrow> u32 list" where
  "points_of [] = []"
| "points_of ((a, b) # ps) = a # b # points_of ps"

text \<open>The inner loop: the end of the merged interval and the pairs that are left.\<close>

fun absorb :: "u32 \<Rightarrow> (u32 \<times> u32) list \<Rightarrow> u32 \<times> (u32 \<times> u32) list" where
  "absorb en [] = (en, [])"
| "absorb en ((start1, end1) # ps) =
     (if start1 > en then (en, (start1, end1) # ps)
      else if end1 \<le> en then absorb en ps
      else absorb end1 ps)"

lemma absorb_length: "length (snd (absorb en ps)) \<le> length ps"
  by (induction en ps rule: absorb.induct) auto

function remove_overlap :: "(u32 \<times> u32) list \<Rightarrow> (u32 \<times> u32) list" where
  "remove_overlap [] = []"
| "remove_overlap ((start, en) # ps) = (start, fst (absorb en ps)) # remove_overlap (snd (absorb en ps))"
  by pat_completeness auto
termination by (relation "measure length") (auto simp: absorb_length less_Suc_eq_le)

definition cr_sort_and_remove_overlap :: "char_range \<Rightarrow> char_range option" where
  "cr_sort_and_remove_overlap cr =
     map_option (\<lambda>ps. cr\<lparr>points := points_of (remove_overlap ps)\<rparr>)
       (rqsort (\<lambda>p q. point_cmp (fst p) (fst q)) (pairs_of (points cr)))"

interpretation by_start: comparison "\<lambda>p q :: u32 \<times> u32. point_cmp (fst p) (fst q)"
  by unfold_locales (auto simp: point_cmp_def split: if_splits)

text \<open>The set of code points that a list of intervals covers.\<close>

definition covered :: "(u32 \<times> u32) list \<Rightarrow> u32 set" where
  "covered ps = {v. \<exists>(a, b)\<in>set ps. a \<le> v \<and> v < b}"

lemma covered_Cons: "covered ((a, b) # ps) = {a..<b} \<union> covered ps"
  by (auto simp: covered_def)

lemma absorb_spec:
  "absorb en ps = (en', ps') \<Longrightarrow> sorted (map fst ps) \<Longrightarrow> (\<forall>(a, b)\<in>set ps. a < b \<and> start \<le> a) \<Longrightarrow> start < en \<Longrightarrow>
   en \<le> en' \<and> set ps' \<subseteq> set ps \<and> sorted (map fst ps') \<and> (\<forall>(a, b)\<in>set ps'. en' < a) \<and>
   {start..<en} \<union> covered ps = {start..<en'} \<union> covered ps'"
proof (induction en ps arbitrary: en' ps' rule: absorb.induct)
  case (1 en)
  then show ?case by (auto simp: covered_def)
next
  case (2 en a b ps)
  have s: "sorted (map fst ps)" "\<forall>(a, b)\<in>set ps. a < b \<and> start \<le> a" "start \<le> a" "a < b"
    using "2.prems" by auto
  consider "a > en" | "a \<le> en" "b \<le> en" | "a \<le> en" "en < b" by fastforce
  then show ?case
  proof cases
    case 1
    have "\<forall>x\<in>set ps. a \<le> fst x" using "2.prems"(2) by simp
    then have "\<forall>(c, d)\<in>set ps. en < c" using 1 by (fastforce intro: less_le_trans)
    then show ?thesis using "2.prems" 1 by auto
  next
    case 2
    have e: "absorb en ps = (en', ps')" "\<not> a > en" using "2.prems"(1) 2 by (auto simp: leD)
    have "{a..<b} \<subseteq> {start..<en}" using 2 s by auto
    then show ?thesis using "2.IH"(1) [OF e(2) 2(2) e(1) s(1,2) "2.prems"(4)]
      by (auto simp: covered_Cons)
  next
    case 3
    have e: "absorb b ps = (en', ps')" "\<not> a > en" "\<not> b \<le> en" using "2.prems"(1) 3 by (auto simp: leD split: if_splits)
    have u: "{start..<en} \<union> {a..<b} = {start..<b}" using 3 s by (auto intro: less_le_trans less_trans)
    have "start < b" using s by (auto intro: le_less_trans)
    from "2.IH"(2) [OF e(2,3,1) s(1,2) this] 3 u show ?thesis
      by (auto simp: covered_Cons Un_assoc [symmetric])
  qed
qed

lemma remove_overlap_spec:
  "sorted (map fst ps) \<Longrightarrow> (\<forall>(a, b)\<in>set ps. a < b) \<Longrightarrow>
   canonical (points_of (remove_overlap ps)) \<and> covered (remove_overlap ps) = covered ps \<and>
   (\<forall>(a, b)\<in>set (remove_overlap ps). a < b) \<and> (\<forall>m. (\<forall>(a, b)\<in>set ps. m < a) \<longrightarrow> (\<forall>x\<in>set (points_of (remove_overlap ps)). m < x))"
proof (induction ps rule: remove_overlap.induct)
  case 1
  show ?case by (simp add: canonical_def)
next
  case (2 start en ps)
  obtain en' ps' where a: "absorb en ps = (en', ps')" by (cases "absorb en ps")
  have spec: "en \<le> en'" "set ps' \<subseteq> set ps" "sorted (map fst ps')" "\<forall>(a, b)\<in>set ps'. en' < a"
    "{start..<en} \<union> covered ps = {start..<en'} \<union> covered ps'"
  proof -
    have "\<forall>(a, b)\<in>set ps. a < b \<and> start \<le> a" using "2.prems" by fastforce
    then have "en \<le> en' \<and> set ps' \<subseteq> set ps \<and> sorted (map fst ps') \<and> (\<forall>(a, b)\<in>set ps'. en' < a) \<and>
      {start..<en} \<union> covered ps = {start..<en'} \<union> covered ps'"
      using absorb_spec [OF a, of start] "2.prems" by simp
    then show "en \<le> en'" "set ps' \<subseteq> set ps" "sorted (map fst ps')" "\<forall>(a, b)\<in>set ps'. en' < a"
      "{start..<en} \<union> covered ps = {start..<en'} \<union> covered ps'" by blast+
  qed
  have IH: "canonical (points_of (remove_overlap ps'))" "covered (remove_overlap ps') = covered ps'"
    "\<forall>(a, b)\<in>set (remove_overlap ps'). a < b" "\<forall>x\<in>set (points_of (remove_overlap ps')). en' < x"
  proof -
    have "\<forall>(a, b)\<in>set ps'. a < b" using spec(2) "2.prems"(2) by auto
    then have "canonical (points_of (remove_overlap ps')) \<and> covered (remove_overlap ps') = covered ps' \<and>
      (\<forall>(a, b)\<in>set (remove_overlap ps'). a < b) \<and>
      (\<forall>m. (\<forall>(a, b)\<in>set ps'. m < a) \<longrightarrow> (\<forall>x\<in>set (points_of (remove_overlap ps')). m < x))"
      using "2.IH" spec(3) by (simp add: a)
    then show "canonical (points_of (remove_overlap ps'))" "covered (remove_overlap ps') = covered ps'"
      "\<forall>(a, b)\<in>set (remove_overlap ps'). a < b" "\<forall>x\<in>set (points_of (remove_overlap ps')). en' < x"
      using spec(4) by blast+
  qed
  have "start < en'" using "2.prems"(2) spec(1) by (auto intro: less_le_trans)
  then have "\<forall>x\<in>set (points_of (remove_overlap ps')). start < x" using IH(4) by (auto intro: less_trans)
  then show ?case using IH spec(5) \<open>start < en'\<close>
    by (auto simp: a canonical_def covered_Cons intro: less_trans)
qed

lemma count_upto_points_of:
  "canonical (points_of ps) \<Longrightarrow> cr_mem (points_of ps) v \<longleftrightarrow> v \<in> covered ps"
proof (induction ps)
  case Nil
  then show ?case by (simp add: cr_mem_def covered_def)
next
  case (Cons p ps)
  obtain a b where p: "p = (a, b)" by (cases p)
  have c: "canonical (points_of ps)" and ab: "a < b" "\<forall>x\<in>set (points_of ps). b < x"
    using Cons.prems by (auto simp: p canonical_def)
  have e: "cr_mem (points_of (p # ps)) v = (cr_mem (points_of ps) v \<noteq> (a \<le> v \<and> v < b))"
    using ab(1) by (auto simp: p cr_mem_def not_le)
  show ?case
  proof (cases "v < b")
    case True
    then have "count_upto (points_of ps) v = 0" using ab(2) by (auto intro!: count_upto_none intro: less_trans)
    then have "\<not> cr_mem (points_of ps) v" by (simp add: cr_mem_def)
    then show ?thesis using e Cons.IH [OF c] by (auto simp: p covered_Cons)
  next
    case False
    then show ?thesis using e Cons.IH [OF c] by (auto simp: p covered_Cons)
  qed
qed

lemma cr_sort_and_remove_overlap_spec:
  assumes "\<forall>(a, b)\<in>set (pairs_of (points cr)). a < b"
  shows "\<exists>ps. cr_sort_and_remove_overlap cr = Some (cr\<lparr>points := ps\<rparr>) \<and> canonical ps \<and>
    (\<forall>v. cr_mem ps v \<longleftrightarrow> v \<in> covered (pairs_of (points cr)))"
proof -
  obtain qs where q: "rqsort (\<lambda>p q. point_cmp (fst p) (fst q)) (pairs_of (points cr)) = Some qs"
    "mset qs = mset (pairs_of (points cr))" "sorted_wrt (\<lambda>p q. point_cmp (fst p) (fst q) \<le> 0) qs"
    using by_start.rqsort_sorted by blast
  have set: "set qs = set (pairs_of (points cr))" using q(2) by (rule mset_eq_setD)
  have "sorted_wrt (\<lambda>p q. fst p \<le> fst q) qs"
    by (rule sorted_wrt_mono_rel [OF _ q(3)]) (auto simp: point_cmp_def split: if_splits)
  then have s: "sorted (map fst qs)" by (simp add: sorted_wrt_map)
  note r = remove_overlap_spec [OF s]
  have "covered qs = covered (pairs_of (points cr))" by (simp add: covered_def set)
  then show ?thesis
    using r assms count_upto_points_of [of "remove_overlap qs"] set
    by (intro exI [of _ "points_of (remove_overlap qs)"]) (auto simp: cr_sort_and_remove_overlap_def q(1))
qed

section \<open>The set of a list of points\<close>

definition represents :: "u32 set \<Rightarrow> u32 list \<Rightarrow> bool" where
  "represents A ps \<longleftrightarrow> canonical ps \<and> (\<forall>v. cr_mem ps v \<longleftrightarrow> v \<in> A)"

definition set_op :: "cr_op_enum \<Rightarrow> u32 set \<Rightarrow> u32 set \<Rightarrow> u32 set" where
  "set_op op A B = (case op of CR_OP_UNION \<Rightarrow> A \<union> B | CR_OP_INTER \<Rightarrow> A \<inter> B | CR_OP_XOR \<Rightarrow> (A - B) \<union> (B - A))"

text \<open>The points of the operands only have to be in order: they may touch, or be equal.\<close>

definition lists_set :: "u32 set \<Rightarrow> u32 list \<Rightarrow> bool" where
  "lists_set A ps \<longleftrightarrow> sorted ps \<and> even (length ps) \<and> (\<forall>v. cr_mem ps v \<longleftrightarrow> v \<in> A)"

lemma represents_lists: "represents A ps \<Longrightarrow> lists_set A ps"
  by (simp add: represents_def lists_set_def canonical_def sorted_imp_le)

lemma cr_op_represents:
  assumes "lists_set A a" and "lists_set B b"
  shows "cr_done cr_init s (represents (set_op op A B)) (cr_op cr_init a b op s)"
proof (rule cr_done_weaken [OF cr_op_done])
  show "in_capacity cr_init" "points cr_init = []" by (simp_all add: in_capacity_def cr_init_def)
  show "sorted a" "sorted b" "even (length a)" "even (length b)" using assms by (auto simp: lists_set_def)
  show "represents (set_op op A B) p" if "cr_union_of op a b p" for p
    using that assms by (cases op) (auto simp: represents_def lists_set_def cr_union_of_def set_op_def)
qed

section \<open>The algebra of ranges\<close>

text \<open>
  The interface of a unique representation of sets: membership characterises a representation, and
  the operations are the operations on members. Every identity of sets is then an equality of
  representations.
\<close>

locale set_representation =
  fixes valid :: "'r \<Rightarrow> bool" and isin :: "'r \<Rightarrow> 'v \<Rightarrow> bool" and universe :: "'v set"
    and union :: "'r \<Rightarrow> 'r \<Rightarrow> 'r" and inter :: "'r \<Rightarrow> 'r \<Rightarrow> 'r" and xor :: "'r \<Rightarrow> 'r \<Rightarrow> 'r" and compl :: "'r \<Rightarrow> 'r"
  assumes ext: "valid a \<Longrightarrow> valid b \<Longrightarrow> (\<And>v. isin a v = isin b v) \<Longrightarrow> a = b"
    and isin_universe: "valid a \<Longrightarrow> isin a v \<Longrightarrow> v \<in> universe"
    and valid_union: "valid a \<Longrightarrow> valid b \<Longrightarrow> valid (union a b)"
    and valid_inter: "valid a \<Longrightarrow> valid b \<Longrightarrow> valid (inter a b)"
    and valid_xor: "valid a \<Longrightarrow> valid b \<Longrightarrow> valid (xor a b)"
    and valid_compl: "valid a \<Longrightarrow> valid (compl a)"
    and isin_union: "valid a \<Longrightarrow> valid b \<Longrightarrow> isin (union a b) v \<longleftrightarrow> isin a v \<or> isin b v"
    and isin_inter: "valid a \<Longrightarrow> valid b \<Longrightarrow> isin (inter a b) v \<longleftrightarrow> isin a v \<and> isin b v"
    and isin_xor: "valid a \<Longrightarrow> valid b \<Longrightarrow> isin (xor a b) v \<longleftrightarrow> isin a v \<noteq> isin b v"
    and isin_compl: "valid a \<Longrightarrow> isin (compl a) v \<longleftrightarrow> v \<in> universe \<and> \<not> isin a v"
begin

lemmas valid_ops = valid_union valid_inter valid_xor valid_compl
lemmas isin_ops = isin_union isin_inter isin_xor isin_compl

lemma compl_compl: "valid a \<Longrightarrow> compl (compl a) = a"
  by (rule ext) (use isin_universe in \<open>auto simp: valid_ops isin_ops\<close>)

lemma de_morgan:
  "valid a \<Longrightarrow> valid b \<Longrightarrow> compl (union a b) = inter (compl a) (compl b)"
  "valid a \<Longrightarrow> valid b \<Longrightarrow> compl (inter a b) = union (compl a) (compl b)"
  by (rule ext; auto simp: valid_ops isin_ops)+

lemma union_inter_distrib:
  "valid a \<Longrightarrow> valid b \<Longrightarrow> valid c \<Longrightarrow> inter a (union b c) = union (inter a b) (inter a c)"
  by (rule ext) (auto simp: valid_ops isin_ops)

lemma xor_alt:
  "valid a \<Longrightarrow> valid b \<Longrightarrow> xor a b = union (inter a (compl b)) (inter (compl a) b)"
  by (rule ext) (use isin_universe in \<open>auto simp: valid_ops isin_ops\<close>)

lemma commute: "valid a \<Longrightarrow> valid b \<Longrightarrow> union a b = union b a \<and> inter a b = inter b a \<and> xor a b = xor b a"
  by (intro conjI; rule ext) (auto simp: valid_ops isin_ops)

lemma absorption: "valid a \<Longrightarrow> valid b \<Longrightarrow> union a (inter a b) = a \<and> inter a (union a b) = a"
  by (intro conjI; rule ext) (auto simp: valid_ops isin_ops)

end

text \<open>The operations of the code on the points, with an allocator that never fails.\<close>

definition no_failure :: mem where
  "no_failure = \<lparr>mem_outcomes = [], mem_live = 0\<rparr>"

definition op_points :: "cr_op_enum \<Rightarrow> u32 list \<Rightarrow> u32 list \<Rightarrow> u32 list" where
  "op_points op a b = points (fst (snd (cr_op cr_init a b op no_failure)))"

definition invert_points :: "u32 list \<Rightarrow> u32 list" where
  "invert_points a = points (fst (snd (cr_invert \<lparr>points = a, size_of = length a\<rparr> no_failure)))"

lemma cr_done_no_failure: "cr_done cr no_failure Q r \<Longrightarrow> Q (points (fst (snd r)))"
  by (auto simp: cr_done_def no_failure_def)

lemma op_points_spec:
  "canonical a \<Longrightarrow> canonical b \<Longrightarrow> cr_union_of op a b (op_points op a b)"
  unfolding op_points_def
  by (rule cr_done_no_failure [OF cr_op_done]) (auto simp: canonical_def sorted_imp_le in_capacity_def cr_init_def)

lemma invert_points_spec: "canonical a \<Longrightarrow> cr_inverse_of a (invert_points a)"
  unfolding invert_points_def
  using cr_done_no_failure [OF cr_invert_done [of "\<lparr>points = a, size_of = length a\<rparr>"]]
  by (simp add: canonical_def sorted_imp_le in_capacity_def)

interpretation cr: set_representation canonical cr_mem "- {UINT32_MAX}" "op_points CR_OP_UNION"
  "op_points CR_OP_INTER" "op_points CR_OP_XOR" invert_points
proof
  fix a b :: "u32 list" and v
  show "canonical a \<Longrightarrow> canonical b \<Longrightarrow> (\<And>v. cr_mem a v = cr_mem b v) \<Longrightarrow> a = b"
    by (rule cr_mem_unique) (auto simp: canonical_def)
  show "canonical a \<Longrightarrow> cr_mem a v \<Longrightarrow> v \<in> - {UINT32_MAX}"
    by (auto simp: canonical_def cr_mem_def)
qed (use op_points_spec invert_points_spec in \<open>auto simp: cr_union_of_def cr_inverse_of_def\<close>)

section \<open>Properties\<close>

text \<open>C18: on sets in canonical form and with any pattern of allocation failures, \<open>cr_op\<close> either fails
  because an allocation failed, or returns the canonical form of the union, the intersection or the
  symmetric difference; in both cases the only block it leaves allocated is the one of its result.\<close>

theorem cr_op_correct:
  assumes "canonical a" and "canonical b"
  shows "case cr_op cr_init a b op s of (ok, cr, s') \<Rightarrow>
    (ok \<or> mem_outcomes s \<noteq> []) \<and> mem_live s' = mem_live s + owned cr \<and>
    (\<not> ok \<or> canonical (points cr) \<and>
      {v. cr_mem (points cr) v} = set_op op {v. cr_mem a v} {v. cr_mem b v})"
proof -
  have "cr_done cr_init s (represents (set_op op {v. cr_mem a v} {v. cr_mem b v})) (cr_op cr_init a b op s)"
    using assms by (intro cr_op_represents represents_lists) (auto simp: represents_def)
  moreover have "owned cr_init = 0" by (simp add: owned_def cr_init_def)
  ultimately show ?thesis by (auto simp: cr_done_def represents_def split: prod.splits)
qed

theorem cr_op_correct_witness:
  "case cr_op cr_init [1, 5] [3, 9] CR_OP_XOR no_failure of (ok, cr, s') \<Rightarrow>
    (ok \<or> mem_outcomes no_failure \<noteq> []) \<and> mem_live s' = mem_live no_failure + owned cr \<and>
    (\<not> ok \<or> canonical (points cr) \<and>
      {v. cr_mem (points cr) v} = set_op CR_OP_XOR {v. cr_mem [1, 5] v} {v. cr_mem [3, 9] v})"
  by (rule cr_op_correct) (simp_all add: canonical_def)

text \<open>C19: the ranges in canonical form are a Boolean algebra: the complement is an involution on the
  points themselves, and the laws of De Morgan, distributivity, absorption and the definition of the
  symmetric difference hold as equalities of point lists.\<close>

theorem cr_boolean_algebra:
  assumes "canonical a" and "canonical b" and "canonical c"
  shows "invert_points (invert_points a) = a
    \<and> invert_points (op_points CR_OP_UNION a b) = op_points CR_OP_INTER (invert_points a) (invert_points b)
    \<and> invert_points (op_points CR_OP_INTER a b) = op_points CR_OP_UNION (invert_points a) (invert_points b)
    \<and> op_points CR_OP_INTER a (op_points CR_OP_UNION b c)
      = op_points CR_OP_UNION (op_points CR_OP_INTER a b) (op_points CR_OP_INTER a c)
    \<and> op_points CR_OP_UNION a (op_points CR_OP_INTER a b) = a
    \<and> op_points CR_OP_XOR a b
      = op_points CR_OP_UNION (op_points CR_OP_INTER a (invert_points b)) (op_points CR_OP_INTER (invert_points a) b)"
  using assms cr.compl_compl cr.de_morgan cr.union_inter_distrib cr.absorption cr.xor_alt by simp

theorem cr_boolean_algebra_witness:
  "invert_points (invert_points [1, 5]) = [1, 5]"
  using cr_boolean_algebra [of "[1, 5]" "[]" "[]"] by (simp add: canonical_def)

text \<open>C20: sorting and merging the intervals of a range returns, and gives the canonical form of the
  set that the intervals cover.\<close>

theorem cr_sort_and_remove_overlap_correct:
  assumes "list_all (\<lambda>(a, b). a < b) (pairs_of (points cr))"
  shows "\<exists>ps. cr_sort_and_remove_overlap cr = Some (cr\<lparr>points := ps\<rparr>) \<and> canonical ps \<and>
    {v. cr_mem ps v} = covered (pairs_of (points cr))"
  using cr_sort_and_remove_overlap_spec [of cr] assms by (auto simp: list_all_iff)

theorem cr_sort_and_remove_overlap_correct_witness:
  "\<exists>ps. cr_sort_and_remove_overlap \<lparr>points = [7, 9, 1, 5, 4, 6], size_of = 6\<rparr> = Some \<lparr>points = ps, size_of = 6\<rparr> \<and>
    canonical ps \<and> {v. cr_mem ps v} = covered [(7, 9), (1, 5), (4, 6)]"
  using cr_sort_and_remove_overlap_correct [of "\<lparr>points = [7, 9, 1, 5, 4, 6], size_of = 6\<rparr>"] by simp

end
