(* ===== verification/Unicode_Props.thy ===== *)
theory Unicode_Props
  imports Char_Range
begin

text \<open>
  Properties of code points (\<open>src/qjs/libunicode.c\<close>): \<open>unicode_general_category1\<close>, \<open>unicode_prop1\<close> and
  \<open>unicode_case1\<close>, which read the sets out of compressed tables, and the stack machine of \<open>unicode_prop_ops\<close>,
  which combines them. The tables are generated and are parameters, as lists of their elements; a read behind the
  end of a table, as a failed assertion, is \<open>None\<close>.
\<close>

section \<open>The categories\<close>

text \<open>\<open>cr_add_interval\<close> for \<open>c0\<close>, \<open>c0 + 2\<close>, and so on, \<open>k\<close> times.\<close>

fun add_every_second :: "nat \<Rightarrow> u32 \<Rightarrow> char_range \<Rightarrow> mem \<Rightarrow> cr_result" where
  "add_every_second 0 c0 cr s = (True, cr, s)"
| "add_every_second (Suc k) c0 cr s = on_ok (cr_add_interval cr c0 (c0 + 1) s) (add_every_second k (c0 + 2))"

text \<open>A run of code points: \<open>n\<close>, \<open>v\<close> and the rest of the table.\<close>

definition gc_run :: "u8 \<Rightarrow> u8 list \<Rightarrow> (u32 \<times> u32 \<times> u8 list) option" where
  "gc_run b p =
     (let n = ucast (drop_bit 5 b); v = ucast (b AND 0x1f)
      in if n = 7
         then (case p of
                 [] \<Rightarrow> None
               | n1 # p \<Rightarrow>
                   (if n1 < 128 then Some (ucast n1 + 7, v, p)
                    else if n1 < 128 + 64
                    then (case p of
                            [] \<Rightarrow> None
                          | x # p \<Rightarrow> Some ((push_bit 8 (ucast n1 - 128) OR ucast x) + (7 + 128), v, p))
                    else (case p of
                            x # y # p \<Rightarrow>
                              Some ((push_bit 16 (ucast n1 - 128 - 64) OR push_bit 8 (ucast x) OR ucast y) + (7 + 128 + 2 ^ 14), v, p)
                          | _ \<Rightarrow> None)))
         else Some (n, v, p))"

abbreviation (input) M_Lu :: u32 where "M_Lu \<equiv> 2"
abbreviation (input) M_Ll :: u32 where "M_Ll \<equiv> 4"

definition gc_add :: "u32 \<Rightarrow> u32 \<Rightarrow> u32 \<Rightarrow> u32 \<Rightarrow> char_range \<Rightarrow> mem \<Rightarrow> cr_result" where
  "gc_add gc_mask v c0 c cr s =
     (if v = 31
      then (let b = gc_mask AND (M_Lu OR M_Ll)
            in if b = 0 then (True, cr, s)
               else if b = M_Lu OR M_Ll then cr_add_interval cr c0 c s
               else (let c0 = c0 + (if gc_mask AND M_Ll \<noteq> 0 then 1 else 0)
                     in add_every_second ((unat c - unat c0 + 1) div 2) c0 cr s))
      else if drop_bit (unat v) gc_mask AND 1 \<noteq> 0 then cr_add_interval cr c0 c s
      else (True, cr, s))"

lemma gc_run_shorter: "gc_run b p = Some (n, v, p') \<Longrightarrow> length p' < length (b # p)"
  by (auto simp: gc_run_def Let_def split: if_splits list.splits)

function gc_loop :: "u32 \<Rightarrow> u8 list \<Rightarrow> u32 \<Rightarrow> char_range \<Rightarrow> mem \<Rightarrow> cr_result option" where
  "gc_loop gc_mask [] c cr s = Some (True, cr, s)"
| "gc_loop gc_mask (b # p) c cr s =
     (case gc_run b p of
        None \<Rightarrow> None
      | Some (n, v, p') \<Rightarrow>
          (case gc_add gc_mask v c (c + n + 1) cr s of
             (ok, cr', s') \<Rightarrow> (if ok then gc_loop gc_mask p' (c + n + 1) cr' s' else Some (False, cr', s'))))"
  by pat_completeness auto
termination
  by (relation "measure (\<lambda>(gc_mask, p, c, cr, s). length p)") (auto dest!: gc_run_shorter)

definition unicode_general_category1 :: "u8 list \<Rightarrow> char_range \<Rightarrow> u32 \<Rightarrow> mem \<Rightarrow> cr_result option" where
  "unicode_general_category1 unicode_gc_table cr gc_mask s = gc_loop gc_mask unicode_gc_table 0 cr s"

section \<open>The binary properties\<close>

text \<open>The three longer forms of an entry: the length of the run.\<close>

definition prop_run :: "u8 \<Rightarrow> u8 list \<Rightarrow> (u32 \<times> u8 list) option" where
  "prop_run b p =
     (if b \<ge> 0x80 then Some (ucast b - 0x80 + 1, p)
      else if b < 0x60
      then (case p of [] \<Rightarrow> None | x # p \<Rightarrow> Some ((push_bit 8 (ucast b - 0x40) OR ucast x) + 1, p))
      else (case p of
              x # y # p \<Rightarrow> Some ((push_bit 16 (ucast b - 0x60) OR push_bit 8 (ucast x) OR ucast y) + 1, p)
            | _ \<Rightarrow> None))"

definition add_if :: "bool \<Rightarrow> u32 \<Rightarrow> u32 \<Rightarrow> char_range \<Rightarrow> mem \<Rightarrow> cr_result" where
  "add_if b c0 c cr s = (if b then cr_add_interval cr c0 c s else (True, cr, s))"

lemma prop_run_shorter: "prop_run b p = Some (n, p') \<Longrightarrow> length p' < length (b # p)"
  by (auto simp: prop_run_def split: if_splits list.splits)

function prop_loop :: "u8 list \<Rightarrow> u32 \<Rightarrow> bool \<Rightarrow> char_range \<Rightarrow> mem \<Rightarrow> cr_result option" where
  "prop_loop [] c bt cr s = Some (True, cr, s)"
| "prop_loop (b # p) c bt cr s =
     (if b < 64
      then (let c1 = c + (ucast (drop_bit 3 b) + 1); c2 = c1 + (ucast (b AND 7) + 1)
            in case on_ok (add_if bt c c1 cr s) (add_if (\<not> bt) c1 c2) of
                 (ok, cr', s') \<Rightarrow> (if ok then prop_loop p c2 bt cr' s' else Some (False, cr', s')))
      else (case prop_run b p of
              None \<Rightarrow> None
            | Some (n, p') \<Rightarrow>
                (case add_if bt c (c + n) cr s of
                   (ok, cr', s') \<Rightarrow> (if ok then prop_loop p' (c + n) (\<not> bt) cr' s' else Some (False, cr', s')))))"
  by pat_completeness auto
termination
  by (relation "measure (\<lambda>(p, c, bt, cr, s). length p)") (auto dest!: prop_run_shorter)

definition unicode_prop1 :: "u8 list \<Rightarrow> char_range \<Rightarrow> mem \<Rightarrow> cr_result option" where
  "unicode_prop1 unicode_prop_table cr s = prop_loop unicode_prop_table 0 False cr s"

section \<open>The case conversions\<close>

abbreviation (input) RUN_TYPE_UL :: u32 where "RUN_TYPE_UL \<equiv> 4"
abbreviation (input) RUN_TYPE_LSU :: u32 where "RUN_TYPE_LSU \<equiv> 5"

text \<open>The types of runs by their numbers: U, UF, UL, LSU, U2L_399_EXT2, UF_D20, UF_D1_EXT, U_EXT, UF_EXT2, UF_EXT3; L, LF, UL,
  LSU, U2L_399_EXT2, LF_EXT, LF_EXT2; and the third row.\<close>

definition tab_run_mask :: "u32 list" where
  "tab_run_mask = map (\<lambda>ts. foldr (\<lambda>t m. push_bit t 1 OR m) ts 0)
     [[0, 2, 4, 5, 6, 7, 8, 9, 11, 13], [1, 3, 4, 5, 6, 10, 12], [2, 3, 4, 5, 6, 10, 12, 7, 8, 10, 11, 13]]"

definition case_run_mask :: "u32 \<Rightarrow> u32" where
  "case_run_mask case_mask = fold (\<lambda>i m. if drop_bit i case_mask AND 1 \<noteq> 0 then m OR tab_run_mask ! i else m) [0..<3] 0"

abbreviation (input) CASE_U :: u32 where "CASE_U \<equiv> 1"
abbreviation (input) CASE_L :: u32 where "CASE_L \<equiv> 2"
abbreviation (input) CASE_F :: u32 where "CASE_F \<equiv> 4"

definition case_entry :: "u32 \<Rightarrow> u32 \<times> u32 \<times> u32" where
  "case_entry v = (drop_bit 4 v AND 0xf, drop_bit 15 v, drop_bit 8 v AND 0x7f)"

definition case_add :: "u32 \<Rightarrow> u32 \<Rightarrow> char_range \<Rightarrow> mem \<Rightarrow> cr_result" where
  "case_add case_mask v cr s =
     (case case_entry v of (type, code, len) \<Rightarrow>
        (let both = (case_mask AND CASE_U \<noteq> 0 \<and> case_mask AND (CASE_L OR CASE_F) \<noteq> 0); u = (case_mask AND CASE_U \<noteq> 0)
         in if type = RUN_TYPE_UL \<and> \<not> both
            then add_every_second ((unat len + 1) div 2) (code + (if u then 1 else 0)) cr s
            else if type = RUN_TYPE_LSU \<and> \<not> both
            then on_ok (add_if (\<not> u) code (code + 1) cr s) (\<lambda>cr s.
                   on_ok (cr_add_interval cr (code + 1) (code + 2) s) (add_if u (code + 2) (code + 3)))
            else cr_add_interval cr code (code + len) s))"

fun case_loop :: "u32 \<Rightarrow> u32 \<Rightarrow> u32 list \<Rightarrow> char_range \<Rightarrow> mem \<Rightarrow> cr_result" where
  "case_loop case_mask run_mask [] cr s = (True, cr, s)"
| "case_loop case_mask run_mask (v # vs) cr s =
     on_ok (if drop_bit (unat (fst (case_entry v))) run_mask AND 1 \<noteq> 0 then case_add case_mask v cr s else (True, cr, s))
       (case_loop case_mask run_mask vs)"

definition unicode_case1 :: "u32 list \<Rightarrow> char_range \<Rightarrow> u32 \<Rightarrow> mem \<Rightarrow> cr_result" where
  "unicode_case1 case_conv_table1 cr case_mask s =
     (if case_mask = 0 then (True, cr, s)
      else case_loop case_mask (case_run_mask case_mask) case_conv_table1 cr s)"

section \<open>The stack machine of \<open>unicode_prop_ops\<close>\<close>

text \<open>
  The operations up to \<open>POP_END\<close>. The stack is a list with its top first; a failed assertion is \<open>None\<close>.
\<close>

datatype prop_op = POP_GC u32 | POP_PROP u32 | POP_CASE u32 | POP_UNION | POP_INTER | POP_XOR | POP_INVERT

definition POP_STACK_LEN_MAX :: nat where
  "POP_STACK_LEN_MAX = 4"

type_synonym stack_result = "(bool \<times> char_range list \<times> mem) option"

definition pop_binary :: "cr_op_enum \<Rightarrow> char_range list \<Rightarrow> mem \<Rightarrow> stack_result" where
  "pop_binary op stack s =
     (if length stack < POP_STACK_LEN_MAX
      then (case stack of
              cr2 # cr1 # rest \<Rightarrow>
                (case cr_op cr_init (points cr1) (points cr2) op s of
                   (ok, cr3, s') \<Rightarrow>
                     (if ok then Some (True, cr3 # rest, cr_free cr2 (cr_free cr1 s'))
                      else Some (False, cr3 # stack, s')))
            | _ \<Rightarrow> None)
      else None)"

definition pop_leaf :: "(char_range \<Rightarrow> mem \<Rightarrow> cr_result option) \<Rightarrow> char_range list \<Rightarrow> mem \<Rightarrow> stack_result" where
  "pop_leaf f stack s =
     (if length stack < POP_STACK_LEN_MAX
      then map_option (\<lambda>(ok, cr', s'). (ok, cr' # stack, s')) (f cr_init s)
      else None)"

text \<open>The three tables.\<close>

record unicode_tables =
  gc_table :: "u8 list"
  prop_table :: "u32 \<Rightarrow> u8 list"
  case_table :: "u32 list"

fun prop_step :: "unicode_tables \<Rightarrow> prop_op \<Rightarrow> char_range list \<Rightarrow> mem \<Rightarrow> stack_result" where
  "prop_step T (POP_GC a) stack s = pop_leaf (\<lambda>cr. unicode_general_category1 (gc_table T) cr a) stack s"
| "prop_step T (POP_PROP a) stack s = pop_leaf (unicode_prop1 (prop_table T a)) stack s"
| "prop_step T (POP_CASE a) stack s = pop_leaf (\<lambda>cr s. Some (unicode_case1 (case_table T) cr a s)) stack s"
| "prop_step T POP_UNION stack s = pop_binary CR_OP_UNION stack s"
| "prop_step T POP_INTER stack s = pop_binary CR_OP_INTER stack s"
| "prop_step T POP_XOR stack s = pop_binary CR_OP_XOR stack s"
| "prop_step T POP_INVERT stack s =
     (case stack of
        cr # rest \<Rightarrow> (case cr_invert cr s of (ok, cr', s') \<Rightarrow> Some (ok, cr' # rest, s'))
      | [] \<Rightarrow> None)"

fun prop_exec :: "unicode_tables \<Rightarrow> prop_op list \<Rightarrow> char_range list \<Rightarrow> mem \<Rightarrow> stack_result" where
  "prop_exec T [] stack s = Some (True, stack, s)"
| "prop_exec T (op # ops) stack s =
     (case prop_step T op stack s of
        None \<Rightarrow> None
      | Some (ok, stack', s') \<Rightarrow> (if ok then prop_exec T ops stack' s' else Some (False, stack', s')))"

definition unicode_prop_ops :: "unicode_tables \<Rightarrow> char_range \<Rightarrow> prop_op list \<Rightarrow> mem \<Rightarrow> cr_result option" where
  "unicode_prop_ops T cr ops s =
     (case prop_exec T ops [] s of
        None \<Rightarrow> None
      | Some (ok, stack, s') \<Rightarrow>
          (if ok
           then (case stack of
                   [r] \<Rightarrow> (case cr_copy cr r s' of (ok, cr', s'') \<Rightarrow> Some (ok, cr', cr_free r s''))
                 | _ \<Rightarrow> None)
           else Some (False, cr, fold cr_free stack s')))"

text \<open>The sets that the operation sequences of the code denote, and the stack slots they need.\<close>

datatype prop_expr = Leaf prop_op | Union prop_expr prop_expr | Inter prop_expr prop_expr
  | Xor prop_expr prop_expr | Invert prop_expr

fun compile :: "prop_expr \<Rightarrow> prop_op list" where
  "compile (Leaf op) = [op]"
| "compile (Union a b) = compile a @ compile b @ [POP_UNION]"
| "compile (Inter a b) = compile a @ compile b @ [POP_INTER]"
| "compile (Xor a b) = compile a @ compile b @ [POP_XOR]"
| "compile (Invert a) = compile a @ [POP_INVERT]"

fun slots :: "prop_expr \<Rightarrow> nat" where
  "slots (Leaf op) = 1"
| "slots (Union a b) = max (slots a) (max (Suc (slots b)) 3)"
| "slots (Inter a b) = max (slots a) (max (Suc (slots b)) 3)"
| "slots (Xor a b) = max (slots a) (max (Suc (slots b)) 3)"
| "slots (Invert a) = slots a"

fun leaves :: "prop_expr \<Rightarrow> prop_op list" where
  "leaves (Leaf op) = [op]"
| "leaves (Union a b) = leaves a @ leaves b"
| "leaves (Inter a b) = leaves a @ leaves b"
| "leaves (Xor a b) = leaves a @ leaves b"
| "leaves (Invert a) = leaves a"

fun denotes :: "(prop_op \<Rightarrow> u32 set) \<Rightarrow> prop_expr \<Rightarrow> u32 set" where
  "denotes L (Leaf op) = L op"
| "denotes L (Union a b) = denotes L a \<union> denotes L b"
| "denotes L (Inter a b) = denotes L a \<inter> denotes L b"
| "denotes L (Xor a b) = (denotes L a - denotes L b) \<union> (denotes L b - denotes L a)"
| "denotes L (Invert a) = - denotes L a - {UINT32_MAX}"

section \<open>The intervals of a scan\<close>

text \<open>The points of a scan that has come to \<open>c\<close>.\<close>

definition chars_upto :: "nat \<Rightarrow> u32 set \<Rightarrow> u32 list \<Rightarrow> bool" where
  "chars_upto c A ps \<longleftrightarrow> lists_set A ps \<and> (\<forall>p\<in>set ps. unat p \<le> c)"

lemma chars_upto_mono: "chars_upto c A ps \<Longrightarrow> c \<le> d \<Longrightarrow> chars_upto d A ps"
  by (auto simp: chars_upto_def)

lemma chars_upto_add:
  assumes "chars_upto c A ps" and "c \<le> unat a" and "unat a \<le> unat b"
  shows "chars_upto (unat b) (A \<union> {a..<b}) (ps @ [a, b])"
proof -
  have ps: "sorted ps" "even (length ps)" "\<And>v. cr_mem ps v \<longleftrightarrow> v \<in> A" "\<And>p. p \<in> set ps \<Longrightarrow> p \<le> a"
    using assms by (auto simp: chars_upto_def lists_set_def word_le_nat_alt)
  have ab: "a \<le> b" using assms(3) by (simp add: word_le_nat_alt)
  have "cr_mem (ps @ [a, b]) v \<longleftrightarrow> v \<in> A \<union> {a..<b}" for v
  proof (cases "a \<le> v")
    case True
    then have "count_upto ps v = length ps" using ps(4) by (intro count_upto_all) (auto intro: order_trans)
    then show ?thesis using ps(2) ps(3) [of v] True by (auto simp: cr_mem_def not_le)
  next
    case False
    then have "\<not> b \<le> v" using ab by auto
    then show ?thesis using ps(3) [of v] False by (simp add: cr_mem_def)
  qed
  moreover have "sorted (ps @ [a, b])" using ps(1,4) ab by (auto simp: sorted_append intro: order_trans)
  moreover have "unat p \<le> unat b" if "p \<in> set (ps @ [a, b])" for p
    using that ps(4) ab by (auto simp flip: word_le_nat_alt intro: order_trans)
  ultimately show ?thesis using ps(2) by (auto simp: chars_upto_def lists_set_def)
qed

lemma add_interval_upto:
  assumes "in_capacity cr" and "chars_upto c A (points cr)" and "c \<le> unat a" and "unat a \<le> unat b"
    and "B = A \<union> {a..<b}" and "d = unat b"
  shows "cr_done cr s (chars_upto d B) (cr_add_interval cr a b s)"
  by (rule cr_done_weaken [OF cr_add_interval_done [OF assms(1)]]) (use chars_upto_add [OF assms(2-4)] assms(5,6) in simp)

lemma nothing_upto:
  assumes "in_capacity cr" and "chars_upto c A (points cr)" and "c \<le> d"
  shows "cr_done cr s (chars_upto d A) (True, cr, s)"
  using assms by (intro cr_done_return) (auto intro: chars_upto_mono)

lemma interval_nat: "{a..<b} = {x. unat a \<le> unat x \<and> unat x < unat (b :: u32)}"
  by (auto simp: word_le_nat_alt word_less_nat_alt)

lemma unat_add_u32: "unat a + unat b < 4294967296 \<Longrightarrow> unat (a + b :: u32) = unat a + unat b"
  by (simp add: unat_plus_nowrap)

lemma every_second_upto:
  assumes "in_capacity cr" and "chars_upto (unat c0) A (points cr)" and "unat c0 + 2 * k < 4294967296"
  shows "cr_done cr s (chars_upto (unat c0 + (2 * k - 1))
      (A \<union> {x. unat c0 \<le> unat x \<and> unat x < unat c0 + 2 * k \<and> even (unat x - unat c0)})) (add_every_second k c0 cr s)"
  using assms
proof (induction k arbitrary: c0 cr s A)
  case 0
  have "{x :: u32. unat c0 \<le> unat x \<and> unat x < unat c0 + 2 * 0 \<and> even (unat x - unat c0)} = {}" by auto
  then show ?case using nothing_upto [OF 0(1,2) order_refl, of s] by (simp only: Un_empty_right add_every_second.simps mult_0_right add_0_right diff_0_eq_0)
next
  case (Suc k)
  have u: "unat (c0 + 1) = unat c0 + 1" "unat (c0 + 2) = unat c0 + 2" using Suc.prems(3) by (simp_all add: unat_add_u32)
  have one: "{c0..<c0 + 1} = {c0}"
  proof -
    have "x \<in> {c0..<c0 + 1} \<longleftrightarrow> x = c0" for x unfolding interval_nat using u by (auto simp: word_unat_eq_iff)
    then show ?thesis by blast
  qed
  have rest: "insert c0 {x. unat (c0 + 2) \<le> unat x \<and> unat x < unat (c0 + 2) + 2 * k \<and> even (unat x - unat (c0 + 2))} =
      {x. unat c0 \<le> unat x \<and> unat x < unat c0 + 2 * Suc k \<and> even (unat x - unat c0)}"
  proof -
    have "x = c0 \<or> unat c0 + 2 \<le> unat x \<and> unat x < unat c0 + 2 + 2 * k \<and> even (unat x - (unat c0 + 2)) \<longleftrightarrow>
        unat c0 \<le> unat x \<and> unat x < unat c0 + 2 * Suc k \<and> even (unat x - unat c0)" for x
    proof -
      consider "unat x < unat c0" | "unat x = unat c0" | "unat x = unat c0 + 1" | "unat c0 + 2 \<le> unat x" by linarith
      then show ?thesis
      proof cases
        case 4
        then obtain j where j: "unat x = unat c0 + 2 + j" by (auto dest: le_Suc_ex)
        then have "x \<noteq> c0" by auto
        then show ?thesis using j by simp
      next
        case 2
        then show ?thesis by (simp add: word_unat_eq_iff)
      qed (auto simp: word_unat_eq_iff)
    qed
    then show ?thesis unfolding u by blast
  qed
  have "cr_done cr s (chars_upto (unat c0 + 1) (A \<union> {c0})) (cr_add_interval cr c0 (c0 + 1) s)"
    by (rule add_interval_upto [OF Suc.prems(1,2)]) (use u one in simp_all)
  then show ?case unfolding add_every_second.simps rest [symmetric]
  proof (rule cr_done_on_ok)
    fix cr' s'
    assume c: "in_capacity cr'" "chars_upto (unat c0 + 1) (A \<union> {c0}) (points cr')"
    let ?B = "{x. unat (c0 + 2) \<le> unat x \<and> unat x < unat (c0 + 2) + 2 * k \<and> even (unat x - unat (c0 + 2))}"
    show "cr_done cr' s' (chars_upto (unat c0 + (2 * Suc k - 1)) (A \<union> insert c0 ?B)) (add_every_second k (c0 + 2) cr' s')"
    proof (cases k)
      case 0
      have "A \<union> insert c0 ?B = A \<union> {c0}" unfolding 0 by auto
      then have "cr_done cr' s' (chars_upto (unat c0 + 1) (A \<union> insert c0 ?B)) (True, cr', s')"
        using nothing_upto [OF c order_refl, of s'] by (simp only:)
      then show ?thesis by (simp only: 0 add_every_second.simps mult_Suc_right mult_0_right add_0_right add_diff_cancel_left' numeral_eq_one_iff one_add_one [symmetric])
    next
      case k: (Suc j)
      have "chars_upto (unat (c0 + 2)) (A \<union> {c0}) (points cr')" using chars_upto_mono [OF c(2)] u by simp
      then have "cr_done cr' s' (chars_upto (unat (c0 + 2) + (2 * k - 1)) (A \<union> {c0} \<union> ?B)) (add_every_second k (c0 + 2) cr' s')"
        using Suc.prems(3) u by (intro Suc.IH c(1)) simp_all
      moreover have "unat (c0 + 2) + (2 * k - 1) = unat c0 + (2 * Suc k - 1)" "A \<union> {c0} \<union> ?B = A \<union> insert c0 ?B" using u k by auto
      ultimately show ?thesis by simp
    qed
  qed
qed

section \<open>The sets of the tables\<close>

text \<open>The runs of the table of categories: their lengths and categories. The category 31 is a run of \<open>Lu\<close> and \<open>Ll\<close> in turn.\<close>

function gc_runs :: "u8 list \<Rightarrow> (nat \<times> u32) list option" where
  "gc_runs [] = Some []"
| "gc_runs (b # p) =
     (case gc_run b p of
        None \<Rightarrow> None
      | Some (n, v, p') \<Rightarrow> map_option ((#) (unat n + 1, v)) (gc_runs p'))"
  by pat_completeness auto
termination by (relation "measure length") (auto dest!: gc_run_shorter)

definition gc_selects :: "u32 \<Rightarrow> u32 \<Rightarrow> nat \<Rightarrow> bool" where
  "gc_selects gc_mask v k \<longleftrightarrow> bit gc_mask (if v = 31 then (if even k then 1 else 2) else unat v)"

definition gc_part :: "u32 \<Rightarrow> u32 \<Rightarrow> nat \<Rightarrow> nat \<Rightarrow> u32 set" where
  "gc_part gc_mask v c n = {x. c \<le> unat x \<and> unat x < c + n \<and> gc_selects gc_mask v (unat x - c)}"

fun gc_chars :: "u32 \<Rightarrow> (nat \<times> u32) list \<Rightarrow> nat \<Rightarrow> u32 set" where
  "gc_chars gc_mask [] c = {}"
| "gc_chars gc_mask ((n, v) # rs) c = gc_part gc_mask v c n \<union> gc_chars gc_mask rs (c + n)"

definition gc_table_ok :: "u8 list \<Rightarrow> bool" where
  "gc_table_ok tab \<longleftrightarrow> (case gc_runs tab of None \<Rightarrow> False | Some rs \<Rightarrow> sum_list (map fst rs) \<le> 0x110000)"

lemma bit_test: "drop_bit n (w :: u32) AND 1 \<noteq> 0 \<longleftrightarrow> bit w n"
  by (simp add: and_one_eq bit_iff_odd_drop_bit mod_2_eq_odd)

lemma and_cases: "(w :: u32) AND 6 = (if bit w 1 then 2 else 0) + (if bit w 2 then 4 else 0)" "w AND 4 = (if bit w 2 then 4 else 0)"
proof -
  have "w AND 6 = push_bit 1 (of_bool (bit w 1)) OR push_bit 2 (of_bool (bit w 2))"
    by (rule bit_word_eqI) (auto simp: bit_simps nat_less_iff numeral_eq_Suc less_Suc_eq)
  then show "w AND 6 = (if bit w 1 then 2 else 0) + (if bit w 2 then 4 else 0)" by simp
  have "w AND 4 = push_bit 2 (of_bool (bit w 2))"
    by (rule bit_word_eqI) (auto simp: bit_simps numeral_eq_Suc less_Suc_eq)
  then show "w AND 4 = (if bit w 2 then 4 else 0)" by simp
qed

lemma gc_add_upto:
  assumes cr: "in_capacity cr" "chars_upto (unat c0) A (points cr)" and c: "unat c = unat c0 + n" "0 < n" "unat c + 1 < 4294967296"
  shows "cr_done cr s (chars_upto (unat c) (A \<union> gc_part gc_mask v (unat c0) n)) (gc_add gc_mask v c0 c cr s)"
proof -
  have whole: "cr_done cr s (chars_upto (unat c) (A \<union> gc_part gc_mask v (unat c0) n)) (cr_add_interval cr c0 c s)"
    if "\<And>k. gc_selects gc_mask v k"
    by (rule add_interval_upto [OF cr order_refl]) (use c that in \<open>auto simp: gc_part_def interval_nat\<close>)
  have none: "cr_done cr s (chars_upto (unat c) (A \<union> gc_part gc_mask v (unat c0) n)) (True, cr, s)"
    if "\<And>k. \<not> gc_selects gc_mask v k"
    using nothing_upto [OF cr, of "unat c"] c that by (simp add: gc_part_def)
  show ?thesis
  proof (cases "v = 31")
    case False
    then show ?thesis using whole none by (simp add: gc_add_def gc_selects_def bit_test)
  next
    case True
    have s31: "gc_selects gc_mask v k \<longleftrightarrow> bit gc_mask (if even k then 1 else 2)" for k using True by (simp add: gc_selects_def)
    consider "bit gc_mask 1 = bit gc_mask 2" | (half) "bit gc_mask 1 \<noteq> bit gc_mask 2" by blast
    then show ?thesis
    proof cases
      case 1
      then show ?thesis using whole none s31 True by (cases "bit gc_mask 2") (simp_all add: gc_add_def and_cases Let_def)
    next
      case half
      define d where "d = (if bit gc_mask 2 then 1 else 0 :: u32)"
      have d: "unat (c0 + d) = unat c0 + (if bit gc_mask 2 then 1 else 0)" using c by (simp add: d_def unat_add_u32)
      define k where "k = (unat c - unat (c0 + d) + 1) div 2"
      have k: "unat (c0 + d) + 2 * k \<le> unat c + 1" "unat (c0 + d) + (2 * k - 1) \<le> unat c" "unat c \<le> unat (c0 + d) + 2 * k"
        using c d by (auto simp: k_def)
      have "chars_upto (unat (c0 + d)) A (points cr)" using chars_upto_mono [OF cr(2)] d by simp
      note e = every_second_upto [OF cr(1) this, of k s]
      have p: "unat c0 \<le> x \<and> x < unat c0 + n \<and> bit gc_mask (if even (x - unat c0) then 1 else 2) \<longleftrightarrow>
          unat (c0 + d) \<le> x \<and> x < unat (c0 + d) + 2 * k \<and> even (x - unat (c0 + d))" for x
      proof (cases "unat (c0 + d) \<le> x \<and> x < unat (c0 + d) + 2 * k")
        case True
        then obtain j where j: "x = unat (c0 + d) + j" by (auto dest: le_Suc_ex)
        have "even j \<Longrightarrow> j < 2 * k \<Longrightarrow> x < unat c"
        proof -
          assume "even j" "j < 2 * k"
          then have "j + 2 \<le> 2 * k" by presburger
          then show "x < unat c" using k(1) j by linarith
        qed
        then show ?thesis using True j d c(1) half by (cases "bit gc_mask 2") auto
      next
        case False
        then have "x < unat (c0 + d) \<or> unat c \<le> x" using k(3) by linarith
        then show ?thesis using False d c(1) half by (cases "bit gc_mask 2") (auto simp: not_less less_Suc_eq_le)
      qed
      have "gc_part gc_mask v (unat c0) n =
          {x. unat (c0 + d) \<le> unat x \<and> unat x < unat (c0 + d) + 2 * k \<and> even (unat x - unat (c0 + d))}"
        unfolding gc_part_def s31 p ..
      moreover have "gc_add gc_mask v c0 c cr s = add_every_second k (c0 + d) cr s"
        using True half by (cases "bit gc_mask 2") (simp_all add: gc_add_def and_cases Let_def k_def d_def)
      ultimately show ?thesis using e k c(3) by (auto elim!: cr_done_weaken chars_upto_mono)
    qed
  qed
qed

lemma gc_loop_upto:
  "gc_runs p = Some rs \<Longrightarrow> unat c + sum_list (map fst rs) + 1 < 4294967296 \<Longrightarrow> in_capacity cr \<Longrightarrow> chars_upto (unat c) A (points cr) \<Longrightarrow>
   \<exists>r. gc_loop gc_mask p c cr s = Some r \<and>
     cr_done cr s (chars_upto (unat c + sum_list (map fst rs)) (A \<union> gc_chars gc_mask rs (unat c))) r"
proof (induction gc_mask p c cr s arbitrary: rs A rule: gc_loop.induct)
  case (1 gc_mask c cr s)
  then show ?case using nothing_upto [OF "1.prems"(3,4) order_refl] by simp
next
  case (2 gc_mask b p c cr s)
  obtain n v p' where g: "gc_run b p = Some (n, v, p')" using "2.prems"(1) by (auto split: option.splits)
  obtain rs' where rs: "gc_runs p' = Some rs'" "rs = (unat n + 1, v) # rs'" using "2.prems"(1) g by auto
  have c: "unat (c + n + 1) = unat c + (unat n + 1)" using "2.prems"(2) rs by (simp add: unat_add_u32)
  obtain ok cr' s' where a: "gc_add gc_mask v c (c + n + 1) cr s = (ok, cr', s')" by (metis prod_cases3)
  have d: "cr_done cr s (chars_upto (unat (c + n + 1)) (A \<union> gc_part gc_mask v (unat c) (unat n + 1))) (ok, cr', s')"
    unfolding a [symmetric] by (rule gc_add_upto) (use "2.prems" rs c in simp_all)
  show ?case
  proof (cases ok)
    case True
    have "\<exists>r. gc_loop gc_mask p' (c + n + 1) cr' s' = Some r \<and> cr_done cr' s' (chars_upto (unat (c + n + 1) + sum_list (map fst rs'))
        (A \<union> gc_part gc_mask v (unat c) (unat n + 1) \<union> gc_chars gc_mask rs' (unat (c + n + 1)))) r"
      by (rule "2.IH" [OF g refl refl a [symmetric] refl True rs(1)]) (use "2.prems" rs c d True in \<open>auto simp: cr_done_def\<close>)
    then obtain r where r: "gc_loop gc_mask p' (c + n + 1) cr' s' = Some r" "cr_done cr' s' (chars_upto (unat c + sum_list (map fst rs))
        (A \<union> gc_chars gc_mask rs (unat c))) r" using rs c by (auto simp: Un_assoc add.assoc)
    have "cr_done cr s (chars_upto (unat c + sum_list (map fst rs)) (A \<union> gc_chars gc_mask rs (unat c))) r"
      using d True r(2) by (auto simp: cr_done_def)
    then show ?thesis using g a True r(1) by simp
  qed (use g a d in \<open>auto simp: cr_done_def\<close>)
qed

text \<open>The runs of a table of a binary property; every second one has it.\<close>

function prop_runs :: "u8 list \<Rightarrow> nat list option" where
  "prop_runs [] = Some []"
| "prop_runs (b # p) =
     (if b < 64 then map_option (\<lambda>rs. (unat (drop_bit 3 b) + 1) # (unat (b AND 7) + 1) # rs) (prop_runs p)
      else case prop_run b p of None \<Rightarrow> None | Some (n, p') \<Rightarrow> map_option ((#) (unat n)) (prop_runs p'))"
  by pat_completeness auto
termination by (relation "measure length") (auto dest!: prop_run_shorter)

fun prop_chars :: "bool \<Rightarrow> nat list \<Rightarrow> nat \<Rightarrow> u32 set" where
  "prop_chars bt [] c = {}"
| "prop_chars bt (n # rs) c = (if bt then {x. c \<le> unat x \<and> unat x < c + n} else {}) \<union> prop_chars (\<not> bt) rs (c + n)"

definition prop_table_ok :: "u8 list \<Rightarrow> bool" where
  "prop_table_ok tab \<longleftrightarrow> (case prop_runs tab of None \<Rightarrow> False | Some rs \<Rightarrow> sum_list rs \<le> 0x110000)"

lemma add_if_upto:
  assumes "in_capacity cr" and "chars_upto (unat c0) A (points cr)" and "unat c = unat c0 + n"
  shows "cr_done cr s (chars_upto (unat c) (A \<union> (if bt then {x. unat c0 \<le> unat x \<and> unat x < unat c0 + n} else {}))) (add_if bt c0 c cr s)"
proof (cases bt)
  case True
  then show ?thesis unfolding add_if_def if_P [OF True]
    by (intro add_interval_upto [OF assms(1,2) order_refl]) (use assms(3) in \<open>simp_all add: interval_nat\<close>)
next
  case False
  then show ?thesis unfolding add_if_def using nothing_upto [OF assms(1,2), of "unat c" s] assms(3) by simp
qed

lemma prop_loop_upto:
  "prop_runs p = Some rs \<Longrightarrow> unat c + sum_list rs < 4294967296 \<Longrightarrow> in_capacity cr \<Longrightarrow> chars_upto (unat c) A (points cr) \<Longrightarrow>
   \<exists>r. prop_loop p c bt cr s = Some r \<and> cr_done cr s (chars_upto (unat c + sum_list rs) (A \<union> prop_chars bt rs (unat c))) r"
proof (induction p c bt cr s arbitrary: rs A rule: prop_loop.induct)
  case (1 c bt cr s)
  then show ?case using nothing_upto [OF "1.prems"(3,4) order_refl] by simp
next
  case (2 b p c bt cr s)
  show ?case
  proof (cases "b < 64")
    case True
    obtain rs' where rs: "prop_runs p = Some rs'" "rs = (unat (drop_bit 3 b) + 1) # (unat (b AND 7) + 1) # rs'" using "2.prems"(1) True by auto
    define c1 c2 where "c1 = c + (ucast (drop_bit 3 b) + 1)" and "c2 = c1 + (ucast (b AND 7) + 1)"
    have byte: "unat (ucast x + 1 :: u32) = unat x + 1" for x :: u8
    proof -
      have "unat x < 2 ^ 32" using unat_lt_u8 [of x] by simp
      then have "unat (ucast x :: u32) = unat x" by (simp add: unsigned_ucast_eq take_bit_nat_eq_self_iff)
      then show ?thesis using unat_lt_u8 [of x] by (subst unat_add_u32) simp_all
    qed
    have n: "unat (ucast (drop_bit 3 b) + 1 :: u32) = unat (drop_bit 3 b) + 1" "unat (ucast (b AND 7) + 1 :: u32) = unat (b AND 7) + 1"
      using byte [of "drop_bit 3 b"] byte [of "b AND 7"] by simp_all
    have c: "unat c1 = unat c + (unat (drop_bit 3 b) + 1)" "unat c2 = unat c1 + (unat (b AND 7) + 1)"
      using "2.prems"(2) rs(2) n unfolding c1_def c2_def by (subst unat_add_u32; simp)+
    obtain ok cr' s' where a: "on_ok (add_if bt c c1 cr s) (add_if (\<not> bt) c1 c2) = (ok, cr', s')" by (metis prod_cases3)
    let ?A1 = "A \<union> (if bt then {x. unat c \<le> unat x \<and> unat x < unat c + (unat (drop_bit 3 b) + 1)} else {})"
    let ?A2 = "?A1 \<union> (if \<not> bt then {x. unat c1 \<le> unat x \<and> unat x < unat c1 + (unat (b AND 7) + 1)} else {})"
    have d: "cr_done cr s (chars_upto (unat c2) ?A2) (ok, cr', s')"
      unfolding a [symmetric] using add_if_upto [OF "2.prems"(3,4) c(1)] by (rule cr_done_on_ok) (rule add_if_upto [OF _ _ c(2)])
    show ?thesis
    proof (cases ok)
      case ok: True
      have "\<exists>r. prop_loop p c2 bt cr' s' = Some r \<and> cr_done cr' s' (chars_upto (unat c2 + sum_list rs') (?A2 \<union> prop_chars bt rs' (unat c2))) r"
        by (rule "2.IH"(1) [OF True c1_def c2_def a [symmetric] refl ok rs(1)])
          (use "2.prems" rs c d ok in \<open>auto simp: cr_done_def\<close>)
      moreover have "unat c2 + sum_list rs' = unat c + sum_list rs" "?A2 \<union> prop_chars bt rs' (unat c2) = A \<union> prop_chars bt rs (unat c)"
        by (simp add: rs(2) c) (simp only: rs(2) prop_chars.simps c Un_assoc not_not)
      ultimately obtain r where r: "prop_loop p c2 bt cr' s' = Some r"
          "cr_done cr' s' (chars_upto (unat c + sum_list rs) (A \<union> prop_chars bt rs (unat c))) r" by auto
      have "cr_done cr s (chars_upto (unat c + sum_list rs) (A \<union> prop_chars bt rs (unat c))) r"
        using d ok r(2) by (auto simp: cr_done_def)
      then show ?thesis using a True ok r(1) by (simp add: Let_def c1_def c2_def)
    qed (use a d True in \<open>auto simp: cr_done_def Let_def c1_def c2_def\<close>)
  next
    case False
    obtain n p' where g: "prop_run b p = Some (n, p')" using "2.prems"(1) False by (auto split: option.splits)
    obtain rs' where rs: "prop_runs p' = Some rs'" "rs = unat n # rs'" using "2.prems"(1) g False by auto
    have c: "unat (c + n) = unat c + unat n" using "2.prems"(2) rs by (simp add: unat_add_u32)
    obtain ok cr' s' where a: "add_if bt c (c + n) cr s = (ok, cr', s')" by (metis prod_cases3)
    let ?A1 = "A \<union> (if bt then {x. unat c \<le> unat x \<and> unat x < unat c + unat n} else {})"
    have d: "cr_done cr s (chars_upto (unat (c + n)) ?A1) (ok, cr', s')"
      unfolding a [symmetric] by (rule add_if_upto [OF "2.prems"(3,4) c])
    show ?thesis
    proof (cases ok)
      case True
      have "\<exists>r. prop_loop p' (c + n) (\<not> bt) cr' s' = Some r \<and>
          cr_done cr' s' (chars_upto (unat (c + n) + sum_list rs') (?A1 \<union> prop_chars (\<not> bt) rs' (unat (c + n)))) r"
        by (rule "2.IH"(2) [OF False g refl a [symmetric] refl True rs(1)]) (use "2.prems" rs c d True in \<open>auto simp: cr_done_def\<close>)
      then obtain r where r: "prop_loop p' (c + n) (\<not> bt) cr' s' = Some r"
          "cr_done cr' s' (chars_upto (unat c + sum_list rs) (A \<union> prop_chars bt rs (unat c))) r"
        using rs(2) c by (auto simp: Un_assoc add.assoc)
      have "cr_done cr s (chars_upto (unat c + sum_list rs) (A \<union> prop_chars bt rs (unat c))) r"
        using d True r(2) by (auto simp: cr_done_def)
      then show ?thesis using g a False True r(1) by simp
    qed (use g a d False in \<open>auto simp: cr_done_def\<close>)
  qed
qed

text \<open>The code points that an entry of the table of case conversions stands for.\<close>

definition case_part :: "u32 \<Rightarrow> u32 \<Rightarrow> u32 set" where
  "case_part case_mask v =
     (case case_entry v of (type, code, len) \<Rightarrow>
        (let both = (bit case_mask 0 \<and> (bit case_mask 1 \<or> bit case_mask 2)); u = of_bool (bit case_mask 0)
         in if type = RUN_TYPE_UL \<and> \<not> both
            then {x. unat code + u \<le> unat x \<and> unat x < unat code + unat len + u \<and> even (unat x - (unat code + u))}
            else if type = RUN_TYPE_LSU \<and> \<not> both then {x. unat code + u \<le> unat x \<and> unat x < unat code + u + 2}
            else {x. unat code \<le> unat x \<and> unat x < unat code + unat len}))"

fun case_chars :: "u32 \<Rightarrow> u32 \<Rightarrow> u32 list \<Rightarrow> u32 set" where
  "case_chars case_mask run_mask [] = {}"
| "case_chars case_mask run_mask (v # vs) =
     (if bit run_mask (unat (fst (case_entry v))) then case_part case_mask v else {}) \<union> case_chars case_mask run_mask vs"

text \<open>The entries are in order and do not overlap; the runs of pairs have pairs.\<close>

fun case_table_ok :: "nat \<Rightarrow> u32 list \<Rightarrow> bool" where
  "case_table_ok c [] \<longleftrightarrow> True"
| "case_table_ok c (v # vs) \<longleftrightarrow>
     (case case_entry v of (type, code, len) \<Rightarrow>
        c \<le> unat code \<and> (type = RUN_TYPE_UL \<longrightarrow> even (unat len)) \<and> (type = RUN_TYPE_LSU \<longrightarrow> len = 3) \<and>
        case_table_ok (unat code + unat len) vs)"

lemma case_entry_bounds:
  assumes "case_entry v = (type, code, len)"
  shows "unat code < 131072" "unat len < 128"
proof -
  have "code = drop_bit 15 v" "len = drop_bit 8 v AND 127" using assms by (simp_all add: case_entry_def)
  then show "unat code < 131072" using unat_lt_u32 [of v] by (simp add: unat_drop_bit less_mult_imp_div_less)
  have "len = take_bit 7 (drop_bit 8 v)" using \<open>len = drop_bit 8 v AND 127\<close> by (simp add: take_bit_eq_mask mask_eq_exp_minus_1)
  then show "unat len < 128" using take_bit_nat_less_exp [of 7 "unat (drop_bit 8 v)"] by (simp add: unsigned_take_bit_eq)
qed

lemma case_add_upto:
  assumes cr: "in_capacity cr" "chars_upto (unat code) A (points cr)" and e: "case_entry v = (type, code, len)"
    and t: "type = RUN_TYPE_UL \<longrightarrow> even (unat len)" "type = RUN_TYPE_LSU \<longrightarrow> len = 3"
  shows "cr_done cr s (chars_upto (unat code + unat len) (A \<union> case_part case_mask v)) (case_add case_mask v cr s)"
proof -
  note b = case_entry_bounds [OF e]
  define u where "u = bit case_mask 0"
  define both where "both \<longleftrightarrow> (bit case_mask 0 \<and> (bit case_mask 1 \<or> bit case_mask 2))"
  have uc: "case_mask AND 1 \<noteq> 0 \<longleftrightarrow> u" using bit_test [of 0 case_mask] by (simp add: u_def)
  have bc: "(case_mask AND 1 \<noteq> 0 \<and> case_mask AND (2 OR 4) \<noteq> 0) = both" unfolding uc by (simp add: both_def u_def and_cases)
  have plus: "unat (code + k) = unat code + unat k" if "unat k < 200" for k using b that by (simp add: unat_add_u32)
  have add: "case_add case_mask v cr s =
     (if type = RUN_TYPE_UL \<and> \<not> both then add_every_second ((unat len + 1) div 2) (code + (if u then 1 else 0)) cr s
      else if type = RUN_TYPE_LSU \<and> \<not> both
      then on_ok (add_if (\<not> u) code (code + 1) cr s) (\<lambda>cr s. on_ok (cr_add_interval cr (code + 1) (code + 2) s) (add_if u (code + 2) (code + 3)))
      else cr_add_interval cr code (code + len) s)"
    unfolding case_add_def e prod.case Let_def bc unfolding uc ..
  have part: "case_part case_mask v =
     (if type = RUN_TYPE_UL \<and> \<not> both
      then {x. unat code + of_bool u \<le> unat x \<and> unat x < unat code + unat len + of_bool u \<and> even (unat x - (unat code + of_bool u))}
      else if type = RUN_TYPE_LSU \<and> \<not> both then {x. unat code + of_bool u \<le> unat x \<and> unat x < unat code + of_bool u + 2}
      else {x. unat code \<le> unat x \<and> unat x < unat code + unat len})"
    unfolding case_part_def e prod.case Let_def both_def [symmetric] unfolding u_def [symmetric] ..
  consider "type = RUN_TYPE_UL \<and> \<not> both" | "type = RUN_TYPE_LSU \<and> \<not> both" | "\<not> (type = RUN_TYPE_UL \<and> \<not> both)" "\<not> (type = RUN_TYPE_LSU \<and> \<not> both)" by blast
  then show ?thesis
  proof cases
    case 1
    define k where "k = (unat len + 1) div 2"
    have k: "2 * k = unat len" using t(1) 1 by (auto simp: k_def elim!: evenE)
    define d where "d = code + (if u then 1 else 0)"
    have d: "unat d = unat code + of_bool u" using plus by (simp add: d_def)
    have "chars_upto (unat d) A (points cr)" using chars_upto_mono [OF cr(2)] d by simp
    note every = every_second_upto [OF cr(1) this, of k s]
    have add: "case_add case_mask v cr s = add_every_second k d cr s" using 1 by (simp add: add k_def d_def)
    show ?thesis
    proof (cases "k = 0")
      case True
      then have "case_part case_mask v = {}" using 1 k by (auto simp: part)
      then show ?thesis using nothing_upto [OF cr, of "unat code + unat len" s] True by (simp add: add)
    next
      case False
      have "case_part case_mask v = {x. unat d \<le> unat x \<and> unat x < unat d + 2 * k \<and> even (unat x - unat d)}"
        using 1 d k by (simp add: part add.commute add.left_commute)
      moreover have "unat d + (2 * k - 1) \<le> unat code + unat len" using d k False by (cases u) auto
      ultimately show ?thesis using every b d k unfolding add by (auto elim!: cr_done_weaken chars_upto_mono)
    qed
  next
    case 2
    then have len: "len = 3" using t(2) by blast
    have n: "unat (code + 1) = unat code + 1" "unat (code + 2) = unat code + 2" "unat (code + 3) = unat code + 3" using plus by simp_all
    define A1 A2 A3 where "A1 = A \<union> (if \<not> u then {x. unat code \<le> unat x \<and> unat x < unat code + 1} else {})"
      and "A2 = A1 \<union> {code + 1..<code + 2}" and "A3 = A2 \<union> (if u then {x. unat (code + 2) \<le> unat x \<and> unat x < unat (code + 2) + 1} else {})"
    have first: "cr_done cr s (chars_upto (unat (code + 1)) A1) (add_if (\<not> u) code (code + 1) cr s)"
      unfolding A1_def by (rule add_if_upto [OF cr n(1)])
    have e: "case_add case_mask v cr s =
        on_ok (add_if (\<not> u) code (code + 1) cr s) (\<lambda>cr s. on_ok (cr_add_interval cr (code + 1) (code + 2) s) (add_if u (code + 2) (code + 3)))"
      using 2 by (simp add: add)
    have "cr_done cr s (chars_upto (unat (code + 3)) A3) (case_add case_mask v cr s)"
      unfolding e
    proof (rule cr_done_on_ok [OF first])
      fix cr' s'
      assume c: "in_capacity cr'" "chars_upto (unat (code + 1)) A1 (points cr')"
      have "cr_done cr' s' (chars_upto (unat (code + 2)) A2) (cr_add_interval cr' (code + 1) (code + 2) s')"
        by (rule add_interval_upto [OF c order_refl]) (simp_all add: n A2_def)
      then show "cr_done cr' s' (chars_upto (unat (code + 3)) A3)
          (on_ok (cr_add_interval cr' (code + 1) (code + 2) s') (add_if u (code + 2) (code + 3)))"
        unfolding A3_def by (rule cr_done_on_ok) (rule add_if_upto, simp_all add: n)
    qed
    moreover have "A3 = A \<union> case_part case_mask v"
      unfolding A3_def A2_def A1_def interval_nat n part using 2 by auto
    ultimately show ?thesis by (simp add: n len)
  next
    case 3
    show ?thesis unfolding add if_not_P [OF 3(1)] if_not_P [OF 3(2)]
      by (rule add_interval_upto [OF cr order_refl]) (use plus [of len] b in \<open>auto simp: part if_not_P [OF 3(1)] if_not_P [OF 3(2)] interval_nat\<close>)
  qed
qed

lemma case_loop_upto:
  "case_table_ok c vs \<Longrightarrow> in_capacity cr \<Longrightarrow> chars_upto c A (points cr) \<Longrightarrow>
   cr_done cr s (lists_set (A \<union> case_chars case_mask run_mask vs)) (case_loop case_mask run_mask vs cr s)"
proof (induction vs arbitrary: c cr A s)
  case Nil
  then show ?case by (simp add: cr_done_return chars_upto_def)
next
  case (Cons v vs)
  obtain type code len where e: "case_entry v = (type, code, len)" by (metis prod_cases3)
  have ok: "c \<le> unat code" "type = RUN_TYPE_UL \<longrightarrow> even (unat len)" "type = RUN_TYPE_LSU \<longrightarrow> len = 3" "case_table_ok (unat code + unat len) vs"
    using Cons.prems(1) e by auto
  define A1 where "A1 = A \<union> (if bit run_mask (unat type) then case_part case_mask v else {})"
  have c: "chars_upto (unat code) A (points cr)" using chars_upto_mono [OF Cons.prems(3) ok(1)] .
  have "cr_done cr s (chars_upto (unat code + unat len) A1)
      (if bit run_mask (unat type) then case_add case_mask v cr s else (True, cr, s))"
    using case_add_upto [OF Cons.prems(2) c e ok(2,3)] nothing_upto [OF Cons.prems(2) c] by (auto simp: A1_def)
  then have "cr_done cr s (lists_set (A1 \<union> case_chars case_mask run_mask vs))
      (on_ok (if bit run_mask (unat type) then case_add case_mask v cr s else (True, cr, s)) (case_loop case_mask run_mask vs))"
    by (rule cr_done_on_ok) (rule Cons.IH [OF ok(4)])
  then show ?case by (simp add: e bit_test A1_def Un_assoc)
qed

section \<open>The leaves\<close>

text \<open>The sets of the leaves, and the tables that they need.\<close>

fun leaf_chars :: "unicode_tables \<Rightarrow> prop_op \<Rightarrow> u32 set" where
  "leaf_chars T (POP_GC a) = gc_chars a (the (gc_runs (gc_table T))) 0"
| "leaf_chars T (POP_PROP a) = prop_chars False (the (prop_runs (prop_table T a))) 0"
| "leaf_chars T (POP_CASE a) = (if a = 0 then {} else case_chars a (case_run_mask a) (case_table T))"
| "leaf_chars T _ = {}"

fun leaf_ok :: "unicode_tables \<Rightarrow> prop_op \<Rightarrow> bool" where
  "leaf_ok T (POP_GC a) \<longleftrightarrow> gc_table_ok (gc_table T)"
| "leaf_ok T (POP_PROP a) \<longleftrightarrow> prop_table_ok (prop_table T a)"
| "leaf_ok T (POP_CASE a) \<longleftrightarrow> case_table_ok 0 (case_table T)"
| "leaf_ok T _ \<longleftrightarrow> False"

lemma chars_upto_init: "in_capacity cr_init" "owned cr_init = 0" "chars_upto 0 {} (points cr_init)"
  by (simp_all add: in_capacity_def owned_def cr_init_def chars_upto_def lists_set_def cr_mem_def)

lemma leaf_done:
  assumes "leaf_ok T op" and "length st < POP_STACK_LEN_MAX"
  shows "\<exists>ok cr s'. prop_step T op st s = Some (ok, cr # st, s') \<and> cr_done cr_init s (lists_set (leaf_chars T op)) (ok, cr, s')"
proof -
  have leaf: "\<exists>ok cr s'. pop_leaf f st s = Some (ok, cr # st, s') \<and> cr_done cr_init s (lists_set B) (ok, cr, s')"
    if "f cr_init s = Some r" "cr_done cr_init s (lists_set B) r" for f r B
    using that assms(2) by (cases r) (simp add: pop_leaf_def)
  have upto: "cr_done cr_init s (chars_upto c B) r \<Longrightarrow> cr_done cr_init s (lists_set B) r" for c B r
    by (auto simp: chars_upto_def elim: cr_done_weaken)
  show ?thesis
  proof (cases op)
    case (POP_GC a)
    then obtain rs where rs: "gc_runs (gc_table T) = Some rs" "sum_list (map fst rs) \<le> 0x110000"
      using assms(1) by (auto simp: gc_table_ok_def split: option.splits)
    have "\<exists>r. gc_loop a (gc_table T) 0 cr_init s = Some r \<and>
        cr_done cr_init s (chars_upto (unat (0 :: u32) + sum_list (map fst rs)) ({} \<union> gc_chars a rs (unat (0 :: u32)))) r"
      by (rule gc_loop_upto [OF rs(1) _ chars_upto_init(1)]) (use rs(2) chars_upto_init(3) in simp_all)
    then show ?thesis using POP_GC rs(1) leaf upto by (fastforce simp: unicode_general_category1_def)
  next
    case (POP_PROP a)
    then obtain rs where rs: "prop_runs (prop_table T a) = Some rs" "sum_list rs \<le> 0x110000"
      using assms(1) by (auto simp: prop_table_ok_def split: option.splits)
    have "\<exists>r. prop_loop (prop_table T a) 0 False cr_init s = Some r \<and>
        cr_done cr_init s (chars_upto (unat (0 :: u32) + sum_list rs) ({} \<union> prop_chars False rs (unat (0 :: u32)))) r"
      by (rule prop_loop_upto [OF rs(1) _ chars_upto_init(1)]) (use rs(2) chars_upto_init(3) in simp_all)
    then show ?thesis using POP_PROP rs(1) leaf upto by (fastforce simp: unicode_prop1_def)
  next
    case (POP_CASE a)
    have "cr_done cr_init s (lists_set (leaf_chars T op)) (unicode_case1 (case_table T) cr_init a s)"
      using POP_CASE assms(1) case_loop_upto [OF _ chars_upto_init(1,3), of "case_table T" s a "case_run_mask a"]
        upto [OF nothing_upto [OF chars_upto_init(1,3) order_refl]]
      by (simp add: unicode_case1_def)
    then show ?thesis using POP_CASE leaf by simp
  qed (use assms(1) in simp_all)
qed

section \<open>The runs of the stack machine\<close>

text \<open>The contract of a run: as \<open>cr_done\<close>, for a whole stack.\<close>

definition owned_all :: "char_range list \<Rightarrow> int" where
  "owned_all stack = sum_list (map owned stack)"

definition exec_done ::
  "char_range list \<Rightarrow> mem \<Rightarrow> char_range list \<Rightarrow> (u32 list \<Rightarrow> bool) \<Rightarrow> stack_result \<Rightarrow> bool" where
  "exec_done stack s base Q r \<longleftrightarrow> (case r of None \<Rightarrow> False | Some (ok, stack', s') \<Rightarrow>
     (mem_outcomes s = [] \<longrightarrow> ok \<and> mem_outcomes s' = []) \<and>
     mem_live s' - owned_all stack' = mem_live s - owned_all stack \<and>
     (ok \<longrightarrow> (\<exists>r. stack' = r # base \<and> in_capacity r \<and> Q (points r))))"

lemma prop_exec_append:
  "prop_exec T (xs @ ys) stack s =
     (case prop_exec T xs stack s of
        None \<Rightarrow> None
      | Some (ok, stack', s') \<Rightarrow> (if ok then prop_exec T ys stack' s' else Some (False, stack', s')))"
  by (induction xs arbitrary: stack s) (auto split: option.splits)

lemma exec_done_seq:
  assumes "exec_done st s base Q (prop_exec T xs st s)"
    and "\<And>r s'. in_capacity r \<Longrightarrow> Q (points r) \<Longrightarrow>
      exec_done (r # base) s' base' R (prop_exec T ys (r # base) s')"
  shows "exec_done st s base' R (prop_exec T (xs @ ys) st s)"
proof -
  obtain ok st' s' where r: "prop_exec T xs st s = Some (ok, st', s')"
    using assms(1) by (auto simp: exec_done_def split: option.splits)
  show ?thesis
  proof (cases ok)
    case False
    then show ?thesis using assms(1) by (simp add: r prop_exec_append exec_done_def)
  next
    case True
    then obtain r where st': "st' = r # base" "in_capacity r" "Q (points r)"
      using assms(1) by (auto simp: r exec_done_def)
    have "exec_done (r # base) s' base' R (prop_exec T ys (r # base) s')" using assms(2) st' by blast
    then show ?thesis using assms(1) True st'(1)
      by (auto simp: r prop_exec_append exec_done_def split: option.splits)
  qed
qed

lemma pop_binary_done:
  assumes "lists_set A (points cr1)" and "lists_set B (points cr2)" and "length base + 2 < POP_STACK_LEN_MAX"
  shows "exec_done (cr2 # cr1 # base) s base (represents (set_op op A B)) (pop_binary op (cr2 # cr1 # base) s)"
proof -
  obtain ok cr3 s' where r: "cr_op cr_init (points cr1) (points cr2) op s = (ok, cr3, s')"
    by (cases "cr_op cr_init (points cr1) (points cr2) op s")
  have "cr_done cr_init s (represents (set_op op A B)) (ok, cr3, s')"
    unfolding r [symmetric] using assms(1,2) by (rule cr_op_represents)
  moreover have "owned cr_init = 0" by (simp add: owned_def cr_init_def)
  moreover have "mem_live (cr_free cr2 (cr_free cr1 s')) = mem_live s' - owned cr1 - owned cr2"
    "mem_outcomes (cr_free cr2 (cr_free cr1 s')) = mem_outcomes s'"
    by (auto simp: cr_free_def owned_def js_free_def)
  ultimately show ?thesis using assms(3)
    by (auto simp: pop_binary_def r cr_done_def exec_done_def owned_all_def)
qed

lemma binary_done:
  assumes a: "\<And>st s. slots a + length st \<le> POP_STACK_LEN_MAX \<Longrightarrow> exec_done st s st Q1 (prop_exec T (compile a) st s)"
    and b: "\<And>st s. slots b + length st \<le> POP_STACK_LEN_MAX \<Longrightarrow> exec_done st s st Q2 (prop_exec T (compile b) st s)"
    and len: "max (slots a) (max (Suc (slots b)) 3) + length st \<le> POP_STACK_LEN_MAX"
    and bin: "\<And>stack s. prop_step T instr stack s = pop_binary op stack s"
  and imp: "\<And>ps. Q1 ps \<Longrightarrow> lists_set A ps" "\<And>ps. Q2 ps \<Longrightarrow> lists_set B ps"
  shows "exec_done st s st (represents (set_op op A B)) (prop_exec T (compile a @ compile b @ [instr]) st s)"
proof (rule exec_done_seq)
  show "exec_done st s st Q1 (prop_exec T (compile a) st s)" using len by (intro a) simp
next
  fix cr1 :: char_range and s1 assume 1: "Q1 (points cr1)"
  show "exec_done (cr1 # st) s1 st (represents (set_op op A B)) (prop_exec T (compile b @ [instr]) (cr1 # st) s1)"
  proof (rule exec_done_seq)
    show "exec_done (cr1 # st) s1 (cr1 # st) Q2 (prop_exec T (compile b) (cr1 # st) s1)"
      using len by (intro b) simp
  next
    fix cr2 :: char_range and s2 assume "Q2 (points cr2)"
    then have "exec_done (cr2 # cr1 # st) s2 st (represents (set_op op A B)) (pop_binary op (cr2 # cr1 # st) s2)"
      using 1 imp len by (intro pop_binary_done) auto
    then show "exec_done (cr2 # cr1 # st) s2 st (represents (set_op op A B)) (prop_exec T [instr] (cr2 # cr1 # st) s2)"
      by (auto simp: bin exec_done_def split: option.splits)
  qed
qed

text \<open>The result of an expression is in the canonical form, unless it is a leaf.\<close>

definition gives :: "unicode_tables \<Rightarrow> prop_expr \<Rightarrow> u32 list \<Rightarrow> bool" where
  "gives T e ps \<longleftrightarrow> lists_set (denotes (leaf_chars T) e) ps \<and> ((\<exists>op. e = Leaf op) \<or> canonical ps)"

lemma gives_lists: "gives T e ps \<Longrightarrow> lists_set (denotes (leaf_chars T) e) ps"
  by (simp add: gives_def)

lemma gives_represents: "\<not> (\<exists>op. e = Leaf op) \<Longrightarrow> gives T e = represents (denotes (leaf_chars T) e)"
  by (auto simp: gives_def represents_def lists_set_def canonical_def sorted_imp_le fun_eq_iff)

lemma compile_done:
  "list_all (leaf_ok T) (leaves e) \<Longrightarrow> slots e + length st \<le> POP_STACK_LEN_MAX \<Longrightarrow>
   exec_done st s st (gives T e) (prop_exec T (compile e) st s)"
proof (induction e arbitrary: st s)
  case (Leaf op)
  have "leaf_ok T op" "length st < POP_STACK_LEN_MAX" using Leaf.prems by simp_all
  from leaf_done [OF this, of s] obtain ok cr s' where r: "prop_step T op st s = Some (ok, cr # st, s')"
    "cr_done cr_init s (lists_set (leaf_chars T op)) (ok, cr, s')" by blast
  then show ?case using chars_upto_init(2) by (auto simp: cr_done_def exec_done_def owned_all_def gives_def)
next
  case (Union a b)
  have "exec_done st s st (represents (set_op CR_OP_UNION (denotes (leaf_chars T) a) (denotes (leaf_chars T) b)))
      (prop_exec T (compile a @ compile b @ [POP_UNION]) st s)"
    by (rule binary_done [of a "gives T a" T b "gives T b"]) (use Union in \<open>simp_all add: gives_lists\<close>)
  then show ?case by (simp add: gives_represents set_op_def)
next
  case (Inter a b)
  have "exec_done st s st (represents (set_op CR_OP_INTER (denotes (leaf_chars T) a) (denotes (leaf_chars T) b)))
      (prop_exec T (compile a @ compile b @ [POP_INTER]) st s)"
    by (rule binary_done [of a "gives T a" T b "gives T b"]) (use Inter in \<open>simp_all add: gives_lists\<close>)
  then show ?case by (simp add: gives_represents set_op_def)
next
  case (Xor a b)
  have "exec_done st s st (represents (set_op CR_OP_XOR (denotes (leaf_chars T) a) (denotes (leaf_chars T) b)))
      (prop_exec T (compile a @ compile b @ [POP_XOR]) st s)"
    by (rule binary_done [of a "gives T a" T b "gives T b"]) (use Xor in \<open>simp_all add: gives_lists\<close>)
  then show ?case by (simp add: gives_represents set_op_def)
next
  case (Invert a)
  have "exec_done st s st (represents (- denotes (leaf_chars T) a - {UINT32_MAX})) (prop_exec T (compile a @ [POP_INVERT]) st s)"
  proof (rule exec_done_seq)
    show "exec_done st s st (gives T a) (prop_exec T (compile a) st s)" using Invert by (intro Invert.IH) auto
  next
    fix cr :: char_range and s1 assume 2: "in_capacity cr" "gives T a (points cr)"
    obtain ok cr' s' where r: "cr_invert cr s1 = (ok, cr', s')" by (cases "cr_invert cr s1")
    have "cr_done cr s1 (cr_inverse_of (points cr)) (ok, cr', s')"
      unfolding r [symmetric] using 2 by (intro cr_invert_done) (auto simp: gives_def lists_set_def)
    then show "exec_done (cr # st) s1 st (represents (- denotes (leaf_chars T) a - {UINT32_MAX})) (prop_exec T [POP_INVERT] (cr # st) s1)"
      using 2 by (auto simp: r cr_done_def exec_done_def owned_all_def represents_def cr_inverse_of_def gives_def lists_set_def)
  qed
  then show ?case by (simp add: gives_represents)
qed

section \<open>Properties\<close>

text \<open>C21: the operation sequences of \<open>unicode_prop_ops\<close> that need at most four stack slots run without failing an
  assertion and compute the set they denote, as points in order, in the canonical form when the sequence is not
  a single leaf; the sets at the leaves are those that the tables encode, for any tables that are complete, that
  describe at most 0x110000 code points and whose case conversions are in order. Only a failed allocation
  makes the call fail, and then the whole stack is freed.\<close>

theorem unicode_prop_ops_correct:
  assumes "list_all (leaf_ok T) (leaves e)" and "slots e \<le> POP_STACK_LEN_MAX" and "in_capacity cr"
  shows "\<exists>ok cr' s'. unicode_prop_ops T cr (compile e) s = Some (ok, cr', s') \<and>
    (ok \<or> mem_outcomes s \<noteq> []) \<and> mem_live s' = mem_live s + owned cr' - owned cr \<and>
    (\<not> ok \<or> sorted (points cr') \<and> even (length (points cr')) \<and> {v. cr_mem (points cr') v} = denotes (leaf_chars T) e \<and>
      ((\<exists>op. e = Leaf op) \<or> canonical (points cr')))"
proof -
  have "exec_done [] s [] (gives T e) (prop_exec T (compile e) [] s)"
    using assms(1,2) by (intro compile_done) auto
  then obtain ok st s1 where r: "prop_exec T (compile e) [] s = Some (ok, st, s1)"
    "mem_outcomes s = [] \<longrightarrow> ok \<and> mem_outcomes s1 = []" "mem_live s1 = mem_live s + owned_all st"
    "ok \<longrightarrow> (\<exists>r. st = [r] \<and> in_capacity r \<and> gives T e (points r))"
    by (auto simp: exec_done_def owned_all_def split: option.splits)
  show ?thesis
  proof (cases ok)
    case False
    have "mem_live (fold cr_free st s1) = mem_live s1 - owned_all st" for st :: "char_range list" and s1
      by (induction st arbitrary: s1) (auto simp: owned_all_def owned_def cr_free_def js_free_def)
    then show ?thesis using False r by (auto simp: unicode_prop_ops_def intro!: exI [of _ False])
  next
    case True
    then obtain x where x: "st = [x]" "gives T e (points x)" using r(4) by auto
    obtain ok' cr' s2 where c: "cr_copy cr x s1 = (ok', cr', s2)" by (cases "cr_copy cr x s1")
    have d: "cr_done cr s1 (\<lambda>ps. ps = points x) (ok', cr', s2)"
      unfolding c [symmetric] using assms(3) by (rule cr_copy_done)
    have "ok' \<Longrightarrow> sorted (points cr') \<and> even (length (points cr')) \<and> {v. cr_mem (points cr') v} = denotes (leaf_chars T) e \<and>
        ((\<exists>op. e = Leaf op) \<or> canonical (points cr'))"
      using d x(2) by (auto simp: cr_done_def gives_def lists_set_def)
    then show ?thesis using True r x d c
      by (auto simp: unicode_prop_ops_def cr_done_def owned_all_def owned_def cr_free_def js_free_def)
  qed
qed

text \<open>The first runs of the tables of the repository: the categories up to \<open>Z\<close>, white space, and two case conversions.\<close>

definition some_tables :: unicode_tables where
  "some_tables = \<lparr>gc_table = [250, 24, 23, 86, 13, 86, 18, 19, 22, 12, 22, 17, 54, 233, 2, 54, 76, 54, 225, 18],
     prop_table = (\<lambda>_. [136, 132, 145]), case_table = [0x209a30, 0x309a00]\<rparr>"

theorem unicode_prop_ops_correct_witness:
  "\<exists>cr' s'. unicode_prop_ops some_tables cr_init [POP_GC 2, POP_CASE 2, POP_INTER, POP_PROP 0, POP_UNION] no_failure = Some (True, cr', s') \<and>
    canonical (points cr') \<and>
    {v. cr_mem (points cr') v} = leaf_chars some_tables (POP_GC 2) \<inter> leaf_chars some_tables (POP_CASE 2) \<union> leaf_chars some_tables (POP_PROP 0)"
proof -
  have "gc_table_ok (gc_table some_tables)" by (simp add: gc_table_ok_def some_tables_def gc_run_def)
  moreover have "prop_table_ok (prop_table some_tables 0)" by (simp add: prop_table_ok_def some_tables_def prop_run_def)
  moreover have "case_table_ok 0 (case_table some_tables)" by (simp add: some_tables_def case_entry_def)
  moreover have "in_capacity cr_init" by (simp add: in_capacity_def cr_init_def)
  ultimately show ?thesis
    using unicode_prop_ops_correct [of some_tables "Union (Inter (Leaf (POP_GC 2)) (Leaf (POP_CASE 2))) (Leaf (POP_PROP 0))" cr_init no_failure]
    by (auto simp: POP_STACK_LEN_MAX_def no_failure_def)
qed

end
