(* ===== verification/Codec.thy ===== *)
theory Codec
  imports Main
begin

text \<open>
  The interface of the encodings of single items into sequences that the engine reads back one item at
  a time (UTF-8 code points, LEB128 integers): decoding an encoded item gives the item and the rest of
  the input. It follows that sequences of items can be read back and that no encoding is a prefix
  of another.
\<close>

locale codec =
  fixes valid :: "'a \<Rightarrow> bool" and encode :: "'a \<Rightarrow> 'b list" and decode :: "'b list \<Rightarrow> ('a \<times> 'b list) option"
  assumes decode_encode: "valid x \<Longrightarrow> decode (encode x @ rest) = Some (x, rest)"
    and encode_nonempty: "valid x \<Longrightarrow> encode x \<noteq> []"
begin

definition encode_all :: "'a list \<Rightarrow> 'b list" where
  "encode_all xs = concat (map encode xs)"

text \<open>Read \<open>n\<close> items.\<close>

fun decode_n :: "nat \<Rightarrow> 'b list \<Rightarrow> ('a list \<times> 'b list) option" where
  "decode_n 0 bs = Some ([], bs)"
| "decode_n (Suc n) bs =
     (case decode bs of
        None \<Rightarrow> None
      | Some (x, bs') \<Rightarrow> map_option (\<lambda>(xs, r). (x # xs, r)) (decode_n n bs'))"

lemma decode_n_encode_all:
  "list_all valid xs \<Longrightarrow> decode_n (length xs) (encode_all xs @ rest) = Some (xs, rest)"
  by (induction xs) (auto simp: encode_all_def decode_encode)

lemma prefix_free: "valid x \<Longrightarrow> valid y \<Longrightarrow> encode x @ r = encode y @ r' \<Longrightarrow> x = y \<and> r = r'"
proof -
  assume v: "valid x" "valid y" and e: "encode x @ r = encode y @ r'"
  have "Some (x, r) = decode (encode y @ r')" using decode_encode [OF v(1), of r] by (simp only: e)
  also have "\<dots> = Some (y, r')" by (rule decode_encode [OF v(2)])
  finally show "x = y \<and> r = r'" by (simp only: option.inject prod.inject)
qed

lemma encode_all_simps: "encode_all [] = []" "encode_all (x # xs) = encode x @ encode_all xs"
  by (simp_all add: encode_all_def)

lemma encode_all_inj: "list_all valid xs \<Longrightarrow> list_all valid ys \<Longrightarrow> encode_all xs = encode_all ys \<Longrightarrow> xs = ys"
proof (induction xs ys rule: list_induct2')
  case (2 x xs)
  then show ?case using encode_nonempty [of x] by (simp add: encode_all_simps)
next
  case (3 y ys)
  then show ?case using encode_nonempty [of y] by (simp add: encode_all_simps)
next
  case (4 x xs y ys)
  have "x = y \<and> encode_all xs = encode_all ys"
    by (rule prefix_free) (use "4.prems" in \<open>simp_all add: encode_all_simps\<close>)
  then show ?case using "4.IH" "4.prems"(1,2) by simp
qed simp

lemma length_encode_all: "list_all valid xs \<Longrightarrow> length xs \<le> length (encode_all xs)"
proof (induction xs)
  case (Cons x xs)
  then have "1 \<le> length (encode x)" using encode_nonempty [of x] by (cases "encode x") auto
  moreover have "length xs \<le> length (encode_all xs)" using Cons by simp
  ultimately show ?case by (simp add: encode_all_def)
qed (simp add: encode_all_def)

end

end
