(* ===== verification/Utf8.thy ===== *)
theory Utf8
  imports Prelude Codec
begin

text \<open>
  The UTF-8 and UTF-16 routines of \<open>src/qjs/cutils.h\<close>: surrogates, \<open>utf8_encode\<close>, \<open>utf8_decode\<close>,
  \<open>utf8_scan\<close> and the conversions of whole buffers. A pointer into a buffer is the list of the bytes
  from it on; reading past the end gives the terminating 0. Code points are 32-bit words as in the
  code, so lone surrogates are encoded and decoded as the code does.
\<close>

section \<open>Surrogates\<close>

definition is_surrogate :: "u32 \<Rightarrow> bool" where
  "is_surrogate c \<longleftrightarrow> drop_bit 11 c = drop_bit 11 0xD800"

definition is_hi_surrogate :: "u32 \<Rightarrow> bool" where
  "is_hi_surrogate c \<longleftrightarrow> drop_bit 10 c = drop_bit 10 0xD800"

definition is_lo_surrogate :: "u32 \<Rightarrow> bool" where
  "is_lo_surrogate c \<longleftrightarrow> drop_bit 10 c = drop_bit 10 0xDC00"

definition get_hi_surrogate :: "u32 \<Rightarrow> u32" where
  "get_hi_surrogate c = drop_bit 10 c - drop_bit 10 0x10000 + 0xD800"

definition get_lo_surrogate :: "u32 \<Rightarrow> u32" where
  "get_lo_surrogate c = (c AND 0x3FF) OR 0xDC00"

definition from_surrogate :: "u32 \<Rightarrow> u32 \<Rightarrow> u32" where
  "from_surrogate hi lo = 65536 + 1024 * (hi AND 1023) + (lo AND 1023)"

section \<open>One code point\<close>

definition utf8_encode_len :: "u32 \<Rightarrow> nat" where
  "utf8_encode_len c =
     (if c < 0x80 then 1 else if c < 0x800 then 2 else if c < 0x10000 then 3
      else if c < 0x110000 then 4 else 3)"

text \<open>The bytes stored in \<open>buf\<close>; their number is the return value.\<close>

definition utf8_encode :: "u32 \<Rightarrow> u8 list" where
  "utf8_encode c =
     (if c < 0x80 then [ucast c]
      else if c < 0x800 then [ucast (drop_bit 6 c OR 0xC0), ucast ((c AND 0x3F) OR 0x80)]
      else if c < 0x10000 then
        [ucast (drop_bit 12 c OR 0xE0), ucast ((drop_bit 6 c AND 0x3F) OR 0x80), ucast ((c AND 0x3F) OR 0x80)]
      else if c < 0x110000 then
        [ucast (drop_bit 18 c OR 0xF0), ucast ((drop_bit 12 c AND 0x3F) OR 0x80),
         ucast ((drop_bit 6 c AND 0x3F) OR 0x80), ucast ((c AND 0x3F) OR 0x80)]
      else [ucast (drop_bit 12 (0xFFFD :: u32) OR 0xE0), ucast ((drop_bit 6 (0xFFFD :: u32) AND 0x3F) OR 0x80),
            ucast ((0xFFFD AND 0x3F :: u32) OR 0x80)])"

definition byte_at :: "u8 list \<Rightarrow> nat \<Rightarrow> u8" where
  "byte_at p k = (if k < length p then p ! k else 0)"

definition is_cont :: "u8 \<Rightarrow> bool" where
  "is_cont b \<longleftrightarrow> b \<ge> 0x80 \<and> b \<le> 0xBF"

text \<open>
  \<open>utf8_decode\<close> returns the code point and the position after it. \<open>c\<close> is the first byte and \<open>p\<close> the
  position after it; \<open>need1\<close>, \<open>need2\<close> and \<open>need3\<close> are the ends of the branches of the switch that read
  one, two and three more bytes.
\<close>

definition need1 :: "u8 \<Rightarrow> u8 list \<Rightarrow> u32 \<times> u8 list" where
  "need1 c p =
     (if is_cont (byte_at p 0)
      then (push_bit 6 (ucast c - 0xC0) + (ucast (byte_at p 0) - 0x80), drop 1 p)
      else (0xFFFD, p))"

definition need2 :: "u8 \<Rightarrow> u8 \<Rightarrow> u8 list \<Rightarrow> u32 \<times> u8 list" where
  "need2 lower c p =
     (if byte_at p 0 \<ge> lower \<and> byte_at p 0 \<le> 0xBF \<and> is_cont (byte_at p 1)
      then (push_bit 12 (ucast c - 0xE0) + push_bit 6 (ucast (byte_at p 0) - 0x80)
             + (ucast (byte_at p 1) - 0x80), drop 2 p)
      else (0xFFFD, p))"

definition need3 :: "u8 \<Rightarrow> u8 \<Rightarrow> u8 \<Rightarrow> u8 list \<Rightarrow> u32 \<times> u8 list" where
  "need3 lower upper c p =
     (if byte_at p 0 \<ge> lower \<and> byte_at p 0 \<le> upper \<and> is_cont (byte_at p 1) \<and> is_cont (byte_at p 2)
      then (push_bit 18 (ucast c - 0xF0) + push_bit 12 (ucast (byte_at p 0) - 0x80)
             + push_bit 6 (ucast (byte_at p 1) - 0x80) + (ucast (byte_at p 2) - 0x80), drop 3 p)
      else (0xFFFD, p))"

definition utf8_decode :: "u8 list \<Rightarrow> u32 \<times> u8 list" where
  "utf8_decode q =
     (let c = byte_at q 0; p = drop 1 q
      in if c < 0x80 then (ucast c, p)
         else if 0xC2 \<le> c \<and> c \<le> 0xDF then need1 c p
         else if c = 0xE0 then need2 0xA0 c p
         else if 0xE1 \<le> c \<and> c \<le> 0xEF then need2 0x80 c p
         else if c = 0xF0 then need3 0x90 0xBF c p
         else if c = 0xF4 then need3 0x80 0x8F c p
         else if 0xF1 \<le> c \<and> c \<le> 0xF3 then need3 0x80 0xBF c p
         else (0xFFFD, p))"

definition utf8_decode_len :: "u8 list \<Rightarrow> u32 \<times> u8 list" where
  "utf8_decode_len p =
     (case length p of
        0 \<Rightarrow> (0xFFFD, p)
      | _ \<Rightarrow>
        (if length p = 1 \<and> \<not> p ! 0 < 0x80 \<or> length p = 2 \<and> \<not> p ! 0 < 0xE0 \<or> length p = 3 \<and> \<not> p ! 0 < 0xF0
         then (0xFFFD, drop 1 p)
         else utf8_decode p))"

section \<open>Buffers\<close>

text \<open>The flags of \<open>utf8_scan\<close>, and its result: the flags and the number of 16-bit units.\<close>

record utf8_kind =
  non_ascii :: bool
  has_16bit :: bool
  has_non_bmp1 :: bool
  has_errors :: bool

lemma need_shorter:
  "length (snd (need1 c p)) \<le> length p" "length (snd (need2 l c p)) \<le> length p"
  "length (snd (need3 l u c p)) \<le> length p"
  by (simp_all add: need1_def need2_def need3_def)

lemma utf8_decode_shorter: "length (snd (utf8_decode p)) \<le> length p - 1"
  using need_shorter [where p = "drop 1 p"] by (simp add: utf8_decode_def Let_def)

lemma utf8_decode_len_shorter: "p \<noteq> [] \<Longrightarrow> length (snd (utf8_decode_len p)) < length p"
  using utf8_decode_shorter [of p] by (cases p) (auto simp: utf8_decode_len_def)

function scan_loop :: "u8 list \<Rightarrow> utf8_kind \<Rightarrow> nat \<Rightarrow> utf8_kind \<times> nat" where
  "scan_loop p kind len =
     (case p of [] \<Rightarrow> (kind, len)
      | b # p1 \<Rightarrow>
        (if b \<ge> 0x80
         then (let (c, p_next) = utf8_decode_len p;
                   kind = kind\<lparr>has_errors := has_errors kind \<or> length p_next = length p1,
                     has_16bit := has_16bit kind \<or> c > 0xFF, has_non_bmp1 := has_non_bmp1 kind \<or> c > 0xFFFF\<rparr>
               in scan_loop p_next kind (if c > 0xFFFF then len + 2 else len + 1))
         else scan_loop p1 kind (len + 1)))"
  by auto
termination
proof (relation "measure (\<lambda>(p, kind, len). length p)", goal_cases)
  case (2 p kind len b p1 r c p_next kind')
  then show ?case using utf8_decode_len_shorter [of p] by (simp add: prod_eq_iff)
qed auto

declare scan_loop.simps [simp del]

definition utf8_scan :: "u8 list \<Rightarrow> utf8_kind \<times> nat" where
  "utf8_scan buf =
     (let plain = \<lparr>non_ascii = False, has_16bit = False, has_non_bmp1 = False, has_errors = False\<rparr>
      in if list_ex (\<lambda>b. b \<ge> 0x80) buf then scan_loop buf (plain\<lparr>non_ascii := True\<rparr>) 0
         else (plain, length buf))"

text \<open>
  The decoders store the units that fit in \<open>dest_len\<close> and return the number of units. \<open>dest\<close> is the
  part of the destination written so far and \<open>i\<close> the index of the next unit.
\<close>

definition store :: "'a list \<Rightarrow> nat \<Rightarrow> nat \<Rightarrow> 'a \<Rightarrow> 'a list" where
  "store dest i dest_len v = (if i < dest_len then dest @ [v] else dest)"

fun decode8_loop :: "u8 list \<Rightarrow> u8 list \<Rightarrow> nat \<Rightarrow> nat \<Rightarrow> u8 list \<times> nat" where
  "decode8_loop [] dest i dest_len = (dest, i)"
| "decode8_loop (b # p) dest i dest_len =
     (if b \<ge> 0xC0
      then (let c = push_bit 6 (ucast b) + ucast (byte_at p 0) - (push_bit 6 0xC0 + 0x80) :: u32
            in decode8_loop (drop 1 p) (store dest i dest_len (ucast c)) (i + 1) dest_len)
      else decode8_loop p (store dest i dest_len b) (i + 1) dest_len)"

text \<open>The terminator replaces the last stored byte when the destination is full.\<close>

definition utf8_decode_buf8 :: "nat \<Rightarrow> u8 list \<Rightarrow> u8 list \<times> nat" where
  "utf8_decode_buf8 dest_len src =
     (case decode8_loop src [] 0 dest_len of (dest, i) \<Rightarrow>
        (if i < dest_len then dest @ [0] else if dest_len > 0 then dest[dest_len - 1 := 0] else dest, i))"

function decode16_loop :: "u8 list \<Rightarrow> u16 list \<Rightarrow> nat \<Rightarrow> nat \<Rightarrow> u16 list \<times> nat" where
  "decode16_loop p dest i dest_len =
     (case p of [] \<Rightarrow> (dest, i)
      | b # p1 \<Rightarrow>
        (if b \<ge> 0x80
         then (let (c, p_next) = utf8_decode_len p
               in if c > 0xFFFF
                  then decode16_loop p_next
                    (store (store dest i dest_len (ucast (get_hi_surrogate c))) (i + 1) dest_len
                      (ucast (get_lo_surrogate c))) (i + 2) dest_len
                  else decode16_loop p_next (store dest i dest_len (ucast c)) (i + 1) dest_len)
         else decode16_loop p1 (store dest i dest_len (ucast b)) (i + 1) dest_len))"
  by auto
termination
proof (relation "measure (\<lambda>(p, dest, i, dest_len). length p)", goal_cases)
  case (2 p dest i dest_len b p1 r c p_next)
  then show ?case using utf8_decode_len_shorter [of p] by (simp add: prod_eq_iff)
next
  case (3 p dest i dest_len b p1 r c p_next)
  then show ?case using utf8_decode_len_shorter [of p] by (simp add: prod_eq_iff)
qed auto

declare decode16_loop.simps [simp del]

definition utf8_decode_buf16 :: "nat \<Rightarrow> u8 list \<Rightarrow> u16 list \<times> nat" where
  "utf8_decode_buf16 dest_len src = decode16_loop src [] 0 dest_len"

text \<open>
  The encoders stop storing before the first character that would not leave room for the
  terminator, and return the number of bytes of the whole encoding.
\<close>

definition terminate_at :: "u8 list \<Rightarrow> nat \<Rightarrow> u8 list" where
  "terminate_at dest dest_len = (if length dest < dest_len then dest @ [0] else dest)"

fun encode8_rest :: "u8 list \<Rightarrow> nat \<Rightarrow> nat" where
  "encode8_rest [] j = j"
| "encode8_rest (c # src) j = encode8_rest src (j + 1 + of_bool (c \<ge> 0x80))"

fun encode8_loop :: "u8 list \<Rightarrow> u8 list \<Rightarrow> nat \<Rightarrow> u8 list \<times> nat" where
  "encode8_loop [] dest dest_len = (terminate_at dest dest_len, length dest)"
| "encode8_loop (b # src) dest dest_len =
     (let c = ucast b :: u32
      in if c < 0x80
         then (if length dest + 1 \<ge> dest_len
               then (terminate_at dest dest_len, encode8_rest (b # src) (length dest))
               else encode8_loop src (dest @ [ucast c]) dest_len)
         else (if length dest + 2 \<ge> dest_len
               then (terminate_at dest dest_len, encode8_rest (b # src) (length dest))
               else encode8_loop src (dest @ [ucast (drop_bit 6 c OR 0xC0), ucast ((c AND 0x3F) OR 0x80)]) dest_len))"

definition utf8_encode_buf8 :: "nat \<Rightarrow> u8 list \<Rightarrow> u8 list \<times> nat" where
  "utf8_encode_buf8 dest_len src = encode8_loop src [] dest_len"

text \<open>The next character of a buffer of 16-bit units: a surrogate pair or one unit.\<close>

definition next_char16 :: "u16 \<Rightarrow> u16 list \<Rightarrow> u32 \<times> u16 list" where
  "next_char16 u src =
     (case src of
        v # src' \<Rightarrow> (if is_hi_surrogate (ucast u) \<and> is_lo_surrogate (ucast v)
                    then (from_surrogate (ucast u) (ucast v), src') else (ucast u, src))
      | [] \<Rightarrow> (ucast u, src))"

lemma next_char16_shorter: "length (snd (next_char16 u src)) \<le> length src"
  by (simp add: next_char16_def split: list.split)

function encode16_rest :: "u16 list \<Rightarrow> nat \<Rightarrow> nat" where
  "encode16_rest [] j = j"
| "encode16_rest (u # src) j =
     (if u < 0x80 then encode16_rest src (j + 1)
      else encode16_rest (snd (next_char16 u src)) (j + utf8_encode_len (fst (next_char16 u src))))"
  by pat_completeness auto
termination
  by (relation "measure (\<lambda>(src, j). length src)") (auto simp: less_Suc_eq_le next_char16_shorter)

function encode16_loop :: "u16 list \<Rightarrow> u8 list \<Rightarrow> nat \<Rightarrow> u8 list \<times> nat" where
  "encode16_loop [] dest dest_len = (terminate_at dest dest_len, length dest)"
| "encode16_loop (u # src) dest dest_len =
     (if u < 0x80
      then (if length dest + 1 \<ge> dest_len
            then (terminate_at dest dest_len, encode16_rest (u # src) (length dest))
            else encode16_loop src (dest @ [ucast u]) dest_len)
      else (if length dest + utf8_encode_len (fst (next_char16 u src)) \<ge> dest_len
            then (terminate_at dest dest_len, encode16_rest (u # src) (length dest))
            else encode16_loop (snd (next_char16 u src)) (dest @ utf8_encode (fst (next_char16 u src))) dest_len))"
  by pat_completeness auto
termination
  by (relation "measure (\<lambda>(src, dest, dest_len). length src)") (auto simp: less_Suc_eq_le next_char16_shorter)

definition utf8_encode_buf16 :: "nat \<Rightarrow> u16 list \<Rightarrow> u8 list \<times> nat" where
  "utf8_encode_buf16 dest_len src = encode16_loop src [] dest_len"

section \<open>Strings of the engine from and to UTF-8\<close>

text \<open>
  \<open>JSString\<close>: 8-bit or 16-bit units (\<open>is_wide_char\<close>). \<open>alloc\<close> is the outcome of \<open>js_alloc_string\<close>.
  The destination of a decoder is the whole string, so its units are what the decoder stored.
\<close>

datatype js_string = Str8 "u8 list" | Str16 "u16 list"

fun units :: "js_string \<Rightarrow> u16 list" where
  "units (Str8 bs) = map ucast bs"
| "units (Str16 us) = us"

definition JS_STRING_LEN_MAX :: nat where
  "JS_STRING_LEN_MAX = 2 ^ 30 - 1"

definition JS_NewStringLen :: "bool \<Rightarrow> u8 list \<Rightarrow> js_error + js_string" where
  "JS_NewStringLen alloc buf =
     (if buf = [] then Inr (Str8 [])
      else case utf8_scan buf of (kind, len) \<Rightarrow>
        (if len > JS_STRING_LEN_MAX then Inl (RangeError ''invalid string length'')
         else if \<not> alloc then Inl OutOfMemory
         else if \<not> non_ascii kind then Inr (Str8 buf)
         else if \<not> has_16bit kind \<and> \<not> has_non_bmp1 kind \<and> \<not> has_errors kind
         then Inr (Str8 (take len (fst (utf8_decode_buf8 (len + 1) buf))))
         else Inr (Str16 (fst (utf8_decode_buf16 len buf)))))"

text \<open>
  \<open>JS_ToCStringLen2\<close> on a string: the bytes before the terminator. \<open>cesu8\<close> encodes each surrogate of a
  pair on its own; \<open>normal\<close> says that the string has the kind \<open>JS_STRING_KIND_NORMAL\<close> and not that of a
  slice. \<open>len\<close> is an \<open>int\<close>, so that \<open>len * 3\<close> is undefined when it overflows.
\<close>

fun to_utf8_8 :: "u8 list \<Rightarrow> u8 list" where
  "to_utf8_8 [] = []"
| "to_utf8_8 (b # src) =
     (if b < 0x80 then b # to_utf8_8 src
      else ucast (drop_bit 6 (ucast b :: u32) OR 0xC0) # ucast ((ucast b AND 0x3F :: u32) OR 0x80) # to_utf8_8 src)"

function to_utf8_16 :: "bool \<Rightarrow> u16 list \<Rightarrow> u8 list" where
  "to_utf8_16 cesu8 [] = []"
| "to_utf8_16 cesu8 (u # src) =
     (if u < 0x80 then ucast u # to_utf8_16 cesu8 src
      else (let (c, src') = (if cesu8 then (ucast u, src) else next_char16 u src)
            in utf8_encode c @ to_utf8_16 cesu8 src'))"
  by pat_completeness auto
termination
proof (relation "measure (\<lambda>(cesu8, src). length src)", goal_cases)
  case (3 cesu8 u src r c src')
  then show ?case using next_char16_shorter [of u src] by (auto split: if_splits simp: prod_eq_iff)
qed auto

definition JS_ToCStringLen2 :: "bool \<Rightarrow> bool \<Rightarrow> bool \<Rightarrow> js_string \<Rightarrow> js_error + u8 list" where
  "JS_ToCStringLen2 alloc normal cesu8 str =
     (case str of
        Str8 src \<Rightarrow>
          (if length (filter (\<lambda>b. b \<ge> 0x80) src) = 0 \<and> normal then Inr src
           else if alloc then Inr (to_utf8_8 src) else Inl OutOfMemory)
      | Str16 src \<Rightarrow>
          (if length src * 3 > INT_MAX then Inl Undefined
           else if alloc then Inr (to_utf8_16 cesu8 src) else Inl OutOfMemory))"

section \<open>Encoding as arithmetic\<close>

lemma unat_or_high:
  assumes "unat (x :: 'a::len word) < 2 ^ k" and "unat h mod 2 ^ k = 0"
  shows "unat (x OR h) = unat x + unat h"
proof -
  have h: "unat h = push_bit k (unat h div 2 ^ k)" using assms(2) by (simp add: push_bit_eq_mult mod_0_imp_dvd)
  have "unat (x OR h) = unat h OR unat x" by (simp add: unsigned_or_eq or.commute)
  also have "\<dots> = unat h div 2 ^ k * 2 ^ k + unat x" by (subst h) (rule or_push_bit_nat [OF assms(1)])
  finally show ?thesis using assms(2) by (simp add: mod_0_imp_dvd)
qed

lemma ucast_eq_of_nat: "unat x = n \<Longrightarrow> (ucast (x :: 'a::len word) :: 'b::len word) = of_nat n"
  by auto

lemma byte_or:
  assumes "n < 2 ^ k" and "unat (h :: u32) mod 2 ^ k = 0" and "unat x = n" and "unat h = m"
  shows "(ucast (x OR h) :: u8) = of_nat (n + m)"
  by (rule ucast_eq_of_nat) (use unat_or_high [of x k h] assms in simp)

lemma utf8_encode_bytes:
  fixes c :: u32
  defines "n \<equiv> unat c"
  shows "n < 128 \<Longrightarrow> utf8_encode c = [of_nat n]"
    and "128 \<le> n \<Longrightarrow> n < 2048 \<Longrightarrow> utf8_encode c = [of_nat (n div 64 + 192), of_nat (n mod 64 + 128)]"
    and "2048 \<le> n \<Longrightarrow> n < 65536 \<Longrightarrow>
      utf8_encode c = [of_nat (n div 4096 + 224), of_nat (n div 64 mod 64 + 128), of_nat (n mod 64 + 128)]"
    and "65536 \<le> n \<Longrightarrow> n < 1114112 \<Longrightarrow>
      utf8_encode c = [of_nat (n div 262144 + 240), of_nat (n div 4096 mod 64 + 128),
        of_nat (n div 64 mod 64 + 128), of_nat (n mod 64 + 128)]"
proof -
  have cmp: "c < 0x80 \<longleftrightarrow> n < 128" "c < 0x800 \<longleftrightarrow> n < 2048" "c < 0x10000 \<longleftrightarrow> n < 65536"
    "c < 0x110000 \<longleftrightarrow> n < 1114112"
    by (simp_all add: word_less_nat_alt n_def)
  have m: "unat (x AND 0x3F) = unat x mod 64" for x :: u32
    using unat_and_mask [of x 6] by (simp add: mask_numeral)
  have low: "(ucast ((x AND 0x3F) OR 0x80 :: u32) :: u8) = of_nat (k mod 64 + 128)" if "unat x = k" for x :: u32 and k
    by (rule byte_or [where k = 6]) (simp_all add: m that)
  have d: "unat (drop_bit k c) = n div 2 ^ k" for k by (simp only: unat_drop_bit n_def)
  note d6 = d [of 6, simplified] and d12 = d [of 12, simplified] and d18 = d [of 18, simplified]
  have c: "unat c = n" by (simp add: n_def)
  show "n < 128 \<Longrightarrow> utf8_encode c = [of_nat n]"
    by (simp add: utf8_encode_def cmp ucast_eq_of_nat [OF c])
  show "utf8_encode c = [of_nat (n div 64 + 192), of_nat (n mod 64 + 128)]" if "128 \<le> n" "n < 2048"
  proof -
    have "(ucast (drop_bit 6 c OR 0xC0) :: u8) = of_nat (n div 64 + 192)"
      by (rule byte_or [where k = 6]) (use that in \<open>simp_all add: d6\<close>)
    then show ?thesis using that unfolding utf8_encode_def cmp by (simp only: low [OF c]) simp
  qed
  show "utf8_encode c = [of_nat (n div 4096 + 224), of_nat (n div 64 mod 64 + 128), of_nat (n mod 64 + 128)]"
    if "2048 \<le> n" "n < 65536"
  proof -
    have "(ucast (drop_bit 12 c OR 0xE0) :: u8) = of_nat (n div 4096 + 224)"
      by (rule byte_or [where k = 5]) (use that in \<open>simp_all add: d12\<close>)
    then show ?thesis using that unfolding utf8_encode_def cmp by (simp only: low [OF c] low [OF d6]) simp
  qed
  show "utf8_encode c = [of_nat (n div 262144 + 240), of_nat (n div 4096 mod 64 + 128),
        of_nat (n div 64 mod 64 + 128), of_nat (n mod 64 + 128)]"
    if "65536 \<le> n" "n < 1114112"
  proof -
    have "(ucast (drop_bit 18 c OR 0xF0) :: u8) = of_nat (n div 262144 + 240)"
      by (rule byte_or [where k = 4]) (use that in \<open>simp_all add: d18\<close>)
    then show ?thesis using that unfolding utf8_encode_def cmp by (simp only: low [OF c] low [OF d6] low [OF d12]) simp
  qed
qed

section \<open>Decoding an encoded code point\<close>

lemma byte_nat: "m < 256 \<Longrightarrow> unat (of_nat m :: u8) = m"
  by (simp add: unat_of_nat)

lemma byte_sub: "k \<le> m \<Longrightarrow> m < 256 \<Longrightarrow> (ucast (of_nat m :: u8) :: u32) - of_nat k = of_nat (m - k)"
  by (subst ucast_eq_of_nat [OF byte_nat]) simp_all

lemma shift_nat: "push_bit k (of_nat m :: u32) = of_nat (m * 2 ^ k)"
  by (simp add: push_bit_eq_mult)

lemmas byte_cmp = word_le_nat_alt word_less_nat_alt

lemma is_cont_nat: "m < 64 \<Longrightarrow> is_cont (of_nat (m + 128))"
  by (simp add: is_cont_def byte_cmp byte_nat del: of_nat_add)

lemma byte_at_simps [simp]:
  "byte_at [] k = 0" "byte_at (b # p) 0 = b" "byte_at (b # p) (Suc k) = byte_at p k"
  "byte_at (b # p) 1 = byte_at p 0" "byte_at (b # p) 2 = byte_at p 1"
  by (simp_all add: byte_at_def numeral_2_eq_2)

lemma need1_nat:
  assumes "a < 32" and "b < 64"
  shows "need1 (of_nat (a + 192)) (of_nat (b + 128) # rest) = (of_nat (a * 64 + b), rest)"
proof -
  have "(ucast (of_nat (a + 192) :: u8) :: u32) - of_nat 192 = of_nat a"
    "(ucast (of_nat (b + 128) :: u8) :: u32) - of_nat 128 = of_nat b"
    using byte_sub [of 192 "a + 192"] byte_sub [of 128 "b + 128"] assms by simp_all
  then show ?thesis using is_cont_nat [OF assms(2)] shift_nat [of 6 a]
    by (simp add: need1_def del: of_nat_add) simp
qed

lemma need2_nat:
  assumes "a < 16" and "b < 64" and "c < 64" and "lower \<le> of_nat (b + 128)"
  shows "need2 lower (of_nat (a + 224)) (of_nat (b + 128) # of_nat (c + 128) # rest) =
    (of_nat (a * 4096 + b * 64 + c), rest)"
proof -
  have "(ucast (of_nat (a + 224) :: u8) :: u32) - of_nat 224 = of_nat a"
    "(ucast (of_nat (b + 128) :: u8) :: u32) - of_nat 128 = of_nat b"
    "(ucast (of_nat (c + 128) :: u8) :: u32) - of_nat 128 = of_nat c"
    using byte_sub [of 224 "a + 224"] byte_sub [of 128 "b + 128"] byte_sub [of 128 "c + 128"] assms by simp_all
  then show ?thesis
    using is_cont_nat [OF assms(2)] is_cont_nat [OF assms(3)] assms(4) shift_nat [of 12 a] shift_nat [of 6 b]
    by (simp add: need2_def is_cont_def del: of_nat_add) simp
qed

lemma need3_nat:
  assumes "a < 8" and "b < 64" and "c < 64" and "d < 64" and "lower \<le> of_nat (b + 128)" and "of_nat (b + 128) \<le> upper"
  shows "need3 lower upper (of_nat (a + 240)) (of_nat (b + 128) # of_nat (c + 128) # of_nat (d + 128) # rest) =
    (of_nat (a * 262144 + b * 4096 + c * 64 + d), rest)"
proof -
  have "(ucast (of_nat (a + 240) :: u8) :: u32) - of_nat 240 = of_nat a"
    "(ucast (of_nat (b + 128) :: u8) :: u32) - of_nat 128 = of_nat b"
    "(ucast (of_nat (c + 128) :: u8) :: u32) - of_nat 128 = of_nat c"
    "(ucast (of_nat (d + 128) :: u8) :: u32) - of_nat 128 = of_nat d"
    using byte_sub [of 240 "a + 240"] byte_sub [of 128 "b + 128"] byte_sub [of 128 "c + 128"]
      byte_sub [of 128 "d + 128"] assms by simp_all
  then show ?thesis
    using is_cont_nat [OF assms(3)] is_cont_nat [OF assms(4)] assms(5,6) shift_nat [of 18 a] shift_nat [of 12 b]
      shift_nat [of 6 c]
    by (simp add: need3_def numeral_3_eq_3 del: of_nat_add) simp
qed

lemma split_64: "(n :: nat) div 4096 * 4096 + n div 64 mod 64 * 64 + n mod 64 = n"
  "n div 262144 * 262144 + n div 4096 mod 64 * 4096 + n div 64 mod 64 * 64 + n mod 64 = n"
proof -
  have d: "n div 4096 = n div 64 div 64" "n div 262144 = n div 4096 div 64"
    by (simp_all flip: div_mult2_eq)
  show "n div 4096 * 4096 + n div 64 mod 64 * 64 + n mod 64 = n"
    using div_mult_mod_eq [of n 64] div_mult_mod_eq [of "n div 64" 64] unfolding d(1) by linarith
  then show "n div 262144 * 262144 + n div 4096 mod 64 * 4096 + n div 64 mod 64 * 64 + n mod 64 = n"
    using div_mult_mod_eq [of "n div 4096" 64] unfolding d(2) by linarith
qed

lemma utf8_decode_encode:
  assumes "unat c < 1114112"
  shows "utf8_decode (utf8_encode c @ rest) = (c, rest)"
proof -
  define n where "n = unat c"
  have c: "of_nat n = c" by (simp add: n_def)
  have lead: "utf8_decode (of_nat m # p) =
    (if m < 128 then (of_nat m, p) else if 194 \<le> m \<and> m \<le> 223 then need1 (of_nat m) p
     else if m = 224 then need2 0xA0 (of_nat m) p else if 225 \<le> m \<and> m \<le> 239 then need2 0x80 (of_nat m) p
     else if m = 240 then need3 0x90 0xBF (of_nat m) p else if m = 244 then need3 0x80 0x8F (of_nat m) p
     else if 241 \<le> m \<and> m \<le> 243 then need3 0x80 0xBF (of_nat m) p else (0xFFFD, p))" if "m < 256" for m p
  proof -
    have "(of_nat m :: u8) = k \<longleftrightarrow> m = unat k" for k
      using byte_nat [OF that] by (metis of_nat_unat ucast_id)
    then show ?thesis using that
      by (simp add: utf8_decode_def Let_def byte_cmp byte_nat ucast_eq_of_nat [OF byte_nat])
  qed
  consider "n < 128" | "128 \<le> n" "n < 2048" | "2048 \<le> n" "n < 65536" | "65536 \<le> n" "n < 1114112"
    using assms by (fold n_def) linarith
  then show ?thesis
  proof cases
    case 1
    then show ?thesis using utf8_encode_bytes(1) [of c] c by (simp add: n_def [symmetric] lead)
  next
    case 2
    then have "n div 64 < 32" "2 \<le> n div 64" by auto
    moreover have "n div 64 * 64 + n mod 64 = n" by simp
    ultimately show ?thesis using 2 utf8_encode_bytes(2) [of c] c need1_nat [of "n div 64" "n mod 64"]
      by (simp add: n_def [symmetric] lead del: of_nat_add)
  next
    case 3
    define a b d where "a = n div 4096" and "b = n div 64 mod 64" and "d = n mod 64"
    have abd: "a < 16" "b < 64" "d < 64" "a * 4096 + b * 64 + d = n" "a = 0 \<Longrightarrow> 32 \<le> b"
      using 3 split_64(1) [of n] unfolding a_def b_def d_def by auto
    have "utf8_encode c = [of_nat (a + 224), of_nat (b + 128), of_nat (d + 128)]"
      using 3 utf8_encode_bytes(3) [of c] unfolding n_def [symmetric] a_def b_def d_def by simp
    moreover have "utf8_decode (of_nat (a + 224) # p) = need2 (if a = 0 then 0xA0 else 0x80) (of_nat (a + 224)) p" for p
      using lead [of "a + 224" p] abd(1) by (simp del: of_nat_add)
    moreover have "(if a = 0 then 0xA0 else 0x80) \<le> (of_nat (b + 128) :: u8)"
      using abd(2,5) by (simp add: byte_cmp byte_nat del: of_nat_add)
    ultimately show ?thesis using need2_nat [OF abd(1-3)] abd(4) c by (simp del: of_nat_add of_nat_mult)
  next
    case 4
    define a b d e where "a = n div 262144" and "b = n div 4096 mod 64" and "d = n div 64 mod 64" and "e = n mod 64"
    have abd: "a \<le> 4" "b < 64" "d < 64" "e < 64" "a * 262144 + b * 4096 + d * 64 + e = n" "a = 0 \<Longrightarrow> 16 \<le> b"
      "a = 4 \<Longrightarrow> b \<le> 15"
      using 4 split_64(2) [of n] unfolding a_def b_def d_def e_def by auto
    have "utf8_encode c = [of_nat (a + 240), of_nat (b + 128), of_nat (d + 128), of_nat (e + 128)]"
      using 4 utf8_encode_bytes(4) [of c] unfolding n_def [symmetric] a_def b_def d_def e_def by simp
    moreover have "utf8_decode (of_nat (a + 240) # p) =
        need3 (if a = 0 then 0x90 else 0x80) (if a = 4 then 0x8F else 0xBF) (of_nat (a + 240)) p" for p
      using lead [of "a + 240" p] abd(1) by (simp del: of_nat_add)
    moreover have "(if a = 0 then 0x90 else 0x80) \<le> (of_nat (b + 128) :: u8)"
      "(of_nat (b + 128) :: u8) \<le> (if a = 4 then 0x8F else 0xBF)"
      using abd(2,6,7) by (simp_all add: byte_cmp byte_nat del: of_nat_add)
    moreover have "a < 8" using abd(1) by simp
    ultimately show ?thesis using need3_nat [OF _ abd(2-4)] abd(5) c by (simp del: of_nat_add of_nat_mult)
  qed
qed

lemma utf8_encode_head:
  assumes "unat c < 1114112"
  obtains b bs where "utf8_encode c = b # bs" "length bs = utf8_encode_len c - 1" "b \<ge> 0x80 \<longleftrightarrow> c \<ge> 0x80"
    "bs = [] \<Longrightarrow> b < 0x80" "length bs \<le> 1 \<Longrightarrow> b < 0xE0" "length bs \<le> 2 \<Longrightarrow> b < 0xF0"
proof -
  define n where "n = unat c"
  note e = utf8_encode_bytes [of c, folded n_def]
  have cmp: "c < 0x80 \<longleftrightarrow> n < 128" "c < 0x800 \<longleftrightarrow> n < 2048" "c < 0x10000 \<longleftrightarrow> n < 65536"
    "c < 0x110000 \<longleftrightarrow> n < 1114112" "c \<ge> 0x80 \<longleftrightarrow> 128 \<le> n"
    by (simp_all add: byte_cmp n_def)
  consider "n < 128" | "128 \<le> n" "n < 2048" | "2048 \<le> n" "n < 65536" | "65536 \<le> n" "n < 1114112"
    using assms by (fold n_def) linarith
  then show ?thesis
  proof cases
    case 1
    then show ?thesis using e(1) that by (simp add: utf8_encode_len_def cmp byte_cmp byte_nat flip: n_def)
  next
    case 2
    then have "n div 64 + 192 < 224" by auto
    then show ?thesis using e(2) that 2 by (simp add: utf8_encode_len_def cmp byte_cmp byte_nat del: of_nat_add flip: n_def)
  next
    case 3
    then have "n div 4096 + 224 < 240" by auto
    then show ?thesis using e(3) that 3 by (simp add: utf8_encode_len_def cmp byte_cmp byte_nat del: of_nat_add flip: n_def)
  next
    case 4
    then have "n div 262144 + 240 < 256" by auto
    then show ?thesis using e(4) that 4 by (simp add: utf8_encode_len_def cmp byte_cmp byte_nat del: of_nat_add flip: n_def)
  qed
qed

lemma utf8_encode_length: "length (utf8_encode c) = utf8_encode_len c"
  by (simp add: utf8_encode_def utf8_encode_len_def)

lemma utf8_decode_len_encode:
  assumes "unat c < 1114112"
  shows "utf8_decode_len (utf8_encode c @ rest) = (c, rest)"
proof -
  obtain b bs where b: "utf8_encode c = b # bs" "bs = [] \<Longrightarrow> b < 0x80" "length bs \<le> 1 \<Longrightarrow> b < 0xE0"
    "length bs \<le> 2 \<Longrightarrow> b < 0xF0"
    using utf8_encode_head [OF assms] by metis
  have d: "utf8_decode (b # bs @ rest) = (c, rest)" using utf8_decode_encode [OF assms, of rest] b(1) by simp
  have "\<not> (length (bs @ rest) = 0 \<and> \<not> b < 0x80 \<or> length (bs @ rest) = 1 \<and> \<not> b < 0xE0 \<or> length (bs @ rest) = 2 \<and> \<not> b < 0xF0)"
    using b(2-4) by auto
  then show ?thesis unfolding b(1) by (auto simp: utf8_decode_len_def d)
qed

section \<open>Units\<close>

text \<open>The 16-bit units of a code point, and of a UTF-8 buffer.\<close>

definition units_of :: "u32 \<Rightarrow> u16 list" where
  "units_of c = (if c > 0xFFFF then [ucast (get_hi_surrogate c), ucast (get_lo_surrogate c)] else [ucast c])"

function decode_units :: "u8 list \<Rightarrow> u16 list" where
  "decode_units p =
     (if p = [] then [] else units_of (fst (utf8_decode_len p)) @ decode_units (snd (utf8_decode_len p)))"
  by auto
termination by (relation "measure length") (simp_all add: utf8_decode_len_shorter)

declare decode_units.simps [simp del]

lemma decode_units_Nil [simp]: "decode_units [] = []"
  by (simp add: decode_units.simps)

lemma decode_units_encode:
  assumes "unat c < 1114112"
  shows "decode_units (utf8_encode c @ rest) = units_of c @ decode_units rest"
proof -
  have "utf8_encode c \<noteq> []" using utf8_encode_head [OF assms] by (metis list.distinct(1))
  then show ?thesis by (subst decode_units.simps) (simp add: utf8_decode_len_encode [OF assms])
qed

lemma utf8_decode_len_ascii: "b < 0x80 \<Longrightarrow> utf8_decode_len (b # p) = (ucast b, p)"
  by (auto simp: utf8_decode_len_def utf8_decode_def byte_cmp)

lemma unat_ucast_u8_u32 [simp]: "unat (ucast (b :: u8) :: u32) = unat b"
proof -
  have "unat b < 2 ^ 32" using unat_lt_u8 [of b] by simp
  then show ?thesis by (simp add: unsigned_ucast_eq take_bit_nat_eq_self_iff)
qed

lemma unat_ucast_u16_u32 [simp]: "unat (ucast (u :: u16) :: u32) = unat u"
proof -
  have "unat u < 2 ^ 32" using unat_lt_u16 [of u] by simp
  then show ?thesis by (simp add: unsigned_ucast_eq take_bit_nat_eq_self_iff)
qed

lemma ucast_u32_u16 [simp]: "(ucast (ucast (b :: u8) :: u32) :: u16) = ucast b" "(ucast (ucast (u :: u16) :: u32) :: u16) = u"
  by (simp_all only: ucast_eq_of_nat [OF unat_ucast_u8_u32] ucast_eq_of_nat [OF unat_ucast_u16_u32]
      ucast_eq_of_nat [OF refl]) simp_all

lemma ucast_u8_small: "\<not> (ucast (b :: u8) :: u32) > 0xFFFF"
  using unat_lt_u8 [of b] by (simp add: byte_cmp)

lemma ucast_u16_small: "\<not> (ucast (u :: u16) :: u32) > 0xFFFF"
  using unat_lt_u16 [of u] by (simp add: byte_cmp)

lemma decode_units_ascii:
  assumes "b < 0x80"
  shows "decode_units (b # p) = ucast b # decode_units p"
  using ucast_u8_small [of b]
  by (subst decode_units.simps) (simp add: utf8_decode_len_ascii [OF assms] units_of_def)

lemma is_hi_surrogate_nat: "is_hi_surrogate c \<longleftrightarrow> 0xD800 \<le> unat c \<and> unat c < 0xDC00"
proof -
  have "is_hi_surrogate c \<longleftrightarrow> unat c div 1024 = 54"
    unfolding is_hi_surrogate_def by (simp add: word_unat_eq_iff unat_drop_bit [where n = 10, simplified])
  then show ?thesis by auto
qed

lemma is_lo_surrogate_nat: "is_lo_surrogate c \<longleftrightarrow> 0xDC00 \<le> unat c \<and> unat c < 0xE000"
proof -
  have "is_lo_surrogate c \<longleftrightarrow> unat c div 1024 = 55"
    unfolding is_lo_surrogate_def by (simp add: word_unat_eq_iff unat_drop_bit [where n = 10, simplified])
  then show ?thesis by auto
qed

lemma from_surrogate_nat: "unat (from_surrogate hi lo) = 65536 + 1024 * (unat hi mod 1024) + unat lo mod 1024"
proof -
  have m: "unat (x AND 1023) = unat x mod 1024" for x :: u32
    using unat_and_mask [of x 10] by (simp add: mask_numeral)
  have w: "x AND 1023 = of_nat (unat x mod 1024)" for x :: u32
    using ucast_eq_of_nat [OF m [of x], where 'b = 32] by simp
  have "from_surrogate hi lo = of_nat (65536 + 1024 * (unat hi mod 1024) + unat lo mod 1024)"
    unfolding from_surrogate_def w by (simp only: of_nat_add of_nat_mult of_nat_numeral)
  moreover have "65536 + 1024 * (unat hi mod 1024) + unat lo mod 1024 < 2 ^ 32"
    using mod_less_divisor [of 1024 "unat hi"] mod_less_divisor [of 1024 "unat lo"] by simp
  ultimately show ?thesis by (simp add: unat_of_nat del: of_nat_add of_nat_mult)
qed

lemma units_of_pair:
  fixes u v :: u16
  assumes "is_hi_surrogate (ucast u)" and "is_lo_surrogate (ucast v)"
  shows "units_of (from_surrogate (ucast u) (ucast v)) = [u, v]" "unat (from_surrogate (ucast u) (ucast v)) < 1114112"
    "65536 \<le> unat (from_surrogate (ucast u) (ucast v))"
proof -
  define h l where "h = unat u - 0xD800" and "l = unat v - 0xDC00"
  have hl: "unat u = 55296 + h" "unat v = 56320 + l" "h < 1024" "l < 1024"
    using assms by (auto simp: is_hi_surrogate_nat is_lo_surrogate_nat h_def l_def)
  define c where "c = from_surrogate (ucast u) (ucast v)"
  have c: "unat c = 65536 + 1024 * h + l"
    unfolding c_def from_surrogate_nat using hl by (simp add: mod_if)
  then show "unat (from_surrogate (ucast u) (ucast v)) < 1114112"
    "65536 \<le> unat (from_surrogate (ucast u) (ucast v))" using hl by (simp_all add: c_def)
  have "unat c = l + (64 + h) * 1024" using c by simp
  then have "unat c div 1024 = 64 + h" "unat c mod 1024 = l" using hl(4) by (simp_all only: div_mult_self1 mod_mult_self1) simp_all
  then have "unat (drop_bit 10 c) = 64 + h" and m: "unat (c AND 0x3FF) = l"
    using unat_drop_bit [of 10 c] unat_and_mask [of c 10] by (simp_all add: mask_numeral)
  then have d: "drop_bit 10 c = of_nat (64 + h)" using ucast_eq_of_nat [of "drop_bit 10 c", where 'b = 32] by simp
  have "get_hi_surrogate c = of_nat (55296 + h)"
    unfolding get_hi_surrogate_def d by (simp add: drop_bit_eq_div)
  moreover have "unat (of_nat (55296 + h) :: u32) = 55296 + h" using hl by (simp add: unat_of_nat del: of_nat_add)
  moreover have "unat (get_lo_surrogate c) = l + 56320"
    unfolding get_lo_surrogate_def using unat_or_high [of "c AND 0x3FF" 10 "0xDC00"] m hl by simp
  moreover have "c > 0xFFFF" using c by (simp add: byte_cmp)
  moreover have "ucast x = y" if "unat x = unat y" for x :: u32 and y :: u16
    using ucast_eq_of_nat [OF that, where 'b = 16] by simp
  ultimately show "units_of (from_surrogate (ucast u) (ucast v)) = [u, v]"
    using hl unfolding c_def [symmetric] units_of_def by (simp del: of_nat_add)
qed

lemma units_of_u16 [simp]: "units_of (ucast (u :: u16)) = [u]"
  using ucast_u16_small [of u] by (simp add: units_of_def)

lemma next_char16_units:
  "units_of (fst (next_char16 u src)) @ snd (next_char16 u src) = u # src"
  "unat (fst (next_char16 u src)) < 1114112"
  using unat_lt_u16 [of u] units_of_pair
  by (auto simp: next_char16_def split: list.split)

lemma decode_to_utf8_16: "decode_units (to_utf8_16 cesu8 us) = us"
proof (induction cesu8 us rule: to_utf8_16.induct)
  case (2 cesu8 u src)
  show ?case
  proof (cases "u < 0x80")
    case True
    then have e: "unat (ucast u :: u8) = unat u"
      by (simp add: unsigned_ucast_eq take_bit_nat_eq_self_iff byte_cmp)
    then have "(ucast u :: u8) < 0x80" "(ucast (ucast u :: u8) :: u16) = u"
      using True ucast_eq_of_nat [OF e, where 'b = 16] by (simp_all add: byte_cmp)
    then show ?thesis using True "2.IH"(1) by (simp add: decode_units_ascii)
  next
    case False
    obtain c src' where n: "(if cesu8 then (ucast u, src) else next_char16 u src) = (c, src')" by fastforce
    then have "units_of c @ src' = u # src" "unat c < 1114112"
      using next_char16_units [of u src] unat_lt_u16 [of u] by (auto split: if_splits)
    moreover have "to_utf8_16 cesu8 (u # src) = utf8_encode c @ to_utf8_16 cesu8 src'"
      using False unfolding to_utf8_16.simps n by simp
    moreover have "decode_units (to_utf8_16 cesu8 src') = src'" by (rule "2.IH"(2) [OF False n [symmetric] refl])
    ultimately show ?thesis using decode_units_encode [of c] by simp
  qed
qed simp

lemma to_utf8_8_encode: "to_utf8_8 bs = concat (map (\<lambda>b. utf8_encode (ucast b)) bs)"
proof (induction bs)
  case (Cons b bs)
  have "(ucast b :: u32) < 0x800" using unat_lt_u8 [of b] by (simp add: byte_cmp)
  moreover have "(ucast b :: u32) < 0x80 \<longleftrightarrow> b < 0x80" by (simp add: byte_cmp)
  moreover have "(ucast (ucast b :: u32) :: u8) = b"
    using ucast_eq_of_nat [OF unat_ucast_u8_u32, of b, where 'b = 8] by simp
  ultimately have "utf8_encode (ucast b) = (if b < 0x80 then [b]
    else [ucast (drop_bit 6 (ucast b :: u32) OR 0xC0), ucast ((ucast b AND 0x3F :: u32) OR 0x80)])"
    by (simp add: utf8_encode_def)
  then show ?case using Cons by simp
qed simp

lemma decode_to_utf8_8: "decode_units (to_utf8_8 bs) = map ucast bs"
proof (induction bs)
  case (Cons b bs)
  have "unat (ucast b :: u32) < 1114112" using unat_lt_u8 [of b] by simp
  moreover have "units_of (ucast b) = [ucast b]" using ucast_u8_small [of b] by (simp add: units_of_def)
  ultimately show ?case using Cons decode_units_encode [of "ucast b"] by (simp add: to_utf8_8_encode)
qed simp

section \<open>Scanning and decoding buffers\<close>

lemma store_take:
  "length dest = min i n \<Longrightarrow> store dest i n v = dest @ take (n - i) [v]"
  "length dest = min i n \<Longrightarrow> length (store dest i n v) = min (i + 1) n"
  by (auto simp: store_def)

lemma store_units: "length dest = min i n \<Longrightarrow>
  store dest i n v @ take (n - (i + 1)) vs = dest @ take (n - i) (v # vs)"
  by (auto simp: store_def take_Cons')

lemma decode16_loop_spec:
  "length dest = min i n \<Longrightarrow>
   decode16_loop p dest i n = (dest @ take (n - i) (decode_units p), i + length (decode_units p))"
proof (induction p dest i n rule: decode16_loop.induct)
  case (1 p dest i n)
  show ?case
  proof (cases p)
    case Nil
    then show ?thesis by (subst decode16_loop.simps) simp
  next
    case (Cons b p1)
    obtain c p' where c: "utf8_decode_len p = (c, p')" by (cases "utf8_decode_len p")
    have u: "decode_units p = units_of c @ decode_units p'"
      by (subst decode_units.simps) (simp add: Cons c [unfolded Cons])
    show ?thesis
    proof (cases "b \<ge> 0x80")
      case False
      then have "c = ucast b" "p' = p1" using c Cons utf8_decode_len_ascii [of b p1] by (auto simp: not_le)
      moreover have "decode16_loop p dest i n = decode16_loop p1 (store dest i n (ucast b)) (i + 1) n"
        using False Cons by (subst decode16_loop.simps) simp
      moreover have "units_of (ucast b) = [ucast b]" using ucast_u8_small [of b] by (simp add: units_of_def)
      ultimately show ?thesis
        using "1.IH"(3) [OF Cons False] store_take(2) [OF "1.prems"] store_units [OF "1.prems"] u by simp
    next
      case True
      show ?thesis
      proof (cases "c > 0xFFFF")
        case False
        then have "decode16_loop p dest i n = decode16_loop p' (store dest i n (ucast c)) (i + 1) n"
          using True Cons c False by (subst decode16_loop.simps) simp
        then show ?thesis
          using "1.IH"(2) [OF Cons True c [symmetric] refl False] store_take(2) [OF "1.prems"] store_units [OF "1.prems"] u False
          by (simp add: units_of_def)
      next
        case big: True
        define dest' where "dest' = store dest i n (ucast (get_hi_surrogate c))"
        have d: "length dest' = min (i + 1) n" using store_take(2) [OF "1.prems"] by (simp add: dest'_def)
        have "decode16_loop p dest i n = decode16_loop p' (store dest' (i + 1) n (ucast (get_lo_surrogate c))) (i + 2) n"
          using True Cons c big by (subst decode16_loop.simps) (simp add: dest'_def)
        moreover have "length (store dest' (i + 1) n (ucast (get_lo_surrogate c))) = min (i + 2) n"
          using store_take(2) [OF d] by simp
        moreover have "store dest' (i + 1) n (ucast (get_lo_surrogate c)) @ take (n - (i + 2)) (decode_units p') =
            dest @ take (n - i) (decode_units p)"
          using store_units [OF d] store_units [OF "1.prems"] big u by (simp add: dest'_def units_of_def)
        ultimately show ?thesis
          using "1.IH"(1) [OF Cons True c [symmetric] refl big, folded dest'_def] u big by (simp add: units_of_def)
      qed
    qed
  qed
qed

lemma utf8_decode_buf16_spec:
  "utf8_decode_buf16 n p = (take n (decode_units p), length (decode_units p))"
  by (simp add: utf8_decode_buf16_def decode16_loop_spec)

lemma scan_loop_step:
  "scan_loop (b # p1) kind len =
     (case utf8_decode_len (b # p1) of (c, p_next) \<Rightarrow>
        scan_loop p_next (if b \<ge> 0x80 then kind\<lparr>has_errors := has_errors kind \<or> length p_next = length p1,
           has_16bit := has_16bit kind \<or> c > 0xFF, has_non_bmp1 := has_non_bmp1 kind \<or> c > 0xFFFF\<rparr> else kind)
          (len + length (units_of c)))"
proof (cases "b \<ge> 0x80")
  case True
  then show ?thesis by (subst scan_loop.simps) (auto simp: units_of_def split: prod.split)
next
  case False
  then have "utf8_decode_len (b # p1) = (ucast b, p1)" by (simp add: utf8_decode_len_ascii not_le)
  then show ?thesis using False ucast_u8_small [of b] by (subst scan_loop.simps) (simp add: units_of_def)
qed

lemma scan_loop_spec:
  "snd (scan_loop p kind len) = len + length (decode_units p) \<and>
   non_ascii (fst (scan_loop p kind len)) = non_ascii kind \<and>
   (has_16bit kind \<longrightarrow> has_16bit (fst (scan_loop p kind len))) \<and>
   (has_errors kind \<longrightarrow> has_errors (fst (scan_loop p kind len)))"
proof (induction "length p" arbitrary: p kind len rule: less_induct)
  case less
  show ?case
  proof (cases p)
    case Nil
    then show ?thesis by (subst (1 2 3 4) scan_loop.simps) simp
  next
    case (Cons b p1)
    obtain c p' where c: "utf8_decode_len p = (c, p')" by (cases "utf8_decode_len p")
    have "decode_units p = units_of c @ decode_units p'" by (subst decode_units.simps) (simp add: Cons c [unfolded Cons])
    moreover have "length p' < length p" using utf8_decode_len_shorter [of p] Cons c by simp
    ultimately show ?thesis using less c unfolding Cons scan_loop_step by (simp add: add.assoc)
  qed
qed

lemma decode_units_all_ascii: "\<not> list_ex (\<lambda>b. b \<ge> 0x80) p \<Longrightarrow> decode_units p = map ucast p"
  by (induction p) (auto simp: decode_units_ascii not_le)

lemma utf8_scan_length: "snd (utf8_scan p) = length (decode_units p)"
proof (cases "list_ex (\<lambda>b. b \<ge> 0x80) p")
  case True
  then show ?thesis by (simp add: utf8_scan_def Let_def scan_loop_spec)
next
  case False
  then show ?thesis by (simp add: utf8_scan_def Let_def decode_units_all_ascii)
qed

text \<open>
  A string that the scan finds to be within 8 bits and without errors is decoded by the 8-bit decoder
  to the same units: its only sequences are the two-byte ones of \<open>U+0080\<close> to \<open>U+00FF\<close>.
\<close>

fun decode8_units :: "u8 list \<Rightarrow> u8 list" where
  "decode8_units [] = []"
| "decode8_units (b # p) =
     (if b \<ge> 0xC0
      then ucast (push_bit 6 (ucast b) + ucast (byte_at p 0) - (push_bit 6 0xC0 + 0x80) :: u32) # decode8_units (drop 1 p)
      else b # decode8_units p)"

lemma decode8_loop_spec:
  "length dest = min i n \<Longrightarrow>
   decode8_loop p dest i n = (dest @ take (n - i) (decode8_units p), i + length (decode8_units p))"
proof (induction p dest i n rule: decode8_loop.induct)
  case (2 b p dest i n)
  then show ?case
    using store_take(2) [OF "2.prems"] store_units [OF "2.prems"] by (simp add: Let_def)
qed simp

lemma is_contE:
  assumes "is_cont x"
  obtains k where "k < 64" "x = of_nat (k + 128)"
proof -
  have "128 \<le> unat x" "unat x \<le> 191" using assms by (auto simp: is_cont_def byte_cmp)
  then have "unat x - 128 < 64" "x = of_nat (unat x - 128 + 128)"
    using ucast_eq_of_nat [OF refl, of x, where 'b = 8] by auto
  then show ?thesis by (rule that)
qed

lemma byte_at_cont: "is_cont (byte_at p k) \<Longrightarrow> k < length p"
  by (auto simp: byte_at_def is_cont_def split: if_splits)

lemma need2_big:
  assumes "need2 lower b p = (c, p')" and "length p' \<noteq> length p" and "224 \<le> unat b" and "unat b \<le> 239"
    and "lower \<ge> 0x80" and "unat b = 224 \<Longrightarrow> lower = 0xA0"
  shows "2048 \<le> unat c"
proof -
  have t: "byte_at p 0 \<ge> lower" "byte_at p 0 \<le> 0xBF" "is_cont (byte_at p 1)"
    using assms(1,2) by (auto simp: need2_def split: if_splits)
  then have c0: "is_cont (byte_at p 0)" using assms(5) by (auto simp: is_cont_def)
  obtain x y rest where p: "p = x # y # rest"
    using byte_at_cont [OF c0] byte_at_cont [OF t(3)] by (cases p; cases "tl p") auto
  obtain k l where k: "k < 64" "x = of_nat (k + 128)" and l: "l < 64" "y = of_nat (l + 128)"
    using c0 t(3) by (auto simp: p elim!: is_contE)
  define a where "a = unat b - 224"
  have a: "a < 16" "b = of_nat (a + 224)"
    using assms(3,4) ucast_eq_of_nat [OF refl, of b, where 'b = 8] by (simp_all add: a_def)
  have "c = of_nat (a * 4096 + k * 64 + l)"
    using assms(1) need2_nat [OF a(1) k(1) l(1), of lower rest] t(1) by (simp add: p a(2) k(2) l(2) del: of_nat_add of_nat_mult)
  moreover have "a * 4096 + k * 64 + l < 2 ^ 32" using a k l by simp
  ultimately have u: "unat c = a * 4096 + k * 64 + l" by (simp add: unat_of_nat del: of_nat_add of_nat_mult)
  show ?thesis
  proof (cases "a = 0")
    case True
    then have "lower = 0xA0" using assms(3,6) by (simp add: a_def)
    then have "32 \<le> k" using t(1) k by (simp add: p byte_cmp byte_nat del: of_nat_add)
    then show ?thesis using u by simp
  next
    case False
    then show ?thesis using u by simp
  qed
qed

lemma need3_big:
  assumes "need3 lower upper b p = (c, p')" and "length p' \<noteq> length p" and "240 \<le> unat b" and "unat b \<le> 244"
    and "lower \<ge> 0x80" and "upper \<le> 0xBF" and "unat b = 240 \<Longrightarrow> lower = 0x90"
  shows "65536 \<le> unat c"
proof -
  have t: "byte_at p 0 \<ge> lower" "byte_at p 0 \<le> upper" "is_cont (byte_at p 1)" "is_cont (byte_at p 2)"
    using assms(1,2) by (auto simp: need3_def split: if_splits)
  then have c0: "is_cont (byte_at p 0)" using assms(5,6) by (auto simp: is_cont_def)
  obtain x y z rest where p: "p = x # y # z # rest"
    using byte_at_cont [OF c0] byte_at_cont [OF t(3)] byte_at_cont [OF t(4)]
    by (cases p; cases "tl p"; cases "tl (tl p)") auto
  obtain k l m where k: "k < 64" "x = of_nat (k + 128)" and l: "l < 64" "y = of_nat (l + 128)"
    and m: "m < 64" "z = of_nat (m + 128)"
    using c0 t(3,4) by (auto simp: p elim!: is_contE)
  define a where "a = unat b - 240"
  have a: "a < 8" "b = of_nat (a + 240)"
    using assms(3,4) ucast_eq_of_nat [OF refl, of b, where 'b = 8] by (simp_all add: a_def)
  have "c = of_nat (a * 262144 + k * 4096 + l * 64 + m)"
    using assms(1) need3_nat [OF a(1) k(1) l(1) m(1), of lower upper rest] t(1,2)
    by (simp add: p a(2) k(2) l(2) m(2) del: of_nat_add of_nat_mult)
  moreover have "a * 262144 + k * 4096 + l * 64 + m < 2 ^ 32" using a k l m by simp
  ultimately have u: "unat c = a * 262144 + k * 4096 + l * 64 + m" by (simp add: unat_of_nat del: of_nat_add of_nat_mult)
  show ?thesis
  proof (cases "a = 0")
    case True
    then have "lower = 0x90" using assms(3,7) by (simp add: a_def)
    then have "16 \<le> k" using t(1) k by (simp add: p byte_cmp byte_nat del: of_nat_add)
    then show ?thesis using u by simp
  next
    case False
    then show ?thesis using u by simp
  qed
qed

lemma utf8_decode_len_latin1:
  assumes "b \<ge> 0x80" and "utf8_decode_len (b # p1) = (c, p')" and "length p' \<noteq> length p1" and "\<not> c > 0xFF"
  obtains x where "p1 = x # p'" "b \<ge> 0xC0" "c = push_bit 6 (ucast b - 0xC0) + (ucast x - 0x80)"
proof -
  have d: "utf8_decode (b # p1) = (c, p')"
    using assms(2,3) by (auto simp: utf8_decode_len_def split: if_splits)
  have c: "unat c \<le> 255" using assms(4) by (simp add: byte_cmp not_less)
  have b: "b = of_nat (unat b)" using ucast_eq_of_nat [OF refl, of b, where 'b = 8] by simp
  have "0xC2 \<le> b \<and> b \<le> 0xDF"
  proof (rule ccontr)
    assume n: "\<not> (0xC2 \<le> b \<and> b \<le> 0xDF)"
    consider "b = 0xE0" | "0xE1 \<le> b" "b \<le> 0xEF" | "b = 0xF0" | "b = 0xF4" | "0xF1 \<le> b" "b \<le> 0xF3"
      using n assms(1,3) d by (auto simp: utf8_decode_def leD split: if_splits)
    then show False
    proof cases
      case 1 then show False using d c need2_big [of "0xA0" b p1 c p'] assms(3) by (simp add: utf8_decode_def)
    next
      case 2 then show False using d c n need2_big [of "0x80" b p1 c p'] assms(3)
        by (auto simp: utf8_decode_def byte_cmp split: if_splits)
    next
      case 3 then show False using d c need3_big [of "0x90" "0xBF" b p1 c p'] assms(3) by (simp add: utf8_decode_def)
    next
      case 4 then show False using d c need3_big [of "0x80" "0x8F" b p1 c p'] assms(3) by (simp add: utf8_decode_def)
    next
      case 5 then show False using d c n need3_big [of "0x80" "0xBF" b p1 c p'] assms(3)
        by (auto simp: utf8_decode_def byte_cmp split: if_splits)
    qed
  qed
  moreover from this have "need1 b p1 = (c, p')" using d assms(1) by (simp add: utf8_decode_def leD)
  moreover from calculation(1) have "b \<ge> 0xC0" by (simp add: byte_cmp)
  ultimately show ?thesis
    using assms(3) that byte_at_cont [of p1 0] by (cases p1) (auto simp: need1_def split: if_splits)
qed

lemma decode8_scan:
  "\<not> has_16bit (fst (scan_loop p kind len)) \<Longrightarrow> \<not> has_errors (fst (scan_loop p kind len)) \<Longrightarrow>
   map ucast (decode8_units p) = decode_units p"
proof (induction "length p" arbitrary: p kind len rule: less_induct)
  case less
  show ?case
  proof (cases p)
    case (Cons b p1)
    obtain c p' where c: "utf8_decode_len p = (c, p')" by (cases "utf8_decode_len p")
    have u: "decode_units p = units_of c @ decode_units p'" by (subst decode_units.simps) (simp add: Cons c [unfolded Cons])
    have len: "length p' < length p" using utf8_decode_len_shorter [of p] Cons c by simp
    define kind' where "kind' = (if b \<ge> 0x80 then kind\<lparr>has_errors := has_errors kind \<or> length p' = length p1,
           has_16bit := has_16bit kind \<or> c > 0xFF, has_non_bmp1 := has_non_bmp1 kind \<or> c > 0xFFFF\<rparr> else kind)"
    have e: "scan_loop p kind len = scan_loop p' kind' (len + length (units_of c))"
      using c unfolding Cons scan_loop_step by (simp add: kind'_def)
    then have IH: "map ucast (decode8_units p') = decode_units p'" using less len by metis
    have flags: "\<not> has_16bit kind'" "\<not> has_errors kind'"
      using scan_loop_spec [of p' kind' "len + length (units_of c)"] less.prems e by auto
    show ?thesis
    proof (cases "b \<ge> 0x80")
      case False
      then have "c = ucast b" "p' = p1" using c Cons utf8_decode_len_ascii [of b p1] by (auto simp: not_le)
      moreover have "\<not> b \<ge> 0xC0" using False by (simp add: byte_cmp)
      moreover have "units_of (ucast b) = [ucast b]" using ucast_u8_small [of b] by (simp add: units_of_def)
      ultimately show ?thesis using IH u by (simp add: Cons)
    next
      case True
      then have "\<not> c > 0xFF" "length p' \<noteq> length p1" using flags by (auto simp: kind'_def)
      then obtain x where x: "p1 = x # p'" "b \<ge> 0xC0" "c = push_bit 6 (ucast b - 0xC0) + (ucast x - 0x80)"
        using utf8_decode_len_latin1 [OF True c [unfolded Cons]] by metis
      have e: "push_bit 6 (ucast b) + ucast x - (push_bit 6 0xC0 + 0x80) = c"
        unfolding x(3) by (simp add: push_bit_eq_mult algebra_simps)
      have "decode8_units p =
          ucast (push_bit 6 (ucast b) + ucast x - (push_bit 6 0xC0 + 0x80) :: u32) # decode8_units p'"
        using x(1,2) by (simp add: Cons)
      then have "decode8_units p = ucast c # decode8_units p'" by (simp only: e)
      moreover have "units_of c = [ucast c]" using \<open>\<not> c > 0xFF\<close> by (simp add: units_of_def byte_cmp not_less)
      moreover have "(ucast (ucast c :: u8) :: u16) = ucast c"
      proof -
        have "unat (ucast c :: u8) = unat c"
          using \<open>\<not> c > 0xFF\<close> by (simp add: unsigned_ucast_eq take_bit_nat_eq_self_iff byte_cmp not_less)
        from ucast_eq_of_nat [OF this, where 'b = 16] show ?thesis by simp
      qed
      ultimately show ?thesis using IH u by simp
    qed
  qed simp
qed

section \<open>Creating strings\<close>

lemma JS_NewStringLen_units:
  assumes "JS_NewStringLen alloc buf = Inr s"
  shows "units s = decode_units buf"
proof (cases "buf = []")
  case True
  then show ?thesis using assms by (auto simp: JS_NewStringLen_def)
next
  case False
  define kind len where "kind = fst (utf8_scan buf)" and "len = snd (utf8_scan buf)"
  have len: "len = length (decode_units buf)" by (simp add: len_def utf8_scan_length)
  have s: "s = (if \<not> non_ascii kind then Str8 buf
      else if \<not> has_16bit kind \<and> \<not> has_non_bmp1 kind \<and> \<not> has_errors kind
      then Str8 (take len (fst (utf8_decode_buf8 (len + 1) buf)))
      else Str16 (fst (utf8_decode_buf16 len buf)))"
    using assms False by (auto simp: JS_NewStringLen_def kind_def len_def split: prod.splits if_splits)
  show ?thesis
  proof (cases "list_ex (\<lambda>b. b \<ge> 0x80) buf")
    case ascii: False
    then have "\<not> non_ascii kind" by (simp add: kind_def utf8_scan_def Let_def)
    then show ?thesis using s decode_units_all_ascii [OF ascii] by simp
  next
    case True
    define k0 where "k0 = \<lparr>non_ascii = True, has_16bit = False, has_non_bmp1 = False, has_errors = False\<rparr>"
    have k: "utf8_scan buf = scan_loop buf k0 0" using True by (simp add: utf8_scan_def Let_def k0_def)
    have "non_ascii kind" using scan_loop_spec [of buf k0 0] by (simp add: kind_def k k0_def)
    show ?thesis
    proof (cases "\<not> has_16bit kind \<and> \<not> has_non_bmp1 kind \<and> \<not> has_errors kind")
      case True
      then have d: "map ucast (decode8_units buf) = decode_units buf"
        using decode8_scan [of buf k0 0] by (simp add: kind_def k)
      then have l: "length (decode8_units buf) = len" using len by (metis length_map)
      then have "decode8_loop buf [] 0 (len + 1) = (decode8_units buf, len)"
        using decode8_loop_spec [of "[]" 0 "len + 1" buf] by simp
      then show ?thesis using s True \<open>non_ascii kind\<close> d l by (simp add: utf8_decode_buf8_def)
    next
      case False
      then show ?thesis using s \<open>non_ascii kind\<close> len by (auto simp: utf8_decode_buf16_spec)
    qed
  qed
qed

section \<open>The destination buffers of the encoders\<close>

lemma encode8_rest_spec: "encode8_rest src j = j + length (to_utf8_8 src)"
  by (induction src j rule: encode8_rest.induct) auto

lemma encode16_rest_spec: "encode16_rest src j = j + length (to_utf8_16 False src)"
proof (induction src j rule: encode16_rest.induct)
  case (2 u src j)
  then show ?case by (cases "next_char16 u src") (simp add: utf8_encode_length)
qed simp

text \<open>
  The contract of an encoder: it returns the length of the whole encoding \<open>enc\<close>, and stores a prefix of
  it that ends in front of the terminator; all of it when it fits.
\<close>

definition stored :: "nat \<Rightarrow> u8 list \<Rightarrow> u8 list \<times> nat \<Rightarrow> bool" where
  "stored dest_len enc r \<longleftrightarrow> (case r of (dest, j) \<Rightarrow>
     j = length enc \<and> length dest \<le> dest_len \<and>
     (dest_len > 0 \<longrightarrow> (\<exists>k. dest = take k enc @ [0])) \<and>
     (length enc < dest_len \<longrightarrow> dest = enc @ [0]))"

lemma stored_stop:
  assumes "length pre < dest_len \<or> pre = []" and "pre @ rest = enc" and "length pre + length rest \<ge> dest_len"
    and "j = length enc"
  shows "stored dest_len enc (terminate_at pre dest_len, j)"
proof -
  have "pre = take (length pre) enc" using assms(2) by auto
  then show ?thesis using assms by (auto simp: stored_def terminate_at_def intro: exI [of _ "length pre"])
qed

lemma encode8_loop_stored:
  "length dest < dest_len \<or> dest = [] \<Longrightarrow> stored dest_len (dest @ to_utf8_8 src) (encode8_loop src dest dest_len)"
proof (induction src dest dest_len rule: encode8_loop.induct)
  case (1 dest dest_len)
  then show ?case
    by (auto simp: stored_def terminate_at_def intro!: exI [of _ "length dest"])
next
  case (2 b src dest dest_len)
  have b: "(ucast b :: u32) < 0x80 \<longleftrightarrow> b < 0x80" by (simp add: byte_cmp)
  have "(ucast (ucast b :: u32) :: u8) = b"
    using ucast_eq_of_nat [OF unat_ucast_u8_u32, of b, where 'b = 8] by simp
  then show ?case using 2
    by (auto simp: Let_def b encode8_rest_spec not_less not_le intro!: stored_stop [where rest = "to_utf8_8 (b # src)"])
qed

lemma encode16_loop_stored:
  "length dest < dest_len \<or> dest = [] \<Longrightarrow>
   stored dest_len (dest @ to_utf8_16 False src) (encode16_loop src dest dest_len)"
proof (induction src dest dest_len rule: encode16_loop.induct)
  case (1 dest dest_len)
  then show ?case
    by (auto simp: stored_def terminate_at_def intro!: exI [of _ "length dest"])
next
  case (2 u src dest dest_len)
  obtain c src' where n: "next_char16 u src = (c, src')" by (cases "next_char16 u src")
  show ?case
  proof (cases "u < 0x80")
    case True
    then show ?thesis using 2
      by (auto simp: encode16_rest_spec not_less not_le intro!: stored_stop [where rest = "to_utf8_16 False (u # src)"])
  next
    case False
    then show ?thesis using 2 n
      by (auto simp: encode16_rest_spec utf8_encode_length not_less not_le
          intro!: stored_stop [where rest = "to_utf8_16 False (u # src)"])
  qed
qed

section \<open>Properties\<close>

lemma utf8_encode_nonempty: "utf8_encode c \<noteq> []"
  by (simp add: utf8_encode_def)

interpretation utf8: codec "\<lambda>c. unat c < 1114112" utf8_encode "\<lambda>p. if p = [] then None else Some (utf8_decode_len p)"
  by unfold_locales (auto simp: utf8_decode_len_encode utf8_encode_nonempty)

text \<open>C22: encoding a code point up to 0x10FFFF, surrogates included, and decoding gives it back with the
  rest of the input; the encoding has the length that \<open>utf8_encode_len\<close> announces, and different
  sequences of code points have different encodings.\<close>

theorem utf8_roundtrip:
  assumes "unat c < 1114112" and "list_all (\<lambda>c. unat c < 1114112) cs" "list_all (\<lambda>c. unat c < 1114112) ds"
  shows "utf8_decode (utf8_encode c @ rest) = (c, rest)
    \<and> utf8_decode_len (utf8_encode c @ rest) = (c, rest)
    \<and> length (utf8_encode c) = utf8_encode_len c
    \<and> (concat (map utf8_encode cs) = concat (map utf8_encode ds)) = (cs = ds)"
  using utf8_decode_encode [OF assms(1)] utf8_decode_len_encode [OF assms(1)] utf8_encode_length
    utf8.encode_all_inj [OF assms(2,3)]
  by (auto simp: utf8.encode_all_def)

theorem utf8_roundtrip_witness:
  "utf8_decode (utf8_encode 0x1F600 @ [65]) = (0x1F600, [65])"
  using utf8_roundtrip [of "0x1F600" "[]" "[]" "[65]"] by simp

text \<open>C23: \<open>JS_NewStringLen\<close> stores the same 16-bit units whichever of its three branches the scan selects:
  the units that decoding the buffer code point by code point gives.\<close>

theorem JS_NewStringLen_correct:
  assumes "length (decode_units buf) \<le> JS_STRING_LEN_MAX"
  shows "\<exists>s. JS_NewStringLen True buf = Inr s \<and> units s = decode_units buf"
proof -
  obtain s where s: "JS_NewStringLen True buf = Inr s"
    using assms utf8_scan_length [of buf]
    by (cases "JS_NewStringLen True buf") (auto simp: JS_NewStringLen_def split: prod.splits if_splits)
  with JS_NewStringLen_units [OF s] show ?thesis by simp
qed

theorem JS_NewStringLen_correct_witness:
  "\<exists>s. JS_NewStringLen True [0xC3, 0xA9] = Inr s \<and> units s = decode_units [0xC3, 0xA9]"
proof -
  have "length (decode_units (utf8_encode 0xE9)) = 1"
    using decode_units_encode [of "0xE9" "[]"] by (simp add: units_of_def)
  moreover have "utf8_encode 0xE9 = [0xC3, 0xA9]" using utf8_encode_bytes(2) [of "0xE9"] by simp
  ultimately show ?thesis using JS_NewStringLen_correct [of "[0xC3, 0xA9]"] by (simp add: JS_STRING_LEN_MAX_def)
qed

text \<open>C24: every string, with lone surrogates too, converted to UTF-8 (or to CESU-8) and back has the same
  units, and the conversion writes no more bytes than it allocates; but for 16-bit strings of more than 715827882 units,
  for which the size \<open>len * 3\<close> overflows.\<close>

theorem JS_string_utf8_roundtrip:
  assumes "length (units str) \<le> JS_STRING_LEN_MAX"
  shows "if \<exists>src. str = Str16 src \<and> 715827882 < length src
    then JS_ToCStringLen2 True normal cesu8 str = Inl Undefined
    else \<exists>bytes str'. JS_ToCStringLen2 True normal cesu8 str = Inr bytes \<and> JS_NewStringLen True bytes = Inr str' \<and>
      units str' = units str \<and>
      length bytes \<le> (case str of Str8 src \<Rightarrow> length src + length (filter (\<lambda>b. b \<ge> 0x80) src) | Str16 src \<Rightarrow> length src * 3)"
proof (cases "\<exists>src. str = Str16 src \<and> 715827882 < length src")
  case True
  then show ?thesis by (auto simp: JS_ToCStringLen2_def INT_MAX_def)
next
  case fits: False
  obtain bytes where b: "JS_ToCStringLen2 True normal cesu8 str = Inr bytes"
    using fits by (cases "JS_ToCStringLen2 True normal cesu8 str")
      (auto simp: JS_ToCStringLen2_def INT_MAX_def split: js_string.splits if_splits)
  have ascii: "decode_units src = map ucast src" if "length (filter (\<lambda>b. b \<ge> 0x80) src) = 0" for src
    using that by (intro decode_units_all_ascii) (auto simp: list_ex_iff filter_empty_conv)
  have u: "decode_units bytes = units str"
    using b ascii by (cases str) (auto simp: JS_ToCStringLen2_def decode_to_utf8_8 decode_to_utf8_16 split: if_splits)
  have l8: "length (to_utf8_8 src) = length src + length (filter (\<lambda>b. b \<ge> 0x80) src)" for src
    by (induction src) (auto simp: not_le leD)
  have le: "length (utf8_encode c) \<le> 3 * length (units_of c)" for c
    by (auto simp: utf8_encode_length utf8_encode_len_def units_of_def byte_cmp)
  have l16: "length (to_utf8_16 cesu8 src) \<le> length src * 3" for src
  proof (induction cesu8 src rule: to_utf8_16.induct)
    case (2 cesu8 u src)
    obtain c src' where n: "(if cesu8 then (ucast u, src) else next_char16 u src) = (c, src')" by fastforce
    then have "units_of c @ src' = u # src" using next_char16_units [of u src] by (auto split: if_splits)
    then have "length (units_of c) + length src' = Suc (length src)" by (metis length_append length_Cons)
    moreover have "u < 0x80 \<or> to_utf8_16 cesu8 (u # src) = utf8_encode c @ to_utf8_16 cesu8 src'"
      unfolding to_utf8_16.simps n by simp
    ultimately show ?case using "2.IH"(1) "2.IH"(2) [OF _ n [symmetric] refl] le [of c] by (cases "u < 0x80") auto
  qed simp
  have "length bytes \<le> (case str of Str8 src \<Rightarrow> length src + length (filter (\<lambda>b. b \<ge> 0x80) src) | Str16 src \<Rightarrow> length src * 3)"
    using b l8 l16 by (cases str) (auto simp: JS_ToCStringLen2_def split: if_splits)
  then show ?thesis using fits b u JS_NewStringLen_correct [of bytes] assms by auto
qed

theorem JS_string_utf8_roundtrip_witness:
  "\<exists>bytes str'. JS_ToCStringLen2 True True False (Str16 [0xD83D, 0xDE00, 0xD800]) = Inr bytes \<and>
    JS_NewStringLen True bytes = Inr str' \<and> units str' = [0xD83D, 0xDE00, 0xD800]"
  using JS_string_utf8_roundtrip [of "Str16 [0xD83D, 0xDE00, 0xD800]" True False] by (auto simp: JS_STRING_LEN_MAX_def)

text \<open>C25: the buffer encoders never write past \<open>dest_len\<close> bytes, always terminate a nonempty destination,
  store a prefix of the encoding (all of it when it fits), and return the length of the whole
  encoding whatever the size of the destination.\<close>

theorem utf8_encode_buf_stored:
  "stored dest_len (to_utf8_8 src8) (utf8_encode_buf8 dest_len src8) \<and>
   stored dest_len (to_utf8_16 False src16) (utf8_encode_buf16 dest_len src16)"
  using encode8_loop_stored [of "[]"] encode16_loop_stored [of "[]"]
  by (simp add: utf8_encode_buf8_def utf8_encode_buf16_def)

end
