(* ===== verification/String_Buffer.thy ===== *)
theory String_Buffer
  imports Utf8
begin

text \<open>
  The string builder of \<open>src/qjs/quickjs.c\<close> (\<open>StringBuffer\<close>): 8-bit units until a unit above 255 arrives,
  16-bit units from then on. An error frees the buffer and sets a status that stays set (here the exception thrown), so the callers
  ignore the outcome of the single operations and look at it in \<open>string_buffer_end\<close>. \<open>slack\<close> gives, for
  the size of a block, how much more the allocator reports as usable, which is taken to be at most 1 GiB. Sums of lengths are
  of type \<open>int\<close>; the error \<open>Undefined\<close> shows one that overflows, and an access through the pointer of a buffer with an error.
\<close>

section \<open>The operations\<close>

type_synonym slack = "nat \<Rightarrow> nat"

definition usable :: "slack \<Rightarrow> nat \<Rightarrow> nat" where
  "usable slack n = min (slack n) (2 ^ 30)"

record string_buffer =
  sb_str :: js_string
  sb_size :: nat
  sb_error :: "js_error option"

type_synonym sb_result = "bool \<times> string_buffer \<times> mem"

fun is_wide_char :: "js_string \<Rightarrow> bool" where
  "is_wide_char (Str8 _) = False"
| "is_wide_char (Str16 _) = True"

fun str_len :: "js_string \<Rightarrow> nat" where
  "str_len (Str8 bs) = length bs"
| "str_len (Str16 us) = length us"

text \<open>A string without units, of the given width, and the string with a unit stored after the last one.\<close>

definition no_units :: "bool \<Rightarrow> js_string" where
  "no_units wide = (if wide then Str16 [] else Str8 [])"

fun store_unit :: "js_string \<Rightarrow> u32 \<Rightarrow> js_string" where
  "store_unit (Str8 bs) c = Str8 (bs @ [ucast c])"
| "store_unit (Str16 us) c = Str16 (us @ [ucast c])"

fun widen :: "js_string \<Rightarrow> js_string" where
  "widen (Str8 bs) = Str16 (map ucast bs)"
| "widen (Str16 us) = Str16 us"

abbreviation put_unit :: "string_buffer \<Rightarrow> u32 \<Rightarrow> string_buffer" where
  "put_unit s c \<equiv> s\<lparr>sb_str := store_unit (sb_str s) c\<rparr>"

abbreviation sb_len :: "string_buffer \<Rightarrow> nat" where
  "sb_len s \<equiv> str_len (sb_str s)"

abbreviation sb_wide :: "string_buffer \<Rightarrow> bool" where
  "sb_wide s \<equiv> is_wide_char (sb_str s)"

definition string_buffer_init2 :: "nat \<Rightarrow> bool \<Rightarrow> mem \<Rightarrow> string_buffer \<times> mem" where
  "string_buffer_init2 sz wide m =
     (case js_malloc m of
        (Inl e, m') \<Rightarrow> (\<lparr>sb_str = no_units wide, sb_size = 0, sb_error = Some e\<rparr>, m')
      | (Inr _, m') \<Rightarrow> (\<lparr>sb_str = no_units wide, sb_size = sz, sb_error = None\<rparr>, m'))"

definition string_buffer_init :: "nat \<Rightarrow> mem \<Rightarrow> string_buffer \<times> mem" where
  "string_buffer_init sz m = string_buffer_init2 sz False m"

text \<open>The pointer is NULL exactly when the error status is set, and \<open>js_free\<close> ignores NULL.\<close>

definition string_buffer_free :: "string_buffer \<Rightarrow> mem \<Rightarrow> mem" where
  "string_buffer_free s m = (if sb_error s = None then snd (js_free m) else m)"

definition string_buffer_set_error :: "string_buffer \<Rightarrow> js_error \<Rightarrow> mem \<Rightarrow> sb_result" where
  "string_buffer_set_error s e m =
     (False, s\<lparr>sb_str := no_units (sb_wide s), sb_size := 0, sb_error := Some e\<rparr>, string_buffer_free s m)"

definition string_buffer_widen :: "slack \<Rightarrow> string_buffer \<Rightarrow> nat \<Rightarrow> mem \<Rightarrow> sb_result" where
  "string_buffer_widen slack s sz m =
     (if sb_error s \<noteq> None then (False, s, m)
      else case js_realloc m of
             (Inl e, m') \<Rightarrow> string_buffer_set_error s e m'
           | (Inr _, m') \<Rightarrow>
               (True, s\<lparr>sb_str := widen (sb_str s), sb_size := sz + usable slack (sz * 2) div 2\<rparr>, m'))"

text \<open>\<open>s->size * 3 / 2\<close> in \<open>int\<close>: the product wraps.\<close>

definition grown_size :: "nat \<Rightarrow> int" where
  "grown_size sz = sint (of_nat (sz * 3) :: u32) div 2"

definition string_buffer_realloc :: "slack \<Rightarrow> string_buffer \<Rightarrow> nat \<Rightarrow> u32 \<Rightarrow> mem \<Rightarrow> sb_result" where
  "string_buffer_realloc slack s new_len c m =
     (if sb_error s \<noteq> None then (False, s, m)
      else if new_len > JS_STRING_LEN_MAX then string_buffer_set_error s (RangeError ''invalid string length'') m
      else let new_size = min (nat (max (int new_len) (grown_size (sb_size s)))) JS_STRING_LEN_MAX
           in if \<not> sb_wide s \<and> c \<ge> 0x100 then string_buffer_widen slack s new_size m
              else let w = of_bool (sb_wide s)
                   in case js_realloc m of
                        (Inl e, m') \<Rightarrow> string_buffer_set_error s e m'
                      | (Inr _, m') \<Rightarrow>
                          (True, s\<lparr>sb_size := min (new_size + usable slack (new_size * 2 ^ w + 1 - w) div 2 ^ w) JS_STRING_LEN_MAX\<rparr>, m'))"

definition string_buffer_putc16_slow :: "slack \<Rightarrow> string_buffer \<Rightarrow> u32 \<Rightarrow> mem \<Rightarrow> sb_result" where
  "string_buffer_putc16_slow slack s c m =
     (case (if sb_len s \<ge> sb_size s then string_buffer_realloc slack s (sb_len s + 1) c m else (True, s, m)) of
        (False, s, m) \<Rightarrow> (False, s, m)
      | (True, s, m) \<Rightarrow>
          (if sb_wide s \<or> c < 0x100 then (True, put_unit s c, m)
           else case string_buffer_widen slack s (sb_size s) m of
                  (False, s, m) \<Rightarrow> (False, s, m)
                | (True, s, m) \<Rightarrow> (True, put_unit s c, m)))"

definition string_buffer_putc8 :: "slack \<Rightarrow> string_buffer \<Rightarrow> u32 \<Rightarrow> mem \<Rightarrow> sb_result" where
  "string_buffer_putc8 slack s c m =
     (case (if sb_len s \<ge> sb_size s then string_buffer_realloc slack s (sb_len s + 1) c m else (True, s, m)) of
        (False, s, m) \<Rightarrow> (False, s, m)
      | (True, s, m) \<Rightarrow> (True, put_unit s c, m))"

definition string_buffer_putc16 :: "slack \<Rightarrow> string_buffer \<Rightarrow> u32 \<Rightarrow> mem \<Rightarrow> sb_result" where
  "string_buffer_putc16 slack s c m =
     (if sb_len s < sb_size s \<and> (sb_wide s \<or> c < 0x100) then (True, put_unit s c, m)
      else string_buffer_putc16_slow slack s c m)"

definition string_buffer_putc_slow :: "slack \<Rightarrow> string_buffer \<Rightarrow> u32 \<Rightarrow> mem \<Rightarrow> sb_result" where
  "string_buffer_putc_slow slack s c m =
     (if c \<ge> 0x10000
      then (case string_buffer_putc16 slack s (get_hi_surrogate c) m of
              (False, s, m) \<Rightarrow> (False, s, m)
            | (True, s, m) \<Rightarrow> string_buffer_putc16 slack s (get_lo_surrogate c) m)
      else string_buffer_putc16 slack s c m)"

definition string_buffer_putc :: "slack \<Rightarrow> string_buffer \<Rightarrow> u32 \<Rightarrow> mem \<Rightarrow> sb_result" where
  "string_buffer_putc slack s c m =
     (if sb_len s < sb_size s \<and> sb_wide s \<and> c < 0x10000 then (True, put_unit s c, m)
      else if sb_len s < sb_size s \<and> sb_wide s \<and> sb_len s + 1 < sb_size s
      then (True, put_unit (put_unit s (get_hi_surrogate c)) (get_lo_surrogate c), m)
      else if sb_len s < sb_size s \<and> \<not> sb_wide s \<and> c < 0x100 then (True, put_unit s c, m)
      else string_buffer_putc_slow slack s c m)"

definition string_get :: "js_string \<Rightarrow> nat \<Rightarrow> u32" where
  "string_get p idx = ucast (units p ! idx)"

definition string_getc :: "js_string \<Rightarrow> nat \<Rightarrow> u32 \<times> nat" where
  "string_getc p idx =
     (let c = string_get p idx
      in if is_wide_char p \<and> is_hi_surrogate c \<and> idx + 1 < str_len p \<and> is_lo_surrogate (string_get p (idx + 1))
         then (from_surrogate c (string_get p (idx + 1)), idx + 2)
         else (c, idx + 1))"

text \<open>Storing several units: the bytes of an 8-bit string, and units that fit when the buffer is narrow.\<close>

fun store_bytes :: "js_string \<Rightarrow> u8 list \<Rightarrow> js_string" where
  "store_bytes (Str8 bs) p = Str8 (bs @ p)"
| "store_bytes (Str16 us) p = Str16 (us @ map ucast p)"

fun store_units :: "js_string \<Rightarrow> u16 list \<Rightarrow> js_string" where
  "store_units (Str8 bs) p = Str8 (bs @ map ucast p)"
| "store_units (Str16 us) p = Str16 (us @ p)"

text \<open>The code goes wrong: from here on the status of the model is \<open>Undefined\<close>.\<close>

definition sb_undefined :: "string_buffer \<Rightarrow> mem \<Rightarrow> sb_result" where
  "sb_undefined s m = (False, s\<lparr>sb_error := Some Undefined\<rparr>, m)"

text \<open>\<open>str8\<close> and \<open>str16\<close> of a buffer with an error read through \<open>NULL\<close>, which a write of no units comes to.\<close>

definition string_buffer_write8 :: "slack \<Rightarrow> string_buffer \<Rightarrow> u8 list \<Rightarrow> mem \<Rightarrow> sb_result" where
  "string_buffer_write8 slack s p m =
     (if sb_len s + length p > INT_MAX then sb_undefined s m
      else case (if sb_len s + length p > sb_size s then string_buffer_realloc slack s (sb_len s + length p) 0 m
                 else (True, s, m)) of
             (False, s, m) \<Rightarrow> (False, s, m)
           | (True, s, m) \<Rightarrow>
               (if \<not> sb_wide s \<and> sb_error s \<noteq> None then sb_undefined s m
                else (True, s\<lparr>sb_str := store_bytes (sb_str s) p\<rparr>, m)))"

definition string_buffer_write16 :: "slack \<Rightarrow> string_buffer \<Rightarrow> u16 list \<Rightarrow> mem \<Rightarrow> sb_result" where
  "string_buffer_write16 slack s p m =
     (let c = ucast (foldr (OR) p 0)
      in if sb_len s + length p > INT_MAX then sb_undefined s m
         else case (if sb_len s + length p > sb_size s then string_buffer_realloc slack s (sb_len s + length p) c m
                    else if \<not> sb_wide s \<and> c \<ge> 0x100 then string_buffer_widen slack s (sb_size s) m
                    else (True, s, m)) of
                (False, s, m) \<Rightarrow> (False, s, m)
              | (True, s, m) \<Rightarrow>
                  (if sb_wide s \<and> sb_error s \<noteq> None then sb_undefined s m
                   else (True, s\<lparr>sb_str := store_units (sb_str s) p\<rparr>, m)))"

text \<open>The range has to be inside the string.\<close>

definition string_buffer_concat :: "slack \<Rightarrow> string_buffer \<Rightarrow> js_string \<Rightarrow> nat \<Rightarrow> nat \<Rightarrow> mem \<Rightarrow> sb_result" where
  "string_buffer_concat slack s p start stop m =
     (if stop \<le> start then (True, s, m)
      else if stop > str_len p then sb_undefined s m
      else case p of
             Str16 us \<Rightarrow> string_buffer_write16 slack s (take (stop - start) (drop start us)) m
           | Str8 bs \<Rightarrow> string_buffer_write8 slack s (take (stop - start) (drop start bs)) m)"

fun fill_loop :: "slack \<Rightarrow> string_buffer \<Rightarrow> u32 \<Rightarrow> nat \<Rightarrow> mem \<Rightarrow> sb_result" where
  "fill_loop slack s c 0 m = (True, s, m)"
| "fill_loop slack s c (Suc count) m =
     (case string_buffer_putc16 slack s c m of
        (False, s, m) \<Rightarrow> (False, s, m)
      | (True, s, m) \<Rightarrow> fill_loop slack s c count m)"

definition string_buffer_fill :: "slack \<Rightarrow> string_buffer \<Rightarrow> u32 \<Rightarrow> int \<Rightarrow> mem \<Rightarrow> sb_result" where
  "string_buffer_fill slack s c count m =
     (if int (sb_len s) + count > int INT_MAX then sb_undefined s m
      else case (if int (sb_len s) + count > int (sb_size s)
                 then string_buffer_realloc slack s (nat (int (sb_len s) + count)) c m
                 else (True, s, m)) of
             (False, s, m) \<Rightarrow> (False, s, m)
           | (True, s, m) \<Rightarrow> fill_loop slack s c (nat count) m)"

text \<open>The result owns the block, except for the empty string, which is shared.\<close>

definition string_buffer_end :: "string_buffer \<Rightarrow> mem \<Rightarrow> (js_error + js_string) \<times> mem" where
  "string_buffer_end s m =
     (case sb_error s of
        Some e \<Rightarrow> (Inl e, m)
      | None \<Rightarrow>
          (if sb_len s = 0 then (Inr (Str8 []), snd (js_free m))
           else if sb_len s < sb_size s then (Inr (sb_str s), snd (js_realloc m))
           else (Inr (sb_str s), m)))"

section \<open>The contract\<close>

lemma str_len_units: "length (units p) = str_len p"
  by (cases p) simp_all

lemma units_no_units [simp]: "units (no_units w) = []" "str_len (no_units w) = 0"
  by (simp_all add: no_units_def)

lemma units_widen [simp]: "units (widen p) = units p" "str_len (widen p) = str_len p" "is_wide_char (widen p)"
  by (cases p; simp)+

lemma ucast_u8_u16:
  assumes "c < 0x100"
  shows "(ucast (ucast (c :: u32) :: u8) :: u16) = ucast c"
proof -
  have n: "unat c < 256" using assms by (simp add: word_less_nat_alt)
  have "unat (ucast c :: u8) = unat c"
    unfolding ucast_eq_of_nat [OF refl, of c] using n by (rule byte_nat)
  from ucast_eq_of_nat [OF this] show ?thesis unfolding ucast_eq_of_nat [OF refl, of c] .
qed

lemma units_store_unit: "is_wide_char p \<or> c < 0x100 \<Longrightarrow> units (store_unit p c) = units p @ [ucast c]"
  by (cases p) (auto simp: ucast_u8_u16)

lemma store_unit_simps [simp]: "str_len (store_unit p c) = Suc (str_len p)" "is_wide_char (store_unit p c) = is_wide_char p"
  by (cases p; simp)+

text \<open>
  What every operation keeps: the units fit in the buffer, the error status and the block are in step,
  and an error has a reason (an allocation that failed, or \<open>n\<close> more units than a string may have). The size of
  a narrow buffer is within the limit on strings; widening adds what the allocator offers, so that \<open>s->len + 1\<close> and
  \<open>s->size << 1\<close> do not overflow.
\<close>

definition sb_limit :: "bool \<Rightarrow> nat" where
  "sb_limit wide = JS_STRING_LEN_MAX + (if wide then 2 ^ 29 else 0)"

definition sb_wf :: "string_buffer \<Rightarrow> bool" where
  "sb_wf s \<longleftrightarrow> (if sb_error s = None then sb_len s \<le> sb_size s \<and> sb_size s \<le> sb_limit (sb_wide s)
     else sb_len s = 0 \<and> sb_size s = 0)"

lemma sb_wf_len: "sb_wf s \<Longrightarrow> sb_len s + 6 \<le> INT_MAX"
  by (auto simp: sb_wf_def sb_limit_def INT_MAX_def JS_STRING_LEN_MAX_def split: if_splits)

definition sb_owned :: "string_buffer \<Rightarrow> int" where
  "sb_owned s = of_bool (sb_error s = None)"

definition sb_reason :: "string_buffer \<Rightarrow> nat \<Rightarrow> mem \<Rightarrow> js_error \<Rightarrow> bool" where
  "sb_reason s n m e \<longleftrightarrow> e = OutOfMemory \<and> mem_outcomes m \<noteq> []
     \<or> e = RangeError ''invalid string length'' \<and> sb_len s + n > JS_STRING_LEN_MAX"

definition sb_step :: "string_buffer \<Rightarrow> nat \<Rightarrow> mem \<Rightarrow> sb_result \<Rightarrow> bool" where
  "sb_step s n m r \<longleftrightarrow> (case r of (ok, s', m') \<Rightarrow>
     sb_wf s' \<and> (\<not> ok \<longrightarrow> sb_error s' \<noteq> None) \<and> (sb_error s \<noteq> None \<longrightarrow> sb_error s' = sb_error s) \<and>
     (\<forall>e. sb_error s = None \<and> sb_error s' = Some e \<longrightarrow> sb_reason s n m e) \<and>
     (mem_outcomes m = [] \<longrightarrow> mem_outcomes m' = []) \<and>
     mem_live m' - sb_owned s' = mem_live m - sb_owned s)"

definition puts :: "string_buffer \<Rightarrow> u16 list \<Rightarrow> mem \<Rightarrow> sb_result \<Rightarrow> bool" where
  "puts s us m r \<longleftrightarrow> sb_step s (length us) m r \<and>
     (case r of (ok, s', m') \<Rightarrow> sb_error s' = None \<longrightarrow> units (sb_str s') = units (sb_str s) @ us)"

text \<open>Room for \<open>n\<close> more units not above \<open>c\<close>.\<close>

definition room :: "string_buffer \<Rightarrow> nat \<Rightarrow> u32 \<Rightarrow> mem \<Rightarrow> sb_result \<Rightarrow> bool" where
  "room s n c m r \<longleftrightarrow> sb_step s n m r \<and>
     (case r of (ok, s', m') \<Rightarrow> (ok \<longrightarrow> sb_error s' = None \<and> units (sb_str s') = units (sb_str s) \<and>
        sb_len s + n \<le> sb_size s' \<and> (sb_wide s' \<or> c < 0x100)))"

lemma js_malloc_cases:
  obtains (ok) m' where "js_malloc m = (Inr (), m')" "mem_outcomes m = [] \<longrightarrow> mem_outcomes m' = []" "mem_live m' = mem_live m + 1"
  | (fail) m' where "js_malloc m = (Inl OutOfMemory, m')" "mem_outcomes m \<noteq> []" "mem_live m' = mem_live m"
proof (cases "mem_outcomes m")
  case Nil
  then show ?thesis by (intro ok [of "snd (js_malloc m)"]) (simp_all add: js_malloc_def)
next
  case (Cons a oks)
  then show ?thesis
    using ok [of "snd (js_malloc m)"] fail [of "snd (js_malloc m)"] by (cases a) (simp_all add: js_malloc_def)
qed

lemma js_realloc_cases:
  obtains (ok) m' where "js_realloc m = (Inr (), m')" "mem_outcomes m = [] \<longrightarrow> mem_outcomes m' = []" "mem_live m' = mem_live m"
  | (fail) m' where "js_realloc m = (Inl OutOfMemory, m')" "mem_outcomes m \<noteq> []" "mem_live m' = mem_live m"
proof (cases "mem_outcomes m")
  case Nil
  then show ?thesis by (intro ok [of "snd (js_realloc m)"]) (simp_all add: js_realloc_def)
next
  case (Cons a oks)
  then show ?thesis
    using ok [of "snd (js_realloc m)"] fail [of "snd (js_realloc m)"] by (cases a) (simp_all add: js_realloc_def)
qed

lemma set_error_step:
  assumes "sb_error s = None" and "sb_reason s n m e" and "mem_outcomes m = [] \<longrightarrow> mem_outcomes m' = []"
    and "mem_live m' = mem_live m"
  shows "sb_step s n m (string_buffer_set_error s e m')"
  using assms by (auto simp: string_buffer_set_error_def string_buffer_free_def js_free_def sb_step_def sb_wf_def sb_owned_def)

lemma widen_room:
  assumes "sb_wf s" and "sb_len s + n \<le> sz" and "sz \<le> JS_STRING_LEN_MAX"
  shows "room s n c m (string_buffer_widen slack s sz m)"
proof (cases "sb_error s = None")
  case True
  show ?thesis
  proof (cases m rule: js_realloc_cases)
    case (fail m')
    then have "sb_step s n m (string_buffer_set_error s OutOfMemory m')"
      using True by (intro set_error_step) (auto simp: sb_reason_def)
    then show ?thesis using True fail(1)
      by (simp add: room_def string_buffer_widen_def string_buffer_set_error_def)
  next
    case (ok m')
    have "usable slack (sz * 2) div 2 \<le> 2 ^ 29" by (simp add: usable_def)
    then have "sz + usable slack (sz * 2) div 2 \<le> sb_limit True" using assms(3) by (simp add: sb_limit_def)
    then show ?thesis using assms ok True
      by (simp add: room_def string_buffer_widen_def sb_step_def sb_wf_def sb_owned_def)
  qed
qed (use assms in \<open>auto simp: room_def string_buffer_widen_def sb_step_def\<close>)

lemma realloc_room:
  assumes "sb_wf s"
  shows "room s n c m (string_buffer_realloc slack s (sb_len s + n) c m)"
proof (cases "sb_error s = None \<and> sb_len s + n \<le> JS_STRING_LEN_MAX")
  case False
  have "sb_step s n m (string_buffer_set_error s (RangeError ''invalid string length'') m)"
    if "sb_error s = None" "sb_len s + n > JS_STRING_LEN_MAX"
    using that by (intro set_error_step) (auto simp: sb_reason_def)
  then show ?thesis using False assms
    by (auto simp: room_def string_buffer_realloc_def string_buffer_set_error_def sb_step_def)
next
  case True
  define new_size where "new_size = min (nat (max (int (sb_len s + n)) (grown_size (sb_size s)))) JS_STRING_LEN_MAX"
  have n: "sb_len s + n \<le> new_size" using True unfolding new_size_def by linarith
  have w: "new_size \<le> JS_STRING_LEN_MAX" by (simp add: new_size_def)
  have r: "string_buffer_realloc slack s (sb_len s + n) c m =
     (if \<not> sb_wide s \<and> c \<ge> 0x100 then string_buffer_widen slack s new_size m
              else let w = of_bool (sb_wide s)
                   in case js_realloc m of
                        (Inl e, m') \<Rightarrow> string_buffer_set_error s e m'
                      | (Inr _, m') \<Rightarrow>
                          (True, s\<lparr>sb_size := min (new_size + usable slack (new_size * 2 ^ w + 1 - w) div 2 ^ w) JS_STRING_LEN_MAX\<rparr>, m'))"
    using True unfolding string_buffer_realloc_def new_size_def by (simp only: Let_def not_less simp_thms if_True if_False not_le[symmetric])
  show ?thesis
  proof (cases "\<not> sb_wide s \<and> c \<ge> 0x100")
    case True
    then show ?thesis unfolding r using widen_room [OF assms n w] by simp
  next
    case False
    show ?thesis
    proof (cases m rule: js_realloc_cases)
      case (fail m')
      then have "sb_step s n m (string_buffer_set_error s OutOfMemory m')"
        using True by (intro set_error_step) (auto simp: sb_reason_def)
      then show ?thesis using False fail(1) unfolding r
        by (auto simp: room_def string_buffer_set_error_def)
    next
      case (ok m')
      have "JS_STRING_LEN_MAX \<le> sb_limit (sb_wide s)" by (simp add: sb_limit_def)
      then show ?thesis using assms ok True False n w unfolding r
        by (auto simp: room_def sb_step_def sb_wf_def sb_owned_def Let_def not_le)
    qed
  qed
qed

lemma sb_step_refl: "sb_wf s \<Longrightarrow> sb_step s n m (True, s, m)"
  by (auto simp: sb_step_def)

lemma roomD:
  assumes "room s n c m (ok, s', m')" and "ok"
  shows "sb_error s' = None" "units (sb_str s') = units (sb_str s)" "sb_len s' = sb_len s"
    "sb_len s + n \<le> sb_size s'" "sb_wide s' \<or> c < 0x100" "sb_step s n m (True, s', m')"
  using assms str_len_units [of "sb_str s"] str_len_units [of "sb_str s'"] by (auto simp: room_def)

lemma room_fail: "room s n c m (False, s', m') \<Longrightarrow> sb_step s n m (False, s', m') \<and> sb_error s' \<noteq> None"
  by (auto simp: room_def sb_step_def)

text \<open>A write that asked for room first.\<close>

lemma puts_room:
  assumes "room s (length us) c m r"
    and "\<And>s' m'. r = (True, s', m') \<Longrightarrow> sb_wide s' \<or> c < 0x100 \<Longrightarrow> units (upd (sb_str s')) = units (sb_str s') @ us"
    and "\<And>q. is_wide_char (upd q) = is_wide_char q"
  shows "puts s us m (case r of (False, s, m) \<Rightarrow> (False, s, m) | (True, s, m) \<Rightarrow> (True, s\<lparr>sb_str := upd (sb_str s)\<rparr>, m))"
proof (cases r)
  case (fields ok s' m')
  show ?thesis
  proof (cases ok)
    case True
    note d = roomD [OF assms(1) [unfolded fields] True]
    have u: "units (upd (sb_str s')) = units (sb_str s) @ us"
      using assms(2) [of s' m'] fields True d(2,5) by simp
    have "sb_wf (s'\<lparr>sb_str := upd (sb_str s')\<rparr>)"
      using d(1,4,6) arg_cong [OF u, of length] assms(3) by (simp add: sb_wf_def sb_step_def str_len_units)
    then show ?thesis using d(1,6) u fields True by (simp add: puts_def sb_step_def sb_owned_def)
  qed (use assms(1) fields room_fail [of s "length us" c m s' m'] in \<open>auto simp: puts_def\<close>)
qed

text \<open>Two writes in a row, and a write that stopped after the first.\<close>

lemma sb_step_trans:
  assumes "puts s us m (ok, s1, m1)" and "sb_step s1 n m1 r"
  shows "sb_step s (length us + n) m r"
proof (cases r)
  case (fields ok2 s2 m2)
  have 1: "sb_step s (length us) m (ok, s1, m1)" "sb_error s1 = None \<longrightarrow> units (sb_str s1) = units (sb_str s) @ us"
    using assms(1) by (simp_all add: puts_def)
  have "sb_reason s (length us + n) m e" if "sb_error s = None" "sb_error s2 = Some e" for e
  proof (cases "sb_error s1")
    case None
    then have "sb_len s1 = sb_len s + length us" using 1(2) arg_cong [of _ _ length] by (fastforce simp flip: str_len_units)
    moreover have "sb_reason s1 n m1 e" using assms(2) fields None that(2) by (simp add: sb_step_def)
    ultimately show ?thesis using 1(1) by (auto simp: sb_reason_def sb_step_def)
  next
    case (Some e')
    then have "e' = e" using assms(2) fields that(2) by (simp add: sb_step_def)
    then have "sb_reason s (length us) m e" using 1(1) that(1) Some by (simp add: sb_step_def)
    then show ?thesis by (auto simp: sb_reason_def)
  qed
  then show ?thesis using 1(1) assms(2) fields by (simp add: sb_step_def)
qed

lemma puts_trans:
  assumes "puts s us m (ok, s1, m1)" and "puts s1 us' m1 r"
  shows "puts s (us @ us') m r"
proof (cases r)
  case (fields ok2 s2 m2)
  have s: "sb_step s1 (length us') m1 r" using assms(2) by (simp add: puts_def)
  have "sb_error s1 = None" if "sb_error s2 = None"
    using s fields that by (auto simp: sb_step_def)
  then show ?thesis using sb_step_trans [OF assms(1) s] assms fields by (auto simp: puts_def)
qed

lemma puts_stop: "puts s us m (False, s1, m1) \<Longrightarrow> puts s (us @ us') m (False, s1, m1)"
  using sb_step_trans [of s us m False s1 m1 "length us'" "(False, s1, m1)"]
  by (auto simp: puts_def sb_step_def)

lemma puts_bind:
  assumes "puts s us m r" and "\<And>s1 m1. r = (True, s1, m1) \<Longrightarrow> sb_wf s1 \<Longrightarrow> puts s1 us' m1 (f s1 m1)"
  shows "puts s (us @ us') m (case r of (False, s, m) \<Rightarrow> (False, s, m) | (True, s, m) \<Rightarrow> f s m)"
proof (cases r)
  case (fields ok s1 m1)
  then show ?thesis
  proof (cases ok)
    case True
    moreover have "sb_wf s1" using assms(1) fields by (simp add: puts_def sb_step_def)
    ultimately show ?thesis using assms(2) [of s1 m1] puts_trans [OF assms(1) [unfolded fields]] fields by simp
  qed (use assms(1) fields in \<open>simp add: puts_stop\<close>)
qed

lemma puts_wf: "puts s us m (ok, s', m') \<Longrightarrow> sb_wf s'"
  by (simp add: puts_def sb_step_def)

section \<open>The writes\<close>

lemma putc_fast:
  assumes "sb_wf s" and "sb_len s < sb_size s" and "sb_wide s \<or> c < 0x100"
  shows "puts s [ucast c] m (True, put_unit s c, m)"
proof -
  have "sb_error s = None" using assms(1,2) by (auto simp: sb_wf_def split: if_splits)
  then show ?thesis using assms by (simp add: puts_def sb_step_def sb_wf_def sb_owned_def units_store_unit)
qed

lemma putc16_slow_puts:
  assumes "sb_wf s"
  shows "puts s [ucast c] m (string_buffer_putc16_slow slack s c m)"
proof -
  define r where "r = (if sb_len s \<ge> sb_size s then string_buffer_realloc slack s (sb_len s + 1) c m else (True, s, m))"
  obtain ok s' m' where f: "r = (ok, s', m')" by (cases r)
  have u: "string_buffer_putc16_slow slack s c m = (case r of (False, s, m) \<Rightarrow> (False, s, m)
      | (True, s, m) \<Rightarrow> (if sb_wide s \<or> c < 0x100 then (True, put_unit s c, m)
           else case string_buffer_widen slack s (sb_size s) m of
                  (False, s, m) \<Rightarrow> (False, s, m) | (True, s, m) \<Rightarrow> (True, put_unit s c, m)))"
    by (simp only: string_buffer_putc16_slow_def r_def)
  show ?thesis
  proof (cases "sb_len s \<ge> sb_size s")
    case True
    then have r: "room s (length [ucast c :: u16]) c m r" using realloc_room [OF assms, of 1] by (simp add: r_def)
    have "puts s [ucast c] m (case r of (False, s, m) \<Rightarrow> (False, s, m) | (True, s, m) \<Rightarrow> (True, s\<lparr>sb_str := store_unit (sb_str s) c\<rparr>, m))"
      using r by (rule puts_room) (simp_all add: units_store_unit)
    moreover have "ok \<longrightarrow> sb_wide s' \<or> c < 0x100" using roomD(5) [OF r [unfolded f]] by simp
    ultimately show ?thesis unfolding u f by (cases ok) auto
  next
    case False
    then have r: "r = (True, s, m)" by (simp add: r_def)
    show ?thesis
    proof (cases "sb_wide s \<or> c < 0x100")
      case True
      then show ?thesis using putc_fast [OF assms] False unfolding u r by simp
    next
      case wide: False
      have "sb_size s \<le> JS_STRING_LEN_MAX" using assms wide by (auto simp: sb_wf_def sb_limit_def split: if_splits)
      then have "room s (length [ucast c :: u16]) 0xFFFF m (string_buffer_widen slack s (sb_size s) m)"
        using assms False by (intro widen_room) auto
      then have "puts s [ucast c] m (case string_buffer_widen slack s (sb_size s) m of (False, s, m) \<Rightarrow> (False, s, m)
          | (True, s, m) \<Rightarrow> (True, s\<lparr>sb_str := store_unit (sb_str s) c\<rparr>, m))"
        by (rule puts_room) (simp_all add: units_store_unit)
      then show ?thesis using wide unfolding u r by simp
    qed
  qed
qed

lemma putc16_puts: "sb_wf s \<Longrightarrow> puts s [ucast c] m (string_buffer_putc16 slack s c m)"
  using putc_fast putc16_slow_puts by (simp add: string_buffer_putc16_def)

lemma putc8_puts:
  assumes "sb_wf s" and "c < 0x100"
  shows "puts s [ucast c] m (string_buffer_putc8 slack s c m)"
proof (cases "sb_len s \<ge> sb_size s")
  case True
  then have "room s (length [ucast c :: u16]) c m (string_buffer_realloc slack s (sb_len s + 1) c m)"
    using realloc_room [OF assms(1), of 1] by simp
  then have "puts s [ucast c] m (case string_buffer_realloc slack s (sb_len s + 1) c m of (False, s, m) \<Rightarrow> (False, s, m)
      | (True, s, m) \<Rightarrow> (True, s\<lparr>sb_str := store_unit (sb_str s) c\<rparr>, m))"
    by (rule puts_room) (simp_all add: units_store_unit)
  then show ?thesis using True by (simp add: string_buffer_putc8_def)
next
  case False
  then show ?thesis using putc_fast [OF assms(1)] assms(2) by (simp add: string_buffer_putc8_def)
qed

lemma putc_puts:
  assumes "sb_wf s"
  shows "puts s (units_of c) m (string_buffer_putc slack s c m)"
proof -
  have small: "c < 0x10000 \<Longrightarrow> units_of c = [ucast c]" "c < 0x100 \<Longrightarrow> units_of c = [ucast c]"
    by (auto simp: units_of_def word_less_nat_alt)
  have big: "\<not> c < 0x10000 \<Longrightarrow> units_of c = [ucast (get_hi_surrogate c)] @ [ucast (get_lo_surrogate c)]"
    by (auto simp: units_of_def word_less_nat_alt)
  have slow: "puts s (units_of c) m (string_buffer_putc_slow slack s c m)"
  proof (cases "c < 0x10000")
    case True
    then show ?thesis using putc16_puts [OF assms] by (simp add: string_buffer_putc_slow_def small not_le [THEN iffD2, OF True])
  next
    case False
    then show ?thesis using puts_bind [OF putc16_puts [OF assms] putc16_puts] by (simp add: string_buffer_putc_slow_def big not_less)
  qed
  have fast: "puts s (units_of c) m (True, put_unit (put_unit s (get_hi_surrogate c)) (get_lo_surrogate c), m)"
    if "sb_len s < sb_size s" "sb_wide s" "sb_len s + 1 < sb_size s" "\<not> c < 0x10000"
  proof -
    have 1: "puts s [ucast (get_hi_surrogate c)] m (True, put_unit s (get_hi_surrogate c), m)"
      using putc_fast [OF assms that(1)] that(2) by simp
    have "puts (put_unit s (get_hi_surrogate c)) [ucast (get_lo_surrogate c)] m
        (True, put_unit (put_unit s (get_hi_surrogate c)) (get_lo_surrogate c), m)"
      using 1 that by (intro putc_fast) (auto simp: puts_def sb_step_def)
    from puts_trans [OF 1 this] show ?thesis using that(4) by (simp add: big)
  qed
  show ?thesis using slow fast putc_fast [OF assms, of c] small by (auto simp: string_buffer_putc_def)
qed

lemma is_wide_char_store [simp]:
  "is_wide_char (store_bytes q p) = is_wide_char q" "is_wide_char (store_units q p') = is_wide_char q"
  by (cases q; simp)+

lemma units_store_bytes: "units (store_bytes p bs) = units p @ map ucast bs"
  by (cases p) simp_all

lemma u16_small: "(u :: u16) < 0x100 \<longleftrightarrow> drop_bit 8 u = 0"
proof -
  have "drop_bit 8 u = 0 \<longleftrightarrow> unat (drop_bit 8 u) = 0" by (simp add: unat_eq_0)
  also have "\<dots> \<longleftrightarrow> unat u < 256" using unat_drop_bit [of 8 u] by (simp add: div_eq_0_iff)
  finally show ?thesis by (simp add: word_less_nat_alt)
qed

lemma or_all_small: "foldr (OR) p 0 < (0x100 :: u16) \<Longrightarrow> u \<in> set p \<Longrightarrow> u < 0x100"
  by (induction p) (auto simp: u16_small drop_bit_or or_eq_0_iff)

lemma units_store_units:
  assumes "is_wide_char q \<or> foldr (OR) p 0 < (0x100 :: u16)"
  shows "units (store_units q p) = units q @ p"
proof (cases q)
  case (Str8 bs)
  have "(ucast (ucast u :: u8) :: u16) = u" if "u \<in> set p" for u
  proof -
    have "unat u < 256" using or_all_small [of p u] assms Str8 that by (simp add: word_less_nat_alt)
    then have "unat (ucast u :: u8) = unat u"
      unfolding ucast_eq_of_nat [OF refl, of u] by (rule byte_nat)
    from ucast_eq_of_nat [OF this, where 'b = 16] show ?thesis by simp
  qed
  then show ?thesis using Str8 by (simp add: map_idI)
qed simp

lemma write_empty: "sb_wf s \<Longrightarrow> puts s [] m (True, s, m)"
  by (simp add: puts_def sb_step_refl)

lemma wf_room: "sb_wf s \<Longrightarrow> sb_len s + n \<le> sb_size s \<Longrightarrow> 0 < n \<Longrightarrow> sb_wide s \<or> c < 0x100 \<Longrightarrow> room s n c m (True, s, m)"
  using sb_step_refl by (auto simp: room_def sb_wf_def split: if_splits)

text \<open>Where a write goes wrong.\<close>

definition sb_bad :: "string_buffer \<Rightarrow> nat \<Rightarrow> bool \<Rightarrow> bool" where
  "sb_bad s n wide \<longleftrightarrow> sb_len s + n > INT_MAX \<or> n = 0 \<and> sb_error s \<noteq> None \<and> sb_wide s = wide"

definition sb_goes_wrong :: "sb_result \<Rightarrow> bool" where
  "sb_goes_wrong r \<longleftrightarrow> (case r of (ok, s, m) \<Rightarrow> \<not> ok \<and> sb_error s = Some Undefined)"

lemma sb_goes_wrong_undefined [simp]: "sb_goes_wrong (sb_undefined s m)"
  by (simp add: sb_goes_wrong_def sb_undefined_def)

lemma wf_error_empty: "sb_wf s \<Longrightarrow> sb_error s \<noteq> None \<Longrightarrow> sb_len s = 0 \<and> sb_size s = 0"
  by (simp add: sb_wf_def)

text \<open>The access after the room was made: it is valid when there is no error.\<close>

lemma puts_room_checked:
  assumes r: "room s (length us) c m r"
    and u: "\<And>s' m'. r = (True, s', m') \<Longrightarrow> sb_wide s' \<or> c < 0x100 \<Longrightarrow> units (upd (sb_str s')) = units (sb_str s') @ us"
    and w: "\<And>q. is_wide_char (upd q) = is_wide_char q"
  shows "puts s us m (case r of (False, s, m) \<Rightarrow> (False, s, m)
    | (True, s, m) \<Rightarrow> (if bad s \<and> sb_error s \<noteq> None then sb_undefined s m else (True, s\<lparr>sb_str := upd (sb_str s)\<rparr>, m)))"
proof (cases r)
  case (fields ok s' m')
  have "ok \<Longrightarrow> sb_error s' = None" using roomD(1) [OF r [unfolded fields]] .
  then have "(case r of (False, s, m) \<Rightarrow> (False, s, m)
    | (True, s, m) \<Rightarrow> (if bad s \<and> sb_error s \<noteq> None then sb_undefined s m else (True, s\<lparr>sb_str := upd (sb_str s)\<rparr>, m))) =
    (case r of (False, s, m) \<Rightarrow> (False, s, m) | (True, s, m) \<Rightarrow> (True, s\<lparr>sb_str := upd (sb_str s)\<rparr>, m))"
    using fields by (cases ok) simp_all
  then show ?thesis using puts_room [OF r, of upd] u w by presburger
qed

lemma write8_puts:
  assumes "sb_wf s" and "\<not> sb_bad s (length p) False"
  shows "puts s (map ucast p) m (string_buffer_write8 slack s p m)"
proof (cases "p = [] \<and> sb_len s + length p \<le> sb_size s")
  case True
  have "store_bytes q [] = q" for q by (cases q) simp_all
  then show ?thesis using write_empty [OF assms(1), of m] True assms(2) by (auto simp: string_buffer_write8_def sb_bad_def)
next
  case False
  define r where "r = (if sb_len s + length p > sb_size s then string_buffer_realloc slack s (sb_len s + length p) 0 m else (True, s, m))"
  have r: "room s (length (map ucast p :: u16 list)) 0 m r"
    using False realloc_room [OF assms(1)] wf_room [OF assms(1)] by (auto simp: r_def)
  have "string_buffer_write8 slack s p m = (case r of (False, s, m) \<Rightarrow> (False, s, m)
      | (True, s, m) \<Rightarrow> (if \<not> sb_wide s \<and> sb_error s \<noteq> None then sb_undefined s m
           else (True, s\<lparr>sb_str := store_bytes (sb_str s) p\<rparr>, m)))"
    using assms(2) unfolding string_buffer_write8_def r_def [symmetric] sb_bad_def by simp
  then show ?thesis using puts_room_checked [OF r, of "\<lambda>q. store_bytes q p" "\<lambda>s. \<not> sb_wide s"] units_store_bytes by simp
qed

lemma write8_wrong:
  assumes "sb_wf s" and "sb_bad s (length p) False"
  shows "sb_goes_wrong (string_buffer_write8 slack s p m)"
  using assms wf_error_empty [OF assms(1)] by (auto simp: string_buffer_write8_def sb_bad_def)

lemma ucast_u16_small_iff: "(ucast (u :: u16) :: u32) < 0x100 \<longleftrightarrow> u < 0x100"
  by (simp add: word_less_nat_alt)

lemma write16_puts:
  assumes "sb_wf s" and "\<not> sb_bad s (length p) True"
  shows "puts s p m (string_buffer_write16 slack s p m)"
proof (cases "p = [] \<and> sb_len s + length p \<le> sb_size s")
  case True
  have "store_units q [] = q" for q by (cases q) simp_all
  then show ?thesis using write_empty [OF assms(1), of m] True assms(2) by (auto simp: string_buffer_write16_def sb_bad_def)
next
  case False
  define c where "c = (ucast (foldr (OR) p 0 :: u16) :: u32)"
  define r where "r = (if sb_len s + length p > sb_size s then string_buffer_realloc slack s (sb_len s + length p) c m
               else if \<not> sb_wide s \<and> c \<ge> 0x100 then string_buffer_widen slack s (sb_size s) m
               else (True, s, m))"
  have narrow: "\<not> sb_wide s \<Longrightarrow> sb_size s \<le> JS_STRING_LEN_MAX" using assms(1) by (auto simp: sb_wf_def sb_limit_def split: if_splits)
  have r: "room s (length p) c m r"
    using realloc_room [OF assms(1)] wf_room [OF assms(1)] widen_room [OF assms(1) _ narrow] False by (auto simp: r_def not_le)
  have "string_buffer_write16 slack s p m = (case r of (False, s, m) \<Rightarrow> (False, s, m)
      | (True, s, m) \<Rightarrow> (if sb_wide s \<and> sb_error s \<noteq> None then sb_undefined s m
           else (True, s\<lparr>sb_str := store_units (sb_str s) p\<rparr>, m)))"
    using assms(2) unfolding string_buffer_write16_def Let_def c_def [symmetric] r_def [symmetric] sb_bad_def by simp
  then show ?thesis
    using puts_room_checked [OF r, of "\<lambda>q. store_units q p" "\<lambda>s. sb_wide s"] units_store_units [of _ p] by (simp add: c_def ucast_u16_small_iff)
qed

lemma write16_wrong:
  assumes "sb_wf s" and "sb_bad s (length p) True"
  shows "sb_goes_wrong (string_buffer_write16 slack s p m)"
  using assms wf_error_empty [OF assms(1)] by (auto simp: string_buffer_write16_def sb_bad_def)

text \<open>A range of a string.\<close>

definition concat_bad :: "string_buffer \<Rightarrow> js_string \<Rightarrow> nat \<Rightarrow> nat \<Rightarrow> bool" where
  "concat_bad s p start stop \<longleftrightarrow> start < stop \<and> (stop > str_len p \<or> sb_len s + (stop - start) > INT_MAX)"

lemma concat_puts:
  assumes "sb_wf s" and "\<not> concat_bad s p start stop"
  shows "puts s (take (stop - start) (drop start (units p))) m (string_buffer_concat slack s p start stop m)"
proof (cases "stop \<le> start")
  case True
  then show ?thesis using write_empty [OF assms(1)] by (simp add: string_buffer_concat_def)
next
  case False
  have m: "take n (drop k (map ucast bs)) = map ucast (take n (drop k bs))" for n k and bs :: "u8 list"
    by (simp add: take_map drop_map)
  have ok: "\<not> stop > str_len p" "\<not> sb_bad s (stop - start) w" for w using assms(2) False by (auto simp: concat_bad_def sb_bad_def)
  show ?thesis using False ok write8_puts [OF assms(1)] write16_puts [OF assms(1)]
    by (cases p) (simp_all add: string_buffer_concat_def m)
qed

lemma concat_wrong:
  assumes "sb_wf s" and "concat_bad s p start stop"
  shows "sb_goes_wrong (string_buffer_concat slack s p start stop m)"
proof (cases "stop > str_len p")
  case False
  then have b: "sb_bad s (stop - start) w" for w using assms(2) by (auto simp: concat_bad_def sb_bad_def)
  show ?thesis using False assms(2) b write8_wrong [OF assms(1)] write16_wrong [OF assms(1)]
    by (cases p) (simp_all add: string_buffer_concat_def concat_bad_def)
qed (use assms(2) in \<open>simp add: string_buffer_concat_def concat_bad_def\<close>)

lemma fill_loop_puts: "sb_wf s \<Longrightarrow> puts s (replicate count (ucast c)) m (fill_loop slack s c count m)"
proof (induction slack s c count m rule: fill_loop.induct)
  case (2 slack s c count m)
  have "puts s ([ucast c] @ replicate count (ucast c)) m (case string_buffer_putc16 slack s c m of
        (False, s, m) \<Rightarrow> (False, s, m) | (True, s, m) \<Rightarrow> fill_loop slack s c count m)"
    using putc16_puts [OF "2.prems"] by (rule puts_bind) (rule "2.IH", simp_all)
  then show ?case by simp
qed (simp add: write_empty)

lemma room_then:
  assumes "room s (length us) c m (True, s', m')" and "puts s' us m' r"
  shows "puts s us m r"
proof (cases r)
  case (fields ok2 s2 m2)
  note d = roomD [OF assms(1) TrueI]
  have "sb_reason s' (length us) m' e \<Longrightarrow> sb_reason s (length us) m e" for e
    using d(3,6) by (auto simp: sb_reason_def sb_step_def)
  then have "sb_step s (length us) m r"
    using assms(2) d(1,6) fields unfolding puts_def sb_step_def by (cases "sb_error s") simp_all
  then show ?thesis using assms(2) d(2) fields by (simp add: puts_def)
qed

lemma fill_puts:
  assumes "sb_wf s" and ok: "int (sb_len s) + count \<le> int INT_MAX"
  shows "puts s (replicate (nat count) (ucast c)) m (string_buffer_fill slack s c count m)"
proof (cases "int (sb_len s) + count > int (sb_size s)")
  case True
  have "sb_len s \<le> sb_size s" using assms(1) by (simp add: sb_wf_def split: if_splits)
  then have n: "nat (int (sb_len s) + count) = sb_len s + nat count" using True by linarith
  obtain ok s' m' where r: "string_buffer_realloc slack s (sb_len s + nat count) c m = (ok, s', m')" by (metis prod_cases3)
  have m: "room s (length (replicate (nat count) (ucast c :: u16))) c m (ok, s', m')"
    using realloc_room [OF assms(1), of "nat count" c m slack] r by simp
  have t: "puts s (replicate (nat count) (ucast c)) m r" if "ok" "puts s' (replicate (nat count) (ucast c)) m' r" for r
    using room_then [OF m [unfolded eqTrueI [OF that(1)]] that(2)] .
  show ?thesis
  proof (cases ok)
    case okay: True
    have "sb_wf s'" using roomD(6) [OF m okay] by (simp add: sb_step_def)
    then show ?thesis using t [OF okay fill_loop_puts] True r okay n assms(2) by (simp add: string_buffer_fill_def)
  qed (use m r True n assms(2) room_fail [of s "nat count" c m s' m'] in \<open>auto simp: string_buffer_fill_def puts_def\<close>)
qed (use fill_loop_puts [OF assms(1)] ok in \<open>simp add: string_buffer_fill_def\<close>)

text \<open>The start and the end.\<close>

definition js_string_owned :: "js_string \<Rightarrow> int" where
  "js_string_owned p = of_bool (units p \<noteq> [])"

lemma init_wf:
  assumes "string_buffer_init2 sz w m = (s, m')"
  shows "sz \<le> JS_STRING_LEN_MAX \<Longrightarrow> sb_wf s" "mem_live m' - sb_owned s = mem_live m" "mem_outcomes m = [] \<longrightarrow> mem_outcomes m' = []"
    "sb_error s = None \<or> sb_error s = Some OutOfMemory \<and> mem_outcomes m \<noteq> []" "units (sb_str s) = []" "sb_len s = 0"
  using assms by (cases m rule: js_malloc_cases; auto simp: string_buffer_init2_def sb_wf_def sb_owned_def sb_limit_def)+

lemma end_value:
  assumes "sb_wf s" and "string_buffer_end s m = (r, m')"
  shows "case r of Inl e \<Rightarrow> sb_error s = Some e \<and> mem_live m' - mem_live m = - sb_owned s
                 | Inr p \<Rightarrow> sb_error s = None \<and> units p = units (sb_str s) \<and> mem_live m' - mem_live m = js_string_owned p - sb_owned s"
proof -
  have "js_string_owned p = of_bool (str_len p \<noteq> 0)" for p by (simp add: js_string_owned_def flip: str_len_units)
  moreover have "mem_live (snd (js_realloc m)) = mem_live m" "mem_live (snd (js_free m)) = mem_live m - 1"
    by (cases m rule: js_realloc_cases) (simp_all add: js_free_def)
  moreover have "str_len (sb_str s) = 0 \<Longrightarrow> units (sb_str s) = []" by (simp flip: str_len_units)
  ultimately show ?thesis using assms by (auto simp: string_buffer_end_def sb_owned_def js_string_owned_def split: option.splits if_splits)
qed



end
