(* ===== verification/Uri.thy ===== *)
theory Uri
  imports String_Buffer
begin

text \<open>
  \<open>decodeURI\<close>, \<open>encodeURI\<close> (with their \<open>Component\<close> forms), \<open>escape\<close> and \<open>unescape\<close> of
  \<open>src/qjs/quickjs.c\<close>. A position \<open>k\<close> in the string is the list of the units from it on; \<open>str\<close> is the
  outcome of \<open>JS_ToString\<close> on the argument.
\<close>

section \<open>Hexadecimal digits and character classes\<close>

definition from_hex :: "u32 \<Rightarrow> u32 option" where
  "from_hex c =
     (if c \<ge> 48 \<and> c \<le> 57 then Some (c - 48)
      else if c \<ge> 65 \<and> c \<le> 70 then Some (c - 65 + 10)
      else if c \<ge> 97 \<and> c \<le> 102 then Some (c - 97 + 10)
      else None)"

text \<open>The callers make sure that \<open>n\<close> units are there.\<close>

fun hex_loop :: "nat \<Rightarrow> u32 \<Rightarrow> u16 list \<Rightarrow> u32 option" where
  "hex_loop 0 c us = Some c"
| "hex_loop (Suc n) c [] = None"
| "hex_loop (Suc n) c (u # us) =
     (case from_hex (ucast u) of None \<Rightarrow> None | Some h \<Rightarrow> hex_loop n (push_bit 4 c OR h) us)"

definition string_get_hex :: "u16 list \<Rightarrow> nat \<Rightarrow> u32 option" where
  "string_get_hex us n = hex_loop n 0 us"

definition chars :: "string \<Rightarrow> u32 list" where
  "chars s = map of_char s"

definition isURIReserved :: "u32 \<Rightarrow> bool" where
  "isURIReserved c \<longleftrightarrow> c < 0x100 \<and> c \<in> set (chars '';/?:@&=+$,#'')"

definition isUnescaped :: "u32 \<Rightarrow> bool" where
  "isUnescaped c \<longleftrightarrow> c < 0x100 \<and>
     c \<in> set (chars ''ABCDEFGHIJKLMNOPQRSTUVWXYZabcdefghijklmnopqrstuvwxyz0123456789@*_+-./'')"

definition isURIUnescaped :: "u32 \<Rightarrow> bool \<Rightarrow> bool" where
  "isURIUnescaped c isComponent \<longleftrightarrow> c < 0x100 \<and>
     (c \<ge> 0x61 \<and> c \<le> 0x7a \<or> c \<ge> 0x41 \<and> c \<le> 0x5a \<or> c \<ge> 0x30 \<and> c \<le> 0x39
      \<or> c \<in> set (map of_char [CHR ''-'', CHR ''_'', CHR ''.'', CHR ''!'', CHR ''~'', CHR ''*'', CHR 0x27, CHR ''('', CHR '')''])
      \<or> \<not> isComponent \<and> isURIReserved c)"

section \<open>Decoding\<close>

definition hex_decode :: "u16 list \<Rightarrow> js_error + u32" where
  "hex_decode us =
     (case us of
        [] \<Rightarrow> Inl (URIError ''expecting %'')
      | u # rest \<Rightarrow>
          (if u \<noteq> 37 then Inl (URIError ''expecting %'')
           else if length rest < 2 then Inl (URIError ''expecting hex digit'')
           else case string_get_hex rest 2 of
                  None \<Rightarrow> Inl (URIError ''expecting hex digit'')
                | Some c \<Rightarrow> Inr c))"

fun decode_cont :: "nat \<Rightarrow> u32 \<Rightarrow> u16 list \<Rightarrow> js_error + (u32 \<times> u16 list)" where
  "decode_cont 0 c us = Inr (c, us)"
| "decode_cont (Suc n) c us =
     (case hex_decode us of
        Inl e \<Rightarrow> Inl e
      | Inr c1 \<Rightarrow>
          (if c1 AND 0xc0 \<noteq> 0x80 then Inr (0, drop 3 us)
           else decode_cont n (push_bit 6 c OR (c1 AND 0x3f)) (drop 3 us)))"

text \<open>The number of continuation bytes, \<open>c_min\<close>, and the bits of the first byte.\<close>

definition lead_byte :: "u32 \<Rightarrow> nat \<times> u32 \<times> u32" where
  "lead_byte c =
     (if c \<ge> 0xc0 \<and> c \<le> 0xdf then (1, 0x80, c AND 0x1f)
      else if c \<ge> 0xe0 \<and> c \<le> 0xef then (2, 0x800, c AND 0xf)
      else if c \<ge> 0xf0 \<and> c \<le> 0xf7 then (3, 0x10000, c AND 0x7)
      else (0, 1, 0))"

text \<open>One round of the loop: the character to append and the position after it.\<close>

definition decode_char :: "bool \<Rightarrow> u16 list \<Rightarrow> js_error + (u32 \<times> u16 list)" where
  "decode_char isComponent us =
     (let c = ucast (hd us) :: u32
      in if c = 37
         then (case hex_decode us of
                 Inl e \<Rightarrow> Inl e
               | Inr c \<Rightarrow>
                   (if c < 0x80
                    then (if \<not> isComponent \<and> isURIReserved c then Inr (37, drop 1 us) else Inr (c, drop 3 us))
                    else case lead_byte c of
                           (n, c_min, c) \<Rightarrow>
                             (case decode_cont n c (drop 3 us) of
                                Inl e \<Rightarrow> Inl e
                              | Inr (c, us) \<Rightarrow>
                                  (if c < c_min \<or> c > 0x10FFFF \<or> is_surrogate c
                                   then Inl (URIError ''malformed UTF-8'') else Inr (c, us)))))
         else Inr (c, drop 1 us))"

lemma decode_cont_shorter: "decode_cont n c us = Inr (c', us') \<Longrightarrow> length us' \<le> length us"
  by (induction n c us rule: decode_cont.induct) (auto split: sum.splits if_splits)

lemma decode_char_shorter: "us \<noteq> [] \<Longrightarrow> decode_char isC us = Inr (c, us') \<Longrightarrow> length us' < length us"
  by (cases us) (fastforce simp: decode_char_def Let_def split: sum.splits if_splits prod.splits dest: decode_cont_shorter)+

function decode_loop :: "slack \<Rightarrow> bool \<Rightarrow> u16 list \<Rightarrow> string_buffer \<Rightarrow> mem \<Rightarrow> js_error option \<times> string_buffer \<times> mem" where
  "decode_loop slack isComponent us b m =
     (if us = [] then (None, b, m)
      else case decode_char isComponent us of
             Inl e \<Rightarrow> (Some e, b, m)
           | Inr (c, us') \<Rightarrow>
               (case string_buffer_putc slack b c m of (_, b', m') \<Rightarrow> decode_loop slack isComponent us' b' m'))"
  by auto
termination by (relation "measure (\<lambda>(slack, isC, us, b, m). length us)") (auto simp: decode_char_shorter)

declare decode_loop.simps [simp del]

text \<open>The end of the four functions: an error of the loop frees the buffer.\<close>

definition finish :: "js_error option \<times> string_buffer \<times> mem \<Rightarrow> (js_error + js_string) \<times> mem" where
  "finish r = (case r of
       (Some e, b, m) \<Rightarrow> (Inl e, string_buffer_free b m)
     | (None, b, m) \<Rightarrow> string_buffer_end b m)"

definition js_global_decodeURI :: "slack \<Rightarrow> js_error + js_string \<Rightarrow> bool \<Rightarrow> mem \<Rightarrow> (js_error + js_string) \<times> mem" where
  "js_global_decodeURI slack str isComponent m =
     (case str of
        Inl e \<Rightarrow> (Inl e, m)
      | Inr p \<Rightarrow> (case string_buffer_init 0 m of (b, m) \<Rightarrow> finish (decode_loop slack isComponent (units p) b m)))"

section \<open>Encoding\<close>

definition hex_digit :: "u32 \<Rightarrow> u8" where
  "hex_digit x = map of_char ''0123456789ABCDEF'' ! unat (x AND 15)"

definition hex_units :: "u32 \<Rightarrow> u8 list" where
  "hex_units c =
     37 # (if c \<ge> 256 then [117, hex_digit (drop_bit 12 c), hex_digit (drop_bit 8 c)] else [])
       @ [hex_digit (drop_bit 4 c), hex_digit c]"

definition encodeURI_hex :: "slack \<Rightarrow> string_buffer \<Rightarrow> u32 \<Rightarrow> mem \<Rightarrow> sb_result" where
  "encodeURI_hex slack b c m = string_buffer_write8 slack b (hex_units c) m"

text \<open>The bytes of a code point, in the order of the calls.\<close>

definition uri_bytes :: "u32 \<Rightarrow> u32 list" where
  "uri_bytes c =
     (if c < 0x80 then [c]
      else (if c < 0x800 then [drop_bit 6 c OR 0xc0]
            else (if c < 0x10000 then [drop_bit 12 c OR 0xe0]
                  else [drop_bit 18 c OR 0xf0, (drop_bit 12 c AND 0x3f) OR 0x80])
                 @ [(drop_bit 6 c AND 0x3f) OR 0x80])
           @ [(c AND 0x3f) OR 0x80])"

fun put_hexes :: "slack \<Rightarrow> string_buffer \<Rightarrow> u32 list \<Rightarrow> mem \<Rightarrow> string_buffer \<times> mem" where
  "put_hexes slack b [] m = (b, m)"
| "put_hexes slack b (c # cs) m = (case encodeURI_hex slack b c m of (_, b, m) \<Rightarrow> put_hexes slack b cs m)"

text \<open>The code point at a position, and the position after it.\<close>

definition uri_char :: "u16 \<Rightarrow> u16 list \<Rightarrow> js_error + (u32 \<times> u16 list)" where
  "uri_char u us =
     (let c = ucast u
      in if is_lo_surrogate c then Inl (URIError ''invalid character'')
         else if is_hi_surrogate c
         then (case us of
                 [] \<Rightarrow> Inl (URIError ''expecting surrogate pair'')
               | u1 # us' \<Rightarrow>
                   (if \<not> is_lo_surrogate (ucast u1) then Inl (URIError ''expecting surrogate pair'')
                    else Inr (from_surrogate c (ucast u1), us')))
         else Inr (c, us))"

lemma uri_char_shorter: "uri_char u us = Inr (c, us') \<Longrightarrow> length us' \<le> length us"
  by (auto simp: uri_char_def Let_def split: if_splits list.splits)

function encode_loop :: "slack \<Rightarrow> bool \<Rightarrow> u16 list \<Rightarrow> string_buffer \<Rightarrow> mem \<Rightarrow> js_error option \<times> string_buffer \<times> mem" where
  "encode_loop slack isComponent [] b m = (None, b, m)"
| "encode_loop slack isComponent (u # us) b m =
     (if isURIUnescaped (ucast u) isComponent
      then (case string_buffer_putc16 slack b (ucast u) m of (_, b', m') \<Rightarrow> encode_loop slack isComponent us b' m')
      else case uri_char u us of
             Inl e \<Rightarrow> (Some e, b, m)
           | Inr (c, us') \<Rightarrow>
               (case put_hexes slack b (uri_bytes c) m of (b', m') \<Rightarrow> encode_loop slack isComponent us' b' m'))"
  by pat_completeness auto
termination by (relation "measure (\<lambda>(slack, isC, us, b, m). length us)") (auto dest: uri_char_shorter)

definition js_global_encodeURI :: "slack \<Rightarrow> js_error + js_string \<Rightarrow> bool \<Rightarrow> mem \<Rightarrow> (js_error + js_string) \<times> mem" where
  "js_global_encodeURI slack str isComponent m =
     (case str of
        Inl e \<Rightarrow> (Inl e, m)
      | Inr p \<Rightarrow> (case string_buffer_init (str_len p) m of (b, m) \<Rightarrow> finish (encode_loop slack isComponent (units p) b m)))"

section \<open>\<open>escape\<close> and \<open>unescape\<close>\<close>

fun escape_loop :: "slack \<Rightarrow> u16 list \<Rightarrow> string_buffer \<Rightarrow> mem \<Rightarrow> string_buffer \<times> mem" where
  "escape_loop slack [] b m = (b, m)"
| "escape_loop slack (u # us) b m =
     (let c = ucast u
      in case (if isUnescaped c then string_buffer_putc16 slack b c m else encodeURI_hex slack b c m) of
           (_, b, m) \<Rightarrow> escape_loop slack us b m)"

definition js_global_escape :: "slack \<Rightarrow> js_error + js_string \<Rightarrow> mem \<Rightarrow> (js_error + js_string) \<times> mem" where
  "js_global_escape slack str m =
     (case str of
        Inl e \<Rightarrow> (Inl e, m)
      | Inr p \<Rightarrow>
          (case string_buffer_init (str_len p) m of (b, m) \<Rightarrow>
             (case escape_loop slack (units p) b m of (b, m) \<Rightarrow> string_buffer_end b m)))"

definition unescape_char :: "u16 \<Rightarrow> u16 list \<Rightarrow> u32 \<times> u16 list" where
  "unescape_char u us =
     (let c = ucast u :: u32; uni = (if length us \<ge> 5 \<and> us ! 0 = 117 then string_get_hex (drop 1 us) 4 else None);
          byte = (if length us \<ge> 2 then string_get_hex us 2 else None)
      in if c = 37
         then (case uni of
                 Some n \<Rightarrow> (n, drop 5 us)
               | None \<Rightarrow> (case byte of Some n \<Rightarrow> (n, drop 2 us) | None \<Rightarrow> (c, us)))
         else (c, us))"

lemma unescape_char_shorter: "unescape_char u us = (c, us') \<Longrightarrow> length us' \<le> length us"
  by (auto simp: unescape_char_def Let_def split: if_splits option.splits)

function unescape_loop :: "slack \<Rightarrow> u16 list \<Rightarrow> string_buffer \<Rightarrow> mem \<Rightarrow> string_buffer \<times> mem" where
  "unescape_loop slack [] b m = (b, m)"
| "unescape_loop slack (u # us) b m =
     (case unescape_char u us of
        (c, us') \<Rightarrow> (case string_buffer_putc16 slack b c m of (_, b', m') \<Rightarrow> unescape_loop slack us' b' m'))"
  by pat_completeness auto
termination by (relation "measure (\<lambda>(slack, us, b, m). length us)") (auto dest!: unescape_char_shorter [OF sym])

definition js_global_unescape :: "slack \<Rightarrow> js_error + js_string \<Rightarrow> mem \<Rightarrow> (js_error + js_string) \<times> mem" where
  "js_global_unescape slack str m =
     (case str of
        Inl e \<Rightarrow> (Inl e, m)
      | Inr p \<Rightarrow>
          (case string_buffer_init 0 m of (b, m) \<Rightarrow>
             (case unescape_loop slack (units p) b m of (b, m) \<Rightarrow> string_buffer_end b m)))"

section \<open>The contract of a conversion\<close>

text \<open>
  \<open>delivers (e, out) m r\<close>: the conversion throws \<open>e\<close> when there is one; otherwise it returns \<open>out\<close>, or
  fails because an allocation failed or the result is too long. Nothing is leaked.
\<close>

definition delivers :: "js_error option \<times> u16 list \<Rightarrow> mem \<Rightarrow> (js_error + js_string) \<times> mem \<Rightarrow> bool" where
  "delivers x m r \<longleftrightarrow> (case (x, r) of ((eo, out), (res, m')) \<Rightarrow>
     (case res of
        Inl e \<Rightarrow> mem_live m' = mem_live m \<and>
          (case eo of Some e' \<Rightarrow> e = e'
           | None \<Rightarrow> e = OutOfMemory \<and> mem_outcomes m \<noteq> []
               \<or> e = RangeError ''invalid string length'' \<and> length out > JS_STRING_LEN_MAX)
      | Inr p \<Rightarrow> eo = None \<and> units p = out \<and> mem_live m' = mem_live m + js_string_owned p))"

definition prepend :: "'b list \<Rightarrow> 'a \<times> 'b list \<Rightarrow> 'a \<times> 'b list" where
  "prepend us x = (fst x, us @ snd x)"

lemma prepend_simps [simp]: "fst (prepend us x) = fst x" "snd (prepend us x) = us @ snd x"
  by (simp_all add: prepend_def)

text \<open>A loop that ignores the outcome of the writes.\<close>

lemma puts_any: "puts s us m (ok, s', m') \<Longrightarrow> puts s us m (True, s', m')"
  by (simp add: puts_def sb_step_def)

lemma init_finish:
  assumes i: "string_buffer_init n m = (b, m1)"
    and p: "puts b (snd x) m1 (True, b', m')"
  shows "delivers x m (finish (fst x, b', m'))"
proof -
  note i = init_wf [OF i [unfolded string_buffer_init_def]]
  have live: "mem_live m' - sb_owned b' = mem_live m" using p i(2) by (simp add: puts_def sb_step_def)
  have o: "sb_error b' = Some e \<Longrightarrow> mem_outcomes m \<noteq> [] \<and> e = OutOfMemory \<or> e = RangeError ''invalid string length'' \<and> length (snd x) > JS_STRING_LEN_MAX" for e
    using p i(3,4,6) by (auto simp: puts_def sb_step_def sb_reason_def)
  have u: "sb_error b' = None \<Longrightarrow> units (sb_str b') = snd x" using p i(5) by (simp add: puts_def)
  show ?thesis
  proof (cases x)
    case (Pair eo out)
    show ?thesis
    proof (cases eo)
      case (Some e)
      then show ?thesis using live Pair
        by (cases "sb_error b'") (simp_all add: delivers_def finish_def string_buffer_free_def js_free_def sb_owned_def)
    next
      case None
      obtain r m2 where e: "string_buffer_end b' m' = (r, m2)" by (cases "string_buffer_end b' m'")
      show ?thesis using end_value [OF puts_wf [OF p] e] live o u Pair None e
        by (cases r) (auto simp: delivers_def finish_def)
    qed
  qed
qed

lemma encodeURI_hex_puts: "sb_wf b \<Longrightarrow> puts b (map ucast (hex_units c)) m (encodeURI_hex slack b c m)"
  unfolding encodeURI_hex_def using sb_wf_len [of b] by (intro write8_puts) (auto simp: sb_bad_def hex_units_def)

section \<open>The functions as text\<close>

function decoded :: "bool \<Rightarrow> u16 list \<Rightarrow> js_error option \<times> u16 list" where
  "decoded isC us =
     (if us = [] then (None, [])
      else case decode_char isC us of
             Inl e \<Rightarrow> (Some e, [])
           | Inr (c, us') \<Rightarrow> prepend (units_of c) (decoded isC us'))"
  by auto
termination by (relation "measure (\<lambda>(isC, us). length us)") (auto simp: decode_char_shorter)

declare decoded.simps [simp del]

text \<open>The escape of a byte, and the encoding of a string: the bytes are those of \<open>utf8_encode\<close>.\<close>

definition percent :: "u32 \<Rightarrow> u16 list" where
  "percent c = map ucast (hex_units c)"

function encoded :: "bool \<Rightarrow> u16 list \<Rightarrow> js_error option \<times> u16 list" where
  "encoded isC [] = (None, [])"
| "encoded isC (u # us) =
     (if isURIUnescaped (ucast u) isC then prepend [u] (encoded isC us)
      else case uri_char u us of
             Inl e \<Rightarrow> (Some e, [])
           | Inr (c, us') \<Rightarrow> prepend (concat (map (\<lambda>b. percent (ucast b)) (utf8_encode c))) (encoded isC us'))"
  by pat_completeness auto
termination by (relation "measure (\<lambda>(isC, us). length us)") (auto dest: uri_char_shorter)

fun escaped :: "u16 list \<Rightarrow> u16 list" where
  "escaped [] = []"
| "escaped (u # us) = (if isUnescaped (ucast u) then [u] else percent (ucast u)) @ escaped us"

function unescaped :: "u16 list \<Rightarrow> u16 list" where
  "unescaped [] = []"
| "unescaped (u # us) = (case unescape_char u us of (c, us') \<Rightarrow> ucast c # unescaped us')"
  by pat_completeness auto
termination by (relation "measure length") (auto dest!: unescape_char_shorter [OF sym])

fun well_formed :: "u16 list \<Rightarrow> bool" where
  "well_formed [] = True"
| "well_formed (u # us) =
     (if is_hi_surrogate (ucast u)
      then (case us of [] \<Rightarrow> False | v # us' \<Rightarrow> is_lo_surrogate (ucast v) \<and> well_formed us')
      else \<not> is_lo_surrogate (ucast u) \<and> well_formed us)"

lemma decode_loop_puts:
  "sb_wf b \<Longrightarrow> decode_loop slack isC us b m = (eo, b', m') \<Longrightarrow>
   eo = fst (decoded isC us) \<and> puts b (snd (decoded isC us)) m (True, b', m')"
proof (induction slack isC us b m arbitrary: eo b' m' rule: decode_loop.induct)
  case (1 slack isC us b m)
  show ?case
  proof (cases "us = []")
    case True
    then show ?thesis using "1.prems" write_empty [of b m] by (simp add: decode_loop.simps [of slack isC "[]"] decoded.simps [of isC "[]"])
  next
    case False
    show ?thesis
    proof (cases "decode_char isC us")
      case (Inl e)
      then show ?thesis using "1.prems" False write_empty [of b m] by (simp add: decode_loop.simps [of slack isC us] decoded.simps [of isC us])
    next
      case (Inr q)
      obtain c us' where q: "q = (c, us')" by (cases q)
      obtain ok b1 m1 where w: "string_buffer_putc slack b c m = (ok, b1, m1)" by (metis prod_cases3)
      have p: "puts b (units_of c) m (ok, b1, m1)" using putc_puts [OF "1.prems"(1)] w by metis
      have "decode_loop slack isC us' b1 m1 = (eo, b', m')"
        using "1.prems"(2) False Inr q w by (simp add: decode_loop.simps [of slack isC us])
      then have "eo = fst (decoded isC us') \<and> puts b1 (snd (decoded isC us')) m1 (True, b', m')"
        using "1.IH" [OF False Inr q [symmetric] w [symmetric] refl puts_wf [OF p]] w q by blast
      then show ?thesis using puts_trans [OF p] False Inr q by (simp add: decoded.simps [of isC us])
    qed
  qed
qed

lemma put_hexes_puts:
  "sb_wf b \<Longrightarrow> put_hexes slack b cs m = (b', m') \<Longrightarrow> puts b (concat (map percent cs)) m (True, b', m')"
proof (induction slack b cs m arbitrary: b' m' rule: put_hexes.induct)
  case (2 slack b c cs m)
  obtain ok b1 m1 where w: "encodeURI_hex slack b c m = (ok, b1, m1)" by (metis prod_cases3)
  have p: "puts b (percent c) m (ok, b1, m1)" using encodeURI_hex_puts [OF "2.prems"(1), of c m slack] w by (simp add: percent_def)
  have "put_hexes slack b1 cs m1 = (b', m')" using "2.prems"(2) w by simp
  then have "puts b1 (concat (map percent cs)) m1 (True, b', m')"
    using "2.IH" [OF w [symmetric] refl puts_wf [OF p]] by blast
  then show ?case using puts_trans [OF p] by simp
qed (simp add: write_empty)

section \<open>Escapes\<close>

lemma ucast_u8_u16_u32: "(ucast (ucast (x :: u8) :: u16) :: u32) = ucast x"
proof -
  have "unat (ucast x :: u16) = unat x"
    unfolding ucast_eq_of_nat [OF refl, of x] by (subst unat_of_nat) (use unat_lt_u8 [of x] in simp)
  from ucast_eq_of_nat [OF this] show ?thesis unfolding ucast_eq_of_nat [OF refl, of x] .
qed

lemma hex_digit_value: "from_hex (ucast (ucast (hex_digit x) :: u16)) = Some (x AND 15)"
  and hex_digit_not_u: "(ucast (hex_digit x) :: u16) \<noteq> 117"
proof -
  define k where "k = unat (x AND 15)"
  have "unat (x AND 15) = unat x mod 16" using unat_and_mask [of x 4] by (simp add: mask_numeral)
  then have k: "k < 16" by (simp add: k_def)
  have "list_all (\<lambda>k. from_hex (ucast (map of_char ''0123456789ABCDEF'' ! k :: u8)) = Some (of_nat k)) [0..<16]"
    by (simp add: upt_rec from_hex_def)
  then have "from_hex (ucast (map of_char ''0123456789ABCDEF'' ! k :: u8)) = Some (of_nat k)"
    using k by (auto simp: list_all_iff)
  then show "from_hex (ucast (ucast (hex_digit x) :: u16)) = Some (x AND 15)"
    by (simp add: ucast_u8_u16_u32 hex_digit_def k_def)
  have "list_all (\<lambda>k. (ucast (map of_char ''0123456789ABCDEF'' ! k :: u8) :: u16) \<noteq> 117) [0..<16]"
    by (simp add: upt_rec)
  then have "(ucast (map of_char ''0123456789ABCDEF'' ! k :: u8) :: u16) \<noteq> 117" using k unfolding list_all_iff by auto
  then show "(ucast (hex_digit x) :: u16) \<noteq> 117" by (simp add: hex_digit_def k_def)
qed

lemma nibble:
  fixes c :: u32
  shows "unat (drop_bit k c AND 15) = unat c div 2 ^ k mod 16"
  using unat_and_mask [of "drop_bit k c" 4] by (simp add: mask_numeral unat_drop_bit)

lemma hex_append:
  assumes "unat acc = a" and "unat (h :: u32) = b" and "a < 2 ^ 28" and "b < 16"
  shows "unat (push_bit 4 acc OR h) = a * 16 + b"
  using unat_push_bit_or [of 4 h acc] assms by simp

lemma hex_loop_2:
  assumes "unat c < 256"
  shows "string_get_hex (ucast (hex_digit (drop_bit 4 c)) # ucast (hex_digit c) # rest) 2 = Some c"
proof -
  let ?h = "drop_bit 4 c AND 15" and ?l = "c AND 15"
  have h: "unat ?h = unat c div 16" "unat ?l = unat c mod 16" using nibble [of 4 c] nibble [of 0 c] assms by simp_all
  have "unat (push_bit 4 ?h OR ?l) = unat c div 16 * 16 + unat c mod 16"
    using assms by (intro hex_append h) auto
  then have "push_bit 4 ?h OR ?l = c" by (intro word_unat_eq_iff [THEN iffD2]) simp
  then show ?thesis by (simp add: string_get_hex_def numeral_2_eq_2 hex_digit_value)
qed

lemma hex_loop_4:
  assumes "unat c < 65536"
  shows "string_get_hex (ucast (hex_digit (drop_bit 12 c)) # ucast (hex_digit (drop_bit 8 c)) #
    ucast (hex_digit (drop_bit 4 c)) # ucast (hex_digit c) # rest) 4 = Some c"
proof -
  let ?a = "drop_bit 12 c AND 15" and ?b = "drop_bit 8 c AND 15" and ?c = "drop_bit 4 c AND 15" and ?d = "c AND 15"
  define n where "n = unat c"
  have h: "unat ?a = n div 4096" "unat ?b = n div 256 mod 16" "unat ?c = n div 16 mod 16" "unat ?d = n mod 16"
    using nibble [of 12 c] nibble [of 8 c] nibble [of 4 c] nibble [of 0 c] assms by (simp_all add: n_def)
  have d: "n div 4096 = n div 256 div 16" "n div 256 = n div 16 div 16" by (simp_all flip: div_mult2_eq)
  have m: "n div 4096 * 16 + n div 256 mod 16 = n div 256" "n div 256 * 16 + n div 16 mod 16 = n div 16" "n div 16 * 16 + n mod 16 = n"
    using div_mult_mod_eq [of "n div 256" 16] div_mult_mod_eq [of "n div 16" 16] unfolding d by simp_all
  have b: "n < 65536" using assms by (simp add: n_def)
  have 1: "unat (push_bit 4 ?a OR ?b) = n div 256" using hex_append [OF h(1,2)] b m(1) by simp
  have 2: "unat (push_bit 4 (push_bit 4 ?a OR ?b) OR ?c) = n div 16" using hex_append [OF 1 h(3)] b m(2) by simp
  have "unat (push_bit 4 (push_bit 4 (push_bit 4 ?a OR ?b) OR ?c) OR ?d) = n"
    using hex_append [OF 2 h(4)] b m(3) by simp
  then have "push_bit 4 (push_bit 4 (push_bit 4 ?a OR ?b) OR ?c) OR ?d = c"
    unfolding n_def by (intro word_unat_eq_iff [THEN iffD2])
  moreover have "(4 :: nat) = Suc (Suc (Suc (Suc 0)))" by simp
  ultimately show ?thesis by (simp only: string_get_hex_def hex_loop.simps hex_digit_value option.case push_bit_of_0 or.left_neutral)
qed

lemma percent_small: "unat c < 256 \<Longrightarrow> percent c = [37, ucast (hex_digit (drop_bit 4 c)), ucast (hex_digit c)]"
  by (simp add: percent_def hex_units_def word_le_nat_alt)

lemma hex_decode_percent: "unat c < 256 \<Longrightarrow> hex_decode (percent c @ rest) = Inr c \<and> drop 3 (percent c @ rest) = rest"
  by (simp add: percent_small hex_decode_def hex_loop_2 numeral_3_eq_3)

section \<open>The bytes of a code point\<close>

lemma unat_eqD: "unat x = n \<Longrightarrow> x = of_nat n"
  by auto

lemma or_eq_of_nat:
  assumes "unat (h :: u32) mod 2 ^ k = 0" and "unat x = n" and "n < 2 ^ k" and "unat h = m"
  shows "x OR h = of_nat (n + m)"
proof -
  have "unat (x OR h) = n + m" using unat_or_high [of x k h] assms by simp
  then show ?thesis by (rule unat_eqD)
qed

lemma uri_bytes_nat:
  fixes c :: u32
  defines "n \<equiv> unat c"
  shows "n < 128 \<Longrightarrow> uri_bytes c = [of_nat n]"
    and "128 \<le> n \<Longrightarrow> n < 2048 \<Longrightarrow> uri_bytes c = [of_nat (n div 64 + 192), of_nat (n mod 64 + 128)]"
    and "2048 \<le> n \<Longrightarrow> n < 65536 \<Longrightarrow>
      uri_bytes c = [of_nat (n div 4096 + 224), of_nat (n div 64 mod 64 + 128), of_nat (n mod 64 + 128)]"
    and "65536 \<le> n \<Longrightarrow> n < 1114112 \<Longrightarrow>
      uri_bytes c = [of_nat (n div 262144 + 240), of_nat (n div 4096 mod 64 + 128),
        of_nat (n div 64 mod 64 + 128), of_nat (n mod 64 + 128)]"
proof -
  have cmp: "c < 0x80 \<longleftrightarrow> n < 128" "c < 0x800 \<longleftrightarrow> n < 2048" "c < 0x10000 \<longleftrightarrow> n < 65536"
    by (simp_all add: word_less_nat_alt n_def)
  have m: "unat (x AND 0x3F) = unat x mod 64" for x :: u32
    using unat_and_mask [of x 6] by (simp add: mask_numeral)
  have low: "(x AND 0x3F) OR 0x80 = of_nat (k mod 64 + 128)" if "unat x = k" for x :: u32 and k
    by (rule or_eq_of_nat [where k = 6]) (simp_all add: m that)
  have d: "unat (drop_bit k c) = n div 2 ^ k" for k by (simp only: unat_drop_bit n_def)
  note d6 = d [of 6, simplified] and d12 = d [of 12, simplified] and d18 = d [of 18, simplified]
  have c: "unat c = n" by (simp add: n_def)
  show "n < 128 \<Longrightarrow> uri_bytes c = [of_nat n]"
    unfolding uri_bytes_def cmp by (simp add: n_def)
  show "uri_bytes c = [of_nat (n div 64 + 192), of_nat (n mod 64 + 128)]" if "128 \<le> n" "n < 2048"
  proof -
    have "drop_bit 6 c OR 0xC0 = of_nat (n div 64 + 192)"
      by (rule or_eq_of_nat [where k = 6]) (use that in \<open>simp_all add: d6\<close>)
    then show ?thesis using that unfolding uri_bytes_def cmp by (simp only: low [OF c]) simp
  qed
  show "uri_bytes c = [of_nat (n div 4096 + 224), of_nat (n div 64 mod 64 + 128), of_nat (n mod 64 + 128)]"
    if "2048 \<le> n" "n < 65536"
  proof -
    have "drop_bit 12 c OR 0xE0 = of_nat (n div 4096 + 224)"
      by (rule or_eq_of_nat [where k = 5]) (use that in \<open>simp_all add: d12\<close>)
    then show ?thesis using that unfolding uri_bytes_def cmp by (simp only: low [OF c] low [OF d6]) simp
  qed
  show "uri_bytes c = [of_nat (n div 262144 + 240), of_nat (n div 4096 mod 64 + 128),
        of_nat (n div 64 mod 64 + 128), of_nat (n mod 64 + 128)]"
    if "65536 \<le> n" "n < 1114112"
  proof -
    have "drop_bit 18 c OR 0xF0 = of_nat (n div 262144 + 240)"
      by (rule or_eq_of_nat [where k = 4]) (use that in \<open>simp_all add: d18\<close>)
    then show ?thesis using that unfolding uri_bytes_def cmp by (simp only: low [OF c] low [OF d6] low [OF d12]) simp
  qed
qed

lemma ucast_byte_of_nat: "m < 256 \<Longrightarrow> (ucast (of_nat m :: u8) :: u32) = of_nat m"
  by (rule ucast_eq_of_nat [OF byte_nat])

lemma uri_bytes_utf8:
  assumes "unat c < 1114112"
  shows "uri_bytes c = map ucast (utf8_encode c)"
proof -
  define n where "n = unat c"
  consider "n < 128" | "128 \<le> n" "n < 2048" | "2048 \<le> n" "n < 65536" | "65536 \<le> n" "n < 1114112"
    using assms unfolding n_def by linarith
  then show ?thesis
  proof cases
    case 1
    then show ?thesis using uri_bytes_nat(1) [of c] utf8_encode_bytes(1) [of c] ucast_byte_of_nat [of n] by (simp add: n_def)
  next
    case 2
    then show ?thesis using uri_bytes_nat(2) [of c] utf8_encode_bytes(2) [of c]
        ucast_byte_of_nat [of "n div 64 + 192"] ucast_byte_of_nat [of "n mod 64 + 128"]
      by (simp add: n_def del: of_nat_add)
  next
    case 3
    then show ?thesis using uri_bytes_nat(3) [of c] utf8_encode_bytes(3) [of c]
        ucast_byte_of_nat [of "n div 4096 + 224"] ucast_byte_of_nat [of "n div 64 mod 64 + 128"] ucast_byte_of_nat [of "n mod 64 + 128"]
      by (simp add: n_def del: of_nat_add)
  next
    case 4
    then show ?thesis using uri_bytes_nat(4) [of c] utf8_encode_bytes(4) [of c]
        ucast_byte_of_nat [of "n div 262144 + 240"] ucast_byte_of_nat [of "n div 4096 mod 64 + 128"]
        ucast_byte_of_nat [of "n div 64 mod 64 + 128"] ucast_byte_of_nat [of "n mod 64 + 128"]
      by (simp add: n_def del: of_nat_add)
  qed
qed

section \<open>Decoding what was encoded\<close>

lemma lead_byte_nat:
  "2 \<le> a \<Longrightarrow> a < 32 \<Longrightarrow> lead_byte (of_nat (a + 192)) = (1, 0x80, of_nat a)"
  "a < 16 \<Longrightarrow> lead_byte (of_nat (a + 224)) = (2, 0x800, of_nat a)"
  "a < 8 \<Longrightarrow> lead_byte (of_nat (a + 240)) = (3, 0x10000, of_nat a)"
proof -
  have "list_all (\<lambda>a. lead_byte (of_nat (a + 192)) = (1, 0x80, of_nat a)) [0..<32]"
    "list_all (\<lambda>a. lead_byte (of_nat (a + 224)) = (2, 0x800, of_nat a)) [0..<16]"
    "list_all (\<lambda>a. lead_byte (of_nat (a + 240)) = (3, 0x10000, of_nat a)) [0..<8]"
    by (simp_all add: upt_rec lead_byte_def)
  then show "2 \<le> a \<Longrightarrow> a < 32 \<Longrightarrow> lead_byte (of_nat (a + 192)) = (1, 0x80, of_nat a)"
    "a < 16 \<Longrightarrow> lead_byte (of_nat (a + 224)) = (2, 0x800, of_nat a)"
    "a < 8 \<Longrightarrow> lead_byte (of_nat (a + 240)) = (3, 0x10000, of_nat a)"
    by (simp_all add: list_all_iff del: of_nat_add)
qed

lemma cont_byte_nat:
  assumes "b < 64"
  shows "(of_nat (b + 128) :: u32) AND 0xc0 = 0x80" "(of_nat (b + 128) :: u32) AND 0x3f = of_nat b"
    "unat (of_nat (b + 128) :: u32) < 256"
proof -
  have "list_all (\<lambda>b. (of_nat (b + 128) :: u32) AND 0xc0 = 0x80 \<and> (of_nat (b + 128) :: u32) AND 0x3f = of_nat b) [0..<64]"
    by (simp add: upt_rec)
  then show "(of_nat (b + 128) :: u32) AND 0xc0 = 0x80" "(of_nat (b + 128) :: u32) AND 0x3f = of_nat b"
    using assms by (simp_all add: list_all_iff del: of_nat_add)
  show "unat (of_nat (b + 128) :: u32) < 256" by (subst unat_of_nat) (use assms in simp)
qed

lemma decode_cont_step:
  assumes "b < 64" and "c < 2 ^ 20"
  shows "decode_cont (Suc n) (of_nat c) (percent (of_nat (b + 128)) @ rest) = decode_cont n (of_nat (c * 64 + b)) rest"
proof -
  note h = hex_decode_percent [OF cont_byte_nat(3) [OF assms(1)], of rest]
  have u: "unat (of_nat c :: u32) = c" "unat (of_nat b :: u32) = b"
    by (subst unat_of_nat, use assms in simp)+
  have "unat (push_bit 6 (of_nat c) OR of_nat b :: u32) = c * 64 + b"
    using unat_push_bit_or [of 6 "of_nat b :: u32" "of_nat c"] assms unfolding u by simp
  then have "push_bit 6 (of_nat c) OR of_nat b = (of_nat (c * 64 + b) :: u32)" by (rule unat_eqD)
  then show ?thesis
    unfolding decode_cont.simps conjunct1 [OF h] conjunct2 [OF h] sum.case cont_byte_nat(1,2) [OF assms(1)] by simp
qed

lemma is_surrogate_nat: "is_surrogate c \<longleftrightarrow> 0xD800 \<le> unat c \<and> unat c < 0xE000"
proof -
  have "is_surrogate c \<longleftrightarrow> unat (drop_bit 11 c) = 27" by (simp add: is_surrogate_def word_unat_eq_iff)
  also have "\<dots> \<longleftrightarrow> unat c div 2048 = 27" using unat_drop_bit [of 11 c] by simp
  also have "\<dots> \<longleftrightarrow> 0xD800 \<le> unat c \<and> unat c < 0xE000" by (auto simp: div_nat_eqI)
  finally show ?thesis .
qed

lemma decode_char_percent:
  assumes "unat b < 256"
  shows "decode_char isC (percent b @ rest) =
    (if b < 0x80 then (if \<not> isC \<and> isURIReserved b then Inr (37, drop 1 (percent b @ rest)) else Inr (b, rest))
     else case lead_byte b of (n, c_min, c) \<Rightarrow>
       (case decode_cont n c rest of
          Inl e \<Rightarrow> Inl e
        | Inr (c, us) \<Rightarrow> (if c < c_min \<or> c > 0x10FFFF \<or> is_surrogate c then Inl (URIError ''malformed UTF-8'') else Inr (c, us))))"
proof -
  note h = hex_decode_percent [OF assms, of rest]
  have "ucast (hd (percent b @ rest)) = (37 :: u32)" by (simp add: percent_small [OF assms])
  then show ?thesis unfolding decode_char_def Let_def conjunct1 [OF h] conjunct2 [OF h] sum.case by (simp only: if_True refl)
qed

lemma decode_char_lead:
  assumes "lead_byte b = (n, c_min, c0)" and "decode_cont n c0 us = Inr (c, rest)"
    and "unat b < 256" and "\<not> b < 0x80" and "c_min \<le> c" and "c \<le> 0x10FFFF" and "\<not> is_surrogate c"
  shows "decode_char isC (percent b @ us) = Inr (c, rest)"
  unfolding decode_char_percent [OF assms(3)] if_not_P [OF assms(4)] assms(1) prod.case assms(2) sum.case
  using assms(5-7) by (simp add: leD)

lemma decode_char_encoded:
  assumes "unat c < 1114112" and "\<not> is_surrogate c" and "unat c < 128 \<Longrightarrow> isC \<or> \<not> isURIReserved c"
  shows "decode_char isC (concat (map percent (uri_bytes c)) @ rest) = Inr (c, rest)"
proof -
  define n where "n = unat c"
  have c: "c = of_nat n" by (simp add: n_def)
  have le: "c \<le> 0x10FFFF" using assms(1) by (simp add: word_le_nat_alt)
  have div: "n div 4096 = n div 64 div 64" "n div 262144 = n div 4096 div 64" by (simp_all flip: div_mult2_eq)
  have sm: "n div 64 * 64 + n mod 64 = n" "n div 4096 * 64 + n div 64 mod 64 = n div 64" "n div 262144 * 64 + n div 4096 mod 64 = n div 4096"
    using div_mult_mod_eq [of n 64] div_mult_mod_eq [of "n div 64" 64] div_mult_mod_eq [of "n div 4096" 64] unfolding div by simp_all
  have u: "unat (of_nat k :: u32) = k" if "k < 256" for k by (subst unat_of_nat) (use that in simp)
  have big: "\<not> (of_nat k :: u32) < 0x80" if "128 \<le> k" "k < 256" for k
    using that u [of k] by (simp add: word_less_nat_alt)
  consider "n < 128" | "128 \<le> n" "n < 2048" | "2048 \<le> n" "n < 65536" | "65536 \<le> n" "n < 1114112"
    using assms(1) unfolding n_def by linarith
  then show ?thesis
  proof cases
    case 1
    have "c < 0x80" using 1 by (simp add: word_less_nat_alt n_def)
    moreover have "uri_bytes c = [c]" using \<open>c < 0x80\<close> by (simp add: uri_bytes_def)
    moreover have "unat c < 256" using 1 by (simp add: n_def)
    ultimately show ?thesis using decode_char_percent [of c isC rest] assms(3) 1 by (auto simp: n_def)
  next
    case 2
    have m: "c \<ge> 0x80" using 2 by (simp add: word_le_nat_alt n_def)
    have "n div 64 < 32" "2 \<le> n div 64" using 2 by auto
    then have "lead_byte (of_nat (n div 64 + 192)) = (Suc 0, 0x80, of_nat (n div 64))" using lead_byte_nat(1) by simp
    moreover have "decode_cont (Suc 0) (of_nat (n div 64)) (percent (of_nat (n mod 64 + 128)) @ rest) = Inr (c, rest)"
      using 2 by (subst decode_cont_step) (simp_all only: sm decode_cont.simps c, auto)
    moreover have "unat (of_nat (n div 64 + 192) :: u32) < 256" "\<not> (of_nat (n div 64 + 192) :: u32) < 0x80"
      using u [of "n div 64 + 192"] big [of "n div 64 + 192"] 2 by simp_all
    moreover note m le assms(2)
    ultimately have "decode_char isC (percent (of_nat (n div 64 + 192)) @ percent (of_nat (n mod 64 + 128)) @ rest) = Inr (c, rest)"
      by (rule decode_char_lead)
    then show ?thesis using uri_bytes_nat(2) [of c] 2 by (simp only: n_def [symmetric] list.map concat.simps append_assoc append_Nil)
  next
    case 3
    have m: "c \<ge> 0x800" using 3 by (simp add: word_le_nat_alt n_def)
    have b: "n div 4096 < 16" using 3 by auto
    then have "lead_byte (of_nat (n div 4096 + 224)) = (Suc (Suc 0), 0x800, of_nat (n div 4096))" using lead_byte_nat(2) by simp
    moreover have "decode_cont (Suc (Suc 0)) (of_nat (n div 4096)) (percent (of_nat (n div 64 mod 64 + 128)) @ percent (of_nat (n mod 64 + 128)) @ rest) = Inr (c, rest)"
      using 3 b by (subst decode_cont_step, simp, simp, subst sm(2), subst decode_cont_step) (simp_all only: sm decode_cont.simps c, auto)
    moreover have "unat (of_nat (n div 4096 + 224) :: u32) < 256" "\<not> (of_nat (n div 4096 + 224) :: u32) < 0x80"
      using u [of "n div 4096 + 224"] big [of "n div 4096 + 224"] b by simp_all
    moreover note m le assms(2)
    ultimately have "decode_char isC (percent (of_nat (n div 4096 + 224)) @ percent (of_nat (n div 64 mod 64 + 128)) @ percent (of_nat (n mod 64 + 128)) @ rest) = Inr (c, rest)"
      by (rule decode_char_lead)
    then show ?thesis using uri_bytes_nat(3) [of c] 3 by (simp only: n_def [symmetric] list.map concat.simps append_assoc append_Nil)
  next
    case 4
    have m: "c \<ge> 0x10000" using 4 by (simp add: word_le_nat_alt n_def)
    have b: "n div 262144 < 8" using 4 by auto
    then have "lead_byte (of_nat (n div 262144 + 240)) = (Suc (Suc (Suc 0)), 0x10000, of_nat (n div 262144))" using lead_byte_nat(3) by simp
    moreover have "decode_cont (Suc (Suc (Suc 0))) (of_nat (n div 262144)) (percent (of_nat (n div 4096 mod 64 + 128)) @
        percent (of_nat (n div 64 mod 64 + 128)) @ percent (of_nat (n mod 64 + 128)) @ rest) = Inr (c, rest)"
      using 4 b by (subst decode_cont_step, simp, simp, subst sm(3), subst decode_cont_step, simp, simp, subst sm(2), subst decode_cont_step)
        (simp_all only: sm decode_cont.simps c, auto)
    moreover have "unat (of_nat (n div 262144 + 240) :: u32) < 256" "\<not> (of_nat (n div 262144 + 240) :: u32) < 0x80"
      using u [of "n div 262144 + 240"] big [of "n div 262144 + 240"] b by simp_all
    moreover note m le assms(2)
    ultimately have "decode_char isC (percent (of_nat (n div 262144 + 240)) @ percent (of_nat (n div 4096 mod 64 + 128)) @ percent (of_nat (n div 64 mod 64 + 128)) @ percent (of_nat (n mod 64 + 128)) @ rest) = Inr (c, rest)"
      by (rule decode_char_lead)
    then show ?thesis using uri_bytes_nat(4) [of c] 4 by (simp only: n_def [symmetric] list.map concat.simps append_assoc append_Nil)
  qed
qed

section \<open>Round trips\<close>

lemma uri_char_props:
  assumes "uri_char u us = Inr (c, us')"
  shows "unat c < 1114112" "\<not> is_surrogate c" "units_of c @ us' = u # us" "c = ucast u \<or> \<not> unat c < 128"
proof -
  consider (one) "\<not> is_lo_surrogate (ucast u)" "\<not> is_hi_surrogate (ucast u)" "c = ucast u" "us' = us"
    | (two) v where "is_hi_surrogate (ucast u)" "is_lo_surrogate (ucast v)" "us = v # us'" "c = from_surrogate (ucast u) (ucast v)"
    using assms by (auto simp: uri_char_def Let_def split: if_splits list.splits)
  then have "unat c < 1114112 \<and> \<not> is_surrogate c \<and> units_of c @ us' = u # us \<and> (c = ucast u \<or> \<not> unat c < 128)"
  proof cases
    case one
    then show ?thesis using unat_lt_u16 [of u] by (auto simp: is_surrogate_nat is_hi_surrogate_nat is_lo_surrogate_nat)
  next
    case two
    then show ?thesis using units_of_pair [of u v] by (auto simp: from_surrogate_nat is_surrogate_nat)
  qed
  then show "unat c < 1114112" "\<not> is_surrogate c" "units_of c @ us' = u # us" "c = ucast u \<or> \<not> unat c < 128" by blast+
qed

lemma encoded_bytes:
  "unat c < 1114112 \<Longrightarrow> concat (map (\<lambda>b. percent (ucast b)) (utf8_encode c)) = concat (map percent (uri_bytes c))"
  by (simp add: uri_bytes_utf8 comp_def)

lemma encode_loop_puts:
  "sb_wf b \<Longrightarrow> encode_loop slack isC us b m = (eo, b', m') \<Longrightarrow>
   eo = fst (encoded isC us) \<and> puts b (snd (encoded isC us)) m (True, b', m')"
proof (induction slack isC us b m arbitrary: eo b' m' rule: encode_loop.induct)
  case (1 slack isC b m)
  then show ?case by (simp add: write_empty)
next
  case (2 slack isC u us b m)
  show ?case
  proof (cases "isURIUnescaped (ucast u) isC")
    case True
    obtain ok b1 m1 where w: "string_buffer_putc16 slack b (ucast u) m = (ok, b1, m1)" by (metis prod_cases3)
    have p: "puts b [u] m (ok, b1, m1)" using putc16_puts [OF "2.prems"(1), of "ucast u" m slack] w by simp
    have "encode_loop slack isC us b1 m1 = (eo, b', m')" using "2.prems"(2) True w by simp
    then have "eo = fst (encoded isC us) \<and> puts b1 (snd (encoded isC us)) m1 (True, b', m')"
      using "2.IH"(1) [OF True w [symmetric] refl puts_wf [OF p]] by blast
    then show ?thesis using puts_trans [OF p] True by simp
  next
    case False
    show ?thesis
    proof (cases "uri_char u us")
      case (Inl e)
      then show ?thesis using "2.prems" False by (simp add: write_empty)
    next
      case (Inr q)
      obtain c us' where q: "q = (c, us')" by (cases q)
      obtain b1 m1 where w: "put_hexes slack b (uri_bytes c) m = (b1, m1)" by (metis prod.exhaust)
      have p: "puts b (concat (map percent (uri_bytes c))) m (True, b1, m1)"
        using put_hexes_puts [OF "2.prems"(1) w] .
      have c: "unat c < 1114112" using uri_char_props(1) Inr q by blast
      have "encode_loop slack isC us' b1 m1 = (eo, b', m')" using "2.prems"(2) False Inr q w by simp
      then have "eo = fst (encoded isC us') \<and> puts b1 (snd (encoded isC us')) m1 (True, b', m')"
        using "2.IH"(2) [OF False Inr q [symmetric] w [symmetric] puts_wf [OF p]] by blast
      then show ?thesis using puts_trans [OF p] False Inr q encoded_bytes [OF c] by simp
    qed
  qed
qed

lemma encoded_error: "fst (encoded isC us) = None \<longleftrightarrow> well_formed us"
proof (induction isC us rule: encoded.induct)
  case (2 isC u us)
  have d: "\<not> (is_hi_surrogate c \<and> is_lo_surrogate c)" for c by (simp add: is_hi_surrogate_nat is_lo_surrogate_nat)
  show ?case
  proof (cases "isURIUnescaped (ucast u) isC")
    case True
    then have "unat u < 256" by (simp add: isURIUnescaped_def word_less_nat_alt)
    then have "\<not> is_hi_surrogate (ucast u)" "\<not> is_lo_surrogate (ucast u)"
      by (simp_all add: is_hi_surrogate_nat is_lo_surrogate_nat)
    then show ?thesis using "2.IH"(1) True by simp
  next
    case False
    show ?thesis using "2.IH"(2) [OF False] False d [of "ucast u"]
      by (auto simp: uri_char_def Let_def split: list.splits)
  qed
qed simp

lemma decoded_encoded: "fst (encoded isC us) = None \<Longrightarrow> decoded isC (snd (encoded isC us)) = (None, us)"
proof (induction isC us rule: encoded.induct)
  case (1 isC)
  then show ?case by (simp add: decoded.simps)
next
  case (2 isC u us)
  show ?case
  proof (cases "isURIUnescaped (ucast u) isC")
    case True
    have "(ucast u :: u32) \<noteq> 37"
    proof
      assume e: "(ucast u :: u32) = 37"
      show False using True unfolding e by (simp add: isURIUnescaped_def isURIReserved_def chars_def)
    qed
    then have "decode_char isC (u # rest) = Inr (ucast u, rest)" for rest by (simp add: decode_char_def)
    then show ?thesis using "2.IH"(1) [OF True] "2.prems" True by (simp add: decoded.simps [of isC "u # _"] prod_eq_iff)
  next
    case False
    obtain c us' where q: "uri_char u us = Inr (c, us')" using "2.prems" False by (auto split: sum.splits)
    note p = uri_char_props [OF q]
    have r: "isC \<or> \<not> isURIReserved c" if "unat c < 128"
      using p(4) that False by (auto simp: isURIUnescaped_def isURIReserved_def)
    have "concat (map percent (uri_bytes c)) \<noteq> []" by (auto simp: uri_bytes_def percent_def hex_units_def)
    moreover have "decode_char isC (concat (map percent (uri_bytes c)) @ rest) = Inr (c, rest)" for rest
      using p(1,2) r by (rule decode_char_encoded)
    ultimately have "decoded isC (concat (map percent (uri_bytes c)) @ rest) = prepend (units_of c) (decoded isC rest)" for rest
      by (subst decoded.simps) auto
    then show ?thesis using "2.IH"(2) [OF False q refl] "2.prems" False q p(3) encoded_bytes [OF p(1)]
      by (simp add: prod_eq_iff)
  qed
qed

lemma escape_loop_puts: "sb_wf b \<Longrightarrow> escape_loop slack us b m = (b', m') \<Longrightarrow> puts b (escaped us) m (True, b', m')"
proof (induction slack us b m arbitrary: b' m' rule: escape_loop.induct)
  case (2 slack u us b m)
  define r where "r = (if isUnescaped (ucast u) then string_buffer_putc16 slack b (ucast u) m else encodeURI_hex slack b (ucast u) m)"
  obtain ok b1 m1 where w: "r = (ok, b1, m1)" by (metis prod_cases3)
  have p: "puts b (if isUnescaped (ucast u) then [u] else percent (ucast u)) m (ok, b1, m1)"
    using putc16_puts [OF "2.prems"(1), of "ucast u" m slack] encodeURI_hex_puts [OF "2.prems"(1), of "ucast u" m slack]
    unfolding w [symmetric] r_def percent_def by auto
  have "escape_loop slack us b1 m1 = (b', m')" using "2.prems"(2) w by (simp add: r_def Let_def)
  then have "puts b1 (escaped us) m1 (True, b', m')"
    using "2.IH" [OF refl w [unfolded r_def, symmetric] refl puts_wf [OF p]] by blast
  then show ?case using puts_trans [OF p] by simp
qed (simp add: write_empty)

lemma unescape_loop_puts: "sb_wf b \<Longrightarrow> unescape_loop slack us b m = (b', m') \<Longrightarrow> puts b (unescaped us) m (True, b', m')"
proof (induction slack us b m arbitrary: b' m' rule: unescape_loop.induct)
  case (2 slack u us b m)
  obtain c us' where q: "unescape_char u us = (c, us')" by (cases "unescape_char u us")
  obtain ok b1 m1 where w: "string_buffer_putc16 slack b c m = (ok, b1, m1)" by (metis prod_cases3)
  have p: "puts b [ucast c] m (ok, b1, m1)" using putc16_puts [OF "2.prems"(1), of c m slack] w by simp
  have "unescape_loop slack us' b1 m1 = (b', m')" using "2.prems"(2) q w by simp
  then have "puts b1 (unescaped us') m1 (True, b', m')"
    using "2.IH" [OF q [symmetric] w [symmetric] refl puts_wf [OF p]] by blast
  then show ?case using puts_trans [OF p] q by simp
qed (simp add: write_empty)

lemma unescape_char_percent:
  "unescape_char 37 (tl (percent (ucast u) @ rest)) = (ucast (u :: u16), rest)" "hd (percent (ucast u)) = 37" "percent (ucast u) \<noteq> []"
proof -
  have n: "unat (ucast u :: u32) < 65536" using unat_lt_u16 [of u] by simp
  show "unescape_char 37 (tl (percent (ucast u) @ rest)) = (ucast u, rest)"
  proof (cases "unat u < 256")
    case True
    then show ?thesis using hex_loop_2 [of "ucast u" rest] hex_digit_not_u [of "drop_bit 4 (ucast u)"]
      by (simp add: percent_small unescape_char_def)
  next
    case False
    have "percent (ucast u) = [37, 117, ucast (hex_digit (drop_bit 12 (ucast u))), ucast (hex_digit (drop_bit 8 (ucast u))),
        ucast (hex_digit (drop_bit 4 (ucast u))), ucast (hex_digit (ucast u))]"
      using False by (simp add: percent_def hex_units_def word_le_nat_alt)
    then show ?thesis using hex_loop_4 [OF n, of rest] by (simp add: unescape_char_def)
  qed
  show "hd (percent (ucast u)) = 37" "percent (ucast u) \<noteq> []" by (simp_all add: percent_def hex_units_def)
qed

lemma unescaped_escaped: "unescaped (escaped us) = us"
proof (induction us)
  case (Cons u us)
  show ?case
  proof (cases "isUnescaped (ucast u)")
    case True
    have "(ucast u :: u32) \<noteq> 37"
    proof
      assume e: "(ucast u :: u32) = 37"
      show False using True unfolding e by (simp add: isUnescaped_def chars_def)
    qed
    then show ?thesis using Cons True by (simp add: unescape_char_def)
  next
    case False
    have p: "unescape_char 37 (tl (percent (ucast u) @ escaped us)) = (ucast u, escaped us)" "hd (percent (ucast u)) = 37" "percent (ucast u) \<noteq> []"
      by (rule unescape_char_percent)+
    have "percent (ucast u) @ escaped us = 37 # tl (percent (ucast u) @ escaped us)"
      using p(2,3) by (cases "percent (ucast u)") simp_all
    then have "unescaped (percent (ucast u) @ escaped us) = u # unescaped (escaped us)"
      using p(1) unescaped.simps(2) [of 37 "tl (percent (ucast u) @ escaped us)"] by simp
    then show ?thesis using Cons False by simp
  qed
qed simp

section \<open>The conversions\<close>

lemma decodeURI_delivers:
  assumes "js_global_decodeURI slack (Inr p) isC m = (r, m')"
  shows "delivers (decoded isC (units p)) m (r, m')"
proof -
  obtain b m1 where i: "string_buffer_init 0 m = (b, m1)" by (metis prod.exhaust)
  obtain eo b' m2 where l: "decode_loop slack isC (units p) b m1 = (eo, b', m2)" by (metis prod_cases3)
  have "sb_wf b" using init_wf(1) i unfolding string_buffer_init_def by simp
  from decode_loop_puts [OF this l] show ?thesis
    using init_finish [OF i, of "decoded isC (units p)" b' m2] assms i l by (auto simp: js_global_decodeURI_def)
qed

lemma encodeURI_delivers:
  assumes "js_global_encodeURI slack (Inr p) isC m = (r, m')" and "str_len p \<le> JS_STRING_LEN_MAX"
  shows "delivers (encoded isC (units p)) m (r, m')"
proof -
  obtain b m1 where i: "string_buffer_init (str_len p) m = (b, m1)" by (metis prod.exhaust)
  obtain eo b' m2 where l: "encode_loop slack isC (units p) b m1 = (eo, b', m2)" by (metis prod_cases3)
  have "sb_wf b" using init_wf(1) i assms(2) unfolding string_buffer_init_def by simp
  from encode_loop_puts [OF this l] show ?thesis
    using init_finish [OF i, of "encoded isC (units p)" b' m2] assms(1) i l by (auto simp: js_global_encodeURI_def)
qed

lemma escape_delivers:
  assumes "js_global_escape slack (Inr p) m = (r, m')" and "str_len p \<le> JS_STRING_LEN_MAX"
  shows "delivers (None, escaped (units p)) m (r, m')"
proof -
  obtain b m1 where i: "string_buffer_init (str_len p) m = (b, m1)" by (metis prod.exhaust)
  obtain b' m2 where l: "escape_loop slack (units p) b m1 = (b', m2)" by (metis prod.exhaust)
  have "sb_wf b" using init_wf(1) i assms(2) unfolding string_buffer_init_def by simp
  from escape_loop_puts [OF this l] show ?thesis
    using init_finish [OF i, of "(None, escaped (units p))" b' m2] assms(1) i l by (simp add: js_global_escape_def finish_def)
qed

lemma unescape_delivers:
  assumes "js_global_unescape slack (Inr p) m = (r, m')"
  shows "delivers (None, unescaped (units p)) m (r, m')"
proof -
  obtain b m1 where i: "string_buffer_init 0 m = (b, m1)" by (metis prod.exhaust)
  obtain b' m2 where l: "unescape_loop slack (units p) b m1 = (b', m2)" by (metis prod.exhaust)
  have "sb_wf b" using init_wf(1) i unfolding string_buffer_init_def by simp
  from unescape_loop_puts [OF this l] show ?thesis
    using init_finish [OF i, of "(None, unescaped (units p))" b' m2] assms i l by (simp add: js_global_unescape_def finish_def)
qed

text \<open>C30: \<open>encodeURI\<close> and \<open>encodeURIComponent\<close> return the string in which every code point that is not
  exempt is replaced by the escapes of its UTF-8 bytes; they throw exactly on a string with a lone
  surrogate (and when memory runs out or the result is too long), without a leak; \<open>escape\<close> does so for
  single units. The argument is a string within the limit on strings.\<close>

theorem encodeURI_correct:
  assumes "js_global_encodeURI slack (Inr p) isC m = (r, m')" and "js_global_escape slack (Inr p) m = (r', m'')"
    and "str_len p \<le> JS_STRING_LEN_MAX"
  shows "delivers (encoded isC (units p)) m (r, m') \<and> (fst (encoded isC (units p)) = None \<longleftrightarrow> well_formed (units p))
    \<and> delivers (None, escaped (units p)) m (r', m'')"
  using encodeURI_delivers [OF assms(1,3)] encoded_error escape_delivers [OF assms(2,3)] by blast

theorem encodeURI_correct_witness:
  "delivers (encoded True [0xD800]) \<lparr>mem_outcomes = [], mem_live = 0\<rparr>
     (js_global_encodeURI (\<lambda>_. 0) (Inr (Str16 [0xD800])) True \<lparr>mem_outcomes = [], mem_live = 0\<rparr>)"
proof -
  have "str_len (Str16 [0xD800]) \<le> JS_STRING_LEN_MAX" by (simp add: JS_STRING_LEN_MAX_def)
  from encodeURI_correct [OF prod.collapse [symmetric] prod.collapse [symmetric] this, where slack = "\<lambda>_. 0" and isC = True
      and m = "\<lparr>mem_outcomes = [], mem_live = 0\<rparr>"]
  show ?thesis unfolding units.simps prod.collapse by (elim conjE)
qed

text \<open>C31: decoding inverts encoding: \<open>decodeURI\<close> of what \<open>encodeURI\<close> returned (in the same form, component or
  not) gives the original units back, and \<open>unescape\<close> inverts \<open>escape\<close> on every string, with lone surrogates too. Only a
  failed allocation makes the decoders fail; the encoders fail for a lone surrogate (\<open>encodeURI\<close> only), a failed
  allocation or a result that is too long.\<close>

theorem decodeURI_encodeURI:
  assumes "str_len p \<le> JS_STRING_LEN_MAX"
  shows "(case fst (js_global_encodeURI slack (Inr p) isC m) of
      Inr q \<Rightarrow> (case fst (js_global_decodeURI slack (Inr q) isC n) of
          Inr p' \<Rightarrow> units p' = units p | Inl e \<Rightarrow> e = OutOfMemory \<and> mem_outcomes n \<noteq> [])
    | Inl e \<Rightarrow> \<not> well_formed (units p) \<or> e = OutOfMemory \<and> mem_outcomes m \<noteq> [] \<or> e = RangeError ''invalid string length'')
    \<and> (case fst (js_global_escape slack (Inr p) m) of
      Inr q \<Rightarrow> (case fst (js_global_unescape slack (Inr q) n) of
          Inr p' \<Rightarrow> units p' = units p | Inl e \<Rightarrow> e = OutOfMemory \<and> mem_outcomes n \<noteq> [])
    | Inl e \<Rightarrow> e = OutOfMemory \<and> mem_outcomes m \<noteq> [] \<or> e = RangeError ''invalid string length'')"
proof
  have l: "length (units p) \<le> JS_STRING_LEN_MAX" using assms by (simp add: str_len_units)
  have inv: "case r of Inr p' \<Rightarrow> units p' = units p | Inl e \<Rightarrow> e = OutOfMemory \<and> mem_outcomes n \<noteq> []"
    if "delivers (None, units p) n (r, m3)" for r m3
    using that l by (auto simp: delivers_def split: sum.splits)
  obtain r m' where e: "js_global_encodeURI slack (Inr p) isC m = (r, m')" by (metis prod.exhaust)
  note d = encodeURI_delivers [OF e assms]
  show "case fst (js_global_encodeURI slack (Inr p) isC m) of
      Inr q \<Rightarrow> (case fst (js_global_decodeURI slack (Inr q) isC n) of
          Inr p' \<Rightarrow> units p' = units p | Inl e \<Rightarrow> e = OutOfMemory \<and> mem_outcomes n \<noteq> [])
    | Inl e \<Rightarrow> \<not> well_formed (units p) \<or> e = OutOfMemory \<and> mem_outcomes m \<noteq> [] \<or> e = RangeError ''invalid string length''"
  proof (cases r)
    case (Inr q)
    then have q: "fst (encoded isC (units p)) = None" "units q = snd (encoded isC (units p))"
      using d by (simp_all add: delivers_def split: prod.splits)
    obtain r2 m3 where r2: "js_global_decodeURI slack (Inr q) isC n = (r2, m3)" by (metis prod.exhaust)
    show ?thesis using inv [of r2 m3] decodeURI_delivers [OF r2] decoded_encoded [OF q(1)] q(2) e r2 Inr by simp
  next
    case (Inl err)
    then show ?thesis using d e encoded_error [of isC "units p"]
      by (cases "encoded isC (units p)") (auto simp: delivers_def split: option.splits)
  qed
  obtain r m' where e: "js_global_escape slack (Inr p) m = (r, m')" by (metis prod.exhaust)
  note d = escape_delivers [OF e assms]
  show "case fst (js_global_escape slack (Inr p) m) of
      Inr q \<Rightarrow> (case fst (js_global_unescape slack (Inr q) n) of
          Inr p' \<Rightarrow> units p' = units p | Inl e \<Rightarrow> e = OutOfMemory \<and> mem_outcomes n \<noteq> [])
    | Inl e \<Rightarrow> e = OutOfMemory \<and> mem_outcomes m \<noteq> [] \<or> e = RangeError ''invalid string length''"
  proof (cases r)
    case (Inr q)
    then have q: "units q = escaped (units p)" using d by (simp add: delivers_def)
    obtain r2 m3 where r2: "js_global_unescape slack (Inr q) n = (r2, m3)" by (metis prod.exhaust)
    show ?thesis using inv [of r2 m3] unescape_delivers [OF r2] unescaped_escaped q e r2 Inr by simp
  qed (use d e in \<open>auto simp: delivers_def\<close>)
qed

theorem decodeURI_encodeURI_witness:
  "\<exists>q p'. fst (js_global_escape (\<lambda>_. 0) (Inr (Str16 [0xD800])) \<lparr>mem_outcomes = [], mem_live = 0\<rparr>) = Inr q
    \<and> fst (js_global_unescape (\<lambda>_. 0) (Inr q) \<lparr>mem_outcomes = [], mem_live = 0\<rparr>) = Inr p' \<and> units p' = [0xD800]"
proof -
  define m where "m = \<lparr>mem_outcomes = [], mem_live = 0\<rparr>"
  have mo: "mem_outcomes m = []" by (simp add: m_def)
  have l: "str_len (Str16 [0xD800]) \<le> JS_STRING_LEN_MAX" by (simp add: JS_STRING_LEN_MAX_def)
  obtain r m' where s: "js_global_escape (\<lambda>_. 0) (Inr (Str16 [0xD800])) m = (r, m')" by (metis prod.exhaust)
  have "length (escaped [0xD800]) \<le> JS_STRING_LEN_MAX"
    by (simp add: isUnescaped_def chars_def percent_def hex_units_def JS_STRING_LEN_MAX_def)
  then obtain q where q: "r = Inr q" using escape_delivers [OF s l] mo by (auto simp: delivers_def split: sum.splits)
  then show ?thesis
    using decodeURI_encodeURI [OF l, where slack = "\<lambda>_. 0" and isC = True and m = m and n = m] s mo
    unfolding m_def [symmetric] by (auto split: sum.splits)
qed

end
