(* ===== verification/Dynbuf.thy ===== *)
theory Dynbuf
  imports Prelude
begin

text \<open>
  The growing byte buffer of \<open>src/qjs/cutils.h\<close> (\<open>DynBuf\<close>): its capacity is a 64-bit word, growth can
  fail, and a failed growth sets a flag that stays set. \<open>buf\<close> holds the first \<open>size\<close> bytes. Each
  operation returns whether it succeeded; the allocator is that of the prelude.
\<close>

section \<open>The operations\<close>

record dynbuf =
  buf :: "u8 list"
  allocated_size :: u64
  error :: bool

type_synonym dbuf_result = "bool \<times> dynbuf \<times> mem"

definition dbuf_init :: dynbuf where
  "dbuf_init = \<lparr>buf = [], allocated_size = 0, error = False\<rparr>"

definition dbuf_size :: "dynbuf \<Rightarrow> u64" where
  "dbuf_size s = of_nat (length (buf s))"

definition dbuf_claim :: "dynbuf \<Rightarrow> u64 \<Rightarrow> mem \<Rightarrow> dbuf_result" where
  "dbuf_claim s len m =
     (let new_size = dbuf_size s + len
      in if new_size < len then (False, s, m)
         else if new_size > allocated_size s
         then (if error s then (False, s, m)
               else let size = allocated_size s + drop_bit 1 (allocated_size s);
                        new_allocated_size = (if size < new_size \<or> size < allocated_size s then new_size else size)
                    in case (if allocated_size s = 0 then js_malloc m else js_realloc m) of
                         (Inl _, m') \<Rightarrow> (False, s\<lparr>error := True\<rparr>, m')
                       | (Inr _, m') \<Rightarrow> (True, s\<lparr>allocated_size := new_allocated_size\<rparr>, m'))
         else (True, s, m))"

definition dbuf_put :: "dynbuf \<Rightarrow> u8 list \<Rightarrow> mem \<Rightarrow> dbuf_result" where
  "dbuf_put s data m =
     (let len = of_nat (length data)
      in case (if dbuf_size s + len > allocated_size s then dbuf_claim s len m else (True, s, m)) of
           (ok, s', m') \<Rightarrow> (ok, if ok then s'\<lparr>buf := buf s' @ data\<rparr> else s', m'))"

text \<open>The bytes that are there before the call are copied, so \<open>offset + len \<le> size\<close> is required.\<close>

definition dbuf_put_self :: "dynbuf \<Rightarrow> nat \<Rightarrow> nat \<Rightarrow> mem \<Rightarrow> dbuf_result" where
  "dbuf_put_self s offset len m =
     (case (if dbuf_size s + of_nat len > allocated_size s then dbuf_claim s (of_nat len) m else (True, s, m)) of
        (ok, s', m') \<Rightarrow> (ok, if ok then s'\<lparr>buf := buf s' @ take len (drop offset (buf s'))\<rparr> else s', m'))"

definition dbuf_putc :: "dynbuf \<Rightarrow> u8 \<Rightarrow> mem \<Rightarrow> dbuf_result" where
  "dbuf_putc s val m =
     (if allocated_size s - dbuf_size s < 1 then dbuf_put s [val] m
      else (True, s\<lparr>buf := buf s @ [val]\<rparr>, m))"

text \<open>The bytes of an integer, low byte first (the code copies the object representation).\<close>

definition le_bytes :: "nat \<Rightarrow> 'a::len word \<Rightarrow> u8 list" where
  "le_bytes n v = map (\<lambda>i. ucast (drop_bit (8 * i) v)) [0..<n]"

definition dbuf_put_u16 :: "dynbuf \<Rightarrow> u16 \<Rightarrow> mem \<Rightarrow> dbuf_result" where
  "dbuf_put_u16 s val m =
     (if allocated_size s - dbuf_size s < 2 then dbuf_put s (le_bytes 2 val) m
      else (True, s\<lparr>buf := buf s @ le_bytes 2 val\<rparr>, m))"

definition dbuf_put_u32 :: "dynbuf \<Rightarrow> u32 \<Rightarrow> mem \<Rightarrow> dbuf_result" where
  "dbuf_put_u32 s val m =
     (if allocated_size s - dbuf_size s < 4 then dbuf_put s (le_bytes 4 val) m
      else (True, s\<lparr>buf := buf s @ le_bytes 4 val\<rparr>, m))"

definition dbuf_put_u64 :: "dynbuf \<Rightarrow> u64 \<Rightarrow> mem \<Rightarrow> dbuf_result" where
  "dbuf_put_u64 s val m =
     (if allocated_size s - dbuf_size s < 8 then dbuf_put s (le_bytes 8 val) m
      else (True, s\<lparr>buf := buf s @ le_bytes 8 val\<rparr>, m))"

definition dbuf_free :: "dynbuf \<Rightarrow> mem \<Rightarrow> dynbuf \<times> mem" where
  "dbuf_free s m = (dbuf_init, if allocated_size s = 0 then m else snd (js_free m))"

section \<open>The contract\<close>

text \<open>The bytes fit in the capacity.\<close>

definition dbuf_wf :: "dynbuf \<Rightarrow> bool" where
  "dbuf_wf s \<longleftrightarrow> length (buf s) \<le> unat (allocated_size s)"

definition dbuf_owned :: "dynbuf \<Rightarrow> int" where
  "dbuf_owned s = of_bool (allocated_size s \<noteq> 0)"

text \<open>
  \<open>appends s data m r\<close>: the result \<open>r\<close> of an operation on \<open>s\<close> either has the data appended, or is a
  failure that left the bytes alone and has the error flag set; it can only fail when the flag was set
  or an allocation failed, the flag is never cleared, and the block of the buffer is accounted for.
\<close>

definition appends :: "dynbuf \<Rightarrow> u8 list \<Rightarrow> mem \<Rightarrow> dbuf_result \<Rightarrow> bool" where
  "appends s data m r \<longleftrightarrow> (case r of (ok, s', m') \<Rightarrow>
     dbuf_wf s' \<and> buf s' = buf s @ (if ok then data else []) \<and>
     (error s \<longrightarrow> error s') \<and> (ok \<or> error s') \<and> (ok \<longrightarrow> error s' = error s) \<and>
     (mem_outcomes m = [] \<longrightarrow> mem_outcomes m' = [] \<and> (ok \<or> error s)) \<and>
     mem_live m' - dbuf_owned s' = mem_live m - dbuf_owned s)"

lemma dbuf_size_nat: "dbuf_wf s \<Longrightarrow> unat (dbuf_size s) = length (buf s)"
  using unat_lt_u64 [of "allocated_size s"] by (simp add: dbuf_size_def dbuf_wf_def unat_of_nat)

lemma dbuf_claim_spec:
  assumes "dbuf_wf s" and "length (buf s) + unat len < 2 ^ 64" and "dbuf_claim s len m = (ok, s', m')"
  shows "buf s' = buf s" "dbuf_wf s'" "ok \<Longrightarrow> length (buf s) + unat len \<le> unat (allocated_size s')"
    "error s \<longrightarrow> error s'" "ok \<or> error s'" "ok \<Longrightarrow> error s' = error s"
    "mem_outcomes m = [] \<Longrightarrow> mem_outcomes m' = [] \<and> (ok \<or> error s)"
    "mem_live m' - dbuf_owned s' = mem_live m - dbuf_owned s"
proof -
  define new_size where "new_size = dbuf_size s + len"
  have n: "unat new_size = length (buf s) + unat len"
    using assms(2) dbuf_size_nat [OF assms(1)] unfolding new_size_def by (simp add: unat_plus_nowrap)
  then have ov: "\<not> new_size < len" by (simp add: word_less_nat_alt)
  define size where "size = allocated_size s + drop_bit 1 (allocated_size s)"
  define a where "a = (if size < new_size \<or> size < allocated_size s then new_size else size)"
  have r: "(ok, s', m') = (if new_size > allocated_size s
      then (if error s then (False, s, m)
            else case (if allocated_size s = 0 then js_malloc m else js_realloc m) of
                         (Inl _, m') \<Rightarrow> (False, s\<lparr>error := True\<rparr>, m')
                       | (Inr _, m') \<Rightarrow> (True, s\<lparr>allocated_size := a\<rparr>, m'))
      else (True, s, m))"
    using assms(3) ov unfolding dbuf_claim_def Let_def new_size_def a_def size_def by simp
  have a: "unat new_size \<le> unat a" by (auto simp: a_def word_less_nat_alt not_less)
  show "buf s' = buf s" "error s \<longrightarrow> error s'" "ok \<or> error s'" "ok \<Longrightarrow> error s' = error s"
    using r by (auto split: if_splits sum.splits prod.splits)
  show "dbuf_wf s'" using r assms(1) a n by (auto simp: dbuf_wf_def split: if_splits sum.splits prod.splits)
  show "ok \<Longrightarrow> length (buf s) + unat len \<le> unat (allocated_size s')"
    using r a n by (auto simp: word_less_nat_alt not_less split: if_splits sum.splits prod.splits)
  show "mem_outcomes m = [] \<Longrightarrow> mem_outcomes m' = [] \<and> (ok \<or> error s)"
    using r by (auto simp: js_malloc_def js_realloc_def split: if_splits sum.splits prod.splits list.splits)
  have "allocated_size s < new_size \<Longrightarrow> a \<noteq> 0"
    using a by (auto simp: word_less_nat_alt)
  then show "mem_live m' - dbuf_owned s' = mem_live m - dbuf_owned s"
    using r by (auto simp: dbuf_owned_def js_malloc_def js_realloc_def split: if_splits sum.splits prod.splits list.splits)
qed

lemma dbuf_put_appends:
  assumes "dbuf_wf s" and "length (buf s) + length data < 2 ^ 64"
  shows "appends s data m (dbuf_put s data m)"
proof -
  have l: "unat (of_nat (length data) :: u64) = length data" using assms(2) by (simp add: unat_of_nat)
  have n: "unat (dbuf_size s + of_nat (length data)) = length (buf s) + length data"
    using assms l dbuf_size_nat [OF assms(1)] by (simp add: unat_plus_nowrap)
  show ?thesis
  proof (cases "dbuf_size s + of_nat (length data) > allocated_size s")
    case True
    obtain ok s' m' where r: "dbuf_claim s (of_nat (length data)) m = (ok, s', m')"
      by (cases "dbuf_claim s (of_nat (length data)) m")
    have "length (buf s) + unat (of_nat (length data) :: u64) < 2 ^ 64" using assms(2) l by simp
    note c = dbuf_claim_spec [OF assms(1) this r]
    have "dbuf_put s data m = (ok, if ok then s'\<lparr>buf := buf s' @ data\<rparr> else s', m')"
      using True r by (simp add: dbuf_put_def Let_def)
    then show ?thesis using c l by (cases ok) (auto simp: appends_def dbuf_wf_def dbuf_owned_def)
  next
    case False
    then show ?thesis using n by (simp add: dbuf_put_def Let_def appends_def dbuf_wf_def word_less_nat_alt dbuf_owned_def)
  qed
qed

lemma dbuf_direct_appends:
  assumes "dbuf_wf s" and "\<not> allocated_size s - dbuf_size s < of_nat (length data)" and "length data < 256"
  shows "appends s data m (True, s\<lparr>buf := buf s @ data\<rparr>, m)"
proof -
  have "unat (dbuf_size s) \<le> unat (allocated_size s)" using assms(1) dbuf_size_nat by (simp add: dbuf_wf_def)
  then have "unat (allocated_size s - dbuf_size s) = unat (allocated_size s) - length (buf s)"
    using dbuf_size_nat [OF assms(1)] by (simp add: unat_sub_if')
  moreover have "unat (of_nat (length data) :: u64) = length data" using assms(3) by (simp add: unat_of_nat)
  ultimately have "length data \<le> unat (allocated_size s) - length (buf s)"
    using assms(2) by (simp add: word_less_nat_alt)
  then show ?thesis using assms(1) by (simp add: appends_def dbuf_wf_def dbuf_owned_def)
qed

lemma le_bytes_length [simp]: "length (le_bytes n v) = n"
  by (simp add: le_bytes_def)

lemma dbuf_put_int_appends:
  assumes "dbuf_wf s" and "length (buf s) + 8 < 2 ^ 64"
  shows "appends s [c] m (dbuf_putc s c m)" "appends s (le_bytes 2 v16) m (dbuf_put_u16 s v16 m)"
    "appends s (le_bytes 4 v32) m (dbuf_put_u32 s v32 m)" "appends s (le_bytes 8 v64) m (dbuf_put_u64 s v64 m)"
  using assms dbuf_put_appends [OF assms(1)] dbuf_direct_appends [OF assms(1)]
  by (simp_all add: dbuf_putc_def dbuf_put_u16_def dbuf_put_u32_def dbuf_put_u64_def)

lemma dbuf_put_self_appends:
  assumes "dbuf_wf s" and "offset + len \<le> length (buf s)" and "length (buf s) + len < 2 ^ 64"
  shows "appends s (take len (drop offset (buf s))) m (dbuf_put_self s offset len m)"
proof -
  have l: "length (take len (drop offset (buf s))) = len" using assms(2) by simp
  obtain ok s' m' where r: "(if dbuf_size s + of_nat len > allocated_size s then dbuf_claim s (of_nat len) m
      else (True, s, m)) = (ok, s', m')" by (metis prod_cases3)
  have "length (buf s) + unat (of_nat len :: u64) < 2 ^ 64" using assms(3) by (simp add: unat_of_nat)
  then have "buf s' = buf s" using dbuf_claim_spec(1) [OF assms(1), of "of_nat len" m ok s' m'] r by (auto split: if_splits)
  then have "dbuf_put_self s offset len m = dbuf_put s (take len (drop offset (buf s))) m"
    using r unfolding dbuf_put_self_def dbuf_put_def Let_def l by simp
  then show ?thesis using dbuf_put_appends [OF assms(1), of "take len (drop offset (buf s))"] assms(3) l by simp
qed

text \<open>C26: an append to a buffer either succeeds with the bytes at the end, or leaves the bytes alone and
  sets the error flag, which no operation clears; it never writes outside the capacity, does not leak,
  and fails only after an allocation failure.\<close>

theorem dbuf_append_correct:
  assumes "dbuf_wf s" and "length (buf s) + length data < 2 ^ 64" and "length (buf s) + 8 < 2 ^ 64"
    and "offset + len \<le> length (buf s)"
  shows "appends s data m (dbuf_put s data m) \<and> appends s [c] m (dbuf_putc s c m)
    \<and> appends s (le_bytes 2 v16) m (dbuf_put_u16 s v16 m)
    \<and> appends s (le_bytes 4 v32) m (dbuf_put_u32 s v32 m)
    \<and> appends s (le_bytes 8 v64) m (dbuf_put_u64 s v64 m)
    \<and> (length (buf s) + len < 2 ^ 64 \<longrightarrow>
        appends s (take len (drop offset (buf s))) m (dbuf_put_self s offset len m))"
  using assms dbuf_put_appends dbuf_put_int_appends [OF assms(1,3)] dbuf_put_self_appends by simp

theorem dbuf_append_correct_witness:
  "appends dbuf_init [1, 2, 3] \<lparr>mem_outcomes = [False], mem_live = 0\<rparr>
    (dbuf_put dbuf_init [1, 2, 3] \<lparr>mem_outcomes = [False], mem_live = 0\<rparr>)"
  using dbuf_append_correct [of dbuf_init "[1, 2, 3]" 0 0 "\<lparr>mem_outcomes = [False], mem_live = 0\<rparr>"]
  by (simp add: dbuf_wf_def dbuf_init_def)

end
