(* ===== verification/Pc2line.thy ===== *)
theory Pc2line
  imports Dynbuf Codec
begin

text \<open>
  The variable-length integers of \<open>src/qjs/quickjs.c\<close> (\<open>dbuf_put_leb128\<close>, \<open>dbuf_put_sleb128\<close>,
  \<open>get_leb128\<close>, \<open>get_sleb128\<close>) and the table that maps bytecode positions to source positions:
  \<open>compute_pc2line_info\<close> writes it and \<open>find_line_num\<close> searches it.
\<close>

section \<open>LEB128\<close>

lemma drop7_less: "drop_bit 7 v \<noteq> 0 \<Longrightarrow> unat (drop_bit 7 v) < unat (v :: u32)"
proof -
  assume "drop_bit 7 v \<noteq> 0"
  then have "unat (drop_bit 7 v) \<noteq> 0" by (simp add: unat_eq_0)
  moreover have "unat (drop_bit 7 v) = unat v div 128" using unat_drop_bit [of 7 v] by simp
  ultimately show ?thesis by (simp add: div_eq_0_iff)
qed

text \<open>The outcome of the single puts is ignored; the error flag of the buffer records a failure.\<close>

function dbuf_put_leb128 :: "dynbuf \<Rightarrow> u32 \<Rightarrow> mem \<Rightarrow> dynbuf \<times> mem" where
  "dbuf_put_leb128 s v m =
     (let a = v AND 0x7f; v = drop_bit 7 v
      in if v \<noteq> 0
         then (case dbuf_putc s (ucast (a OR 0x80)) m of (ok, s', m') \<Rightarrow> dbuf_put_leb128 s' v m')
         else snd (dbuf_putc s (ucast a) m))"
  by auto
termination by (relation "measure (\<lambda>(s, v, m). unat v)") (simp_all add: drop7_less)

declare dbuf_put_leb128.simps [simp del]

definition dbuf_put_sleb128 :: "dynbuf \<Rightarrow> u32 \<Rightarrow> mem \<Rightarrow> dynbuf \<times> mem" where
  "dbuf_put_sleb128 s v m = dbuf_put_leb128 s ((2 * v) XOR (- drop_bit 31 v)) m"

text \<open>\<open>n\<close> is \<open>5 - i\<close>; the result is the value with the bytes after it.\<close>

fun get_leb_loop :: "nat \<Rightarrow> nat \<Rightarrow> u32 \<Rightarrow> u8 list \<Rightarrow> (u32 \<times> u8 list) option" where
  "get_leb_loop 0 i v ptr = None"
| "get_leb_loop (Suc n) i v [] = None"
| "get_leb_loop (Suc n) i v (b # ptr) =
     (let a = ucast b :: u32; v = v OR push_bit (i * 7) (a AND 0x7f)
      in if a AND 0x80 = 0 then Some (v, ptr) else get_leb_loop n (i + 1) v ptr)"

definition get_leb128 :: "u8 list \<Rightarrow> (u32 \<times> u8 list) option" where
  "get_leb128 p = get_leb_loop 5 0 0 p"

definition get_sleb128 :: "u8 list \<Rightarrow> (u32 \<times> u8 list) option" where
  "get_sleb128 p =
     (case get_leb128 p of
        None \<Rightarrow> None
      | Some (val, p') \<Rightarrow> Some (drop_bit 1 val XOR (- (val AND 1)), p'))"

text \<open>The bytes that the encoders write.\<close>

function leb128 :: "u32 \<Rightarrow> u8 list" where
  "leb128 v =
     (if drop_bit 7 v \<noteq> 0 then ucast ((v AND 0x7f) OR 0x80) # leb128 (drop_bit 7 v) else [ucast (v AND 0x7f)])"
  by auto
termination by (relation "measure unat") (simp_all add: drop7_less)

declare leb128.simps [simp del]

definition zigzag :: "u32 \<Rightarrow> u32" where
  "zigzag v = (2 * v) XOR (- drop_bit 31 v)"

definition sleb128 :: "u32 \<Rightarrow> u8 list" where
  "sleb128 v = leb128 (zigzag v)"

section \<open>Round trip\<close>

lemma and_7f: "(v AND 0x7f :: 'a::len word) = take_bit 7 v"
  by (simp add: take_bit_eq_mask mask_numeral)

lemma bit_80: "bit (0x80 :: nat) n \<longleftrightarrow> n = 7" "bit (0x80 :: int) n \<longleftrightarrow> n = 7"
proof -
  have "(0x80 :: nat) = 2 ^ 7" "(0x80 :: int) = 2 ^ 7" by simp_all
  then show "bit (0x80 :: nat) n \<longleftrightarrow> n = 7" "bit (0x80 :: int) n \<longleftrightarrow> n = 7"
    by (simp_all only: bit_exp_iff possible_bit_def) auto
qed

lemma byte_low7:
  fixes v :: u32
  shows "(ucast (ucast (v AND 0x7f) :: u8) :: u32) AND 0x7f = take_bit 7 v"
    "(ucast (ucast ((v AND 0x7f) OR 0x80) :: u8) :: u32) AND 0x7f = take_bit 7 v"
    "(ucast (ucast (v AND 0x7f) :: u8) :: u32) AND 0x80 = 0"
    "(ucast (ucast ((v AND 0x7f) OR 0x80) :: u8) :: u32) AND 0x80 \<noteq> 0"
proof -
  show "(ucast (ucast (v AND 0x7f) :: u8) :: u32) AND 0x7f = take_bit 7 v"
    "(ucast (ucast ((v AND 0x7f) OR 0x80) :: u8) :: u32) AND 0x7f = take_bit 7 v"
    unfolding and_7f by (rule bit_word_eqI; auto simp: bit_simps bit_80)+
  show "(ucast (ucast (v AND 0x7f) :: u8) :: u32) AND 0x80 = 0"
    unfolding and_7f by (rule bit_word_eqI) (auto simp: bit_simps bit_80)
  have "bit ((ucast (ucast ((v AND 0x7f) OR 0x80) :: u8) :: u32) AND 0x80) 7"
    by (simp add: bit_simps bit_80)
  then show "(ucast (ucast ((v AND 0x7f) OR 0x80) :: u8) :: u32) AND 0x80 \<noteq> 0" by force
qed

lemma get_leb_loop_leb128:
  "unat v < 2 ^ (32 - 7 * i) \<Longrightarrow> i \<le> 4 \<Longrightarrow>
   get_leb_loop (5 - i) i acc (leb128 v @ rest) = Some (acc OR push_bit (7 * i) v, rest)"
proof (induction v arbitrary: i acc rule: leb128.induct)
  case (1 v)
  define n where "n = 4 - i"
  have n: "5 - i = Suc n" "4 - i = n" using "1.prems"(2) by (auto simp: n_def)
  have split: "push_bit (i * 7) (take_bit 7 v) OR push_bit (7 * i + 7) (drop_bit 7 v) = push_bit (7 * i) v"
  proof (rule bit_word_eqI)
    fix k assume "k < LENGTH(32)"
    have "7 + (k - (7 * i + 7)) = k - 7 * i" if "7 * i + 7 \<le> k" using that by simp
    then show "bit (push_bit (i * 7) (take_bit 7 v) OR push_bit (7 * i + 7) (drop_bit 7 v)) k =
        bit (push_bit (7 * i) v) k"
      by (cases "7 * i + 7 \<le> k") (auto simp: bit_simps mult.commute)
  qed
  show ?case
  proof (cases "drop_bit 7 v = 0")
    case True
    then have "push_bit (i * 7) (take_bit 7 v) = push_bit (7 * i) v" using split by simp
    moreover have "leb128 v = [ucast (v AND 0x7f)]" using True by (simp add: leb128.simps [of v])
    ultimately show ?thesis unfolding n(1) by (simp only: append_Cons append_Nil get_leb_loop.simps Let_def byte_low7) simp
  next
    case False
    have d: "unat (drop_bit 7 v) = unat v div 128" using unat_drop_bit [of 7 v] by simp
    have "i \<le> 3"
    proof (rule ccontr)
      assume "\<not> i \<le> 3"
      then have "i = 4" using "1.prems"(2) by simp
      then have "unat v < 16" using "1.prems"(1) by simp
      then have "unat (drop_bit 7 v) = 0" using d by simp
      then show False using False by (simp add: unat_eq_0)
    qed
    then have "32 - 7 * i = (32 - 7 * Suc i) + 7" by simp
    then have "(2 :: nat) ^ (32 - 7 * i) = 2 ^ (32 - 7 * Suc i) * 2 ^ 7" by (simp only: power_add)
    then have "unat v < 2 ^ (32 - 7 * Suc i) * 128" using "1.prems"(1) by simp
    then have "unat (drop_bit 7 v) < 2 ^ (32 - 7 * Suc i)" using d by (simp add: less_mult_imp_div_less)
    then have "get_leb_loop (5 - Suc i) (Suc i) (acc OR push_bit (i * 7) (take_bit 7 v)) (leb128 (drop_bit 7 v) @ rest) =
        Some ((acc OR push_bit (i * 7) (take_bit 7 v)) OR push_bit (7 * Suc i) (drop_bit 7 v), rest)"
      using \<open>i \<le> 3\<close> by (intro "1.IH" False) auto
    moreover have "5 - Suc i = n" by (simp add: n_def)
    moreover have "leb128 v = ucast ((v AND 0x7f) OR 0x80) # leb128 (drop_bit 7 v)"
      using False by (simp add: leb128.simps [of v])
    ultimately show ?thesis using split unfolding n(1)
      by (simp only: append_Cons get_leb_loop.simps Let_def byte_low7) (simp add: or.assoc add.commute)
  qed
qed

lemma zigzag_inverse: "drop_bit 1 (zigzag v) XOR (- (zigzag v AND 1)) = v"
proof -
  have z: "drop_bit 31 v = of_bool (bit v 31)"
  proof (rule bit_word_eqI)
    fix n assume "n < LENGTH(32)"
    then show "bit (drop_bit 31 v) n = bit (of_bool (bit v 31) :: u32) n"
      using bit_imp_le_length [of v "31 + n"] by (cases n) (auto simp: bit_simps)
  qed
  have m: "- of_bool b = (if b then - 1 else (0 :: u32))" for b by simp
  have two: "2 * v = push_bit 1 v" by (simp add: push_bit_eq_mult)
  have top: "bit v n \<Longrightarrow> n < 32" for n using bit_imp_le_length [of v n] by simp
  have bits: "bit (zigzag v) n \<longleftrightarrow> n < 32 \<and> ((1 \<le> n \<and> bit v (n - 1)) \<noteq> bit v 31)" for n
    unfolding zigzag_def z m two by (auto simp del: push_bit_Suc simp: bit_simps)
  have "zigzag v AND 1 = of_bool (bit v 31)" by (rule bit_word_eqI) (auto simp: bit_simps bits)
  then have e: "- (zigzag v AND 1) = (if bit v 31 then - 1 else 0)" by (simp add: m)
  show ?thesis unfolding e
  proof (rule bit_word_eqI)
    fix n assume "n < LENGTH(32)"
    then show "bit (drop_bit 1 (zigzag v) XOR (if bit v 31 then - 1 else 0)) n = bit v n"
      by (cases "n = 31") (auto simp: bit_simps bits)
  qed
qed

lemma get_leb128_leb128: "get_leb128 (leb128 v @ rest) = Some (v, rest)"
  using get_leb_loop_leb128 [of v 0 0 rest] unat_lt_u32 [of v] by (simp add: get_leb128_def)

lemma get_sleb128_sleb128: "get_sleb128 (sleb128 v @ rest) = Some (v, rest)"
  by (simp add: get_sleb128_def sleb128_def get_leb128_leb128 zigzag_inverse [simplified])

lemma leb128_nonempty: "leb128 v \<noteq> []"
  by (simp add: leb128.simps [of v])

lemma leb128_length: "unat v < 2 ^ (7 * n) \<Longrightarrow> 0 < n \<Longrightarrow> length (leb128 v) \<le> n"
proof (induction v arbitrary: n rule: leb128.induct)
  case (1 v)
  show ?case
  proof (cases "drop_bit 7 v = 0")
    case False
    have d: "unat (drop_bit 7 v) = unat v div 128" using unat_drop_bit [of 7 v] by simp
    obtain k where k: "n = Suc k" using "1.prems"(2) by (cases n) auto
    have "k \<noteq> 0"
    proof
      assume "k = 0"
      then have "unat (drop_bit 7 v) = 0" using d "1.prems"(1) k by simp
      then show False using False by (simp add: unat_eq_0)
    qed
    moreover have "unat (drop_bit 7 v) < 2 ^ (7 * k)"
      using d "1.prems"(1) by (simp add: k power_add less_mult_imp_div_less mult.commute)
    ultimately show ?thesis using "1.IH" [of k] False by (simp add: leb128.simps [of v] k)
  qed (use "1.prems" in \<open>simp add: leb128.simps [of v]\<close>)
qed

interpretation leb: codec "\<lambda>_. True" leb128 get_leb128
  by unfold_locales (simp_all add: get_leb128_leb128 leb128_nonempty)

interpretation sleb: codec "\<lambda>_. True" sleb128 get_sleb128
  by unfold_locales (rule get_sleb128_sleb128, simp add: sleb128_def leb128_nonempty)

section \<open>Writing to a buffer\<close>

text \<open>
  The contract of a sequence of writes whose single outcomes are ignored: when the error flag is
  clear at the end, it was clear before and all the data was written.
\<close>

definition emits :: "dynbuf \<Rightarrow> u8 list \<Rightarrow> mem \<Rightarrow> dynbuf \<times> mem \<Rightarrow> bool" where
  "emits s data m r \<longleftrightarrow> (case r of (s', m') \<Rightarrow>
     dbuf_wf s' \<and> length (buf s') \<le> length (buf s) + length data \<and>
     (\<not> error s' \<longrightarrow> \<not> error s \<and> buf s' = buf s @ data) \<and>
     (mem_outcomes m = [] \<and> \<not> error s \<longrightarrow> mem_outcomes m' = [] \<and> \<not> error s') \<and>
     mem_live m' - dbuf_owned s' = mem_live m - dbuf_owned s)"

lemma emits_appends: "appends s data m r \<Longrightarrow> emits s data m (snd r)"
  by (auto simp: appends_def emits_def split: prod.splits if_splits)

lemma emits_refl: "dbuf_wf s \<Longrightarrow> emits s [] m (s, m)"
  by (simp add: emits_def)

lemma emits_trans:
  assumes "emits s d1 m (s1, m1)" and "emits s1 d2 m1 r"
  shows "emits s (d1 @ d2) m r"
proof -
  obtain s2 m2 where r: "r = (s2, m2)" by (cases r)
  note 1 = assms(1) [unfolded emits_def prod.case] and 2 = assms(2) [unfolded r emits_def prod.case]
  have "buf s2 = buf s @ d1 @ d2" if "\<not> error s2"
  proof -
    have "buf s2 = buf s1 @ d2" "\<not> error s1" using 2 that by blast+
    moreover from this have "buf s1 = buf s @ d1" using 1 by blast
    ultimately show ?thesis by (simp only: append_assoc)
  qed
  moreover have "length (buf s2) \<le> length (buf s) + length (d1 @ d2)"
    using conjunct1 [OF conjunct2 [OF 1]] conjunct1 [OF conjunct2 [OF 2]] by (simp only: length_append)
  moreover have "mem_live m2 - dbuf_owned s2 = mem_live m - dbuf_owned s" using 1 2 by linarith
  moreover have "mem_outcomes m = [] \<and> \<not> error s \<longrightarrow> mem_outcomes m2 = [] \<and> \<not> error s2" using 1 2 by blast
  moreover have "\<not> error s2 \<Longrightarrow> \<not> error s" using 1 2 by blast
  ultimately show ?thesis using 2 unfolding r emits_def prod.case by blast
qed

lemma emitsD: "emits s d m (s', m') \<Longrightarrow> dbuf_wf s' \<and> length (buf s') \<le> length (buf s) + length d"
  by (simp add: emits_def)

lemma emits_data: "emits s d m (s', m') \<Longrightarrow> \<not> error s' \<Longrightarrow> buf s' = buf s @ d"
  by (simp add: emits_def)

lemma emits_ok: "emits s d m (s', m') \<Longrightarrow> mem_outcomes m = [] \<Longrightarrow> \<not> error s \<Longrightarrow> \<not> error s'"
  by (simp add: emits_def)

lemma emits_putc:
  assumes "dbuf_wf s" and "length (buf s) + 8 < 2 ^ 64"
  shows "emits s [c] m (snd (dbuf_putc s c m))"
  by (rule emits_appends) (rule dbuf_put_int_appends(1) [OF assms])

lemma dbuf_put_leb128_emits:
  "dbuf_wf s \<Longrightarrow> length (buf s) + length (leb128 v) + 8 < 2 ^ 64 \<Longrightarrow>
   emits s (leb128 v) m (dbuf_put_leb128 s v m)"
proof (induction s v m rule: dbuf_put_leb128.induct)
  case (1 s v m)
  have b: "length (buf s) + 8 < 2 ^ 64" using "1.prems"(2) by simp
  show ?case
  proof (cases "drop_bit 7 v = 0")
    case True
    then show ?thesis using emits_putc [OF "1.prems"(1) b]
      by (simp add: dbuf_put_leb128.simps [of s v] leb128.simps [of v] Let_def)
  next
    case False
    define c where "c = (ucast ((v AND 0x7f) OR 0x80) :: u8)"
    obtain ok s' m' where p: "dbuf_putc s c m = (ok, s', m')" by (cases "dbuf_putc s c m")
    have l: "leb128 v = c # leb128 (drop_bit 7 v)" using False by (simp add: leb128.simps [of v] c_def)
    have e: "emits s [c] m (s', m')" using emits_putc [OF "1.prems"(1) b, where c = c and m = m] p by simp
    have "length (buf s') + length (leb128 (drop_bit 7 v)) + 8 < 2 ^ 64"
      using emitsD [OF e] "1.prems"(2) l by simp
    then have "emits s' (leb128 (drop_bit 7 v)) m' (dbuf_put_leb128 s' (drop_bit 7 v) m')"
      using emitsD [OF e] by (intro "1.IH" [OF refl refl False, folded c_def, OF p [symmetric] refl]) auto
    moreover have "dbuf_put_leb128 s v m = dbuf_put_leb128 s' (drop_bit 7 v) m'"
      using False p by (simp add: dbuf_put_leb128.simps [of s v] Let_def c_def)
    ultimately show ?thesis using emits_trans [OF e] l by simp
  qed
qed

lemma dbuf_put_sleb128_emits:
  "dbuf_wf s \<Longrightarrow> length (buf s) + length (sleb128 v) + 8 < 2 ^ 64 \<Longrightarrow>
   emits s (sleb128 v) m (dbuf_put_sleb128 s v m)"
  using dbuf_put_leb128_emits [of s "zigzag v" m] by (simp add: dbuf_put_sleb128_def sleb128_def zigzag_def)

section \<open>The table of source positions\<close>

text \<open>
  \<open>source_loc_slots\<close>; the lines and columns are \<open>int\<close>, passed to \<open>dbuf_put_sleb128\<close> as the 32-bit word
  of their difference.
\<close>

record source_loc =
  loc_pc :: u32
  loc_line :: int
  loc_col :: int

definition PC2LINE_BASE :: int where
  "PC2LINE_BASE = - 1"

definition PC2LINE_RANGE :: int where
  "PC2LINE_RANGE = 5"

definition PC2LINE_OP_FIRST :: int where
  "PC2LINE_OP_FIRST = 1"

definition PC2LINE_DIFF_PC_MAX :: int where
  "PC2LINE_DIFF_PC_MAX = (255 - PC2LINE_OP_FIRST) div PC2LINE_RANGE"

definition is_short :: "int \<Rightarrow> int \<Rightarrow> bool" where
  "is_short diff_pc diff_line \<longleftrightarrow>
     diff_line \<ge> PC2LINE_BASE \<and> diff_line < PC2LINE_BASE + PC2LINE_RANGE \<and> diff_pc \<le> PC2LINE_DIFF_PC_MAX"

definition short_op :: "int \<Rightarrow> int \<Rightarrow> u8" where
  "short_op diff_pc diff_line = of_int (diff_line - PC2LINE_BASE + diff_pc * PC2LINE_RANGE + PC2LINE_OP_FIRST)"

definition put_entry :: "dynbuf \<Rightarrow> int \<Rightarrow> int \<Rightarrow> int \<Rightarrow> mem \<Rightarrow> dynbuf \<times> mem" where
  "put_entry s diff_pc diff_line diff_col m =
     (let (s, m) =
        (if is_short diff_pc diff_line then snd (dbuf_putc s (short_op diff_pc diff_line) m)
         else (let (s, m) = snd (dbuf_putc s 0 m);
                   (s, m) = dbuf_put_leb128 s (of_int diff_pc) m
               in dbuf_put_sleb128 s (of_int diff_line) m))
      in dbuf_put_sleb128 s (of_int diff_col) m)"

fun compute_loop :: "source_loc list \<Rightarrow> u32 \<Rightarrow> int \<Rightarrow> int \<Rightarrow> dynbuf \<Rightarrow> mem \<Rightarrow> dynbuf \<times> mem" where
  "compute_loop [] last_pc last_line last_col s m = (s, m)"
| "compute_loop (slot # slots) last_pc last_line last_col s m =
     (let diff_pc = sint (loc_pc slot - last_pc);
          diff_line = loc_line slot - last_line;
          diff_col = loc_col slot - last_col
      in if loc_line slot < 0 \<or> diff_pc < 0 \<or> diff_line = 0 \<and> diff_col = 0
         then compute_loop slots last_pc last_line last_col s m
         else (case put_entry s diff_pc diff_line diff_col m of
                 (s', m') \<Rightarrow> compute_loop slots (loc_pc slot) (loc_line slot) (loc_col slot) s' m'))"

definition compute_pc2line_info :: "source_loc list \<Rightarrow> int \<Rightarrow> int \<Rightarrow> mem \<Rightarrow> dynbuf \<times> mem" where
  "compute_pc2line_info slots line_num col_num m = compute_loop slots 0 line_num col_num dbuf_init m"

lemma get_leb_loop_shorter: "get_leb_loop n i v p = Some (x, q) \<Longrightarrow> length q < length p"
  by (induction n i v p rule: get_leb_loop.induct) (fastforce simp: Let_def split: if_splits)+

lemma get_leb128_shorter: "get_leb128 p = Some (x, q) \<Longrightarrow> length q < length p"
  "get_sleb128 p = Some (x, q) \<Longrightarrow> length q < length p"
  by (auto simp: get_leb128_def get_sleb128_def split: option.splits dest: get_leb_loop_shorter)

text \<open>\<open>find_line_num\<close>: \<open>None\<close> is the jump to \<open>fail\<close>; the loop returns the line and the column.\<close>

function find_loop :: "u8 list \<Rightarrow> u32 \<Rightarrow> int \<Rightarrow> int \<Rightarrow> u32 \<Rightarrow> (int \<times> int) option" where
  "find_loop p pc line_num col_num pc_value =
     (case p of
        [] \<Rightarrow> Some (line_num, col_num)
      | b # p1 \<Rightarrow>
        (case (if b = 0
               then (case get_leb128 p1 of
                       None \<Rightarrow> None
                     | Some (val, p2) \<Rightarrow>
                         (case get_sleb128 p2 of
                            None \<Rightarrow> None
                          | Some (v, p3) \<Rightarrow> Some (pc + val, line_num + sint v, p3)))
               else (let op = uint b - PC2LINE_OP_FIRST
                     in Some (pc + of_int (op div PC2LINE_RANGE), line_num + op mod PC2LINE_RANGE + PC2LINE_BASE, p1))) of
           None \<Rightarrow> None
         | Some (pc', new_line_num, q) \<Rightarrow>
             (case get_sleb128 q of
                None \<Rightarrow> None
              | Some (v, q') \<Rightarrow>
                  (if pc_value < pc' then Some (line_num, col_num)
                   else find_loop q' pc' new_line_num (col_num + sint v) pc_value))))"
  by auto
termination
proof (relation "measure (\<lambda>(p, pc, l, c, v). length p)", goal_cases)
  case 2
  then show ?case
    by (auto simp: Let_def dest!: get_leb128_shorter split: if_splits option.splits)
qed simp

declare find_loop.simps [simp del]

definition find_line_num :: "u8 list option \<Rightarrow> int \<Rightarrow> int \<Rightarrow> u32 \<Rightarrow> int \<times> int" where
  "find_line_num pc2line_buf line_num col_num pc_value =
     (case pc2line_buf of
        None \<Rightarrow> (line_num, 1)
      | Some p \<Rightarrow> (case find_loop p 0 line_num col_num pc_value of None \<Rightarrow> (line_num, 1) | Some r \<Rightarrow> r))"

text \<open>The bytes of an entry, and the slots that the writer keeps.\<close>

definition entry :: "int \<Rightarrow> int \<Rightarrow> int \<Rightarrow> u8 list" where
  "entry diff_pc diff_line diff_col =
     (if is_short diff_pc diff_line then [short_op diff_pc diff_line]
      else 0 # leb128 (of_int diff_pc) @ sleb128 (of_int diff_line)) @ sleb128 (of_int diff_col)"

fun kept :: "source_loc list \<Rightarrow> u32 \<Rightarrow> int \<Rightarrow> int \<Rightarrow> source_loc list" where
  "kept [] last_pc last_line last_col = []"
| "kept (slot # slots) last_pc last_line last_col =
     (if loc_line slot < 0 \<or> sint (loc_pc slot - last_pc) < 0 \<or> loc_line slot = last_line \<and> loc_col slot = last_col
      then kept slots last_pc last_line last_col
      else slot # kept slots (loc_pc slot) (loc_line slot) (loc_col slot))"

fun table :: "source_loc list \<Rightarrow> u32 \<Rightarrow> int \<Rightarrow> int \<Rightarrow> u8 list" where
  "table [] last_pc last_line last_col = []"
| "table (slot # slots) last_pc last_line last_col =
     entry (sint (loc_pc slot - last_pc)) (loc_line slot - last_line) (loc_col slot - last_col)
       @ table slots (loc_pc slot) (loc_line slot) (loc_col slot)"

lemma sint_of_int_u32: "- 2147483648 \<le> d \<Longrightarrow> d < 2147483648 \<Longrightarrow> sint (of_int d :: u32) = d"
  by (simp add: signed_of_int signed_take_bit_int_eq_self)

lemma short_op_value:
  assumes "is_short dp dl" and "0 \<le> dp"
  shows "uint (short_op dp dl) - PC2LINE_OP_FIRST = dl + 1 + dp * 5" "short_op dp dl \<noteq> 0"
    "(dl + 1 + dp * 5) div PC2LINE_RANGE = dp" "(dl + 1 + dp * 5) mod PC2LINE_RANGE + PC2LINE_BASE = dl"
proof -
  have b: "- 1 \<le> dl" "dl \<le> 3" "dp \<le> 50"
    using assms(1) by (auto simp: is_short_def PC2LINE_BASE_def PC2LINE_RANGE_def PC2LINE_DIFF_PC_MAX_def PC2LINE_OP_FIRST_def)
  then have u: "uint (short_op dp dl) = dl + 1 + dp * 5 + 1"
    using assms(2) by (simp add: short_op_def PC2LINE_BASE_def PC2LINE_RANGE_def PC2LINE_OP_FIRST_def uint_word_of_int del: of_int_add of_int_mult)
  then show "uint (short_op dp dl) - PC2LINE_OP_FIRST = dl + 1 + dp * 5" by (simp add: PC2LINE_OP_FIRST_def)
  show "short_op dp dl \<noteq> 0"
  proof
    assume "short_op dp dl = 0"
    then have "uint (short_op dp dl) = 0" by simp
    then show False using u b assms(2) by simp
  qed
  show "(dl + 1 + dp * 5) div PC2LINE_RANGE = dp" "(dl + 1 + dp * 5) mod PC2LINE_RANGE + PC2LINE_BASE = dl"
    using b by (simp_all add: PC2LINE_RANGE_def PC2LINE_BASE_def)
qed

lemma find_loop_entry:
  assumes "0 \<le> dp" "dp < 2147483648" "- 2147483648 \<le> dl" "dl < 2147483648" "- 2147483648 \<le> dc" "dc < 2147483648"
  shows "find_loop (entry dp dl dc @ rest) pc l c v =
    (if v < pc + of_int dp then Some (l, c) else find_loop rest (pc + of_int dp) (l + dl) (c + dc) v)"
proof (cases "is_short dp dl")
  case True
  note s = short_op_value [OF True assms(1)]
  have l: "l + (dl + 1 + dp * 5) mod PC2LINE_RANGE + PC2LINE_BASE = l + dl" using s(4) by simp
  have e: "entry dp dl dc @ rest = short_op dp dl # sleb128 (of_int dc) @ rest" using True by (simp add: entry_def)
  show ?thesis unfolding e
    by (subst find_loop.simps)
      (simp only: list.case s if_False Let_def l get_sleb128_sleb128 sint_of_int_u32 assms option.case prod.case)
next
  case False
  have e: "entry dp dl dc @ rest = 0 # leb128 (of_int dp) @ sleb128 (of_int dl) @ sleb128 (of_int dc) @ rest"
    using False by (simp add: entry_def)
  show ?thesis unfolding e
    by (subst find_loop.simps) (simp add: get_leb128_leb128 get_sleb128_sleb128 sint_of_int_u32 assms)
qed

definition in_int32 :: "source_loc \<Rightarrow> bool" where
  "in_int32 s \<longleftrightarrow> loc_line s < 2147483648 \<and> 0 \<le> loc_col s \<and> loc_col s < 2147483648"

lemma find_loop_table:
  "list_all in_int32 slots \<Longrightarrow> 0 \<le> l \<Longrightarrow> l < 2147483648 \<Longrightarrow> 0 \<le> c \<Longrightarrow> c < 2147483648 \<Longrightarrow>
   find_loop (table (kept slots pc l c) pc l c) pc l c v =
     Some (last ((l, c) # map (\<lambda>s. (loc_line s, loc_col s)) (takeWhile (\<lambda>s. loc_pc s \<le> v) (kept slots pc l c))))"
proof (induction slots arbitrary: pc l c)
  case Nil
  then show ?case by (subst find_loop.simps) simp
next
  case (Cons s slots)
  show ?case
  proof (cases "loc_line s < 0 \<or> sint (loc_pc s - pc) < 0 \<or> loc_line s = l \<and> loc_col s = c")
    case True
    then have "kept (s # slots) pc l c = kept slots pc l c" by simp
    then show ?thesis using Cons by simp
  next
    case False
    define rest where "rest = kept slots (loc_pc s) (loc_line s) (loc_col s)"
    have k: "kept (s # slots) pc l c = s # rest" by (simp only: kept.simps if_not_P [OF False] rest_def)
    have IH: "find_loop (table rest (loc_pc s) (loc_line s) (loc_col s)) (loc_pc s) (loc_line s) (loc_col s) v =
      Some (last ((loc_line s, loc_col s) # map (\<lambda>s. (loc_line s, loc_col s)) (takeWhile (\<lambda>s. loc_pc s \<le> v) rest)))"
      unfolding rest_def using Cons.prems False by (intro Cons.IH) (auto simp: in_int32_def)
    have pc: "pc + of_int (sint (loc_pc s - pc)) = loc_pc s" by simp
    have "find_loop (table (s # rest) pc l c) pc l c v =
      (if v < loc_pc s then Some (l, c)
       else find_loop (table rest (loc_pc s) (loc_line s) (loc_col s)) (loc_pc s) (loc_line s) (loc_col s) v)"
      unfolding table.simps
      by (subst find_loop_entry) (use Cons.prems False sint_less [of "loc_pc s - pc"] in \<open>auto simp: in_int32_def\<close>)
    then show ?thesis using IH unfolding k by (simp add: not_less leD)
  qed
qed

text \<open>What the writer puts in the buffer.\<close>

lemma entry_length: "length (entry dp dl dc) \<le> 16"
proof -
  have l: "length (leb128 v) \<le> 5" for v using unat_lt_u32 [of v] by (intro leb128_length) simp_all
  show ?thesis using l [of "of_int dp"] l [of "zigzag (of_int dl)"] l [of "zigzag (of_int dc)"]
    by (simp add: entry_def sleb128_def)
qed

lemma put_entry_emits:
  assumes "dbuf_wf s" and "length (buf s) + 32 < 2 ^ 64"
  shows "emits s (entry dp dl dc) m (put_entry s dp dl dc m)"
proof -
  have l: "length (leb128 v) \<le> 5" for v using unat_lt_u32 [of v] by (intro leb128_length) simp_all
  then have ls: "length (sleb128 v) \<le> 5" for v by (simp add: sleb128_def)
  define d where "d = (if is_short dp dl then [short_op dp dl] else 0 # leb128 (of_int dp) @ sleb128 (of_int dl))"
  define r where "r = (if is_short dp dl then snd (dbuf_putc s (short_op dp dl) m)
         else (let (s, m) = snd (dbuf_putc s 0 m); (s, m) = dbuf_put_leb128 s (of_int dp) m
               in dbuf_put_sleb128 s (of_int dl) m))"
  have r: "emits s d m r"
  proof (cases "is_short dp dl")
    case True
    then show ?thesis using emits_putc [OF assms(1), of "short_op dp dl" m] assms(2) by (simp add: r_def d_def)
  next
    case False
    obtain s1 m1 where 1: "snd (dbuf_putc s 0 m) = (s1, m1)" by (cases "snd (dbuf_putc s 0 m)")
    obtain s2 m2 where 2: "dbuf_put_leb128 s1 (of_int dp) m1 = (s2, m2)" by (cases "dbuf_put_leb128 s1 (of_int dp) m1")
    have e1: "emits s [0] m (s1, m1)" using emits_putc [OF assms(1), of 0 m] assms(2) 1 by simp
    have e2: "emits s1 (leb128 (of_int dp)) m1 (s2, m2)" unfolding 2 [symmetric]
      using emitsD [OF e1] assms(2) l [of "of_int dp"] by (intro dbuf_put_leb128_emits) auto
    have "emits s2 (sleb128 (of_int dl)) m2 (dbuf_put_sleb128 s2 (of_int dl) m2)"
      using emitsD [OF e1] emitsD [OF e2] assms(2) l [of "of_int dp"] ls [of "of_int dl"]
      by (intro dbuf_put_sleb128_emits) auto
    from emits_trans [OF e1 emits_trans [OF e2 this]] show ?thesis using False 1 2 by (simp add: r_def d_def)
  qed
  obtain s3 m3 where 3: "r = (s3, m3)" by (cases r)
  have "length d \<le> 11" using l [of "of_int dp"] ls [of "of_int dl"] by (simp add: d_def)
  then have "emits s3 (sleb128 (of_int dc)) m3 (dbuf_put_sleb128 s3 (of_int dc) m3)"
    using emitsD [OF r [unfolded 3]] assms(2) ls [of "of_int dc"] by (intro dbuf_put_sleb128_emits) auto
  from emits_trans [OF r [unfolded 3] this] show ?thesis
    using 3 unfolding put_entry_def r_def [symmetric] entry_def d_def [symmetric] by simp
qed

lemma compute_loop_emits:
  "dbuf_wf s \<Longrightarrow> length (buf s) + 32 * (length slots + 1) < 2 ^ 64 \<Longrightarrow>
   emits s (table (kept slots pc l c) pc l c) m (compute_loop slots pc l c s m)"
proof (induction slots arbitrary: pc l c s m)
  case Nil
  then show ?case by (simp add: emits_refl)
next
  case (Cons slot slots)
  have diff: "loc_line slot - l = 0 \<and> loc_col slot - c = 0 \<longleftrightarrow> loc_line slot = l \<and> loc_col slot = c" by auto
  show ?case
  proof (cases "loc_line slot < 0 \<or> sint (loc_pc slot - pc) < 0 \<or> loc_line slot = l \<and> loc_col slot = c")
    case True
    then have "kept (slot # slots) pc l c = kept slots pc l c"
      "compute_loop (slot # slots) pc l c s m = compute_loop slots pc l c s m"
      unfolding kept.simps compute_loop.simps Let_def diff by (simp_all only: if_True)
    then show ?thesis using Cons by simp
  next
    case False
    define d where "d = entry (sint (loc_pc slot - pc)) (loc_line slot - l) (loc_col slot - c)"
    obtain s' m' where p:
      "put_entry s (sint (loc_pc slot - pc)) (loc_line slot - l) (loc_col slot - c) m = (s', m')"
      by (cases "put_entry s (sint (loc_pc slot - pc)) (loc_line slot - l) (loc_col slot - c) m")
    have e: "emits s d m (s', m')" unfolding d_def p [symmetric] using Cons.prems by (intro put_entry_emits) auto
    have "length (buf s') + 32 * (length slots + 1) < 2 ^ 64"
      using emitsD [OF e] Cons.prems(2) entry_length [of "sint (loc_pc slot - pc)" "loc_line slot - l" "loc_col slot - c"]
      by (simp add: d_def)
    then have IH: "emits s' (table (kept slots (loc_pc slot) (loc_line slot) (loc_col slot)) (loc_pc slot) (loc_line slot) (loc_col slot))
        m' (compute_loop slots (loc_pc slot) (loc_line slot) (loc_col slot) s' m')"
      using emitsD [OF e] by (intro Cons.IH) auto
    have "compute_loop (slot # slots) pc l c s m = compute_loop slots (loc_pc slot) (loc_line slot) (loc_col slot) s' m'"
      unfolding compute_loop.simps Let_def diff if_not_P [OF False] p prod.case ..
    moreover have "table (kept (slot # slots) pc l c) pc l c =
        d @ table (kept slots (loc_pc slot) (loc_line slot) (loc_col slot)) (loc_pc slot) (loc_line slot) (loc_col slot)"
      unfolding kept.simps if_not_P [OF False] table.simps d_def ..
    ultimately show ?thesis using emits_trans [OF e IH] by (simp only:)
  qed
qed

text \<open>C27: the integers of the bytecode and of the line table round trip: reading what the writer appended
  gives the value back, with nothing consumed of what follows, for the unsigned and for the signed (zigzag) form.\<close>

theorem leb128_roundtrip:
  assumes "dbuf_wf s" and "length (buf s) + 16 < 2 ^ 64"
    and "dbuf_put_leb128 s v m = (s1, m1)" and "dbuf_put_sleb128 s v m = (s2, m2)"
  shows "(\<not> error s1 \<longrightarrow> get_leb128 (drop (length (buf s)) (buf s1) @ rest) = Some (v, rest))
    \<and> (\<not> error s2 \<longrightarrow> get_sleb128 (drop (length (buf s)) (buf s2) @ rest) = Some (v, rest))
    \<and> (mem_outcomes m = [] \<and> \<not> error s \<longrightarrow> \<not> error s1 \<and> \<not> error s2)"
proof -
  have l: "length (leb128 x) \<le> 5" for x using unat_lt_u32 [of x] by (intro leb128_length) simp_all
  have e: "emits s (leb128 v) m (s1, m1)" unfolding assms(3) [symmetric]
    using assms(1,2) l [of v] by (intro dbuf_put_leb128_emits) auto
  have e': "emits s (sleb128 v) m (s2, m2)" unfolding assms(4) [symmetric]
    using assms(1,2) l [of "zigzag v"] by (intro dbuf_put_sleb128_emits) (auto simp: sleb128_def)
  have d: "drop (length x) (x @ y) = y" for x y :: "u8 list" by simp
  show ?thesis
    by (intro conjI impI; (elim conjE)?)
      (simp_all only: emits_data [OF e] emits_data [OF e'] emits_ok [OF e] emits_ok [OF e'] d
        get_leb128_leb128 get_sleb128_sleb128 not_False_eq_True)
qed

theorem leb128_roundtrip_witness:
  "get_sleb128 (drop 0 (buf (fst (dbuf_put_sleb128 dbuf_init 4294966996 \<lparr>mem_outcomes = [], mem_live = 0\<rparr>))) @ [7])
     = Some (4294966996, [7])"
proof -
  let ?m = "\<lparr>mem_outcomes = [], mem_live = 0\<rparr>" and ?v = "4294966996 :: u32"
  have i: "dbuf_wf dbuf_init" "length (buf dbuf_init) + 16 < 2 ^ 64" "length (buf dbuf_init) = 0" "\<not> error dbuf_init"
    by (simp_all add: dbuf_init_def dbuf_wf_def)
  obtain s1 m1 s2 m2 where p: "dbuf_put_leb128 dbuf_init ?v ?m = (s1, m1)" "dbuf_put_sleb128 dbuf_init ?v ?m = (s2, m2)"
    by (metis prod.exhaust)
  have "\<not> error s2" "\<not> error s2 \<longrightarrow> get_sleb128 (drop 0 (buf s2) @ [7]) = Some (?v, [7])"
    using leb128_roundtrip [OF i(1,2) p, of "[7]"] i(3,4) by simp_all
  then show ?thesis unfolding p(2) fst_conv by (rule mp [rotated])
qed

text \<open>C28: looking up a bytecode position in the table that the compiler wrote gives the line and the column
  of the last source location at or before that position (or those of the function when there is none),
  among the locations the writer keeps; the table is complete unless an allocation failed, and it does not leak.\<close>

theorem find_line_num_correct:
  assumes "list_all in_int32 slots" and "32 * (length slots + 1) < 2 ^ 64"
    and "0 \<le> line" and "line < 2147483648" and "0 \<le> col" and "col < 2147483648"
    and "compute_pc2line_info slots line col m = (s, m')"
  shows "(\<not> error s \<longrightarrow> find_line_num (Some (buf s)) line col pc_value =
            last ((line, col) # map (\<lambda>s. (loc_line s, loc_col s)) (takeWhile (\<lambda>s. loc_pc s \<le> pc_value) (kept slots 0 line col))))
    \<and> (mem_outcomes m = [] \<longrightarrow> \<not> error s)
    \<and> mem_live m' = mem_live m + dbuf_owned s"
proof -
  have e: "emits dbuf_init (table (kept slots 0 line col) 0 line col) m (s, m')"
    unfolding assms(7) [symmetric] compute_pc2line_info_def
    using assms(2) by (intro compute_loop_emits) (simp_all add: dbuf_init_def dbuf_wf_def)
  have i: "buf dbuf_init = []" "\<not> error dbuf_init" "dbuf_owned dbuf_init = 0"
    by (simp_all add: dbuf_init_def dbuf_owned_def)
  have "mem_live m' - dbuf_owned s = mem_live m - dbuf_owned dbuf_init" using e by (simp add: emits_def)
  then have "mem_live m' = mem_live m + dbuf_owned s" using i(3) by linarith
  moreover have "mem_outcomes m = [] \<longrightarrow> \<not> error s" using emits_ok [OF e] i(2) by blast
  moreover have "find_loop (buf s) 0 line col pc_value =
      Some (last ((line, col) # map (\<lambda>s. (loc_line s, loc_col s)) (takeWhile (\<lambda>s. loc_pc s \<le> pc_value) (kept slots 0 line col))))"
    if "\<not> error s"
    using emits_data [OF e that] find_loop_table [OF assms(1,3-6), of 0 pc_value] unfolding i(1) by (simp only: append_Nil)
  ultimately show ?thesis unfolding find_line_num_def by (intro conjI impI) (simp_all only: option.case simp_thms)
qed

theorem find_line_num_correct_witness:
  "find_line_num (Some (buf (fst (compute_pc2line_info
      [\<lparr>loc_pc = 4, loc_line = 10, loc_col = 3\<rparr>, \<lparr>loc_pc = 9, loc_line = 12, loc_col = 1\<rparr>] 9 1 \<lparr>mem_outcomes = [], mem_live = 0\<rparr>)))) 9 1 7
     = (10, 3)"
proof -
  let ?m = "\<lparr>mem_outcomes = [], mem_live = 0\<rparr>"
  let ?slots = "[\<lparr>loc_pc = 4, loc_line = 10, loc_col = 3\<rparr>, \<lparr>loc_pc = 9, loc_line = 12, loc_col = 1\<rparr>]"
  obtain s m' where c: "compute_pc2line_info ?slots 9 1 ?m = (s, m')" by (metis prod.exhaust)
  have h: "list_all in_int32 ?slots" by (simp add: in_int32_def)
  have k: "last ((9, 1) # map (\<lambda>s. (loc_line s, loc_col s)) (takeWhile (\<lambda>s. loc_pc s \<le> 7) (kept ?slots 0 9 1))) = (10, 3)"
    by simp
  have "\<not> error s" "\<not> error s \<longrightarrow> find_line_num (Some (buf s)) 9 1 7 = (10, 3)"
    using find_line_num_correct [OF h _ _ _ _ _ c, of 7] unfolding k by simp_all
  then show ?thesis unfolding c fst_conv by (rule mp [rotated])
qed

end
