(* ===== verification/Rope.thy ===== *)
theory Rope
  imports String_Buffer
begin

text \<open>
  Strings as values in \<open>src/qjs/quickjs.c\<close>: comparison of flat strings, concatenation, and ropes
  (\<open>JSStringRope\<close>), which are rebalanced when they get too deep and made flat on demand. A rope is a
  tree of its children with the length, the width and the depth that the code caches; the release of
  blocks by reference counting is not modelled here, the outcomes of the allocations are.
\<close>

section \<open>Flat strings\<close>

text \<open>
  The callers pass no more than the units that are there. \<open>memcmp\<close> of the C library returns an \<open>int\<close> of
  unspecified size, of which only the sign is used.
\<close>

fun memcmp8 :: "u8 list \<Rightarrow> u8 list \<Rightarrow> nat \<Rightarrow> int" where
  "memcmp8 (a # src1) (b # src2) (Suc len) =
     (let c = uint a - uint b in if c \<noteq> 0 then c else memcmp8 src1 src2 len)"
| "memcmp8 _ _ _ = 0"

fun memcmp16_8 :: "u16 list \<Rightarrow> u8 list \<Rightarrow> nat \<Rightarrow> int" where
  "memcmp16_8 (a # src1) (b # src2) (Suc len) =
     (let c = uint a - uint b in if c \<noteq> 0 then c else memcmp16_8 src1 src2 len)"
| "memcmp16_8 _ _ _ = 0"

fun memcmp16 :: "u16 list \<Rightarrow> u16 list \<Rightarrow> nat \<Rightarrow> int" where
  "memcmp16 (a # src1) (b # src2) (Suc len) =
     (let c = uint a - uint b in if c \<noteq> 0 then c else memcmp16 src1 src2 len)"
| "memcmp16 _ _ _ = 0"

definition js_string_memcmp_pos :: "js_string \<Rightarrow> nat \<Rightarrow> js_string \<Rightarrow> nat \<Rightarrow> nat \<Rightarrow> int" where
  "js_string_memcmp_pos p1 pos1 p2 pos2 len =
     (case (p1, p2) of
        (Str8 a, Str8 b) \<Rightarrow> memcmp8 (drop pos1 a) (drop pos2 b) len
      | (Str8 a, Str16 b) \<Rightarrow> - memcmp16_8 (drop pos2 b) (drop pos1 a) len
      | (Str16 a, Str8 b) \<Rightarrow> memcmp16_8 (drop pos1 a) (drop pos2 b) len
      | (Str16 a, Str16 b) \<Rightarrow> memcmp16 (drop pos1 a) (drop pos2 b) len)"

definition js_string_memcmp :: "js_string \<Rightarrow> js_string \<Rightarrow> nat \<Rightarrow> int" where
  "js_string_memcmp p1 p2 len =
     (case (p1, p2) of
        (Str8 a, Str8 b) \<Rightarrow> memcmp8 a b len
      | (Str8 a, Str16 b) \<Rightarrow> - memcmp16_8 b a len
      | (Str16 a, Str8 b) \<Rightarrow> memcmp16_8 a b len
      | (Str16 a, Str16 b) \<Rightarrow> memcmp16 a b len)"

definition js_string_eq :: "js_string \<Rightarrow> js_string \<Rightarrow> bool" where
  "js_string_eq p1 p2 \<longleftrightarrow> str_len p1 = str_len p2 \<and> js_string_memcmp p1 p2 (str_len p1) = 0"

definition compare_u32 :: "nat \<Rightarrow> nat \<Rightarrow> int" where
  "compare_u32 a b = (if a < b then - 1 else if a > b then 1 else 0)"

definition js_string_compare :: "js_string \<Rightarrow> js_string \<Rightarrow> int" where
  "js_string_compare p1 p2 =
     (let res = js_string_memcmp p1 p2 (min (str_len p1) (str_len p2))
      in if res = 0 then compare_u32 (str_len p1) (str_len p2) else res)"

definition JS_ConcatString1 :: "js_string \<Rightarrow> js_string \<Rightarrow> js_string alloc" where
  "JS_ConcatString1 p1 p2 =
     (if str_len p1 + str_len p2 > JS_STRING_LEN_MAX then throw_m (RangeError ''invalid string length'')
      else bind_m js_malloc (\<lambda>_. return_m
        (case (p1, p2) of (Str8 a, Str8 b) \<Rightarrow> Str8 (a @ b) | _ \<Rightarrow> Str16 (units p1 @ units p2))))"

text \<open>\<open>in_place\<close>: nobody else refers to the first string, and its block has room for the second one.\<close>

definition JS_ConcatString2 :: "bool \<Rightarrow> js_string \<Rightarrow> js_string \<Rightarrow> js_string alloc" where
  "JS_ConcatString2 in_place p1 p2 =
     (if str_len p2 = 0 then return_m p1
      else if in_place \<and> is_wide_char p1 = is_wide_char p2
      then return_m (store_units p1 (units p2))
      else JS_ConcatString1 p1 p2)"

section \<open>Ropes\<close>

datatype str_rope = Str js_string | Rope nat bool nat str_rope str_rope

definition JS_STRING_ROPE_SHORT_LEN :: nat where
  "JS_STRING_ROPE_SHORT_LEN = 512"

definition JS_STRING_ROPE_SHORT2_LEN :: nat where
  "JS_STRING_ROPE_SHORT2_LEN = 8192"

definition JS_STRING_ROPE_MAX_DEPTH :: nat where
  "JS_STRING_ROPE_MAX_DEPTH = 60"

fun string_rope_get_len :: "str_rope \<Rightarrow> nat" where
  "string_rope_get_len (Str p) = str_len p"
| "string_rope_get_len (Rope n w d l r) = n"

fun rope_wide :: "str_rope \<Rightarrow> bool" where
  "rope_wide (Str p) = is_wide_char p"
| "rope_wide (Rope n w d l r) = w"

fun rope_depth :: "str_rope \<Rightarrow> nat" where
  "rope_depth (Str p) = 0"
| "rope_depth (Rope n w d l r) = d"

fun string_rope_get :: "str_rope \<Rightarrow> nat \<Rightarrow> u32" where
  "string_rope_get (Str p) idx = string_get p idx"
| "string_rope_get (Rope n w d l r) idx =
     (let len = string_rope_get_len l
      in if idx < len then string_rope_get l idx else string_rope_get r (idx - len))"

text \<open>The iterator is the stack of the ropes to come, the next one first.\<close>

definition string_rope_iter_init :: "str_rope \<Rightarrow> str_rope list" where
  "string_rope_iter_init val = [val]"

fun iter_descend :: "str_rope \<Rightarrow> str_rope list \<Rightarrow> js_string \<times> str_rope list" where
  "iter_descend (Str p) st = (p, st)"
| "iter_descend (Rope n w d l r) st = iter_descend l (r # st)"

fun string_rope_iter_next :: "str_rope list \<Rightarrow> js_string option \<times> str_rope list" where
  "string_rope_iter_next [] = (None, [])"
| "string_rope_iter_next (val # st) = (case iter_descend val st of (p, st) \<Rightarrow> (Some p, st))"

fun nodes :: "str_rope \<Rightarrow> nat" where
  "nodes (Str p) = 1"
| "nodes (Rope n w d l r) = 1 + nodes l + nodes r"

lemma nodes_pos: "0 < nodes v"
  by (cases v) simp_all

lemma iter_descend_nodes: "iter_descend v st = (p, st') \<Longrightarrow> sum_list (map nodes st') < nodes v + sum_list (map nodes st)"
  by (induction v st arbitrary: p st' rule: iter_descend.induct) fastforce+

definition left_in :: "js_string option \<Rightarrow> str_rope list \<Rightarrow> nat" where
  "left_in p st = of_bool (p \<noteq> None) + sum_list (map nodes st)"

lemma iter_next_left: "string_rope_iter_next st = (p', st') \<Longrightarrow> left_in p' st' < left_in (Some p) st"
  by (cases st) (auto simp: left_in_def split: prod.splits dest!: iter_descend_nodes)

text \<open>The end of a round: go past \<open>l\<close> units, and to the next string when this one is used up.\<close>

definition advance :: "js_string \<Rightarrow> nat \<Rightarrow> str_rope list \<Rightarrow> nat \<Rightarrow> js_string option \<times> nat \<times> str_rope list" where
  "advance p pos it l =
     (if pos + l \<ge> str_len p then (case string_rope_iter_next it of (p', it') \<Rightarrow> (p', 0, it'))
      else (Some p, pos + l, it))"

lemma advance_left:
  "advance q pos it l = (p', pos', it') \<Longrightarrow> left_in p' it' \<le> left_in (Some q) it
     \<and> (str_len q \<le> pos \<longrightarrow> left_in p' it' < left_in (Some q) it)"
  using iter_next_left [of it _ _ q] by (fastforce simp: advance_def split: if_splits prod.splits)

definition round_len :: "js_string \<Rightarrow> nat \<Rightarrow> js_string \<Rightarrow> nat \<Rightarrow> nat \<Rightarrow> nat" where
  "round_len p1 pos1 p2 pos2 len = min (min (str_len p1 - pos1) (str_len p2 - pos2)) len"

lemma round_len_0: "round_len p1 pos1 p2 pos2 len = 0 \<Longrightarrow> len \<noteq> 0 \<Longrightarrow> str_len p1 \<le> pos1 \<or> str_len p2 \<le> pos2"
  by (auto simp: round_len_def min_def split: if_splits)

text \<open>\<open>None\<close> is the access through a null pointer when an iterator has run out.\<close>

function compare_loop ::
    "nat \<Rightarrow> js_string option \<Rightarrow> nat \<Rightarrow> str_rope list \<Rightarrow> js_string option \<Rightarrow> nat \<Rightarrow> str_rope list \<Rightarrow> int option" where
  "compare_loop len None pos1 it1 p2 pos2 it2 = (if len = 0 then Some 0 else None)"
| "compare_loop len (Some p1) pos1 it1 None pos2 it2 = (if len = 0 then Some 0 else None)"
| "compare_loop len (Some p1) pos1 it1 (Some p2) pos2 it2 =
     (if len = 0 then Some 0
      else if js_string_memcmp_pos p1 pos1 p2 pos2 (round_len p1 pos1 p2 pos2 len) \<noteq> 0
      then Some (js_string_memcmp_pos p1 pos1 p2 pos2 (round_len p1 pos1 p2 pos2 len))
      else case advance p1 pos1 it1 (round_len p1 pos1 p2 pos2 len) of
             (p1', pos1', it1') \<Rightarrow>
               (case advance p2 pos2 it2 (round_len p1 pos1 p2 pos2 len) of
                  (p2', pos2', it2') \<Rightarrow>
                    compare_loop (len - round_len p1 pos1 p2 pos2 len) p1' pos1' it1' p2' pos2' it2'))"
  by pat_completeness auto
termination
proof (relation "measures [\<lambda>(len, p1, pos1, it1, p2, pos2, it2). len, \<lambda>(len, p1, pos1, it1, p2, pos2, it2). left_in p1 it1 + left_in p2 it2]", goal_cases)
  case (2 len p1 pos1 it1 p2 pos2 it2 p1' y pos1' it1' p2' z pos2' it2')
  define l where "l = round_len p1 pos1 p2 pos2 len"
  have a: "advance p1 pos1 it1 l = (p1', pos1', it1')" "advance p2 pos2 it2 l = (p2', pos2', it2')"
    using 2(3-6) by (simp_all only: l_def)
  note d = advance_left [OF a(1)] advance_left [OF a(2)]
  show ?case
  proof (cases "l = 0")
    case True
    then have "left_in p1' it1' + left_in p2' it2' < left_in (Some p1) it1 + left_in (Some p2) it2"
      using d round_len_0 [OF True [unfolded l_def] 2(1)] by linarith
    then show ?thesis using True by (simp add: l_def)
  qed (use 2(1) in \<open>simp add: l_def\<close>)
qed simp

declare compare_loop.simps [simp del]

definition js_string_rope_compare :: "str_rope \<Rightarrow> str_rope \<Rightarrow> bool \<Rightarrow> int option" where
  "js_string_rope_compare op1 op2 eq_only =
     (let len1 = string_rope_get_len op1; len2 = string_rope_get_len op2
      in if eq_only \<and> len1 \<noteq> len2 then Some 1
         else let (p1, it1) = string_rope_iter_next (string_rope_iter_init op1);
                  (p2, it2) = string_rope_iter_next (string_rope_iter_init op2)
              in case compare_loop (min len1 len2) p1 0 it1 p2 0 it2 of
                   None \<Rightarrow> None
                 | Some res \<Rightarrow>
                     Some (if res \<noteq> 0 then res else if len1 = len2 then 0 else if len1 < len2 then - 1 else 1))"

section \<open>Concatenation and rebalancing\<close>

definition mk_rope :: "str_rope \<Rightarrow> str_rope \<Rightarrow> str_rope" where
  "mk_rope op1 op2 = Rope (string_rope_get_len op1 + string_rope_get_len op2) (rope_wide op1 \<or> rope_wide op2)
     (max (rope_depth op1) (rope_depth op2) + 1) op1 op2"

text \<open>The Fibonacci numbers from \<open>F\<^sub>2\<close> on.\<close>

definition ROPE_N_BUCKETS :: nat where
  "ROPE_N_BUCKETS = 44"

definition rope_bucket_len :: "nat list" where
  "rope_bucket_len = [
     1, 2, 3, 5, 8, 13, 21, 34, 55, 89, 144, 233, 377, 610, 987, 1597, 2584, 4181, 6765, 10946,
     17711, 28657, 46368, 75025, 121393, 196418, 317811, 514229, 832040, 1346269, 2178309, 3524578,
     5702887, 9227465, 14930352, 24157817, 39088169, 63245986, 102334155, 165580141,
     267914296, 433494437, 701408733, 1134903170]"

text \<open>
  \<open>js_rebalance_string_rope\<close> and \<open>js_new_string_rope\<close> call each other: \<open>new_rope\<close> is the latter in the
  definitions of the former. \<open>gather\<close> is the first loop of \<open>js_rebalance_string_rope_rec\<close>, which
  concatenates the ropes of the buckets below the one of the string, and \<open>merge_up\<close> the second, which
  stores the result in the first free bucket. \<open>Undefined\<close> is an access outside the arrays.
\<close>

type_synonym buckets = "str_rope option list"

function gather :: "(str_rope \<Rightarrow> str_rope \<Rightarrow> str_rope alloc) \<Rightarrow> nat \<Rightarrow> nat \<Rightarrow> buckets \<Rightarrow> str_rope option
    \<Rightarrow> (nat \<times> buckets \<times> str_rope option) alloc" where
  "gather new_rope len i buckets a =
     (if i + 1 \<ge> ROPE_N_BUCKETS then throw_m Undefined
      else if len \<ge> rope_bucket_len ! (i + 1)
      then (case buckets ! i of
              None \<Rightarrow> gather new_rope len (i + 1) buckets a
            | Some b \<Rightarrow>
                (case a of
                   None \<Rightarrow> gather new_rope len (i + 1) (buckets[i := None]) (Some b)
                 | Some a \<Rightarrow> bind_m (new_rope b a) (\<lambda>a. gather new_rope len (i + 1) (buckets[i := None]) (Some a))))
      else return_m (i, buckets, a))"
  by auto
termination by (relation "measure (\<lambda>(new_rope, len, i, buckets, a). ROPE_N_BUCKETS - i)") auto

declare gather.simps [simp del]

function merge_up :: "(str_rope \<Rightarrow> str_rope \<Rightarrow> str_rope alloc) \<Rightarrow> nat \<Rightarrow> buckets \<Rightarrow> str_rope \<Rightarrow> buckets alloc" where
  "merge_up new_rope i buckets a =
     (if i \<ge> ROPE_N_BUCKETS then throw_m Undefined
      else case buckets ! i of
             None \<Rightarrow> return_m (buckets[i := Some a])
           | Some b \<Rightarrow> bind_m (new_rope b a) (\<lambda>a. merge_up new_rope (i + 1) (buckets[i := None]) a))"
  by auto
termination by (relation "measure (\<lambda>(new_rope, i, buckets, a). ROPE_N_BUCKETS - i)") auto

declare merge_up.simps [simp del]

fun js_rebalance_string_rope_rec :: "(str_rope \<Rightarrow> str_rope \<Rightarrow> str_rope alloc) \<Rightarrow> buckets \<Rightarrow> str_rope \<Rightarrow> buckets alloc" where
  "js_rebalance_string_rope_rec new_rope buckets (Str p) =
     (if str_len p = 0 then return_m buckets
      else bind_m (gather new_rope (str_len p) 0 buckets None)
             (\<lambda>(i, buckets, a).
                bind_m (case a of Some a \<Rightarrow> new_rope a (Str p) | None \<Rightarrow> return_m (Str p))
                  (\<lambda>a. merge_up new_rope i buckets a)))"
| "js_rebalance_string_rope_rec new_rope buckets (Rope n w d l r) =
     bind_m (js_rebalance_string_rope_rec new_rope buckets l)
       (\<lambda>buckets. js_rebalance_string_rope_rec new_rope buckets r)"

fun collect :: "(str_rope \<Rightarrow> str_rope \<Rightarrow> str_rope alloc) \<Rightarrow> buckets \<Rightarrow> str_rope option \<Rightarrow> str_rope option alloc" where
  "collect new_rope [] a = return_m a"
| "collect new_rope (None # bs) a = collect new_rope bs a"
| "collect new_rope (Some b # bs) None = collect new_rope bs (Some b)"
| "collect new_rope (Some b # bs) (Some a) = bind_m (new_rope b a) (\<lambda>a. collect new_rope bs (Some a))"

definition js_rebalance_string_rope :: "(str_rope \<Rightarrow> str_rope \<Rightarrow> str_rope alloc) \<Rightarrow> str_rope \<Rightarrow> str_rope alloc" where
  "js_rebalance_string_rope new_rope rope =
     bind_m (js_rebalance_string_rope_rec new_rope (replicate ROPE_N_BUCKETS None) rope)
       (\<lambda>buckets. bind_m (collect new_rope buckets None)
         (\<lambda>a. return_m (case a of None \<Rightarrow> Str (Str8 []) | Some a \<Rightarrow> a)))"

text \<open>The first argument bounds the nesting of the calls.\<close>

fun js_new_string_rope :: "nat \<Rightarrow> str_rope \<Rightarrow> str_rope \<Rightarrow> str_rope alloc" where
  "js_new_string_rope 0 op1 op2 = throw_m Diverges"
| "js_new_string_rope (Suc n) op1 op2 =
     (if string_rope_get_len op1 + string_rope_get_len op2 > JS_STRING_LEN_MAX
      then throw_m (InternalError ''string too long'')
      else bind_m js_malloc (\<lambda>_.
        if rope_depth (mk_rope op1 op2) > JS_STRING_ROPE_MAX_DEPTH
        then js_rebalance_string_rope (js_new_string_rope n) (mk_rope op1 op2)
        else return_m (mk_rope op1 op2)))"

text \<open>\<open>JS_ConcatString\<close>: the operands are the outcomes of the conversions to a string.\<close>

definition concat_strings :: "nat \<Rightarrow> bool \<Rightarrow> str_rope \<Rightarrow> str_rope \<Rightarrow> str_rope alloc" where
  "concat_strings n in_place op1 op2 =
     (case op2 of
        Str p2 \<Rightarrow>
          (if str_len p2 = 0 then return_m op1
           else if str_len p2 \<le> JS_STRING_ROPE_SHORT_LEN
           then (case op1 of
                   Str p1 \<Rightarrow>
                     (if str_len p1 \<le> JS_STRING_ROPE_SHORT2_LEN
                      then bind_m (JS_ConcatString2 in_place p1 p2) (\<lambda>p. return_m (Str p))
                      else js_new_string_rope n op1 op2)
                 | Rope _ _ _ left r1 \<Rightarrow>
                     (case r1 of
                        Str right \<Rightarrow>
                          (if str_len right \<le> JS_STRING_ROPE_SHORT_LEN
                           then bind_m (JS_ConcatString2 False right p2) (\<lambda>val. js_new_string_rope n left (Str val))
                           else js_new_string_rope n op1 op2)
                      | Rope _ _ _ _ _ \<Rightarrow> js_new_string_rope n op1 op2))
           else js_new_string_rope n op1 op2)
      | Rope _ _ _ l2 right \<Rightarrow>
          (case op1 of
             Str p1 \<Rightarrow>
               (if str_len p1 = 0 then return_m op2
                else case l2 of
                       Str left \<Rightarrow>
                         (if str_len left \<le> JS_STRING_ROPE_SHORT_LEN
                          then bind_m (JS_ConcatString2 in_place p1 left) (\<lambda>val. js_new_string_rope n (Str val) right)
                          else js_new_string_rope n op1 op2)
                     | Rope _ _ _ _ _ \<Rightarrow> js_new_string_rope n op1 op2)
           | Rope _ _ _ _ _ \<Rightarrow> js_new_string_rope n op1 op2))"

definition JS_ConcatString :: "nat \<Rightarrow> bool \<Rightarrow> js_error + str_rope \<Rightarrow> js_error + str_rope \<Rightarrow> str_rope alloc" where
  "JS_ConcatString n in_place op1 op2 =
     (case op1 of
        Inl e \<Rightarrow> throw_m e
      | Inr op1 \<Rightarrow> (case op2 of Inl e \<Rightarrow> throw_m e | Inr op2 \<Rightarrow> concat_strings n in_place op1 op2))"

section \<open>Flattening\<close>

fun string_buffer_concat_value :: "slack \<Rightarrow> string_buffer \<Rightarrow> str_rope \<Rightarrow> mem \<Rightarrow> sb_result" where
  "string_buffer_concat_value slack s (Str p) m =
     (if sb_error s \<noteq> None then (False, s, m) else string_buffer_concat slack s p 0 (str_len p) m)"
| "string_buffer_concat_value slack s (Rope n w d l r) m =
     (if sb_error s \<noteq> None then (False, s, m)
      else case string_buffer_concat_value slack s l m of
             (False, s, m) \<Rightarrow> (False, s, m)
           | (True, s, m) \<Rightarrow> string_buffer_concat_value slack s r m)"

text \<open>
  The flat string, and the rope after the call: \<open>shared\<close> says that its reference count is above 1.
\<close>

definition js_linearize_string_rope :: "slack \<Rightarrow> bool \<Rightarrow> str_rope \<Rightarrow> mem \<Rightarrow> (js_error + (str_rope \<times> str_rope)) \<times> mem" where
  "js_linearize_string_rope slack shared rope m =
     (case rope of
        Str p \<Rightarrow> (Inl Undefined, m)
      | Rope n w d l r \<Rightarrow>
          (if (case r of Str p \<Rightarrow> str_len p = 0 | _ \<Rightarrow> False) then (Inr (l, rope), m)
           else case string_buffer_init2 n w m of
                  (s, m) \<Rightarrow>
                    (case sb_error s of
                       Some e \<Rightarrow> (Inl e, m)
                     | None \<Rightarrow>
                         (case string_buffer_concat_value slack s rope m of
                            (False, s, m) \<Rightarrow> (Inl (case sb_error s of Some e \<Rightarrow> e | None \<Rightarrow> Undefined), m)
                          | (True, s, m) \<Rightarrow>
                              (case string_buffer_end s m of
                                 (Inl e, m) \<Rightarrow> (Inl e, m)
                               | (Inr p, m) \<Rightarrow>
                                   (Inr (Str p, if shared then Rope n w d (Str p) (Str (Str8 [])) else rope), m))))))"

section \<open>Well-formed ropes\<close>

fun runits :: "str_rope \<Rightarrow> u16 list" where
  "runits (Str p) = units p"
| "runits (Rope n w d l r) = runits l @ runits r"

text \<open>
  The cached length is right and the cached depth an upper bound; the width is only a hint for the first
  allocation of \<open>js_linearize_string_rope\<close>.
\<close>

fun rope_ok :: "str_rope \<Rightarrow> bool" where
  "rope_ok (Str p) \<longleftrightarrow> str_len p \<le> JS_STRING_LEN_MAX"
| "rope_ok (Rope n w d l r) \<longleftrightarrow> rope_ok l \<and> rope_ok r \<and> n = string_rope_get_len l + string_rope_get_len r
     \<and> n \<le> JS_STRING_LEN_MAX \<and> max (rope_depth l) (rope_depth r) < d"

definition rope_wf :: "str_rope \<Rightarrow> bool" where
  "rope_wf v \<longleftrightarrow> rope_ok v \<and> rope_depth v \<le> JS_STRING_ROPE_MAX_DEPTH"

lemma length_runits: "rope_ok v \<Longrightarrow> length (runits v) = string_rope_get_len v"
  by (induction v) (auto simp: str_len_units)

lemma rope_ok_len: "rope_ok v \<Longrightarrow> string_rope_get_len v \<le> JS_STRING_LEN_MAX"
  by (cases v) auto

lemma string_rope_get_units: "rope_ok v \<Longrightarrow> idx < string_rope_get_len v \<Longrightarrow> string_rope_get v idx = ucast (runits v ! idx)"
proof (induction v arbitrary: idx)
  case (Rope n w d l r)
  then show ?case using length_runits [of l] by (auto simp: Let_def nth_append)
qed (simp add: string_get_def)

section \<open>Comparison\<close>

text \<open>The order of the specification: by units, a proper prefix first.\<close>

fun lex_cmp :: "u16 list \<Rightarrow> u16 list \<Rightarrow> int" where
  "lex_cmp [] [] = 0"
| "lex_cmp [] (b # bs) = - 1"
| "lex_cmp (a # as) [] = 1"
| "lex_cmp (a # as) (b # bs) = (if a = b then lex_cmp as bs else uint a - uint b)"

lemma uint_eq_u16: "uint (a :: u16) = uint b \<longleftrightarrow> a = b"
  by (simp add: word_uint_eq_iff)

lemma uint_ucast_u8_u16: "uint (ucast (b :: u8) :: u16) = uint b"
  using uint_bounded [of b] by (simp add: uint_up_ucast is_up)

lemma memcmp_units:
  "memcmp8 x y n = memcmp16 (map ucast x) (map ucast y) n"
  "memcmp16_8 z y n = memcmp16 z (map ucast y) n"
  "- memcmp16_8 z y n = memcmp16 (map ucast y) z n"
proof -
  show "memcmp8 x y n = memcmp16 (map ucast x) (map ucast y) n"
    by (induction x y n rule: memcmp8.induct) (simp_all add: uint_ucast_u8_u16 Let_def)
  show "memcmp16_8 z y n = memcmp16 z (map ucast y) n"
    by (induction z y n rule: memcmp16_8.induct) (simp_all add: uint_ucast_u8_u16 Let_def)
  show "- memcmp16_8 z y n = memcmp16 (map ucast y) z n"
    by (induction z y n rule: memcmp16_8.induct) (simp_all add: uint_ucast_u8_u16 Let_def)
qed

lemma js_string_memcmp_pos_units:
  "js_string_memcmp_pos p1 pos1 p2 pos2 n = memcmp16 (drop pos1 (units p1)) (drop pos2 (units p2)) n"
  by (cases p1; cases p2)
    (simp_all add: js_string_memcmp_pos_def memcmp_units(1,3) drop_map, simp add: memcmp_units(2) flip: drop_map)

lemma js_string_memcmp_units: "js_string_memcmp p1 p2 n = memcmp16 (units p1) (units p2) n"
  by (cases p1; cases p2) (simp_all add: js_string_memcmp_def memcmp_units(1,3), simp add: memcmp_units(2))

lemma memcmp16_split:
  "l \<le> n \<Longrightarrow> memcmp16 a b n = (if memcmp16 a b l \<noteq> 0 then memcmp16 a b l else memcmp16 (drop l a) (drop l b) (n - l))"
proof (induction l arbitrary: a b n)
  case 0
  have "memcmp16 a b 0 = 0" by (cases a; cases b) simp_all
  then show ?case by simp
next
  case (Suc l)
  then obtain n' where n: "n = Suc n'" by (cases n) auto
  show ?case using Suc.IH [of n' "tl a" "tl b"] Suc.prems n by (cases a; cases b) (simp_all add: Let_def)
qed

lemma memcmp16_prefix: "n \<le> length a \<Longrightarrow> n \<le> length b \<Longrightarrow> memcmp16 (a @ x) (b @ y) n = memcmp16 a b n"
proof (induction n arbitrary: a b)
  case 0
  have "memcmp16 a b 0 = 0" for a b by (cases a; cases b) simp_all
  then show ?case by simp
next
  case (Suc n)
  then show ?case by (cases a; cases b) (simp_all add: Let_def)
qed

lemma lex_cmp_memcmp:
  "lex_cmp a b = (if memcmp16 a b (min (length a) (length b)) \<noteq> 0 then memcmp16 a b (min (length a) (length b))
     else compare_u32 (length a) (length b))"
  by (induction a b rule: lex_cmp.induct) (auto simp: Let_def compare_u32_def uint_eq_u16)

lemma lex_cmp_0: "lex_cmp a b = 0 \<longleftrightarrow> a = b"
  by (induction a b rule: lex_cmp.induct) (auto simp: uint_eq_u16)

lemma js_string_compare_units: "js_string_compare p1 p2 = lex_cmp (units p1) (units p2)"
  by (simp add: js_string_compare_def js_string_memcmp_units lex_cmp_memcmp str_len_units Let_def)

lemma js_string_eq_units: "js_string_eq p1 p2 \<longleftrightarrow> units p1 = units p2"
proof -
  have "js_string_eq p1 p2 \<longleftrightarrow> str_len p1 = str_len p2 \<and> lex_cmp (units p1) (units p2) = 0"
    by (auto simp: js_string_eq_def js_string_memcmp_units lex_cmp_memcmp str_len_units compare_u32_def)
  also have "\<dots> \<longleftrightarrow> units p1 = units p2" unfolding lex_cmp_0 by (metis str_len_units)
  finally show ?thesis .
qed

text \<open>The units that an iterator has still to give.\<close>

definition iunits :: "str_rope list \<Rightarrow> u16 list" where
  "iunits it = concat (map runits it)"

fun to_come :: "js_string option \<Rightarrow> nat \<Rightarrow> str_rope list \<Rightarrow> u16 list" where
  "to_come None pos it = []"
| "to_come (Some p) pos it = drop pos (units p) @ iunits it"

lemma iter_descend_units: "iter_descend v st = (p, st') \<Longrightarrow> units p @ iunits st' = runits v @ iunits st"
  by (induction v st arbitrary: p st' rule: iter_descend.induct) (auto simp: iunits_def)

lemma iter_next_units: "string_rope_iter_next it = (p, it') \<Longrightarrow> to_come p 0 it' = iunits it"
  by (cases it) (auto simp: iunits_def [of "[]"] iunits_def [of "_ # _"] split: prod.splits dest!: iter_descend_units, simp add: iunits_def)

lemma advance_units:
  assumes "advance p pos it l = (p', pos', it')" and "l \<le> str_len p - pos"
  shows "to_come p' pos' it' = drop l (to_come (Some p) pos it)"
proof (cases "pos + l \<ge> str_len p")
  case True
  then have "length (drop pos (units p)) = l" using assms(2) by (simp add: str_len_units)
  then show ?thesis using assms(1) True by (auto simp: advance_def split: prod.splits dest!: iter_next_units)
next
  case False
  then show ?thesis using assms(1) by (auto simp: advance_def str_len_units add.commute)
qed

lemma compare_loop_units:
  "len \<le> length (to_come p1 pos1 it1) \<Longrightarrow> len \<le> length (to_come p2 pos2 it2) \<Longrightarrow>
   compare_loop len p1 pos1 it1 p2 pos2 it2 = Some (memcmp16 (to_come p1 pos1 it1) (to_come p2 pos2 it2) len)"
proof (induction len p1 pos1 it1 p2 pos2 it2 rule: compare_loop.induct)
  case (1 len pos1 it1 p2 pos2 it2)
  then show ?case by (simp add: compare_loop.simps)
next
  case (2 len p1 pos1 it1 pos2 it2)
  then show ?case by (cases "to_come (Some p1) pos1 it1") (simp_all add: compare_loop.simps)
next
  case (3 len p1 pos1 it1 p2 pos2 it2)
  define l where "l = round_len p1 pos1 p2 pos2 len"
  let ?a = "to_come (Some p1) pos1 it1" and ?b = "to_come (Some p2) pos2 it2"
  have l: "l \<le> str_len p1 - pos1" "l \<le> str_len p2 - pos2" "l \<le> len" by (simp_all add: l_def round_len_def)
  show ?case
  proof (cases "len = 0")
    case True
    have "memcmp16 a b 0 = 0" for a b by (cases a; cases b) simp_all
    then show ?thesis using True by (simp add: compare_loop.simps)
  next
    case False
    have "memcmp16 ?a ?b l = memcmp16 (drop pos1 (units p1)) (drop pos2 (units p2)) l"
      using memcmp16_prefix [of l "drop pos1 (units p1)" "drop pos2 (units p2)"] l by (simp add: str_len_units)
    then have res: "js_string_memcmp_pos p1 pos1 p2 pos2 l = memcmp16 ?a ?b l" by (simp add: js_string_memcmp_pos_units)
    obtain p1' pos1' it1' where a1: "advance p1 pos1 it1 l = (p1', pos1', it1')" by (metis prod_cases3)
    obtain p2' pos2' it2' where a2: "advance p2 pos2 it2 l = (p2', pos2', it2')" by (metis prod_cases3)
    note u = advance_units [OF a1 l(1)] advance_units [OF a2 l(2)]
    show ?thesis
    proof (cases "memcmp16 ?a ?b l = 0")
      case eq: False
      then show ?thesis using False memcmp16_split [OF l(3), of ?a ?b] res by (simp add: compare_loop.simps flip: l_def)
    next
      case eq: True
      have ne: "\<not> js_string_memcmp_pos p1 pos1 p2 pos2 l \<noteq> 0" unfolding res using eq by simp
      have "compare_loop (len - l) p1' pos1' it1' p2' pos2' it2' = Some (memcmp16 (to_come p1' pos1' it1') (to_come p2' pos2' it2') (len - l))"
        using "3.prems" u by (intro "3.IH" [folded l_def, OF False ne a1 [symmetric] refl a2 [symmetric] refl]) simp_all
      then show ?thesis using False eq res a1 a2 u memcmp16_split [OF l(3), of ?a ?b]
        by (simp add: compare_loop.simps flip: l_def)
    qed
  qed
qed

lemma rope_compare_units:
  assumes "rope_ok op1" and "rope_ok op2"
  shows "js_string_rope_compare op1 op2 False = Some (lex_cmp (runits op1) (runits op2))"
    and "\<exists>res. js_string_rope_compare op1 op2 True = Some res \<and> (res = 0 \<longleftrightarrow> runits op1 = runits op2)"
proof -
  note len = length_runits [OF assms(1)] length_runits [OF assms(2)]
  obtain p1 it1 where 1: "string_rope_iter_next (string_rope_iter_init op1) = (p1, it1)" by (metis prod.exhaust)
  obtain p2 it2 where 2: "string_rope_iter_next (string_rope_iter_init op2) = (p2, it2)" by (metis prod.exhaust)
  have u: "to_come p1 0 it1 = runits op1" "to_come p2 0 it2 = runits op2"
    using iter_next_units [OF 1] iter_next_units [OF 2] by (simp_all add: string_rope_iter_init_def iunits_def)
  have loop: "compare_loop (min (length (runits op1)) (length (runits op2))) p1 0 it1 p2 0 it2 =
      Some (memcmp16 (runits op1) (runits op2) (min (length (runits op1)) (length (runits op2))))"
    by (subst compare_loop_units) (simp_all add: u)
  have r: "js_string_rope_compare op1 op2 eq =
      (if eq \<and> length (runits op1) \<noteq> length (runits op2) then Some 1 else Some (lex_cmp (runits op1) (runits op2)))" for eq
    unfolding js_string_rope_compare_def 1 2 prod.case len [symmetric] loop option.case Let_def
    by (auto simp: lex_cmp_memcmp compare_u32_def)
  show "js_string_rope_compare op1 op2 False = Some (lex_cmp (runits op1) (runits op2))" by (simp add: r)
  show "\<exists>res. js_string_rope_compare op1 op2 True = Some res \<and> (res = 0 \<longleftrightarrow> runits op1 = runits op2)"
    by (auto simp: r lex_cmp_0)
qed

text \<open>
  The iterator states that the walk of a rope goes through, with the value in hand on top of the stack.
  The C stack has room for \<open>JS_STRING_ROPE_MAX_DEPTH\<close> entries.
\<close>

inductive iter_reachable :: "str_rope \<Rightarrow> str_rope list \<Rightarrow> bool" for root :: str_rope where
  start: "iter_reachable root (string_rope_iter_init root)"
| push: "iter_reachable root (Rope n w d l r # st) \<Longrightarrow> iter_reachable root (l # r # st)"
| pop: "iter_reachable root (Str p # st) \<Longrightarrow> iter_reachable root st"

inductive_cases iter_reachable_cons: "iter_reachable root (v # st)"

fun stack_fits :: "nat \<Rightarrow> str_rope list \<Rightarrow> bool" where
  "stack_fits d [] \<longleftrightarrow> True"
| "stack_fits d (v # st) \<longleftrightarrow> rope_ok v \<and> rope_depth v + length st \<le> d \<and> stack_fits d st"

lemma iter_reachable_fits: "iter_reachable root st \<Longrightarrow> rope_ok root \<Longrightarrow> stack_fits (rope_depth root) st"
  by (induction rule: iter_reachable.induct) (auto simp: string_rope_iter_init_def)

lemma iter_descend_reachable:
  "iter_descend v st = (p, st') \<Longrightarrow> iter_reachable root (v # st) \<Longrightarrow> iter_reachable root (Str p # st')"
  by (induction v st arbitrary: p st' rule: iter_descend.induct) (auto intro: push)

lemma iter_next_reachable:
  "string_rope_iter_next it = (p, it') \<Longrightarrow> iter_reachable root it \<Longrightarrow> iter_reachable root it'"
  by (cases it) (auto split: prod.splits dest!: iter_descend_reachable intro: pop)

text \<open>C32: comparing two strings or ropes of any shape gives the result of comparing their units one by
  one (the equality-only form: zero exactly for equal contents); indexing a rope finds the unit of the flat
  string; the walk always ends, never reads through an iterator that has run out, and never pushes
  more entries than the iterator stack holds.\<close>

theorem js_string_rope_compare_correct:
  assumes "rope_wf op1" and "rope_wf op2"
  shows "js_string_rope_compare op1 op2 False = Some (lex_cmp (runits op1) (runits op2))
    \<and> (\<exists>res. js_string_rope_compare op1 op2 True = Some res \<and> (res = 0 \<longleftrightarrow> runits op1 = runits op2))
    \<and> js_string_compare p1 p2 = lex_cmp (units p1) (units p2) \<and> (js_string_eq p1 p2 \<longleftrightarrow> units p1 = units p2)
    \<and> (\<forall>i < string_rope_get_len op1. string_rope_get op1 i = ucast (runits op1 ! i))
    \<and> (\<forall>n w d l r st. iter_reachable op1 (Rope n w d l r # st) \<longrightarrow> length st < JS_STRING_ROPE_MAX_DEPTH)"
proof -
  have "length st < JS_STRING_ROPE_MAX_DEPTH" if "iter_reachable op1 (Rope n w d l r # st)" for n w d l r st
    using iter_reachable_fits [OF that] assms(1) by (auto simp: rope_wf_def)
  then show ?thesis
    using assms rope_compare_units [of op1 op2] string_rope_get_units [of op1] js_string_compare_units js_string_eq_units
    by (simp add: rope_wf_def)
qed

theorem js_string_rope_compare_correct_witness:
  "js_string_rope_compare (Rope 3 True 1 (Str (Str8 [65])) (Str (Str16 [0x20AC, 66]))) (Str (Str16 [65, 0x20AC])) False = Some 1"
proof -
  have "rope_wf (Rope 3 True 1 (Str (Str8 [65])) (Str (Str16 [0x20AC, 66])))" "rope_wf (Str (Str16 [65, 0x20AC]))"
    by (simp_all add: rope_wf_def JS_STRING_LEN_MAX_def JS_STRING_ROPE_MAX_DEPTH_def)
  from conjunct1 [OF js_string_rope_compare_correct [OF this]] show ?thesis by simp
qed

end
