(* ===== verification/Rope_Balance.thy ===== *)
theory Rope_Balance
  imports Rope
begin

text \<open>
  Concatenation keeps the contents and the well-formedness of strings and ropes. Rebalancing
  (\<open>js_rebalance_string_rope\<close>) is proved for any way to build a rope that meets the contract
  \<open>rope_maker\<close>, which \<open>js_new_string_rope\<close> does for every bound on the nesting.
\<close>

section \<open>Outcomes\<close>

text \<open>A value in \<open>P\<close>, an error in \<open>E\<close>, or an allocation that failed.\<close>

definition outcome :: "('a \<Rightarrow> bool) \<Rightarrow> (js_error \<Rightarrow> bool) \<Rightarrow> 'a alloc \<Rightarrow> bool" where
  "outcome P E f \<longleftrightarrow> (\<forall>m. (mem_outcomes m = [] \<longrightarrow> mem_outcomes (snd (f m)) = []) \<and>
     (case fst (f m) of Inr x \<Rightarrow> P x | Inl e \<Rightarrow> E e \<or> e = OutOfMemory \<and> mem_outcomes m \<noteq> []))"

named_theorems outcomes

lemma outcome_return [outcomes]: "P x \<Longrightarrow> outcome P E (return_m x)"
  by (simp add: outcome_def return_m_def)

lemma outcome_throw [outcomes]: "E e \<Longrightarrow> outcome P E (throw_m e)"
  by (simp add: outcome_def throw_m_def)

lemma outcome_malloc: "outcome (\<lambda>_. True) E js_malloc"
  unfolding outcome_def
proof
  fix m
  show "(mem_outcomes m = [] \<longrightarrow> mem_outcomes (snd (js_malloc m)) = []) \<and>
    (case fst (js_malloc m) of Inr x \<Rightarrow> True | Inl e \<Rightarrow> E e \<or> e = OutOfMemory \<and> mem_outcomes m \<noteq> [])"
    by (cases m rule: js_malloc_cases) simp_all
qed

lemma outcome_bind:
  assumes "outcome P E f" and "\<And>x. P x \<Longrightarrow> outcome Q E (g x)"
  shows "outcome Q E (bind_m f g)"
  unfolding outcome_def
proof
  fix m
  obtain r m1 where f: "f m = (r, m1)" by (cases "f m")
  note 1 = assms(1) [unfolded outcome_def, rule_format, of m, unfolded f]
  show "(mem_outcomes m = [] \<longrightarrow> mem_outcomes (snd (bind_m f g m)) = []) \<and>
    (case fst (bind_m f g m) of Inr x \<Rightarrow> Q x | Inl e \<Rightarrow> E e \<or> e = OutOfMemory \<and> mem_outcomes m \<noteq> [])"
  proof (cases r)
    case (Inl e)
    then show ?thesis using 1 f by (simp add: bind_m_def guard_m_def return_m_def)
  next
    case (Inr x)
    then have g: "bind_m f g m = g x m1" using f by (simp add: bind_m_def guard_m_def)
    have "P x" using 1 Inr by simp
    note 2 = assms(2) [OF this, unfolded outcome_def, rule_format, of m1]
    show ?thesis unfolding g using 1 2 Inr by (auto split: sum.splits)
  qed
qed

lemma outcome_mono:
  assumes "outcome P E f" and "\<And>x. P x \<Longrightarrow> Q x" and "\<And>e. E e \<Longrightarrow> F e"
  shows "outcome Q F f"
  using assms unfolding outcome_def by (fastforce split: sum.splits)

section \<open>Building a rope\<close>

lemma rope_wf_parts: "rope_wf a \<Longrightarrow> rope_ok a" "rope_wf a \<Longrightarrow> rope_depth a \<le> JS_STRING_ROPE_MAX_DEPTH"
  by (simp_all add: rope_wf_def)

lemma mk_rope_ok:
  "rope_ok a \<Longrightarrow> rope_ok b \<Longrightarrow> string_rope_get_len a + string_rope_get_len b \<le> JS_STRING_LEN_MAX \<Longrightarrow> rope_ok (mk_rope a b)"
  by (simp add: mk_rope_def)

lemma mk_rope_simps [simp]:
  "runits (mk_rope a b) = runits a @ runits b" "string_rope_get_len (mk_rope a b) = string_rope_get_len a + string_rope_get_len b"
  "rope_depth (mk_rope a b) = max (rope_depth a) (rope_depth b) + 1"
  by (simp_all add: mk_rope_def)

definition joins :: "str_rope \<Rightarrow> str_rope \<Rightarrow> str_rope \<Rightarrow> bool" where
  "joins a b r \<longleftrightarrow> rope_wf r \<and> runits r = runits a @ runits b \<and>
     (rope_depth (mk_rope a b) \<le> JS_STRING_ROPE_MAX_DEPTH \<longrightarrow> rope_depth r \<le> rope_depth (mk_rope a b))"

text \<open>
  The contract of \<open>new_rope\<close>: the concatenation, built directly when it is not too deep. \<open>strict\<close> says that
  only a rope that is too deep needs rebalancing and may run out of nesting.
\<close>

locale rope_maker =
  fixes new_rope :: "str_rope \<Rightarrow> str_rope \<Rightarrow> str_rope alloc" and strict :: bool
  assumes new_rope: "rope_wf a \<Longrightarrow> rope_wf b \<Longrightarrow> string_rope_get_len a + string_rope_get_len b \<le> JS_STRING_LEN_MAX \<Longrightarrow>
    outcome (joins a b) (\<lambda>e. e = Diverges \<and> (strict \<longrightarrow> rope_depth (mk_rope a b) > JS_STRING_ROPE_MAX_DEPTH)) (new_rope a b)"

section \<open>The buckets\<close>

lemma bucket_len_values: "length rope_bucket_len = 44"
  by (simp add: rope_bucket_len_def)

lemma bucket_len_step: "i + 1 < 44 \<Longrightarrow> rope_bucket_len ! i < rope_bucket_len ! (i + 1) \<and> rope_bucket_len ! (i + 1) \<le> 2 * rope_bucket_len ! i"
proof -
  have "list_all (\<lambda>i. rope_bucket_len ! i < rope_bucket_len ! (i + 1) \<and> rope_bucket_len ! (i + 1) \<le> 2 * rope_bucket_len ! i) [0..<43]"
    by (simp add: upt_rec rope_bucket_len_def)
  then show "i + 1 < 44 \<Longrightarrow> rope_bucket_len ! i < rope_bucket_len ! (i + 1) \<and> rope_bucket_len ! (i + 1) \<le> 2 * rope_bucket_len ! i"
    by (auto simp: list_all_iff)
qed

lemma bucket_len_mono: "i \<le> j \<Longrightarrow> j < 44 \<Longrightarrow> rope_bucket_len ! i \<le> rope_bucket_len ! j"
proof (induction j)
  case (Suc j)
  then show ?case using bucket_len_step [of j] by (cases "i = Suc j") auto
qed simp

lemma bucket_len_last: "rope_bucket_len ! 43 > JS_STRING_LEN_MAX" "rope_bucket_len ! 30 = 2178309"
  by (simp_all add: rope_bucket_len_def JS_STRING_LEN_MAX_def)

lemma bucket_index: "rope_bucket_len ! i \<le> n \<Longrightarrow> i < 44 \<Longrightarrow> n \<le> JS_STRING_LEN_MAX \<Longrightarrow> i < 43"
  using bucket_len_mono [of 43 i] bucket_len_last(1) by (cases "i < 43") auto

lemma bucket_index_small: "rope_bucket_len ! i \<le> n \<Longrightarrow> i < 44 \<Longrightarrow> n < 2178309 \<Longrightarrow> i < 30"
  using bucket_len_mono [of 30 i] bucket_len_last(2) by (cases "i < 30") auto

text \<open>
  The contents of the buckets, the oldest in the highest bucket; and what holds of them. \<open>small\<close> is
  that the whole contents are below 2178309 units; then the depth of a rope is at most twice the
  number of its bucket, so that no rope is too deep.
\<close>

fun ounits :: "str_rope option \<Rightarrow> u16 list" where
  "ounits None = []"
| "ounits (Some a) = runits a"

definition bunits :: "buckets \<Rightarrow> u16 list" where
  "bunits bs = concat (map ounits (rev bs))"

lemma bunits_simps [simp]: "bunits [] = []" "bunits (b # bs) = bunits bs @ ounits b" "bunits (replicate n None) = []"
  by (simp_all add: bunits_def)

definition bucket_ok :: "bool \<Rightarrow> nat \<Rightarrow> str_rope option \<Rightarrow> bool" where
  "bucket_ok small i x \<longleftrightarrow> (case x of None \<Rightarrow> True
     | Some b \<Rightarrow> rope_wf b \<and> rope_bucket_len ! i \<le> string_rope_get_len b \<and> (small \<longrightarrow> rope_depth b \<le> 2 * i))"

definition buckets_ok :: "bool \<Rightarrow> buckets \<Rightarrow> bool" where
  "buckets_ok small bs \<longleftrightarrow> length bs = 44 \<and> (\<forall>i < 44. bucket_ok small i (bs ! i))"

definition empty_below :: "nat \<Rightarrow> buckets \<Rightarrow> bool" where
  "empty_below i bs \<longleftrightarrow> (\<forall>j < i. bs ! j = None)"

lemma bunits_empty_below: "empty_below i bs \<Longrightarrow> i \<le> length bs \<Longrightarrow> bunits bs = bunits (drop i bs)"
proof (induction i arbitrary: bs)
  case (Suc i)
  then obtain b bs' where b: "bs = b # bs'" by (cases bs) auto
  then have "b = None" "empty_below i bs'" using Suc.prems(1) by (auto simp: empty_below_def)
  then show ?case using Suc b by simp
qed simp

lemma bunits_update: "i < length bs \<Longrightarrow> bunits (drop i (bs[i := x])) = bunits (drop (Suc i) bs) @ ounits x"
  by (simp flip: Cons_nth_drop_Suc)

lemma bunits_nth: "i < length bs \<Longrightarrow> bunits (drop i bs) = bunits (drop (Suc i) bs) @ ounits (bs ! i)"
  by (simp flip: Cons_nth_drop_Suc)

lemma buckets_ok_update: "buckets_ok small bs \<Longrightarrow> bucket_ok small i x \<Longrightarrow> buckets_ok small (bs[i := x])"
  by (cases "i < length bs") (auto simp: buckets_ok_def nth_list_update)

lemma buckets_okD:
  assumes "buckets_ok small bs" and "i < 44" and "bs ! i = Some b"
  shows "rope_wf b" "rope_bucket_len ! i \<le> string_rope_get_len b" "small \<longrightarrow> rope_depth b \<le> 2 * i"
proof -
  have "bucket_ok small i (bs ! i)" using assms(1,2) by (simp add: buckets_ok_def)
  then show "rope_wf b" "rope_bucket_len ! i \<le> string_rope_get_len b" "small \<longrightarrow> rope_depth b \<le> 2 * i"
    by (simp_all add: bucket_ok_def assms(3))
qed

lemma empty_below_Suc: "empty_below i bs \<Longrightarrow> bs ! i = None \<Longrightarrow> empty_below (Suc i) bs"
  "i < length bs \<Longrightarrow> empty_below i bs \<Longrightarrow> empty_below (Suc i) (bs[i := None])"
  by (auto simp: empty_below_def less_Suc_eq nth_list_update)

text \<open>The ropes that meet in one step, and what their concatenation may be.\<close>

definition fits :: "bool \<Rightarrow> nat \<Rightarrow> bool" where
  "fits small n \<longleftrightarrow> n \<le> JS_STRING_LEN_MAX \<and> (small \<longrightarrow> n < 2178309)"

lemma fits_mono: "fits small n \<Longrightarrow> k \<le> n \<Longrightarrow> fits small k"
  by (auto simp: fits_def)

context rope_maker
begin

definition may_fail :: "bool \<Rightarrow> js_error \<Rightarrow> bool" where
  "may_fail small e \<longleftrightarrow> e = Diverges \<and> (strict \<longrightarrow> \<not> small)"

lemma join_step:
  assumes "rope_wf b" and "rope_wf a" and "fits small (length (runits b) + length (runits a))"
    and "small \<longrightarrow> max (rope_depth b) (rope_depth a) + 1 \<le> k" and "small \<longrightarrow> k \<le> 60"
  shows "outcome (\<lambda>r. rope_wf r \<and> runits r = runits b @ runits a \<and> (small \<longrightarrow> rope_depth r \<le> k)) (may_fail small) (new_rope b a)"
proof -
  have l: "string_rope_get_len b + string_rope_get_len a \<le> JS_STRING_LEN_MAX"
    using assms(1-3) by (simp add: rope_wf_def fits_def length_runits)
  show ?thesis
  proof (rule outcome_mono [OF new_rope [OF assms(1,2) l]])
    fix r
    assume "joins b a r"
    then show "rope_wf r \<and> runits r = runits b @ runits a \<and> (small \<longrightarrow> rope_depth r \<le> k)"
      using assms(4,5) by (auto simp: joins_def JS_STRING_ROPE_MAX_DEPTH_def)
  next
    fix e
    assume "e = Diverges \<and> (strict \<longrightarrow> rope_depth (mk_rope b a) > JS_STRING_ROPE_MAX_DEPTH)"
    then show "may_fail small e" using assms(4,5) by (auto simp: may_fail_def JS_STRING_ROPE_MAX_DEPTH_def)
  qed
qed

definition gathered :: "bool \<Rightarrow> nat \<Rightarrow> nat \<times> buckets \<times> str_rope option \<Rightarrow> bool" where
  "gathered small len x \<longleftrightarrow> (case x of (i, bs, a) \<Rightarrow>
     i < 44 \<and> rope_bucket_len ! i \<le> len \<and> buckets_ok small bs \<and> empty_below i bs \<and>
     (\<forall>r. a = Some r \<longrightarrow> rope_wf r \<and> (small \<longrightarrow> rope_depth r + 1 \<le> 2 * i)))"

lemma gather_outcome:
  "gathered small len (i, bs, a) \<Longrightarrow> fits small (length (bunits bs @ ounits a) + len) \<Longrightarrow>
   outcome (\<lambda>(i', bs', a'). gathered small len (i', bs', a') \<and> bunits bs' @ ounits a' = bunits bs @ ounits a)
     (may_fail small) (gather new_rope len i bs a)"
proof (induction "44 - i" arbitrary: i bs a rule: less_induct)
  case less
  note g = less.prems(1) [unfolded gathered_def prod.case]
  have len: "len \<le> JS_STRING_LEN_MAX" "small \<longrightarrow> len < 2178309" using less.prems(2) by (auto simp: fits_def)
  have i: "i < 43" using bucket_index [of i len] g len(1) by blast
  have lb: "i < length bs" using g i by (simp add: buckets_ok_def)
  show ?case
  proof (cases "rope_bucket_len ! (i + 1) \<le> len")
    case False
    then show ?thesis using less.prems(1) i
      by (subst gather.simps) (simp add: ROPE_N_BUCKETS_def outcome_return)
  next
    case True
    have u: "bunits bs = bunits (drop (Suc i) bs) @ ounits (bs ! i)"
      using bunits_empty_below [of i bs] bunits_nth [OF lb] g lb by simp
    show ?thesis
    proof (cases "bs ! i")
      case None
      have "gathered small len (i + 1, bs, a)"
        using g i True None empty_below_Suc(1) [of i bs] by (auto simp: gathered_def)
      then have "outcome (\<lambda>(i', bs', a'). gathered small len (i', bs', a') \<and> bunits bs' @ ounits a' = bunits bs @ ounits a)
         (may_fail small) (gather new_rope len (i + 1) bs a)"
        using less.prems(2) i by (intro less.hyps) auto
      then show ?thesis using True None i by (subst gather.simps) (simp add: ROPE_N_BUCKETS_def)
    next
      case (Some b)
      define bs' where "bs' = bs[i := None]"
      have b: "rope_wf b" "small \<longrightarrow> rope_depth b \<le> 2 * i"
        using g i Some buckets_okD [of small bs i b] by simp_all
      have bs': "buckets_ok small bs'" "empty_below (i + 1) bs'"
        using g lb empty_below_Suc(2) [of i bs] by (simp_all add: bs'_def buckets_ok_update bucket_ok_def)
      have u': "bunits bs = bunits bs' @ runits b"
        using u Some bunits_empty_below [OF bs'(2)] lb by (simp add: bs'_def)
      have next_: "outcome (\<lambda>(i', bs'', a'). gathered small len (i', bs'', a') \<and> bunits bs'' @ ounits a' = bunits bs @ ounits a)
           (may_fail small) (gather new_rope len (i + 1) bs' (Some x))"
        if "rope_wf x" "runits x = runits b @ ounits a" "small \<longrightarrow> rope_depth x \<le> 2 * i + 1" for x
      proof -
        have "gathered small len (i + 1, bs', Some x)"
          using bs' that i True by (simp add: gathered_def)
        then have "outcome (\<lambda>(i', bs'', a'). gathered small len (i', bs'', a') \<and> bunits bs'' @ ounits a' = bunits bs' @ ounits (Some x))
           (may_fail small) (gather new_rope len (i + 1) bs' (Some x))"
          using less.prems(2) i u' that(2) by (intro less.hyps) auto
        then show ?thesis by (rule outcome_mono) (auto simp: u' that(2))
      qed
      show ?thesis
      proof (cases a)
        case None
        have "outcome (\<lambda>(i', bs'', a'). gathered small len (i', bs'', a') \<and> bunits bs'' @ ounits a' = bunits bs @ ounits a)
           (may_fail small) (gather new_rope len (i + 1) bs' (Some b))"
          using b None by (intro next_) auto
        then show ?thesis using True Some None i by (subst gather.simps) (simp add: ROPE_N_BUCKETS_def bs'_def)
      next
        case a: (Some x)
        have x: "rope_wf x" "small \<longrightarrow> rope_depth x + 1 \<le> 2 * i" using g a by auto
        have "i + 1 < 30" if small using bucket_index_small [of "i + 1" len] True i len(2) that by simp
        then have "outcome (\<lambda>r. rope_wf r \<and> runits r = runits b @ runits x \<and> (small \<longrightarrow> rope_depth r \<le> 2 * i + 1)) (may_fail small) (new_rope b x)"
          using b x by (intro join_step fits_mono [OF less.prems(2)]) (auto simp: u' a)
        then have "outcome (\<lambda>(i', bs'', a'). gathered small len (i', bs'', a') \<and> bunits bs'' @ ounits a' = bunits bs @ ounits a)
           (may_fail small) (bind_m (new_rope b x) (\<lambda>a. gather new_rope len (i + 1) bs' (Some a)))"
          by (rule outcome_bind) (rule next_, use a in auto)
        then show ?thesis using True Some a i by (subst gather.simps) (simp add: ROPE_N_BUCKETS_def bs'_def)
      qed
    qed
  qed
qed

lemma merge_up_outcome:
  "i < 44 \<Longrightarrow> rope_bucket_len ! i \<le> string_rope_get_len a \<Longrightarrow> rope_wf a \<Longrightarrow> small \<longrightarrow> rope_depth a \<le> 2 * i \<Longrightarrow>
   buckets_ok small bs \<Longrightarrow> empty_below i bs \<Longrightarrow> fits small (length (bunits bs) + length (runits a)) \<Longrightarrow>
   outcome (\<lambda>bs'. buckets_ok small bs' \<and> bunits bs' = bunits bs @ runits a) (may_fail small) (merge_up new_rope i bs a)"
proof (induction "44 - i" arbitrary: i bs a rule: less_induct)
  case less
  have la: "string_rope_get_len a = length (runits a)" using less.prems(3) by (simp add: rope_wf_def length_runits)
  have len: "string_rope_get_len a \<le> JS_STRING_LEN_MAX" "small \<longrightarrow> string_rope_get_len a < 2178309"
    using less.prems(7) by (auto simp: fits_def la)
  have i: "i < 43" using bucket_index less.prems(1,2) len(1) by blast
  have lb: "i < length bs" using less.prems(5) i by (simp add: buckets_ok_def)
  have u: "bunits bs = bunits (drop (Suc i) bs) @ ounits (bs ! i)"
    using bunits_empty_below [of i bs] bunits_nth [OF lb] less.prems(6) lb by simp
  show ?case
  proof (cases "bs ! i")
    case None
    have "bunits (bs[i := Some a]) = bunits bs @ runits a"
    proof -
      have "empty_below i (bs[i := Some a])" using less.prems(6) by (simp add: empty_below_def)
      then have "bunits (bs[i := Some a]) = bunits (drop i (bs[i := Some a]))"
        using bunits_empty_below [of i "bs[i := Some a]"] lb by simp
      then show ?thesis using u None by (simp add: bunits_update [OF lb])
    qed
    moreover have "buckets_ok small (bs[i := Some a])"
      using less.prems by (intro buckets_ok_update) (auto simp: bucket_ok_def)
    ultimately show ?thesis using None i by (subst merge_up.simps) (simp add: ROPE_N_BUCKETS_def outcome_return)
  next
    case (Some b)
    define bs' where "bs' = bs[i := None]"
    have b: "rope_wf b" "small \<longrightarrow> rope_depth b \<le> 2 * i" "rope_bucket_len ! i \<le> string_rope_get_len b"
      using less.prems(5) i Some buckets_okD [of small bs i b] by simp_all
    have lb': "string_rope_get_len b = length (runits b)" using b(1) by (simp add: rope_wf_def length_runits)
    have bs': "buckets_ok small bs'" "empty_below (i + 1) bs'"
      using less.prems lb empty_below_Suc(2) [of i bs] by (simp_all add: bs'_def buckets_ok_update bucket_ok_def)
    have u': "bunits bs = bunits bs' @ runits b"
      using u Some bunits_empty_below [OF bs'(2)] lb by (simp add: bs'_def)
    have "i < 30" if small using bucket_index_small [of i "string_rope_get_len a"] less.prems(2) i len(2) that by simp
    then have "outcome (\<lambda>r. rope_wf r \<and> runits r = runits b @ runits a \<and> (small \<longrightarrow> rope_depth r \<le> 2 * i + 1)) (may_fail small) (new_rope b a)"
      using b(1,2) less.prems(3,4) by (intro join_step fits_mono [OF less.prems(7)]) (auto simp: u')
    then have "outcome (\<lambda>bs''. buckets_ok small bs'' \<and> bunits bs'' = bunits bs @ runits a) (may_fail small)
        (bind_m (new_rope b a) (\<lambda>a. merge_up new_rope (i + 1) bs' a))"
    proof (rule outcome_bind)
      fix r
      assume r: "rope_wf r \<and> runits r = runits b @ runits a \<and> (small \<longrightarrow> rope_depth r \<le> 2 * i + 1)"
      then have "string_rope_get_len r = length (runits b) + length (runits a)"
        using length_runits [of r] by (simp add: rope_wf_def)
      then have "rope_bucket_len ! (i + 1) \<le> string_rope_get_len r"
        using bucket_len_step [of i] i b(3) less.prems(2) la lb' by linarith
      then have "outcome (\<lambda>bs''. buckets_ok small bs'' \<and> bunits bs'' = bunits bs' @ runits r) (may_fail small) (merge_up new_rope (i + 1) bs' r)"
        using r i bs' less.prems(7) u' by (intro less.hyps) (auto simp: add.assoc)
      then show "outcome (\<lambda>bs''. buckets_ok small bs'' \<and> bunits bs'' = bunits bs @ runits a) (may_fail small) (merge_up new_rope (i + 1) bs' r)"
        using r u' by simp
    qed
    then show ?thesis using Some i by (subst merge_up.simps) (simp add: ROPE_N_BUCKETS_def bs'_def)
  qed
qed

end

context rope_maker
begin

lemma rebalance_rec_outcome:
  "rope_ok v \<Longrightarrow> buckets_ok small bs \<Longrightarrow> fits small (length (bunits bs) + length (runits v)) \<Longrightarrow>
   outcome (\<lambda>bs'. buckets_ok small bs' \<and> bunits bs' = bunits bs @ runits v) (may_fail small)
     (js_rebalance_string_rope_rec new_rope bs v)"
proof (induction v arbitrary: bs)
  case (Str p)
  show ?case
  proof (cases "str_len p = 0")
    case True
    then show ?thesis using Str.prems(2) by (simp add: outcome_return flip: str_len_units)
  next
    case False
    have w: "rope_wf (Str p)" using Str.prems(1) by (simp add: rope_wf_def JS_STRING_ROPE_MAX_DEPTH_def)
    have "gathered small (str_len p) (0, bs, None)"
      using False Str.prems(2) by (simp add: gathered_def empty_below_def rope_bucket_len_def)
    then have "outcome (\<lambda>(i, bs', a). gathered small (str_len p) (i, bs', a) \<and> bunits bs' @ ounits a = bunits bs @ ounits None)
        (may_fail small) (gather new_rope (str_len p) 0 bs None)"
      using Str.prems(3) by (intro gather_outcome) (simp_all add: str_len_units)
    then have "outcome (\<lambda>bs'. buckets_ok small bs' \<and> bunits bs' = bunits bs @ runits (Str p)) (may_fail small)
      (bind_m (gather new_rope (str_len p) 0 bs None)
         (\<lambda>(i, bs, a). bind_m (case a of Some a \<Rightarrow> new_rope a (Str p) | None \<Rightarrow> return_m (Str p)) (\<lambda>a. merge_up new_rope i bs a)))"
    proof (rule outcome_bind, clarify)
      fix i bs' a
      assume g: "gathered small (str_len p) (i, bs', a)" and u: "bunits bs' @ ounits a = bunits bs @ ounits None"
      note g' = g [unfolded gathered_def prod.case]
      have i: "i < 30" if small
        using bucket_index_small [of i "str_len p"] g' that Str.prems(3) by (auto simp: fits_def str_len_units)
      have "length (bunits bs' @ ounits a) = length (bunits bs)" unfolding u by simp
      then have lu: "length (bunits bs') + length (ounits a) = length (bunits bs)" by simp
      have "outcome (\<lambda>r. rope_wf r \<and> runits r = ounits a @ units p \<and> (small \<longrightarrow> rope_depth r \<le> 2 * i)) (may_fail small)
          (case a of Some a \<Rightarrow> new_rope a (Str p) | None \<Rightarrow> return_m (Str p))"
      proof (cases a)
        case None
        then show ?thesis using w by (simp add: outcome_return)
      next
        case (Some x)
        then have "outcome (\<lambda>r. rope_wf r \<and> runits r = runits x @ runits (Str p) \<and> (small \<longrightarrow> rope_depth r \<le> 2 * i)) (may_fail small) (new_rope x (Str p))"
          using g' w i lu Some by (intro join_step fits_mono [OF Str.prems(3)]) auto
        then show ?thesis using Some by simp
      qed
      then show "outcome (\<lambda>bs'. buckets_ok small bs' \<and> bunits bs' = bunits bs @ runits (Str p)) (may_fail small)
        (bind_m (case a of Some a \<Rightarrow> new_rope a (Str p) | None \<Rightarrow> return_m (Str p)) (\<lambda>a. merge_up new_rope i bs' a))"
      proof (rule outcome_bind)
        fix r
        assume r: "rope_wf r \<and> runits r = ounits a @ units p \<and> (small \<longrightarrow> rope_depth r \<le> 2 * i)"
        then have "string_rope_get_len r = length (ounits a) + str_len p"
          using length_runits [of r] by (simp add: rope_wf_def str_len_units)
        then have "outcome (\<lambda>bs''. buckets_ok small bs'' \<and> bunits bs'' = bunits bs' @ runits r) (may_fail small) (merge_up new_rope i bs' r)"
          using r g' lu Str.prems(3) by (intro merge_up_outcome) (auto simp: add.assoc [symmetric])
        moreover have "bunits bs' @ runits r = bunits bs @ units p" using r u by (simp flip: append_assoc)
        ultimately show "outcome (\<lambda>bs''. buckets_ok small bs'' \<and> bunits bs'' = bunits bs @ runits (Str p)) (may_fail small) (merge_up new_rope i bs' r)"
          by simp
      qed
    qed
    then show ?thesis using False by simp
  qed
next
  case (Rope n w d l r)
  have "outcome (\<lambda>bs'. buckets_ok small bs' \<and> bunits bs' = bunits bs @ runits l) (may_fail small) (js_rebalance_string_rope_rec new_rope bs l)"
    using Rope.prems by (intro Rope.IH(1) fits_mono [OF Rope.prems(3)]) auto
  then have "outcome (\<lambda>bs'. buckets_ok small bs' \<and> bunits bs' = bunits bs @ runits l @ runits r) (may_fail small)
     (bind_m (js_rebalance_string_rope_rec new_rope bs l) (\<lambda>bs. js_rebalance_string_rope_rec new_rope bs r))"
  proof (rule outcome_bind)
    fix bs'
    assume b: "buckets_ok small bs' \<and> bunits bs' = bunits bs @ runits l"
    then have "outcome (\<lambda>bs''. buckets_ok small bs'' \<and> bunits bs'' = bunits bs' @ runits r) (may_fail small) (js_rebalance_string_rope_rec new_rope bs' r)"
      using Rope.prems by (intro Rope.IH(2)) (auto simp: add.assoc)
    then show "outcome (\<lambda>bs''. buckets_ok small bs'' \<and> bunits bs'' = bunits bs @ runits l @ runits r) (may_fail small) (js_rebalance_string_rope_rec new_rope bs' r)"
      using b by simp
  qed
  then show ?case by simp
qed

lemma collect_outcome:
  "buckets_ok small bs \<Longrightarrow> k \<le> 44 \<Longrightarrow> \<forall>x. a = Some x \<longrightarrow> rope_wf x \<and> (small \<longrightarrow> rope_depth x + 1 \<le> 2 * k) \<Longrightarrow>
   fits small (length (bunits (drop k bs)) + length (ounits a)) \<Longrightarrow>
   outcome (\<lambda>x. ounits x = bunits (drop k bs) @ ounits a \<and> (\<forall>r. x = Some r \<longrightarrow> rope_wf r)) (may_fail small)
     (collect new_rope (drop k bs) a)"
proof (induction "44 - k" arbitrary: k a)
  case 0
  then show ?case by (auto simp: buckets_ok_def outcome_return)
next
  case (Suc n)
  have k: "k < 44" "n = 44 - (k + 1)" using Suc.hyps(2) by auto
  have l: "k < length bs" using Suc.prems(1) k by (simp add: buckets_ok_def)
  have d: "drop k bs = bs ! k # drop (k + 1) bs" using l by (simp flip: Cons_nth_drop_Suc)
  note IH = Suc.hyps(1) [OF k(2) Suc.prems(1)]
  show ?case
  proof (cases "bs ! k")
    case None
    then have "collect new_rope (drop k bs) a = collect new_rope (drop (k + 1) bs) a" "bunits (drop k bs) = bunits (drop (k + 1) bs)"
      by (simp_all add: d)
    moreover have "\<forall>x. a = Some x \<longrightarrow> rope_wf x \<and> (small \<longrightarrow> rope_depth x + 1 \<le> 2 * (k + 1))" using Suc.prems(3) by auto
    ultimately show ?thesis using IH [of a] Suc.prems(4) k by simp
  next
    case (Some b)
    note b = buckets_okD [OF Suc.prems(1) k(1) Some]
    have u: "bunits (drop k bs) = bunits (drop (k + 1) bs) @ runits b" by (simp add: d Some)
    have next_: "outcome (\<lambda>y. ounits y = bunits (drop k bs) @ ounits a \<and> (\<forall>r. y = Some r \<longrightarrow> rope_wf r)) (may_fail small)
        (collect new_rope (drop (k + 1) bs) (Some x))"
      if "rope_wf x" "runits x = runits b @ ounits a" "small \<longrightarrow> rope_depth x \<le> 2 * k + 1" for x
      using IH [of "Some x"] that k u Suc.prems(4) by (simp add: add.assoc)
    show ?thesis
    proof (cases a)
      case None
      then have "outcome (\<lambda>y. ounits y = bunits (drop k bs) @ ounits a \<and> (\<forall>r. y = Some r \<longrightarrow> rope_wf r)) (may_fail small)
        (collect new_rope (drop (k + 1) bs) (Some b))"
        using b by (intro next_) auto
      then show ?thesis using None Some by (simp add: d)
    next
      case a: (Some x)
      have f: "fits small (length (runits b) + length (runits x))"
        using Suc.prems(4) by (rule fits_mono) (simp add: u a)
      have "string_rope_get_len b = length (runits b)" using b(1) by (simp add: rope_wf_def length_runits)
      then have "k < 30" if small
        using bucket_index_small [of k "string_rope_get_len b"] b(2) k f that by (simp add: fits_def)
      then have "outcome (\<lambda>r. rope_wf r \<and> runits r = runits b @ runits x \<and> (small \<longrightarrow> rope_depth r \<le> 2 * k + 1)) (may_fail small) (new_rope b x)"
        using b f a Suc.prems(3) by (intro join_step) auto
      then have "outcome (\<lambda>y. ounits y = bunits (drop k bs) @ ounits a \<and> (\<forall>r. y = Some r \<longrightarrow> rope_wf r)) (may_fail small)
        (bind_m (new_rope b x) (\<lambda>a. collect new_rope (drop (k + 1) bs) (Some a)))"
        by (rule outcome_bind) (rule next_, use a in auto)
      then show ?thesis using a Some by (simp add: d)
    qed
  qed
qed

lemma rebalance_outcome:
  assumes "rope_ok v" and "fits small (length (runits v))"
  shows "outcome (\<lambda>r. rope_wf r \<and> runits r = runits v) (may_fail small) (js_rebalance_string_rope new_rope v)"
proof -
  have b0: "buckets_ok small (replicate 44 None)" by (simp add: buckets_ok_def bucket_ok_def)
  have rec: "outcome (\<lambda>bs'. buckets_ok small bs' \<and> bunits bs' = bunits (replicate 44 None) @ runits v) (may_fail small)
      (js_rebalance_string_rope_rec new_rope (replicate 44 None) v)"
    using assms b0 by (intro rebalance_rec_outcome) simp_all
  show ?thesis
    unfolding js_rebalance_string_rope_def ROPE_N_BUCKETS_def
  proof (rule outcome_bind [OF rec])
    fix bs'
    assume b: "buckets_ok small bs' \<and> bunits bs' = bunits (replicate 44 None) @ runits v"
    have "outcome (\<lambda>x. ounits x = bunits (drop 0 bs') @ ounits None \<and> (\<forall>r. x = Some r \<longrightarrow> rope_wf r)) (may_fail small) (collect new_rope (drop 0 bs') None)"
      using b assms(2) by (intro collect_outcome) simp_all
    then show "outcome (\<lambda>r. rope_wf r \<and> runits r = runits v) (may_fail small)
        (bind_m (collect new_rope bs' None) (\<lambda>a. return_m (case a of None \<Rightarrow> Str (Str8 []) | Some a \<Rightarrow> a)))"
      unfolding drop_0
    proof (rule outcome_bind)
      fix x
      assume "ounits x = bunits bs' @ ounits None \<and> (\<forall>r. x = Some r \<longrightarrow> rope_wf r)"
      then show "outcome (\<lambda>r. rope_wf r \<and> runits r = runits v) (may_fail small) (return_m (case x of None \<Rightarrow> Str (Str8 []) | Some a \<Rightarrow> a))"
        using b by (intro outcome_return) (cases x, auto simp: rope_wf_def JS_STRING_ROPE_MAX_DEPTH_def)
    qed
  qed
qed

end

section \<open>\<open>js_new_string_rope\<close>\<close>

lemma new_rope_direct:
  assumes "rope_wf a" and "rope_wf b" and "string_rope_get_len a + string_rope_get_len b \<le> JS_STRING_LEN_MAX"
    and "rope_depth (mk_rope a b) \<le> JS_STRING_ROPE_MAX_DEPTH"
  shows "outcome (joins a b) E (js_new_string_rope (Suc n) a b)"
proof -
  have "joins a b (mk_rope a b)" using assms mk_rope_ok [of a b] by (simp add: joins_def rope_wf_def)
  then have "outcome (joins a b) E (bind_m js_malloc (\<lambda>_. return_m (mk_rope a b)))"
    by (intro outcome_bind [OF outcome_malloc] outcome_return)
  then show ?thesis using assms by (simp add: not_less)
qed

lemma new_rope_deep:
  assumes "rope_maker (js_new_string_rope n) strict" and "rope_wf a" and "rope_wf b"
    and "fits small (string_rope_get_len a + string_rope_get_len b)"
    and "rope_depth (mk_rope a b) > JS_STRING_ROPE_MAX_DEPTH"
  shows "outcome (joins a b) (\<lambda>e. e = Diverges \<and> (strict \<longrightarrow> \<not> small)) (js_new_string_rope (Suc n) a b)"
proof -
  have ok: "rope_ok (mk_rope a b)" using assms(2-4) by (intro mk_rope_ok) (simp_all add: rope_wf_def fits_def)
  then have "outcome (\<lambda>r. rope_wf r \<and> runits r = runits (mk_rope a b)) (rope_maker.may_fail strict small)
      (js_rebalance_string_rope (js_new_string_rope n) (mk_rope a b))"
    using assms(4) length_runits [OF ok] by (intro rope_maker.rebalance_outcome [OF assms(1)]) (simp_all del: runits.simps)
  then have "outcome (joins a b) (\<lambda>e. e = Diverges \<and> (strict \<longrightarrow> \<not> small)) (js_rebalance_string_rope (js_new_string_rope n) (mk_rope a b))"
    by (rule outcome_mono) (use assms(5) in \<open>auto simp: joins_def rope_maker.may_fail_def [OF assms(1)]\<close>)
  then have "outcome (joins a b) (\<lambda>e. e = Diverges \<and> (strict \<longrightarrow> \<not> small))
      (bind_m js_malloc (\<lambda>_. js_rebalance_string_rope (js_new_string_rope n) (mk_rope a b)))"
    by (rule outcome_bind [OF outcome_malloc])
  then show ?thesis using assms(4,5) by (simp add: fits_def)
qed

lemma new_rope_maker: "rope_maker (js_new_string_rope n) (0 < n)"
proof (induction n)
  case 0
  show ?case by unfold_locales (simp add: outcome_throw)
next
  case (Suc n)
  show ?case
  proof
    fix a b
    assume a: "rope_wf a" "rope_wf b" "string_rope_get_len a + string_rope_get_len b \<le> JS_STRING_LEN_MAX"
    show "outcome (joins a b) (\<lambda>e. e = Diverges \<and> (0 < Suc n \<longrightarrow> rope_depth (mk_rope a b) > JS_STRING_ROPE_MAX_DEPTH)) (js_new_string_rope (Suc n) a b)"
    proof (cases "rope_depth (mk_rope a b) \<le> JS_STRING_ROPE_MAX_DEPTH")
      case True
      then show ?thesis using new_rope_direct a by blast
    next
      case False
      then show ?thesis
        using new_rope_deep [OF Suc a(1,2), of False] a(3) by (intro outcome_mono [OF new_rope_deep [OF Suc a(1,2), of False]]) (auto simp: fits_def)
    qed
  qed
qed

interpretation string_rope: rope_maker "js_new_string_rope n" "0 < n" for n
  by (rule new_rope_maker)

definition concat_error :: "nat \<Rightarrow> js_error \<Rightarrow> bool" where
  "concat_error len e \<longleftrightarrow>
     (e = RangeError ''invalid string length'' \<or> e = InternalError ''string too long'') \<and> len > JS_STRING_LEN_MAX
     \<or> e = Diverges \<and> len \<ge> 2178309"

lemma new_string_rope_outcome:
  assumes "rope_wf a" and "rope_wf b"
  shows "outcome (\<lambda>r. rope_wf r \<and> runits r = runits a @ runits b) (concat_error (length (runits a) + length (runits b)))
    (js_new_string_rope (Suc (Suc n)) a b)"
proof -
  have l: "string_rope_get_len a = length (runits a)" "string_rope_get_len b = length (runits b)"
    using assms by (simp_all add: rope_wf_def length_runits)
  show ?thesis
  proof (cases "length (runits a) + length (runits b) \<le> JS_STRING_LEN_MAX")
    case False
    then show ?thesis using l by (simp add: outcome_throw concat_error_def)
  next
    case True
    define small where "small \<longleftrightarrow> length (runits a) + length (runits b) < 2178309"
    have f: "fits small (string_rope_get_len a + string_rope_get_len b)" using True by (simp add: fits_def small_def l)
    show ?thesis
    proof (cases "rope_depth (mk_rope a b) \<le> JS_STRING_ROPE_MAX_DEPTH")
      case direct: True
      show ?thesis
        by (rule outcome_mono [OF new_rope_direct [OF assms _ direct]]) (use True l in \<open>auto simp: joins_def\<close>)
    next
      case False
      then have "outcome (joins a b) (\<lambda>e. e = Diverges \<and> (0 < Suc n \<longrightarrow> \<not> small)) (js_new_string_rope (Suc (Suc n)) a b)"
        by (intro new_rope_deep [OF new_rope_maker assms f]) simp
      then show ?thesis by (rule outcome_mono) (auto simp: joins_def concat_error_def small_def)
    qed
  qed
qed

declare js_new_string_rope.simps [simp del]

section \<open>\<open>JS_ConcatString\<close>\<close>

definition too_long :: "nat \<Rightarrow> js_error \<Rightarrow> bool" where
  "too_long len e \<longleftrightarrow> e = RangeError ''invalid string length'' \<and> len > JS_STRING_LEN_MAX"

lemma ConcatString1_outcome:
  "outcome (\<lambda>p. units p = units p1 @ units p2) (too_long (str_len p1 + str_len p2)) (JS_ConcatString1 p1 p2)"
  unfolding JS_ConcatString1_def
  by (cases p1; cases p2) (auto simp: too_long_def intro!: outcome_throw outcome_bind [OF outcome_malloc] outcome_return)

lemma store_units_same_width:
  assumes "is_wide_char p1 = is_wide_char p2"
  shows "units (store_units p1 (units p2)) = units p1 @ units p2"
proof (cases p1)
  case (Str8 a)
  then obtain b where b: "p2 = Str8 b" using assms by (cases p2) auto
  have "(ucast (ucast x :: u16) :: u8) = x" for x :: u8 by (rule bit_word_eqI) (auto simp: bit_simps)
  then show ?thesis using Str8 b by simp
qed simp

lemma ConcatString2_outcome:
  "outcome (\<lambda>p. units p = units p1 @ units p2) (too_long (str_len p1 + str_len p2)) (JS_ConcatString2 in_place p1 p2)"
proof -
  have "units p2 = []" if "str_len p2 = 0" using that by (simp flip: str_len_units)
  then show ?thesis using ConcatString1_outcome [of p1 p2] store_units_same_width [of p1 p2]
    by (auto simp: JS_ConcatString2_def intro!: outcome_return)
qed

lemma concat_short:
  assumes "str_len p1 + str_len p2 \<le> JS_STRING_LEN_MAX"
  shows "outcome (\<lambda>p. units p = units p1 @ units p2 \<and> rope_wf (Str p)) (\<lambda>_. False) (JS_ConcatString2 in_place p1 p2)"
proof (rule outcome_mono [OF ConcatString2_outcome])
  fix p
  assume u: "units p = units p1 @ units p2"
  then have "str_len p = str_len p1 + str_len p2" by (metis length_append str_len_units)
  then show "units p = units p1 @ units p2 \<and> rope_wf (Str p)" using u assms by (simp add: rope_wf_def JS_STRING_ROPE_MAX_DEPTH_def)
qed (use assms in \<open>simp add: too_long_def\<close>)

lemma rope_wf_children: "rope_wf (Rope n w d l r) \<Longrightarrow> rope_wf l \<and> rope_wf r"
  by (auto simp: rope_wf_def)

lemma concat_strings_outcome:
  assumes a: "rope_wf a" and b: "rope_wf b"
  shows "outcome (\<lambda>r. rope_wf r \<and> runits r = runits a @ runits b) (concat_error (length (runits a) + length (runits b)))
    (concat_strings (Suc (Suc n)) in_place a b)"
    (is "outcome ?P ?E _")
proof -
  note new = new_string_rope_outcome [OF a b, of n]
  have joined: "outcome ?P ?E (bind_m (JS_ConcatString2 ip p q) (\<lambda>p. js_new_string_rope (Suc (Suc n)) l (Str p)))"
    if "str_len p + str_len q \<le> JS_STRING_LEN_MAX" "rope_wf l" "runits a @ runits b = runits l @ units p @ units q" for ip p q l
  proof (rule outcome_bind [OF outcome_mono [OF concat_short [OF that(1)]]])
    fix x
    assume x: "units x = units p @ units q \<and> rope_wf (Str x)"
    have "length (runits l) + length (runits (Str x)) = length (runits a) + length (runits b)"
      using arg_cong [OF that(3), of length] x by simp
    then show "outcome ?P ?E (js_new_string_rope (Suc (Suc n)) l (Str x))"
      using new_string_rope_outcome [OF that(2), of "Str x" n] x that(3) by simp
  qed auto
  show ?thesis
  proof (cases b)
    case (Str p2)
    show ?thesis
    proof (cases "str_len p2 = 0 \<or> str_len p2 > JS_STRING_ROPE_SHORT_LEN")
      case True
      have "str_len p2 = 0 \<Longrightarrow> units p2 = []" by (simp flip: str_len_units)
      then show ?thesis using True Str a new by (auto simp: concat_strings_def intro!: outcome_return)
    next
      case short: False
      show ?thesis
      proof (cases a)
        case (Str p1)
        have "outcome ?P ?E (bind_m (JS_ConcatString2 in_place p1 p2) (\<lambda>p. return_m (Str p)))"
          if "str_len p1 \<le> JS_STRING_ROPE_SHORT2_LEN"
        proof (rule outcome_bind [OF outcome_mono [OF concat_short]])
          show "str_len p1 + str_len p2 \<le> JS_STRING_LEN_MAX"
            using that short by (simp add: JS_STRING_ROPE_SHORT2_LEN_def JS_STRING_ROPE_SHORT_LEN_def JS_STRING_LEN_MAX_def)
        qed (use Str \<open>b = Str p2\<close> in \<open>auto intro!: outcome_return\<close>)
        then show ?thesis using short Str \<open>b = Str p2\<close> new by (simp add: concat_strings_def)
      next
        case (Rope k w d l r)
        show ?thesis
        proof (cases r)
          case (Str right)
          have "outcome ?P ?E (bind_m (JS_ConcatString2 False right p2) (\<lambda>val. js_new_string_rope (Suc (Suc n)) l (Str val)))"
            if "str_len right \<le> JS_STRING_ROPE_SHORT_LEN"
            using that short a Rope rope_wf_children [of k w d l r] Str \<open>b = Str p2\<close>
            by (intro joined) (simp_all add: JS_STRING_ROPE_SHORT_LEN_def JS_STRING_LEN_MAX_def)
          then show ?thesis using short Rope Str \<open>b = Str p2\<close> new by (simp add: concat_strings_def)
        qed (use short Rope \<open>b = Str p2\<close> new in \<open>simp add: concat_strings_def\<close>)
      qed
    qed
  next
    case (Rope k w d l r)
    show ?thesis
    proof (cases a)
      case (Str p1)
      have e: "str_len p1 = 0 \<Longrightarrow> units p1 = []" by (simp flip: str_len_units)
      show ?thesis
      proof (cases l)
        case left: (Str q)
        have "outcome ?P ?E (bind_m (JS_ConcatString2 in_place p1 q) (\<lambda>val. js_new_string_rope (Suc (Suc n)) (Str val) r))"
        proof (rule outcome_bind [OF outcome_mono [OF ConcatString2_outcome]])
          fix x
          assume x: "units x = units p1 @ units q"
          have len: "length (runits a) + length (runits b) = str_len x + length (runits r)"
            using Str left Rope arg_cong [OF x, of length] by (simp add: str_len_units)
          have r: "rope_wf r" using b Rope rope_wf_children by blast
          then have rl: "string_rope_get_len r = length (runits r)" by (simp add: rope_wf_def length_runits)
          show "outcome ?P ?E (js_new_string_rope (Suc (Suc n)) (Str x) r)"
          proof (cases "str_len x \<le> JS_STRING_LEN_MAX")
            case True
            then have "rope_wf (Str x)" by (simp add: rope_wf_def JS_STRING_ROPE_MAX_DEPTH_def)
            from new_string_rope_outcome [OF this r, of n]
            have "outcome (\<lambda>v. rope_wf v \<and> runits v = units x @ runits r) (concat_error (str_len x + length (runits r)))
              (js_new_string_rope (Suc (Suc n)) (Str x) r)" by (simp only: runits.simps str_len_units)
            moreover have "runits a @ runits b = units x @ runits r" using Str left Rope x by simp
            ultimately show ?thesis unfolding len by simp
          next
            case False
            then show ?thesis using len rl by (simp add: js_new_string_rope.simps outcome_throw concat_error_def)
          qed
        next
          fix e
          assume "too_long (str_len p1 + str_len q) e"
          then show "?E e" using Str left Rope by (auto simp: too_long_def concat_error_def str_len_units)
        qed
        then show ?thesis using Str Rope left e b new by (auto simp: concat_strings_def intro!: outcome_return)
      qed (use Str Rope e b new in \<open>auto simp: concat_strings_def intro!: outcome_return\<close>)
    qed (use Rope new in \<open>simp add: concat_strings_def\<close>)
  qed
qed

section \<open>Flattening\<close>

lemma puts_error: "sb_wf s \<Longrightarrow> sb_error s \<noteq> None \<Longrightarrow> puts s us m (False, s, m)"
  by (auto simp: puts_def sb_step_def)

lemma concat_value_puts:
  "sb_wf s \<Longrightarrow> sb_len s + length (runits v) \<le> INT_MAX \<Longrightarrow> puts s (runits v) m (string_buffer_concat_value slack s v m)"
proof (induction v arbitrary: s m)
  case (Str p)
  then have "\<not> concat_bad s p 0 (str_len p)" by (simp add: concat_bad_def str_len_units)
  then show ?case using concat_puts [OF Str(1), of p 0 "str_len p" m slack] puts_error [OF Str(1)]
    by (auto simp flip: str_len_units)
next
  case (Rope n w d l r)
  show ?case
  proof (cases "sb_error s")
    case None
    have "puts s (runits l @ runits r) m (case string_buffer_concat_value slack s l m of
        (False, s, m) \<Rightarrow> (False, s, m) | (True, s, m) \<Rightarrow> string_buffer_concat_value slack s r m)"
    proof (rule puts_bind)
      show l: "puts s (runits l) m (string_buffer_concat_value slack s l m)" using Rope.prems by (intro Rope.IH(1)) simp_all
      fix s1 m1
      assume e: "string_buffer_concat_value slack s l m = (True, s1, m1)" and w: "sb_wf s1"
      have "sb_len s1 \<le> sb_len s + length (runits l)"
        using l e wf_error_empty [OF w] by (cases "sb_error s1") (auto simp: puts_def simp flip: str_len_units)
      then show "puts s1 (runits r) m1 (string_buffer_concat_value slack s1 r m1)" using Rope.prems w by (intro Rope.IH(2)) simp_all
    qed
    then show ?thesis using None by simp
  qed (use puts_error [OF Rope.prems(1)] in simp)
qed

lemma linearize_outcome:
  assumes "rope_wf (Rope n w d l r)" and "js_linearize_string_rope slack shared (Rope n w d l r) m = (res, m')"
  shows "case res of
      Inl e \<Rightarrow> e = OutOfMemory \<and> mem_outcomes m \<noteq> []
    | Inr (v, rope') \<Rightarrow> runits v = runits l @ runits r \<and> runits rope' = runits l @ runits r \<and> rope_wf rope'
        \<and> ((\<exists>p. v = Str p) \<or> runits r = [])"
proof (cases "case r of Str p \<Rightarrow> str_len p = 0 | _ \<Rightarrow> False")
  case True
  then obtain p where "r = Str p" "units p = []" by (cases r) (auto simp flip: str_len_units)
  then show ?thesis using assms True by (auto simp: js_linearize_string_rope_def)
next
  case False
  have ok: "rope_ok (Rope n w d l r)" using assms(1) by (rule rope_wf_parts)
  have len: "length (runits l @ runits r) = n" "n \<le> JS_STRING_LEN_MAX" using length_runits [OF ok] ok by simp_all
  obtain s m1 where i: "string_buffer_init2 n w m = (s, m1)" by (metis prod.exhaust)
  note i' = init_wf [OF i]
  show ?thesis
  proof (cases "sb_error s")
    case (Some e)
    then show ?thesis using assms(2) False i i'(4) by (auto simp: js_linearize_string_rope_def)
  next
    case None
    obtain okay s' m2 where c: "string_buffer_concat_value slack s (Rope n w d l r) m1 = (okay, s', m2)" by (metis prod_cases3)
    have p: "puts s (runits l @ runits r) m1 (okay, s', m2)" using concat_value_puts [OF i'(1) [OF len(2)], of "Rope n w d l r" m1 slack] c i'(6) len by (simp add: INT_MAX_def JS_STRING_LEN_MAX_def)
    have e: "sb_error s' = Some e \<Longrightarrow> e = OutOfMemory \<and> mem_outcomes m \<noteq> []" for e
      using p None i'(3,6) len by (auto simp: puts_def sb_step_def sb_reason_def)
    have u: "sb_error s' = None \<Longrightarrow> units (sb_str s') = runits l @ runits r" using p i'(5) by (simp add: puts_def)
    have ne: "\<not> okay \<Longrightarrow> sb_error s' \<noteq> None" using p by (auto simp: puts_def sb_step_def)
    obtain res2 m3 where f: "string_buffer_end s' m2 = (res2, m3)" by (metis prod.exhaust)
    note v = end_value [OF puts_wf [OF p] f]
    show ?thesis
    proof (cases okay)
      case False': False
      then show ?thesis using assms(2) False i None c ne e by (auto simp: js_linearize_string_rope_def)
    next
      case True
      show ?thesis
      proof (cases res2)
        case (Inl e')
        then show ?thesis using assms(2) False i None c f True v e by (auto simp: js_linearize_string_rope_def)
      next
        case (Inr q)
        have q: "units q = runits l @ runits r" using v u Inr by simp
        have "str_len q = n" using q len by (simp flip: str_len_units)
        then have "rope_wf (Rope n w d (Str q) (Str (Str8 [])))" using assms(1) len by (auto simp: rope_wf_def)
        then show ?thesis using assms False i None c f True Inr q by (auto simp: js_linearize_string_rope_def split: if_splits)
      qed
    qed
  qed
qed

text \<open>C33: concatenating two strings or ropes gives a well-formed value with the units of both, whichever way it
  is built (flat, as a rope, by extending a child of a rope, or rebalanced). It fails only when an allocation
  fails, when the result is too long, or when rebalancing nests without end, which needs at least 2178309
  units; no access is outside the buckets. Flattening a rope keeps its units and leaves it well-formed.\<close>

theorem JS_ConcatString_correct:
  assumes "rope_wf a" and "rope_wf b" and "rope_wf (Rope n w d l r)"
    and "js_linearize_string_rope slack shared (Rope n w d l r) m = (res, m')"
  shows "outcome (\<lambda>v. rope_wf v \<and> runits v = runits a @ runits b) (concat_error (length (runits a) + length (runits b)))
      (JS_ConcatString (Suc (Suc k)) in_place (Inr a) (Inr b))
    \<and> (case res of
         Inl e \<Rightarrow> e = OutOfMemory \<and> mem_outcomes m \<noteq> []
       | Inr (v, rope') \<Rightarrow> runits v = runits l @ runits r \<and> runits rope' = runits l @ runits r \<and> rope_wf rope'
           \<and> ((\<exists>p. v = Str p) \<or> runits r = []))"
  using concat_strings_outcome [OF assms(1,2)] linearize_outcome [OF assms(3,4)] by (simp add: JS_ConcatString_def)

theorem JS_ConcatString_correct_witness:
  "outcome (\<lambda>v. rope_wf v \<and> runits v = [65, 0x20AC]) (concat_error (Suc (Suc 0)))
    (JS_ConcatString (Suc (Suc 0)) True (Inr (Str (Str8 [65]))) (Inr (Str (Str16 [0x20AC]))))"
proof -
  define m where "m = \<lparr>mem_outcomes = [], mem_live = 0\<rparr>"
  have w: "rope_wf (Str (Str8 [65]))" "rope_wf (Str (Str16 [0x20AC]))" "rope_wf (Rope 1 False 1 (Str (Str8 [65])) (Str (Str8 [])))"
    by (simp_all add: rope_wf_def JS_STRING_LEN_MAX_def JS_STRING_ROPE_MAX_DEPTH_def)
  obtain res m' where l: "js_linearize_string_rope (\<lambda>_. 0) False (Rope 1 False 1 (Str (Str8 [65])) (Str (Str8 []))) m = (res, m')"
    by (metis prod.exhaust)
  from conjunct1 [OF JS_ConcatString_correct [OF w l, of 0 True]] show ?thesis by simp
qed

section \<open>Nesting without end\<close>

text \<open>
  What an operation does when every allocation succeeds: it returns \<open>x\<close> or runs out of nesting
  (\<open>goes\<close>); or it always runs out of nesting (\<open>stuck\<close>).
\<close>

definition goes :: "'a alloc \<Rightarrow> 'a \<Rightarrow> bool" where
  "goes f x \<longleftrightarrow> (\<forall>m. mem_outcomes m = [] \<longrightarrow>
     (\<exists>m'. mem_outcomes m' = [] \<and> (f m = (Inr x, m') \<or> f m = (Inl Diverges, m'))))"

definition stuck :: "'a alloc \<Rightarrow> bool" where
  "stuck f \<longleftrightarrow> (\<forall>m. mem_outcomes m = [] \<longrightarrow> fst (f m) = Inl Diverges)"

lemma goes_return: "goes (return_m x) x"
  by (simp add: goes_def return_m_def)

lemma goes_malloc: "goes js_malloc x"
  by (auto simp: goes_def js_malloc_def)

lemma goesE:
  assumes "goes f x" and "mem_outcomes m = []"
  obtains (ok) m' where "mem_outcomes m' = []" "f m = (Inr x, m')"
  | (out) m' where "mem_outcomes m' = []" "f m = (Inl Diverges, m')"
  using assms unfolding goes_def by blast

lemma bind_m_simps: "f m = (Inr x, m') \<Longrightarrow> bind_m f g m = g x m'" "f m = (Inl e, m') \<Longrightarrow> bind_m f g m = (Inl e, m')"
  by (simp_all add: bind_m_def guard_m_def return_m_def)

lemma goes_bind:
  assumes "goes f x" and "goes (g x) y"
  shows "goes (bind_m f g) y"
  unfolding goes_def
proof (intro allI impI)
  fix m :: mem assume "mem_outcomes m = []"
  with assms(1) show "\<exists>m'. mem_outcomes m' = [] \<and> (bind_m f g m = (Inr y, m') \<or> bind_m f g m = (Inl Diverges, m'))"
  proof (cases rule: goesE)
    case (ok m')
    from assms(2) ok(1) show ?thesis
    proof (cases rule: goesE)
      case ok': (ok m'')
      then show ?thesis using bind_m_simps(1) [where f = f and g = g, OF ok(2)] by (intro exI [of _ m'']) simp
    next
      case (out m'')
      then show ?thesis using bind_m_simps(1) [where f = f and g = g, OF ok(2)] by (intro exI [of _ m'']) simp
    qed
  next
    case (out m')
    then show ?thesis using bind_m_simps(2) [where f = f and g = g, OF out(2)] by (intro exI [of _ m']) simp
  qed
qed

lemma stuck_bind:
  assumes "goes f x" and "stuck (g x)"
  shows "stuck (bind_m f g)"
  unfolding stuck_def
proof (intro allI impI)
  fix m :: mem assume "mem_outcomes m = []"
  with assms(1) show "fst (bind_m f g m) = Inl Diverges"
  proof (cases rule: goesE)
    case (ok m')
    then show ?thesis using assms(2) bind_m_simps(1) [where f = f and g = g, OF ok(2)] by (simp add: stuck_def)
  next
    case (out m')
    then show ?thesis using bind_m_simps(2) [where f = f and g = g, OF out(2)] by simp
  qed
qed

lemma goes_new_rope:
  assumes "string_rope_get_len a + string_rope_get_len b \<le> JS_STRING_LEN_MAX" and "max (rope_depth a) (rope_depth b) < JS_STRING_ROPE_MAX_DEPTH"
  shows "goes (js_new_string_rope n a b) (mk_rope a b)"
proof (cases n)
  case 0
  then show ?thesis by (simp add: js_new_string_rope.simps goes_def throw_m_def)
next
  case (Suc k)
  have "goes (bind_m js_malloc (\<lambda>_. return_m (mk_rope a b))) (mk_rope a b)" by (intro goes_bind goes_malloc goes_return)
  moreover have "\<not> rope_depth (mk_rope a b) > JS_STRING_ROPE_MAX_DEPTH" using assms(2) by (auto simp: max_def split: if_splits)
  ultimately show ?thesis using assms(1) Suc by (simp add: js_new_string_rope.simps del: mk_rope_simps)
qed

text \<open>
  A well-formed rope of 61 strings: a string of two units, then a single unit and a string of the length
  of the next bucket, thirty times. Rebalancing builds the same tree again.
\<close>

definition xs_string :: "nat \<Rightarrow> str_rope" where
  "xs_string n = Str (Str8 (replicate n 120))"

primrec tower :: "nat \<Rightarrow> str_rope" where
  "tower 0 = xs_string 2"
| "tower (Suc k) = mk_rope (mk_rope (tower k) (xs_string 1)) (xs_string (rope_bucket_len ! (k + 2)))"

lemma xs_string_simps [simp]: "string_rope_get_len (xs_string n) = n" "rope_depth (xs_string n) = 0"
  "rope_ok (xs_string n) \<longleftrightarrow> n \<le> JS_STRING_LEN_MAX"
  by (simp_all add: xs_string_def)

lemma tower_depth: "rope_depth (tower k) = 2 * k"
  by (induction k) simp_all

lemma tower_len_Suc: "string_rope_get_len (tower (Suc k)) = string_rope_get_len (tower k) + 1 + rope_bucket_len ! (k + 2)"
  by simp

lemma tower_len: "k \<le> l \<Longrightarrow> string_rope_get_len (tower k) \<le> string_rope_get_len (tower l)"
  by (induction l) (auto simp: le_Suc_eq)

lemma bucket_len_fib: "i + 2 < 44 \<Longrightarrow> rope_bucket_len ! i + rope_bucket_len ! (i + 1) = rope_bucket_len ! (i + 2)"
proof -
  have "list_all (\<lambda>i. rope_bucket_len ! i + rope_bucket_len ! (i + 1) = rope_bucket_len ! (i + 2)) [0..<42]"
    by (simp add: upt_rec rope_bucket_len_def)
  then show "i + 2 < 44 \<Longrightarrow> rope_bucket_len ! i + rope_bucket_len ! (i + 1) = rope_bucket_len ! (i + 2)"
    by (auto simp: list_all_iff)
qed

lemma tower_len_sum: "k \<le> 30 \<Longrightarrow> string_rope_get_len (tower k) + 3 = k + rope_bucket_len ! (k + 3)"
proof (induction k)
  case 0
  then show ?case by (simp add: rope_bucket_len_def)
next
  case (Suc k)
  have "rope_bucket_len ! (k + 2) + rope_bucket_len ! (k + 2 + 1) = rope_bucket_len ! (k + 2 + 2)"
    using Suc.prems by (intro bucket_len_fib) simp
  then show ?case using Suc by (simp add: tower_len_Suc eval_nat_numeral del: tower.simps)
qed

lemma tower_len_30: "string_rope_get_len (tower 30) = 9227492"
  using tower_len_sum [of 30] by (simp add: rope_bucket_len_def)

text \<open>How the insertion of the tower goes: after each step it fills one bucket, the next one.\<close>

definition one_bucket :: "nat \<Rightarrow> str_rope \<Rightarrow> buckets" where
  "one_bucket i a = (replicate 44 None)[i := Some a]"

lemma one_bucket_nth: "i < 44 \<Longrightarrow> j < 44 \<Longrightarrow> one_bucket i a ! j = (if j = i then Some a else None)"
  by (simp add: one_bucket_def nth_list_update)

lemma gather_skip:
  "i \<le> j \<Longrightarrow> j < 43 \<Longrightarrow> rope_bucket_len ! j \<le> len \<Longrightarrow> \<forall>k. i \<le> k \<and> k < j \<longrightarrow> bs ! k = None \<Longrightarrow>
   gather f len i bs a = gather f len j bs a"
proof (induction "j - i" arbitrary: i)
  case (Suc n)
  have "i + 1 \<le> j" using Suc.hyps(2) by linarith
  then have "rope_bucket_len ! (i + 1) \<le> len" using Suc.prems bucket_len_mono [of "i + 1" j] by linarith
  moreover have "bs ! i = None" using Suc.prems Suc.hyps(2) by simp
  ultimately have "gather f len i bs a = gather f len (i + 1) bs a"
    using Suc.prems Suc.hyps(2) by (subst gather.simps) (simp add: ROPE_N_BUCKETS_def)
  then show ?case using Suc.hyps(1) [of "i + 1"] Suc.hyps(2) Suc.prems by simp
qed simp

lemma gather_end: "i + 1 < 44 \<Longrightarrow> len < rope_bucket_len ! (i + 1) \<Longrightarrow> gather f len i bs a = return_m (i, bs, a)"
  by (subst gather.simps) (simp add: ROPE_N_BUCKETS_def not_le)

lemma rebalance_xs: "0 < n \<Longrightarrow> js_rebalance_string_rope_rec f bs (xs_string n) =
    bind_m (gather f n 0 bs None) (\<lambda>(i, bs, a).
      bind_m (case a of Some a \<Rightarrow> f a (xs_string n) | None \<Rightarrow> return_m (xs_string n)) (\<lambda>a. merge_up f i bs a))"
  unfolding xs_string_def by simp

lemma merge_free: "i < 44 \<Longrightarrow> bs ! i = None \<Longrightarrow> merge_up f i bs a = return_m (bs[i := Some a])"
  by (subst merge_up.simps) (simp add: ROPE_N_BUCKETS_def)

lemma return_bind [simp]: "bind_m (return_m x) g = g x"
  by (rule ext) (simp add: bind_m_def guard_m_def return_m_def)

lemma insert_tiny: "1 \<le> k \<Longrightarrow> k < 43 \<Longrightarrow>
   js_rebalance_string_rope_rec f (one_bucket k t) (xs_string 1) = return_m ((one_bucket k t)[0 := Some (xs_string 1)])"
  by (subst rebalance_xs) (simp_all add: gather_end merge_free one_bucket_nth rope_bucket_len_def)

lemma insert_next:
  assumes k: "1 \<le> k" "k < 41" and new: "goes (f t (xs_string 1)) t1" "goes (f t1 (xs_string (rope_bucket_len ! (k + 1)))) t2"
  shows "goes (js_rebalance_string_rope_rec f ((one_bucket k t)[0 := Some (xs_string 1)]) (xs_string (rope_bucket_len ! (k + 1))))
    (one_bucket (k + 1) t2)"
proof -
  define len where "len = rope_bucket_len ! (k + 1)"
  define bs where "bs = (one_bucket k t)[0 := Some (xs_string 1)]"
  have lb: "length bs = 44" by (simp add: bs_def one_bucket_def)
  have len: "rope_bucket_len ! (k + 1) \<le> len" "rope_bucket_len ! k \<le> len" "rope_bucket_len ! 1 \<le> len" "len < rope_bucket_len ! (k + 1 + 1)" "0 < len"
    using bucket_len_step [of k] bucket_len_step [of "k + 1"] bucket_len_mono [of 1 k] k by (auto simp: len_def)
  have nth: "bs ! 0 = Some (xs_string 1)" "bs ! k = Some t" "0 < j \<Longrightarrow> j < k \<Longrightarrow> bs ! j = None" for j
    using k by (simp_all add: bs_def one_bucket_nth nth_list_update one_bucket_def)
  have "gather f len 0 bs None = gather f len 1 (bs[0 := None]) (Some (xs_string 1))"
    using len(3) nth(1) by (subst gather.simps) (simp add: ROPE_N_BUCKETS_def)
  also have "\<dots> = gather f len k (bs[0 := None]) (Some (xs_string 1))"
    using k len(2) nth(3) by (intro gather_skip) auto
  also have "\<dots> = bind_m (f t (xs_string 1)) (\<lambda>a. gather f len (k + 1) (bs[0 := None, k := None]) (Some a))"
    using k len(1) nth(2) by (subst gather.simps) (simp add: ROPE_N_BUCKETS_def nth_list_update)
  finally have step: "gather f len 0 bs None = bind_m (f t (xs_string 1)) (\<lambda>a. gather f len (k + 1) (bs[0 := None, k := None]) (Some a))" .
  have g: "goes (gather f len 0 bs None) (k + 1, replicate 44 None, Some t1)"
    unfolding step
  proof (rule goes_bind [OF new(1)])
    have "bs[0 := None, k := None] = replicate 44 None"
      using k by (auto simp: bs_def one_bucket_def list_eq_iff_nth_eq nth_list_update)
    then show "goes (gather f len (k + 1) (bs[0 := None, k := None]) (Some t1)) (k + 1, replicate 44 None, Some t1)"
      using gather_end [of "k + 1" len f] len(4) k by (simp add: goes_return)
  qed
  have "goes (bind_m (f t1 (xs_string len)) (\<lambda>a. merge_up f (k + 1) (replicate 44 None) a)) (one_bucket (k + 1) t2)"
    using new(2) k by (intro goes_bind [OF new(2) [folded len_def]]) (simp add: merge_free one_bucket_def goes_return)
  then show ?thesis unfolding bs_def [symmetric] len_def [symmetric] rebalance_xs [OF len(5)]
    by (intro goes_bind [OF g]) simp
qed

lemma insert_tower:
  "k \<le> 30 \<Longrightarrow> goes (js_rebalance_string_rope_rec (js_new_string_rope n) (replicate 44 None) (tower k)) (one_bucket (k + 1) (tower k))"
proof (induction k)
  case 0
  have g: "gather f 2 0 (replicate 44 None) None = return_m (1, replicate 44 None, None)" for f
    by (subst gather_skip [of 0 1]) (simp_all add: gather_end rope_bucket_len_def)
  show ?case by (simp add: rebalance_xs g merge_free one_bucket_def goes_return)
next
  case (Suc k)
  have l: "string_rope_get_len (tower k) + 1 + rope_bucket_len ! (k + 2) \<le> JS_STRING_LEN_MAX"
    using tower_len [of "Suc k" 30] tower_len_30 Suc.prems tower_len_Suc [of k] by (simp add: JS_STRING_LEN_MAX_def del: tower.simps)
  have "goes (js_new_string_rope n (tower k) (xs_string 1)) (mk_rope (tower k) (xs_string 1))"
    "goes (js_new_string_rope n (mk_rope (tower k) (xs_string 1)) (xs_string (rope_bucket_len ! (k + 1 + 1)))) (tower (Suc k))"
    using l Suc.prems goes_new_rope [of "tower k" "xs_string 1" n]
      goes_new_rope [of "mk_rope (tower k) (xs_string 1)" "xs_string (rope_bucket_len ! (k + 2))" n]
    by (simp_all add: tower_depth JS_STRING_ROPE_MAX_DEPTH_def)
  then have "goes (js_rebalance_string_rope_rec (js_new_string_rope n) ((one_bucket (k + 1) (tower k))[0 := Some (xs_string 1)])
      (xs_string (rope_bucket_len ! (k + 1 + 1)))) (one_bucket (k + 1 + 1) (tower (Suc k)))"
    using Suc.prems by (intro insert_next) auto
  then have "goes (bind_m (bind_m (js_rebalance_string_rope_rec (js_new_string_rope n) (replicate 44 None) (tower k))
        (\<lambda>bs. js_rebalance_string_rope_rec (js_new_string_rope n) bs (xs_string 1)))
      (\<lambda>bs. js_rebalance_string_rope_rec (js_new_string_rope n) bs (xs_string (rope_bucket_len ! (k + 2))))) (one_bucket (Suc k + 1) (tower (Suc k)))"
    using Suc by (intro goes_bind [OF goes_bind [OF Suc.IH]]) (simp_all add: insert_tiny [unfolded One_nat_def] goes_return del: tower.simps)
  then show ?case by (simp add: mk_rope_def)
qed

lemma stuck_first: "stuck f \<Longrightarrow> stuck (bind_m f g)"
  unfolding stuck_def bind_m_def guard_m_def return_m_def by (auto split: sum.splits prod.splits)

lemma collect_skip: "collect f (replicate n None @ bs) a = collect f bs a"
  by (induction n) simp_all

lemma tower_stuck: "stuck (js_new_string_rope n (tower 30) (xs_string 1))"
proof (induction n)
  case 0
  show ?case by (simp add: js_new_string_rope.simps stuck_def throw_m_def)
next
  case (Suc n)
  define bs where "bs = (one_bucket 31 (tower 30))[0 := Some (xs_string 1)]"
  have "goes (bind_m (js_rebalance_string_rope_rec (js_new_string_rope n) (replicate 44 None) (tower 30))
        (\<lambda>bs. js_rebalance_string_rope_rec (js_new_string_rope n) bs (xs_string 1))) bs"
    by (rule goes_bind [OF insert_tower])
      (simp_all add: insert_tiny [unfolded One_nat_def] bs_def goes_return)
  then have rec: "goes (js_rebalance_string_rope_rec (js_new_string_rope n) (replicate 44 None) (mk_rope (tower 30) (xs_string 1))) bs"
    by (simp add: mk_rope_def)
  have bs: "bs = [Some (xs_string 1)] @ replicate 30 None @ [Some (tower 30)] @ replicate 12 None"
    unfolding bs_def one_bucket_def by (auto simp: list_eq_iff_nth_eq nth_append nth_list_update nth_Cons')
  have "stuck (collect (js_new_string_rope n) bs None)"
    unfolding bs using Suc by (simp add: collect_skip stuck_first)
  then have reb: "stuck (js_rebalance_string_rope (js_new_string_rope n) (mk_rope (tower 30) (xs_string 1)))"
    unfolding js_rebalance_string_rope_def ROPE_N_BUCKETS_def by (intro stuck_bind [OF rec] stuck_first)
  have "\<not> string_rope_get_len (tower 30) + string_rope_get_len (xs_string 1) > JS_STRING_LEN_MAX"
    "rope_depth (mk_rope (tower 30) (xs_string 1)) > JS_STRING_ROPE_MAX_DEPTH"
    by (simp_all add: tower_len_30 tower_depth JS_STRING_LEN_MAX_def JS_STRING_ROPE_MAX_DEPTH_def)
  then have "js_new_string_rope (Suc n) (tower 30) (xs_string 1) =
      bind_m js_malloc (\<lambda>_. js_rebalance_string_rope (js_new_string_rope n) (mk_rope (tower 30) (xs_string 1)))"
    by (simp only: js_new_string_rope.simps if_False if_True)
  then show ?case using stuck_bind [OF goes_malloc] reb by simp
qed

lemma tower_wf: "k \<le> 30 \<Longrightarrow> rope_wf (tower k)"
proof -
  have "k \<le> 30 \<Longrightarrow> rope_ok (tower k)" for k
  proof (induction k)
    case (Suc k)
    have "string_rope_get_len (tower k) + 1 + rope_bucket_len ! (k + 2) \<le> JS_STRING_LEN_MAX"
      using tower_len [of "Suc k" 30] tower_len_30 Suc.prems tower_len_Suc [of k] by (simp add: JS_STRING_LEN_MAX_def del: tower.simps)
    then show ?case using Suc by (simp add: mk_rope_ok)
  qed (simp add: JS_STRING_LEN_MAX_def)
  then show "k \<le> 30 \<Longrightarrow> rope_wf (tower k)" by (simp add: rope_wf_def tower_depth JS_STRING_ROPE_MAX_DEPTH_def)
qed

text \<open>C34: the nesting of \<open>js_new_string_rope\<close> and \<open>js_rebalance_string_rope\<close> is not bounded: appending one unit to a
  well-formed rope of 9227492 units makes them call each other for ever (however deep the calls may nest, they
  run out), although every allocation succeeds and the result is far below the length limit.\<close>

theorem js_new_string_rope_nests:
  "rope_wf (tower 30) \<and> length (runits (tower 30)) = 9227492 \<and> 9227493 < JS_STRING_LEN_MAX
    \<and> stuck (JS_ConcatString n in_place (Inr (tower 30)) (Inr (xs_string 1)))"
proof -
  have t: "tower 30 = mk_rope (mk_rope (tower 29) (xs_string 1)) (xs_string 3524578)"
    using tower.simps(2) [of 29] by (simp add: rope_bucket_len_def)
  have "JS_ConcatString n in_place (Inr (tower 30)) (Inr (xs_string 1)) = js_new_string_rope n (tower 30) (xs_string 1)"
    unfolding t by (simp add: JS_ConcatString_def concat_strings_def mk_rope_def xs_string_def JS_STRING_ROPE_SHORT_LEN_def del: replicate.simps)
  then show ?thesis
    using tower_wf [of 30] length_runits [of "tower 30"] tower_stuck [of n]
    by (simp add: rope_wf_def tower_len_30 JS_STRING_LEN_MAX_def)
qed

end
