(* ===== verification/Gc.thy ===== *)
theory Gc
  imports Prelude "HOL-Library.Monad_Syntax"
begin

text \<open>
  The cycle collector and the release of objects of \<open>src/qjs/quickjs.c\<close>: \<open>mark_children\<close>,
  \<open>JS_RunGC\<close> with its three passes, \<open>JS_FreeValueRT\<close> and the routines that free an object. The heap maps
  pointers to the blocks of the collector (\<open>JSGCObjectHeader\<close>); \<open>None\<close> as the outcome of an operation is a
  failed assertion, an access to a block that is not allocated or has another type, or an endless loop.
  Reference counts do not overflow. Not modelled: weak references (\<open>first_weak_ref\<close> is null), and the
  values without a collector header (strings, symbols, BigInts), which are \<open>Plain\<close> here.
\<close>

section \<open>The blocks of the collector\<close>

type_synonym ptr = nat

text \<open>\<open>Ref\<close>: a value of tag \<open>JS_TAG_OBJECT\<close> or \<open>JS_TAG_FUNCTION_BYTECODE\<close>.\<close>

datatype js_value = Plain | Ref ptr

text \<open>An open variable is in its stack frame and its header is not on a list of the collector.\<close>

datatype var_ref_slot = No_Var | Open_Var | Detached ptr

text \<open>A deleted property keeps its slot, with no flags and the value \<open>undefined\<close>.\<close>

datatype js_property =
    Deleted
  | Value js_value
  | GetSet "ptr option" "ptr option"
  | VarRefProp var_ref_slot
  | AutoInit ptr

text \<open>
  The payload of an object by its class. \<open>Other\<close> stands for the classes whose \<open>gc_mark\<close> and finalizer walk
  a sequence of values.
\<close>

datatype class_data =
    NoData
  | ArrayValues "js_value list"
  | ObjectData js_value
  | CFunction "ptr option"
  | BytecodeFunction "ptr option" "ptr option" "var_ref_slot list option"
  | BoundFunction js_value js_value "js_value list"
  | ForInIterator js_value
  | AsyncResolve "ptr option"
  | Other "js_value list"

text \<open>
  The values and the exported variables that a module holds: attributes, the variables of the local exports, which are
  always detached, and the other fields.
\<close>

datatype module_def = Module "js_value list" "ptr option list" "js_value list"

text \<open>
  The stack of the frame of an asynchronous function is \<open>None\<close> while the function runs. Its frame has no
  open variables. \<open>Zombie\<close> is what is left of an object freed while cycles are removed.
\<close>

datatype gc_type = JS_OBJECT | FUNCTION_BYTECODE | SHAPE | VAR_REF | ASYNC_FUNCTION | JS_CONTEXT

datatype gc_body =
    JsObject ptr "js_property list" class_data
  | FunctionBytecode "js_value list" "ptr option"
  | Shape "ptr option"
  | VarRef js_value
  | AsyncFunction bool js_value js_value "js_value list option" js_value js_value
  | Context "module_def list" "js_value list" "ptr option list"
  | Zombie gc_type

primrec gc_obj_type :: "gc_body \<Rightarrow> gc_type" where
  "gc_obj_type (JsObject sh prs cd) = JS_OBJECT"
| "gc_obj_type (FunctionBytecode cpool realm) = FUNCTION_BYTECODE"
| "gc_obj_type (Shape proto) = SHAPE"
| "gc_obj_type (VarRef v) = VAR_REF"
| "gc_obj_type (AsyncFunction a f t st r0 r1) = ASYNC_FUNCTION"
| "gc_obj_type (Context ms vs shs) = JS_CONTEXT"
| "gc_obj_type (Zombie t) = t"

record gc_object =
  ref_count :: int
  mark :: bool
  body :: gc_body

datatype gc_phase = JS_GC_PHASE_NONE | JS_GC_PHASE_DECREF | JS_GC_PHASE_REMOVE_CYCLES

record runtime =
  heap :: "ptr \<Rightarrow> gc_object option"
  gc_obj_list :: "ptr list"
  tmp_obj_list :: "ptr list"
  gc_zero_ref_count_list :: "ptr list"
  gc_phase :: gc_phase

section \<open>Marking\<close>

text \<open>The blocks that \<open>mark_func\<close> is called on, in order.\<close>

primrec JS_MarkValue :: "js_value \<Rightarrow> ptr list" where
  "JS_MarkValue Plain = []"
| "JS_MarkValue (Ref p) = [p]"

definition mark_opt :: "ptr option \<Rightarrow> ptr list" where
  "mark_opt p = (case p of None \<Rightarrow> [] | Some p \<Rightarrow> [p])"

primrec mark_slot :: "var_ref_slot \<Rightarrow> ptr list" where
  "mark_slot No_Var = []"
| "mark_slot Open_Var = []"
| "mark_slot (Detached p) = [p]"

primrec mark_property :: "js_property \<Rightarrow> ptr list" where
  "mark_property Deleted = []"
| "mark_property (Value v) = JS_MarkValue v"
| "mark_property (GetSet getter setter) = mark_opt getter @ mark_opt setter"
| "mark_property (VarRefProp s) = mark_slot s"
| "mark_property (AutoInit realm) = [realm]"

text \<open>The \<open>gc_mark\<close> functions of the common classes.\<close>

definition js_array_mark :: "js_value list \<Rightarrow> ptr list" where
  [simp]: "js_array_mark vs = concat (map JS_MarkValue vs)"

definition js_object_data_mark :: "js_value \<Rightarrow> ptr list" where
  [simp]: "js_object_data_mark v = JS_MarkValue v"

definition js_c_function_mark :: "ptr option \<Rightarrow> ptr list" where
  [simp]: "js_c_function_mark realm = mark_opt realm"

definition js_bytecode_function_mark :: "ptr option \<Rightarrow> ptr option \<Rightarrow> var_ref_slot list option \<Rightarrow> ptr list" where
  [simp]: "js_bytecode_function_mark home b var_refs =
     mark_opt home @ (case b of
       None \<Rightarrow> []
     | Some b \<Rightarrow> (case var_refs of None \<Rightarrow> [] | Some ss \<Rightarrow> concat (map mark_slot ss)) @ [b])"

definition js_bound_function_mark :: "js_value \<Rightarrow> js_value \<Rightarrow> js_value list \<Rightarrow> ptr list" where
  [simp]: "js_bound_function_mark func this args =
     JS_MarkValue func @ JS_MarkValue this @ concat (map JS_MarkValue args)"

definition js_for_in_iterator_mark :: "js_value \<Rightarrow> ptr list" where
  [simp]: "js_for_in_iterator_mark v = JS_MarkValue v"

definition js_async_function_resolve_mark :: "ptr option \<Rightarrow> ptr list" where
  [simp]: "js_async_function_resolve_mark s = mark_opt s"

primrec class_gc_mark :: "class_data \<Rightarrow> ptr list" where
  "class_gc_mark NoData = []"
| "class_gc_mark (ArrayValues vs) = js_array_mark vs"
| "class_gc_mark (ObjectData v) = js_object_data_mark v"
| "class_gc_mark (CFunction realm) = js_c_function_mark realm"
| "class_gc_mark (BytecodeFunction home b var_refs) = js_bytecode_function_mark home b var_refs"
| "class_gc_mark (BoundFunction func this args) = js_bound_function_mark func this args"
| "class_gc_mark (ForInIterator v) = js_for_in_iterator_mark v"
| "class_gc_mark (AsyncResolve s) = js_async_function_resolve_mark s"
| "class_gc_mark (Other vs) = concat (map JS_MarkValue vs)"

primrec js_mark_module_def :: "module_def \<Rightarrow> ptr list" where
  "js_mark_module_def (Module attrs exports vs) =
     concat (map JS_MarkValue attrs) @ concat (map mark_opt exports) @ concat (map JS_MarkValue vs)"

primrec children :: "gc_body \<Rightarrow> ptr list" where
  "children (JsObject sh prs cd) = [sh] @ concat (map mark_property prs) @ class_gc_mark cd"
| "children (FunctionBytecode cpool realm) = concat (map JS_MarkValue cpool) @ mark_opt realm"
| "children (Shape proto) = mark_opt proto"
| "children (VarRef v) = JS_MarkValue v"
| "children (AsyncFunction active func this stack r0 r1) =
     (if active
      then JS_MarkValue func @ JS_MarkValue this
        @ (case stack of None \<Rightarrow> [] | Some vs \<Rightarrow> concat (map JS_MarkValue vs))
      else []) @ JS_MarkValue r0 @ JS_MarkValue r1"
| "children (Context ms vs shs) =
     concat (map js_mark_module_def ms) @ concat (map JS_MarkValue vs) @ concat (map mark_opt shs)"
| "children (Zombie t) = []"

primrec each :: "('a \<Rightarrow> 's \<Rightarrow> 's option) \<Rightarrow> 'a list \<Rightarrow> 's \<Rightarrow> 's option" where
  "each f [] s = Some s"
| "each f (x # xs) s = do { s \<leftarrow> f x s; each f xs s }"

definition mark_children :: "ptr \<Rightarrow> (ptr \<Rightarrow> runtime \<Rightarrow> runtime option) \<Rightarrow> runtime \<Rightarrow> runtime option" where
  "mark_children p mark_func rt = do { gp \<leftarrow> heap rt p; each mark_func (children (body gp)) rt }"

section \<open>Lists and counts\<close>

text \<open>A block is on one list at most; taking it off a list when it is on none dereferences null.\<close>

definition list_del :: "ptr \<Rightarrow> runtime \<Rightarrow> runtime option" where
  "list_del p rt =
     (if p \<in> set (gc_obj_list rt @ tmp_obj_list rt @ gc_zero_ref_count_list rt)
      then Some (rt\<lparr>gc_obj_list := remove1 p (gc_obj_list rt), tmp_obj_list := remove1 p (tmp_obj_list rt),
                    gc_zero_ref_count_list := remove1 p (gc_zero_ref_count_list rt)\<rparr>)
      else None)"

definition list_next :: "ptr list \<Rightarrow> ptr \<Rightarrow> ptr option" where
  "list_next xs p = (case dropWhile (\<lambda>x. x \<noteq> p) xs of _ # q # _ \<Rightarrow> Some q | _ \<Rightarrow> None)"

definition list_first :: "ptr list \<Rightarrow> ptr option" where
  "list_first xs = (case xs of [] \<Rightarrow> None | p # _ \<Rightarrow> Some p)"

definition set_header :: "ptr \<Rightarrow> gc_object \<Rightarrow> runtime \<Rightarrow> runtime" where
  "set_header p h rt = rt\<lparr>heap := (heap rt)(p := Some h)\<rparr>"

definition js_free_rt :: "ptr \<Rightarrow> runtime \<Rightarrow> runtime" where
  "js_free_rt p rt = rt\<lparr>heap := (heap rt)(p := None)\<rparr>"

definition add_ref :: "int \<Rightarrow> ptr \<Rightarrow> runtime \<Rightarrow> runtime option" where
  "add_ref n p rt = do { h \<leftarrow> heap rt p; Some (set_header p (h\<lparr>ref_count := ref_count h + n\<rparr>) rt) }"

definition get_count :: "ptr \<Rightarrow> runtime \<Rightarrow> int option" where
  "get_count p rt = do { h \<leftarrow> heap rt p; Some (ref_count h) }"

definition add_gc_object :: "ptr \<Rightarrow> gc_body \<Rightarrow> runtime \<Rightarrow> runtime option" where
  "add_gc_object p b rt =
     (if heap rt p = None
      then Some (set_header p \<lparr>ref_count = 1, mark = False, body = b\<rparr> rt\<lparr>gc_obj_list := gc_obj_list rt @ [p]\<rparr>)
      else None)"

section \<open>Releasing references\<close>

text \<open>
  While objects are being freed \<open>gc_phase\<close> is never \<open>JS_GC_PHASE_NONE\<close>; the release of a value in that phase,
  which frees what is queued, is \<open>JS_FreeValue\<close> below.
\<close>

definition js_free_value_rt :: "ptr \<Rightarrow> runtime \<Rightarrow> runtime option" where
  "js_free_value_rt p rt =
     (if gc_phase rt \<noteq> JS_GC_PHASE_REMOVE_CYCLES
      then do { rt \<leftarrow> list_del p rt; Some (rt\<lparr>gc_zero_ref_count_list := p # gc_zero_ref_count_list rt\<rparr>) }
      else Some rt)"

definition free_ref :: "ptr \<Rightarrow> runtime \<Rightarrow> runtime option" where
  "free_ref p rt = do {
     rt \<leftarrow> add_ref (- 1) p rt;
     n \<leftarrow> get_count p rt;
     if n \<le> 0 then js_free_value_rt p rt else Some rt }"

primrec JS_FreeValueRT :: "js_value \<Rightarrow> runtime \<Rightarrow> runtime option" where
  "JS_FreeValueRT Plain rt = Some rt"
| "JS_FreeValueRT (Ref p) rt = free_ref p rt"

definition free_opt :: "(ptr \<Rightarrow> runtime \<Rightarrow> runtime option) \<Rightarrow> ptr option \<Rightarrow> runtime \<Rightarrow> runtime option" where
  "free_opt f p rt = (case p of None \<Rightarrow> Some rt | Some p \<Rightarrow> f p rt)"

definition release_block :: "ptr \<Rightarrow> runtime \<Rightarrow> runtime option" where
  "release_block p rt = do { rt \<leftarrow> list_del p rt; Some (js_free_rt p rt) }"

definition js_free_shape0 :: "ptr \<Rightarrow> runtime \<Rightarrow> runtime option" where
  "js_free_shape0 p rt = do {
     sh \<leftarrow> heap rt p;
     if ref_count sh \<noteq> 0 then None
     else case body sh of
            Shape proto \<Rightarrow> do { rt \<leftarrow> free_opt free_ref proto rt; release_block p rt }
          | _ \<Rightarrow> None }"

definition js_free_shape :: "ptr \<Rightarrow> runtime \<Rightarrow> runtime option" where
  "js_free_shape p rt = do {
     rt \<leftarrow> add_ref (- 1) p rt;
     n \<leftarrow> get_count p rt;
     if n \<le> 0 then js_free_shape0 p rt else Some rt }"

definition free_detached :: "ptr \<Rightarrow> runtime \<Rightarrow> runtime option" where
  "free_detached p rt = do {
     n \<leftarrow> get_count p rt;
     if \<not> n > 0 then None
     else do {
       rt \<leftarrow> add_ref (- 1) p rt;
       r \<leftarrow> heap rt p;
       if ref_count r = 0
       then case body r of
              VarRef v \<Rightarrow> do { rt \<leftarrow> JS_FreeValueRT v rt; release_block p rt }
            | _ \<Rightarrow> None
       else Some rt } }"

primrec free_var_ref :: "var_ref_slot \<Rightarrow> runtime \<Rightarrow> runtime option" where
  "free_var_ref No_Var rt = Some rt"
| "free_var_ref Open_Var rt = Some rt"
| "free_var_ref (Detached p) rt = free_detached p rt"

definition export_slot :: "ptr option \<Rightarrow> var_ref_slot" where
  "export_slot e = (case e of None \<Rightarrow> No_Var | Some p \<Rightarrow> Detached p)"

primrec js_free_module_def :: "module_def \<Rightarrow> runtime \<Rightarrow> runtime option" where
  "js_free_module_def (Module attrs exports vs) rt = do {
     rt \<leftarrow> each JS_FreeValueRT attrs rt;
     rt \<leftarrow> each (\<lambda>e. free_var_ref (export_slot e)) exports rt;
     each JS_FreeValueRT vs rt }"

definition JS_FreeContext :: "ptr \<Rightarrow> runtime \<Rightarrow> runtime option" where
  "JS_FreeContext p rt = do {
     rt \<leftarrow> add_ref (- 1) p rt;
     ctx \<leftarrow> heap rt p;
     if ref_count ctx > 0 then Some rt
     else if ref_count ctx \<noteq> 0 then None
     else case body ctx of
            Context ms vs shs \<Rightarrow> do {
              rt \<leftarrow> each js_free_module_def ms rt;
              rt \<leftarrow> each JS_FreeValueRT vs rt;
              rt \<leftarrow> each (free_opt js_free_shape) shs rt;
              release_block p rt }
          | _ \<Rightarrow> None }"

definition async_func_free :: "js_value \<Rightarrow> js_value \<Rightarrow> js_value list option \<Rightarrow> runtime \<Rightarrow> runtime option" where
  "async_func_free func this stack rt =
     (case stack of
        None \<Rightarrow> None
      | Some vs \<Rightarrow> do {
          rt \<leftarrow> each JS_FreeValueRT vs rt;
          rt \<leftarrow> JS_FreeValueRT func rt;
          JS_FreeValueRT this rt })"

definition js_async_function_free0 :: "ptr \<Rightarrow> runtime \<Rightarrow> runtime option" where
  "js_async_function_free0 p rt = do {
     s \<leftarrow> heap rt p;
     case body s of
       AsyncFunction active func this stack r0 r1 \<Rightarrow> do {
         rt \<leftarrow> (if active then async_func_free func this stack rt else Some rt);
         rt \<leftarrow> JS_FreeValueRT r0 rt;
         rt \<leftarrow> JS_FreeValueRT r1 rt;
         release_block p rt }
     | _ \<Rightarrow> None }"

definition js_async_function_free :: "ptr \<Rightarrow> runtime \<Rightarrow> runtime option" where
  "js_async_function_free p rt = do {
     rt \<leftarrow> add_ref (- 1) p rt;
     n \<leftarrow> get_count p rt;
     if n = 0 then js_async_function_free0 p rt else Some rt }"

section \<open>Freeing objects\<close>

primrec free_property :: "js_property \<Rightarrow> runtime \<Rightarrow> runtime option" where
  "free_property Deleted rt = Some rt"
| "free_property (Value v) rt = JS_FreeValueRT v rt"
| "free_property (GetSet getter setter) rt = do { rt \<leftarrow> free_opt free_ref getter rt; free_opt free_ref setter rt }"
| "free_property (VarRefProp s) rt = free_var_ref s rt"
| "free_property (AutoInit realm) rt = JS_FreeContext realm rt"

text \<open>The finalizers of the common classes.\<close>

definition js_array_finalizer :: "js_value list \<Rightarrow> runtime \<Rightarrow> runtime option" where
  [simp]: "js_array_finalizer vs rt = each JS_FreeValueRT vs rt"

definition js_object_data_finalizer :: "js_value \<Rightarrow> runtime \<Rightarrow> runtime option" where
  [simp]: "js_object_data_finalizer v rt = JS_FreeValueRT v rt"

definition js_c_function_finalizer :: "ptr option \<Rightarrow> runtime \<Rightarrow> runtime option" where
  [simp]: "js_c_function_finalizer realm rt = free_opt JS_FreeContext realm rt"

definition js_bytecode_function_finalizer ::
    "ptr option \<Rightarrow> ptr option \<Rightarrow> var_ref_slot list option \<Rightarrow> runtime \<Rightarrow> runtime option" where
  [simp]: "js_bytecode_function_finalizer home b var_refs rt = do {
     rt \<leftarrow> free_opt free_ref home rt;
     case b of
       None \<Rightarrow> Some rt
     | Some b \<Rightarrow> do {
         rt \<leftarrow> (case var_refs of None \<Rightarrow> Some rt | Some ss \<Rightarrow> each free_var_ref ss rt);
         free_ref b rt } }"

definition js_bound_function_finalizer :: "js_value \<Rightarrow> js_value \<Rightarrow> js_value list \<Rightarrow> runtime \<Rightarrow> runtime option" where
  [simp]: "js_bound_function_finalizer func this args rt = do {
     rt \<leftarrow> JS_FreeValueRT func rt;
     rt \<leftarrow> JS_FreeValueRT this rt;
     each JS_FreeValueRT args rt }"

definition js_for_in_iterator_finalizer :: "js_value \<Rightarrow> runtime \<Rightarrow> runtime option" where
  [simp]: "js_for_in_iterator_finalizer v rt = JS_FreeValueRT v rt"

definition js_async_function_resolve_finalizer :: "ptr option \<Rightarrow> runtime \<Rightarrow> runtime option" where
  [simp]: "js_async_function_resolve_finalizer s rt = free_opt js_async_function_free s rt"

primrec class_finalizer :: "class_data \<Rightarrow> runtime \<Rightarrow> runtime option" where
  "class_finalizer NoData rt = Some rt"
| "class_finalizer (ArrayValues vs) rt = js_array_finalizer vs rt"
| "class_finalizer (ObjectData v) rt = js_object_data_finalizer v rt"
| "class_finalizer (CFunction realm) rt = js_c_function_finalizer realm rt"
| "class_finalizer (BytecodeFunction home b var_refs) rt = js_bytecode_function_finalizer home b var_refs rt"
| "class_finalizer (BoundFunction func this args) rt = js_bound_function_finalizer func this args rt"
| "class_finalizer (ForInIterator v) rt = js_for_in_iterator_finalizer v rt"
| "class_finalizer (AsyncResolve s) rt = js_async_function_resolve_finalizer s rt"
| "class_finalizer (Other vs) rt = each JS_FreeValueRT vs rt"

definition finish_free :: "gc_type \<Rightarrow> ptr \<Rightarrow> runtime \<Rightarrow> runtime option" where
  "finish_free t p rt = do {
     rt \<leftarrow> list_del p rt;
     h \<leftarrow> heap rt p;
     if gc_phase rt = JS_GC_PHASE_REMOVE_CYCLES \<and> ref_count h \<noteq> 0
     then Some (set_header p (h\<lparr>body := Zombie t\<rparr>) rt\<lparr>gc_zero_ref_count_list := gc_zero_ref_count_list rt @ [p]\<rparr>)
     else Some (js_free_rt p rt) }"

definition free_object :: "ptr \<Rightarrow> ptr \<Rightarrow> js_property list \<Rightarrow> class_data \<Rightarrow> runtime \<Rightarrow> runtime option" where
  "free_object p sh prs cd rt = do {
     rt \<leftarrow> each free_property prs rt;
     rt \<leftarrow> js_free_shape sh rt;
     rt \<leftarrow> class_finalizer cd rt;
     finish_free JS_OBJECT p rt }"

definition free_function_bytecode :: "ptr \<Rightarrow> js_value list \<Rightarrow> ptr option \<Rightarrow> runtime \<Rightarrow> runtime option" where
  "free_function_bytecode p cpool realm rt = do {
     rt \<leftarrow> each JS_FreeValueRT cpool rt;
     rt \<leftarrow> free_opt JS_FreeContext realm rt;
     finish_free FUNCTION_BYTECODE p rt }"

definition free_gc_object :: "ptr \<Rightarrow> runtime \<Rightarrow> runtime option" where
  "free_gc_object p rt = do {
     gp \<leftarrow> heap rt p;
     case body gp of
       JsObject sh prs cd \<Rightarrow> free_object p sh prs cd rt
     | FunctionBytecode cpool realm \<Rightarrow> free_function_bytecode p cpool realm rt
     | _ \<Rightarrow> None }"

partial_function (option) free_zero_loop :: "runtime \<Rightarrow> runtime option" where
  "free_zero_loop rt =
     (case gc_zero_ref_count_list rt of
        [] \<Rightarrow> Some rt
      | p # _ \<Rightarrow> do {
          n \<leftarrow> get_count p rt;
          if n \<noteq> 0 then None else do { rt \<leftarrow> free_gc_object p rt; free_zero_loop rt } })"

definition free_zero_refcount :: "runtime \<Rightarrow> runtime option" where
  "free_zero_refcount rt = do {
     rt \<leftarrow> free_zero_loop (rt\<lparr>gc_phase := JS_GC_PHASE_DECREF\<rparr>);
     Some (rt\<lparr>gc_phase := JS_GC_PHASE_NONE\<rparr>) }"

text \<open>The release of a value from outside the collector.\<close>

definition JS_FreeValue :: "js_value \<Rightarrow> runtime \<Rightarrow> runtime option" where
  "JS_FreeValue v rt =
     (case v of
        Plain \<Rightarrow> Some rt
      | Ref p \<Rightarrow> do {
          rt \<leftarrow> add_ref (- 1) p rt;
          n \<leftarrow> get_count p rt;
          if n \<le> 0
          then do {
            rt \<leftarrow> js_free_value_rt p rt;
            if gc_phase rt = JS_GC_PHASE_NONE then free_zero_refcount rt else Some rt }
          else Some rt })"

section \<open>Collecting cycles\<close>

definition move_tail_tmp :: "ptr \<Rightarrow> runtime \<Rightarrow> runtime option" where
  "move_tail_tmp p rt = do { rt \<leftarrow> list_del p rt; Some (rt\<lparr>tmp_obj_list := tmp_obj_list rt @ [p]\<rparr>) }"

definition gc_decref_child :: "ptr \<Rightarrow> runtime \<Rightarrow> runtime option" where
  "gc_decref_child p rt = do {
     n \<leftarrow> get_count p rt;
     if \<not> n > 0 then None
     else do {
       rt \<leftarrow> add_ref (- 1) p rt;
       h \<leftarrow> heap rt p;
       if ref_count h = 0 \<and> mark h then move_tail_tmp p rt else Some rt } }"

definition set_mark :: "bool \<Rightarrow> ptr \<Rightarrow> runtime \<Rightarrow> runtime option" where
  "set_mark b p rt = do { h \<leftarrow> heap rt p; Some (set_header p (h\<lparr>mark := b\<rparr>) rt) }"

text \<open>\<open>el\<close> is the entry of the list to treat next; the one after it is read before the entry may be moved.\<close>

partial_function (option) gc_decref_loop :: "ptr option \<Rightarrow> runtime \<Rightarrow> runtime option" where
  "gc_decref_loop el rt =
     (case el of
        None \<Rightarrow> Some rt
      | Some p \<Rightarrow> do {
          el1 \<leftarrow> Some (list_next (gc_obj_list rt) p);
          h \<leftarrow> heap rt p;
          if mark h then None
          else do {
            rt \<leftarrow> mark_children p gc_decref_child rt;
            rt \<leftarrow> set_mark True p rt;
            n \<leftarrow> get_count p rt;
            rt \<leftarrow> (if n = 0 then move_tail_tmp p rt else Some rt);
            gc_decref_loop el1 rt } })"

definition gc_decref :: "runtime \<Rightarrow> runtime option" where
  "gc_decref rt = gc_decref_loop (list_first (gc_obj_list rt)) (rt\<lparr>tmp_obj_list := []\<rparr>)"

definition gc_scan_incref_child :: "ptr \<Rightarrow> runtime \<Rightarrow> runtime option" where
  "gc_scan_incref_child p rt = do {
     rt \<leftarrow> add_ref 1 p rt;
     n \<leftarrow> get_count p rt;
     if n = 1
     then do {
       rt \<leftarrow> list_del p rt;
       set_mark False p (rt\<lparr>gc_obj_list := gc_obj_list rt @ [p]\<rparr>) }
     else Some rt }"

definition gc_scan_incref_child2 :: "ptr \<Rightarrow> runtime \<Rightarrow> runtime option" where
  "gc_scan_incref_child2 p rt = add_ref 1 p rt"

partial_function (option) gc_scan_loop :: "ptr option \<Rightarrow> runtime \<Rightarrow> runtime option" where
  "gc_scan_loop el rt =
     (case el of
        None \<Rightarrow> Some rt
      | Some p \<Rightarrow> do {
          n \<leftarrow> get_count p rt;
          if \<not> n > 0 then None
          else do {
            rt \<leftarrow> set_mark False p rt;
            rt \<leftarrow> mark_children p gc_scan_incref_child rt;
            gc_scan_loop (list_next (gc_obj_list rt) p) rt } })"

definition gc_scan :: "runtime \<Rightarrow> runtime option" where
  "gc_scan rt = do {
     rt \<leftarrow> gc_scan_loop (list_first (gc_obj_list rt)) rt;
     each (\<lambda>p. mark_children p gc_scan_incref_child2) (tmp_obj_list rt) rt }"

partial_function (option) free_cycles_loop :: "runtime \<Rightarrow> runtime option" where
  "free_cycles_loop rt =
     (case tmp_obj_list rt of
        [] \<Rightarrow> Some rt
      | p # _ \<Rightarrow> do {
          gp \<leftarrow> heap rt p;
          rt \<leftarrow> (if gc_obj_type (body gp) \<in> {JS_OBJECT, FUNCTION_BYTECODE} then free_gc_object p rt
                else do {
                  rt \<leftarrow> list_del p rt;
                  Some (rt\<lparr>gc_zero_ref_count_list := gc_zero_ref_count_list rt @ [p]\<rparr>) });
          free_cycles_loop rt })"

definition free_zombie :: "ptr \<Rightarrow> runtime \<Rightarrow> runtime option" where
  "free_zombie p rt = do {
     gp \<leftarrow> heap rt p;
     if gc_obj_type (body gp) \<in> {JS_OBJECT, FUNCTION_BYTECODE} then Some (js_free_rt p rt) else None }"

definition gc_free_cycles :: "runtime \<Rightarrow> runtime option" where
  "gc_free_cycles rt = do {
     rt \<leftarrow> free_cycles_loop (rt\<lparr>gc_phase := JS_GC_PHASE_REMOVE_CYCLES\<rparr>);
     rt \<leftarrow> each free_zombie (gc_zero_ref_count_list rt) (rt\<lparr>gc_phase := JS_GC_PHASE_NONE\<rparr>);
     Some (rt\<lparr>gc_zero_ref_count_list := []\<rparr>) }"

definition JS_RunGC :: "runtime \<Rightarrow> runtime option" where
  "JS_RunGC rt = do {
     rt \<leftarrow> gc_decref rt;
     rt \<leftarrow> gc_scan rt;
     gc_free_cycles rt }"

end
