(* ===== verification/Gc_Release.thy ===== *)
theory Gc_Release
  imports Gc "HOL-Library.Multiset"
begin

text \<open>
  What the release of references keeps. The reference count of a block is the number of references
  from the live bodies and from outside; \<open>counted\<close> says so for blocks of which a set is just being freed.
  The locale \<open>roots\<close> is the contract between the routines that release references (\<open>frees\<close>) and the
  loops that call them.
\<close>

section \<open>Typed references\<close>

datatype edge = To_Value ptr | To_Shape ptr | To_Var ptr | To_Async ptr | To_Context ptr

primrec target :: "edge \<Rightarrow> ptr" where
  "target (To_Value p) = p"
| "target (To_Shape p) = p"
| "target (To_Var p) = p"
| "target (To_Async p) = p"
| "target (To_Context p) = p"

definition is_value :: "gc_type \<Rightarrow> bool" where
  "is_value t \<longleftrightarrow> t \<in> {JS_OBJECT, FUNCTION_BYTECODE}"

primrec edge_type :: "edge \<Rightarrow> gc_type \<Rightarrow> bool" where
  "edge_type (To_Value p) t = is_value t"
| "edge_type (To_Shape p) t = (t = SHAPE)"
| "edge_type (To_Var p) t = (t = VAR_REF)"
| "edge_type (To_Async p) t = (t = ASYNC_FUNCTION)"
| "edge_type (To_Context p) t = (t = JS_CONTEXT)"

definition val_edges :: "js_value \<Rightarrow> edge list" where
  "val_edges v = map To_Value (JS_MarkValue v)"

definition opt_edges :: "(ptr \<Rightarrow> edge) \<Rightarrow> ptr option \<Rightarrow> edge list" where
  "opt_edges f p = map f (mark_opt p)"

definition slot_edges :: "var_ref_slot \<Rightarrow> edge list" where
  "slot_edges s = map To_Var (mark_slot s)"

primrec prop_edges :: "js_property \<Rightarrow> edge list" where
  "prop_edges Deleted = []"
| "prop_edges (Value v) = val_edges v"
| "prop_edges (GetSet getter setter) = opt_edges To_Value getter @ opt_edges To_Value setter"
| "prop_edges (VarRefProp s) = slot_edges s"
| "prop_edges (AutoInit realm) = [To_Context realm]"

primrec class_edges :: "class_data \<Rightarrow> edge list" where
  "class_edges NoData = []"
| "class_edges (ArrayValues vs) = concat (map val_edges vs)"
| "class_edges (ObjectData v) = val_edges v"
| "class_edges (CFunction realm) = opt_edges To_Context realm"
| "class_edges (BytecodeFunction home b var_refs) =
     opt_edges To_Value home @ (case b of
       None \<Rightarrow> []
     | Some b \<Rightarrow> (case var_refs of None \<Rightarrow> [] | Some ss \<Rightarrow> concat (map slot_edges ss)) @ [To_Value b])"
| "class_edges (BoundFunction func this args) = val_edges func @ val_edges this @ concat (map val_edges args)"
| "class_edges (ForInIterator v) = val_edges v"
| "class_edges (AsyncResolve s) = opt_edges To_Async s"
| "class_edges (Other vs) = concat (map val_edges vs)"

primrec module_edges :: "module_def \<Rightarrow> edge list" where
  "module_edges (Module attrs exports vs) =
     concat (map val_edges attrs) @ concat (map (\<lambda>e. slot_edges (export_slot e)) exports) @ concat (map val_edges vs)"

primrec edges :: "gc_body \<Rightarrow> edge list" where
  "edges (JsObject sh prs cd) = [To_Shape sh] @ concat (map prop_edges prs) @ class_edges cd"
| "edges (FunctionBytecode cpool realm) = concat (map val_edges cpool) @ opt_edges To_Context realm"
| "edges (Shape proto) = opt_edges To_Value proto"
| "edges (VarRef v) = val_edges v"
| "edges (AsyncFunction active func this stack r0 r1) =
     (if active
      then val_edges func @ val_edges this @ (case stack of None \<Rightarrow> [] | Some vs \<Rightarrow> concat (map val_edges vs))
      else []) @ val_edges r0 @ val_edges r1"
| "edges (Context ms vs shs) =
     concat (map module_edges ms) @ concat (map val_edges vs) @ concat (map (opt_edges To_Shape) shs)"
| "edges (Zombie t) = []"

named_theorems edge_maps

lemma target_comp [edge_maps]: "map (target \<circ> To_Value) ps = ps" "map (target \<circ> To_Shape) ps = ps" "map (target \<circ> To_Var) ps = ps"
  "map (target \<circ> To_Async) ps = ps" "map (target \<circ> To_Context) ps = ps"
  by (simp_all add: map_idI)

lemma target_vals [edge_maps]: "map target (val_edges v) = JS_MarkValue v"
  by (simp add: val_edges_def edge_maps)

lemma target_opts [edge_maps]: "map target (opt_edges To_Value p) = mark_opt p" "map target (opt_edges To_Shape p) = mark_opt p"
  "map target (opt_edges To_Async p) = mark_opt p" "map target (opt_edges To_Context p) = mark_opt p"
  by (simp_all add: opt_edges_def edge_maps)

lemma target_slots [edge_maps]: "map target (slot_edges s) = mark_slot s"
  by (simp add: slot_edges_def edge_maps)

lemma mark_slot_export [edge_maps]: "mark_slot (export_slot e) = mark_opt e"
  by (simp add: export_slot_def mark_opt_def split: option.split)

lemma map_concat_map [edge_maps]: "map f (concat (map g xs)) = concat (map (\<lambda>x. map f (g x)) xs)"
  by (simp add: map_concat comp_def)

lemma target_props [edge_maps]: "map target (prop_edges p) = mark_property p"
  by (cases p) (simp_all add: edge_maps)

lemma target_class [edge_maps]: "map target (class_edges c) = class_gc_mark c"
  by (cases c) (simp_all add: edge_maps split: option.split)

lemma target_module [edge_maps]: "map target (module_edges m) = js_mark_module_def m"
  by (cases m) (simp add: edge_maps)

lemma children_edges: "children b = map target (edges b)"
  by (cases b) (simp_all add: edge_maps split: option.split)

text \<open>An asynchronous function that is running: the values on its stack are not visible.\<close>

fun running :: "gc_body \<Rightarrow> bool" where
  "running (AsyncFunction True func this None r0 r1) = True"
| "running b = False"

section \<open>Counted heaps\<close>

definition refs :: "runtime \<Rightarrow> ptr set \<Rightarrow> ptr \<Rightarrow> nat" where
  "refs rt S x = (\<Sum>y\<in>dom (heap rt) - S. count_list (children (body (the (heap rt y)))) x)"

definition all_list :: "runtime \<Rightarrow> ptr list" where
  "all_list rt = gc_obj_list rt @ tmp_obj_list rt @ gc_zero_ref_count_list rt"

definition lists_ok :: "runtime \<Rightarrow> bool" where
  "lists_ok rt \<longleftrightarrow> distinct (all_list rt) \<and> set (all_list rt) = dom (heap rt)"

definition typed :: "runtime \<Rightarrow> edge \<Rightarrow> bool" where
  "typed rt d \<longleftrightarrow> (\<forall>h. heap rt (target d) = Some h \<longrightarrow> edge_type d (gc_obj_type (body h)))"

text \<open>
  \<open>e\<close> counts the references from outside, \<open>S\<close> is the set of blocks being freed, whose references
  have become references from outside.
\<close>

definition counted :: "(ptr \<Rightarrow> nat) \<Rightarrow> ptr set \<Rightarrow> runtime \<Rightarrow> bool" where
  "counted e S rt \<longleftrightarrow> lists_ok rt \<and>
     (\<forall>x h. heap rt x = Some h \<longrightarrow> ref_count h = int (e x + refs rt S x)) \<and>
     (\<forall>x. heap rt x = None \<longrightarrow> e x + refs rt S x = 0) \<and>
     (\<forall>y h. heap rt y = Some h \<longrightarrow> y \<notin> S \<longrightarrow> (\<forall>d\<in>set (edges (body h)). typed rt d))"

lemma counted_dom: "counted e S rt \<Longrightarrow> 0 < e x \<Longrightarrow> \<exists>h. heap rt x = Some h \<and> 0 < ref_count h"
  unfolding counted_def by (cases "heap rt x") fastforce+

lemma lists_finite: "lists_ok rt \<Longrightarrow> finite (dom (heap rt))"
  unfolding lists_ok_def by (metis List.finite_set)

section \<open>How the primitive changes act on the counts\<close>

lemma set_header_simps [simp]:
  "heap (set_header p h rt) = (heap rt)(p := Some h)" "gc_obj_list (set_header p h rt) = gc_obj_list rt"
  "tmp_obj_list (set_header p h rt) = tmp_obj_list rt" "gc_zero_ref_count_list (set_header p h rt) = gc_zero_ref_count_list rt"
  "gc_phase (set_header p h rt) = gc_phase rt"
  by (simp_all add: set_header_def)

lemma js_free_rt_simps [simp]:
  "heap (js_free_rt p rt) = (heap rt)(p := None)" "gc_obj_list (js_free_rt p rt) = gc_obj_list rt"
  "tmp_obj_list (js_free_rt p rt) = tmp_obj_list rt" "gc_zero_ref_count_list (js_free_rt p rt) = gc_zero_ref_count_list rt"
  "gc_phase (js_free_rt p rt) = gc_phase rt"
  by (simp_all add: js_free_rt_def)

definition unlink :: "ptr \<Rightarrow> runtime \<Rightarrow> runtime" where
  "unlink p rt = rt\<lparr>gc_obj_list := remove1 p (gc_obj_list rt), tmp_obj_list := remove1 p (tmp_obj_list rt),
     gc_zero_ref_count_list := remove1 p (gc_zero_ref_count_list rt)\<rparr>"

lemma unlink_simps [simp]:
  "heap (unlink p rt) = heap rt" "gc_phase (unlink p rt) = gc_phase rt" "gc_obj_list (unlink p rt) = remove1 p (gc_obj_list rt)"
  "tmp_obj_list (unlink p rt) = remove1 p (tmp_obj_list rt)"
  "gc_zero_ref_count_list (unlink p rt) = remove1 p (gc_zero_ref_count_list rt)"
  by (simp_all add: unlink_def)

lemma list_del_unlink: "lists_ok rt \<Longrightarrow> heap rt p = Some h \<Longrightarrow> list_del p rt = Some (unlink p rt)"
  unfolding lists_ok_def all_list_def list_del_def unlink_def by auto

lemma add_ref_Some: "heap rt p = Some h \<Longrightarrow> add_ref n p rt = Some (set_header p (h\<lparr>ref_count := ref_count h + n\<rparr>) rt)"
  by (simp add: add_ref_def)

lemma refs_bodies: "(\<And>y. map_option body (heap rt' y) = map_option body (heap rt y)) \<Longrightarrow> refs rt' S x = refs rt S x"
proof -
  assume b: "\<And>y. map_option body (heap rt' y) = map_option body (heap rt y)"
  have "heap rt' y = None \<longleftrightarrow> heap rt y = None" for y using b [of y] by (metis option.map_disc_iff)
  then have "dom (heap rt') = dom (heap rt)" by (simp add: dom_def)
  moreover have "body (the (heap rt' y)) = body (the (heap rt y))" if "y \<in> dom (heap rt)" for y
    using b [of y] that by (cases "heap rt' y") auto
  ultimately show ?thesis by (simp add: refs_def)
qed

lemma refs_lists [simp]:
  "refs (unlink p rt) S x = refs rt S x" "refs (rt\<lparr>gc_obj_list := xs\<rparr>) S x = refs rt S x" "refs (rt\<lparr>tmp_obj_list := xs\<rparr>) S x = refs rt S x"
  "refs (rt\<lparr>gc_zero_ref_count_list := xs\<rparr>) S x = refs rt S x" "refs (rt\<lparr>gc_phase := ph\<rparr>) S x = refs rt S x"
  by (simp_all add: refs_def)

lemma refs_set_header: "heap rt p = Some h \<Longrightarrow> body h' = body h \<Longrightarrow> refs (set_header p h' rt) S x = refs rt S x"
  by (rule refs_bodies) simp

lemma refs_open:
  assumes "lists_ok rt" "heap rt p = Some h" "p \<notin> S"
  shows "refs rt S x = refs rt (insert p S) x + count_list (children (body h)) x"
proof -
  have "dom (heap rt) - S - {p} = dom (heap rt) - insert p S" "p \<in> dom (heap rt) - S" using assms(2,3) by auto
  then show ?thesis
    using sum.remove [of "dom (heap rt) - S" p "\<lambda>y. count_list (children (body (the (heap rt y)))) x"] lists_finite [OF assms(1)]
    by (simp add: refs_def assms(2))
qed

lemma refs_free: "refs (js_free_rt p rt) S x = refs rt (insert p S) x"
proof -
  have "dom (heap (js_free_rt p rt)) - S = dom (heap rt) - insert p S" by auto
  then show ?thesis by (simp add: refs_def)
qed

lemma lists_ok_header: "lists_ok rt \<Longrightarrow> heap rt p = Some h \<Longrightarrow> lists_ok (set_header p h' rt)"
  by (auto simp: lists_ok_def all_list_def)

lemma refs_zombie:
  assumes "lists_ok rt" "heap rt p = Some h" "p \<notin> S"
  shows "refs (set_header p (h\<lparr>body := Zombie t\<rparr>) rt) S x = refs rt (insert p S) x"
proof -
  let ?rt = "set_header p (h\<lparr>body := Zombie t\<rparr>) rt"
  have l: "lists_ok ?rt" using assms lists_ok_header by blast
  have "refs ?rt (insert p S) x = refs rt (insert p S) x" unfolding refs_def by (rule sum.cong) auto
  then show ?thesis using refs_open [OF l, of p "h\<lparr>body := Zombie t\<rparr>" S x] assms(3) by simp
qed

lemma refs_mono:
  assumes "lists_ok rt" and "\<And>y h'. heap rt' y = Some h' \<Longrightarrow> \<exists>h. heap rt y = Some h \<and> body h' = body h"
  shows "refs rt' S x \<le> refs rt S x"
proof -
  have "refs rt' S x = (\<Sum>y\<in>dom (heap rt') - S. count_list (children (body (the (heap rt y)))) x)"
    unfolding refs_def using assms(2) by (intro sum.cong) force+
  also have "\<dots> \<le> refs rt S x"
    unfolding refs_def using lists_finite [OF assms(1)] assms(2) by (intro sum_mono2) force+
  finally show ?thesis .
qed

lemma all_list_set: "lists_ok rt \<Longrightarrow> heap rt x = Some h \<Longrightarrow>
   x \<in> set (gc_obj_list rt) \<or> x \<in> set (tmp_obj_list rt) \<or> x \<in> set (gc_zero_ref_count_list rt)"
  unfolding lists_ok_def all_list_def by auto

lemma lists_ok_remove: "lists_ok rt \<Longrightarrow> heap rt p = Some h \<Longrightarrow> lists_ok (js_free_rt p (unlink p rt))"
  by (auto simp: lists_ok_def all_list_def)

lemma lists_ok_move_zero: "lists_ok rt \<Longrightarrow> heap rt p = Some h \<Longrightarrow>
   lists_ok (unlink p rt\<lparr>gc_zero_ref_count_list := p # remove1 p (gc_zero_ref_count_list rt)\<rparr>)
   \<and> lists_ok (unlink p rt\<lparr>gc_zero_ref_count_list := remove1 p (gc_zero_ref_count_list rt) @ [p]\<rparr>)"
  by (auto simp: lists_ok_def all_list_def)

text \<open>A step that changes lists or marks only.\<close>

lemma counted_lists:
  assumes "counted e S rt" "heap rt' = heap rt" "lists_ok rt'"
  shows "counted e S rt'"
proof -
  have r: "refs rt' T x = refs rt T x" for T x by (rule refs_bodies) (simp add: assms(2))
  have t: "typed rt' d = typed rt d" for d by (simp add: typed_def assms(2))
  show ?thesis using assms unfolding counted_def r t by simp
qed

lemma counted_decr:
  assumes c: "counted e S rt" and p: "heap rt p = Some h" "0 < e p"
  shows "counted (e(p := e p - 1)) S (set_header p (h\<lparr>ref_count := ref_count h - 1\<rparr>) rt)"
  unfolding counted_def
proof (intro conjI allI impI ballI)
  show "lists_ok (set_header p (h\<lparr>ref_count := ref_count h - 1\<rparr>) rt)"
    using c p by (auto simp: counted_def intro: lists_ok_header)
next
  fix x g
  assume x: "heap (set_header p (h\<lparr>ref_count := ref_count h - 1\<rparr>) rt) x = Some g"
  have "ref_count h = int (e p + refs rt S p)" using c p by (simp add: counted_def)
  then show "ref_count g = int ((e(p := e p - 1)) x + refs (set_header p (h\<lparr>ref_count := ref_count h - 1\<rparr>) rt) S x)"
    using x c p by (auto simp: refs_set_header [OF p(1)] counted_def split: if_splits)
next
  fix x
  assume x: "heap (set_header p (h\<lparr>ref_count := ref_count h - 1\<rparr>) rt) x = None"
  then have "x \<noteq> p" "heap rt x = None" by (auto split: if_splits)
  then show "(e(p := e p - 1)) x + refs (set_header p (h\<lparr>ref_count := ref_count h - 1\<rparr>) rt) S x = 0"
    using c by (simp add: refs_set_header [OF p(1)] counted_def)
next
  fix y g d
  assume y: "heap (set_header p (h\<lparr>ref_count := ref_count h - 1\<rparr>) rt) y = Some g" "y \<notin> S" "d \<in> set (edges (body g))"
  then obtain g' where g': "heap rt y = Some g'" "d \<in> set (edges (body g'))" using p(1) by (auto split: if_splits)
  then have "typed rt d" using c y(2) by (auto simp: counted_def)
  then show "typed (set_header p (h\<lparr>ref_count := ref_count h - 1\<rparr>) rt) d" using p(1) by (auto simp: typed_def)
qed

lemma counted_open:
  assumes c: "counted e S rt" and p: "heap rt p = Some h" "p \<notin> S"
  shows "counted (\<lambda>x. e x + count_list (children (body h)) x) (insert p S) rt"
proof -
  have l: "lists_ok rt" using c by (simp add: counted_def)
  show ?thesis using c unfolding counted_def by (simp add: refs_open [OF l p])
qed

lemma counted_remove:
  assumes c: "counted e (insert p S) rt" and p: "heap rt p = Some h" "p \<notin> S" "e p + refs rt (insert p S) p = 0"
  shows "counted e S (js_free_rt p (unlink p rt))"
proof -
  have l: "lists_ok rt" using c by (simp add: counted_def)
  have r: "refs (js_free_rt p (unlink p rt)) S x = refs rt (insert p S) x" for x by (simp add: refs_free)
  have t: "typed rt d \<Longrightarrow> typed (js_free_rt p (unlink p rt)) d" for d by (simp add: typed_def)
  show ?thesis unfolding counted_def r using lists_ok_remove [OF l p(1)] c p(3) t
    by (auto simp: counted_def split: if_splits)
qed

lemma counted_zombie:
  assumes c: "counted e (insert p S) rt" and p: "heap rt p = Some h" "p \<notin> S" and t: "gc_obj_type (body h) = t"
    and rt': "heap rt' = (heap rt)(p := Some (h\<lparr>body := Zombie t\<rparr>))" "lists_ok rt'"
  shows "counted e S rt'"
proof -
  have l: "lists_ok rt" using c by (simp add: counted_def)
  have "refs rt' S x = refs (set_header p (h\<lparr>body := Zombie t\<rparr>) rt) S x" for x by (rule refs_bodies) (simp add: rt')
  then have r: "refs rt' S x = refs rt (insert p S) x" for x by (simp add: refs_zombie [OF l p(1,2)])
  have ty: "typed rt d \<Longrightarrow> typed rt' d" for d using t p by (auto simp: typed_def rt')
  show ?thesis unfolding counted_def r using rt' c p ty by (auto simp: counted_def split: if_splits)
qed

section \<open>The contract of the releases\<close>

text \<open>
  What a release keeps: blocks may only disappear, and the bodies of the others stay; off the list of the
  objects to free a release takes blocks but adds none while cycles are removed.
\<close>

definition keeps :: "runtime \<Rightarrow> runtime \<Rightarrow> bool" where
  "keeps rt rt' \<longleftrightarrow> gc_phase rt' = gc_phase rt \<and>
     (\<forall>x h'. heap rt' x = Some h' \<longrightarrow> (\<exists>h. heap rt x = Some h \<and> body h' = body h \<and> mark h' = mark h)) \<and>
     set (gc_obj_list rt') \<subseteq> set (gc_obj_list rt) \<and> set (tmp_obj_list rt') \<subseteq> set (tmp_obj_list rt) \<and>
     (gc_phase rt = JS_GC_PHASE_REMOVE_CYCLES \<longrightarrow> set (gc_zero_ref_count_list rt') \<subseteq> set (gc_zero_ref_count_list rt))"

lemma keeps_refl: "keeps rt rt"
  by (simp add: keeps_def)

lemma keeps_block: "keeps rt rt' \<Longrightarrow> heap rt' x = Some h' \<Longrightarrow> \<exists>h. heap rt x = Some h \<and> body h' = body h \<and> mark h' = mark h"
  unfolding keeps_def by blast

lemma keeps_trans: assumes "keeps a b" "keeps b c" shows "keeps a c"
proof -
  have "\<exists>h. heap a x = Some h \<and> body h' = body h \<and> mark h' = mark h" if x: "heap c x = Some h'" for x h'
  proof -
    obtain g where g: "heap b x = Some g" "body h' = body g" "mark h' = mark g" using keeps_block [OF assms(2) x] by blast
    show ?thesis using keeps_block [OF assms(1) g(1)] g(2,3) by simp
  qed
  then show ?thesis using assms unfolding keeps_def by auto
qed

lemma keeps_typed: "keeps rt rt' \<Longrightarrow> typed rt d \<Longrightarrow> typed rt' d"
  unfolding keeps_def typed_def by fastforce

locale roots =
  fixes K :: "ptr \<Rightarrow> nat" and L :: "ptr set" and B :: "ptr \<Rightarrow> gc_body"
  assumes supported: "x \<in> L \<Longrightarrow> 0 < K x \<or> (\<exists>y\<in>L. x \<in> set (children (B y)))"
begin

definition core :: "(ptr \<Rightarrow> nat) \<Rightarrow> ptr set \<Rightarrow> runtime \<Rightarrow> bool" where
  "core e S rt \<longleftrightarrow> counted e S rt \<and> gc_phase rt \<noteq> JS_GC_PHASE_NONE \<and> S \<subseteq> dom (heap rt) \<and> (\<forall>x. K x \<le> e x) \<and>
     (\<forall>x\<in>L. x \<notin> S \<and> x \<in> set (gc_obj_list rt) \<and> (\<exists>h. heap rt x = Some h \<and> body h = B x)) \<and>
     (\<forall>x h. heap rt x = Some h \<longrightarrow> (running (body h) \<longrightarrow> x \<in> L) \<and> (\<forall>t. body h = Zombie t \<longrightarrow> is_value t))"

definition zero_at :: "ptr set \<Rightarrow> runtime \<Rightarrow> ptr \<Rightarrow> gc_object \<Rightarrow> bool" where
  "zero_at S rt x h \<longleftrightarrow> (\<not> is_value (gc_obj_type (body h)) \<longrightarrow> (ref_count h = 0 \<longleftrightarrow> x \<in> S)) \<and>
     (gc_phase rt = JS_GC_PHASE_DECREF \<longrightarrow>
        (x \<in> set (gc_zero_ref_count_list rt) \<longleftrightarrow> is_value (gc_obj_type (body h)) \<and> ref_count h = 0))"

definition zeros :: "ptr set \<Rightarrow> runtime \<Rightarrow> bool" where
  "zeros S rt \<longleftrightarrow> (\<forall>x h. heap rt x = Some h \<longrightarrow> zero_at S rt x h)"

lemma zero_at_header [simp]: "zero_at S (set_header p h' rt) x h = zero_at S rt x h"
  by (simp add: zero_at_def)

lemma zerosD: "zeros S rt \<Longrightarrow> heap rt x = Some h \<Longrightarrow> zero_at S rt x h"
  by (simp add: zeros_def)

definition inv :: "(ptr \<Rightarrow> nat) \<Rightarrow> ptr set \<Rightarrow> runtime \<Rightarrow> bool" where
  "inv e S rt \<longleftrightarrow> core e S rt \<and> zeros S rt"

lemma inv_core: "inv e S rt \<Longrightarrow> core e S rt" and core_counted: "core e S rt \<Longrightarrow> counted e S rt" and core_lists: "core e S rt \<Longrightarrow> lists_ok rt"
  unfolding inv_def core_def counted_def by simp_all

lemma L_count:
  assumes c: "core e S rt" and x: "x \<in> L" and h: "heap rt x = Some h"
  shows "0 < ref_count h"
proof -
  have l: "lists_ok rt" by (rule core_lists [OF c])
  have n: "ref_count h = int (e x + refs rt S x)" using core_counted [OF c] h by (simp add: counted_def)
  from supported [OF x] show ?thesis
  proof
    assume "0 < K x"
    moreover have "K x \<le> e x" using c by (simp add: core_def)
    ultimately show ?thesis using n by simp
  next
    assume "\<exists>y\<in>L. x \<in> set (children (B y))"
    then obtain y g where y: "y \<in> L" "y \<notin> S" "heap rt y = Some g" "x \<in> set (children (body g))"
      using c unfolding core_def by metis
    have "refs rt S x = refs rt (insert y S) x + count_list (children (body g)) x" by (rule refs_open [OF l y(3,2)])
    moreover have "count_list (children (body g)) x \<noteq> 0" using y(4) by (simp add: count_list_0_iff)
    ultimately show ?thesis using n by simp
  qed
qed

definition frees :: "edge list \<Rightarrow> (runtime \<Rightarrow> runtime option) \<Rightarrow> bool" where
  "frees es f \<longleftrightarrow> (\<forall>e S rt. inv e S rt \<longrightarrow> (\<forall>x. K x + count_list (map target es) x \<le> e x) \<longrightarrow> (\<forall>d\<in>set es. typed rt d) \<longrightarrow>
     (\<exists>rt'. f rt = Some rt' \<and> inv (\<lambda>x. e x - count_list (map target es) x) S rt' \<and> keeps rt rt'))"

lemma freesD: "frees es f \<Longrightarrow> inv e S rt \<Longrightarrow> (\<And>x. K x + count_list (map target es) x \<le> e x) \<Longrightarrow>
    (\<And>d. d \<in> set es \<Longrightarrow> typed rt d) \<Longrightarrow>
    \<exists>rt'. f rt = Some rt' \<and> inv (\<lambda>x. e x - count_list (map target es) x) S rt' \<and> keeps rt rt'"
  by (simp add: frees_def)

lemma frees_Nil: "frees [] Some"
  by (simp add: frees_def keeps_refl)

lemma frees_append:
  assumes "frees as f" "frees bs g"
  shows "frees (as @ bs) (\<lambda>rt. do { rt \<leftarrow> f rt; g rt })"
  unfolding frees_def
proof (intro allI impI)
  fix e S rt
  assume i: "inv e S rt" and k: "\<forall>x. K x + count_list (map target (as @ bs)) x \<le> e x" and t: "\<forall>d\<in>set (as @ bs). typed rt d"
  have "K x + count_list (map target as) x \<le> e x" for x using k [rule_format, of x] by simp
  then obtain rt1 where 1: "f rt = Some rt1" "inv (\<lambda>x. e x - count_list (map target as) x) S rt1" "keeps rt rt1"
    using freesD [OF assms(1) i] t by auto
  have "K x + count_list (map target bs) x \<le> e x - count_list (map target as) x" for x using k [rule_format, of x] by simp
  then obtain rt2 where 2: "g rt1 = Some rt2" "inv (\<lambda>x. e x - count_list (map target as) x - count_list (map target bs) x) S rt2"
      "keeps rt1 rt2"
    using freesD [OF assms(2) 1(2)] t keeps_typed [OF 1(3)] by auto
  then show "\<exists>rt'. (do { rt \<leftarrow> f rt; g rt }) = Some rt' \<and> inv (\<lambda>x. e x - count_list (map target (as @ bs)) x) S rt' \<and> keeps rt rt'"
    using 1 keeps_trans [OF 1(3) 2(3)] by (simp add: diff_diff_left)
qed

lemma frees_each: "(\<And>x. x \<in> set xs \<Longrightarrow> frees (h x) (f x)) \<Longrightarrow> frees (concat (map h xs)) (each f xs)"
proof (induction xs)
  case (Cons x xs)
  then have "frees (h x @ concat (map h xs)) (\<lambda>rt. do { rt \<leftarrow> f x rt; each f xs rt })" by (intro frees_append) simp_all
  then show ?case by simp
next
  case Nil
  have "each f [] = Some" by (rule ext) simp
  then show ?case using frees_Nil by simp
qed

lemma frees_perm: "frees as f \<Longrightarrow> mset as = mset bs \<Longrightarrow> frees bs f"
proof -
  assume "frees as f" and m: "mset as = mset bs"
  have "mset (map target as) = mset (map target bs)" using m by simp
  then have "count_list (map target as) x = count_list (map target bs) x" for x by (metis count_mset)
  then show ?thesis using \<open>frees as f\<close> mset_eq_setD [OF m] by (simp add: frees_def)
qed

lemma frees_opt: "(\<And>p. frees [d p] (f p)) \<Longrightarrow> frees (opt_edges d p) (free_opt f p)"
proof -
  assume "\<And>p. frees [d p] (f p)"
  moreover have "free_opt f None = Some" by (rule ext) (simp add: free_opt_def)
  moreover have "free_opt f (Some q) = f q" for q by (rule ext) (simp add: free_opt_def)
  ultimately show ?thesis using frees_Nil by (cases p) (simp_all add: opt_edges_def mark_opt_def)
qed

end

context roots
begin

lemma core_decr:
  assumes c: "core e S rt" and p: "heap rt p = Some h" "K p < e p"
  shows "core (e(p := e p - 1)) S (set_header p (h\<lparr>ref_count := ref_count h - 1\<rparr>) rt)"
proof -
  have "counted (e(p := e p - 1)) S (set_header p (h\<lparr>ref_count := ref_count h - 1\<rparr>) rt)"
    using counted_decr [OF core_counted [OF c] p(1)] p(2) by simp
  then show ?thesis using c p unfolding core_def by auto
qed

lemma keeps_header: "heap rt p = Some h \<Longrightarrow> body h' = body h \<Longrightarrow> mark h' = mark h \<Longrightarrow> keeps rt (set_header p h' rt)"
  by (simp add: keeps_def)

lemma take_one: "(\<lambda>x. e x - count_list (map target [d]) x) = e(target d := e (target d) - 1)"
  by (rule ext) simp

text \<open>The common start of every release: the count goes down by one; at zero \<open>g\<close> does the rest.\<close>

lemma frees_count:
  assumes "\<And>e S rt h. core (e(target d := e (target d) - 1)) S rt \<Longrightarrow> heap rt (target d) = Some h \<Longrightarrow> ref_count h = 0 \<Longrightarrow>
      target d \<notin> L \<Longrightarrow> typed rt d \<Longrightarrow> target d \<in> S \<longrightarrow> is_value (gc_obj_type (body h)) \<Longrightarrow>
      (\<And>x g. x \<noteq> target d \<Longrightarrow> heap rt x = Some g \<Longrightarrow> zero_at S rt x g) \<Longrightarrow>
      (gc_phase rt = JS_GC_PHASE_DECREF \<longrightarrow> target d \<notin> set (gc_zero_ref_count_list rt)) \<Longrightarrow>
      \<exists>rt'. g rt = Some rt' \<and> inv (e(target d := e (target d) - 1)) S rt' \<and> keeps rt rt'"
    and f: "\<And>rt h. heap rt (target d) = Some h \<Longrightarrow> 0 < ref_count h \<Longrightarrow>
      f rt = (let rt' = set_header (target d) (h\<lparr>ref_count := ref_count h - 1\<rparr>) rt in if ref_count h = 1 then g rt' else Some rt')"
  shows "frees [d] f"
  unfolding frees_def take_one
proof (intro allI impI)
  fix e S rt
  assume i: "inv e S rt" and k: "\<forall>x. K x + count_list (map target [d]) x \<le> e x" and t: "\<forall>d'\<in>set [d]. typed rt d'"
  define p where "p = target d"
  have k: "K p < e p" using k [rule_format, of p] by (simp add: p_def)
  note c = inv_core [OF i]
  obtain h where h: "heap rt p = Some h" "0 < ref_count h" using counted_dom [OF core_counted [OF c], of p] k by auto
  define rt1 where "rt1 = set_header p (h\<lparr>ref_count := ref_count h - 1\<rparr>) rt"
  have c1: "core (e(p := e p - 1)) S rt1" unfolding rt1_def by (rule core_decr [OF c h(1) k])
  have k1: "keeps rt rt1" unfolding rt1_def by (rule keeps_header [OF h(1)]) simp_all
  have z: "zero_at S rt p h" using i h unfolding inv_def zeros_def by simp
  show "\<exists>rt'. f rt = Some rt' \<and> inv (e(target d := e (target d) - 1)) S rt' \<and> keeps rt rt'"
  proof (cases "ref_count h = 1")
    case False
    have "zero_at S rt p (h\<lparr>ref_count := ref_count h - 1\<rparr>)" using z h False by (simp add: zero_at_def)
    then have "zeros S rt1" using i unfolding inv_def zeros_def rt1_def by auto
    then show ?thesis using f [of rt h] h False c1 k1 by (simp add: p_def rt1_def inv_def)
  next
    case True
    have h1: "heap rt1 p = Some (h\<lparr>ref_count := 0\<rparr>)" using True by (simp add: rt1_def)
    have "p \<notin> L" using L_count [OF c1 _ h1] by auto
    moreover have "typed rt1 d" using keeps_typed [OF k1] t by simp
    moreover have "p \<in> S \<longrightarrow> is_value (gc_obj_type (body h))" "gc_phase rt1 = JS_GC_PHASE_DECREF \<longrightarrow> p \<notin> set (gc_zero_ref_count_list rt1)"
      using z h(2) by (auto simp: zero_at_def rt1_def)
    moreover have "zero_at S rt1 x g" if "x \<noteq> p" "heap rt1 x = Some g" for x g
      using i that unfolding inv_def zeros_def rt1_def by simp
    ultimately obtain rt' where rt': "g rt1 = Some rt'" "inv (e(p := e p - 1)) S rt'" "keeps rt1 rt'"
      using assms(1) [of e S rt1 "h\<lparr>ref_count := 0\<rparr>"] c1 h1 unfolding p_def by auto
    then show ?thesis using f [of rt h] h True keeps_trans [OF k1 rt'(3)] by (simp add: p_def rt1_def)
  qed
qed

lemma frees_free_ref: "frees [To_Value p] (free_ref p)"
proof (rule frees_count [where g = "js_free_value_rt p"])
  fix e S rt h
  assume "core (e(target (To_Value p) := e (target (To_Value p)) - 1)) S rt" and "heap rt (target (To_Value p)) = Some h"
    and z: "ref_count h = 0" and "target (To_Value p) \<notin> L" and "typed rt (To_Value p)"
    and "\<And>x g. x \<noteq> target (To_Value p) \<Longrightarrow> heap rt x = Some g \<Longrightarrow> zero_at S rt x g"
    and "gc_phase rt = JS_GC_PHASE_DECREF \<longrightarrow> target (To_Value p) \<notin> set (gc_zero_ref_count_list rt)"
  then have c: "core (e(p := e p - 1)) S rt" and h: "heap rt p = Some h" and L: "p \<notin> L" and v: "is_value (gc_obj_type (body h))"
    and zs: "\<And>x g. x \<noteq> p \<Longrightarrow> heap rt x = Some g \<Longrightarrow> zero_at S rt x g" by (simp_all add: typed_def)
  show "\<exists>rt'. js_free_value_rt p rt = Some rt' \<and> inv (e(target (To_Value p) := e (target (To_Value p)) - 1)) S rt' \<and> keeps rt rt'"
  proof (cases "gc_phase rt = JS_GC_PHASE_REMOVE_CYCLES")
    case True
    then have "zero_at S rt p h" using v by (simp add: zero_at_def)
    then have "zeros S rt" using zs h unfolding zeros_def by (metis option.inject)
    then show ?thesis using c True by (simp add: js_free_value_rt_def inv_def keeps_refl)
  next
    case False
    then have d: "gc_phase rt = JS_GC_PHASE_DECREF" using c by (cases "gc_phase rt") (simp_all add: core_def)
    note l = core_lists [OF c]
    define rt' where "rt' = unlink p rt\<lparr>gc_zero_ref_count_list := p # remove1 p (gc_zero_ref_count_list rt)\<rparr>"
    have e: "js_free_value_rt p rt = Some rt'"
      using False by (simp add: js_free_value_rt_def list_del_unlink [OF l h] rt'_def)
    have "counted (e(p := e p - 1)) S rt'"
      unfolding rt'_def by (rule counted_lists [OF core_counted [OF c]]) (simp_all add: lists_ok_move_zero [OF l h])
    moreover have "x \<in> set (remove1 p (gc_obj_list rt)) \<longleftrightarrow> x \<in> set (gc_obj_list rt)" if "x \<in> L" for x
      using that L by (intro in_set_remove1) auto
    ultimately have "core (e(p := e p - 1)) S rt'" using c unfolding core_def rt'_def by auto
    moreover have "zeros S rt'"
    proof -
      have dz: "distinct (gc_zero_ref_count_list rt)" using l by (simp add: lists_ok_def all_list_def)
      have "zero_at S rt' x g" if x: "heap rt x = Some g" for x g
      proof (cases "x = p")
        case True
        then show ?thesis using v z h x by (simp add: zero_at_def rt'_def)
      next
        case False
        then show ?thesis using zs [OF False x] dz by (simp add: zero_at_def rt'_def)
      qed
      then show ?thesis by (simp add: zeros_def rt'_def)
    qed
    moreover have "keeps rt rt'" using d by (auto simp: keeps_def rt'_def dest: set_remove1_subset [THEN subsetD])
    ultimately show ?thesis using e by (simp add: inv_def)
  qed
next
  fix rt :: runtime and h
  assume "heap rt (target (To_Value p)) = Some h" "0 < ref_count h"
  then show "free_ref p rt = (let rt' = set_header (target (To_Value p)) (h\<lparr>ref_count := ref_count h - 1\<rparr>) rt
      in if ref_count h = 1 then js_free_value_rt p rt' else Some rt')"
    by (simp add: free_ref_def add_ref_Some get_count_def Let_def)
qed

end

context roots
begin

text \<open>Blocks without a value: at zero they release their references and go.\<close>

lemma core_open:
  assumes c: "core e S rt" and p: "heap rt p = Some h" "p \<notin> S" "p \<notin> L"
  shows "core (\<lambda>x. e x + count_list (children (body h)) x) (insert p S) rt"
proof -
  have "K x \<le> e x + count_list (children (body h)) x" for x using c by (simp add: core_def trans_le_add1)
  moreover have "x \<in> L \<Longrightarrow> x \<notin> insert p S" for x using c p(3) by (auto simp: core_def)
  ultimately show ?thesis using counted_open [OF core_counted [OF c] p(1,2)] c p(1) unfolding core_def by blast
qed

lemma keeps_release: "lists_ok rt \<Longrightarrow> keeps rt (js_free_rt p (unlink p rt))"
  using set_remove1_subset by (auto simp: keeps_def dest!: set_remove1_subset [THEN subsetD])

lemma inv_release:
  assumes i: "inv e (insert p S) rt" and p: "heap rt p = Some h" "p \<notin> S" "ref_count h = 0"
  shows "release_block p rt = Some (js_free_rt p (unlink p rt))" "inv e S (js_free_rt p (unlink p rt))"
    "keeps rt (js_free_rt p (unlink p rt))"
proof -
  note c = inv_core [OF i]
  note l = core_lists [OF c]
  show "release_block p rt = Some (js_free_rt p (unlink p rt))"
    by (simp add: release_block_def list_del_unlink [OF l p(1)])
  have "e p + refs rt (insert p S) p = 0" using core_counted [OF c] p by (simp add: counted_def)
  then have n: "counted e S (js_free_rt p (unlink p rt))" by (rule counted_remove [OF core_counted [OF c] p(1,2)])
  have pL: "p \<notin> L" using c by (auto simp: core_def)
  then have "x \<in> set (remove1 p (gc_obj_list rt)) \<longleftrightarrow> x \<in> set (gc_obj_list rt)" if "x \<in> L" for x
    using that by (intro in_set_remove1) auto
  then have "core e S (js_free_rt p (unlink p rt))" using n c p(2) pL unfolding core_def by auto
  moreover have "zero_at S (js_free_rt p (unlink p rt)) x g" if "x \<noteq> p" "zero_at (insert p S) rt x g" for x g
    using that by (simp add: zero_at_def)
  then have "zeros S (js_free_rt p (unlink p rt))" using i unfolding inv_def zeros_def by simp
  ultimately show "inv e S (js_free_rt p (unlink p rt))" by (simp add: inv_def)
  show "keeps rt (js_free_rt p (unlink p rt))" by (rule keeps_release [OF l])
qed

lemma frees_node:
  assumes nv: "\<And>t. edge_type d t \<Longrightarrow> \<not> is_value t"
    and g: "\<And>rt h. heap rt (target d) = Some h \<Longrightarrow> ref_count h = 0 \<Longrightarrow> edge_type d (gc_obj_type (body h)) \<Longrightarrow> \<not> running (body h) \<Longrightarrow>
      (\<And>t. body h \<noteq> Zombie t) \<Longrightarrow>
      \<exists>g0. frees (edges (body h)) g0 \<and> g rt = do { rt \<leftarrow> g0 rt; release_block (target d) rt }"
    and f: "\<And>rt h. heap rt (target d) = Some h \<Longrightarrow> 0 < ref_count h \<Longrightarrow>
      f rt = (let rt' = set_header (target d) (h\<lparr>ref_count := ref_count h - 1\<rparr>) rt in if ref_count h = 1 then g rt' else Some rt')"
  shows "frees [d] f"
proof (rule frees_count [where g = g])
  fix e S rt h
  assume c: "core (e(target d := e (target d) - 1)) S rt" and h: "heap rt (target d) = Some h" and z: "ref_count h = 0"
    and L: "target d \<notin> L" and t: "typed rt d" and s: "target d \<in> S \<longrightarrow> is_value (gc_obj_type (body h))"
    and zs: "\<And>x g. x \<noteq> target d \<Longrightarrow> heap rt x = Some g \<Longrightarrow> zero_at S rt x g"
    and dz: "gc_phase rt = JS_GC_PHASE_DECREF \<longrightarrow> target d \<notin> set (gc_zero_ref_count_list rt)"
  define p where "p = target d"
  define e1 where "e1 = e(p := e p - 1)"
  define n where "n = count_list (children (body h))"
  have ty: "edge_type d (gc_obj_type (body h))" using t h by (simp add: typed_def)
  have v: "\<not> is_value (gc_obj_type (body h))" by (rule nv [OF ty])
  have pS: "p \<notin> S" using s v by (auto simp: p_def)
  have r: "\<not> running (body h)" "body h \<noteq> Zombie t" for t using c h L v unfolding core_def by fastforce+
  obtain g0 where g0: "frees (edges (body h)) g0" "g rt = do { rt \<leftarrow> g0 rt; release_block p rt }"
    using g [OF h z ty r] by (auto simp: p_def)
  have "core (\<lambda>x. e1 x + n x) (insert p S) rt"
    using core_open [OF c h] pS L by (simp add: p_def e1_def n_def)
  moreover have "zero_at (insert p S) rt x k" if "heap rt x = Some k" for x k
    using zs [of x k] that z v h dz by (cases "x = p") (auto simp: zero_at_def p_def)
  ultimately have i1: "inv (\<lambda>x. e1 x + n x) (insert p S) rt" by (simp add: inv_def zeros_def)
  have k: "K x + count_list (map target (edges (body h))) x \<le> e1 x + n x" for x
    using c unfolding core_def by (simp add: n_def children_edges e1_def p_def)
  have "typed rt d'" if "d' \<in> set (edges (body h))" for d'
    using core_counted [OF c] h pS that by (auto simp: counted_def p_def)
  then obtain rt2 where rt2: "g0 rt = Some rt2" "inv e1 (insert p S) rt2" "keeps rt rt2"
    using freesD [OF g0(1) i1 k] by (auto simp: n_def children_edges)
  obtain h2 where h2: "heap rt2 p = Some h2" using rt2(2) by (auto simp: inv_def core_def)
  have "body h2 = body h" using keeps_block [OF rt2(3) h2] h by (simp add: p_def)
  then have "ref_count h2 = 0" using rt2(2) h2 v by (simp add: inv_def zeros_def zero_at_def)
  note R = inv_release [OF rt2(2) h2 pS this]
  show "\<exists>rt'. g rt = Some rt' \<and> inv (e(target d := e (target d) - 1)) S rt' \<and> keeps rt rt'"
    using g0(2) rt2(1) R keeps_trans [OF rt2(3) R(3)] by (simp add: e1_def p_def)
qed (rule f)

end

context roots
begin

lemma frees_value: "frees (val_edges v) (JS_FreeValueRT v)"
proof (cases v)
  case Plain
  have "JS_FreeValueRT Plain = Some" by (rule ext) simp
  then show ?thesis using Plain frees_Nil by (simp add: val_edges_def)
next
  case (Ref p)
  have "JS_FreeValueRT (Ref p) = free_ref p" by (rule ext) simp
  then show ?thesis using Ref frees_free_ref by (simp add: val_edges_def)
qed

lemmas frees_values = frees_each [of _ val_edges JS_FreeValueRT, OF frees_value]
lemmas frees_opt_ref = frees_opt [of To_Value free_ref, OF frees_free_ref]

lemma frees_shape: "frees [To_Shape p] (js_free_shape p)"
proof (rule frees_node [where g = "js_free_shape0 p"])
  fix rt :: runtime and h
  assume h: "heap rt (target (To_Shape p)) = Some h" "ref_count h = 0" "edge_type (To_Shape p) (gc_obj_type (body h))"
    and z: "\<And>t. body h \<noteq> Zombie t"
  then obtain proto where b: "body h = Shape proto" by (cases "body h") auto
  then have "js_free_shape0 p rt = do { rt \<leftarrow> free_opt free_ref proto rt; release_block (target (To_Shape p)) rt }"
    using h by (simp add: js_free_shape0_def)
  moreover have "frees (edges (body h)) (free_opt free_ref proto)" using frees_opt_ref by (simp add: b)
  ultimately show "\<exists>g0. frees (edges (body h)) g0 \<and> js_free_shape0 p rt = do { rt \<leftarrow> g0 rt; release_block (target (To_Shape p)) rt }"
    by blast
next
  fix rt :: runtime and h
  assume "heap rt (target (To_Shape p)) = Some h" "0 < ref_count h"
  then show "js_free_shape p rt = (let rt' = set_header (target (To_Shape p)) (h\<lparr>ref_count := ref_count h - 1\<rparr>) rt
      in if ref_count h = 1 then js_free_shape0 p rt' else Some rt')"
    by (simp add: js_free_shape_def add_ref_Some get_count_def Let_def)
qed (simp add: is_value_def)

lemma frees_detached: "frees [To_Var p] (free_detached p)"
proof (rule frees_node [where g = "\<lambda>rt. do { r \<leftarrow> heap rt p;
      case body r of VarRef v \<Rightarrow> do { rt \<leftarrow> JS_FreeValueRT v rt; release_block p rt } | _ \<Rightarrow> None }"])
  fix rt :: runtime and h
  assume h: "heap rt (target (To_Var p)) = Some h" "edge_type (To_Var p) (gc_obj_type (body h))" and z: "\<And>t. body h \<noteq> Zombie t"
  then obtain v where b: "body h = VarRef v" by (cases "body h") auto
  have "frees (edges (body h)) (JS_FreeValueRT v)" using frees_value by (simp add: b)
  then show "\<exists>g0. frees (edges (body h)) g0 \<and> (do { r \<leftarrow> heap rt p;
      case body r of VarRef v \<Rightarrow> do { rt \<leftarrow> JS_FreeValueRT v rt; release_block p rt } | _ \<Rightarrow> None })
      = do { rt \<leftarrow> g0 rt; release_block (target (To_Var p)) rt }"
    using h(1) b by (intro exI [of _ "JS_FreeValueRT v"]) simp
next
  fix rt :: runtime and h
  assume "heap rt (target (To_Var p)) = Some h" "0 < ref_count h"
  then show "free_detached p rt = (let rt' = set_header (target (To_Var p)) (h\<lparr>ref_count := ref_count h - 1\<rparr>) rt
      in if ref_count h = 1 then (do { r \<leftarrow> heap rt' p;
        case body r of VarRef v \<Rightarrow> do { rt \<leftarrow> JS_FreeValueRT v rt'; release_block p rt } | _ \<Rightarrow> None }) else Some rt')"
    by (simp add: free_detached_def add_ref_Some get_count_def Let_def)
qed (simp add: is_value_def)

lemma frees_slot: "frees (slot_edges s) (free_var_ref s)"
proof (cases s)
  case (Detached p)
  have "free_var_ref (Detached p) = free_detached p" by (rule ext) simp
  then show ?thesis using Detached frees_detached by (simp add: slot_edges_def)
next
  case No_Var
  have "free_var_ref No_Var = Some" by (rule ext) simp
  then show ?thesis using No_Var frees_Nil by (simp add: slot_edges_def)
next
  case Open_Var
  have "free_var_ref Open_Var = Some" by (rule ext) simp
  then show ?thesis using Open_Var frees_Nil by (simp add: slot_edges_def)
qed

lemmas frees_slots = frees_each [of _ slot_edges free_var_ref, OF frees_slot]

lemmas frees_exports =
  frees_each [of _ "\<lambda>e. slot_edges (export_slot e)" "\<lambda>e. free_var_ref (export_slot e)", OF frees_slot]

lemma frees_module: "frees (module_edges m) (js_free_module_def m)"
proof (cases m)
  case (Module attrs exports vs)
  have "frees (concat (map val_edges attrs) @ (concat (map (\<lambda>e. slot_edges (export_slot e)) exports) @ concat (map val_edges vs)))
      (\<lambda>rt. do { rt \<leftarrow> each JS_FreeValueRT attrs rt; (\<lambda>rt. do { rt \<leftarrow> each (\<lambda>e. free_var_ref (export_slot e)) exports rt; each JS_FreeValueRT vs rt }) rt })"
    by (intro frees_append frees_values frees_exports)
  moreover have "js_free_module_def m = (\<lambda>rt. do { rt \<leftarrow> each JS_FreeValueRT attrs rt;
      (\<lambda>rt. do { rt \<leftarrow> each (\<lambda>e. free_var_ref (export_slot e)) exports rt; each JS_FreeValueRT vs rt }) rt })"
    by (rule ext) (simp add: Module)
  ultimately show ?thesis by (simp add: Module)
qed

lemma frees_context: "frees [To_Context p] (JS_FreeContext p)"
proof (rule frees_node [where g = "\<lambda>rt. do { ctx \<leftarrow> heap rt p; case body ctx of
      Context ms vs shs \<Rightarrow> do { rt \<leftarrow> each js_free_module_def ms rt; rt \<leftarrow> each JS_FreeValueRT vs rt;
        rt \<leftarrow> each (free_opt js_free_shape) shs rt; release_block p rt } | _ \<Rightarrow> None }"])
  fix rt :: runtime and h
  assume h: "heap rt (target (To_Context p)) = Some h" "edge_type (To_Context p) (gc_obj_type (body h))" and z: "\<And>t. body h \<noteq> Zombie t"
  then obtain ms vs shs where b: "body h = Context ms vs shs" by (cases "body h") auto
  define g0 where "g0 = (\<lambda>rt. do { rt \<leftarrow> each js_free_module_def ms rt;
      (\<lambda>rt. do { rt \<leftarrow> each JS_FreeValueRT vs rt; each (free_opt js_free_shape) shs rt }) rt })"
  have "frees (concat (map module_edges ms) @ (concat (map val_edges vs) @ concat (map (opt_edges To_Shape) shs))) g0"
    unfolding g0_def by (intro frees_append frees_values frees_each frees_module frees_opt frees_shape)
  then have "frees (edges (body h)) g0" by (simp add: b)
  then show "\<exists>g0. frees (edges (body h)) g0 \<and> (do { ctx \<leftarrow> heap rt p; case body ctx of
      Context ms vs shs \<Rightarrow> do { rt \<leftarrow> each js_free_module_def ms rt; rt \<leftarrow> each JS_FreeValueRT vs rt;
        rt \<leftarrow> each (free_opt js_free_shape) shs rt; release_block p rt } | _ \<Rightarrow> None })
      = do { rt \<leftarrow> g0 rt; release_block (target (To_Context p)) rt }"
    using h(1) b by (intro exI [of _ g0]) (simp add: g0_def)
next
  fix rt :: runtime and h
  assume "heap rt (target (To_Context p)) = Some h" "0 < ref_count h"
  then show "JS_FreeContext p rt = (let rt' = set_header (target (To_Context p)) (h\<lparr>ref_count := ref_count h - 1\<rparr>) rt
      in if ref_count h = 1 then (do { ctx \<leftarrow> heap rt' p; case body ctx of
      Context ms vs shs \<Rightarrow> do { rt \<leftarrow> each js_free_module_def ms rt'; rt \<leftarrow> each JS_FreeValueRT vs rt;
        rt \<leftarrow> each (free_opt js_free_shape) shs rt; release_block p rt } | _ \<Rightarrow> None }) else Some rt')"
    by (simp add: JS_FreeContext_def add_ref_Some Let_def)
qed (simp add: is_value_def)

end

context roots
begin

lemma frees_async: "frees [To_Async p] (js_async_function_free p)"
proof (rule frees_node [where g = "js_async_function_free0 p"])
  fix rt :: runtime and h
  assume h: "heap rt (target (To_Async p)) = Some h" "edge_type (To_Async p) (gc_obj_type (body h))" and z: "\<And>t. body h \<noteq> Zombie t"
    and nr: "\<not> running (body h)"
  then obtain active func this stack r0 r1 where b: "body h = AsyncFunction active func this stack r0 r1" by (cases "body h") auto
  define g1 where "g1 = (if active then async_func_free func this stack else Some)"
  define es where "es = (if active then val_edges func @ val_edges this @ (case stack of None \<Rightarrow> [] | Some vs \<Rightarrow> concat (map val_edges vs)) else [])"
  have 1: "frees es g1"
  proof (cases "active")
    case True
    then obtain vs where vs: "stack = Some vs" using nr b by (cases stack) auto
    have "frees (concat (map val_edges vs) @ (val_edges func @ val_edges this))
        (\<lambda>rt. do { rt \<leftarrow> each JS_FreeValueRT vs rt; (\<lambda>rt. do { rt \<leftarrow> JS_FreeValueRT func rt; JS_FreeValueRT this rt }) rt })"
      by (intro frees_append frees_values frees_value)
    moreover have "async_func_free func this stack =
        (\<lambda>rt. do { rt \<leftarrow> each JS_FreeValueRT vs rt; (\<lambda>rt. do { rt \<leftarrow> JS_FreeValueRT func rt; JS_FreeValueRT this rt }) rt })"
      by (rule ext) (simp add: async_func_free_def vs)
    ultimately have "frees (concat (map val_edges vs) @ (val_edges func @ val_edges this)) (async_func_free func this stack)" by simp
    then show ?thesis unfolding g1_def es_def using True vs by (auto intro: frees_perm)
  next
    case False
    then show ?thesis using frees_Nil by (simp add: g1_def es_def)
  qed
  define g0 where "g0 = (\<lambda>rt. do { rt \<leftarrow> g1 rt; (\<lambda>rt. do { rt \<leftarrow> JS_FreeValueRT r0 rt; JS_FreeValueRT r1 rt }) rt })"
  have "frees (es @ (val_edges r0 @ val_edges r1)) g0" unfolding g0_def by (intro frees_append 1 frees_value)
  then have "frees (edges (body h)) g0" by (simp add: b es_def)
  moreover have "js_async_function_free0 p rt = do { rt \<leftarrow> g0 rt; release_block (target (To_Async p)) rt }"
    using h(1) b by (simp add: js_async_function_free0_def g0_def g1_def)
  ultimately show "\<exists>g0. frees (edges (body h)) g0 \<and> js_async_function_free0 p rt = do { rt \<leftarrow> g0 rt; release_block (target (To_Async p)) rt }"
    by blast
next
  fix rt :: runtime and h
  assume "heap rt (target (To_Async p)) = Some h" "0 < ref_count h"
  then show "js_async_function_free p rt = (let rt' = set_header (target (To_Async p)) (h\<lparr>ref_count := ref_count h - 1\<rparr>) rt
      in if ref_count h = 1 then js_async_function_free0 p rt' else Some rt')"
    by (simp add: js_async_function_free_def add_ref_Some get_count_def Let_def)
qed (simp add: is_value_def)

lemma frees_eq: "frees es f \<Longrightarrow> (\<And>rt. g rt = f rt) \<Longrightarrow> frees es g"
  by (metis ext)

lemma frees_property: "frees (prop_edges pr) (free_property pr)"
proof (cases pr)
  case (GetSet getter setter)
  have "frees (opt_edges To_Value getter @ opt_edges To_Value setter)
      (\<lambda>rt. do { rt \<leftarrow> free_opt free_ref getter rt; free_opt free_ref setter rt })"
    by (intro frees_append frees_opt_ref)
  then show ?thesis using GetSet by (auto intro: frees_eq)
qed (auto intro: frees_eq [OF frees_Nil] frees_eq [OF frees_value] frees_eq [OF frees_slot] frees_eq [OF frees_context])

lemma frees_class: "frees (class_edges c) (class_finalizer c)"
proof (cases c)
  case (BytecodeFunction home b var_refs)
  show ?thesis
  proof (cases b)
    case None
    have "frees (opt_edges To_Value home @ []) (\<lambda>rt. do { rt \<leftarrow> free_opt free_ref home rt; Some rt })"
      by (intro frees_append frees_opt_ref frees_Nil)
    then show ?thesis using BytecodeFunction None by (auto intro: frees_eq)
  next
    case (Some q)
    have v: "frees (case var_refs of None \<Rightarrow> [] | Some ss \<Rightarrow> concat (map slot_edges ss))
        (case var_refs of None \<Rightarrow> Some | Some ss \<Rightarrow> each free_var_ref ss)"
      using frees_slots frees_Nil by (cases var_refs) auto
    have "frees (opt_edges To_Value home @ ((case var_refs of None \<Rightarrow> [] | Some ss \<Rightarrow> concat (map slot_edges ss)) @ [To_Value q]))
        (\<lambda>rt. do { rt \<leftarrow> free_opt free_ref home rt;
           (\<lambda>rt. do { rt \<leftarrow> (case var_refs of None \<Rightarrow> Some | Some ss \<Rightarrow> each free_var_ref ss) rt; free_ref q rt }) rt })"
      by (intro frees_append frees_opt_ref v frees_free_ref)
    then show ?thesis using BytecodeFunction Some by (cases var_refs) (auto intro: frees_eq)
  qed
next
  case (BoundFunction func this args)
  have "frees (val_edges func @ (val_edges this @ concat (map val_edges args)))
      (\<lambda>rt. do { rt \<leftarrow> JS_FreeValueRT func rt; (\<lambda>rt. do { rt \<leftarrow> JS_FreeValueRT this rt; each JS_FreeValueRT args rt }) rt })"
    by (intro frees_append frees_value frees_values)
  then show ?thesis using BoundFunction by (auto intro: frees_eq)
qed (auto intro: frees_eq [OF frees_Nil] frees_eq [OF frees_value] frees_eq [OF frees_values]
      frees_eq [OF frees_opt [OF frees_context]] frees_eq [OF frees_opt [OF frees_async]])

end

end
