(* ===== verification/Gc_Free.thy ===== *)
theory Gc_Free
  imports Gc_Release
begin

text \<open>
  Freeing an object keeps the counts exact, and the loops that free the queued objects
  (\<open>free_zero_refcount\<close>) and the cycles (\<open>gc_free_cycles\<close>) end.
\<close>

section \<open>One object\<close>

context roots
begin

lemma free_body:
  assumes h: "heap rt p = Some h" "is_value (gc_obj_type (body h))" "\<And>t. body h \<noteq> Zombie t"
  shows "\<exists>g. frees (edges (body h)) g \<and> free_gc_object p rt = do { rt \<leftarrow> g rt; finish_free (gc_obj_type (body h)) p rt }"
proof -
  consider sh prs cd where "body h = JsObject sh prs cd" | cpool realm where "body h = FunctionBytecode cpool realm"
    using h(2,3) by (cases "body h") (auto simp: is_value_def)
  then show ?thesis
  proof cases
    case 1
    define g where "g = (\<lambda>rt. do { rt \<leftarrow> each free_property prs rt;
        (\<lambda>rt. do { rt \<leftarrow> js_free_shape sh rt; class_finalizer cd rt }) rt })"
    have "frees (concat (map prop_edges prs) @ ([To_Shape sh] @ class_edges cd)) g"
      unfolding g_def by (intro frees_append frees_each frees_property frees_shape frees_class)
    then have "frees (edges (body h)) g" by (rule frees_perm) (simp add: 1)
    moreover have "free_gc_object p rt = do { rt \<leftarrow> g rt; finish_free (gc_obj_type (body h)) p rt }"
      using h(1) by (simp add: free_gc_object_def free_object_def 1 g_def)
    ultimately show ?thesis by blast
  next
    case 2
    define g where "g = (\<lambda>rt. do { rt \<leftarrow> each JS_FreeValueRT cpool rt; free_opt JS_FreeContext realm rt })"
    have "frees (edges (body h)) g" unfolding g_def 2 edges.simps by (intro frees_append frees_values frees_opt frees_context)
    moreover have "free_gc_object p rt = do { rt \<leftarrow> g rt; finish_free (gc_obj_type (body h)) p rt }"
      using h(1) by (simp add: free_gc_object_def free_function_bytecode_def 2 g_def)
    ultimately show ?thesis by blast
  qed
qed

text \<open>What is left of the object: nothing, or a zombie on the list of the blocks to release.\<close>

definition freed :: "ptr \<Rightarrow> runtime \<Rightarrow> runtime \<Rightarrow> bool" where
  "freed p rt rt' \<longleftrightarrow> gc_phase rt' = gc_phase rt \<and>
     (\<forall>x h'. heap rt' x = Some h' \<longrightarrow> (\<exists>h. heap rt x = Some h \<and> mark h' = mark h \<and>
        (if x = p then gc_phase rt = JS_GC_PHASE_REMOVE_CYCLES \<and> (\<exists>t. body h' = Zombie t) else body h' = body h))) \<and>
     set (gc_obj_list rt') \<subseteq> set (gc_obj_list rt) - {p} \<and> set (tmp_obj_list rt') \<subseteq> set (tmp_obj_list rt) - {p} \<and>
     (gc_phase rt = JS_GC_PHASE_REMOVE_CYCLES \<longrightarrow> set (gc_zero_ref_count_list rt') \<subseteq> insert p (set (gc_zero_ref_count_list rt)))"

lemma lists_remove1: "lists_ok rt \<Longrightarrow> set (remove1 p (gc_obj_list rt)) = set (gc_obj_list rt) - {p}"
  "lists_ok rt \<Longrightarrow> set (remove1 p (tmp_obj_list rt)) = set (tmp_obj_list rt) - {p}"
  "lists_ok rt \<Longrightarrow> set (remove1 p (gc_zero_ref_count_list rt)) = set (gc_zero_ref_count_list rt) - {p}"
  by (simp_all add: lists_ok_def all_list_def)

lemma freed_keeps:
  assumes k: "keeps rt rt1" and l: "lists_ok rt1"
  shows "freed p rt (js_free_rt p (unlink p rt1))"
proof -
  have "\<exists>h. heap rt x = Some h \<and> mark h' = mark h \<and> body h' = body h \<and> x \<noteq> p"
    if "heap (js_free_rt p (unlink p rt1)) x = Some h'" for x h'
    using that keeps_block [OF k, of x h'] by (auto split: if_splits)
  then show ?thesis using k unfolding freed_def keeps_def by (fastforce simp: lists_remove1 [OF l])
qed

lemma finish_zombie:
  assumes i: "inv e {p} rt" and h: "heap rt p = Some h" "is_value (gc_obj_type (body h))"
    and r: "gc_phase rt = JS_GC_PHASE_REMOVE_CYCLES" "ref_count h \<noteq> 0" and k: "keeps rt0 rt"
  shows "\<exists>rt'. finish_free (gc_obj_type (body h)) p rt = Some rt' \<and> inv e {} rt' \<and> freed p rt0 rt'"
proof -
  define t where "t = gc_obj_type (body h)"
  note c = inv_core [OF i]
  note l = core_lists [OF c]
  define rt' where "rt' = set_header p (h\<lparr>body := Zombie t\<rparr>) (unlink p rt)\<lparr>gc_zero_ref_count_list := remove1 p (gc_zero_ref_count_list rt) @ [p]\<rparr>"
  have H: "heap rt' = (heap rt)(p := Some (h\<lparr>body := Zombie t\<rparr>))" by (simp add: rt'_def)
  have "finish_free t p rt = Some rt'"
    using h r by (simp add: finish_free_def list_del_unlink [OF l h(1)] rt'_def)
  moreover have "inv e {} rt'"
  proof -
    have "lists_ok (unlink p rt\<lparr>gc_zero_ref_count_list := remove1 p (gc_zero_ref_count_list rt) @ [p]\<rparr>)"
      using lists_ok_move_zero [OF l h(1)] by simp
    then have "lists_ok rt'" using h(1) by (auto simp: lists_ok_def all_list_def rt'_def)
    then have "counted e {} rt'" using core_counted [OF c] by (intro counted_zombie [OF _ h(1) _ _ H]) (simp_all add: t_def)
    moreover have "p \<notin> L" using c by (auto simp: core_def)
    moreover have "x \<in> set (remove1 p (gc_obj_list rt)) \<longleftrightarrow> x \<in> set (gc_obj_list rt)" if "x \<in> L" for x
      using that \<open>p \<notin> L\<close> by (intro in_set_remove1) auto
    ultimately have "core e {} rt'" using c h(2) unfolding core_def H by (auto simp: rt'_def t_def)
    moreover have "zero_at {} rt' x g" if "heap rt' x = Some g" for x g
    proof (cases "x = p")
      case True
      then have "g = h\<lparr>body := Zombie t\<rparr>" using that by (simp add: H)
      then show ?thesis using True h(2) r by (simp add: zero_at_def t_def rt'_def)
    next
      case False
      then have "zero_at {p} rt x g" using that i by (simp add: H inv_def zeros_def)
      then show ?thesis using False r by (simp add: zero_at_def) (simp add: rt'_def)
    qed
    ultimately show ?thesis by (simp add: inv_def zeros_def)
  qed
  moreover have "freed p rt0 rt'"
  proof -
    have "\<exists>g. heap rt0 x = Some g \<and> mark h' = mark g \<and> (if x = p then gc_phase rt0 = JS_GC_PHASE_REMOVE_CYCLES \<and> (\<exists>t. body h' = Zombie t) else body h' = body g)"
      if x: "heap rt' x = Some h'" for x h'
    proof (cases "x = p")
      case True
      then show ?thesis using x keeps_block [OF k h(1)] k r(1) by (auto simp: H keeps_def)
    next
      case False
      then show ?thesis using x keeps_block [OF k, of x h'] by (auto simp: H)
    qed
    then show ?thesis using k r(1) unfolding freed_def keeps_def
      by (auto simp: rt'_def lists_remove1 [OF l])
  qed
  ultimately show ?thesis by (auto simp: t_def)
qed

lemma free_gc_object_freed:
  assumes i: "inv e {} rt" and h: "heap rt p = Some h" "is_value (gc_obj_type (body h))" "\<And>t. body h \<noteq> Zombie t" and L: "p \<notin> L"
    and z: "gc_phase rt = JS_GC_PHASE_DECREF \<Longrightarrow> ref_count h = 0"
  shows "\<exists>rt'. free_gc_object p rt = Some rt' \<and> inv e {} rt' \<and> freed p rt rt'"
proof -
  note c = inv_core [OF i]
  define n where "n = count_list (children (body h))"
  obtain g where g: "frees (edges (body h)) g"
      "free_gc_object p rt = do { rt \<leftarrow> g rt; finish_free (gc_obj_type (body h)) p rt }"
    using free_body [OF h] by blast
  have "core (\<lambda>x. e x + n x) {p} rt" using core_open [OF c h(1) _ L] by (simp add: n_def)
  moreover have "zero_at {p} rt x k" if "heap rt x = Some k" for x k
    using i that h by (cases "x = p") (auto simp: inv_def zeros_def zero_at_def)
  ultimately have i1: "inv (\<lambda>x. e x + n x) {p} rt" by (simp add: inv_def zeros_def)
  have k: "K x + count_list (map target (edges (body h))) x \<le> e x + n x" for x
    using c unfolding core_def by (simp add: n_def children_edges)
  have "typed rt d" if "d \<in> set (edges (body h))" for d
    using core_counted [OF c] h(1) that by (auto simp: counted_def)
  then obtain rt1 where rt1: "g rt = Some rt1" "inv e {p} rt1" "keeps rt rt1"
    using freesD [OF g(1) i1 k] by (auto simp: n_def children_edges)
  obtain h1 where h1: "heap rt1 p = Some h1" using rt1(2) by (auto simp: inv_def core_def)
  have b: "body h1 = body h" using keeps_block [OF rt1(3) h1] h(1) by simp
  note c1 = inv_core [OF rt1(2)]
  show ?thesis
  proof (cases "gc_phase rt1 = JS_GC_PHASE_REMOVE_CYCLES \<and> ref_count h1 \<noteq> 0")
    case True
    then show ?thesis using finish_zombie [OF rt1(2) h1 _ _ _ rt1(3)] h(2) g(2) rt1(1) by (simp add: b)
  next
    case False
    have "ref_count h1 = 0"
    proof (cases "gc_phase rt = JS_GC_PHASE_DECREF")
      case True
      have "e p + refs rt {} p = 0" using core_counted [OF c] h(1) z [OF True] by (simp add: counted_def)
      moreover have "refs rt1 {} p \<le> refs rt {} p"
        by (rule refs_mono [OF core_lists [OF c]]) (use keeps_block [OF rt1(3)] in blast)
      moreover have "refs rt1 {} p = refs rt1 {p} p + count_list (children (body h1)) p"
        using refs_open [OF core_lists [OF c1] h1] by simp
      moreover have "ref_count h1 = int (e p + refs rt1 {p} p)" using core_counted [OF c1] h1 by (simp add: counted_def)
      ultimately show ?thesis by simp
    next
      case no: False
      then have "gc_phase rt1 = JS_GC_PHASE_REMOVE_CYCLES" using c1 rt1(3) by (cases "gc_phase rt") (auto simp: core_def keeps_def)
      then show ?thesis using False by simp
    qed
    note R = inv_release [OF rt1(2) h1 _ this]
    have "finish_free (gc_obj_type (body h)) p rt1 = Some (js_free_rt p (unlink p rt1))"
      using False h1 by (auto simp: finish_free_def list_del_unlink [OF core_lists [OF c1] h1])
    moreover have "freed p rt (js_free_rt p (unlink p rt1))" by (rule freed_keeps [OF rt1(3) core_lists [OF c1]])
    ultimately show ?thesis using g(2) rt1(1) R(2) by simp
  qed
qed

end

section \<open>The loop over the queued objects\<close>

context roots
begin

lemma free_zero_loop_ends:
  assumes "inv e {} rt" "gc_phase rt = JS_GC_PHASE_DECREF"
    and "\<And>x h. heap rt x = Some h \<Longrightarrow> (\<forall>t. body h \<noteq> Zombie t)"
  shows "\<exists>rt'. free_zero_loop rt = Some rt' \<and> inv e {} rt' \<and> gc_phase rt' = JS_GC_PHASE_DECREF \<and>
     gc_zero_ref_count_list rt' = [] \<and> set (gc_obj_list rt') \<subseteq> set (gc_obj_list rt) \<and> set (tmp_obj_list rt') \<subseteq> set (tmp_obj_list rt) \<and>
     (\<forall>x h'. heap rt' x = Some h' \<longrightarrow> (\<exists>h. heap rt x = Some h \<and> mark h' = mark h \<and> body h' = body h))"
  using assms
proof (induction "card (dom (heap rt))" arbitrary: rt rule: less_induct)
  case less
  note i = less.prems(1) and d = less.prems(2) and nz = less.prems(3)
  note c = inv_core [OF i]
  note l = core_lists [OF c]
  show ?case
  proof (cases "gc_zero_ref_count_list rt")
    case Nil
    then show ?thesis using i d by (subst free_zero_loop.simps) auto
  next
    case (Cons p ps)
    then have "p \<in> dom (heap rt)" using l by (auto simp: lists_ok_def all_list_def)
    then obtain h where h: "heap rt p = Some h" by blast
    have v: "is_value (gc_obj_type (body h))" "ref_count h = 0"
      using i h Cons d by (auto simp: inv_def zeros_def zero_at_def)
    have L: "p \<notin> L" using L_count [OF c _ h] v(2) by auto
    obtain rt1 where rt1: "free_gc_object p rt = Some rt1" "inv e {} rt1" "freed p rt rt1"
      using free_gc_object_freed [OF i h v(1) _ L v(2)] nz [OF h] by blast
    have b: "\<exists>g. heap rt x = Some g \<and> mark g' = mark g \<and> body g' = body g \<and> x \<noteq> p" if "heap rt1 x = Some g'" for x g'
      using rt1(3) that d unfolding freed_def by (metis gc_phase.distinct(5))
    have "dom (heap rt1) \<subseteq> dom (heap rt) - {p}" using b by fastforce
    then have "card (dom (heap rt1)) < card (dom (heap rt))"
      using lists_finite [OF l] h by (metis card_Diff1_less domI card_mono le_less_trans finite_Diff)
    moreover have "gc_phase rt1 = JS_GC_PHASE_DECREF" using rt1(3) d by (simp add: freed_def)
    moreover have "\<forall>t. body g \<noteq> Zombie t" if "heap rt1 x = Some g" for x g using b [OF that] nz by metis
    ultimately obtain rt' where rt': "free_zero_loop rt1 = Some rt'" "inv e {} rt'" "gc_phase rt' = JS_GC_PHASE_DECREF"
        "gc_zero_ref_count_list rt' = []" "set (gc_obj_list rt') \<subseteq> set (gc_obj_list rt1)" "set (tmp_obj_list rt') \<subseteq> set (tmp_obj_list rt1)"
        "\<forall>x h'. heap rt' x = Some h' \<longrightarrow> (\<exists>h. heap rt1 x = Some h \<and> mark h' = mark h \<and> body h' = body h)"
      using less.hyps [of rt1] rt1(2) by blast
    have "free_zero_loop rt = Some rt'"
      using rt'(1) rt1(1) h v(2) Cons by (subst free_zero_loop.simps) (simp add: get_count_def)
    moreover have "set (gc_obj_list rt') \<subseteq> set (gc_obj_list rt)" "set (tmp_obj_list rt') \<subseteq> set (tmp_obj_list rt)"
      using rt'(5,6) rt1(3) unfolding freed_def by auto
    moreover have "\<exists>h. heap rt x = Some h \<and> mark h' = mark h \<and> body h' = body h" if "heap rt' x = Some h'" for x h'
      using rt'(7) that b by metis
    ultimately show ?thesis using rt' by blast
  qed
qed

text \<open>While cycles are removed: the blocks to keep are all on \<open>gc_obj_list\<close>, and what was freed is a zombie.\<close>

definition removing :: "runtime \<Rightarrow> bool" where
  "removing rt \<longleftrightarrow> gc_phase rt = JS_GC_PHASE_REMOVE_CYCLES \<and> set (gc_obj_list rt) = L \<and>
     (\<forall>x h. heap rt x = Some h \<longrightarrow> (\<exists>t. body h = Zombie t) \<longrightarrow> x \<in> set (gc_zero_ref_count_list rt)) \<and>
     (\<forall>x\<in>set (gc_zero_ref_count_list rt). \<forall>h. heap rt x = Some h \<longrightarrow> is_value (gc_obj_type (body h)) \<longrightarrow> (\<exists>t. body h = Zombie t))"

definition reduces :: "runtime \<Rightarrow> runtime \<Rightarrow> bool" where
  "reduces rt rt' \<longleftrightarrow> (\<forall>x h'. heap rt' x = Some h' \<longrightarrow> (\<exists>h. heap rt x = Some h \<and> mark h' = mark h))"

lemma reduces_trans: "reduces a b \<Longrightarrow> reduces b c \<Longrightarrow> reduces a c"
  unfolding reduces_def by metis

lemma inv_L_list: "inv e S rt \<Longrightarrow> L \<subseteq> set (gc_obj_list rt)"
  by (auto simp: inv_def core_def)

lemma removing_freed:
  assumes r: "removing rt" and i: "inv e {} rt'" and f: "freed p rt rt'" and l: "lists_ok rt"
  shows "removing rt'" "reduces rt rt'"
proof -
  have ph: "gc_phase rt = JS_GC_PHASE_REMOVE_CYCLES" using r by (simp add: removing_def)
  have l': "lists_ok rt'" by (rule core_lists [OF inv_core [OF i]])
  have z: "set (gc_zero_ref_count_list rt') \<subseteq> insert p (set (gc_zero_ref_count_list rt))" using f ph by (simp add: freed_def)
  have t: "set (tmp_obj_list rt') \<subseteq> set (tmp_obj_list rt) - {p}" "set (gc_obj_list rt') \<subseteq> set (gc_obj_list rt) - {p}"
    using f by (auto simp: freed_def)
  have b: "\<exists>h. heap rt x = Some h \<and> mark h' = mark h \<and> (if x = p then \<exists>t. body h' = Zombie t else body h' = body h)"
    if "heap rt' x = Some h'" for x h' using f that ph unfolding freed_def by metis
  have "set (gc_obj_list rt') = L" using inv_L_list [OF i] t(2) r by (auto simp: removing_def)
  moreover have "x \<in> set (gc_zero_ref_count_list rt')" if x: "heap rt' x = Some h'" "body h' = Zombie t" for x h' t
  proof -
    have "x \<notin> set (gc_obj_list rt') \<and> x \<notin> set (tmp_obj_list rt')"
    proof (cases "x = p")
      case False
      then obtain h where h: "heap rt x = Some h" "body h = Zombie t" using b [OF x(1)] x(2) by auto
      then have "x \<in> set (gc_zero_ref_count_list rt)" using r by (auto simp: removing_def)
      then have "x \<notin> set (gc_obj_list rt)" "x \<notin> set (tmp_obj_list rt)" using l by (auto simp: lists_ok_def all_list_def)
      then show ?thesis using t by auto
    qed (use t in auto)
    then show ?thesis using all_list_set [OF l' x(1)] by simp
  qed
  moreover have "\<exists>t. body h' = Zombie t" if x: "x \<in> set (gc_zero_ref_count_list rt')" "heap rt' x = Some h'" "is_value (gc_obj_type (body h'))" for x h'
  proof (cases "x = p")
    case True
    then show ?thesis using b [OF x(2)] by auto
  next
    case False
    then obtain h where h: "heap rt x = Some h" "body h' = body h" using b [OF x(2)] by auto
    have "x \<in> set (gc_zero_ref_count_list rt)" using x(1) z False by auto
    then show ?thesis using r h x(3) by (auto simp: removing_def)
  qed
  ultimately show "removing rt'" using f ph by (auto simp: removing_def freed_def)
  show "reduces rt rt'" using b unfolding reduces_def by blast
qed

end

section \<open>The removal of cycles\<close>

context roots
begin

lemma move_to_zero:
  assumes i: "inv e {} rt" and r: "removing rt" and p: "p \<in> set (tmp_obj_list rt)" "heap rt p = Some h" "\<not> is_value (gc_obj_type (body h))"
  defines "rt' \<equiv> unlink p rt\<lparr>gc_zero_ref_count_list := remove1 p (gc_zero_ref_count_list rt) @ [p]\<rparr>"
  shows "inv e {} rt'" "removing rt'" "reduces rt rt'"
proof -
  note c = inv_core [OF i]
  note l = core_lists [OF c]
  have ph: "gc_phase rt = JS_GC_PHASE_REMOVE_CYCLES" and L: "set (gc_obj_list rt) = L" using r by (simp_all add: removing_def)
  have pL: "p \<notin> L" "p \<notin> set (gc_zero_ref_count_list rt)" using l p(1) unfolding L [symmetric] by (auto simp: lists_ok_def all_list_def)
  have "counted e {} rt'"
    unfolding rt'_def by (rule counted_lists [OF core_counted [OF c]]) (simp_all add: lists_ok_move_zero [OF l p(2)])
  then have "core e {} rt'" using c pL L unfolding core_def rt'_def by (auto simp: lists_remove1 [OF l])
  moreover have "zero_at {} rt' x g" if "zero_at {} rt x g" for x g using that ph by (simp add: zero_at_def rt'_def)
  then have "zeros {} rt'" using i by (simp add: inv_def zeros_def rt'_def)
  ultimately show "inv e {} rt'" by (simp add: inv_def)
  have s: "set (gc_obj_list rt') = L" "set (gc_zero_ref_count_list rt') = insert p (set (gc_zero_ref_count_list rt))"
    "heap rt' = heap rt" "gc_phase rt' = gc_phase rt"
    using L pL(1) by (auto simp: rt'_def lists_remove1 [OF l])
  show "removing rt'" unfolding removing_def s
  proof (intro conjI allI ballI impI)
    fix x g
    assume x: "x \<in> insert p (set (gc_zero_ref_count_list rt))" "heap rt x = Some g" "is_value (gc_obj_type (body g))"
    have "x \<noteq> p" using x(2,3) p(2,3) by auto
    then show "\<exists>t. body g = Zombie t" using r x unfolding removing_def by blast
  next
    show "gc_phase rt = JS_GC_PHASE_REMOVE_CYCLES" by (rule ph)
  next
    fix x g
    assume "heap rt x = Some g" "\<exists>t. body g = Zombie t"
    then show "x \<in> insert p (set (gc_zero_ref_count_list rt))" using r unfolding removing_def by blast
  qed simp
  show "reduces rt rt'" by (simp add: reduces_def rt'_def)
qed

lemma free_cycles_loop_ends:
  assumes "inv e {} rt" "removing rt"
  shows "\<exists>rt'. free_cycles_loop rt = Some rt' \<and> inv e {} rt' \<and> removing rt' \<and> tmp_obj_list rt' = [] \<and> reduces rt rt'"
  using assms
proof (induction "card (set (tmp_obj_list rt))" arbitrary: rt rule: less_induct)
  case less
  note i = less.prems(1) and r = less.prems(2)
  note l = core_lists [OF inv_core [OF i]]
  have ph: "gc_phase rt = JS_GC_PHASE_REMOVE_CYCLES" and L: "set (gc_obj_list rt) = L" using r by (simp_all add: removing_def)
  show ?case
  proof (cases "tmp_obj_list rt")
    case Nil
    then show ?thesis using i r by (subst free_cycles_loop.simps) (auto simp: reduces_def)
  next
    case (Cons p ps)
    then have pt: "p \<in> set (tmp_obj_list rt)" by simp
    then have "p \<in> dom (heap rt)" using l by (auto simp: lists_ok_def all_list_def)
    then obtain h where h: "heap rt p = Some h" by blast
    have nL: "p \<notin> L" "p \<notin> set (gc_zero_ref_count_list rt)"
      using l pt unfolding L [symmetric] by (auto simp: lists_ok_def all_list_def)
    have nz: "body h \<noteq> Zombie t" for t using r h nL(2) by (auto simp: removing_def)
    obtain rt1 where rt1: "(if gc_obj_type (body h) \<in> {JS_OBJECT, FUNCTION_BYTECODE} then free_gc_object p rt
                else do { rt \<leftarrow> list_del p rt; Some (rt\<lparr>gc_zero_ref_count_list := gc_zero_ref_count_list rt @ [p]\<rparr>) }) = Some rt1"
        "inv e {} rt1" "removing rt1" "reduces rt rt1" "set (tmp_obj_list rt1) \<subseteq> set (tmp_obj_list rt) - {p}"
    proof (cases "is_value (gc_obj_type (body h))")
      case True
      then obtain rt1 where 1: "free_gc_object p rt = Some rt1" "inv e {} rt1" "freed p rt rt1"
        using free_gc_object_freed [OF i h True nz nL(1)] ph by auto
      show thesis
        by (rule that [of rt1]) (use 1 True removing_freed [OF r 1(2,3) l] in \<open>auto simp: is_value_def freed_def\<close>)
    next
      case False
      show thesis
        by (rule that [of "unlink p rt\<lparr>gc_zero_ref_count_list := remove1 p (gc_zero_ref_count_list rt) @ [p]\<rparr>"])
          (use False move_to_zero [OF i r pt h False] in \<open>auto simp: is_value_def list_del_unlink [OF l h] lists_remove1 [OF l]\<close>)
    qed
    have "card (set (tmp_obj_list rt1)) < card (set (tmp_obj_list rt))"
      using rt1(5) pt by (intro psubset_card_mono) auto
    then obtain rt' where rt': "free_cycles_loop rt1 = Some rt'" "inv e {} rt'" "removing rt'" "tmp_obj_list rt' = []" "reduces rt1 rt'"
      using less.hyps rt1(2,3) by blast
    have "free_cycles_loop rt = do { gp \<leftarrow> heap rt p; rt \<leftarrow> (if gc_obj_type (body gp) \<in> {JS_OBJECT, FUNCTION_BYTECODE} then free_gc_object p rt
        else do { rt \<leftarrow> list_del p rt; Some (rt\<lparr>gc_zero_ref_count_list := gc_zero_ref_count_list rt @ [p]\<rparr>) }); free_cycles_loop rt }"
      by (subst free_cycles_loop.simps) (simp only: Cons list.case)
    also have "\<dots> = free_cycles_loop rt1" unfolding h by (simp only: bind.bind_lunit rt1(1))
    finally show ?thesis using rt' reduces_trans [OF rt1(4) rt'(5)] by auto
  qed
qed

end

locale live_roots = roots +
  assumes rooted: "0 < K x \<Longrightarrow> x \<in> L"
    and closed: "y \<in> L \<Longrightarrow> x \<in> set (children (B y)) \<Longrightarrow> x \<in> L"
begin

lemma module_no_context: "To_Context p \<notin> set (module_edges m)"
  by (cases m) (auto simp: val_edges_def slot_edges_def)

text \<open>When the list of garbage is empty, only zombies are left: blocks without a value cannot refer to each other in a cycle.\<close>

lemma refs_pos:
  assumes l: "lists_ok rt" and r: "0 < refs rt {} x"
  shows "\<exists>y h. heap rt y = Some h \<and> x \<in> set (children (body h))"
proof -
  have "\<exists>y\<in>dom (heap rt) - {}. count_list (children (body (the (heap rt y)))) x \<noteq> 0"
    using r unfolding refs_def by (metis (no_types, lifting) less_irrefl sum.neutral)
  then obtain y h where "heap rt y = Some h" "count_list (children (body h)) x \<noteq> 0" by auto
  then show ?thesis unfolding count_list_0_iff by blast
qed

lemma leftover_zombies:
  assumes i: "inv K {} rt" and r: "removing rt" and t: "tmp_obj_list rt = []" and x: "heap rt x = Some h" "x \<notin> L"
  shows "x \<in> set (gc_zero_ref_count_list rt) \<and> (\<exists>t. body h = Zombie t)"
proof -
  note c = inv_core [OF i]
  note l = core_lists [OF c]
  have zs: "y \<in> set (gc_zero_ref_count_list rt)" if "heap rt y = Some g" "y \<notin> L" for y g
    using all_list_set [OF l that(1)] that(2) t r by (auto simp: removing_def)
  have parent: "\<exists>y g. heap rt y = Some g \<and> y \<notin> L \<and> \<not> is_value (gc_obj_type (body g)) \<and>
      (\<exists>d\<in>set (edges (body g)). target d = x \<and> edge_type d (gc_obj_type (body h)))"
    if x: "heap rt x = Some h" "x \<notin> L" "\<not> is_value (gc_obj_type (body h))" for x h
  proof -
    have "ref_count h \<noteq> 0" using i x by (simp add: inv_def zeros_def zero_at_def)
    moreover have "ref_count h = int (K x + refs rt {} x)" using core_counted [OF c] x by (simp add: counted_def)
    moreover have "K x = 0" using rooted x(2) by blast
    ultimately have "0 < refs rt {} x" by simp
    then obtain y g where y: "heap rt y = Some g" "x \<in> set (children (body g))" using refs_pos [OF l] by blast
    then obtain d where d: "d \<in> set (edges (body g))" "target d = x" by (auto simp: children_edges)
    have "typed rt d" using core_counted [OF c] y(1) d(1) by (auto simp: counted_def)
    then have "edge_type d (gc_obj_type (body h))" using d(2) x(1) by (simp add: typed_def)
    moreover have "y \<notin> L" using closed [of y x] y x(2) c by (auto simp: core_def)
    moreover have "\<not> is_value (gc_obj_type (body g))"
    proof
      assume "is_value (gc_obj_type (body g))"
      then obtain t where "body g = Zombie t" using zs [OF y(1) \<open>y \<notin> L\<close>] r y(1) unfolding removing_def by blast
      then show False using d(1) by simp
    qed
    ultimately show ?thesis using y(1) d by blast
  qed
  have "is_value (gc_obj_type (body h))"
  proof (rule ccontr)
    assume nv: "\<not> is_value (gc_obj_type (body h))"
    obtain y g d where y: "heap rt y = Some g" "y \<notin> L" "\<not> is_value (gc_obj_type (body g))"
        "d \<in> set (edges (body g))" "target d = x" "edge_type d (gc_obj_type (body h))"
      using parent [OF x nv] by blast
    have "gc_obj_type (body g) = JS_CONTEXT"
      using y(3,4,6) nv by (cases "body g") (auto simp: is_value_def opt_edges_def val_edges_def split: if_splits option.splits)
    moreover obtain z k d' where z: "heap rt z = Some k" "\<not> is_value (gc_obj_type (body k))"
        "d' \<in> set (edges (body k))" "edge_type d' (gc_obj_type (body g))"
      using parent [OF y(1-3)] by blast
    ultimately show False
      by (cases "body k"; cases d') (auto simp: is_value_def opt_edges_def val_edges_def module_no_context split: if_splits option.splits)
  qed
  then show ?thesis using zs [OF x] r x(1) by (auto simp: removing_def)
qed

end

lemma each_free_zombie:
  "distinct zs \<Longrightarrow> (\<And>x. x \<in> set zs \<Longrightarrow> \<exists>h. heap rt x = Some h \<and> is_value (gc_obj_type (body h))) \<Longrightarrow>
   each free_zombie zs rt = Some (rt\<lparr>heap := (\<lambda>x. if x \<in> set zs then None else heap rt x)\<rparr>)"
proof (induction zs arbitrary: rt)
  case (Cons z zs)
  obtain h where h: "heap rt z = Some h" "is_value (gc_obj_type (body h))" using Cons.prems(2) [of z] by auto
  have f: "free_zombie z rt = Some (js_free_rt z rt)" using h by (simp add: free_zombie_def is_value_def)
  have m: "(\<lambda>x. if x \<in> set zs then None else ((heap rt)(z := None)) x) = (\<lambda>x. if x \<in> set (z # zs) then None else heap rt x)"
    by (rule ext) simp
  have "each free_zombie zs (js_free_rt z rt) =
      Some (js_free_rt z rt\<lparr>heap := (\<lambda>x. if x \<in> set zs then None else heap (js_free_rt z rt) x)\<rparr>)"
    using Cons.prems by (intro Cons.IH) auto
  then show ?case using m by (simp add: f js_free_rt_def cong: if_cong)
qed simp

context live_roots
begin

lemma gc_free_cycles_ends:
  assumes i: "inv K {} (rt\<lparr>gc_phase := JS_GC_PHASE_REMOVE_CYCLES\<rparr>)" and r: "removing (rt\<lparr>gc_phase := JS_GC_PHASE_REMOVE_CYCLES\<rparr>)"
  shows "\<exists>rt'. gc_free_cycles rt = Some rt' \<and> counted K {} rt' \<and> dom (heap rt') = L \<and> set (gc_obj_list rt') = L \<and> tmp_obj_list rt' = [] \<and>
     gc_zero_ref_count_list rt' = [] \<and> gc_phase rt' = JS_GC_PHASE_NONE \<and>
     (\<forall>x h'. heap rt' x = Some h' \<longrightarrow> (\<exists>h. heap rt x = Some h \<and> mark h' = mark h \<and> body h' = B x))"
proof -
  obtain rt1 where 1: "free_cycles_loop (rt\<lparr>gc_phase := JS_GC_PHASE_REMOVE_CYCLES\<rparr>) = Some rt1" "inv K {} rt1" "removing rt1"
      "tmp_obj_list rt1 = []" "reduces (rt\<lparr>gc_phase := JS_GC_PHASE_REMOVE_CYCLES\<rparr>) rt1"
    using free_cycles_loop_ends [OF i r] by blast
  note c = inv_core [OF 1(2)]
  note l = core_lists [OF c]
  define zs where "zs = gc_zero_ref_count_list rt1"
  define hp where "hp = (\<lambda>x. if x \<in> set zs then None else heap rt1 x)"
  define rt' where "rt' = rt1\<lparr>gc_phase := JS_GC_PHASE_NONE, heap := hp, gc_zero_ref_count_list := []\<rparr>"
  have L: "set (gc_obj_list rt1) = L" using 1(3) by (simp add: removing_def)
  have ld: "distinct zs" "L \<inter> set zs = {}" "dom (heap rt1) = L \<union> set zs" "distinct (gc_obj_list rt1)"
    using l 1(4) unfolding L [symmetric] by (auto simp: lists_ok_def all_list_def zs_def)
  have zom: "\<exists>h t. heap rt1 x = Some h \<and> body h = Zombie t \<and> is_value t" if x: "x \<in> set zs" for x
  proof -
    have "x \<notin> L" "x \<in> dom (heap rt1)" using x ld by auto
    then obtain h t where h: "heap rt1 x = Some h" "body h = Zombie t" using leftover_zombies [OF 1(2,3,4)] by blast
    then have "is_value t" using c by (auto simp: core_def)
    then show ?thesis using h by blast
  qed
  have "\<exists>h. heap (rt1\<lparr>gc_phase := JS_GC_PHASE_NONE\<rparr>) x = Some h \<and> is_value (gc_obj_type (body h))" if "x \<in> set zs" for x
    using zom [OF that] by auto
  from each_free_zombie [OF ld(1) this]
  have "each free_zombie zs (rt1\<lparr>gc_phase := JS_GC_PHASE_NONE\<rparr>) = Some (rt1\<lparr>gc_phase := JS_GC_PHASE_NONE, heap := hp\<rparr>)"
    by (simp add: hp_def cong: if_cong)
  then have run: "gc_free_cycles rt = Some rt'" using 1(1) by (simp add: gc_free_cycles_def zs_def rt'_def)
  have "dom (heap rt') = dom (heap rt1) - set zs" by (auto simp: rt'_def hp_def split: if_splits)
  then have dom': "dom (heap rt') = L" using ld(2,3) by blast
  have refs': "refs rt' {} x = refs rt1 {} x" for x
  proof -
    have "count_list (children (body (the (heap rt1 y)))) x = 0" if "y \<in> set zs" for y using zom [OF that] by auto
    then have "refs rt1 {} x = (\<Sum>y\<in>L. count_list (children (body (the (heap rt1 y)))) x)"
      unfolding refs_def ld(3) using lists_finite [OF l] by (intro sum.mono_neutral_right) (auto simp: ld(3))
    also have "\<dots> = refs rt' {} x"
      unfolding refs_def dom' using ld(2) by (intro sum.cong) (auto simp: rt'_def hp_def)
    finally show ?thesis by simp
  qed
  have "counted K {} rt'"
    unfolding counted_def
  proof (intro conjI allI impI ballI)
    show "lists_ok rt'" using ld L 1(4) dom' by (simp add: lists_ok_def all_list_def rt'_def)
  next
    fix x h
    assume "heap rt' x = Some h"
    then have "heap rt1 x = Some h" by (auto simp: rt'_def hp_def split: if_splits)
    then show "ref_count h = int (K x + refs rt' {} x)" using core_counted [OF c] by (simp add: counted_def refs')
  next
    fix x
    assume "heap rt' x = None"
    then have x: "x \<notin> L" using dom' by auto
    then have "K x = 0" using rooted by blast
    moreover have "refs rt' {} x = 0"
    proof (rule ccontr)
      assume "refs rt' {} x \<noteq> 0"
      moreover have "lists_ok rt'" using ld L 1(4) dom' by (simp add: lists_ok_def all_list_def rt'_def)
      ultimately obtain y g where y: "heap rt' y = Some g" "x \<in> set (children (body g))" using refs_pos by blast
      then have "y \<in> L" using dom' by auto
      moreover have "heap rt1 y = Some g" using y(1) by (auto simp: rt'_def hp_def split: if_splits)
      ultimately show False using closed [of y x] y(2) x c by (auto simp: core_def)
    qed
    ultimately show "K x + refs rt' {} x = 0" by simp
  next
    fix y h d
    assume y: "heap rt' y = Some h" "d \<in> set (edges (body h))"
    then have "heap rt1 y = Some h" by (auto simp: rt'_def hp_def split: if_splits)
    then have "typed rt1 d" using core_counted [OF c] y(2) by (auto simp: counted_def)
    then show "typed rt' d" by (auto simp: typed_def rt'_def hp_def split: if_splits)
  qed
  moreover have "\<exists>h. heap rt x = Some h \<and> mark h' = mark h \<and> body h' = B x" if x: "heap rt' x = Some h'" for x h'
  proof -
    have h1: "heap rt1 x = Some h'" using x by (auto simp: rt'_def hp_def split: if_splits)
    have "x \<in> L" using x dom' by auto
    then have "body h' = B x" using c h1 unfolding core_def by fastforce
    then show ?thesis using 1(5) h1 unfolding reduces_def by auto
  qed
  ultimately show ?thesis using run dom' L 1(4) by (auto simp: rt'_def)
qed

end

end
