(* ===== verification/Gc_Cycles.thy ===== *)
theory Gc_Cycles
  imports Gc_Free
begin

text \<open>
  The two marking passes of the collector, and the whole of \<open>JS_RunGC\<close> and of \<open>JS_FreeValue\<close>:
  the blocks that survive are those reachable from the references outside the heap.
\<close>

section \<open>Reachable blocks and good heaps\<close>

inductive live :: "(ptr \<Rightarrow> nat) \<Rightarrow> (ptr \<Rightarrow> gc_object option) \<Rightarrow> ptr \<Rightarrow> bool" for K hp where
  root: "0 < K x \<Longrightarrow> live K hp x"
| child: "live K hp y \<Longrightarrow> hp y = Some h \<Longrightarrow> x \<in> set (children (body h)) \<Longrightarrow> live K hp x"

definition body_of :: "runtime \<Rightarrow> ptr \<Rightarrow> gc_body" where
  "body_of rt x = (case heap rt x of None \<Rightarrow> Zombie JS_OBJECT | Some h \<Rightarrow> body h)"

text \<open>
  Between two calls of the engine: the count of every block is positive and is the number of the
  references to it, \<open>K\<close> of them from outside the heap (the stacks, the handles of the embedder), every block is
  on \<open>gc_obj_list\<close>, unmarked, and a running asynchronous function is held from outside.
\<close>

definition gc_heap :: "(ptr \<Rightarrow> nat) \<Rightarrow> runtime \<Rightarrow> bool" where
  "gc_heap K rt \<longleftrightarrow> counted K {} rt \<and> gc_phase rt = JS_GC_PHASE_NONE \<and> tmp_obj_list rt = [] \<and> gc_zero_ref_count_list rt = [] \<and>
     (\<forall>x h. heap rt x = Some h \<longrightarrow> \<not> mark h \<and> 0 < ref_count h \<and> (running (body h) \<longrightarrow> 0 < K x) \<and> (\<forall>t. body h \<noteq> Zombie t))"

interpretation gc: live_roots K "{x. live K (heap rt) x}" "body_of rt" for K rt
proof
  fix x
  assume "x \<in> {x. live K (heap rt) x}"
  then have "live K (heap rt) x" by simp
  then show "0 < K x \<or> (\<exists>y\<in>{x. live K (heap rt) x}. x \<in> set (children (body_of rt y)))"
  proof cases
    case (child y h)
    then show ?thesis by (auto simp: body_of_def)
  qed simp
next
  fix x
  assume "0 < K x"
  then show "x \<in> {x. live K (heap rt) x}" by (simp add: live.root)
next
  fix y x
  assume "y \<in> {x. live K (heap rt) x}" "x \<in> set (children (body_of rt y))"
  then show "x \<in> {x. live K (heap rt) x}" by (auto simp: body_of_def intro: live.child split: option.splits)
qed

section \<open>The first pass\<close>

definition same_bodies :: "runtime \<Rightarrow> runtime \<Rightarrow> bool" where
  "same_bodies rt rt' \<longleftrightarrow> (\<forall>x. map_option body (heap rt' x) = map_option body (heap rt x))"

lemma same_bodies_block: "same_bodies rt rt' \<Longrightarrow> heap rt' x = Some h' \<Longrightarrow> \<exists>h. heap rt x = Some h \<and> body h' = body h"
  unfolding same_bodies_def by (metis map_option_eq_Some)

lemma same_bodies_dom: "same_bodies rt rt' \<Longrightarrow> dom (heap rt') = dom (heap rt)"
  unfolding same_bodies_def dom_def by (metis option.map_disc_iff)

lemma same_bodies_header: "same_bodies rt rt1 \<Longrightarrow> heap rt1 p = Some h \<Longrightarrow> body h' = body h \<Longrightarrow> same_bodies rt (set_header p h' rt1)"
  unfolding same_bodies_def by (metis (no_types, lifting) fun_upd_apply option.map(2) set_header_simps(1))

lemma same_bodies_heap: "heap rt2 = heap rt1 \<Longrightarrow> same_bodies rt rt1 \<Longrightarrow> same_bodies rt rt2"
  by (simp add: same_bodies_def)

text \<open>
  \<open>P\<close> is the set of the blocks whose references have been subtracted, \<open>Q\<close> the one that counts, \<open>cs\<close>
  the references of the current block still to subtract, \<open>todo\<close> the rest of the list.
\<close>

definition decref_at :: "(ptr \<Rightarrow> nat) \<Rightarrow> runtime \<Rightarrow> ptr set \<Rightarrow> ptr set \<Rightarrow> ptr list \<Rightarrow> ptr list \<Rightarrow> ptr \<Rightarrow> gc_object \<Rightarrow> bool" where
  "decref_at K rt0 P Q cs tmp x h \<longleftrightarrow>
     ref_count h = int (K x + refs rt0 Q x + count_list cs x) \<and> (mark h \<longleftrightarrow> x \<in> P) \<and> (x \<in> set tmp \<longleftrightarrow> x \<in> P \<and> ref_count h = 0)"

definition decref_inv :: "(ptr \<Rightarrow> nat) \<Rightarrow> runtime \<Rightarrow> ptr set \<Rightarrow> ptr set \<Rightarrow> ptr list \<Rightarrow> ptr list \<Rightarrow> runtime \<Rightarrow> bool" where
  "decref_inv K rt0 P Q cs todo rt \<longleftrightarrow> lists_ok rt \<and> gc_zero_ref_count_list rt = [] \<and> gc_phase rt = JS_GC_PHASE_NONE \<and> same_bodies rt0 rt \<and>
     (\<forall>x h. heap rt x = Some h \<longrightarrow> decref_at K rt0 P Q cs (tmp_obj_list rt) x h) \<and>
     (\<exists>ds. gc_obj_list rt = ds @ todo) \<and> set todo = dom (heap rt) - P"

lemma decref_child:
  assumes i: "decref_inv K rt0 P Q (c # cs) todo rt" and c: "heap rt c = Some h"
  shows "\<exists>rt'. gc_decref_child c rt = Some rt' \<and> decref_inv K rt0 P Q cs todo rt'"
proof -
  have l: "lists_ok rt" using i by (simp add: decref_inv_def)
  have a: "decref_at K rt0 P Q (c # cs) (tmp_obj_list rt) c h" using i c by (simp add: decref_inv_def)
  then have pos: "0 < ref_count h" by (simp add: decref_at_def)
  define g where "g = h\<lparr>ref_count := ref_count h - 1\<rparr>"
  define rt1 where "rt1 = set_header c g rt"
  have s1: "same_bodies rt0 rt1" unfolding rt1_def by (rule same_bodies_header [OF _ c]) (use i in \<open>simp_all add: decref_inv_def g_def\<close>)
  have l1: "lists_ok rt1" unfolding rt1_def by (rule lists_ok_header [OF l c])
  have g: "heap rt1 c = Some g" by (simp add: rt1_def)
  have others: "decref_at K rt0 P Q cs (tmp_obj_list rt) x k" if "x \<noteq> c" "heap rt x = Some k" for x k
    using i that by (auto simp: decref_inv_def decref_at_def)
  have run: "gc_decref_child c rt = (if ref_count g = 0 \<and> mark g then move_tail_tmp c rt1 else Some rt1)"
    using c pos by (simp add: gc_decref_child_def get_count_def add_ref_Some rt1_def g_def)
  show ?thesis
  proof (cases "ref_count g = 0 \<and> mark g")
    case False
    have "c \<notin> set (tmp_obj_list rt)" using a pos by (simp add: decref_at_def)
    then have "decref_at K rt0 P Q cs (tmp_obj_list rt) c g" using a False by (auto simp: decref_at_def g_def)
    then have "decref_inv K rt0 P Q cs todo rt1"
      using i s1 l1 others c unfolding decref_inv_def by (auto simp: rt1_def)
    then show ?thesis using run False by auto
  next
    case True
    define rt2 where "rt2 = unlink c rt1\<lparr>tmp_obj_list := remove1 c (tmp_obj_list rt1) @ [c]\<rparr>"
    have H: "heap rt2 = heap rt1" by (simp add: rt2_def)
    have "move_tail_tmp c rt1 = Some rt2" by (simp add: move_tail_tmp_def list_del_unlink [OF l1 g] rt2_def)
    moreover have "decref_inv K rt0 P Q cs todo rt2"
    proof -
      have cP: "c \<in> P" using a True by (simp add: decref_at_def g_def)
      then have ct: "c \<notin> set todo" using i by (auto simp: decref_inv_def)
      have tm: "set (tmp_obj_list rt2) = insert c (set (tmp_obj_list rt))"
        using l1 by (auto simp: rt2_def rt1_def lists_ok_def all_list_def)
      obtain ds where ds: "gc_obj_list rt = ds @ todo" using i by (auto simp: decref_inv_def)
      have "gc_obj_list rt2 = remove1 c ds @ todo"
        using ct by (simp add: rt2_def rt1_def ds remove1_append remove1_idem)
      moreover have "lists_ok rt2" using l1 g by (auto simp: rt2_def lists_ok_def all_list_def)
      moreover have "decref_at K rt0 P Q cs (tmp_obj_list rt2) x k" if x: "heap rt2 x = Some k" for x k
      proof (cases "x = c")
        case True
        have "k = g" using x True by (simp add: H g)
        moreover have "ref_count g = int (K c + refs rt0 Q c + count_list cs c)" using a by (simp add: decref_at_def g_def)
        ultimately show ?thesis using \<open>ref_count g = 0 \<and> mark g\<close> cP True unfolding decref_at_def tm by simp
      next
        case False
        then show ?thesis using others [of x k] x by (simp add: decref_at_def tm H rt1_def)
      qed
      moreover have "set todo = dom (heap rt2) - P" using i c by (auto simp: decref_inv_def H rt1_def)
      ultimately show ?thesis using i same_bodies_heap [OF H s1] unfolding decref_inv_def
        by (auto simp: H) (auto simp: rt2_def rt1_def)
    qed
    ultimately show ?thesis using run True by auto
  qed
qed

lemma decref_children:
  "decref_inv K rt0 P Q cs todo rt \<Longrightarrow> set cs \<subseteq> dom (heap rt) \<Longrightarrow> \<exists>rt'. each gc_decref_child cs rt = Some rt' \<and> decref_inv K rt0 P Q [] todo rt'"
proof (induction cs arbitrary: rt)
  case (Cons c cs)
  obtain h where "heap rt c = Some h" using Cons.prems(2) by auto
  then obtain rt1 where 1: "gc_decref_child c rt = Some rt1" "decref_inv K rt0 P Q cs todo rt1"
    using decref_child [OF Cons.prems(1)] by blast
  have "dom (heap rt1) = dom (heap rt)"
    using same_bodies_dom Cons.prems(1) 1(2) by (metis decref_inv_def)
  then show ?case using Cons.IH [OF 1(2)] Cons.prems(2) 1(1) by simp
qed simp

lemma list_next_append: "p \<notin> set ds \<Longrightarrow> list_next (ds @ p # ts) p = list_first ts"
  by (induction ds) (auto simp: list_next_def list_first_def split: list.splits)

lemma decref_node:
  assumes i: "decref_inv K rt0 P Q [] (p # ts) rt" and Q: "Q = insert p P"
  shows "\<exists>rt'. (do { rt \<leftarrow> set_mark True p rt; n \<leftarrow> get_count p rt; if n = 0 then move_tail_tmp p rt else Some rt }) = Some rt'
    \<and> decref_inv K rt0 Q Q [] ts rt'"
proof -
  have l: "lists_ok rt" using i by (simp add: decref_inv_def)
  have "p \<in> dom (heap rt) - P" using i by (auto simp: decref_inv_def)
  then obtain h where h: "heap rt p = Some h" and pP: "p \<notin> P" by blast
  have a: "decref_at K rt0 P Q [] (tmp_obj_list rt) p h" using i h by (simp add: decref_inv_def)
  then have pt: "p \<notin> set (tmp_obj_list rt)" using pP by (simp add: decref_at_def)
  obtain ds where ds: "gc_obj_list rt = ds @ p # ts" using i by (auto simp: decref_inv_def)
  have pts: "p \<notin> set ts" "p \<notin> set ds" using l ds by (auto simp: lists_ok_def all_list_def)
  define g where "g = h\<lparr>mark := True\<rparr>"
  define rt1 where "rt1 = set_header p g rt"
  have s1: "same_bodies rt0 rt1" unfolding rt1_def by (rule same_bodies_header [OF _ h]) (use i in \<open>simp_all add: decref_inv_def g_def\<close>)
  have l1: "lists_ok rt1" unfolding rt1_def by (rule lists_ok_header [OF l h])
  have g: "heap rt1 p = Some g" by (simp add: rt1_def)
  have gc: "ref_count g = int (K p + refs rt0 Q p)" "mark g" using a by (simp_all add: decref_at_def g_def)
  have others: "decref_at K rt0 Q Q [] (tmp_obj_list rt) x k" if "x \<noteq> p" "heap rt x = Some k" for x k
    using i that by (auto simp: decref_inv_def decref_at_def Q)
  have st: "set ts = dom (heap rt1) - Q" using i pts h by (auto simp: decref_inv_def Q rt1_def)
  have run: "(do { rt \<leftarrow> set_mark True p rt; n \<leftarrow> get_count p rt; if n = 0 then move_tail_tmp p rt else Some rt }) =
      (if ref_count g = 0 then move_tail_tmp p rt1 else Some rt1)"
    using h by (simp add: set_mark_def get_count_def rt1_def g_def)
  show ?thesis
  proof (cases "ref_count g = 0")
    case False
    then have "decref_at K rt0 Q Q [] (tmp_obj_list rt) p g" using pt gc by (simp add: decref_at_def Q)
    then have "decref_at K rt0 Q Q [] (tmp_obj_list rt1) x k" if "heap rt1 x = Some k" for x k
      using that others [of x k] by (cases "x = p") (auto simp: rt1_def)
    moreover have "gc_obj_list rt1 = (ds @ [p]) @ ts" by (simp add: rt1_def ds)
    ultimately have "decref_inv K rt0 Q Q [] ts rt1"
      using i s1 l1 st unfolding decref_inv_def by (auto simp: rt1_def)
    then show ?thesis using run False by auto
  next
    case True
    define rt2 where "rt2 = unlink p rt1\<lparr>tmp_obj_list := remove1 p (tmp_obj_list rt1) @ [p]\<rparr>"
    have H: "heap rt2 = heap rt1" by (simp add: rt2_def)
    have "move_tail_tmp p rt1 = Some rt2" by (simp add: move_tail_tmp_def list_del_unlink [OF l1 g] rt2_def)
    moreover have "decref_inv K rt0 Q Q [] ts rt2"
    proof -
      have tm: "set (tmp_obj_list rt2) = insert p (set (tmp_obj_list rt))"
        using l1 by (auto simp: rt2_def rt1_def lists_ok_def all_list_def)
      have "gc_obj_list rt2 = ds @ ts" using pts by (simp add: rt2_def rt1_def ds remove1_append)
      moreover have "lists_ok rt2" using l1 g by (auto simp: rt2_def lists_ok_def all_list_def)
      moreover have "decref_at K rt0 Q Q [] (tmp_obj_list rt2) x k" if x: "heap rt2 x = Some k" for x k
      proof (cases "x = p")
        case True
        have "k = g" using x True by (simp add: H g)
        then show ?thesis using \<open>ref_count g = 0\<close> gc True unfolding decref_at_def tm by (simp add: Q)
      next
        case False
        then show ?thesis using others [of x k] x by (simp add: decref_at_def tm H rt1_def)
      qed
      ultimately show ?thesis using i s1 same_bodies_heap [OF H s1] st unfolding decref_inv_def
        by (auto simp: H) (auto simp: rt2_def rt1_def)
    qed
    ultimately show ?thesis using run True by auto
  qed
qed

lemma decref_loop:
  assumes ok: "counted K {} rt0"
  shows "decref_inv K rt0 P P [] todo rt \<Longrightarrow>
    \<exists>rt'. gc_decref_loop (list_first todo) rt = Some rt' \<and> decref_inv K rt0 (dom (heap rt0)) (dom (heap rt0)) [] [] rt'"
proof (induction todo arbitrary: P rt)
  case Nil
  have d: "dom (heap rt) = dom (heap rt0)" using Nil same_bodies_dom by (metis decref_inv_def)
  have sub: "dom (heap rt0) \<subseteq> P" using Nil unfolding decref_inv_def d by auto
  have r: "refs rt0 P x = refs rt0 (dom (heap rt0)) x" for x
  proof -
    have e: "dom (heap rt0) - P = {}" using sub by auto
    show ?thesis unfolding refs_def e by simp
  qed
  have "x \<in> P \<longleftrightarrow> x \<in> dom (heap rt0)" if "heap rt x = Some h" for x h using that d sub by auto
  then have "decref_inv K rt0 (dom (heap rt0)) (dom (heap rt0)) [] [] rt"
    using Nil unfolding decref_inv_def decref_at_def by (auto simp: r d)
  then show ?case by (subst gc_decref_loop.simps) (simp add: list_first_def)
next
  case (Cons p ts)
  have l: "lists_ok rt" using Cons.prems by (simp add: decref_inv_def)
  have sb: "same_bodies rt0 rt" using Cons.prems by (simp add: decref_inv_def)
  have "p \<in> dom (heap rt) - P" using Cons.prems by (auto simp: decref_inv_def)
  then obtain h where h: "heap rt p = Some h" and pP: "p \<notin> P" by blast
  obtain h0 where h0: "heap rt0 p = Some h0" "body h = body h0" using same_bodies_block [OF sb h] by blast
  have "\<not> mark h" using Cons.prems h pP by (auto simp: decref_inv_def decref_at_def)
  obtain ds where ds: "gc_obj_list rt = ds @ p # ts" using Cons.prems by (auto simp: decref_inv_def)
  then have "p \<notin> set ds" using l by (auto simp: lists_ok_def all_list_def)
  then have nx: "list_next (gc_obj_list rt) p = list_first ts" by (simp add: ds list_next_append)
  have l0: "lists_ok rt0" using ok by (simp add: counted_def)
  have ro: "refs rt0 P x = refs rt0 (insert p P) x + count_list (children (body h)) x" for x
    using refs_open [OF l0 h0(1) pP] h0(2) by simp
  have "decref_inv K rt0 P (insert p P) (children (body h)) (p # ts) rt"
    using Cons.prems unfolding decref_inv_def decref_at_def by (simp add: ro add.assoc)
  moreover have "set (children (body h)) \<subseteq> dom (heap rt)"
  proof
    fix x
    assume "x \<in> set (children (body h))"
    then have "count_list (children (body h)) x \<noteq> 0" by (simp add: count_list_0_iff)
    then have "refs rt0 {} x \<noteq> 0" using refs_open [OF l0 h0(1), of "{}" x] h0(2) by simp
    then have "heap rt0 x \<noteq> None" using ok by (auto simp: counted_def)
    then show "x \<in> dom (heap rt)" using same_bodies_dom [OF sb] by auto
  qed
  ultimately obtain rt1 where 1: "each gc_decref_child (children (body h)) rt = Some rt1"
      "decref_inv K rt0 P (insert p P) [] (p # ts) rt1"
    using decref_children by blast
  obtain rt2 where 2: "(do { rt \<leftarrow> set_mark True p rt1; n \<leftarrow> get_count p rt; if n = 0 then move_tail_tmp p rt else Some rt }) = Some rt2"
      "decref_inv K rt0 (insert p P) (insert p P) [] ts rt2"
    using decref_node [OF 1(2)] by blast
  obtain rt' where rt': "gc_decref_loop (list_first ts) rt2 = Some rt'" "decref_inv K rt0 (dom (heap rt0)) (dom (heap rt0)) [] [] rt'"
    using Cons.IH [OF 2(2)] by blast
  have "gc_decref_loop (list_first (p # ts)) rt =
      do { rt \<leftarrow> (do { rt \<leftarrow> set_mark True p rt1; n \<leftarrow> get_count p rt; if n = 0 then move_tail_tmp p rt else Some rt });
        gc_decref_loop (list_first ts) rt }"
    using h \<open>\<not> mark h\<close> nx 1(1) by (subst gc_decref_loop.simps) (simp add: list_first_def mark_children_def)
  then show ?case using 2(1) rt' by simp
qed

lemma gc_decref_ends:
  assumes "gc_heap K rt0"
  shows "\<exists>rt. gc_decref rt0 = Some rt \<and> decref_inv K rt0 (dom (heap rt0)) (dom (heap rt0)) [] [] rt"
proof -
  have c: "counted K {} rt0" and t: "tmp_obj_list rt0 = []" using assms by (simp_all add: gc_heap_def)
  have "rt0\<lparr>tmp_obj_list := []\<rparr> = rt0" using t by simp
  moreover have "decref_inv K rt0 {} {} [] (gc_obj_list rt0) rt0"
    using assms c unfolding decref_inv_def gc_heap_def decref_at_def counted_def
    by (auto simp: same_bodies_def lists_ok_def all_list_def)
  ultimately show ?thesis using decref_loop [OF c] by (simp add: gc_decref_def)
qed

section \<open>The second pass\<close>

text \<open>
  \<open>Q\<close> is the set of the blocks whose references have been added again, but for \<open>cs\<close>, and \<open>P\<close> the
  part of the list that is done.
\<close>

definition scan_at :: "(ptr \<Rightarrow> nat) \<Rightarrow> runtime \<Rightarrow> ptr set \<Rightarrow> ptr list \<Rightarrow> ptr list \<Rightarrow> ptr \<Rightarrow> gc_object \<Rightarrow> bool" where
  "scan_at K rt0 Q cs tmp x h \<longleftrightarrow> ref_count h = int (K x + refs rt0 (- Q) x) - int (count_list cs x) \<and> 0 \<le> ref_count h \<and>
     (x \<in> set tmp \<longleftrightarrow> ref_count h = 0) \<and> (x \<in> Q \<longrightarrow> \<not> mark h)"

definition scan_inv :: "(ptr \<Rightarrow> nat) \<Rightarrow> runtime \<Rightarrow> ptr set \<Rightarrow> ptr set \<Rightarrow> ptr list \<Rightarrow> ptr list \<Rightarrow> runtime \<Rightarrow> bool" where
  "scan_inv K rt0 P Q cs todo rt \<longleftrightarrow> lists_ok rt \<and> gc_zero_ref_count_list rt = [] \<and> gc_phase rt = JS_GC_PHASE_NONE \<and> same_bodies rt0 rt \<and>
     (\<forall>x h. heap rt x = Some h \<longrightarrow> scan_at K rt0 Q cs (tmp_obj_list rt) x h) \<and>
     (\<exists>ds. gc_obj_list rt = ds @ todo \<and> set ds = P) \<and> (\<forall>x\<in>set (gc_obj_list rt). live K (heap rt0) x)"

lemma scan_child:
  assumes i: "scan_inv K rt0 P Q (c # cs) todo rt" and c: "heap rt c = Some h" "live K (heap rt0) c"
  shows "\<exists>rt' ts. gc_scan_incref_child c rt = Some rt' \<and> scan_inv K rt0 P Q cs (todo @ ts) rt'"
proof -
  have l: "lists_ok rt" using i by (simp add: scan_inv_def)
  have a: "scan_at K rt0 Q (c # cs) (tmp_obj_list rt) c h" using i c by (simp add: scan_inv_def)
  define g where "g = h\<lparr>ref_count := ref_count h + 1\<rparr>"
  define rt1 where "rt1 = set_header c g rt"
  have g: "heap rt1 c = Some g" by (simp add: rt1_def)
  have gc: "ref_count g = int (K c + refs rt0 (- Q) c) - int (count_list cs c)" "0 < ref_count g" "c \<in> Q \<longrightarrow> \<not> mark g"
    using a by (simp_all add: scan_at_def g_def)
  have others: "scan_at K rt0 Q cs (tmp_obj_list rt) x k" if x: "x \<noteq> c" "heap rt x = Some k" for x k
  proof -
    have "scan_at K rt0 Q (c # cs) (tmp_obj_list rt) x k" using i x(2) by (simp add: scan_inv_def)
    then show ?thesis using x(1) by (simp add: scan_at_def)
  qed
  obtain ds where ds: "gc_obj_list rt = ds @ todo" "set ds = P" using i by (auto simp: scan_inv_def)
  show ?thesis
  proof (cases "ref_count g = 1")
    case False
    have ct: "c \<notin> set (tmp_obj_list rt)" using a False by (auto simp: scan_at_def g_def)
    have s1: "same_bodies rt0 rt1" unfolding rt1_def by (rule same_bodies_header [OF _ c(1)]) (use i in \<open>simp_all add: scan_inv_def g_def\<close>)
    have l1: "lists_ok rt1" unfolding rt1_def by (rule lists_ok_header [OF l c(1)])
    have "scan_at K rt0 Q cs (tmp_obj_list rt) c g" using gc ct by (simp add: scan_at_def)
    then have "scan_inv K rt0 P Q cs (todo @ []) rt1"
      using i s1 l1 others ds unfolding scan_inv_def by (auto simp: rt1_def)
    moreover have "gc_scan_incref_child c rt = Some rt1"
      using c False by (simp add: gc_scan_incref_child_def get_count_def add_ref_Some rt1_def g_def)
    ultimately show ?thesis by blast
  next
    case True
    have ct: "c \<in> set (tmp_obj_list rt)" using a True by (simp add: scan_at_def g_def)
    then have cl: "c \<notin> set (gc_obj_list rt)" using l by (auto simp: lists_ok_def all_list_def)
    define g2 where "g2 = g\<lparr>mark := False\<rparr>"
    define rt2 where "rt2 = set_header c g2 (unlink c rt1\<lparr>gc_obj_list := gc_obj_list rt @ [c]\<rparr>)"
    have H: "heap rt2 = (heap rt)(c := Some g2)" by (simp add: rt2_def rt1_def)
    have l1: "lists_ok rt1" unfolding rt1_def by (rule lists_ok_header [OF l c(1)])
    have "gc_scan_incref_child c rt = Some rt2"
      using c True cl by (simp add: gc_scan_incref_child_def get_count_def add_ref_Some list_del_unlink [OF l1 g]
        rt1_def [symmetric] g_def [symmetric] set_mark_def rt2_def g2_def)
        (simp add: rt1_def get_count_def remove1_idem list_del_unlink [OF l1 g, unfolded rt1_def] set_mark_def)
    moreover have "scan_inv K rt0 P Q cs (todo @ [c]) rt2"
    proof -
      have tm: "set (tmp_obj_list rt2) = set (tmp_obj_list rt) - {c}" using l by (simp add: rt2_def rt1_def lists_ok_def all_list_def)
      have "scan_at K rt0 Q cs (tmp_obj_list rt2) x k" if x: "heap rt2 x = Some k" for x k
      proof (cases "x = c")
        case True
        then have "k = g2" using x by (simp add: H)
        then show ?thesis using gc True unfolding scan_at_def tm by (simp add: g2_def)
      next
        case False
        then show ?thesis using others [of x k] x by (simp add: scan_at_def tm H)
      qed
      moreover have "lists_ok rt2" using l ct c(1) cl by (auto simp: rt2_def rt1_def lists_ok_def all_list_def)
      moreover have "same_bodies rt0 rt2"
      proof -
        have "same_bodies rt0 (set_header c g2 rt)"
          by (rule same_bodies_header [OF _ c(1)]) (use i in \<open>simp_all add: scan_inv_def g_def g2_def\<close>)
        then show ?thesis by (rule same_bodies_heap [rotated]) (simp add: H)
      qed
      moreover have "gc_obj_list rt2 = ds @ todo @ [c]" by (simp add: rt2_def ds)
      moreover have "\<forall>x\<in>set (gc_obj_list rt2). live K (heap rt0) x" using i c(2) by (auto simp: rt2_def scan_inv_def)
      ultimately show ?thesis using i ds(2) unfolding scan_inv_def by (auto simp: rt2_def rt1_def)
    qed
    ultimately show ?thesis by blast
  qed
qed

lemma scan_children:
  "scan_inv K rt0 P Q cs todo rt \<Longrightarrow> set cs \<subseteq> dom (heap rt) \<Longrightarrow> (\<And>c. c \<in> set cs \<Longrightarrow> live K (heap rt0) c) \<Longrightarrow>
   \<exists>rt' ts. each gc_scan_incref_child cs rt = Some rt' \<and> scan_inv K rt0 P Q [] (todo @ ts) rt'"
proof (induction cs arbitrary: rt todo)
  case Nil
  then have "scan_inv K rt0 P Q [] (todo @ []) rt" by simp
  then show ?case by (metis each.simps(1))
next
  case (Cons c cs)
  obtain h where "heap rt c = Some h" using Cons.prems(2) by auto
  then obtain rt1 ts where 1: "gc_scan_incref_child c rt = Some rt1" "scan_inv K rt0 P Q cs (todo @ ts) rt1"
    using scan_child [OF Cons.prems(1)] Cons.prems(3) by (metis list.set_intros(1))
  have "dom (heap rt1) = dom (heap rt)"
    using same_bodies_dom Cons.prems(1) 1(2) by (metis scan_inv_def)
  then obtain rt2 us where "each gc_scan_incref_child cs rt1 = Some rt2" "scan_inv K rt0 P Q [] ((todo @ ts) @ us) rt2"
    using Cons.IH [OF 1(2)] Cons.prems(2,3) by auto
  then show ?case using 1(1) by auto
qed

lemma refs_complement:
  assumes "lists_ok rt" "heap rt p = Some h" "p \<notin> P"
  shows "refs rt (- insert p P) x = refs rt (- P) x + count_list (children (body h)) x"
proof -
  have "insert p (- insert p P) = - P" using assms(3) by auto
  then show ?thesis using refs_open [OF assms(1,2), of "- insert p P" x] by simp
qed

lemma scan_loop:
  assumes ok: "counted K {} rt0"
  shows "scan_inv K rt0 P P [] todo rt \<Longrightarrow>
    \<exists>rt' P'. gc_scan_loop (list_first todo) rt = Some rt' \<and> scan_inv K rt0 P' P' [] [] rt'"
proof (induction "card (dom (heap rt0) - P)" arbitrary: P todo rt rule: less_induct)
  case less
  have l: "lists_ok rt" and sb: "same_bodies rt0 rt" using less.prems by (simp_all add: scan_inv_def)
  have l0: "lists_ok rt0" using ok by (simp add: counted_def)
  show ?case
  proof (cases todo)
    case Nil
    then show ?thesis using less.prems by (subst gc_scan_loop.simps) (auto simp: list_first_def)
  next
    case (Cons p ts)
    obtain ds where ds: "gc_obj_list rt = ds @ p # ts" "set ds = P" using less.prems Cons by (auto simp: scan_inv_def)
    have pP: "p \<notin> P" using l ds by (auto simp: lists_ok_def all_list_def)
    have "p \<in> dom (heap rt)" using l ds by (auto simp: lists_ok_def all_list_def)
    then obtain h where h: "heap rt p = Some h" by blast
    obtain h0 where h0: "heap rt0 p = Some h0" "body h = body h0" using same_bodies_block [OF sb h] by blast
    have lp: "live K (heap rt0) p" using less.prems ds by (auto simp: scan_inv_def)
    have pt: "p \<notin> set (tmp_obj_list rt)" using l ds by (auto simp: lists_ok_def all_list_def)
    have a: "scan_at K rt0 P [] (tmp_obj_list rt) p h" using less.prems h by (simp add: scan_inv_def)
    then have pos: "0 < ref_count h" using pt unfolding scan_at_def by linarith
    define g where "g = h\<lparr>mark := False\<rparr>"
    define rt1 where "rt1 = set_header p g rt"
    have s1: "same_bodies rt0 rt1" unfolding rt1_def by (rule same_bodies_header [OF sb h]) (simp add: g_def)
    have l1: "lists_ok rt1" unfolding rt1_def by (rule lists_ok_header [OF l h])
    have cb: "children (body g) = children (body h0)" by (simp add: g_def h0(2))
    have ro: "refs rt0 (- insert p P) x = refs rt0 (- P) x + count_list (children (body h0)) x" for x
      by (rule refs_complement [OF l0 h0(1) pP])
    have "scan_at K rt0 (insert p P) (children (body g)) (tmp_obj_list rt1) x k" if x: "heap rt1 x = Some k" for x k
    proof (cases "x = p")
      case True
      then have "k = g" using x by (simp add: rt1_def)
      then show ?thesis using a True unfolding scan_at_def cb ro by (simp add: g_def rt1_def)
    next
      case False
      then have "scan_at K rt0 P [] (tmp_obj_list rt) x k" using x less.prems by (simp add: rt1_def scan_inv_def)
      then show ?thesis using False unfolding scan_at_def cb ro by (simp add: rt1_def)
    qed
    then have "scan_inv K rt0 P (insert p P) (children (body g)) (p # ts) rt1"
      using less.prems s1 l1 ds unfolding scan_inv_def by (auto simp: rt1_def)
    moreover have "set (children (body g)) \<subseteq> dom (heap rt1)"
    proof
      fix x
      assume "x \<in> set (children (body g))"
      then have "count_list (children (body h0)) x \<noteq> 0" by (simp add: count_list_0_iff cb)
      then have "refs rt0 {} x \<noteq> 0" using refs_open [OF l0 h0(1), of "{}" x] by simp
      then have "heap rt0 x \<noteq> None" using ok by (auto simp: counted_def)
      then show "x \<in> dom (heap rt1)" using same_bodies_dom [OF s1] by auto
    qed
    moreover have "live K (heap rt0) c" if "c \<in> set (children (body g))" for c
      using that lp h0(1) unfolding cb by (rule live.child [rotated 2])
    ultimately obtain rt2 us where 2: "each gc_scan_incref_child (children (body g)) rt1 = Some rt2"
        "scan_inv K rt0 P (insert p P) [] ((p # ts) @ us) rt2"
      using scan_children by blast
    obtain ds2 where ds2: "gc_obj_list rt2 = ds2 @ p # (ts @ us)" "set ds2 = P" using 2(2) by (auto simp: scan_inv_def)
    have nx: "list_next (gc_obj_list rt2) p = list_first (ts @ us)" using ds2 pP by (simp add: list_next_append)
    have "\<exists>ds. gc_obj_list rt2 = ds @ ts @ us \<and> set ds = insert p P" using ds2 by (intro exI [of _ "ds2 @ [p]"]) auto
    then have i3: "scan_inv K rt0 (insert p P) (insert p P) [] (ts @ us) rt2" using 2(2) unfolding scan_inv_def by blast
    have "card (dom (heap rt0) - insert p P) < card (dom (heap rt0) - P)"
      using lists_finite [OF l0] h0(1) pP by (intro psubset_card_mono) auto
    then obtain rt' P' where rt': "gc_scan_loop (list_first (ts @ us)) rt2 = Some rt'" "scan_inv K rt0 P' P' [] [] rt'"
      using less.hyps [OF _ i3] by blast
    have "gc_scan_loop (list_first todo) rt = gc_scan_loop (list_first (ts @ us)) rt2"
      using h pos nx 2(1) Cons
      by (subst gc_scan_loop.simps) (simp add: list_first_def get_count_def set_mark_def mark_children_def rt1_def g_def)
    then show ?thesis using rt' by auto
  qed
qed

text \<open>What is left on \<open>tmp_obj_list\<close> gets its counts back.\<close>

definition restored :: "(ptr \<Rightarrow> nat) \<Rightarrow> runtime \<Rightarrow> ptr set \<Rightarrow> runtime \<Rightarrow> runtime \<Rightarrow> bool" where
  "restored K rt0 P rt1 rt \<longleftrightarrow> (\<exists>hp. rt = rt1\<lparr>heap := hp\<rparr>) \<and>
     (\<forall>x h. heap rt x = Some h \<longrightarrow> (\<exists>g. heap rt1 x = Some g \<and> body h = body g \<and> mark h = mark g) \<and>
        ref_count h = int (K x + refs rt0 (- P) x)) \<and> dom (heap rt) = dom (heap rt1)"

lemma incref_children:
  "(\<exists>hp. rt = rt1\<lparr>heap := hp\<rparr>) \<Longrightarrow>
   (\<forall>x h. heap rt x = Some h \<longrightarrow> (\<exists>g. heap rt1 x = Some g \<and> body h = body g \<and> mark h = mark g) \<and> ref_count h = n x - int (count_list cs x)) \<Longrightarrow>
   dom (heap rt) = dom (heap rt1) \<Longrightarrow> set cs \<subseteq> dom (heap rt1) \<Longrightarrow>
   \<exists>rt'. each gc_scan_incref_child2 cs rt = Some rt' \<and> (\<exists>hp. rt' = rt1\<lparr>heap := hp\<rparr>) \<and>
     (\<forall>x h. heap rt' x = Some h \<longrightarrow> (\<exists>g. heap rt1 x = Some g \<and> body h = body g \<and> mark h = mark g) \<and> ref_count h = n x) \<and>
     dom (heap rt') = dom (heap rt1)"
proof (induction cs arbitrary: rt)
  case (Cons c cs)
  obtain h where h: "heap rt c = Some h" using Cons.prems(3,4) by auto
  define rt2 where "rt2 = set_header c (h\<lparr>ref_count := ref_count h + 1\<rparr>) rt"
  have r: "gc_scan_incref_child2 c rt = Some rt2" by (simp add: gc_scan_incref_child2_def add_ref_Some [OF h] rt2_def)
  have "\<exists>hp. rt2 = rt1\<lparr>heap := hp\<rparr>" using Cons.prems(1) by (auto simp: rt2_def set_header_def)
  moreover have "(\<exists>g. heap rt1 x = Some g \<and> body k = body g \<and> mark k = mark g) \<and> ref_count k = n x - int (count_list cs x)"
    if x: "heap rt2 x = Some k" for x k
  proof (cases "x = c")
    case True
    then have "k = h\<lparr>ref_count := ref_count h + 1\<rparr>" using x by (simp add: rt2_def)
    then show ?thesis using Cons.prems(2) [rule_format, OF h] True by simp
  next
    case False
    then show ?thesis using Cons.prems(2) [rule_format, of x k] x by (simp add: rt2_def)
  qed
  moreover have "dom (heap rt2) = dom (heap rt1)" using Cons.prems(3) h by (auto simp: rt2_def)
  ultimately show ?case using Cons.IH [of rt2] Cons.prems(4) r by auto
qed simp

lemma restore_loop:
  assumes ok: "counted K {} rt0" and sb: "same_bodies rt0 rt1"
  shows "restored K rt0 P rt1 rt \<Longrightarrow> distinct T \<Longrightarrow> set T \<subseteq> dom (heap rt0) - P \<Longrightarrow>
    \<exists>rt'. each (\<lambda>p. mark_children p gc_scan_incref_child2) T rt = Some rt' \<and> restored K rt0 (P \<union> set T) rt1 rt'"
proof (induction T arbitrary: P rt)
  case (Cons p T)
  have l0: "lists_ok rt0" using ok by (simp add: counted_def)
  have d: "dom (heap rt) = dom (heap rt0)" using Cons.prems(1) same_bodies_dom [OF sb] by (simp add: restored_def)
  have pP: "p \<notin> P" "p \<in> dom (heap rt)" using Cons.prems(3) d by auto
  obtain h where h: "heap rt p = Some h" using pP(2) by blast
  obtain g where g: "heap rt1 p = Some g" "body h = body g" using Cons.prems(1) h unfolding restored_def by blast
  obtain h0 where h0: "heap rt0 p = Some h0" "body h = body h0" using same_bodies_block [OF sb g(1)] g(2) by auto
  have ro: "refs rt0 (- insert p P) x = refs rt0 (- P) x + count_list (children (body h)) x" for x
    using refs_complement [OF l0 h0(1) pP(1)] h0(2) by simp
  have "\<exists>rt2. each gc_scan_incref_child2 (children (body h)) rt = Some rt2 \<and> (\<exists>hp. rt2 = rt1\<lparr>heap := hp\<rparr>) \<and>
     (\<forall>x k. heap rt2 x = Some k \<longrightarrow> (\<exists>g. heap rt1 x = Some g \<and> body k = body g \<and> mark k = mark g) \<and> ref_count k = int (K x + refs rt0 (- insert p P) x)) \<and>
     dom (heap rt2) = dom (heap rt1)"
  proof (rule incref_children)
    show "set (children (body h)) \<subseteq> dom (heap rt1)"
    proof
      fix x
      assume "x \<in> set (children (body h))"
      then have "count_list (children (body h)) x \<noteq> 0" by (simp add: count_list_0_iff)
      then have "refs rt0 {} x \<noteq> 0" using refs_open [OF l0 h0(1), of "{}" x] h0(2) by simp
      then have "heap rt0 x \<noteq> None" using ok by (auto simp: counted_def)
      then show "x \<in> dom (heap rt1)" using same_bodies_dom [OF sb] by auto
    qed
  qed (use Cons.prems(1) in \<open>auto simp: restored_def ro\<close>)
  then obtain rt2 where 2: "mark_children p gc_scan_incref_child2 rt = Some rt2" "restored K rt0 (insert p P) rt1 rt2"
    using h by (auto simp: restored_def mark_children_def)
  have "set T \<subseteq> dom (heap rt0) - insert p P" using Cons.prems(2,3) by auto
  then show ?case using Cons.IH [OF 2(2)] Cons.prems(2) 2(1) by auto
qed simp

lemma gc_scan_ends:
  assumes ok: "gc_heap K rt0" and i: "decref_inv K rt0 (dom (heap rt0)) (dom (heap rt0)) [] [] rt"
  shows "\<exists>rt'. gc_scan rt = Some rt' \<and> counted K {} rt' \<and> same_bodies rt0 rt' \<and> gc_phase rt' = JS_GC_PHASE_NONE \<and>
     set (gc_obj_list rt') = {x. live K (heap rt0) x} \<and> gc_zero_ref_count_list rt' = [] \<and>
     (\<forall>x h. heap rt' x = Some h \<longrightarrow> live K (heap rt0) x \<longrightarrow> \<not> mark h)"
proof -
  have c0: "counted K {} rt0" using ok by (simp add: gc_heap_def)
  then have l0: "lists_ok rt0" by (simp add: counted_def)
  have l: "lists_ok rt" and sb: "same_bodies rt0 rt" using i by (simp_all add: decref_inv_def)
  have none: "refs rt0 (- {}) x = 0" for x by (simp add: refs_def)
  have none': "refs rt0 (dom (heap rt0)) x = 0" for x by (simp add: refs_def)
  have at: "decref_at K rt0 (dom (heap rt0)) (dom (heap rt0)) [] (tmp_obj_list rt) x h" if "heap rt x = Some h" for x h
    using i that by (simp add: decref_inv_def)
  have "scan_at K rt0 {} [] (tmp_obj_list rt) x h" if x: "heap rt x = Some h" for x h
    using at [OF x] x same_bodies_dom [OF sb] none unfolding scan_at_def decref_at_def none' by auto
  moreover have "live K (heap rt0) x" if x: "x \<in> set (gc_obj_list rt)" for x
  proof -
    have "x \<in> dom (heap rt)" "x \<notin> set (tmp_obj_list rt)" using l x by (auto simp: lists_ok_def all_list_def)
    then obtain h where "heap rt x = Some h" "ref_count h \<noteq> 0" "ref_count h = int (K x)"
      using at same_bodies_dom [OF sb] none' by (fastforce simp: decref_at_def)
    then show ?thesis by (intro live.root) simp
  qed
  ultimately have "scan_inv K rt0 {} {} [] (gc_obj_list rt) rt"
    using i unfolding scan_inv_def decref_inv_def by auto
  then obtain rt1 P where 1: "gc_scan_loop (list_first (gc_obj_list rt)) rt = Some rt1" "scan_inv K rt0 P P [] [] rt1"
    using scan_loop [OF c0] by blast
  have l1: "lists_ok rt1" and sb1: "same_bodies rt0 rt1" and P: "set (gc_obj_list rt1) = P" and z1: "gc_zero_ref_count_list rt1 = []"
    using 1(2) by (auto simp: scan_inv_def)
  have d1: "dom (heap rt1) = dom (heap rt0)" by (rule same_bodies_dom [OF sb1])
  have at1: "scan_at K rt0 P [] (tmp_obj_list rt1) x h" if "heap rt1 x = Some h" for x h
    using 1(2) that by (simp add: scan_inv_def)
  have kept: "x \<in> P" if x: "heap rt0 x = Some h" "0 < K x + refs rt0 (- P) x" for x h
  proof -
    obtain g where g: "heap rt1 x = Some g" using x(1) d1 by (metis domD domI)
    then have "x \<notin> set (tmp_obj_list rt1)" using at1 [OF g] x(2) by (auto simp: scan_at_def)
    then show ?thesis using all_list_set [OF l1 g] z1 P by auto
  qed
  have "P = {x. live K (heap rt0) x}"
  proof (intro equalityI subsetI CollectI)
    fix x
    assume "x \<in> P"
    then show "live K (heap rt0) x" using 1(2) P by (simp add: scan_inv_def)
  next
    fix x
    assume "x \<in> {x. live K (heap rt0) x}"
    then have "live K (heap rt0) x" by simp
    then show "x \<in> P"
    proof induction
      case (root x)
      then obtain h where "heap rt0 x = Some h" using counted_dom [OF c0] by blast
      then show ?case using root kept by simp
    next
      case (child y h x)
      have "refs rt0 {} x \<noteq> 0"
        using refs_open [OF l0 child.hyps(2), of "{}" x] child.hyps(3) count_list_0_iff [of "children (body h)" x] by simp
      then obtain k where k: "heap rt0 x = Some k" using c0 by (fastforce simp: counted_def)
      have "refs rt0 (- P) x \<noteq> 0"
        using refs_open [OF l0 child.hyps(2), of "- P" x] child.IH child.hyps(3) count_list_0_iff [of "children (body h)" x] by simp
      then show ?case using kept [OF k] by simp
    qed
  qed
  note PL = this
  have tmp: "distinct (tmp_obj_list rt1)" "set (tmp_obj_list rt1) = dom (heap rt0) - P"
    using l1 z1 P d1 by (auto simp: lists_ok_def all_list_def)
  have "restored K rt0 P rt1 rt1" using at1 by (auto simp: restored_def scan_at_def intro: exI [of _ "heap rt1"])
  then obtain rt' where rt': "each (\<lambda>p. mark_children p gc_scan_incref_child2) (tmp_obj_list rt1) rt1 = Some rt'"
      "restored K rt0 (P \<union> (dom (heap rt0) - P)) rt1 rt'"
    using restore_loop [OF c0 sb1 _ tmp(1), of P rt1] tmp(2) by auto
  have all: "refs rt0 (- (P \<union> (dom (heap rt0) - P))) x = refs rt0 {} x" for x
  proof -
    have "dom (heap rt0) - - (P \<union> (dom (heap rt0) - P)) = dom (heap rt0) - {}" by auto
    then show ?thesis unfolding refs_def by (rule sum.cong) simp
  qed
  obtain hp where hp: "rt' = rt1\<lparr>heap := hp\<rparr>" using rt'(2) by (auto simp: restored_def)
  have blk: "\<exists>g. heap rt1 x = Some g \<and> body h = body g \<and> mark h = mark g" "ref_count h = int (K x + refs rt0 {} x)" if "heap rt' x = Some h" for x h
    using rt'(2) that all by (auto simp: restored_def)
  have sb': "same_bodies rt0 rt'"
    unfolding same_bodies_def
  proof
    fix x
    show "map_option body (heap rt' x) = map_option body (heap rt0 x)"
    proof (cases "heap rt' x")
      case None
      have "dom (heap rt') = dom (heap rt0)" using rt'(2) d1 by (simp only: restored_def)
      then have "heap rt0 x = None" using None by blast
      then show ?thesis using None by simp
    next
      case (Some h)
      then show ?thesis using blk(1) [OF Some] same_bodies_block [OF sb1] by fastforce
    qed
  qed
  have r': "refs rt' S x = refs rt0 S x" for S x by (rule refs_bodies) (use sb' in \<open>simp add: same_bodies_def\<close>)
  have "counted K {} rt'"
    unfolding counted_def
  proof (intro conjI allI impI ballI)
    show "lists_ok rt'" using l1 rt'(2) by (simp add: lists_ok_def all_list_def hp restored_def)
  next
    fix x h
    assume "heap rt' x = Some h"
    then show "ref_count h = int (K x + refs rt' {} x)" using blk(2) r' by simp
  next
    fix x
    assume "heap rt' x = None"
    then have "heap rt0 x = None" using same_bodies_dom [OF sb'] by blast
    then show "K x + refs rt' {} x = 0" using c0 r' by (simp add: counted_def)
  next
    fix y h e
    assume y: "heap rt' y = Some h" "e \<in> set (edges (body h))"
    obtain g where "heap rt0 y = Some g" "body h = body g" using same_bodies_block [OF sb' y(1)] by blast
    then have "typed rt0 e" using c0 y(2) by (auto simp: counted_def)
    then show "typed rt' e" using same_bodies_block [OF sb'] unfolding typed_def by metis
  qed
  moreover have "gc_scan rt = Some rt'" using 1(1) rt'(1) by (simp add: gc_scan_def)
  moreover have "\<not> mark h" if x: "heap rt' x = Some h" "x \<in> P" for x h
    using blk(1) [OF x(1)] at1 x(2) by (auto simp: scan_at_def)
  ultimately show ?thesis using sb' PL P z1 1(2) by (auto simp: hp scan_inv_def)
qed

section \<open>The collector\<close>

lemma run_gc:
  assumes ok: "gc_heap K rt"
  shows "\<exists>rt'. JS_RunGC rt = Some rt' \<and> gc_heap K rt' \<and> dom (heap rt') = {x. live K (heap rt) x} \<and>
     (\<forall>x h'. heap rt' x = Some h' \<longrightarrow> (\<exists>h. heap rt x = Some h \<and> body h' = body h))"
proof -
  define L where "L = {x. live K (heap rt) x}"
  have c0: "counted K {} rt" using ok by (simp add: gc_heap_def)
  obtain rt1 where 1: "gc_decref rt = Some rt1" "decref_inv K rt (dom (heap rt)) (dom (heap rt)) [] [] rt1"
    using gc_decref_ends [OF ok] by blast
  obtain rt2 where 2: "gc_scan rt1 = Some rt2" "counted K {} rt2" "same_bodies rt rt2" "gc_phase rt2 = JS_GC_PHASE_NONE"
      "set (gc_obj_list rt2) = L" "gc_zero_ref_count_list rt2 = []"
      "\<forall>x h. heap rt2 x = Some h \<longrightarrow> live K (heap rt) x \<longrightarrow> \<not> mark h"
    using gc_scan_ends [OF ok 1(2)] unfolding L_def by blast
  have blk: "\<exists>g. heap rt x = Some g \<and> body h = body g \<and> ref_count h = ref_count g" if h: "heap rt2 x = Some h" for x h
  proof -
    obtain g where g: "heap rt x = Some g" "body h = body g" using same_bodies_block [OF 2(3) h] by blast
    have "refs rt2 {} x = refs rt {} x" by (rule refs_bodies) (use 2(3) in \<open>simp add: same_bodies_def\<close>)
    then show ?thesis using g c0 2(2) h by (simp add: counted_def)
  qed
  define rt3 where "rt3 = rt2\<lparr>gc_phase := JS_GC_PHASE_REMOVE_CYCLES\<rparr>"
  have "counted K {} rt3" by (rule counted_lists [OF 2(2)]) (use 2(2) in \<open>simp_all add: rt3_def counted_def lists_ok_def all_list_def\<close>)
  moreover have "\<exists>h. heap rt3 x = Some h \<and> body h = body_of rt x" if x: "x \<in> L" for x
  proof -
    have "x \<in> dom (heap rt2)" using x 2(2,5) by (auto simp: counted_def lists_ok_def all_list_def)
    then obtain h where h: "heap rt2 x = Some h" by blast
    then show ?thesis using blk [OF h] by (auto simp: rt3_def body_of_def)
  qed
  moreover have "(running (body h) \<longrightarrow> x \<in> L) \<and> (\<forall>t. body h = Zombie t \<longrightarrow> is_value t)" if h: "heap rt3 x = Some h" for x h
  proof -
    obtain g where "heap rt x = Some g" "body h = body g" using blk [of x h] h by (auto simp: rt3_def)
    then have "running (body h) \<longrightarrow> 0 < K x" "\<forall>t. body h \<noteq> Zombie t" using ok unfolding gc_heap_def by metis+
    then show ?thesis using live.root [of K x] by (simp add: L_def)
  qed
  ultimately have "gc.core K rt K {} rt3" unfolding gc.core_def unfolding L_def [symmetric] using 2(5) by (simp add: rt3_def)
  moreover have "gc.zero_at {} rt3 x h" if h: "heap rt3 x = Some h" for x h
  proof -
    obtain g where "heap rt x = Some g" "ref_count h = ref_count g" using blk [of x h] h by (auto simp: rt3_def)
    then have "0 < ref_count h" using ok unfolding gc_heap_def by metis
    then show ?thesis by (simp add: gc.zero_at_def rt3_def)
  qed
  ultimately have inv: "gc.inv K rt K {} rt3" by (simp add: gc.inv_def gc.zeros_def)
  have "body h \<noteq> Zombie t" if h: "heap rt3 x = Some h" for x h t
  proof -
    obtain g where "heap rt x = Some g" "body h = body g" using blk [of x h] h by (auto simp: rt3_def)
    then show ?thesis using ok unfolding gc_heap_def by metis
  qed
  then have rem: "gc.removing K rt rt3"
    unfolding gc.removing_def unfolding L_def [symmetric] using 2(5,6) by (simp add: rt3_def)
  obtain rt' where rt': "gc_free_cycles rt2 = Some rt'" "counted K {} rt'" "dom (heap rt') = L" "set (gc_obj_list rt') = L"
      "tmp_obj_list rt' = []" "gc_zero_ref_count_list rt' = []" "gc_phase rt' = JS_GC_PHASE_NONE"
      "\<forall>x h'. heap rt' x = Some h' \<longrightarrow> (\<exists>h. heap rt2 x = Some h \<and> mark h' = mark h \<and> body h' = body_of rt x)"
    using gc.gc_free_cycles_ends [OF inv [unfolded rt3_def] rem [unfolded rt3_def]] unfolding L_def [symmetric] by blast
  have fin: "(\<exists>h. heap rt x = Some h \<and> body h' = body h) \<and> \<not> mark h' \<and> 0 < ref_count h' \<and> (running (body h') \<longrightarrow> 0 < K x) \<and> (\<forall>t. body h' \<noteq> Zombie t)"
    if h': "heap rt' x = Some h'" for x h'
  proof -
    obtain h where h: "heap rt2 x = Some h" "mark h' = mark h" "body h' = body_of rt x" using rt'(8) h' by blast
    obtain g where g: "heap rt x = Some g" using blk [OF h(1)] by blast
    have b: "body h' = body g" using h(3) g by (simp add: body_of_def)
    have xL: "x \<in> L" using rt'(3) h' by blast
    then have "\<not> mark h'" using 2(7) h by (simp add: L_def)
    moreover have "0 < ref_count h'"
    proof -
      have c: "ref_count h' = int (K x + refs rt' {} x)" using rt'(2) h' by (simp add: counted_def)
      have "live K (heap rt) x" using xL by (simp add: L_def)
      then show ?thesis
      proof cases
        case (child y k)
        have "y \<in> dom (heap rt')" using child(1) rt'(3) by (simp add: L_def)
        then obtain m where m: "heap rt' y = Some m" by blast
        have "body m = body k" using rt'(8) m child(2) by (fastforce simp: body_of_def)
        then have "refs rt' {} x \<noteq> 0"
          using refs_open [of rt' y m "{}" x] m child(3) rt'(2) count_list_0_iff [of "children (body k)" x] by (simp add: counted_def)
        then show ?thesis using c by simp
      qed (use c in simp)
    qed
    moreover have "running (body h') \<longrightarrow> 0 < K x" "\<forall>t. body h' \<noteq> Zombie t" using ok g unfolding b gc_heap_def by blast+
    ultimately show ?thesis using g b by blast
  qed
  have "gc_heap K rt'" unfolding gc_heap_def using rt'(2,5,6,7) fin by blast
  moreover have "JS_RunGC rt = Some rt'" using 1(1) 2(1) rt'(1) by (simp add: JS_RunGC_def)
  ultimately show ?thesis using rt'(3) fin unfolding L_def by blast
qed

lemma live_same: "same_bodies rt rt1 \<Longrightarrow> live K (heap rt1) x = live K (heap rt) x"
proof -
  assume s: "same_bodies rt rt1"
  have s': "same_bodies rt1 rt" using s by (simp add: same_bodies_def)
  have "live K (heap b) x" if l: "live K (heap a) x" and ab: "same_bodies b a" for a b x
    using l
  proof induction
    case (child y h x)
    obtain g where "heap b y = Some g" "body h = body g" using same_bodies_block [OF ab child.hyps(2)] by blast
    then show ?case using live.child [OF child.IH] child.hyps(3) by metis
  qed (rule live.root)
  then show ?thesis using s s' by blast
qed

lemma live_count:
  assumes c: "counted K {} rt" and x: "live K (heap rt) x"
  shows "\<exists>h. heap rt x = Some h \<and> 0 < ref_count h"
  using x
proof cases
  case root
  then show ?thesis using counted_dom [OF c] by blast
next
  case (child y h)
  have r: "refs rt {} x \<noteq> 0"
    using refs_open [of rt y h "{}" x] child(2,3) c count_list_0_iff [of "children (body h)" x] by (simp add: counted_def)
  then obtain g where "heap rt x = Some g" using c by (fastforce simp: counted_def)
  then show ?thesis using r c by (auto simp: counted_def)
qed

lemma free_zero_correct:
  assumes c: "counted K {} rt" and ph: "gc_phase rt = JS_GC_PHASE_NONE" and t: "tmp_obj_list rt = []"
    and z: "gc_zero_ref_count_list rt = [p]"
    and b: "\<And>x h. heap rt x = Some h \<Longrightarrow> \<not> mark h \<and> (running (body h) \<longrightarrow> 0 < K x) \<and> (\<forall>t. body h \<noteq> Zombie t) \<and>
       (ref_count h = 0 \<longleftrightarrow> x = p) \<and> (x = p \<longrightarrow> is_value (gc_obj_type (body h)))"
  shows "\<exists>rt'. free_zero_refcount rt = Some rt' \<and> gc_heap K rt' \<and>
     (\<forall>x h'. heap rt' x = Some h' \<longrightarrow> (\<exists>h. heap rt x = Some h \<and> body h' = body h)) \<and> (\<forall>x. live K (heap rt) x \<longrightarrow> heap rt' x \<noteq> None)"
proof -
  define L where "L = {x. live K (heap rt) x}"
  define rt3 where "rt3 = rt\<lparr>gc_phase := JS_GC_PHASE_DECREF\<rparr>"
  have c3: "counted K {} rt3" by (rule counted_lists [OF c]) (use c in \<open>simp_all add: rt3_def counted_def lists_ok_def all_list_def\<close>)
  have L: "x \<in> set (gc_obj_list rt) \<and> (\<exists>h. heap rt x = Some h \<and> body h = body_of rt x)" if x: "x \<in> L" for x
  proof -
    obtain h where h: "heap rt x = Some h" "0 < ref_count h" using live_count [OF c] x by (auto simp: L_def)
    then have "x \<noteq> p" using b [OF h(1)] by auto
    then show ?thesis using all_list_set [of rt x h] h(1) c t z by (auto simp: counted_def body_of_def)
  qed
  have "gc.core K rt K {} rt3"
    unfolding gc.core_def unfolding L_def [symmetric]
    using c3 L b live.root [of K] by (auto simp: rt3_def L_def)
  moreover have "gc.zero_at {} rt3 x h" if h: "heap rt3 x = Some h" for x h
    using b [of x h] h z by (auto simp: gc.zero_at_def rt3_def)
  ultimately have inv: "gc.inv K rt K {} rt3" by (simp add: gc.inv_def gc.zeros_def)
  have nz: "\<forall>t. body h \<noteq> Zombie t" if "heap rt3 x = Some h" for x h using b [of x h] that by (simp add: rt3_def)
  have d3: "gc_phase rt3 = JS_GC_PHASE_DECREF" by (simp add: rt3_def)
  obtain rt4 where 4: "free_zero_loop rt3 = Some rt4" "gc.inv K rt K {} rt4" "gc_phase rt4 = JS_GC_PHASE_DECREF"
      "gc_zero_ref_count_list rt4 = []" "set (tmp_obj_list rt4) \<subseteq> set (tmp_obj_list rt3)"
      "\<forall>x h'. heap rt4 x = Some h' \<longrightarrow> (\<exists>h. heap rt3 x = Some h \<and> mark h' = mark h \<and> body h' = body h)"
    using gc.free_zero_loop_ends [OF inv d3] nz by blast
  define rt' where "rt' = rt4\<lparr>gc_phase := JS_GC_PHASE_NONE\<rparr>"
  have c4: "counted K {} rt4" and core4: "gc.core K rt K {} rt4"
    using 4(2) by (simp_all add: gc.inv_def gc.core_def)
  have t4: "tmp_obj_list rt4 = []" using 4(5) t by (simp add: rt3_def)
  have blk: "\<exists>h. heap rt x = Some h \<and> mark h' = mark h \<and> body h' = body h" if "heap rt4 x = Some h'" for x h'
    using 4(6) that by (simp add: rt3_def)
  have pos: "0 < ref_count h" if h: "heap rt4 x = Some h" for x h
  proof -
    have "gc.zero_at {} rt4 x h" using 4(2) h by (simp add: gc.inv_def gc.zeros_def)
    then have "ref_count h \<noteq> 0" using 4(3,4) by (auto simp: gc.zero_at_def)
    moreover have "0 \<le> ref_count h" using c4 h by (simp add: counted_def)
    ultimately show ?thesis by simp
  qed
  have "counted K {} rt'" by (rule counted_lists [OF c4]) (use c4 in \<open>simp_all add: rt'_def counted_def lists_ok_def all_list_def\<close>)
  moreover have "\<not> mark h \<and> 0 < ref_count h \<and> (running (body h) \<longrightarrow> 0 < K x) \<and> (\<forall>t. body h \<noteq> Zombie t)" if h: "heap rt' x = Some h" for x h
  proof -
    obtain g where "heap rt x = Some g" "mark h = mark g" "body h = body g" using blk h by (auto simp: rt'_def)
    then show ?thesis using b [of x g] pos h by (simp add: rt'_def)
  qed
  ultimately have "gc_heap K rt'" using 4(4) t4 unfolding gc_heap_def by (simp add: rt'_def)
  moreover have "heap rt' x \<noteq> None" if "live K (heap rt) x" for x
    using core4 that by (auto simp: gc.core_def rt'_def)
  moreover have "free_zero_refcount rt = Some rt'" using 4(1) by (simp add: free_zero_refcount_def rt3_def rt'_def)
  moreover have "\<exists>h. heap rt x = Some h \<and> body h' = body h" if "heap rt' x = Some h'" for x h'
    using blk that by (auto simp: rt'_def)
  ultimately show ?thesis by blast
qed

lemma free_value:
  assumes ok: "gc_heap K rt" and p: "0 < K p" "heap rt p = Some h" "is_value (gc_obj_type (body h))"
  shows "\<exists>rt'. JS_FreeValue (Ref p) rt = Some rt' \<and> gc_heap (K(p := K p - 1)) rt' \<and>
     (\<forall>x h'. heap rt' x = Some h' \<longrightarrow> (\<exists>h. heap rt x = Some h \<and> body h' = body h)) \<and>
     (\<forall>x. live (K(p := K p - 1)) (heap rt) x \<longrightarrow> heap rt' x \<noteq> None)"
proof -
  define K' where "K' = K(p := K p - 1)"
  define g where "g = h\<lparr>ref_count := ref_count h - 1\<rparr>"
  define rt1 where "rt1 = set_header p g rt"
  have c: "counted K {} rt" using ok by (simp add: gc_heap_def)
  have c1: "counted K' {} rt1" unfolding K'_def rt1_def g_def by (rule counted_decr [OF c p(2,1)])
  have sb: "same_bodies rt rt1" unfolding rt1_def by (rule same_bodies_header [OF _ p(2)]) (simp_all add: same_bodies_def g_def)
  have nr: "\<not> running (body h)" using p(3) by (cases "body h") (auto simp: is_value_def)
  have hk: "\<not> mark k" "0 < ref_count k" "running (body k) \<longrightarrow> 0 < K x" "body k \<noteq> Zombie t" if "heap rt x = Some k" for x k t
    using ok that unfolding gc_heap_def by blast+
  have bl: "\<not> mark k \<and> (running (body k) \<longrightarrow> 0 < K' x) \<and> (\<forall>t. body k \<noteq> Zombie t) \<and> (x \<noteq> p \<longrightarrow> 0 < ref_count k)"
    if k: "heap rt1 x = Some k" for x k
  proof (cases "x = p")
    case True
    then have "k = g" using k by (simp add: rt1_def)
    then show ?thesis using hk [OF p(2)] nr True by (simp add: g_def)
  next
    case False
    then show ?thesis using hk [of x k] k by (simp add: rt1_def K'_def)
  qed
  have bodies: "\<exists>h. heap rt x = Some h \<and> body k = body h" if "heap rt1 x = Some k" for x k by (rule same_bodies_block [OF sb that])
  have r1: "add_ref (- 1) p rt = Some rt1" by (simp add: add_ref_Some [OF p(2)] rt1_def g_def)
  have r2: "get_count p rt1 = Some (ref_count g)" by (simp add: get_count_def rt1_def)
  have gn: "0 \<le> ref_count g" using hk(2) [OF p(2)] by (simp add: g_def)
  have l1: "lists_ok rt1" using c1 by (simp add: counted_def)
  have gp: "heap rt1 p = Some g" by (simp add: rt1_def)
  show ?thesis
  proof (cases "ref_count g = 0")
    case False
    have "0 < ref_count k" if "heap rt1 x = Some k" for x k
      using bl [OF that] that gn False by (cases "x = p") (auto simp: rt1_def)
    then have "gc_heap K' rt1" using c1 bl ok unfolding gc_heap_def by (simp add: rt1_def)
    moreover have "JS_FreeValue (Ref p) rt = Some rt1" using r1 r2 gn False by (simp add: JS_FreeValue_def)
    moreover have "heap rt1 x \<noteq> None" if "live K' (heap rt) x" for x
      using live_count [OF c1] that live_same [OF sb] by blast
    ultimately show ?thesis using bodies unfolding K'_def by blast
  next
    case True
    define rt2 where "rt2 = unlink p rt1\<lparr>gc_zero_ref_count_list := p # remove1 p (gc_zero_ref_count_list rt1)\<rparr>"
    have H: "heap rt2 = heap rt1" by (simp add: rt2_def)
    have N: "gc_phase rt2 = JS_GC_PHASE_NONE" "tmp_obj_list rt2 = []" "gc_zero_ref_count_list rt2 = [p]"
      using ok by (simp_all add: rt2_def rt1_def gc_heap_def)
    have c2: "counted K' {} rt2"
      unfolding rt2_def by (rule counted_lists [OF c1]) (simp_all add: lists_ok_move_zero [OF l1 gp])
    have "\<not> mark k \<and> (running (body k) \<longrightarrow> 0 < K' x) \<and> (\<forall>t. body k \<noteq> Zombie t) \<and> (ref_count k = 0 \<longleftrightarrow> x = p) \<and>
        (x = p \<longrightarrow> is_value (gc_obj_type (body k)))" if k: "heap rt2 x = Some k" for x k
    proof (cases "x = p")
      case x: True
      then have "k = g" using k gp by (simp add: H)
      then show ?thesis using bl [of x k] k True p(3) x by (simp add: H g_def)
    next
      case False
      then show ?thesis using bl [of x k] k by (simp add: H)
    qed
    then obtain rt' where rt': "free_zero_refcount rt2 = Some rt'" "gc_heap K' rt'"
        "\<forall>x h'. heap rt' x = Some h' \<longrightarrow> (\<exists>h. heap rt2 x = Some h \<and> body h' = body h)" "\<forall>x. live K' (heap rt2) x \<longrightarrow> heap rt' x \<noteq> None"
      using free_zero_correct [OF c2 N] by blast
    have q: "js_free_value_rt p rt1 = Some rt2"
      using ok by (simp add: js_free_value_rt_def list_del_unlink [OF l1 gp] rt2_def) (simp add: rt1_def gc_heap_def)
    have "JS_FreeValue (Ref p) rt = Some rt'" using r1 r2 True N(1) rt'(1) by (simp add: JS_FreeValue_def q)
    moreover have "\<exists>h. heap rt x = Some h \<and> body h' = body h" if "heap rt' x = Some h'" for x h'
      using rt'(3) that bodies unfolding H by metis
    ultimately show ?thesis using rt'(2,4) live_same [OF sb] unfolding H K'_def by blast
  qed
qed

section \<open>The properties\<close>

text \<open>C35: in a heap with exact counts a run of the collector fails no assertion and touches no freed block; afterwards
  exactly the blocks reachable from the references outside the heap are left, with their contents unchanged, and
  the counts are exact again. Cycles through closures, shapes, contexts and suspended asynchronous functions are included.\<close>

theorem JS_RunGC_correct:
  assumes "gc_heap K rt"
  shows "\<exists>rt'. JS_RunGC rt = Some rt' \<and> gc_heap K rt' \<and> dom (heap rt') = {x. live K (heap rt) x} \<and>
     (\<forall>x h'. heap rt' x = Some h' \<longrightarrow> (\<exists>h. heap rt x = Some h \<and> body h' = body h))"
  by (rule run_gc [OF assms])

text \<open>
  An example: a cycle of two objects (1 and 2), a function with its bytecode and a closure variable that holds the
  function (4, 5, 6), an object held from outside (3), and the shape of all objects (0).
\<close>

definition example_heap :: "runtime" where
  "example_heap = \<lparr>
     heap = [0 \<mapsto> \<lparr>ref_count = 4, mark = False, body = Shape None\<rparr>,
       1 \<mapsto> \<lparr>ref_count = 1, mark = False, body = JsObject 0 [Value (Ref 2)] NoData\<rparr>,
       2 \<mapsto> \<lparr>ref_count = 1, mark = False, body = JsObject 0 [GetSet (Some 1) None] NoData\<rparr>,
       3 \<mapsto> \<lparr>ref_count = 1, mark = False, body = JsObject 0 [Value Plain] NoData\<rparr>,
       4 \<mapsto> \<lparr>ref_count = 1, mark = False, body = JsObject 0 [] (BytecodeFunction None (Some 5) (Some [Detached 6]))\<rparr>,
       5 \<mapsto> \<lparr>ref_count = 1, mark = False, body = FunctionBytecode [Plain] None\<rparr>,
       6 \<mapsto> \<lparr>ref_count = 1, mark = False, body = VarRef (Ref 4)\<rparr>],
     gc_obj_list = [0, 1, 2, 3, 4, 5, 6], tmp_obj_list = [], gc_zero_ref_count_list = [], gc_phase = JS_GC_PHASE_NONE\<rparr>"

definition example_roots :: "ptr \<Rightarrow> nat" where
  "example_roots x = (if x = 3 then 1 else 0)"

lemma example_dom: "dom (heap example_heap) = {0, 1, 2, 3, 4, 5, 6}"
  by (auto simp: example_heap_def)

lemma example_refs: "refs example_heap {} x = (if x = 0 then 4 else if x \<in> {1, 2, 4, 5, 6} then 1 else 0)"
  unfolding refs_def example_dom by (simp add: example_heap_def mark_opt_def)

lemma example_ok: "gc_heap example_roots example_heap"
proof -
  have "lists_ok example_heap" unfolding lists_ok_def example_dom by (auto simp: all_list_def example_heap_def)
  moreover have "ref_count h = int (example_roots x + refs example_heap {} x)" if "heap example_heap x = Some h" for x h
    using that unfolding example_refs by (auto simp: example_heap_def example_roots_def split: if_splits)
  moreover have "example_roots x + refs example_heap {} x = 0" if "heap example_heap x = None" for x
    using that unfolding example_refs by (auto simp: example_heap_def example_roots_def split: if_splits)
  moreover have "typed example_heap d" if "heap example_heap y = Some h" "d \<in> set (edges (body h))" for y h d
    using that by (auto simp: example_heap_def typed_def is_value_def val_edges_def opt_edges_def mark_opt_def slot_edges_def split: if_splits)
  ultimately have "counted example_roots {} example_heap" by (simp add: counted_def)
  then show ?thesis by (auto simp: gc_heap_def example_heap_def split: if_splits)
qed

lemma example_live: "live example_roots (heap example_heap) x \<longleftrightarrow> x \<in> {0, 3}"
proof
  show "live example_roots (heap example_heap) x \<Longrightarrow> x \<in> {0, 3}"
    by (induction rule: live.induct) (auto simp: example_roots_def example_heap_def mark_opt_def split: if_splits)
next
  have 3: "live example_roots (heap example_heap) 3" by (rule live.root) (simp add: example_roots_def)
  have h: "heap example_heap 3 = Some \<lparr>ref_count = 1, mark = False, body = JsObject 0 [Value Plain] NoData\<rparr>"
    by (simp add: example_heap_def)
  have "live example_roots (heap example_heap) 0" by (rule live.child [OF 3 h]) simp
  then show "x \<in> {0, 3} \<Longrightarrow> live example_roots (heap example_heap) x" using 3 by auto
qed

theorem JS_RunGC_correct_witness:
  "gc_heap example_roots example_heap \<and> (\<exists>rt'. JS_RunGC example_heap = Some rt' \<and> dom (heap rt') = {0, 3})"
  using JS_RunGC_correct [OF example_ok] example_ok example_live by auto

text \<open>C36: releasing a reference from outside the heap keeps the counts exact. It frees no block that is still reachable, the
  blocks that stay keep their contents, and none stays with a count of zero, however long the chain of
  objects that is freed with it.\<close>

theorem JS_FreeValue_correct:
  assumes "gc_heap K rt" and "0 < K p" and "heap rt p = Some h" and "is_value (gc_obj_type (body h))"
  shows "\<exists>rt'. JS_FreeValue (Ref p) rt = Some rt' \<and> gc_heap (K(p := K p - 1)) rt' \<and>
     (\<forall>x h'. heap rt' x = Some h' \<longrightarrow> (\<exists>h. heap rt x = Some h \<and> body h' = body h)) \<and>
     (\<forall>x. live (K(p := K p - 1)) (heap rt) x \<longrightarrow> heap rt' x \<noteq> None)"
  by (rule free_value [OF assms])

theorem JS_FreeValue_correct_witness:
  "example_roots 3 = 1 \<and> (\<exists>rt'. JS_FreeValue (Ref 3) example_heap = Some rt' \<and> gc_heap (example_roots(3 := 0)) rt')"
proof -
  have "heap example_heap 3 = Some \<lparr>ref_count = 1, mark = False, body = JsObject 0 [Value Plain] NoData\<rparr>"
    by (simp add: example_heap_def)
  from JS_FreeValue_correct [OF example_ok _ this] show ?thesis by (auto simp: example_roots_def is_value_def)
qed

end
