(* ===== verification/Bytecode.thy ===== *)
theory Bytecode
  imports Prelude
begin

text \<open>
  The instructions of the bytecode: the table of \<open>src/qjs/quickjs-opcode.h\<close> with the size of every
  instruction and the number of values it pops and pushes, and the readers of operands from
  \<open>cutils.h\<close>. Bytecode is a list of bytes; the machine is little-endian.
\<close>

section \<open>The table of the instructions\<close>

datatype op_fmt =
    OP_FMT_none | OP_FMT_none_int | OP_FMT_none_loc | OP_FMT_none_arg | OP_FMT_none_var_ref
  | OP_FMT_u8 | OP_FMT_i8 | OP_FMT_loc8 | OP_FMT_const8 | OP_FMT_label8
  | OP_FMT_u16 | OP_FMT_i16 | OP_FMT_label16 | OP_FMT_npop | OP_FMT_npopx
  | OP_FMT_npop_u16 | OP_FMT_loc | OP_FMT_arg | OP_FMT_var_ref | OP_FMT_u32
  | OP_FMT_u32x2 | OP_FMT_i32 | OP_FMT_const | OP_FMT_label | OP_FMT_atom
  | OP_FMT_atom_u8 | OP_FMT_atom_u16 | OP_FMT_atom_label_u8 | OP_FMT_atom_label_u16 | OP_FMT_label_u16

record JSOpCode =
  op_size :: nat
  op_n_pop :: nat
  op_n_push :: nat
  op_fmt :: op_fmt

text \<open>A line \<open>DEF(id, size, n_pop, n_push, f)\<close> of the table.\<close>

definition op_def :: "nat \<Rightarrow> nat \<Rightarrow> nat \<Rightarrow> op_fmt \<Rightarrow> JSOpCode" where
  "op_def sz n_pop n_push f = \<lparr>op_size = sz, op_n_pop = n_pop, op_n_push = n_push, op_fmt = f\<rparr>"

text \<open>
  The table in the order of the file: the instructions up to \<open>nop\<close>, the 18 temporary ones of the compiler, and
  the short forms, which take the numbers of the temporary ones in the final bytecode.
\<close>

definition opcode_info :: "JSOpCode list" where
  "opcode_info = [
     op_def 1 0 0 OP_FMT_none, op_def 5 0 1 OP_FMT_i32, op_def 5 0 1 OP_FMT_const,
     op_def 5 0 1 OP_FMT_const, op_def 5 0 1 OP_FMT_atom, op_def 5 0 1 OP_FMT_atom,
     op_def 1 0 1 OP_FMT_none, op_def 1 0 1 OP_FMT_none, op_def 1 0 1 OP_FMT_none,
     op_def 1 0 1 OP_FMT_none, op_def 1 0 1 OP_FMT_none, op_def 1 0 1 OP_FMT_none,
     op_def 2 0 1 OP_FMT_u8, op_def 3 0 1 OP_FMT_u16, op_def 1 1 0 OP_FMT_none,
     op_def 1 2 1 OP_FMT_none, op_def 1 3 2 OP_FMT_none, op_def 1 1 2 OP_FMT_none,
     op_def 1 2 3 OP_FMT_none, op_def 1 2 4 OP_FMT_none, op_def 1 3 6 OP_FMT_none,
     op_def 1 2 3 OP_FMT_none, op_def 1 3 4 OP_FMT_none, op_def 1 4 5 OP_FMT_none,
     op_def 1 3 3 OP_FMT_none, op_def 1 4 4 OP_FMT_none, op_def 1 5 5 OP_FMT_none,
     op_def 1 2 2 OP_FMT_none, op_def 1 4 4 OP_FMT_none, op_def 1 3 3 OP_FMT_none,
     op_def 1 3 3 OP_FMT_none, op_def 1 4 4 OP_FMT_none, op_def 1 5 5 OP_FMT_none,
     op_def 3 2 1 OP_FMT_npop, op_def 3 1 1 OP_FMT_npop, op_def 3 1 0 OP_FMT_npop,
     op_def 3 2 1 OP_FMT_npop, op_def 3 2 0 OP_FMT_npop, op_def 3 0 1 OP_FMT_npop,
     op_def 3 3 1 OP_FMT_u16, op_def 1 1 0 OP_FMT_none, op_def 1 0 0 OP_FMT_none,
     op_def 1 1 2 OP_FMT_none, op_def 1 0 0 OP_FMT_none, op_def 1 0 1 OP_FMT_none,
     op_def 1 2 2 OP_FMT_none, op_def 1 2 0 OP_FMT_none, op_def 1 1 0 OP_FMT_none,
     op_def 1 1 0 OP_FMT_none, op_def 6 0 0 OP_FMT_atom_u8, op_def 5 1 1 OP_FMT_npop_u16,
     op_def 3 2 1 OP_FMT_u16, op_def 1 2 1 OP_FMT_none, op_def 1 1 1 OP_FMT_none,
     op_def 1 2 1 OP_FMT_none, op_def 5 0 1 OP_FMT_atom, op_def 5 0 1 OP_FMT_atom,
     op_def 5 1 0 OP_FMT_atom, op_def 5 1 0 OP_FMT_atom, op_def 1 2 3 OP_FMT_none,
     op_def 1 3 0 OP_FMT_none, op_def 6 0 0 OP_FMT_atom_u8, op_def 6 0 0 OP_FMT_atom_u8,
     op_def 6 1 0 OP_FMT_atom_u8, op_def 5 1 1 OP_FMT_atom, op_def 5 1 2 OP_FMT_atom,
     op_def 5 2 0 OP_FMT_atom, op_def 1 2 1 OP_FMT_none, op_def 1 3 0 OP_FMT_none,
     op_def 1 3 1 OP_FMT_none, op_def 1 2 1 OP_FMT_none, op_def 1 2 2 OP_FMT_none,
     op_def 1 3 0 OP_FMT_none, op_def 1 3 1 OP_FMT_none, op_def 1 4 0 OP_FMT_none,
     op_def 5 2 1 OP_FMT_atom, op_def 5 1 1 OP_FMT_atom, op_def 1 2 2 OP_FMT_none,
     op_def 1 2 1 OP_FMT_none, op_def 1 2 2 OP_FMT_none, op_def 1 3 2 OP_FMT_none,
     op_def 1 3 2 OP_FMT_none, op_def 2 3 3 OP_FMT_u8, op_def 6 2 1 OP_FMT_atom_u8,
     op_def 2 3 1 OP_FMT_u8, op_def 6 2 2 OP_FMT_atom_u8, op_def 6 3 3 OP_FMT_atom_u8,
     op_def 3 0 1 OP_FMT_loc, op_def 3 1 0 OP_FMT_loc, op_def 3 1 1 OP_FMT_loc,
     op_def 3 0 1 OP_FMT_arg, op_def 3 1 0 OP_FMT_arg, op_def 3 1 1 OP_FMT_arg,
     op_def 3 0 1 OP_FMT_var_ref, op_def 3 1 0 OP_FMT_var_ref, op_def 3 1 1 OP_FMT_var_ref,
     op_def 3 0 0 OP_FMT_loc, op_def 3 0 1 OP_FMT_loc, op_def 3 1 0 OP_FMT_loc,
     op_def 3 1 0 OP_FMT_loc, op_def 3 0 1 OP_FMT_var_ref, op_def 3 1 0 OP_FMT_var_ref,
     op_def 3 1 0 OP_FMT_var_ref, op_def 3 0 0 OP_FMT_loc, op_def 5 1 0 OP_FMT_label,
     op_def 5 1 0 OP_FMT_label, op_def 5 0 0 OP_FMT_label, op_def 5 0 1 OP_FMT_label,
     op_def 5 0 0 OP_FMT_label, op_def 1 1 0 OP_FMT_none, op_def 1 2 1 OP_FMT_none,
     op_def 1 1 1 OP_FMT_none, op_def 1 1 1 OP_FMT_none, op_def 1 2 2 OP_FMT_none,
     op_def 10 1 0 OP_FMT_atom_label_u8, op_def 10 2 1 OP_FMT_atom_label_u8, op_def 10 1 0 OP_FMT_atom_label_u8,
     op_def 10 1 0 OP_FMT_atom_label_u8, op_def 10 1 0 OP_FMT_atom_label_u8, op_def 10 1 0 OP_FMT_atom_label_u8,
     op_def 7 0 2 OP_FMT_atom_u16, op_def 7 0 2 OP_FMT_atom_u16, op_def 7 0 2 OP_FMT_atom_u16,
     op_def 5 0 2 OP_FMT_atom, op_def 1 1 1 OP_FMT_none, op_def 1 1 3 OP_FMT_none,
     op_def 1 1 3 OP_FMT_none, op_def 1 1 3 OP_FMT_none, op_def 2 3 5 OP_FMT_u8,
     op_def 1 1 1 OP_FMT_none, op_def 1 1 2 OP_FMT_none, op_def 1 3 0 OP_FMT_none,
     op_def 1 4 4 OP_FMT_none, op_def 2 4 5 OP_FMT_u8, op_def 1 0 0 OP_FMT_none,
     op_def 1 1 2 OP_FMT_none, op_def 1 1 2 OP_FMT_none, op_def 1 1 2 OP_FMT_none,
     op_def 1 1 1 OP_FMT_none, op_def 1 1 1 OP_FMT_none, op_def 1 1 1 OP_FMT_none,
     op_def 1 1 1 OP_FMT_none, op_def 1 1 1 OP_FMT_none, op_def 1 1 2 OP_FMT_none,
     op_def 1 1 2 OP_FMT_none, op_def 2 0 0 OP_FMT_loc8, op_def 2 0 0 OP_FMT_loc8,
     op_def 2 1 0 OP_FMT_loc8, op_def 1 1 1 OP_FMT_none, op_def 1 1 1 OP_FMT_none,
     op_def 1 1 1 OP_FMT_none, op_def 1 2 1 OP_FMT_none, op_def 5 0 1 OP_FMT_atom,
     op_def 1 2 1 OP_FMT_none, op_def 1 2 1 OP_FMT_none, op_def 1 2 1 OP_FMT_none,
     op_def 1 2 1 OP_FMT_none, op_def 1 2 1 OP_FMT_none, op_def 1 2 1 OP_FMT_none,
     op_def 1 2 1 OP_FMT_none, op_def 1 2 1 OP_FMT_none, op_def 1 2 1 OP_FMT_none,
     op_def 1 2 1 OP_FMT_none, op_def 1 2 1 OP_FMT_none, op_def 1 2 1 OP_FMT_none,
     op_def 1 2 1 OP_FMT_none, op_def 1 2 1 OP_FMT_none, op_def 1 2 1 OP_FMT_none,
     op_def 1 2 1 OP_FMT_none, op_def 1 2 1 OP_FMT_none, op_def 1 2 1 OP_FMT_none,
     op_def 1 2 1 OP_FMT_none, op_def 1 2 1 OP_FMT_none, op_def 1 2 1 OP_FMT_none,
     op_def 1 2 1 OP_FMT_none, op_def 1 1 1 OP_FMT_none, op_def 1 2 1 OP_FMT_none,
     op_def 5 0 1 OP_FMT_i32, op_def 1 0 0 OP_FMT_none, op_def 3 0 0 OP_FMT_u16,
     op_def 3 0 0 OP_FMT_u16, op_def 5 0 0 OP_FMT_label, op_def 7 0 1 OP_FMT_atom_u16,
     op_def 7 0 1 OP_FMT_atom_u16, op_def 7 1 0 OP_FMT_atom_u16, op_def 7 0 1 OP_FMT_atom_u16,
     op_def 11 0 2 OP_FMT_atom_label_u16, op_def 7 0 2 OP_FMT_atom_u16, op_def 7 0 2 OP_FMT_atom_u16,
     op_def 7 1 1 OP_FMT_atom_u16, op_def 7 1 2 OP_FMT_atom_u16, op_def 7 2 0 OP_FMT_atom_u16,
     op_def 7 1 1 OP_FMT_atom_u16, op_def 5 1 1 OP_FMT_atom, op_def 1 2 1 OP_FMT_none,
     op_def 5 1 1 OP_FMT_u32, op_def 9 0 0 OP_FMT_u32x2, op_def 1 0 1 OP_FMT_none_int,
     op_def 1 0 1 OP_FMT_none_int, op_def 1 0 1 OP_FMT_none_int, op_def 1 0 1 OP_FMT_none_int,
     op_def 1 0 1 OP_FMT_none_int, op_def 1 0 1 OP_FMT_none_int, op_def 1 0 1 OP_FMT_none_int,
     op_def 1 0 1 OP_FMT_none_int, op_def 1 0 1 OP_FMT_none_int, op_def 2 0 1 OP_FMT_i8,
     op_def 3 0 1 OP_FMT_i16, op_def 2 0 1 OP_FMT_const8, op_def 2 0 1 OP_FMT_const8,
     op_def 1 0 1 OP_FMT_none, op_def 2 0 1 OP_FMT_loc8, op_def 2 1 0 OP_FMT_loc8,
     op_def 2 1 1 OP_FMT_loc8, op_def 1 0 2 OP_FMT_none_loc, op_def 1 0 1 OP_FMT_none_loc,
     op_def 1 0 1 OP_FMT_none_loc, op_def 1 0 1 OP_FMT_none_loc, op_def 1 0 1 OP_FMT_none_loc,
     op_def 1 1 0 OP_FMT_none_loc, op_def 1 1 0 OP_FMT_none_loc, op_def 1 1 0 OP_FMT_none_loc,
     op_def 1 1 0 OP_FMT_none_loc, op_def 1 1 1 OP_FMT_none_loc, op_def 1 1 1 OP_FMT_none_loc,
     op_def 1 1 1 OP_FMT_none_loc, op_def 1 1 1 OP_FMT_none_loc, op_def 1 0 1 OP_FMT_none_arg,
     op_def 1 0 1 OP_FMT_none_arg, op_def 1 0 1 OP_FMT_none_arg, op_def 1 0 1 OP_FMT_none_arg,
     op_def 1 1 0 OP_FMT_none_arg, op_def 1 1 0 OP_FMT_none_arg, op_def 1 1 0 OP_FMT_none_arg,
     op_def 1 1 0 OP_FMT_none_arg, op_def 1 1 1 OP_FMT_none_arg, op_def 1 1 1 OP_FMT_none_arg,
     op_def 1 1 1 OP_FMT_none_arg, op_def 1 1 1 OP_FMT_none_arg, op_def 1 0 1 OP_FMT_none_var_ref,
     op_def 1 0 1 OP_FMT_none_var_ref, op_def 1 0 1 OP_FMT_none_var_ref, op_def 1 0 1 OP_FMT_none_var_ref,
     op_def 1 1 0 OP_FMT_none_var_ref, op_def 1 1 0 OP_FMT_none_var_ref, op_def 1 1 0 OP_FMT_none_var_ref,
     op_def 1 1 0 OP_FMT_none_var_ref, op_def 1 1 1 OP_FMT_none_var_ref, op_def 1 1 1 OP_FMT_none_var_ref,
     op_def 1 1 1 OP_FMT_none_var_ref, op_def 1 1 1 OP_FMT_none_var_ref, op_def 1 1 1 OP_FMT_none,
     op_def 2 1 0 OP_FMT_label8, op_def 2 1 0 OP_FMT_label8, op_def 2 0 0 OP_FMT_label8,
     op_def 3 0 0 OP_FMT_label16, op_def 1 1 1 OP_FMT_npopx, op_def 1 1 1 OP_FMT_npopx,
     op_def 1 1 1 OP_FMT_npopx, op_def 1 1 1 OP_FMT_npopx, op_def 1 1 1 OP_FMT_none,
     op_def 1 1 1 OP_FMT_none, op_def 1 1 1 OP_FMT_none, op_def 1 1 1 OP_FMT_none]"

definition OP_COUNT :: nat where
  "OP_COUNT = 246"

definition OP_TEMP_START :: nat where
  "OP_TEMP_START = 179"

definition OP_TEMP_END :: nat where
  "OP_TEMP_END = 197"

definition short_opcode_info :: "nat \<Rightarrow> JSOpCode" where
  "short_opcode_info op =
     opcode_info ! (if op \<ge> OP_TEMP_START then op + (OP_TEMP_END - OP_TEMP_START) else op)"

text \<open>The numbers (\<open>OPCodeEnum\<close>) of the instructions that the rest of the library names.\<close>

abbreviation OP_drop :: nat where "OP_drop \<equiv> 14"
abbreviation OP_nip :: nat where "OP_nip \<equiv> 15"
abbreviation OP_nip1 :: nat where "OP_nip1 \<equiv> 16"
abbreviation OP_tail_call :: nat where "OP_tail_call \<equiv> 35"
abbreviation OP_tail_call_method :: nat where "OP_tail_call_method \<equiv> 37"
abbreviation OP_return :: nat where "OP_return \<equiv> 40"
abbreviation OP_return_undef :: nat where "OP_return_undef \<equiv> 41"
abbreviation OP_return_async :: nat where "OP_return_async \<equiv> 47"
abbreviation OP_throw :: nat where "OP_throw \<equiv> 48"
abbreviation OP_throw_error :: nat where "OP_throw_error \<equiv> 49"
abbreviation OP_if_false :: nat where "OP_if_false \<equiv> 104"
abbreviation OP_if_true :: nat where "OP_if_true \<equiv> 105"
abbreviation OP_goto :: nat where "OP_goto \<equiv> 106"
abbreviation OP_catch :: nat where "OP_catch \<equiv> 107"
abbreviation OP_gosub :: nat where "OP_gosub \<equiv> 108"
abbreviation OP_ret :: nat where "OP_ret \<equiv> 109"
abbreviation OP_nip_catch :: nat where "OP_nip_catch \<equiv> 110"
abbreviation OP_with_get_var :: nat where "OP_with_get_var \<equiv> 114"
abbreviation OP_with_put_var :: nat where "OP_with_put_var \<equiv> 115"
abbreviation OP_with_delete_var :: nat where "OP_with_delete_var \<equiv> 116"
abbreviation OP_with_make_ref :: nat where "OP_with_make_ref \<equiv> 117"
abbreviation OP_with_get_ref :: nat where "OP_with_get_ref \<equiv> 118"
abbreviation OP_with_get_ref_undef :: nat where "OP_with_get_ref_undef \<equiv> 119"
abbreviation OP_for_of_start :: nat where "OP_for_of_start \<equiv> 125"
abbreviation OP_for_await_of_start :: nat where "OP_for_await_of_start \<equiv> 126"
abbreviation OP_iterator_close :: nat where "OP_iterator_close \<equiv> 131"
abbreviation OP_if_false8 :: nat where "OP_if_false8 \<equiv> 234"
abbreviation OP_if_true8 :: nat where "OP_if_true8 \<equiv> 235"
abbreviation OP_goto8 :: nat where "OP_goto8 \<equiv> 236"
abbreviation OP_goto16 :: nat where "OP_goto16 \<equiv> 237"
abbreviation OP_call0 :: nat where "OP_call0 \<equiv> 238"

lemma opcode_table: "length opcode_info = OP_COUNT + (OP_TEMP_END - OP_TEMP_START)"
  by (simp add: opcode_info_def OP_COUNT_def OP_TEMP_END_def OP_TEMP_START_def)

text \<open>The entries of the instructions above.\<close>

lemma short_opcode_info_named:
  "short_opcode_info OP_drop = op_def 1 1 0 OP_FMT_none"
  "short_opcode_info OP_nip = op_def 1 2 1 OP_FMT_none"
  "short_opcode_info OP_nip1 = op_def 1 3 2 OP_FMT_none"
  "short_opcode_info OP_tail_call = op_def 3 1 0 OP_FMT_npop"
  "short_opcode_info OP_tail_call_method = op_def 3 2 0 OP_FMT_npop"
  "short_opcode_info OP_return = op_def 1 1 0 OP_FMT_none"
  "short_opcode_info OP_return_undef = op_def 1 0 0 OP_FMT_none"
  "short_opcode_info OP_return_async = op_def 1 1 0 OP_FMT_none"
  "short_opcode_info OP_throw = op_def 1 1 0 OP_FMT_none"
  "short_opcode_info OP_throw_error = op_def 6 0 0 OP_FMT_atom_u8"
  "short_opcode_info OP_if_false = op_def 5 1 0 OP_FMT_label"
  "short_opcode_info OP_if_true = op_def 5 1 0 OP_FMT_label"
  "short_opcode_info OP_goto = op_def 5 0 0 OP_FMT_label"
  "short_opcode_info OP_catch = op_def 5 0 1 OP_FMT_label"
  "short_opcode_info OP_gosub = op_def 5 0 0 OP_FMT_label"
  "short_opcode_info OP_ret = op_def 1 1 0 OP_FMT_none"
  "short_opcode_info OP_nip_catch = op_def 1 2 1 OP_FMT_none"
  "short_opcode_info OP_with_get_var = op_def 10 1 0 OP_FMT_atom_label_u8"
  "short_opcode_info OP_with_put_var = op_def 10 2 1 OP_FMT_atom_label_u8"
  "short_opcode_info OP_with_delete_var = op_def 10 1 0 OP_FMT_atom_label_u8"
  "short_opcode_info OP_with_make_ref = op_def 10 1 0 OP_FMT_atom_label_u8"
  "short_opcode_info OP_with_get_ref = op_def 10 1 0 OP_FMT_atom_label_u8"
  "short_opcode_info OP_with_get_ref_undef = op_def 10 1 0 OP_FMT_atom_label_u8"
  "short_opcode_info OP_for_of_start = op_def 1 1 3 OP_FMT_none"
  "short_opcode_info OP_for_await_of_start = op_def 1 1 3 OP_FMT_none"
  "short_opcode_info OP_iterator_close = op_def 1 3 0 OP_FMT_none"
  "short_opcode_info OP_if_false8 = op_def 2 1 0 OP_FMT_label8"
  "short_opcode_info OP_if_true8 = op_def 2 1 0 OP_FMT_label8"
  "short_opcode_info OP_goto8 = op_def 2 0 0 OP_FMT_label8"
  "short_opcode_info OP_goto16 = op_def 3 0 0 OP_FMT_label16"
  "short_opcode_info OP_call0 = op_def 1 1 1 OP_FMT_npopx"
  by (simp_all add: short_opcode_info_def opcode_info_def OP_TEMP_START_def OP_TEMP_END_def)

section \<open>Operands\<close>

text \<open>A pointer into the bytecode is the list of the bytes from it on.\<close>

definition get_u16 :: "u8 list \<Rightarrow> u16" where
  "get_u16 tab = ucast (tab ! 0) OR push_bit 8 (ucast (tab ! 1))"

definition get_u32 :: "u8 list \<Rightarrow> u32" where
  "get_u32 tab = ucast (tab ! 0) OR push_bit 8 (ucast (tab ! 1)) OR push_bit 16 (ucast (tab ! 2))
     OR push_bit 24 (ucast (tab ! 3))"

end
