(* ===== verification/Stack_Size.thy ===== *)
theory Stack_Size
  imports Bytecode "HOL-Library.While_Combinator"
begin

text \<open>
  The verifier of the bytecode, \<open>compute_stack_size\<close> in \<open>src/qjs/quickjs.c\<close>. It explores the instructions
  of a function, gives each one stack depth and one innermost entry for exceptions (by the position of the
  \<open>catch\<close> or \<open>for_of_start\<close> that pushed it), refuses code where they differ between two paths, and
  returns the largest depth, for which the interpreter reserves the stack. A stack map is what such an
  assignment has to satisfy; the verifier finds the one there is.
\<close>

section \<open>The state\<close>

text \<open>
  \<open>pc_stack\<close> holds the entries below \<open>pc_stack_len\<close>, the last one first; it is \<open>NULL\<close> when \<open>pc_stack_size\<close>
  is 0. The entries of the tables that are not written yet are shown as 0. An operation
  returns the error it throws, or \<open>None\<close>, with the state it leaves.
\<close>

record stack_size_state =
  stack_len_max :: int
  stack_level_tab :: "int list"
  catch_pos_tab :: "int list"
  pc_stack :: "int list"
  pc_stack_size :: nat

type_synonym ss_result = "js_error option \<times> stack_size_state \<times> mem"

definition JS_STACK_SIZE_MAX :: int where
  "JS_STACK_SIZE_MAX = 65534"

text \<open>An array of \<open>psize\<close> elements grows; \<open>slack\<close> is what the allocator reports beyond a block of a size.\<close>

definition js_realloc_array :: "(nat \<Rightarrow> nat) \<Rightarrow> nat \<Rightarrow> nat \<Rightarrow> nat \<Rightarrow> nat alloc" where
  "js_realloc_array slack elem_size psize req_size =
     (let new_size = max req_size (psize * 3 div 2)
      in bind_m (if psize = 0 then js_malloc else js_realloc)
           (\<lambda>_. return_m (new_size + slack (new_size * elem_size) div elem_size)))"

definition js_resize_array :: "(nat \<Rightarrow> nat) \<Rightarrow> nat \<Rightarrow> nat \<Rightarrow> nat \<Rightarrow> nat alloc" where
  "js_resize_array slack elem_size psize req_size =
     (if req_size > psize then js_realloc_array slack elem_size psize req_size else return_m psize)"

text \<open>The test on \<open>stack_len_max\<close>, and whether the limit is exceeded.\<close>

definition ss_max :: "int \<Rightarrow> stack_size_state \<Rightarrow> bool \<times> stack_size_state" where
  "ss_max stack_len s =
     (if stack_len > stack_len_max s
      then (stack_len > JS_STACK_SIZE_MAX, s\<lparr>stack_len_max := stack_len\<rparr>) else (False, s))"

definition ss_check :: "(nat \<Rightarrow> nat) \<Rightarrow> u8 list \<Rightarrow> int \<times> int \<times> int \<Rightarrow> stack_size_state \<Rightarrow> mem \<Rightarrow> ss_result" where
  "ss_check slack bc = (\<lambda>(pos, stack_len, catch_pos) s m.
     if \<not> (0 \<le> pos \<and> pos < int (length bc)) then (Some (InternalError ''bytecode buffer overflow''), s, m)
     else (case ss_max stack_len s of (over, s) \<Rightarrow>
       if over then (Some (InternalError ''stack overflow''), s, m)
       else if stack_level_tab s ! nat pos \<noteq> 0xffff
       then (if stack_level_tab s ! nat pos \<noteq> stack_len
             then (Some (InternalError ''inconsistent stack size''), s, m)
             else if catch_pos_tab s ! nat pos \<noteq> catch_pos
             then (Some (InternalError ''inconsistent catch position''), s, m)
             else (None, s, m))
       else let s = s\<lparr>stack_level_tab := (stack_level_tab s)[nat pos := stack_len mod 65536],
                      catch_pos_tab := (catch_pos_tab s)[nat pos := catch_pos]\<rparr>
            in (case js_resize_array slack 4 (pc_stack_size s) (length (pc_stack s) + 1) m of
                 (Inl e, m) \<Rightarrow> (Some e, s, m)
               | (Inr n, m) \<Rightarrow> (None, s\<lparr>pc_stack := pos # pc_stack s, pc_stack_size := n\<rparr>, m))))"

section \<open>One instruction\<close>

text \<open>The values that the instruction \<open>op\<close> at \<open>pos\<close> pops.\<close>

definition insn_n_pop :: "u8 list \<Rightarrow> int \<Rightarrow> nat \<Rightarrow> int" where
  "insn_n_pop bc pos op =
     (let oi = short_opcode_info op
      in int (op_n_pop oi) +
         (if op_fmt oi = OP_FMT_npop \<or> op_fmt oi = OP_FMT_npop_u16
          then int (unat (get_u16 (drop (nat (pos + 1)) bc)))
          else if op_fmt oi = OP_FMT_npopx then int op - int OP_call0 else 0))"

text \<open>The instruction at \<open>pos\<close>: its number, the position behind it, and the depth that it leaves.\<close>

definition ss_fetch :: "u8 list \<Rightarrow> int \<Rightarrow> int \<Rightarrow> js_error + nat \<times> int \<times> int" where
  "ss_fetch bc pos stack_len =
     (let op = unat (bc ! nat pos); oi = short_opcode_info op
      in if op = 0 \<or> op \<ge> OP_COUNT then Inl (InternalError ''invalid opcode'')
         else if pos + int (op_size oi) > int (length bc) then Inl (InternalError ''bytecode buffer overflow'')
         else if stack_len < insn_n_pop bc pos op then Inl (InternalError ''stack underflow'')
         else Inr (op, pos + int (op_size oi), stack_len + (int (op_n_push oi) - insn_n_pop bc pos op)))"

text \<open>The displacements in the operand at \<open>pos\<close>.\<close>

definition diff8 :: "u8 list \<Rightarrow> int \<Rightarrow> int" where
  "diff8 bc pos = sint (bc ! nat pos)"

definition diff16 :: "u8 list \<Rightarrow> int \<Rightarrow> int" where
  "diff16 bc pos = sint (get_u16 (drop (nat pos) bc))"

definition diff32 :: "u8 list \<Rightarrow> int \<Rightarrow> int" where
  "diff32 bc pos = sint (get_u32 (drop (nat pos) bc))"

text \<open>
  The depth below the exception entry that the instruction at \<open>catch_pos\<close> pushed. \<open>lev\<close> and \<open>cat\<close> are the
  entries of the two tables.
\<close>

definition catch_base :: "u8 list \<Rightarrow> (int \<Rightarrow> int) \<Rightarrow> int \<Rightarrow> int" where
  "catch_base bc lev catch_pos =
     (if unat (bc ! nat catch_pos) \<noteq> OP_catch then lev catch_pos + 1 else lev catch_pos)"

definition check_catch :: "u8 list \<Rightarrow> (int \<Rightarrow> int) \<Rightarrow> (int \<Rightarrow> int) \<Rightarrow> int \<Rightarrow> int \<Rightarrow> int" where
  "check_catch bc lev cat catch_level catch_pos =
     (if catch_pos \<ge> 0 \<and> catch_level = catch_base bc lev catch_pos then cat catch_pos else catch_pos)"

text \<open>
  The \<open>switch\<close>: the branch to check inside it, and the check behind it, which \<open>goto done_insn\<close> skips; each is a
  position, a depth and the position of the exception entry.
\<close>

definition ss_switch :: "u8 list \<Rightarrow> (int \<Rightarrow> int) \<Rightarrow> (int \<Rightarrow> int) \<Rightarrow> int \<Rightarrow> nat \<Rightarrow> int \<Rightarrow> int \<Rightarrow> int \<Rightarrow>
    js_error + (int \<times> int \<times> int) option \<times> (int \<times> int \<times> int) option" where
  "ss_switch bc lev cat pos op pos_next stack_len catch_pos =
     (if op \<in> {OP_tail_call, OP_tail_call_method, OP_return, OP_return_undef, OP_return_async, OP_throw,
          OP_throw_error, OP_ret}
      then Inr (None, None)
      else if op = OP_goto then Inr (None, Some (pos + 1 + diff32 bc (pos + 1), stack_len, catch_pos))
      else if op = OP_goto16 then Inr (None, Some (pos + 1 + diff16 bc (pos + 1), stack_len, catch_pos))
      else if op = OP_goto8 then Inr (None, Some (pos + 1 + diff8 bc (pos + 1), stack_len, catch_pos))
      else if op \<in> {OP_if_true8, OP_if_false8}
      then Inr (Some (pos + 1 + diff8 bc (pos + 1), stack_len, catch_pos), Some (pos_next, stack_len, catch_pos))
      else if op \<in> {OP_if_true, OP_if_false}
      then Inr (Some (pos + 1 + diff32 bc (pos + 1), stack_len, catch_pos), Some (pos_next, stack_len, catch_pos))
      else if op = OP_gosub
      then Inr (Some (pos + 1 + diff32 bc (pos + 1), stack_len + 1, catch_pos), Some (pos_next, stack_len, catch_pos))
      else if op \<in> {OP_with_get_var, OP_with_delete_var}
      then Inr (Some (pos + 5 + diff32 bc (pos + 5), stack_len + 1, catch_pos), Some (pos_next, stack_len, catch_pos))
      else if op \<in> {OP_with_make_ref, OP_with_get_ref, OP_with_get_ref_undef}
      then Inr (Some (pos + 5 + diff32 bc (pos + 5), stack_len + 2, catch_pos), Some (pos_next, stack_len, catch_pos))
      else if op = OP_with_put_var
      then Inr (Some (pos + 5 + diff32 bc (pos + 5), stack_len - 1, catch_pos), Some (pos_next, stack_len, catch_pos))
      else if op = OP_catch
      then Inr (Some (pos + 1 + diff32 bc (pos + 1), stack_len, catch_pos), Some (pos_next, stack_len, pos))
      else if op \<in> {OP_for_of_start, OP_for_await_of_start} then Inr (None, Some (pos_next, stack_len, pos))
      else if op = OP_drop
      then Inr (None, Some (pos_next, stack_len, check_catch bc lev cat stack_len catch_pos))
      else if op = OP_nip
      then Inr (None, Some (pos_next, stack_len, check_catch bc lev cat (stack_len - 1) catch_pos))
      else if op = OP_nip1
      then Inr (None, Some (pos_next, stack_len, check_catch bc lev cat (stack_len - 1) catch_pos))
      else if op = OP_iterator_close
      then Inr (None, Some (pos_next, stack_len, check_catch bc lev cat (stack_len + 2) catch_pos))
      else if op = OP_nip_catch
      then (if catch_pos < 0 then Inl (InternalError ''nip_catch: no catch op'')
            else Inr (None, Some (pos_next, catch_base bc lev catch_pos + 1, cat catch_pos)))
      else Inr (None, Some (pos_next, stack_len, catch_pos)))"

section \<open>The exploration\<close>

definition level_at :: "stack_size_state \<Rightarrow> int \<Rightarrow> int" where
  "level_at s pos = stack_level_tab s ! nat pos"

definition catch_at :: "stack_size_state \<Rightarrow> int \<Rightarrow> int" where
  "catch_at s pos = catch_pos_tab s ! nat pos"

fun ss_check_opt :: "(nat \<Rightarrow> nat) \<Rightarrow> u8 list \<Rightarrow> (int \<times> int \<times> int) option \<Rightarrow> stack_size_state \<Rightarrow> mem \<Rightarrow> ss_result" where
  "ss_check_opt slack bc None s m = (None, s, m)"
| "ss_check_opt slack bc (Some c) s m = ss_check slack bc c s m"

text \<open>The \<open>switch\<close> and the two checks, for the instruction that has been fetched.\<close>

definition ss_dispatch :: "(nat \<Rightarrow> nat) \<Rightarrow> u8 list \<Rightarrow> int \<Rightarrow> nat \<Rightarrow> int \<Rightarrow> int \<Rightarrow> stack_size_state \<Rightarrow> mem \<Rightarrow> ss_result" where
  "ss_dispatch slack bc pos op pos_next stack_len s m =
     (case ss_switch bc (level_at s) (catch_at s) pos op pos_next stack_len (catch_at s pos) of
        Inl e \<Rightarrow> (Some e, s, m)
      | Inr (branch, next) \<Rightarrow>
          (case ss_check_opt slack bc branch s m of
             (None, s, m) \<Rightarrow> ss_check_opt slack bc next s m
           | failed \<Rightarrow> failed))"

text \<open>The body of the loop; the stack is not empty.\<close>

definition ss_step :: "(nat \<Rightarrow> nat) \<Rightarrow> u8 list \<Rightarrow> stack_size_state \<Rightarrow> mem \<Rightarrow> ss_result" where
  "ss_step slack bc s m =
     (let pos = hd (pc_stack s); s = s\<lparr>pc_stack := tl (pc_stack s)\<rparr>
      in case ss_fetch bc pos (level_at s pos) of
           Inl e \<Rightarrow> (Some e, s, m)
         | Inr (op, pos_next, stack_len) \<Rightarrow>
             (case ss_max stack_len s of (over, s) \<Rightarrow>
                if over then (Some (InternalError ''stack overflow''), s, m)
                else ss_dispatch slack bc pos op pos_next stack_len s m))"

definition ss_loop :: "(nat \<Rightarrow> nat) \<Rightarrow> u8 list \<Rightarrow> ss_result \<Rightarrow> ss_result option" where
  "ss_loop slack bc =
     while_option (\<lambda>(e, s, m). e = None \<and> pc_stack s \<noteq> []) (\<lambda>(e, s, m). ss_step slack bc s m)"

definition ss_init :: "u8 list \<Rightarrow> stack_size_state" where
  "ss_init bc = \<lparr>stack_len_max = 0, stack_level_tab = replicate (length bc) 0xffff,
     catch_pos_tab = replicate (length bc) 0, pc_stack = [], pc_stack_size = 0\<rparr>"

text \<open>\<open>Diverges\<close> would be the outcome of a loop without end.\<close>

definition ss_explore :: "(nat \<Rightarrow> nat) \<Rightarrow> u8 list \<Rightarrow> mem \<Rightarrow> ss_result" where
  "ss_explore slack bc m =
     (case ss_loop slack bc (ss_check slack bc (0, 0, - 1) (ss_init bc) m) of
        Some r \<Rightarrow> r | None \<Rightarrow> (Some Diverges, ss_init bc, m))"

text \<open>The three blocks; the array of positions is released when there is one.\<close>

definition free_tables :: "stack_size_state \<Rightarrow> unit alloc" where
  "free_tables s = then_m (if pc_stack_size s = 0 then return_m () else js_free) (then_m js_free js_free)"

definition compute_stack_size :: "(nat \<Rightarrow> nat) \<Rightarrow> u8 list \<Rightarrow> int alloc" where
  "compute_stack_size slack bc =
     bind_m js_malloc (\<lambda>_. guard_m js_malloc js_free (\<lambda>_ m.
       case ss_explore slack bc m of
         (None, s, m) \<Rightarrow> then_m (free_tables s) (return_m (stack_len_max s)) m
       | (Some e, s, m) \<Rightarrow> then_m (free_tables s) (throw_m e) m))"

end
