(* ===== verification/Stack_Map.thy ===== *)
theory Stack_Map
  imports Stack_Size
begin

text \<open>
  What a stack map promises the interpreter (\<open>JS_CallInternal\<close> in \<open>src/qjs/quickjs.c\<close>): the machine below
  has of a frame of the interpreter the position and the values on the stack, as far as their tags matter to the flow of
  control. The locale \<open>stack_map\<close> holds the conditions on an assignment of depths and exception entries to
  instructions; every frame that a run reaches then agrees with the assignment, as long as the run keeps the rules
  about exception entries and return addresses that the verifier takes for granted.
\<close>

section \<open>Frames\<close>

text \<open>
  The tags \<open>JS_TAG_CATCH_OFFSET\<close> and \<open>JS_TAG_INT\<close> with what they carry, and all others. \<open>vals\<close> is the
  stack, the top first.
\<close>

datatype stack_value = Catch_Offset int | Int_Value int | Other_Value

record frame =
  pc :: int
  vals :: "stack_value list"

definition depth :: "frame \<Rightarrow> int" where
  "depth f = int (length (vals f))"

definition opcode :: "u8 list \<Rightarrow> int \<Rightarrow> nat" where
  "opcode bc p = unat (bc ! nat p)"

definition frame_at :: "int \<Rightarrow> stack_value list \<Rightarrow> frame" where
  "frame_at p vs = \<lparr>pc = p, vals = vs\<rparr>"

lemma frame_at_sel [simp]: "pc (frame_at p vs) = p" "vals (frame_at p vs) = vs" "depth (frame_at p vs) = int (length vs)"
  by (simp_all add: frame_at_def depth_def)

lemma frame_at_inject [simp]: "frame_at p vs = frame_at p' vs' \<longleftrightarrow> p = p' \<and> vs = vs'"
  by (simp add: frame_at_def)

lemma frame_at_eta [simp]: "frame_at (pc f) (vals f) = f"
  by (simp add: frame_at_def)

definition is_catch :: "stack_value \<Rightarrow> bool" where
  "is_catch v \<longleftrightarrow> (\<exists>t. v = Catch_Offset t)"

lemma is_catch_simps [simp]: "is_catch (Catch_Offset t)" "\<not> is_catch (Int_Value i)" "\<not> is_catch Other_Value"
  by (simp_all add: is_catch_def)

text \<open>The exception entries, the innermost first: each with its index on the stack and the offset stored in it.\<close>

fun entries :: "stack_value list \<Rightarrow> (int \<times> int) list" where
  "entries [] = []"
| "entries (Catch_Offset t # vs) = (int (length vs), t) # entries vs"
| "entries (v # vs) = entries vs"

lemma entries_plain [simp]: "\<not> is_catch v \<Longrightarrow> entries (v # vs) = entries vs"
  by (cases v) simp_all

lemma entries_less: "(i, t) \<in> set (entries vs) \<Longrightarrow> i < int (length vs)"
  by (induction vs rule: entries.induct) auto

lemma entries_append: "\<forall>v\<in>set junk. \<not> is_catch v \<Longrightarrow> entries (junk @ vs) = entries vs"
  by (induction junk) simp_all

lemma nip1_entries: "entries (c # b # vs) = entries (c # b # a # vs) \<Longrightarrow> \<not> is_catch c \<and> \<not> is_catch b"
  by (cases c; cases b) auto

lemma entries_tl: "entries (tl vs) = entries vs \<or> entries (tl vs) = tl (entries vs)"
  by (cases vs rule: entries.cases) simp_all

text \<open>The value at index \<open>i\<close> is dropped: when it is the innermost exception entry, that one is gone.\<close>

fun leave :: "int \<Rightarrow> (int \<times> int) list \<Rightarrow> (int \<times> int) list" where
  "leave i [] = []"
| "leave i ((j, t) # sl) = (if j = i then sl else (j, t) # sl)"

lemma leave_other: "\<forall>(j, t)\<in>set es. j \<noteq> i \<Longrightarrow> leave i es = es"
  by (cases es) auto

lemma leave_top: "leave (int (length vs)) (entries (v # vs)) = entries vs"
proof (cases "is_catch v")
  case True
  then show ?thesis by (auto simp: is_catch_def)
next
  case False
  then show ?thesis using entries_less [of _ _ vs] by (simp, intro leave_other) fastforce
qed

text \<open>
  The loop at the label \<open>exception\<close> drops the values down to the first entry of a \<open>catch\<close>; below the entry of
  a loop, which is 0, it drops the \<open>next\<close> method without a look. The result is the position of the handler and the
  values below.
\<close>

function unwind :: "stack_value list \<Rightarrow> (int \<times> stack_value list) option" where
  "unwind [] = None"
| "unwind (Catch_Offset t # vs) = (if t = 0 then unwind (tl vs) else Some (t, vs))"
| "unwind (Int_Value i # vs) = unwind vs"
| "unwind (Other_Value # vs) = unwind vs"
  by pat_completeness auto
termination
  by (relation "measure length") auto

text \<open>Where a jump goes; the interpreter adds the displacement when \<open>pc\<close> is behind the number of the instruction.\<close>

definition jump_target :: "u8 list \<Rightarrow> int \<Rightarrow> int" where
  "jump_target bc p =
     (let op = opcode bc p
      in if op \<in> {OP_goto8, OP_if_true8, OP_if_false8} then p + 1 + diff8 bc (p + 1)
         else if op = OP_goto16 then p + 1 + diff16 bc (p + 1)
         else if op \<in> {OP_goto, OP_if_true, OP_if_false, OP_gosub, OP_catch} then p + 1 + diff32 bc (p + 1)
         else p + 1 + 9 + diff32 bc (p + 1 + 4) - 5)"

definition after :: "u8 list \<Rightarrow> int \<Rightarrow> int" where
  "after bc p = p + int (op_size (short_opcode_info (opcode bc p)))"

definition terminators :: "nat set" where
  "terminators = {OP_tail_call, OP_tail_call_method, OP_return, OP_return_undef, OP_return_async, OP_throw, OP_throw_error}"

definition gotos :: "nat set" where
  "gotos = {OP_goto, OP_goto8, OP_goto16}"

definition branches :: "nat set" where
  "branches = {OP_if_true, OP_if_false, OP_if_true8, OP_if_false8}"

text \<open>How far a \<open>with\<close> instruction that finds the property changes the depth.\<close>

definition with_change :: "nat \<Rightarrow> int option" where
  "with_change op =
     (if op \<in> {OP_with_get_var, OP_with_delete_var} then Some 0
      else if op \<in> {OP_with_make_ref, OP_with_get_ref, OP_with_get_ref_undef} then Some 1
      else if op = OP_with_put_var then Some (- 2) else None)"

text \<open>The other instructions: they pop and push what the table says.\<close>

definition plain :: "nat \<Rightarrow> bool" where
  "plain op \<longleftrightarrow> op \<notin> terminators \<union> gotos \<union> branches \<union>
     {OP_gosub, OP_ret, OP_catch, OP_for_of_start, OP_for_await_of_start, OP_drop, OP_nip, OP_nip1,
      OP_iterator_close, OP_nip_catch} \<and> with_change op = None"

text \<open>What an exception that leaves the instruction finds on the stack; the most are left to pop what they like.\<close>

definition raises :: "nat \<Rightarrow> stack_value list \<Rightarrow> stack_value list \<Rightarrow> bool" where
  "raises op vs rest \<longleftrightarrow>
     op \<notin> {OP_drop, OP_nip, OP_nip1, OP_nip_catch, OP_catch, OP_gosub} \<and>
     (op = OP_ret \<or> op \<in> gotos \<longrightarrow> rest = vs) \<and> (op = OP_iterator_close \<longrightarrow> rest = drop 2 vs)"

text \<open>
  One step of a frame. The values that a plain instruction and a \<open>with\<close> instruction leave are open: they compute,
  move and pop values and exception entries as they like, with the change of depth that the table has.
  \<open>ret\<close> jumps to any position that is on top of the stack. For an exception the step is labelled with the stack that the
  instruction has left.
\<close>

inductive frame_step :: "u8 list \<Rightarrow> stack_value list option \<Rightarrow> frame \<Rightarrow> frame \<Rightarrow> bool" for bc where
  plain: "plain (opcode bc p) \<Longrightarrow> insn_n_pop bc p (opcode bc p) \<le> int (length vs) \<Longrightarrow>
    int (length vs') = int (length vs) - insn_n_pop bc p (opcode bc p) + int (op_n_push (short_opcode_info (opcode bc p))) \<Longrightarrow>
    frame_step bc None (frame_at p vs) (frame_at (after bc p) vs')"
| goto: "opcode bc p \<in> gotos \<Longrightarrow> frame_step bc None (frame_at p vs) (frame_at (jump_target bc p) vs)"
| branch_taken: "opcode bc p \<in> branches \<Longrightarrow> frame_step bc None (frame_at p (v # vs)) (frame_at (jump_target bc p) vs)"
| branch_not_taken: "opcode bc p \<in> branches \<Longrightarrow> frame_step bc None (frame_at p (v # vs)) (frame_at (after bc p) vs)"
| with_found: "with_change (opcode bc p) = Some k \<Longrightarrow> int (length vs') = int (length vs) + k \<Longrightarrow>
    frame_step bc None (frame_at p vs) (frame_at (jump_target bc p) vs')"
| with_not_found: "with_change (opcode bc p) = Some k \<Longrightarrow> frame_step bc None (frame_at p (v # vs)) (frame_at (after bc p) vs)"
| gosub: "opcode bc p = OP_gosub \<Longrightarrow>
    frame_step bc None (frame_at p vs) (frame_at (jump_target bc p) (Int_Value (after bc p) # vs))"
| ret: "opcode bc p = OP_ret \<Longrightarrow> 0 \<le> t \<Longrightarrow> t < int (length bc) \<Longrightarrow>
    frame_step bc None (frame_at p (Int_Value t # vs)) (frame_at t vs)"
| catch: "opcode bc p = OP_catch \<Longrightarrow>
    frame_step bc None (frame_at p vs) (frame_at (after bc p) (Catch_Offset (jump_target bc p) # vs))"
| for_of_start: "opcode bc p \<in> {OP_for_of_start, OP_for_await_of_start} \<Longrightarrow>
    frame_step bc None (frame_at p (v # vs)) (frame_at (after bc p) (Catch_Offset 0 # method # obj # vs))"
| drop: "opcode bc p = OP_drop \<Longrightarrow> frame_step bc None (frame_at p (a # vs)) (frame_at (after bc p) vs)"
| nip: "opcode bc p = OP_nip \<Longrightarrow> frame_step bc None (frame_at p (b # a # vs)) (frame_at (after bc p) (b # vs))"
| nip1: "opcode bc p = OP_nip1 \<Longrightarrow> frame_step bc None (frame_at p (c # b # a # vs)) (frame_at (after bc p) (c # b # vs))"
| iterator_close: "opcode bc p = OP_iterator_close \<Longrightarrow>
    frame_step bc None (frame_at p (v # method # obj # vs)) (frame_at (after bc p) vs)"
| nip_catch: "opcode bc p = OP_nip_catch \<Longrightarrow> \<forall>x\<in>set junk. \<not> is_catch x \<Longrightarrow>
    frame_step bc None (frame_at p (v # junk @ Catch_Offset t # vs)) (frame_at (after bc p) (v # vs))"
| raise: "raises (opcode bc p) vs rest \<Longrightarrow> unwind rest = Some (t, vs') \<Longrightarrow>
    frame_step bc (Some rest) (frame_at p vs) (frame_at t (v # vs'))"

inductive_cases frame_step_cases [consumes 1, case_names plain goto branch_taken branch_not_taken with_found
    with_not_found gosub ret catch for_of_start drop nip nip1 iterator_close nip_catch raise]:
  "frame_step bc l (frame_at p vs) f'"

text \<open>A call of the function starts on an empty stack; a run is its steps and frames, the last one first.\<close>

type_synonym run = "(stack_value list option \<times> frame) list"

inductive frames_run :: "u8 list \<Rightarrow> run \<Rightarrow> bool" for bc where
  start: "frames_run bc [(None, frame_at 0 [])]"
| step: "frames_run bc ((l, f) # tr) \<Longrightarrow> frame_step bc l' f f' \<Longrightarrow> frames_run bc ((l', f') # (l, f) # tr)"

text \<open>
  What the verifier takes for granted and the interpreter does not check: exception entries stay where they are but for the
  instructions that are there to push or drop one, which find it where the verifier looks for it and nowhere else; so it is
  for the stack that an exception finds, and no entry is thrown; and \<open>ret\<close> goes back behind a \<open>gosub\<close> that the
  run has been through, with the depth and entries it had there.
\<close>

definition entries_after :: "u8 list \<Rightarrow> int \<Rightarrow> int \<Rightarrow> (int \<times> int) list \<Rightarrow> (int \<times> int) list" where
  "entries_after bc p n es =
     (let op = opcode bc p
      in if op = OP_catch then (n, jump_target bc p) # es
         else if op \<in> {OP_for_of_start, OP_for_await_of_start} then (n + 1, 0) # es
         else if op \<in> {OP_drop, OP_iterator_close} then leave (n - 1) es
         else if op = OP_nip then leave (n - 2) es
         else if op = OP_nip_catch then tl es else es)"

lemma entries_after_same:
  "plain (opcode bc p) \<Longrightarrow> entries_after bc p n es = es"
  "opcode bc p \<in> branches \<Longrightarrow> entries_after bc p n es = es"
  "with_change (opcode bc p) = Some k \<Longrightarrow> entries_after bc p n es = es"
  by (auto simp: entries_after_def plain_def branches_def with_change_def Let_def split: if_splits)

fun keeps_entries :: "u8 list \<Rightarrow> stack_value list option \<Rightarrow> frame \<Rightarrow> frame \<Rightarrow> bool" where
  "keeps_entries bc None f f' \<longleftrightarrow>
     entries (vals f') = entries_after bc (pc f) (depth f) (entries (vals f)) \<and>
     (opcode bc (pc f) = OP_nip_catch \<longrightarrow> \<not> is_catch (hd (vals f)))"
| "keeps_entries bc (Some rest) f f' \<longleftrightarrow>
     entries rest = (if opcode bc (pc f) = OP_iterator_close then leave (depth f - 1) (entries (vals f)) else entries (vals f)) \<and>
     \<not> is_catch (hd (vals f'))"

definition behind_gosub :: "u8 list \<Rightarrow> frame \<Rightarrow> frame \<Rightarrow> bool" where
  "behind_gosub bc g f \<longleftrightarrow> opcode bc (pc g) = OP_gosub \<and> pc f = after bc (pc g) \<and> depth f = depth g \<and>
     entries (vals f) = entries (vals g)"

fun disciplined :: "u8 list \<Rightarrow> run \<Rightarrow> bool" where
  "disciplined bc ((l', f') # (l, f) # tr) \<longleftrightarrow> keeps_entries bc l' f f' \<and>
     (opcode bc (pc f) = OP_ret \<and> l' = None \<longrightarrow> list_ex (\<lambda>(_, g). behind_gosub bc g f') tr) \<and> disciplined bc ((l, f) # tr)"
| "disciplined bc tr \<longleftrightarrow> True"

text \<open>
  A frame that the interpreter can run on a stack of \<open>n_max\<close> values: the instruction is complete and has its
  operands, and neither before nor after it there are more values than the stack holds.
\<close>

definition frame_safe :: "u8 list \<Rightarrow> int \<Rightarrow> frame \<Rightarrow> bool" where
  "frame_safe bc n_max f \<longleftrightarrow>
     (let op = opcode bc (pc f)
      in 0 \<le> pc f \<and> pc f < int (length bc) \<and> 0 < op \<and> op < OP_COUNT \<and> after bc (pc f) \<le> int (length bc) \<and>
         insn_n_pop bc (pc f) op \<le> depth f \<and> depth f \<le> n_max \<and>
         depth f - insn_n_pop bc (pc f) op + int (op_n_push (short_opcode_info op)) \<le> n_max \<and>
         (op = OP_nip_catch \<longrightarrow> entries (vals f) \<noteq> []))"

section \<open>Stack maps\<close>

text \<open>\<open>D\<close>: the instructions that have a depth \<open>lev\<close> and an exception entry \<open>cat\<close>.\<close>

definition flow_ok :: "u8 list \<Rightarrow> (int \<Rightarrow> int) \<Rightarrow> (int \<Rightarrow> int) \<Rightarrow> int set \<Rightarrow> int \<Rightarrow> int \<Rightarrow> bool" where
  "flow_ok bc lev cat D n_max p \<longleftrightarrow>
     (case ss_fetch bc p (lev p) of
        Inl e \<Rightarrow> False
      | Inr (op, pos_next, n) \<Rightarrow> n \<le> n_max \<and>
          (case ss_switch bc lev cat p op pos_next n (cat p) of
             Inl e \<Rightarrow> False
           | Inr (branch, next) \<Rightarrow>
               (\<forall>(q, k, c) \<in> set_option branch \<union> set_option next. q \<in> D \<and> lev q = k \<and> cat q = c)))"

locale stack_map =
  fixes bc :: "u8 list" and lev cat :: "int \<Rightarrow> int" and D :: "int set" and n_max :: int
  assumes inside: "p \<in> D \<Longrightarrow> 0 \<le> p \<and> p < int (length bc)"
    and level: "p \<in> D \<Longrightarrow> lev p \<le> n_max"
    and flow: "p \<in> D \<Longrightarrow> flow_ok bc lev cat D n_max p"
begin

text \<open>The exception entries of a frame are those that the map tells.\<close>

inductive chained :: "int \<Rightarrow> (int \<times> int) list \<Rightarrow> bool" where
  nil: "c < 0 \<Longrightarrow> chained c []"
| cons: "0 \<le> c \<Longrightarrow> c \<in> D \<Longrightarrow> opcode bc c \<in> {OP_catch, OP_for_of_start, OP_for_await_of_start} \<Longrightarrow>
    chained (cat c) sl \<Longrightarrow>
    chained c ((catch_base bc lev c, if opcode bc c = OP_catch then jump_target bc c else 0) # sl)"

definition frame_ok :: "frame \<Rightarrow> bool" where
  "frame_ok f \<longleftrightarrow> pc f \<in> D \<and> depth f = lev (pc f) \<and> chained (cat (pc f)) (entries (vals f))"

text \<open>The depth behind the instruction at \<open>p\<close>, as the table has it.\<close>

definition left :: "int \<Rightarrow> int" where
  "left p = lev p - insn_n_pop bc p (opcode bc p) + int (op_n_push (short_opcode_info (opcode bc p)))"

lemma flow_fetch:
  assumes "p \<in> D"
  shows "0 < opcode bc p" "opcode bc p < OP_COUNT" "after bc p \<le> int (length bc)"
    "insn_n_pop bc p (opcode bc p) \<le> lev p" "left p \<le> n_max"
  using flow [OF assms] by (auto simp: flow_ok_def ss_fetch_def opcode_def after_def left_def Let_def split: if_splits)

lemma flow_switch:
  assumes "p \<in> D"
  shows "\<exists>branch next. ss_switch bc lev cat p (opcode bc p) (after bc p) (left p) (cat p) = Inr (branch, next) \<and>
    (\<forall>(q, k, c) \<in> set_option branch \<union> set_option next. q \<in> D \<and> lev q = k \<and> cat q = c)"
proof -
  have "ss_fetch bc p (lev p) = Inr (opcode bc p, after bc p, left p)"
    using flow_fetch [OF assms] by (simp add: ss_fetch_def opcode_def after_def left_def Let_def)
  then show ?thesis using flow [OF assms] by (auto simp: flow_ok_def split: sum.splits)
qed

lemma flow_branch:
  assumes "p \<in> D" and "ss_switch bc lev cat p (opcode bc p) (after bc p) (left p) (cat p) = Inr (Some (q, k, c), nx)"
  shows "q \<in> D" "lev q = k" "cat q = c"
  using flow_switch [OF assms(1)] assms(2) by auto

lemma flow_next:
  assumes "p \<in> D" and "ss_switch bc lev cat p (opcode bc p) (after bc p) (left p) (cat p) = Inr (branch, Some (q, k, c))"
  shows "q \<in> D" "lev q = k" "cat q = c"
  using flow_switch [OF assms(1)] assms(2) by auto

lemmas insn_simps = ss_switch_def left_def jump_target_def insn_n_pop_def op_def_def short_opcode_info_named

lemma leave_chained: "chained c sl \<Longrightarrow> chained (check_catch bc lev cat i c) (leave i sl)"
  by (cases rule: chained.cases) (auto simp: check_catch_def intro: chained.intros)

lemma chained_tl: "chained c es \<Longrightarrow> \<exists>c'. chained c' (tl es)"
  by (cases rule: chained.cases) (auto intro: chained.nil)

lemma handler_ok:
  assumes "c \<in> D" and "opcode bc c \<in> {OP_catch, OP_for_of_start, OP_for_await_of_start}" and "opcode bc c = OP_catch"
  shows "jump_target bc c \<in> D" "lev (jump_target bc c) = catch_base bc lev c + 1" "cat (jump_target bc c) = cat c"
proof -
  have s: "ss_switch bc lev cat c (opcode bc c) (after bc c) (left c) (cat c) =
      Inr (Some (jump_target bc c, left c, cat c), Some (after bc c, left c, c))"
    using assms(3) by (simp add: insn_simps)
  have "left c = lev c + 1" using assms(3) by (simp add: insn_simps)
  then show "jump_target bc c \<in> D" "lev (jump_target bc c) = catch_base bc lev c + 1" "cat (jump_target bc c) = cat c"
    using flow_branch [OF assms(1) s] assms(3) by (auto simp: catch_base_def opcode_def)
qed

lemma unwind_handler:
  "chained c (entries vs) \<Longrightarrow> unwind vs = Some (t, vs') \<Longrightarrow> t \<in> D \<and> lev t = int (length vs') + 1 \<and> chained (cat t) (entries vs')"
proof (induction vs arbitrary: c rule: unwind.induct)
  case (2 t0 vs)
  from 2(2) have c: "c \<in> D" "opcode bc c \<in> {OP_catch, OP_for_of_start, OP_for_await_of_start}" "int (length vs) = catch_base bc lev c"
    "t0 = (if opcode bc c = OP_catch then jump_target bc c else 0)" "chained (cat c) (entries vs)"
    by (auto elim: chained.cases)
  show ?case
  proof (cases "t0 = 0")
    case True
    have "\<exists>c'. chained c' (entries (tl vs))" using entries_tl [of vs] c(5) chained_tl [OF c(5)] by auto
    then show ?thesis using 2(1) [OF True] 2(3) True by auto
  next
    case False
    then show ?thesis using 2(3) c handler_ok [OF c(1,2)] by (auto split: if_splits)
  qed
qed simp_all

lemma next_ok:
  assumes "p \<in> D" and "ss_switch bc lev cat p (opcode bc p) (after bc p) (left p) (cat p) = Inr (branch, Some (q, k, c))"
    and "int (length vs) = k" and "chained c (entries vs)"
  shows "frame_ok (frame_at q vs)"
  using flow_next [OF assms(1,2)] assms(3,4) by (simp add: frame_ok_def)

lemma branch_ok:
  assumes "p \<in> D" and "ss_switch bc lev cat p (opcode bc p) (after bc p) (left p) (cat p) = Inr (Some (q, k, c), nx)"
    and "int (length vs) = k" and "chained c (entries vs)"
  shows "frame_ok (frame_at q vs)"
  using flow_branch [OF assms(1,2)] assms(3,4) by (simp add: frame_ok_def)

text \<open>The successors of the instructions that branch.\<close>

lemma branch_flow:
  assumes "opcode bc p \<in> branches"
  shows "ss_switch bc lev cat p (opcode bc p) (after bc p) (left p) (cat p) =
      Inr (Some (jump_target bc p, left p, cat p), Some (after bc p, left p, cat p))" "left p = lev p - 1"
  using assms by (auto simp: insn_simps branches_def)

lemma goto_flow:
  assumes "opcode bc p \<in> gotos"
  shows "ss_switch bc lev cat p (opcode bc p) (after bc p) (left p) (cat p) = Inr (None, Some (jump_target bc p, left p, cat p))"
    "left p = lev p"
  using assms by (auto simp: insn_simps gotos_def)

lemma with_flow:
  assumes "with_change (opcode bc p) = Some k"
  shows "ss_switch bc lev cat p (opcode bc p) (after bc p) (left p) (cat p) =
      Inr (Some (jump_target bc p, lev p + k, cat p), Some (after bc p, lev p - 1, cat p))" "left p = lev p - 1"
  using assms by (auto simp: insn_simps with_change_def add.commute split: if_splits)

text \<open>Behind a \<open>gosub\<close> the frame is as before it.\<close>

lemma behind_gosub_ok:
  assumes "frame_ok g" and "behind_gosub bc g f"
  shows "frame_ok f"
proof -
  have D: "pc g \<in> D" "depth g = lev (pc g)" "chained (cat (pc g)) (entries (vals g))" using assms(1) by (simp_all add: frame_ok_def)
  have g: "opcode bc (pc g) = OP_gosub" "pc f = after bc (pc g)" "int (length (vals f)) = lev (pc g)" "entries (vals f) = entries (vals g)"
    using assms(2) D(2) by (simp_all add: behind_gosub_def depth_def)
  have "frame_ok (frame_at (after bc (pc g)) (vals f))"
    by (rule next_ok [OF D(1) _ g(3)]) (use g D(3) in \<open>simp_all add: insn_simps\<close>)
  then show ?thesis using g(2) by (metis frame_at_eta)
qed

text \<open>Every step that keeps the rules keeps the agreement.\<close>

lemma frame_step_ok:
  assumes st: "frame_step bc l (frame_at p vs) f'" and ok: "frame_ok (frame_at p vs)"
    and ke: "keeps_entries bc l (frame_at p vs) f'" and re: "opcode bc p = OP_ret \<Longrightarrow> l = None \<Longrightarrow> frame_ok f'"
  shows "frame_ok f'"
proof -
  have D: "p \<in> D" and n: "int (length vs) = lev p" and ch: "chained (cat p) (entries vs)" using ok by (auto simp: frame_ok_def)
  note to_next = next_ok [OF D] and to_branch = branch_ok [OF D]
  note ea = entries_after_def and lp = n [symmetric]
  from st show ?thesis
  proof (cases rule: frame_step_cases)
    case (plain vs')
    have "entries vs' = entries vs" using ke plain by (simp add: entries_after_same)
    then have "frame_ok (frame_at (after bc p) vs')"
      by (intro to_next [where branch = None and k = "left p" and c = "cat p"])
        (use plain ch n in \<open>auto simp: left_def ss_switch_def plain_def terminators_def gotos_def branches_def with_change_def split: if_splits\<close>)
    then show ?thesis using plain by simp
  next
    case goto
    then have g: "opcode bc p \<in> gotos" by simp
    have "frame_ok (frame_at (jump_target bc p) vs)"
      by (rule to_next [OF goto_flow(1) [OF g] _ ch]) (simp add: goto_flow(2) [OF g] n)
    then show ?thesis using goto by simp
  next
    case (branch_taken v vs1)
    have c: "chained (cat p) (entries vs1)" using ke branch_taken ch by (simp add: entries_after_same(2))
    have "frame_ok (frame_at (jump_target bc p) vs1)"
      by (rule to_branch [where nx = "Some (after bc p, left p, cat p)" and k = "left p" and c = "cat p", OF _ _ c]) (use branch_taken branch_flow n in simp_all)
    then show ?thesis using branch_taken by simp
  next
    case (branch_not_taken v vs1)
    have c: "chained (cat p) (entries vs1)" using ke branch_not_taken ch by (simp add: entries_after_same(2))
    have "frame_ok (frame_at (after bc p) vs1)"
      by (rule to_next [where branch = "Some (jump_target bc p, left p, cat p)" and k = "left p" and c = "cat p", OF _ _ c]) (use branch_not_taken branch_flow n in simp_all)
    then show ?thesis using branch_not_taken by simp
  next
    case (with_found k vs')
    have c: "chained (cat p) (entries vs')" using ke with_found ch by (simp add: entries_after_same(3))
    have "frame_ok (frame_at (jump_target bc p) vs')"
      by (rule to_branch [where nx = "Some (after bc p, lev p - 1, cat p)" and k = "lev p + k" and c = "cat p", OF _ _ c]) (use with_found with_flow n in simp_all)
    then show ?thesis using with_found by simp
  next
    case (with_not_found k v vs1)
    have c: "chained (cat p) (entries vs1)" using ke with_not_found ch by (simp add: entries_after_same(3))
    have "frame_ok (frame_at (after bc p) vs1)"
      by (rule to_next [where branch = "Some (jump_target bc p, lev p + k, cat p)" and k = "lev p - 1" and c = "cat p", OF _ _ c]) (use with_not_found with_flow n in simp_all)
    then show ?thesis using with_not_found by simp
  next
    case gosub
    have "frame_ok (frame_at (jump_target bc p) (Int_Value (after bc p) # vs))"
      by (rule to_branch [where k = "lev p + 1" and c = "cat p"]) (use gosub ch n in \<open>simp_all add: insn_simps\<close>)
    then show ?thesis using gosub by simp
  next
    case (ret t vs1)
    then show ?thesis using re by simp
  next
    case catch
    have "chained p ((catch_base bc lev p, if opcode bc p = OP_catch then jump_target bc p else 0) # entries vs)"
      by (rule chained.cons) (use D inside [OF D] catch ch in simp_all)
    moreover have "catch_base bc lev p = lev p" using catch by (simp add: catch_base_def flip: opcode_def)
    ultimately have "frame_ok (frame_at (after bc p) (Catch_Offset (jump_target bc p) # vs))"
      by (intro to_next [where branch = "Some (jump_target bc p, left p, cat p)" and k = "left p" and c = p]) (use catch n in \<open>simp_all add: insn_simps\<close>)
    then show ?thesis using catch by simp
  next
    case (for_of_start v vs1 m obj)
    have e: "entries (Catch_Offset 0 # m # obj # vs1) = (lev p + 1, 0) # entries vs"
      using ke for_of_start lp by (auto simp: ea)
    have "chained p ((catch_base bc lev p, if opcode bc p = OP_catch then jump_target bc p else 0) # entries vs)"
      by (rule chained.cons) (use D inside [OF D] for_of_start ch in auto)
    then have "chained p ((lev p + 1, 0) # entries vs)"
      using for_of_start by (auto simp: catch_base_def simp del: entries.simps entries_plain simp flip: opcode_def)
    then have c: "chained p (entries (Catch_Offset 0 # m # obj # vs1))" unfolding e .
    have "frame_ok (frame_at (after bc p) (Catch_Offset 0 # m # obj # vs1))"
      by (rule to_next [where branch = None and k = "lev p + 2", OF _ _ c]) (use for_of_start lp in \<open>auto simp: insn_simps\<close>)
    then show ?thesis using for_of_start by simp
  next
    case (drop a vs1)
    have c: "chained (check_catch bc lev cat (lev p - 1) (cat p)) (entries vs1)"
      using leave_chained [OF ch, of "lev p - 1"] leave_top [of vs1 a] drop by (simp add: lp)
    have "frame_ok (frame_at (after bc p) vs1)"
      by (rule to_next [where branch = None and k = "lev p - 1", OF _ _ c]) (use drop n in \<open>simp_all add: insn_simps\<close>)
    then show ?thesis using drop by simp
  next
    case (nip b a vs1)
    have c: "chained (check_catch bc lev cat (lev p - 2) (cat p)) (entries (b # vs1))"
      using leave_chained [OF ch, of "lev p - 2"] ke nip by (simp add: ea lp)
    have "frame_ok (frame_at (after bc p) (b # vs1))"
      by (rule to_next [where branch = None and k = "lev p - 1", OF _ _ c]) (use nip n in \<open>simp_all add: insn_simps\<close>)
    then show ?thesis using nip by simp
  next
    case (nip1 c b a vs1)
    have e: "entries (c # b # vs1) = entries vs" using ke nip1 by (simp add: ea)
    then have "entries (c # b # vs1) = entries (c # b # a # vs1)" using nip1 by (simp only:)
    then have b: "\<not> is_catch c \<and> \<not> is_catch b" by (rule nip1_entries)
    then have "entries vs = entries (a # vs1)" using nip1 by simp
    moreover have "lev p - 2 = int (length (a # vs1))" using nip1 by (simp add: lp)
    ultimately have "leave (lev p - 2) (entries vs) = entries vs"
      using entries_less [of _ _ "a # vs1"] by (simp only:, intro leave_other) fastforce
    then have c: "chained (check_catch bc lev cat (lev p - 2) (cat p)) (entries (c # b # vs1))"
      using leave_chained [OF ch, of "lev p - 2"] e by simp
    have "frame_ok (frame_at (after bc p) (c # b # vs1))"
      by (rule to_next [where branch = None and k = "lev p - 1", OF _ _ c]) (use nip1 n in \<open>simp_all add: insn_simps\<close>)
    then show ?thesis using nip1 by simp
  next
    case (iterator_close v m obj vs1)
    have c: "chained (check_catch bc lev cat (lev p - 1) (cat p)) (entries vs1)"
      using leave_chained [OF ch, of "lev p - 1"] ke iterator_close by (simp add: ea lp)
    have "frame_ok (frame_at (after bc p) vs1)"
      by (rule to_next [where branch = None and k = "lev p - 3", OF _ _ c]) (use iterator_close n in \<open>simp_all add: insn_simps\<close>)
    then show ?thesis using iterator_close by simp
  next
    case (nip_catch junk v t vs1)
    have v: "\<not> is_catch v" using ke nip_catch by simp
    then have es: "entries vs = (int (length vs1), t) # entries vs1" using nip_catch entries_append [of junk] by simp
    then have c: "0 \<le> cat p" "int (length vs1) = catch_base bc lev (cat p)" "chained (cat (cat p)) (entries vs1)"
      using ch by (auto elim: chained.cases)
    have "frame_ok (frame_at (after bc p) (v # vs1))"
      by (rule to_next [where branch = None and k = "catch_base bc lev (cat p) + 1" and c = "cat (cat p)"]) (use nip_catch c v in \<open>simp_all add: insn_simps\<close>)
    then show ?thesis using nip_catch by simp
  next
    case (raise rest t vs' v)
    have "\<exists>c. chained c (entries rest)" using ke raise ch leave_chained [OF ch] by (auto split: if_splits)
    with unwind_handler raise have "t \<in> D \<and> lev t = int (length vs') + 1 \<and> chained (cat t) (entries vs')" by blast
    moreover have "\<not> is_catch v" using ke raise by simp
    ultimately show ?thesis using raise by (simp add: frame_ok_def)
  qed
qed

text \<open>The map tells the entries.\<close>

lemma chained_unique: "chained c sl \<Longrightarrow> chained c sl' \<Longrightarrow> sl = sl'"
proof (induction arbitrary: sl' rule: chained.induct)
  case (nil c)
  then show ?case by (auto elim: chained.cases)
next
  case (cons c sl)
  from cons.prems cons.hyps(1) cons.IH show ?case by (cases rule: chained.cases) auto
qed

lemma frame_ok_unique: "frame_ok f \<Longrightarrow> frame_ok f' \<Longrightarrow> pc f = pc f' \<Longrightarrow> depth f = depth f' \<and> entries (vals f) = entries (vals f')"
  using chained_unique by (auto simp: frame_ok_def)

lemma frame_ok_safe:
  assumes "frame_ok f"
  shows "frame_safe bc n_max f"
proof -
  have D: "pc f \<in> D" and n: "depth f = lev (pc f)" and ch: "chained (cat (pc f)) (entries (vals f))"
    using assms by (auto simp: frame_ok_def)
  have "entries (vals f) \<noteq> []" if "opcode bc (pc f) = OP_nip_catch"
  proof -
    have "\<not> cat (pc f) < 0" using flow_switch [OF D] that by (auto simp: insn_simps)
    then show ?thesis using ch by (auto elim: chained.cases)
  qed
  then show ?thesis
    using flow_fetch [OF D] inside [OF D] level [OF D] n by (simp add: frame_safe_def left_def Let_def)
qed

lemma frames_run_ok:
  assumes "frames_run bc tr" and "disciplined bc tr" and "0 \<in> D" and "lev 0 = 0" and "cat 0 = - 1"
  shows "\<forall>(l, f)\<in>set tr. frame_ok f"
  using assms(1,2)
proof (induction rule: frames_run.induct)
  case start
  show ?case using assms(3-5) by (simp add: frame_ok_def chained.nil)
next
  case (step l f tr l' f')
  then have ok: "\<forall>(l, f)\<in>set ((l, f) # tr). frame_ok f" by simp
  have "frame_ok f'" if "opcode bc (pc f) = OP_ret" "l' = None"
    using step.prems that ok behind_gosub_ok by (fastforce simp: list_ex_iff)
  moreover have "frame_step bc l' (frame_at (pc f) (vals f)) f'" "frame_ok (frame_at (pc f) (vals f))"
    "keeps_entries bc l' (frame_at (pc f) (vals f)) f'" using step ok by simp_all
  ultimately have "frame_ok f'" using frame_step_ok by blast
  then show ?case using ok by simp
qed

end

end
