(* ===== verification/Stack_Verifier.thy ===== *)
theory Stack_Verifier
  imports Stack_Map
begin

text \<open>
  The exploration of \<open>compute_stack_size\<close> ends and finds a stack map, and it refuses only code that has none.
\<close>

section \<open>The invariant\<close>

definition explored :: "u8 list \<Rightarrow> stack_size_state \<Rightarrow> int set" where
  "explored bc s = {p. 0 \<le> p \<and> p < int (length bc) \<and> level_at s p \<noteq> 0xffff}"

text \<open>
  The tables are a stack map of the instructions that have been explored, but for those that wait and the
  one in \<open>P\<close> that is being looked at.
\<close>

definition ss_ok :: "u8 list \<Rightarrow> int set \<Rightarrow> stack_size_state \<Rightarrow> bool" where
  "ss_ok bc P s \<longleftrightarrow>
     length (stack_level_tab s) = length bc \<and> length (catch_pos_tab s) = length bc \<and>
     0 \<le> stack_len_max s \<and> stack_len_max s \<le> JS_STACK_SIZE_MAX \<and>
     (\<forall>p\<in>explored bc s. 0 \<le> level_at s p \<and> level_at s p \<le> stack_len_max s \<and>
        (catch_at s p < 0 \<or> catch_at s p \<in> explored bc s)) \<and>
     set (pc_stack s) \<subseteq> explored bc s \<and>
     (\<forall>p \<in> explored bc s - set (pc_stack s) - P.
        flow_ok bc (level_at s) (catch_at s) (explored bc s) (stack_len_max s) p)"

text \<open>What has been explored stays as it is.\<close>

definition ss_ext :: "u8 list \<Rightarrow> stack_size_state \<Rightarrow> stack_size_state \<Rightarrow> bool" where
  "ss_ext bc s s' \<longleftrightarrow> explored bc s \<subseteq> explored bc s' \<and> stack_len_max s \<le> stack_len_max s' \<and>
     (\<forall>p\<in>explored bc s. level_at s' p = level_at s p \<and> catch_at s' p = catch_at s p)"

lemma ss_ext_refl [simp]: "ss_ext bc s s"
  by (simp add: ss_ext_def)

lemma ss_ext_trans: "ss_ext bc s s' \<Longrightarrow> ss_ext bc s' s'' \<Longrightarrow> ss_ext bc s s''"
  by (auto simp: ss_ext_def)

text \<open>The number of steps that are left is bounded: every push explores an instruction.\<close>

definition ss_work :: "u8 list \<Rightarrow> stack_size_state \<Rightarrow> nat" where
  "ss_work bc s = 2 * card ({0..<int (length bc)} - explored bc s) + length (pc_stack s)"

text \<open>The blocks that are held, and the errors.\<close>

definition ss_errors :: "stack_size_state \<Rightarrow> mem \<Rightarrow> ss_result \<Rightarrow> bool" where
  "ss_errors s m = (\<lambda>(r, s', m').
     mem_live m' = mem_live m + of_bool (pc_stack_size s' \<noteq> 0) - of_bool (pc_stack_size s \<noteq> 0) \<and>
     (mem_outcomes m = [] \<longrightarrow> mem_outcomes m' = []) \<and>
     (\<forall>e. r = Some e \<longrightarrow> (\<exists>t. e = InternalError t) \<or> e = OutOfMemory \<and> mem_outcomes m \<noteq> []))"

lemma ss_errors_trans:
  assumes "ss_errors s m (None, s', m')" and "ss_errors s' m' r"
  shows "ss_errors s m r"
  using assms by (auto simp: ss_errors_def)

lemma js_resize_array_outcome:
  assumes "js_resize_array slack k psize req m = (r, m')" and "0 < req"
  shows "(mem_outcomes m = [] \<longrightarrow> mem_outcomes m' = []) \<and>
    (case r of Inl e \<Rightarrow> e = OutOfMemory \<and> mem_outcomes m \<noteq> [] \<and> mem_live m' = mem_live m
     | Inr n \<Rightarrow> n \<noteq> 0 \<and> mem_live m' = mem_live m + of_bool (psize = 0))"
  using assms
  by (auto simp: js_resize_array_def js_realloc_array_def bind_m_def guard_m_def return_m_def js_malloc_def
      js_realloc_def Let_def split: if_splits list.splits prod.splits sum.splits)

lemma ss_max_spec:
  assumes "ss_max n s = (over, s')"
  shows "level_at s' = level_at s" "catch_at s' = catch_at s" "pc_stack s' = pc_stack s"
    "pc_stack_size s' = pc_stack_size s" "stack_len_max s' = max n (stack_len_max s)"
    "stack_level_tab s' = stack_level_tab s" "catch_pos_tab s' = catch_pos_tab s"
    "stack_len_max s \<le> JS_STACK_SIZE_MAX \<Longrightarrow> over \<longleftrightarrow> n > JS_STACK_SIZE_MAX"
  using assms by (auto simp: ss_max_def level_at_def catch_at_def fun_eq_iff split: if_splits)

section \<open>The flow of an instruction\<close>

text \<open>Only the entries of \<open>catch_pos\<close> matter.\<close>

lemma ss_switch_cong:
  assumes "0 \<le> c \<Longrightarrow> lev c = lev' c \<and> cat c = cat' c"
  shows "ss_switch bc lev cat p op q n c = ss_switch bc lev' cat' p op q n c"
proof -
  have "check_catch bc lev cat i c = check_catch bc lev' cat' i c" for i
    by (cases "0 \<le> c") (use assms in \<open>auto simp: check_catch_def catch_base_def\<close>)
  moreover have "\<not> c < 0 \<Longrightarrow> catch_base bc lev c = catch_base bc lev' c \<and> cat c = cat' c"
    using assms by (simp add: catch_base_def)
  ultimately show ?thesis by (simp add: ss_switch_def)
qed

lemma flow_ok_iff:
  "flow_ok bc lev cat D n p \<longleftrightarrow> (\<exists>op q k br nx. ss_fetch bc p (lev p) = Inr (op, q, k) \<and> k \<le> n \<and>
     ss_switch bc lev cat p op q k (cat p) = Inr (br, nx) \<and>
     (\<forall>(q, k, c) \<in> set_option br \<union> set_option nx. q \<in> D \<and> lev q = k \<and> cat q = c))"
proof (cases "ss_fetch bc p (lev p)")
  case (Inl e)
  then show ?thesis by (simp add: flow_ok_def)
next
  case (Inr r)
  obtain op q k where r: "r = (op, q, k)" by (cases r)
  show ?thesis
    by (cases "ss_switch bc lev cat p op q k (cat p)") (auto simp: flow_ok_def Inr r)
qed

lemma flow_ok_mono:
  assumes f: "flow_ok bc lev cat D n p" and "lev' p = lev p" and "cat' p = cat p"
    and c: "0 \<le> cat p \<Longrightarrow> lev' (cat p) = lev (cat p) \<and> cat' (cat p) = cat (cat p)"
    and D: "\<And>q. q \<in> D \<Longrightarrow> q \<in> D' \<and> lev' q = lev q \<and> cat' q = cat q" and "n \<le> n'"
  shows "flow_ok bc lev' cat' D' n' p"
proof -
  obtain op q k br nx where s: "ss_fetch bc p (lev p) = Inr (op, q, k)" "k \<le> n"
      "ss_switch bc lev cat p op q k (cat p) = Inr (br, nx)"
      "\<forall>(q, k, c) \<in> set_option br \<union> set_option nx. q \<in> D \<and> lev q = k \<and> cat q = c"
    using f unfolding flow_ok_iff by blast
  have "ss_switch bc lev' cat' p op q k (cat p) = Inr (br, nx)"
    using s(3) ss_switch_cong [of "cat p" lev' lev cat' cat] c by simp
  then show ?thesis using s assms(2,3,6) D unfolding flow_ok_iff by fastforce
qed

text \<open>The depths and the entries that the \<open>switch\<close> hands to the checks.\<close>

lemma ss_switch_ranges:
  assumes "ss_switch bc lev cat p op q n c = Inr (br, nx)" and "(q', k, c') \<in> set_option br \<union> set_option nx"
    and "int (op_n_push (short_opcode_info op)) \<le> n" and "0 \<le> c \<Longrightarrow> 0 \<le> lev c"
  shows "0 \<le> k" and "c' \<in> {c, p} \<or> 0 \<le> c \<and> c' = cat c"
proof -
  have n: "0 \<le> n" "op = OP_with_put_var \<Longrightarrow> 1 \<le> n" using assms(3) by (auto simp: short_opcode_info_named op_def_def)
  show "0 \<le> k"
    using assms(1,2,4) n by (auto simp: ss_switch_def catch_base_def split: if_splits)
  show "c' \<in> {c, p} \<or> 0 \<le> c \<and> c' = cat c"
    using assms(1,2) by (auto simp: ss_switch_def check_catch_def split: if_splits)
qed

lemma ss_fetch_ranges:
  assumes "ss_fetch bc p n = Inr (op, q, k)"
  shows "int (op_n_push (short_opcode_info op)) \<le> k"
  using assms by (auto simp: ss_fetch_def Let_def split: if_splits)

section \<open>Checking one successor\<close>

lemma ss_ok_flow:
  "ss_ok bc P s \<Longrightarrow> p \<in> explored bc s \<Longrightarrow> p \<notin> set (pc_stack s) \<Longrightarrow> p \<notin> P \<Longrightarrow>
   flow_ok bc (level_at s) (catch_at s) (explored bc s) (stack_len_max s) p"
  by (simp add: ss_ok_def)

lemma ss_ok_range:
  "ss_ok bc P s \<Longrightarrow> p \<in> explored bc s \<Longrightarrow>
   0 \<le> level_at s p \<and> level_at s p \<le> stack_len_max s \<and> (catch_at s p < 0 \<or> catch_at s p \<in> explored bc s)"
  by (simp add: ss_ok_def)

lemma ss_ok_max:
  assumes ok: "ss_ok bc P s" and m: "ss_max n s = (False, s')"
  shows "ss_ok bc P s'" "ss_ext bc s s'" "explored bc s' = explored bc s" "ss_work bc s' = ss_work bc s"
    "n \<le> stack_len_max s'"
proof -
  note e = ss_max_spec [OF m]
  show x: "explored bc s' = explored bc s" by (simp add: explored_def e)
  show "n \<le> stack_len_max s'" "ss_work bc s' = ss_work bc s" "ss_ext bc s s'"
    using e by (simp_all add: ss_work_def x ss_ext_def)
  have n: "n \<le> JS_STACK_SIZE_MAX" using e(8) ok by (auto simp: ss_ok_def)
  have "flow_ok bc (level_at s) (catch_at s) (explored bc s) (max n (stack_len_max s)) p"
    if "p \<in> explored bc s - set (pc_stack s) - P" for p
  proof -
    have "flow_ok bc (level_at s) (catch_at s) (explored bc s) (stack_len_max s) p" using ss_ok_flow [OF ok] that by simp
    then show ?thesis by (rule flow_ok_mono) simp_all
  qed
  moreover have "0 \<le> level_at s p \<and> level_at s p \<le> max n (stack_len_max s) \<and> (catch_at s p < 0 \<or> catch_at s p \<in> explored bc s)"
    if "p \<in> explored bc s" for p using ss_ok_range [OF ok that] by auto
  ultimately show "ss_ok bc P s'" using ok n unfolding ss_ok_def x e by auto
qed

text \<open>An instruction that is explored for the first time.\<close>

lemma ss_mark:
  assumes ok: "ss_ok bc P s" and q: "0 \<le> q" "q < int (length bc)" "level_at s q = 0xffff"
    and k: "0 \<le> k" "k \<le> stack_len_max s" and c: "c < 0 \<or> c \<in> explored bc s"
    and s': "s' = s\<lparr>stack_level_tab := (stack_level_tab s)[nat q := k mod 65536],
      catch_pos_tab := (catch_pos_tab s)[nat q := c], pc_stack := q # pc_stack s, pc_stack_size := n\<rparr>"
  shows "ss_ok bc P s'" "ss_ext bc s s'" "ss_work bc s' < ss_work bc s" "q \<in> explored bc s'" "level_at s' q = k"
    "catch_at s' q = c" "explored bc s' = insert q (explored bc s)"
proof -
  have lens: "length (stack_level_tab s) = length bc" "length (catch_pos_tab s) = length bc" using ok by (simp_all add: ss_ok_def)
  have k': "k \<le> 65534" using ok k(2) by (simp add: ss_ok_def JS_STACK_SIZE_MAX_def)
  then have lev: "level_at s' p = (if p = q then k else level_at s p)" if "0 \<le> p" for p
    using that q(1,2) lens k(1) by (auto simp: level_at_def s' nth_list_update nat_eq_iff2)
  have cat: "catch_at s' p = (if p = q then c else catch_at s p)" if "0 \<le> p" for p
    using that q(1,2) lens by (auto simp: catch_at_def s' nth_list_update nat_eq_iff2)
  show lq: "level_at s' q = k" and cq: "catch_at s' q = c" using lev [OF q(1)] cat [OF q(1)] by simp_all
  show x: "explored bc s' = insert q (explored bc s)"
    using lev q k' by (auto simp: explored_def split: if_splits)
  then show "q \<in> explored bc s'" by simp
  have nq: "q \<notin> explored bc s" using q(3) by (simp add: explored_def)
  have same: "p \<in> explored bc s \<Longrightarrow> level_at s' p = level_at s p \<and> catch_at s' p = catch_at s p" for p
    using lev cat nq by (auto simp: explored_def)
  have st: "stack_len_max s' = stack_len_max s" "pc_stack s' = q # pc_stack s" by (simp_all add: s')
  show "ss_ext bc s s'" using same by (auto simp: ss_ext_def x st)
  have "{0..<int (length bc)} - explored bc s = insert q ({0..<int (length bc)} - explored bc s')"
    using q nq by (auto simp: x)
  moreover have "q \<notin> {0..<int (length bc)} - explored bc s'" by (simp add: x)
  ultimately have "card ({0..<int (length bc)} - explored bc s) = Suc (card ({0..<int (length bc)} - explored bc s'))"
    by (metis card_insert_disjoint finite_Diff finite_atLeastLessThan_int)
  then show "ss_work bc s' < ss_work bc s" by (simp add: ss_work_def s')
  have "flow_ok bc (level_at s') (catch_at s') (explored bc s') (stack_len_max s) p"
    if p: "p \<in> explored bc s - set (pc_stack s) - P" for p
  proof -
    have f: "flow_ok bc (level_at s) (catch_at s) (explored bc s) (stack_len_max s) p" using ss_ok_flow [OF ok] p by simp
    have "catch_at s p < 0 \<or> catch_at s p \<in> explored bc s" using ss_ok_range [OF ok] p by simp
    then have "0 \<le> catch_at s p \<Longrightarrow> catch_at s p \<in> explored bc s" by simp
    then show ?thesis
      by (intro flow_ok_mono [OF f]) (use same p in \<open>simp_all add: x\<close>)
  qed
  moreover have "0 \<le> level_at s' p \<and> level_at s' p \<le> stack_len_max s \<and> (catch_at s' p < 0 \<or> catch_at s' p \<in> explored bc s')"
    if "p \<in> explored bc s'" for p
  proof (cases "p = q")
    case True
    then show ?thesis using lq cq k c by (auto simp: x)
  next
    case False
    then have "p \<in> explored bc s" using that by (simp add: x)
    then show ?thesis using ss_ok_range [OF ok] same by (simp add: x) blast
  qed
  moreover have "length (stack_level_tab s') = length bc" "length (catch_pos_tab s') = length bc"
    by (simp_all add: s' lens)
  ultimately show "ss_ok bc P s'"
    using ok unfolding ss_ok_def st x by auto
qed

text \<open>A check that succeeds has explored its position.\<close>

definition ss_explores :: "u8 list \<Rightarrow> int \<times> int \<times> int \<Rightarrow> stack_size_state \<Rightarrow> bool" where
  "ss_explores bc = (\<lambda>(q, k, c) s'. q \<in> explored bc s' \<and> level_at s' q = k \<and> catch_at s' q = c)"

lemma ss_check_ok:
  assumes ok: "ss_ok bc P s" and k: "0 \<le> k" and c: "c < 0 \<or> c \<in> explored bc s"
    and r: "ss_check slack bc (q, k, c) s m = (r, s', m')"
  shows "ss_errors s m (r, s', m')"
    and "r = None \<Longrightarrow> ss_ok bc P s' \<and> ss_ext bc s s' \<and> ss_work bc s' \<le> ss_work bc s \<and> ss_explores bc (q, k, c) s' \<and>
      explored bc s' = insert q (explored bc s) \<and> stack_len_max s' = max k (stack_len_max s)"
proof -
  obtain over s1 where m1: "ss_max k s = (over, s1)" by (cases "ss_max k s")
  note e = ss_max_spec [OF m1]
  have "ss_errors s m (r, s', m') \<and>
    (r = None \<longrightarrow> ss_ok bc P s' \<and> ss_ext bc s s' \<and> ss_work bc s' \<le> ss_work bc s \<and> ss_explores bc (q, k, c) s' \<and>
      explored bc s' = insert q (explored bc s) \<and> stack_len_max s' = max k (stack_len_max s))"
  proof (cases "0 \<le> q \<and> q < int (length bc) \<and> \<not> over")
    case False
    then have "(\<exists>t. r = Some (InternalError t)) \<and> s' \<in> {s, s1} \<and> m' = m"
      using r by (cases "0 \<le> q \<and> q < int (length bc)") (auto simp: ss_check_def m1)
    then show ?thesis using e(4) by (auto simp: ss_errors_def)
  next
    case True
    then have nover: "over = False" by simp
    note s1 = ss_ok_max [OF ok m1 [unfolded nover]]
    have c1: "c < 0 \<or> c \<in> explored bc s1" using c s1(3) by simp
    show ?thesis
    proof (cases "level_at s1 q = 0xffff")
      case False
      then have "r = None \<Longrightarrow> s' = s1 \<and> level_at s1 q = k \<and> catch_at s1 q = c" "r = None \<or> (\<exists>t. r = Some (InternalError t))" "s' = s1" "m' = m"
        using r nover True by (auto simp: ss_check_def m1 level_at_def catch_at_def split: if_splits)
      moreover have "q \<in> explored bc s1" using True False by (simp add: explored_def)
      then have "explored bc s1 = insert q (explored bc s)" "q \<in> explored bc s1" using s1(3) by auto
      ultimately show ?thesis
        using s1(1,2,4) e(4,5) by (auto simp: ss_errors_def ss_explores_def)
    next
      case unexplored: True
      define s2 where "s2 = s1\<lparr>stack_level_tab := (stack_level_tab s1)[nat q := k mod 65536],
        catch_pos_tab := (catch_pos_tab s1)[nat q := c]\<rparr>"
      obtain a m2 where a: "js_resize_array slack 4 (pc_stack_size s1) (length (pc_stack s1) + 1) m = (a, m2)"
        by (cases "js_resize_array slack 4 (pc_stack_size s1) (length (pc_stack s1) + 1) m")
      note al = js_resize_array_outcome [OF a]
      show ?thesis
      proof (cases a)
        case (Inl err)
        then have "r = Some err" "s' = s2" "m' = m2"
          using r nover True unexplored a by (simp_all add: ss_check_def m1 level_at_def s2_def)
        then show ?thesis using al Inl e(4) by (auto simp: ss_errors_def s2_def)
      next
        case (Inr n)
        then have r: "r = None" "s' = s2\<lparr>pc_stack := q # pc_stack s1, pc_stack_size := n\<rparr>" "m' = m2"
          using r nover True unexplored a by (simp_all add: ss_check_def m1 level_at_def s2_def)
        have "s' = s1\<lparr>stack_level_tab := (stack_level_tab s1)[nat q := k mod 65536],
          catch_pos_tab := (catch_pos_tab s1)[nat q := c], pc_stack := q # pc_stack s1, pc_stack_size := n\<rparr>"
          by (simp add: r s2_def)
        note mk = ss_mark [OF s1(1) _ _ unexplored k s1(5) c1 this]
        have "explored bc s' = insert q (explored bc s)" "stack_len_max s' = max k (stack_len_max s)"
          using mk(7) True s1(3) e(5) by (simp_all add: r s2_def)
        then show ?thesis
          using mk(1-6) True s1(2,4) al Inr e(4) r ss_ext_trans [OF s1(2)] by (auto simp: ss_errors_def ss_explores_def)
      qed
    qed
  qed
  then show "ss_errors s m (r, s', m')"
    and "r = None \<Longrightarrow> ss_ok bc P s' \<and> ss_ext bc s s' \<and> ss_work bc s' \<le> ss_work bc s \<and> ss_explores bc (q, k, c) s' \<and>
      explored bc s' = insert q (explored bc s) \<and> stack_len_max s' = max k (stack_len_max s)"
    by blast+
qed

section \<open>One step\<close>

lemma ss_explores_ext: "ss_explores bc x s \<Longrightarrow> ss_ext bc s s' \<Longrightarrow> ss_explores bc x s'"
  by (auto simp: ss_explores_def ss_ext_def)

lemma ss_check_opt_ok:
  assumes ok: "ss_ok bc P s" and b: "\<forall>(q, k, c) \<in> set_option b. 0 \<le> k \<and> (c < 0 \<or> c \<in> explored bc s)"
    and r: "ss_check_opt slack bc b s m = (r, s', m')"
  shows "ss_errors s m (r, s', m')"
    and "r = None \<Longrightarrow> ss_ok bc P s' \<and> ss_ext bc s s' \<and> ss_work bc s' \<le> ss_work bc s \<and> (\<forall>x\<in>set_option b. ss_explores bc x s')"
proof -
  have "ss_errors s m (r, s', m') \<and>
    (r = None \<longrightarrow> ss_ok bc P s' \<and> ss_ext bc s s' \<and> ss_work bc s' \<le> ss_work bc s \<and> (\<forall>x\<in>set_option b. ss_explores bc x s'))"
  proof (cases b)
    case None
    then show ?thesis using ok r by (auto simp: ss_errors_def)
  next
    case (Some x)
    obtain q k c where x: "x = (q, k, c)" by (cases x)
    have "0 \<le> k" "c < 0 \<or> c \<in> explored bc s" using b Some x by simp_all
    from ss_check_ok [OF ok this, of slack q m r s' m'] r Some x show ?thesis by simp
  qed
  then show "ss_errors s m (r, s', m')"
    and "r = None \<Longrightarrow> ss_ok bc P s' \<and> ss_ext bc s s' \<and> ss_work bc s' \<le> ss_work bc s \<and> (\<forall>x\<in>set_option b. ss_explores bc x s')"
    by blast+
qed

text \<open>The popped position leaves the stack and is the one that is looked at.\<close>

lemma ss_pop:
  assumes ok: "ss_ok bc {} s" and st: "pc_stack s = p # ps"
  defines "s0 \<equiv> s\<lparr>pc_stack := ps\<rparr>"
  shows "ss_ok bc {p} s0" "ss_ext bc s s0" "ss_work bc s0 < ss_work bc s" "p \<in> explored bc s0" "pc_stack_size s0 = pc_stack_size s"
    "level_at s0 = level_at s" "catch_at s0 = catch_at s" "explored bc s0 = explored bc s"
proof -
  show e: "level_at s0 = level_at s" "catch_at s0 = catch_at s" "pc_stack_size s0 = pc_stack_size s"
    by (simp_all add: s0_def level_at_def catch_at_def fun_eq_iff)
  show x: "explored bc s0 = explored bc s" by (simp add: explored_def e)
  show "ss_ext bc s s0" by (simp add: ss_ext_def x e) (simp add: s0_def)
  show "p \<in> explored bc s0" using ok st by (simp add: ss_ok_def x)
  show "ss_work bc s0 < ss_work bc s" by (simp add: ss_work_def x st) (simp add: s0_def)
  have "stack_level_tab s0 = stack_level_tab s" "catch_pos_tab s0 = catch_pos_tab s" "stack_len_max s0 = stack_len_max s"
    "pc_stack s0 = ps" by (simp_all add: s0_def)
  then show "ss_ok bc {p} s0" using ok st unfolding ss_ok_def x e by auto
qed

lemma ss_switch_error: "ss_switch bc lev cat p op q n c = Inl e \<Longrightarrow> \<exists>t. e = InternalError t"
  by (auto simp: ss_switch_def split: if_splits)

lemma ss_switch_within:
  assumes ok: "ss_ok bc {p} s" and p: "p \<in> explored bc s" and f: "ss_fetch bc p (level_at s p) = Inr (op, q, n)"
    and sw: "ss_switch bc (level_at s) (catch_at s) p op q n (catch_at s p) = Inr (br, nx)"
  shows "\<forall>(q, k, c) \<in> set_option br \<union> set_option nx. 0 \<le> k \<and> (c < 0 \<or> c \<in> explored bc s)"
proof -
  note range = ss_ok_range [OF ok p]
  have "0 \<le> k \<and> (c < 0 \<or> c \<in> explored bc s)" if "(q', k, c) \<in> set_option br \<union> set_option nx" for q' k c
  proof -
    have c0: "0 \<le> catch_at s p \<Longrightarrow> catch_at s p \<in> explored bc s" using range by auto
    then have "0 \<le> catch_at s p \<Longrightarrow> 0 \<le> level_at s (catch_at s p)" using ss_ok_range [OF ok] by blast
    note sr = ss_switch_ranges [OF sw that ss_fetch_ranges [OF f] this]
    have "0 \<le> catch_at s p \<Longrightarrow> catch_at s (catch_at s p) < 0 \<or> catch_at s (catch_at s p) \<in> explored bc s"
      using ss_ok_range [OF ok] c0 by blast
    then show ?thesis using sr range p by auto
  qed
  then show ?thesis by blast
qed

lemma ss_dispatch_ok:
  assumes ok: "ss_ok bc {p} s" and p: "p \<in> explored bc s" and f: "ss_fetch bc p (level_at s p) = Inr (op, q, n)"
    and n: "n \<le> stack_len_max s" and r: "ss_dispatch slack bc p op q n s m = (r, s', m')"
  shows "ss_errors s m (r, s', m') \<and> (r = None \<longrightarrow> ss_ok bc {} s' \<and> ss_ext bc s s' \<and> ss_work bc s' \<le> ss_work bc s)"
proof (cases "ss_switch bc (level_at s) (catch_at s) p op q n (catch_at s p)")
  case (Inl e)
  then have "r = Some e" "s' = s" "m' = m" using r by (simp_all add: ss_dispatch_def)
  then show ?thesis using ss_switch_error [OF Inl] by (simp add: ss_errors_def)
next
  case (Inr b)
  obtain br nx where b: "b = (br, nx)" by (cases b)
  note sw = Inr [unfolded b]
  note range = ss_ok_range [OF ok p]
  note ranges = ss_switch_within [OF ok p f sw]
  obtain r2 s2 m2 where c2: "ss_check_opt slack bc br s m = (r2, s2, m2)" by (cases "ss_check_opt slack bc br s m")
  have r2: "\<forall>(q, k, c) \<in> set_option br. 0 \<le> k \<and> (c < 0 \<or> c \<in> explored bc s)" using ranges by auto
  note k2 = ss_check_opt_ok [OF ok r2 c2]
  show ?thesis
  proof (cases r2)
    case (Some e)
    then show ?thesis using r k2(1) by (auto simp: ss_dispatch_def sw c2)
  next
    case None
    then have c3: "ss_check_opt slack bc nx s2 m2 = (r, s', m')" using r by (simp add: ss_dispatch_def sw c2)
    note k2' = k2(2) [OF None]
    have "\<forall>(q, k, c) \<in> set_option nx. 0 \<le> k \<and> (c < 0 \<or> c \<in> explored bc s2)" using ranges k2' by (auto simp: ss_ext_def)
    note k3 = ss_check_opt_ok [OF conjunct1 [OF k2'] this c3]
    have "ss_ok bc {} s' \<and> ss_ext bc s s' \<and> ss_work bc s' \<le> ss_work bc s" if "r = None"
    proof -
      note k3' = k3(2) [OF that]
      have ext: "ss_ext bc s s'" using ss_ext_trans [of bc s s2 s'] k2' k3' by blast
      have all: "ss_explores bc x s'" if "x \<in> set_option br \<union> set_option nx" for x
        using that k2' k3' ss_explores_ext [of bc x s2 s'] by auto
      have c0: "0 \<le> catch_at s p \<Longrightarrow> catch_at s p \<in> explored bc s" using range by auto
      have pp: "level_at s' p = level_at s p" "catch_at s' p = catch_at s p" using ext p by (simp_all add: ss_ext_def)
      have "ss_switch bc (level_at s') (catch_at s') p op q n (catch_at s' p) = Inr (br, nx)"
        using ss_switch_cong [of "catch_at s p" "level_at s'" "level_at s" "catch_at s'" "catch_at s"] c0 ext pp sw
        by (simp add: ss_ext_def)
      moreover have "n \<le> stack_len_max s'" using n ext by (simp add: ss_ext_def)
      ultimately have flow: "flow_ok bc (level_at s') (catch_at s') (explored bc s') (stack_len_max s') p"
        unfolding flow_ok_iff using f pp all by (auto simp: ss_explores_def)
      have "ss_ok bc {p} s'" using k3' by blast
      then have "ss_ok bc {} s'" using flow unfolding ss_ok_def by blast
      then show ?thesis using ext k2' k3' by linarith
    qed
    then show ?thesis using ss_errors_trans [of s m s2 m2] k2(1) k3(1) None by blast
  qed
qed

lemma ss_step_ok:
  assumes ok: "ss_ok bc {} s" and st: "pc_stack s = p # ps" and r: "ss_step slack bc s m = (r, s', m')"
  shows "ss_errors s m (r, s', m')"
    and "r = None \<Longrightarrow> ss_ok bc {} s' \<and> ss_ext bc s s' \<and> ss_work bc s' < ss_work bc s"
proof -
  define s0 where "s0 = s\<lparr>pc_stack := ps\<rparr>"
  note pop = ss_pop [OF ok st, folded s0_def]
  let ?E = "ss_errors s m (r, s', m')" and ?K = "ss_ok bc {} s' \<and> ss_ext bc s s' \<and> ss_work bc s' < ss_work bc s"
  have early: "?E \<and> (r = None \<longrightarrow> ?K)"
    if "r = Some (InternalError t)" "pc_stack_size s' = pc_stack_size s" "m' = m" for t
    using that by (simp add: ss_errors_def)
  have "?E \<and> (r = None \<longrightarrow> ?K)"
  proof (cases "ss_fetch bc p (level_at s0 p)")
    case (Inl e)
    then have "r = Some e" "s' = s0" "m' = m" "\<exists>t. e = InternalError t"
      using r st by (auto simp: ss_step_def s0_def [symmetric] ss_fetch_def Let_def split: if_splits)
    then show ?thesis using early pop(5) by auto
  next
    case (Inr f)
    obtain op q n where f: "f = (op, q, n)" by (cases f)
    obtain over s1 where m1: "ss_max n s0 = (over, s1)" by (cases "ss_max n s0")
    note e = ss_max_spec [OF m1]
    show ?thesis
    proof (cases over)
      case True
      then have "r = Some (InternalError ''stack overflow'')" "s' = s1" "m' = m"
        using r st by (simp_all add: ss_step_def s0_def [symmetric] Inr f m1)
      then show ?thesis using early pop(5) e(4) by simp
    next
      case False
      then have m1': "ss_max n s0 = (False, s1)" using m1 by simp
      note s1 = ss_ok_max [OF pop(1) this]
      have d: "ss_dispatch slack bc p op q n s1 m = (r, s', m')"
        using r st by (simp add: ss_step_def ss_dispatch_def s0_def [symmetric] Inr f m1' e(2))
      have "ss_fetch bc p (level_at s1 p) = Inr (op, q, n)" using Inr f e(1) by simp
      from ss_dispatch_ok [OF s1(1) _ this s1(5) d] pop(4) s1(3)
      have "ss_errors s1 m (r, s', m') \<and> (r = None \<longrightarrow> ss_ok bc {} s' \<and> ss_ext bc s1 s' \<and> ss_work bc s' \<le> ss_work bc s1)"
        by simp
      then show ?thesis
        using pop(2,3,5) s1(2,4) e(4) ss_ext_trans [of bc s s0 s1] ss_ext_trans [of bc s s1 s'] by (auto simp: ss_errors_def)
    qed
  qed
  then show ?E and "r = None \<Longrightarrow> ?K" by blast+
qed

section \<open>The whole exploration\<close>

lemma ss_init_ok: "ss_ok bc {} (ss_init bc)" "explored bc (ss_init bc) = {}"
proof -
  have "level_at (ss_init bc) p = 0xffff" if "0 \<le> p" "p < int (length bc)" for p
    using that by (simp add: level_at_def ss_init_def)
  then show x: "explored bc (ss_init bc) = {}" by (auto simp: explored_def)
  show "ss_ok bc {} (ss_init bc)" unfolding ss_ok_def x by (simp add: ss_init_def JS_STACK_SIZE_MAX_def)
qed

text \<open>The exploration started from memory \<open>m\<close> has come to this.\<close>

definition ss_reached :: "u8 list \<Rightarrow> mem \<Rightarrow> ss_result \<Rightarrow> bool" where
  "ss_reached bc m = (\<lambda>(r, s, m'). ss_errors (ss_init bc) m (r, s, m') \<and>
     (r = None \<longrightarrow> ss_ok bc {} s \<and> ss_explores bc (0, 0, - 1) s))"

lemma ss_reached_init: "ss_reached bc m (ss_check slack bc (0, 0, - 1) (ss_init bc) m)"
proof -
  obtain r s m' where c: "ss_check slack bc (0, 0, - 1) (ss_init bc) m = (r, s, m')"
    by (cases "ss_check slack bc (0, 0, - 1) (ss_init bc) m")
  have "- 1 < (0 :: int) \<or> - 1 \<in> explored bc (ss_init bc)" by simp
  from ss_check_ok [OF ss_init_ok(1) order_refl this c] show ?thesis by (simp add: c ss_reached_def)
qed

lemma ss_reached_step:
  assumes i: "ss_reached bc m (r, s, m1)" and n: "r = None" "pc_stack s \<noteq> []" and st: "ss_step slack bc s m1 = (r', s', m')"
  shows "ss_reached bc m (r', s', m')" and "r' = None \<Longrightarrow> ss_work bc s' < ss_work bc s" and "r' = None \<Longrightarrow> ss_ext bc s s'"
proof -
  obtain p ps where p: "pc_stack s = p # ps" using n(2) by (cases "pc_stack s") auto
  have ok: "ss_ok bc {} s" "ss_explores bc (0, 0, - 1) s" "ss_errors (ss_init bc) m (None, s, m1)"
    using i n(1) by (simp_all add: ss_reached_def)
  note k = ss_step_ok [OF ok(1) p st]
  show "ss_reached bc m (r', s', m')"
    using k ss_errors_trans [OF ok(3) k(1)] ss_explores_ext [OF ok(2)] by (auto simp: ss_reached_def)
  show "r' = None \<Longrightarrow> ss_work bc s' < ss_work bc s" "r' = None \<Longrightarrow> ss_ext bc s s'" using k(2) by blast+
qed

lemma ss_loop_ends:
  assumes inv: "P r0" and start: "ss_reached bc m r0"
    and step: "\<And>s m1. ss_reached bc m (None, s, m1) \<Longrightarrow> pc_stack s \<noteq> [] \<Longrightarrow> P (None, s, m1) \<Longrightarrow> P (ss_step slack bc s m1)"
  shows "\<exists>r. ss_loop slack bc r0 = Some r \<and> ss_reached bc m r \<and> P r \<and> (fst r = None \<longrightarrow> pc_stack (fst (snd r)) = [])"
proof -
  let ?b = "\<lambda>(e, s :: stack_size_state, m :: mem). e = None \<and> pc_stack s \<noteq> []" and ?c = "\<lambda>(e, s, m). ss_step slack bc s m"
  let ?I = "\<lambda>x. ss_reached bc m x \<and> P x"
  let ?f = "\<lambda>(e :: js_error option, s, m :: mem). if e = None then Suc (ss_work bc s) else 0"
  have one: "?I (?c x) \<and> ?f (?c x) < ?f x" if I: "?I x" and b: "?b x" for x
  proof -
    obtain s m1 where x: "x = (None, s, m1)" using b by (cases x) auto
    obtain r' s' m' where st: "ss_step slack bc s m1 = (r', s', m')" by (cases "ss_step slack bc s m1")
    have n: "pc_stack s \<noteq> []" using b x by simp
    note rs = ss_reached_step [OF conjunct1 [OF I [unfolded x]] refl n st]
    have "P (r', s', m')" using step [of s m1] I n st x by simp
    then show ?thesis using rs(1,2) by (simp add: x st)
  qed
  obtain r where r: "while_option ?b ?c r0 = Some r"
    using measure_while_option_Some [where P = ?I and b = ?b and c = ?c and f = ?f and s = r0, OF one] inv start by blast
  have "?I r" by (rule while_option_rule [where P = ?I, OF _ r]) (use one inv start in blast)+
  moreover have "\<not> ?b r" by (rule while_option_stop [OF r])
  ultimately show ?thesis using r by (auto simp: ss_loop_def)
qed

lemma ss_explore_ok:
  assumes "ss_explore slack bc m = (r, s, m')"
  shows "ss_reached bc m (r, s, m')" and "r = None \<Longrightarrow> pc_stack s = []"
proof -
  have "\<exists>x. ss_loop slack bc (ss_check slack bc (0, 0, - 1) (ss_init bc) m) = Some x \<and> ss_reached bc m x \<and> True \<and>
      (fst x = None \<longrightarrow> pc_stack (fst (snd x)) = [])"
    by (rule ss_loop_ends [where P = "\<lambda>_. True", OF TrueI ss_reached_init]) (rule TrueI)
  then obtain x where x: "ss_loop slack bc (ss_check slack bc (0, 0, - 1) (ss_init bc) m) = Some x" "ss_reached bc m x"
      "fst x = None \<longrightarrow> pc_stack (fst (snd x)) = []"
    by (elim exE conjE)
  then have "x = (r, s, m')" using assms by (simp add: ss_explore_def)
  with x(2,3) show "ss_reached bc m (r, s, m')" and "r = None \<Longrightarrow> pc_stack s = []" by simp_all
qed

section \<open>The map that the verifier finds\<close>

text \<open>The tables at the end of an exploration that succeeds.\<close>

definition ss_final :: "(nat \<Rightarrow> nat) \<Rightarrow> u8 list \<Rightarrow> mem \<Rightarrow> stack_size_state" where
  "ss_final slack bc m = fst (snd (ss_explore slack bc m))"

definition ss_accepted :: "(nat \<Rightarrow> nat) \<Rightarrow> u8 list \<Rightarrow> mem \<Rightarrow> int set" where
  "ss_accepted slack bc m = (if fst (ss_explore slack bc m) = None then explored bc (ss_final slack bc m) else {})"

lemma ss_final_ok:
  assumes "fst (ss_explore slack bc m) = None"
  shows "ss_ok bc {} (ss_final slack bc m)" "pc_stack (ss_final slack bc m) = []" "ss_explores bc (0, 0, - 1) (ss_final slack bc m)"
proof -
  obtain s m' where e: "ss_explore slack bc m = (None, s, m')" using assms by (cases "ss_explore slack bc m") auto
  from ss_explore_ok [OF e] show "ss_ok bc {} (ss_final slack bc m)" "pc_stack (ss_final slack bc m) = []" "ss_explores bc (0, 0, - 1) (ss_final slack bc m)"
    by (simp_all add: ss_final_def e ss_reached_def)
qed

interpretation verified: stack_map bc "level_at (ss_final slack bc m)" "catch_at (ss_final slack bc m)"
  "ss_accepted slack bc m" "stack_len_max (ss_final slack bc m)" for slack bc m
proof
  fix p
  assume p: "p \<in> ss_accepted slack bc m"
  then have a: "fst (ss_explore slack bc m) = None" by (simp add: ss_accepted_def split: if_splits)
  note f = ss_final_ok [OF a]
  have D: "ss_accepted slack bc m = explored bc (ss_final slack bc m)" using a by (simp add: ss_accepted_def)
  show "0 \<le> p \<and> p < int (length bc)" using p by (simp add: D explored_def)
  show "level_at (ss_final slack bc m) p \<le> stack_len_max (ss_final slack bc m)" using ss_ok_range [OF f(1)] p by (simp add: D)
  show "flow_ok bc (level_at (ss_final slack bc m)) (catch_at (ss_final slack bc m)) (ss_accepted slack bc m)
      (stack_len_max (ss_final slack bc m)) p"
    unfolding D by (rule ss_ok_flow [OF f(1)]) (use p f(2) in \<open>simp_all add: D\<close>)
qed

lemma free_tables_frees: "frees (2 + of_bool (pc_stack_size s \<noteq> 0)) (free_tables s)"
  by (auto simp: free_tables_def frees_def then_m_def bind_m_def guard_m_def js_free_def return_m_def)

text \<open>The outcome of the whole function in terms of the exploration; all blocks are released.\<close>

lemma js_malloc_outcome:
  assumes "js_malloc m = (a, m')"
  shows "(mem_outcomes m = [] \<longrightarrow> mem_outcomes m' = []) \<and>
    (case a of Inl e \<Rightarrow> e = OutOfMemory \<and> mem_outcomes m \<noteq> [] \<and> mem_live m' = mem_live m | Inr x \<Rightarrow> mem_live m' = mem_live m + 1)"
  using runsD [OF runs_malloc [of "\<lambda>_. False"] assms] by (auto split: sum.splits)

lemma compute_stack_size_outcome:
  assumes "compute_stack_size slack bc m = (r, m')"
  shows "mem_live m' = mem_live m"
    and "r = Inr n \<Longrightarrow> \<exists>m1. fst (ss_explore slack bc m1) = None \<and> n = stack_len_max (ss_final slack bc m1)"
    and "r = Inl e \<Longrightarrow> (\<exists>t. e = InternalError t) \<or> e = OutOfMemory \<and> mem_outcomes m \<noteq> []"
    and "mem_outcomes m = [] \<Longrightarrow> \<exists>m1. mem_outcomes m1 = [] \<and>
      (case fst (ss_explore slack bc m1) of None \<Rightarrow> r = Inr (stack_len_max (ss_final slack bc m1)) | Some e \<Rightarrow> r = Inl e)"
proof -
  let ?all = "mem_live m' = mem_live m \<and> (\<forall>n. r = Inr n \<longrightarrow> (\<exists>m1. fst (ss_explore slack bc m1) = None \<and> n = stack_len_max (ss_final slack bc m1))) \<and>
    (\<forall>e. r = Inl e \<longrightarrow> (\<exists>t. e = InternalError t) \<or> e = OutOfMemory \<and> mem_outcomes m \<noteq> []) \<and>
    (mem_outcomes m = [] \<longrightarrow> (\<exists>m1. mem_outcomes m1 = [] \<and>
      (case fst (ss_explore slack bc m1) of None \<Rightarrow> r = Inr (stack_len_max (ss_final slack bc m1)) | Some e \<Rightarrow> r = Inl e)))"
  obtain a m1 where m1: "js_malloc m = (a, m1)" by (cases "js_malloc m")
  obtain b m2 where m2: "js_malloc m1 = (b, m2)" by (cases "js_malloc m1")
  obtain x s m3 where m3: "ss_explore slack bc m2 = (x, s, m3)" by (cases "ss_explore slack bc m2")
  note j1 = js_malloc_outcome [OF m1] and j2 = js_malloc_outcome [OF m2]
  have e: "ss_errors (ss_init bc) m2 (x, s, m3)" using ss_explore_ok(1) [OF m3] by (simp add: ss_reached_def)
  have free: "free_tables s m3 = (Inr (), m3\<lparr>mem_live := mem_live m3 - (2 + of_bool (pc_stack_size s \<noteq> 0))\<rparr>)"
    using free_tables_frees [of s] by (simp add: frees_def)
  note defs = compute_stack_size_def bind_m_def guard_m_def then_m_def js_free_def throw_m_def return_m_def
  have ?all
  proof (cases a)
    case (Inl err)
    then show ?thesis using assms j1 by (auto simp: defs m1)
  next
    case a: (Inr u)
    show ?thesis
    proof (cases b)
      case (Inl err)
      then show ?thesis using assms j1 j2 a by (auto simp: defs m1 m2)
    next
      case (Inr v)
      have final: "ss_final slack bc m2 = s" by (simp add: ss_final_def m3)
      have live: "mem_live m3 = mem_live m + 2 + of_bool (pc_stack_size s \<noteq> 0)"
        using e j1 j2 a Inr by (simp add: ss_errors_def ss_init_def)
      show ?thesis
      proof (cases x)
        case None
        then have r: "r = Inr (stack_len_max s)" "mem_live m' = mem_live m"
          using assms a Inr live by (auto simp: defs m1 m2 m3 free)
        then show ?thesis using None m3 final j1 j2 by (auto intro!: exI [of _ m2])
      next
        case (Some err)
        then have r: "r = Inl err" "mem_live m' = mem_live m"
          using assms a Inr live by (auto simp: defs m1 m2 m3 free)
        then show ?thesis using Some m3 e j1 j2 by (auto simp: ss_errors_def intro!: exI [of _ m2])
      qed
    qed
  qed
  then show "mem_live m' = mem_live m"
    and "r = Inr n \<Longrightarrow> \<exists>m1. fst (ss_explore slack bc m1) = None \<and> n = stack_len_max (ss_final slack bc m1)"
    and "r = Inl e \<Longrightarrow> (\<exists>t. e = InternalError t) \<or> e = OutOfMemory \<and> mem_outcomes m \<noteq> []"
    and "mem_outcomes m = [] \<Longrightarrow> \<exists>m1. mem_outcomes m1 = [] \<and>
      (case fst (ss_explore slack bc m1) of None \<Rightarrow> r = Inr (stack_len_max (ss_final slack bc m1)) | Some e \<Rightarrow> r = Inl e)"
    by blast+
qed

section \<open>Code that has a stack map is accepted\<close>

context stack_map
begin

text \<open>What has been explored agrees with the map.\<close>

definition fits :: "stack_size_state \<Rightarrow> bool" where
  "fits s \<longleftrightarrow> stack_len_max s \<le> n_max \<and> explored bc s \<subseteq> D \<and>
     (\<forall>p\<in>explored bc s. level_at s p = lev p \<and> catch_at s p = cat p)"

lemma check_fits:
  assumes f: "fits s" and ok: "ss_ok bc P s" and q: "q \<in> D" "0 \<le> lev q" and c: "cat q < 0 \<or> cat q \<in> explored bc s"
    and mx: "n_max \<le> JS_STACK_SIZE_MAX" and m: "mem_outcomes m = []"
    and r: "ss_check slack bc (q, lev q, cat q) s m = (r, s', m')"
  shows "r = None \<and> fits s'"
proof -
  obtain over s1 where m1: "ss_max (lev q) s = (over, s1)" by (cases "ss_max (lev q) s")
  note e = ss_max_spec [OF m1]
  have over: "\<not> over" using e(8) ok level [OF q(1)] mx by (auto simp: ss_ok_def)
  have agree: "level_at s1 q = 0xffff \<or> level_at s1 q = lev q \<and> catch_at s1 q = cat q"
    using f inside [OF q(1)] by (auto simp: fits_def explored_def e)
  obtain a m2 where a: "js_resize_array slack 4 (pc_stack_size s1) (length (pc_stack s1) + 1) m = (a, m2)"
    by (cases "js_resize_array slack 4 (pc_stack_size s1) (length (pc_stack s1) + 1) m")
  have "\<exists>n. a = Inr n" using js_resize_array_outcome [OF a] m by (cases a) auto
  then have none: "r = None"
    using r inside [OF q(1)] over agree a by (auto simp: ss_check_def m1 level_at_def catch_at_def split: if_splits)
  have k: "ss_ext bc s s' \<and> ss_explores bc (q, lev q, cat q) s' \<and> explored bc s' = insert q (explored bc s) \<and>
      stack_len_max s' = max (lev q) (stack_len_max s)"
    using ss_check_ok(2) [OF ok q(2) c r none] by blast
  have "fits s'" unfolding fits_def
  proof (intro conjI ballI)
    show "stack_len_max s' \<le> n_max" using k f level [OF q(1)] by (simp add: fits_def)
    show "explored bc s' \<subseteq> D" using k f q(1) by (simp add: fits_def)
    fix p
    assume "p \<in> explored bc s'"
    then show "level_at s' p = lev p" "catch_at s' p = cat p"
      using k f by (auto simp: fits_def ss_ext_def ss_explores_def)
  qed
  with none show ?thesis by simp
qed

lemma check_opt_fits:
  assumes f: "fits s" and ok: "ss_ok bc P s" and b: "\<forall>(q, k, c) \<in> set_option b. q \<in> D \<and> lev q = k \<and> cat q = c"
    and rg: "\<forall>(q, k, c) \<in> set_option b. 0 \<le> k \<and> (c < 0 \<or> c \<in> explored bc s)"
    and mx: "n_max \<le> JS_STACK_SIZE_MAX" and m: "mem_outcomes m = []"
    and r: "ss_check_opt slack bc b s m = (r, s', m')"
  shows "r = None \<and> fits s' \<and> mem_outcomes m' = [] \<and> ss_ok bc P s' \<and> ss_ext bc s s'"
proof -
  have m': "mem_outcomes m' = []" using ss_check_opt_ok(1) [OF ok rg r] m by (simp add: ss_errors_def)
  have "r = None \<and> fits s'"
  proof (cases b)
    case None
    then show ?thesis using r f by simp
  next
    case (Some x)
    obtain q k c where x: "x = (q, k, c)" by (cases x)
    have q: "q \<in> D" "0 \<le> lev q" "cat q < 0 \<or> cat q \<in> explored bc s" "k = lev q" "c = cat q" using b rg Some x by auto
    have "ss_check slack bc (q, lev q, cat q) s m = (r, s', m')" using r Some x q(4,5) by simp
    from check_fits [OF f ok q(1-3) mx m this] show ?thesis .
  qed
  with m' ss_check_opt_ok(2) [OF ok rg r] show ?thesis by blast
qed

lemma dispatch_fits:
  assumes f: "fits s" and ok: "ss_ok bc {p} s" and p: "p \<in> explored bc s"
    and fe: "ss_fetch bc p (lev p) = Inr (op, q, n)" and mx: "n_max \<le> JS_STACK_SIZE_MAX" and m: "mem_outcomes m = []"
    and r: "ss_dispatch slack bc p op q n s m = (r, s', m')"
  shows "r = None \<and> fits s'"
proof -
  have D: "p \<in> D" "level_at s p = lev p" "catch_at s p = cat p" using f p by (auto simp: fits_def)
  obtain br nx where sw: "ss_switch bc lev cat p op q n (cat p) = Inr (br, nx)"
      and all: "\<forall>(q, k, c) \<in> set_option br \<union> set_option nx. q \<in> D \<and> lev q = k \<and> cat q = c"
    using flow [OF D(1)] fe unfolding flow_ok_iff by auto
  have c0: "0 \<le> cat p \<Longrightarrow> cat p \<in> explored bc s" using ss_ok_range [OF ok p] D(3) by auto
  have sw': "ss_switch bc (level_at s) (catch_at s) p op q n (catch_at s p) = Inr (br, nx)"
    using ss_switch_cong [of "cat p" "level_at s" lev "catch_at s" cat] c0 f sw D(3) by (simp add: fits_def)
  have fe': "ss_fetch bc p (level_at s p) = Inr (op, q, n)" using fe D(2) by simp
  note rg = ss_switch_within [OF ok p fe' sw']
  obtain r2 s2 m2 where c2: "ss_check_opt slack bc br s m = (r2, s2, m2)" by (cases "ss_check_opt slack bc br s m")
  have k2: "r2 = None" "fits s2" "mem_outcomes m2 = []" "ss_ok bc {p} s2" "ss_ext bc s s2"
    using check_opt_fits [OF f ok _ _ mx m c2] all rg by auto
  have c3: "ss_check_opt slack bc nx s2 m2 = (r, s', m')" using r by (simp add: ss_dispatch_def sw' c2 k2(1))
  have "\<forall>(q, k, c) \<in> set_option nx. 0 \<le> k \<and> (c < 0 \<or> c \<in> explored bc s2)" using rg k2(5) by (auto simp: ss_ext_def)
  from check_opt_fits [OF k2(2,4) _ this mx k2(3) c3] all show ?thesis by auto
qed

lemma step_fits:
  assumes f: "fits s" and ok: "ss_ok bc {} s" and st: "pc_stack s \<noteq> []" and mx: "n_max \<le> JS_STACK_SIZE_MAX"
    and m: "mem_outcomes m = []" and r: "ss_step slack bc s m = (r, s', m')"
  shows "r = None \<and> fits s'"
proof -
  obtain p ps where st: "pc_stack s = p # ps" using st by (cases "pc_stack s") auto
  define s0 where "s0 = s\<lparr>pc_stack := ps\<rparr>"
  note pop = ss_pop [OF ok st, folded s0_def]
  have p: "p \<in> explored bc s" using pop(4,8) by simp
  have D: "p \<in> D" "level_at s p = lev p" using f p by (auto simp: fits_def)
  obtain op q n where fe: "ss_fetch bc p (lev p) = Inr (op, q, n)" and n: "n \<le> n_max"
    using flow [OF D(1)] unfolding flow_ok_iff by auto
  obtain over s1 where m1: "ss_max n s0 = (over, s1)" by (cases "ss_max n s0")
  note e = ss_max_spec [OF m1]
  have over: "\<not> over" using e(8) pop(1) n mx by (auto simp: ss_ok_def)
  then have m1: "ss_max n s0 = (False, s1)" using m1 by simp
  note s1 = ss_ok_max [OF pop(1) m1]
  have "stack_len_max s0 = stack_len_max s" by (simp add: s0_def)
  then have f1: "fits s1" using f n e pop(6-8) s1(3) by (simp add: fits_def)
  have "ss_dispatch slack bc p op q n s1 m = (r, s', m')"
    using r st fe D(2) by (simp add: ss_step_def s0_def [symmetric] m1 pop(6))
  from dispatch_fits [OF f1 s1(1) _ fe mx m this] p pop(8) s1(3) show ?thesis by simp
qed

lemma explore_fits:
  assumes z: "0 \<in> D" "lev 0 = 0" "cat 0 = - 1" and mx: "n_max \<le> JS_STACK_SIZE_MAX" and m: "mem_outcomes m = []"
  shows "fst (ss_explore slack bc m) = None \<and> stack_len_max (ss_final slack bc m) \<le> n_max"
proof -
  define P where "P = (\<lambda>(r :: js_error option, s, m' :: mem). r = None \<and> fits s)"
  have "\<exists>x. ss_loop slack bc (ss_check slack bc (0, 0, - 1) (ss_init bc) m) = Some x \<and> ss_reached bc m x \<and> P x \<and>
      (fst x = None \<longrightarrow> pc_stack (fst (snd x)) = [])"
  proof (rule ss_loop_ends [OF _ ss_reached_init])
    have f: "fits (ss_init bc)" using level [OF z(1)] z(2) by (simp add: fits_def ss_init_ok(2)) (simp add: ss_init_def)
    obtain r s m' where c: "ss_check slack bc (0, lev 0, cat 0) (ss_init bc) m = (r, s, m')"
      by (cases "ss_check slack bc (0, lev 0, cat 0) (ss_init bc) m")
    from check_fits [OF f ss_init_ok(1) z(1) _ _ mx m c] z c show "P (ss_check slack bc (0, 0, - 1) (ss_init bc) m)"
      by (simp add: P_def)
  next
    fix s m1
    assume a: "ss_reached bc m (None, s, m1)" and n: "pc_stack s \<noteq> []" and "P (None, s, m1)"
    then have f: "fits s" "ss_ok bc {} s" "mem_outcomes m1 = []" using m by (auto simp: P_def ss_reached_def ss_errors_def)
    obtain r' s' m' where st: "ss_step slack bc s m1 = (r', s', m')" by (cases "ss_step slack bc s m1")
    from step_fits [OF f(1,2) n mx f(3) st] st show "P (ss_step slack bc s m1)" by (simp add: P_def)
  qed
  then show ?thesis by (auto simp: ss_explore_def ss_final_def P_def fits_def)
qed

end

section \<open>Properties\<close>

definition has_stack_map :: "u8 list \<Rightarrow> int \<Rightarrow> bool" where
  "has_stack_map bc n \<longleftrightarrow> (\<exists>lev cat D. stack_map bc lev cat D n \<and> 0 \<in> D \<and> lev 0 = 0 \<and> cat 0 = - 1)"

lemma accepted_has_map:
  assumes "fst (ss_explore slack bc m) = None"
  shows "has_stack_map bc (stack_len_max (ss_final slack bc m))" "stack_len_max (ss_final slack bc m) \<le> JS_STACK_SIZE_MAX"
  using ss_final_ok [OF assms] verified.stack_map_axioms [of bc slack m] assms
  by (auto simp: has_stack_map_def ss_accepted_def ss_explores_def ss_ok_def)

lemma has_map_accepted:
  assumes "has_stack_map bc n" and "n \<le> JS_STACK_SIZE_MAX" and "mem_outcomes m = []"
  shows "fst (ss_explore slack bc m) = None \<and> stack_len_max (ss_final slack bc m) \<le> n"
  using assms stack_map.explore_fits unfolding has_stack_map_def by blast

text \<open>A \<open>try\<close> around a value that is dropped: both the end of the block and the handler drop the one entry that is left.\<close>

definition try_code :: "u8 list" where
  "try_code = [107, 8, 0, 0, 0, 180, 14, 14, 41, 14, 41]"

lemma ss_loop_unfold:
  "ss_loop slack bc (e, s, m) =
     (if e = None \<and> pc_stack s \<noteq> [] then ss_loop slack bc (ss_step slack bc s m) else Some (e, s, m))"
  unfolding ss_loop_def by (subst while_option_unfold) simp

text \<open>The instruction 180 is \<open>push_0\<close>.\<close>

lemma short_opcode_info_push: "short_opcode_info 180 = op_def 1 0 1 OP_FMT_none_int"
  by (simp_all add: short_opcode_info_def opcode_info_def OP_TEMP_START_def OP_TEMP_END_def)

lemmas ss_run = ss_loop_unfold ss_step_def ss_check_def ss_max_def ss_init_def js_resize_array_def js_realloc_array_def
  bind_m_def guard_m_def return_m_def js_malloc_def js_realloc_def level_at_def catch_at_def ss_fetch_def insn_n_pop_def
  ss_dispatch_def ss_switch_def diff32_def get_u32_def op_def_def short_opcode_info_named short_opcode_info_push
  JS_STACK_SIZE_MAX_def OP_COUNT_def check_catch_def catch_base_def free_tables_def then_m_def js_free_def
  compute_stack_size_def ss_explore_def

lemma try_code_run: "fst (compute_stack_size (\<lambda>_. 0) try_code \<lparr>mem_outcomes = [], mem_live = 0\<rparr>) = Inr 2"
  by (simp add: try_code_def ss_run)

text \<open>C37: when memory suffices, the verifier accepts exactly the functions that have a stack map within the
  limit, and returns the least stack size of all maps; otherwise it throws an internal error.\<close>

theorem compute_stack_size_typed:
  assumes "mem_outcomes m = []"
  shows "case fst (compute_stack_size slack bc m) of
      Inr n \<Rightarrow> n \<le> JS_STACK_SIZE_MAX \<and> has_stack_map bc n \<and> (\<forall>k. has_stack_map bc k \<longrightarrow> n \<le> k)
    | Inl e \<Rightarrow> (\<exists>t. e = InternalError t) \<and> (\<forall>n \<le> JS_STACK_SIZE_MAX. \<not> has_stack_map bc n)"
proof -
  obtain r m' where r: "compute_stack_size slack bc m = (r, m')" by (cases "compute_stack_size slack bc m")
  obtain m1 where m1: "mem_outcomes m1 = []" "case fst (ss_explore slack bc m1) of
      None \<Rightarrow> r = Inr (stack_len_max (ss_final slack bc m1)) | Some e \<Rightarrow> r = Inl e"
    using compute_stack_size_outcome(4) [OF r assms] by blast
  show ?thesis
  proof (cases r)
    case (Inr n)
    then have a: "fst (ss_explore slack bc m1) = None" "n = stack_len_max (ss_final slack bc m1)"
      using m1(2) by (auto split: option.splits)
    have "n \<le> k" if "has_stack_map bc k" for k
      using has_map_accepted [OF that _ m1(1)] accepted_has_map(2) [OF a(1)] a(2) by (cases "k \<le> JS_STACK_SIZE_MAX") auto
    then show ?thesis using accepted_has_map [OF a(1)] a(2) r Inr by simp
  next
    case (Inl e)
    then have "fst (ss_explore slack bc m1) \<noteq> None" using m1(2) by (auto split: option.splits)
    then have "\<not> has_stack_map bc n" if "n \<le> JS_STACK_SIZE_MAX" for n using has_map_accepted [of bc n m1 slack] that m1(1) by auto
    moreover have "\<exists>t. e = InternalError t" using compute_stack_size_outcome(3) [OF r Inl] assms by simp
    ultimately show ?thesis using r Inl by simp
  qed
qed

theorem compute_stack_size_typed_witness: "has_stack_map try_code 2 \<and> \<not> has_stack_map try_code 1"
proof -
  have "\<forall>k. has_stack_map try_code k \<longrightarrow> 2 \<le> k" and "has_stack_map try_code 2"
    using compute_stack_size_typed [where m = "\<lparr>mem_outcomes = [], mem_live = 0\<rparr>" and slack = "\<lambda>_. 0" and bc = try_code] by (simp_all add: try_code_run)
  then show ?thesis by auto
qed

text \<open>C38: whatever its allocations do, the verifier releases its blocks, and it fails by an internal error or for lack of
  memory only. When it returns \<open>n\<close>, every frame of a disciplined run of the interpreter has a complete instruction with its
  operands on the stack and needs at most \<open>n\<close> values before and behind it, \<open>nip_catch\<close> finds an exception entry, and
  the position alone determines the depth and the exception entries, in this run and all others. A run is disciplined when
  exception entries are moved and dropped only as the verifier assumes and \<open>ret\<close> goes back to a \<open>gosub\<close> of the run
  (\<open>disciplined\<close>); the interpreter does not check this, and for code that does otherwise the verifier promises nothing.\<close>

theorem compute_stack_size_safe:
  assumes "compute_stack_size slack bc m = (r, m')"
  shows "mem_live m' = mem_live m \<and>
    (case r of
       Inl e \<Rightarrow> (\<exists>t. e = InternalError t) \<or> e = OutOfMemory \<and> mem_outcomes m \<noteq> []
     | Inr n \<Rightarrow> \<forall>l f tr. frames_run bc ((l, f) # tr) \<and> disciplined bc ((l, f) # tr) \<longrightarrow> frame_safe bc n f \<and>
         (\<forall>l' f' tr'. frames_run bc ((l', f') # tr') \<and> disciplined bc ((l', f') # tr') \<and> pc f' = pc f \<longrightarrow>
            depth f' = depth f \<and> entries (vals f') = entries (vals f)))"
proof (cases r)
  case (Inl e)
  then show ?thesis using compute_stack_size_outcome(1,3) [OF assms] by simp
next
  case (Inr n)
  obtain m1 where m1: "fst (ss_explore slack bc m1) = None" "n = stack_len_max (ss_final slack bc m1)"
    using compute_stack_size_outcome(2) [OF assms Inr] by blast
  note fin = ss_final_ok [OF m1(1)]
  have zero: "0 \<in> ss_accepted slack bc m1" "level_at (ss_final slack bc m1) 0 = 0" "catch_at (ss_final slack bc m1) 0 = - 1"
    using fin(3) m1(1) by (simp_all add: ss_accepted_def ss_explores_def)
  have ok: "verified.frame_ok bc slack m1 f" if "frames_run bc ((l, f) # tr)" "disciplined bc ((l, f) # tr)" for l f tr
    using verified.frames_run_ok [OF that zero] by simp
  have safe: "frame_safe bc n f" if "frames_run bc ((l, f) # tr) \<and> disciplined bc ((l, f) # tr)" for l f tr
    using verified.frame_ok_safe [OF ok [OF conjunct1 [OF that] conjunct2 [OF that]]] m1(2) by simp
  have unique: "depth f' = depth f \<and> entries (vals f') = entries (vals f)"
    if "frames_run bc ((l, f) # tr) \<and> disciplined bc ((l, f) # tr)"
      "frames_run bc ((l', f') # tr') \<and> disciplined bc ((l', f') # tr') \<and> pc f' = pc f" for l f tr l' f' tr'
    by (rule verified.frame_ok_unique; use ok that in blast)
  show ?thesis
    unfolding Inr sum.case using compute_stack_size_outcome(1) [OF assms] safe unique by (intro conjI allI impI; blast)
qed

text \<open>A \<open>try\<close> around \<open>throw 0\<close>: the handler drops the exception.\<close>

definition throw_code :: "u8 list" where
  "throw_code = [107, 6, 0, 0, 0, 180, 48, 14, 41]"

definition throw_run :: run where
  "throw_run = [(None, frame_at 8 []), (Some [Catch_Offset 7], frame_at 7 [Int_Value 0]),
     (None, frame_at 6 [Int_Value 0, Catch_Offset 7]), (None, frame_at 5 [Catch_Offset 7]), (None, frame_at 0 [])]"

lemma throw_code_run: "fst (compute_stack_size (\<lambda>_. 0) throw_code \<lparr>mem_outcomes = [], mem_live = 0\<rparr>) = Inr 2"
  by (simp add: throw_code_def ss_run)

lemma plain_push: "plain 180"
  by (simp add: plain_def terminators_def gotos_def branches_def with_change_def)

lemma frames_run_two: "frame_step bc l (frame_at 0 []) f \<Longrightarrow> frames_run bc [(l, f), (None, frame_at 0 [])]"
  by (rule frames_run.step [OF frames_run.start])

lemma throw_run_ok: "frames_run throw_code throw_run" "disciplined throw_code throw_run"
proof -
  have op: "opcode throw_code 0 = OP_catch" "opcode throw_code 5 = 180" "opcode throw_code 6 = OP_throw" "opcode throw_code 7 = OP_drop"
    by (simp_all add: opcode_def throw_code_def)
  have af: "after throw_code 0 = 5" "after throw_code 5 = 6" "after throw_code 7 = 8"
    by (simp_all add: after_def op op_def_def short_opcode_info_named short_opcode_info_push)
  have j: "jump_target throw_code 0 = 7"
    by (simp add: jump_target_def op diff32_def get_u32_def) (simp add: throw_code_def)
  have c: "frame_step throw_code None (frame_at 0 []) (frame_at 5 [Catch_Offset 7])"
    using frame_step.catch [of throw_code 0 "[]"] op af j by simp
  have p: "frame_step throw_code None (frame_at 5 [Catch_Offset 7]) (frame_at 6 [Int_Value 0, Catch_Offset 7])"
    using frame_step.plain [of throw_code 5 "[Catch_Offset 7]" "[Int_Value 0, Catch_Offset 7]"] op af plain_push
    by (simp add: insn_n_pop_def op_def_def short_opcode_info_push)
  have t: "frame_step throw_code (Some [Catch_Offset 7]) (frame_at 6 [Int_Value 0, Catch_Offset 7]) (frame_at 7 [Int_Value 0])"
    by (rule frame_step.raise) (simp_all add: raises_def op gotos_def)
  have d: "frame_step throw_code None (frame_at 7 [Int_Value 0]) (frame_at 8 [])"
    using frame_step.drop [of throw_code 7 "Int_Value 0" "[]"] op af by simp
  show "frames_run throw_code throw_run"
    unfolding throw_run_def by (intro frames_run.step [OF _ d] frames_run.step [OF _ t] frames_run.step [OF _ p] frames_run_two c)
  show "disciplined throw_code throw_run"
    by (simp add: throw_run_def entries_after_def op j)
qed

theorem compute_stack_size_safe_witness:
  "frames_run throw_code throw_run \<and> disciplined throw_code throw_run \<and> frame_safe throw_code 2 (snd (hd throw_run))"
proof -
  obtain m' where c: "compute_stack_size (\<lambda>_. 0) throw_code \<lparr>mem_outcomes = [], mem_live = 0\<rparr> = (Inr 2, m')"
    using throw_code_run by (metis prod.collapse)
  have "frame_safe throw_code 2 f" if "frames_run throw_code ((l, f) # tr)" "disciplined throw_code ((l, f) # tr)" for l f tr
    using compute_stack_size_safe [OF c] that by (simp only: sum.case)
  then show ?thesis using throw_run_ok by (metis throw_run_def list.sel(1) snd_conv)
qed

section \<open>Code that is not disciplined\<close>

text \<open>
  The verifier accepts code in which \<open>nip1\<close> drops an exception entry, and \<open>nip_catch\<close> then looks for it in vain: for the
  entry of the \<open>catch\<close> at index 0 it looks at index 1.
\<close>

definition nip1_code :: "u8 list" where
  "nip1_code = [107, 8, 0, 0, 0, 180, 180, 16, 110, 40]"

lemma nip1_unsafe:
  "fst (compute_stack_size (\<lambda>_. 0) nip1_code \<lparr>mem_outcomes = [], mem_live = 0\<rparr>) = Inr 3 \<and>
   (\<exists>tr. frames_run nip1_code ((None, frame_at 8 [Int_Value 0, Int_Value 0]) # tr)) \<and>
   \<not> frame_safe nip1_code 3 (frame_at 8 [Int_Value 0, Int_Value 0])"
proof (intro conjI)
  show "fst (compute_stack_size (\<lambda>_. 0) nip1_code \<lparr>mem_outcomes = [], mem_live = 0\<rparr>) = Inr 3"
    by (simp add: nip1_code_def ss_run)
  have op: "opcode nip1_code 0 = OP_catch" "opcode nip1_code 5 = 180" "opcode nip1_code 6 = 180" "opcode nip1_code 7 = OP_nip1"
    "opcode nip1_code 8 = OP_nip_catch" by (simp_all add: opcode_def nip1_code_def)
  have j: "jump_target nip1_code 0 = 9"
    by (simp add: jump_target_def op diff32_def get_u32_def) (simp add: nip1_code_def)
  have af: "after nip1_code 0 = 5" "after nip1_code 5 = 6" "after nip1_code 6 = 7" "after nip1_code 7 = 8"
    by (simp_all add: after_def op op_def_def short_opcode_info_named short_opcode_info_push)
  have c: "frame_step nip1_code None (frame_at 0 []) (frame_at 5 [Catch_Offset 9])"
    using frame_step.catch [of nip1_code 0 "[]"] op j af by simp
  have p: "frame_step nip1_code None (frame_at 5 [Catch_Offset 9]) (frame_at 6 [Int_Value 0, Catch_Offset 9])"
    "frame_step nip1_code None (frame_at 6 [Int_Value 0, Catch_Offset 9]) (frame_at 7 [Int_Value 0, Int_Value 0, Catch_Offset 9])"
    "frame_step nip1_code None (frame_at 7 [Int_Value 0, Int_Value 0, Catch_Offset 9]) (frame_at 8 [Int_Value 0, Int_Value 0])"
    using frame_step.plain [of nip1_code 5 "[Catch_Offset 9]" "[Int_Value 0, Catch_Offset 9]"]
      frame_step.plain [of nip1_code 6 "[Int_Value 0, Catch_Offset 9]" "[Int_Value 0, Int_Value 0, Catch_Offset 9]"]
      frame_step.nip1 [of nip1_code 7 "Int_Value 0" "Int_Value 0" "Catch_Offset 9" "[]"] op af plain_push
    by (simp_all add: insn_n_pop_def op_def_def short_opcode_info_push)
  show "\<exists>tr. frames_run nip1_code ((None, frame_at 8 [Int_Value 0, Int_Value 0]) # tr)"
    by (rule exI [of _ "[(None, frame_at 7 [Int_Value 0, Int_Value 0, Catch_Offset 9]), (None, frame_at 6 [Int_Value 0, Catch_Offset 9]),
      (None, frame_at 5 [Catch_Offset 9]), (None, frame_at 0 [])]"]) (intro frames_run.step [OF _ p(3)] frames_run.step [OF _ p(2)] frames_run.step [OF _ p(1)] frames_run_two c)
  show "\<not> frame_safe nip1_code 3 (frame_at 8 [Int_Value 0, Int_Value 0])" by (simp add: frame_safe_def op)
qed

text \<open>
  So it does with code that pushes the number of the first instruction for \<open>ret\<close>: every round leaves the return address of a
  \<open>gosub\<close> on the stack, which grows beyond the two values that the verifier reserves and beyond any bound.
\<close>

definition ret_code :: "u8 list" where
  "ret_code = [108, 5, 0, 0, 0, 41, 180, 109]"

lemma ret_unbounded:
  "fst (compute_stack_size (\<lambda>_. 0) ret_code \<lparr>mem_outcomes = [], mem_live = 0\<rparr>) = Inr 2 \<and>
   (\<exists>tr. frames_run ret_code ((None, frame_at 0 (replicate k (Int_Value 5))) # tr))"
proof
  show "fst (compute_stack_size (\<lambda>_. 0) ret_code \<lparr>mem_outcomes = [], mem_live = 0\<rparr>) = Inr 2"
    by (simp add: ret_code_def ss_run)
  have op: "opcode ret_code 0 = OP_gosub" "opcode ret_code 6 = 180" "opcode ret_code 7 = OP_ret" by (simp_all add: opcode_def ret_code_def)
  have j: "jump_target ret_code 0 = 6" by (simp add: jump_target_def op diff32_def get_u32_def) (simp add: ret_code_def)
  have af: "after ret_code 0 = 5" "after ret_code 6 = 7"
    by (simp_all add: after_def op op_def_def short_opcode_info_named short_opcode_info_push)
  have round: "frame_step ret_code None (frame_at 0 vs) (frame_at 6 (Int_Value 5 # vs))"
    "frame_step ret_code None (frame_at 6 (Int_Value 5 # vs)) (frame_at 7 (Int_Value 0 # Int_Value 5 # vs))"
    "frame_step ret_code None (frame_at 7 (Int_Value 0 # Int_Value 5 # vs)) (frame_at 0 (Int_Value 5 # vs))" for vs
    using frame_step.gosub [of ret_code 0 vs] frame_step.plain [of ret_code 6 "Int_Value 5 # vs" "Int_Value 0 # Int_Value 5 # vs"]
      frame_step.ret [of ret_code 7 0 "Int_Value 5 # vs"] op af j plain_push
    by (simp_all add: insn_n_pop_def op_def_def short_opcode_info_push) (simp add: ret_code_def)
  show "\<exists>tr. frames_run ret_code ((None, frame_at 0 (replicate k (Int_Value 5))) # tr)"
  proof (induction k)
    case 0
    then show ?case using frames_run.start by auto
  next
    case (Suc k)
    then show ?case using round [of "replicate k (Int_Value 5)"] by (auto intro: frames_run.step)
  qed
qed

end
