(* ===== verification/Js_Value.thy ===== *)
theory Js_Value
  imports Rope BigInt_Spec
begin

text \<open>
  Values of the language as far as \<open>Map\<close> and \<open>Set\<close> look at them: the tags of \<open>src/qjs/quickjs.h\<close>, the
  comparison \<open>SameValueZero\<close> and the hash function of \<open>src/qjs/quickjs.c\<close>. A double is its bit pattern,
  an object or a symbol its address.
\<close>

section \<open>Values\<close>

datatype jsval =
    Undefined_Val | Null_Val | Bool_Val bool | Int_Val u32 | Float64_Val u64 | Short_Big_Int u32 | Big_Int bigint
  | String_Val js_string | String_Rope str_rope | Symbol_Val u64 | Object_Val u64

definition JS_TAG_BIG_INT :: int where "JS_TAG_BIG_INT = - 9"
definition JS_TAG_SYMBOL :: int where "JS_TAG_SYMBOL = - 8"
definition JS_TAG_STRING :: int where "JS_TAG_STRING = - 7"
definition JS_TAG_STRING_ROPE :: int where "JS_TAG_STRING_ROPE = - 6"
definition JS_TAG_OBJECT :: int where "JS_TAG_OBJECT = - 1"
definition JS_TAG_INT :: int where "JS_TAG_INT = 0"
definition JS_TAG_BOOL :: int where "JS_TAG_BOOL = 1"
definition JS_TAG_NULL :: int where "JS_TAG_NULL = 2"
definition JS_TAG_UNDEFINED :: int where "JS_TAG_UNDEFINED = 3"
definition JS_TAG_SHORT_BIG_INT :: int where "JS_TAG_SHORT_BIG_INT = 7"
definition JS_TAG_FLOAT64 :: int where "JS_TAG_FLOAT64 = 8"

lemmas tag_defs = JS_TAG_BIG_INT_def JS_TAG_SYMBOL_def JS_TAG_STRING_def JS_TAG_STRING_ROPE_def JS_TAG_OBJECT_def
  JS_TAG_INT_def JS_TAG_BOOL_def JS_TAG_NULL_def JS_TAG_UNDEFINED_def JS_TAG_SHORT_BIG_INT_def JS_TAG_FLOAT64_def

fun js_value_get_norm_tag :: "jsval \<Rightarrow> int" where
  "js_value_get_norm_tag Undefined_Val = JS_TAG_UNDEFINED"
| "js_value_get_norm_tag Null_Val = JS_TAG_NULL"
| "js_value_get_norm_tag (Bool_Val b) = JS_TAG_BOOL"
| "js_value_get_norm_tag (Int_Val i) = JS_TAG_INT"
| "js_value_get_norm_tag (Float64_Val d) = JS_TAG_FLOAT64"
| "js_value_get_norm_tag (Short_Big_Int i) = JS_TAG_SHORT_BIG_INT"
| "js_value_get_norm_tag (Big_Int a) = JS_TAG_BIG_INT"
| "js_value_get_norm_tag (String_Val s) = JS_TAG_STRING"
| "js_value_get_norm_tag (String_Rope r) = JS_TAG_STRING_ROPE"
| "js_value_get_norm_tag (Symbol_Val p) = JS_TAG_SYMBOL"
| "js_value_get_norm_tag (Object_Val p) = JS_TAG_OBJECT"

section \<open>SameValueZero\<close>

definition f64_is_zero :: "u64 \<Rightarrow> bool" where
  "f64_is_zero x \<longleftrightarrow> f64_exp x = 0 \<and> f64_mant x = 0"

text \<open>\<open>d1 == d2\<close> of C: no NaN is equal to anything, and the two zeros are equal.\<close>

definition f64_eq :: "u64 \<Rightarrow> u64 \<Rightarrow> bool" where
  "f64_eq x y \<longleftrightarrow> \<not> f64_is_nan x \<and> \<not> f64_is_nan y \<and> (x = y \<or> f64_is_zero x \<and> f64_is_zero y)"

text \<open>The code behind the label \<open>number_test\<close>, for \<open>JS_EQ_SAME_VALUE_ZERO\<close>.\<close>

definition number_test :: "u64 \<Rightarrow> u64 \<Rightarrow> bool" where
  "number_test d1 d2 =
     (if f64_is_nan d1 \<or> f64_is_nan d2 then f64_is_nan d1 = f64_is_nan d2 else f64_eq d1 d2)"

text \<open>\<open>js_strict_eq2\<close> with \<open>JS_EQ_SAME_VALUE_ZERO\<close>. The comparison of ropes always returns (C32).\<close>

fun js_same_value_zero :: "jsval \<Rightarrow> jsval \<Rightarrow> bool" where
  "js_same_value_zero (Bool_Val a) op2 = (case op2 of Bool_Val b \<Rightarrow> a = b | _ \<Rightarrow> False)"
| "js_same_value_zero Null_Val op2 = (op2 = Null_Val)"
| "js_same_value_zero Undefined_Val op2 = (op2 = Undefined_Val)"
| "js_same_value_zero (String_Val p) op2 =
     (case op2 of String_Val q \<Rightarrow> js_string_eq p q
      | String_Rope r \<Rightarrow> js_string_rope_compare (Str p) r True = Some 0 | _ \<Rightarrow> False)"
| "js_same_value_zero (String_Rope p) op2 =
     (case op2 of String_Val q \<Rightarrow> js_string_rope_compare p (Str q) True = Some 0
      | String_Rope r \<Rightarrow> js_string_rope_compare p r True = Some 0 | _ \<Rightarrow> False)"
| "js_same_value_zero (Symbol_Val p) op2 = (case op2 of Symbol_Val q \<Rightarrow> p = q | _ \<Rightarrow> False)"
| "js_same_value_zero (Object_Val p) op2 = (case op2 of Object_Val q \<Rightarrow> p = q | _ \<Rightarrow> False)"
| "js_same_value_zero (Int_Val i) op2 =
     (case op2 of Int_Val j \<Rightarrow> number_test (f64_of_int32 i) (f64_of_int32 j)
      | Float64_Val d \<Rightarrow> number_test (f64_of_int32 i) d | _ \<Rightarrow> False)"
| "js_same_value_zero (Float64_Val d) op2 =
     (case op2 of Float64_Val e \<Rightarrow> number_test d e
      | Int_Val j \<Rightarrow> number_test d (f64_of_int32 j) | _ \<Rightarrow> False)"
| "js_same_value_zero (Short_Big_Int i) op2 =
     (case op2 of Short_Big_Int j \<Rightarrow> js_bigint_cmp (js_bigint_set_si i) (js_bigint_set_si j) = 0
      | Big_Int b \<Rightarrow> js_bigint_cmp (js_bigint_set_si i) b = 0 | _ \<Rightarrow> False)"
| "js_same_value_zero (Big_Int a) op2 =
     (case op2 of Short_Big_Int j \<Rightarrow> js_bigint_cmp a (js_bigint_set_si j) = 0
      | Big_Int b \<Rightarrow> js_bigint_cmp a b = 0 | _ \<Rightarrow> False)"

section \<open>Hashing\<close>

fun hash_string8 :: "u8 list \<Rightarrow> u32 \<Rightarrow> u32" where
  "hash_string8 [] h = h"
| "hash_string8 (c # str) h = hash_string8 str (h * 263 + ucast c)"

fun hash_string16 :: "u16 list \<Rightarrow> u32 \<Rightarrow> u32" where
  "hash_string16 [] h = h"
| "hash_string16 (c # str) h = hash_string16 str (h * 263 + ucast c)"

fun hash_string :: "js_string \<Rightarrow> u32 \<Rightarrow> u32" where
  "hash_string (Str8 bs) h = hash_string8 bs h"
| "hash_string (Str16 us) h = hash_string16 us h"

fun hash_string_rope :: "str_rope \<Rightarrow> u32 \<Rightarrow> u32" where
  "hash_string_rope (Str p) h = hash_string p h"
| "hash_string_rope (Rope n w d l r) h = hash_string_rope r (hash_string_rope l h)"

text \<open>The bytes of the limbs in memory.\<close>

definition limb_bytes :: "u32 \<Rightarrow> u8 list" where
  "limb_bytes x = [ucast x, ucast (drop_bit 8 x), ucast (drop_bit 16 x), ucast (drop_bit 24 x)]"

definition hash_float64 :: "u64 \<Rightarrow> u32" where
  "hash_float64 d = ((ucast d XOR ucast (drop_bit 32 d)) * 3163) XOR of_int JS_TAG_FLOAT64"

text \<open>\<open>h\<close> before the tag is mixed in; the numbers return at \<open>hash_float64\<close>.\<close>

fun map_hash_key :: "jsval \<Rightarrow> u32" where
  "map_hash_key (Bool_Val b) = of_bool b XOR of_int JS_TAG_BOOL"
| "map_hash_key (String_Val s) = hash_string s 0 XOR of_int JS_TAG_STRING"
| "map_hash_key (String_Rope r) = hash_string_rope r 0 XOR of_int JS_TAG_STRING_ROPE"
| "map_hash_key (Object_Val p) = (ucast (p * 3163)) XOR of_int JS_TAG_OBJECT"
| "map_hash_key (Symbol_Val p) = (ucast (p * 3163)) XOR of_int JS_TAG_SYMBOL"
| "map_hash_key (Int_Val i) = hash_float64 (f64_of_int32 i)"
| "map_hash_key (Short_Big_Int i) = hash_float64 (f64_of_int32 i)"
| "map_hash_key (Big_Int a) = hash_string8 (concat (map limb_bytes a)) 0 XOR of_int JS_TAG_BIG_INT"
| "map_hash_key (Float64_Val d) = hash_float64 (if f64_is_nan d then 0x7ff8000000000000 else d)"
| "map_hash_key Null_Val = 0 XOR of_int JS_TAG_NULL"
| "map_hash_key Undefined_Val = 0 XOR of_int JS_TAG_UNDEFINED"

fun map_normalize_key :: "jsval \<Rightarrow> jsval" where
  "map_normalize_key (Float64_Val d) = (if f64_is_zero d then Int_Val 0 else Float64_Val d)"
| "map_normalize_key key = key"

section \<open>Equal keys have equal hashes\<close>

text \<open>
  The keys for which this holds: BigInts are compact, so that one limb is a short one, and no text is
  a rope. A zero is normalized to the integer.
\<close>

fun key_ok :: "jsval \<Rightarrow> bool" where
  "key_ok (Big_Int a) \<longleftrightarrow> bigint_wf a \<and> 1 < length a"
| "key_ok (Float64_Val d) \<longleftrightarrow> \<not> f64_is_zero d"
| "key_ok (String_Rope r) \<longleftrightarrow> False"
| "key_ok v \<longleftrightarrow> True"

lemma ucast_u8_units: "(ucast (ucast (c :: u8) :: u16) :: u32) = ucast c"
  by (rule bit_word_eqI) (auto simp: bit_simps dest: bit_imp_le_length)

lemma hash_string8_16: "hash_string8 bs h = hash_string16 (map ucast bs) h"
  by (induction bs arbitrary: h) (simp_all add: ucast_u8_units)

lemma hash_string_units: "hash_string s h = hash_string16 (units s) h"
  by (cases s) (simp_all add: hash_string8_16)

lemma f64_of_int32_zero: "f64_is_zero (f64_of_int32 i) \<Longrightarrow> i = 0"
proof -
  assume "f64_is_zero (f64_of_int32 i)"
  then have "sint i = 0" using f64_of_int32_val [of i] by (auto simp: f64_is_zero_def f64_scaled_def split: if_splits)
  then show "i = 0" by (metis signed_0 signed_word_eqI)
qed

lemma f64_of_int32_not_nan: "\<not> f64_is_nan (f64_of_int32 i)"
  using f64_of_int32_val [of i] by (simp add: f64_is_nan_def)

text \<open>Two numbers that are equal and not both zero have the same bits, or are both NaN.\<close>

lemma number_test_bits:
  "number_test d1 d2 \<Longrightarrow> (f64_is_nan d1 \<longleftrightarrow> f64_is_nan d2) \<and> (f64_is_nan d1 \<or> d1 = d2 \<or> f64_is_zero d1 \<and> f64_is_zero d2)"
  by (auto simp: number_test_def f64_eq_def split: if_splits)

lemma hash_numbers:
  "number_test (f64_of_int32 i) (f64_of_int32 j) \<Longrightarrow> hash_float64 (f64_of_int32 i) = hash_float64 (f64_of_int32 j)"
  "number_test (f64_of_int32 i) d \<Longrightarrow> \<not> f64_is_zero d \<Longrightarrow> \<not> f64_is_nan d \<and> f64_of_int32 i = d"
  "number_test d (f64_of_int32 i) \<Longrightarrow> \<not> f64_is_zero d \<Longrightarrow> \<not> f64_is_nan d \<and> f64_of_int32 i = d"
  using number_test_bits f64_of_int32_not_nan f64_of_int32_zero by metis+

lemma bigint_cmp_eq: "bigint_wf a \<Longrightarrow> bigint_wf b \<Longrightarrow> js_bigint_cmp a b = 0 \<Longrightarrow> a = b"
  using js_bigint_cmp_val [of a b] bval_inj [of a b] by (simp add: sgn_eq_0_iff)

lemma bigint_wf_si: "bigint_wf (js_bigint_set_si i)" "length (js_bigint_set_si i) = 1"
  by (simp_all add: js_bigint_set_si_def bigint_wf_def)

lemma bigint_si_cmp:
  "js_bigint_cmp (js_bigint_set_si i) (js_bigint_set_si j) = 0 \<Longrightarrow> i = j"
  "bigint_wf a \<Longrightarrow> 1 < length a \<Longrightarrow> js_bigint_cmp (js_bigint_set_si i) a \<noteq> 0 \<and> js_bigint_cmp a (js_bigint_set_si i) \<noteq> 0"
proof -
  show "js_bigint_cmp (js_bigint_set_si i) (js_bigint_set_si j) = 0 \<Longrightarrow> i = j"
    using bigint_cmp_eq [OF bigint_wf_si(1) bigint_wf_si(1), of i j] by (simp add: js_bigint_set_si_def)
  show "bigint_wf a \<Longrightarrow> 1 < length a \<Longrightarrow> js_bigint_cmp (js_bigint_set_si i) a \<noteq> 0 \<and> js_bigint_cmp a (js_bigint_set_si i) \<noteq> 0"
    using bigint_cmp_eq [OF bigint_wf_si(1), of a i] bigint_cmp_eq [OF _ bigint_wf_si(1), of a i] bigint_wf_si(2) [of i]
    by (metis less_irrefl)
qed

lemma same_value_hash:
  assumes "key_ok k" and "key_ok k'" and "js_same_value_zero k k'"
  shows "map_hash_key k = map_hash_key k'"
proof (cases k)
  case (String_Val s)
  then show ?thesis using assms by (auto simp: js_string_eq_units hash_string_units split: jsval.splits)
next
  case (Int_Val i)
  then show ?thesis using assms hash_numbers(1) hash_numbers(2) [of i] by (auto split: jsval.splits)
next
  case (Float64_Val d)
  have "hash_float64 (if f64_is_nan d then 0x7ff8000000000000 else d) = hash_float64 (if f64_is_nan e then 0x7ff8000000000000 else e)"
    if "number_test d e" "\<not> f64_is_zero d" for e
    using number_test_bits [OF that(1)] that(2) by auto
  then show ?thesis using Float64_Val assms hash_numbers(3) [of d] by (auto split: jsval.splits)
next
  case (Short_Big_Int i)
  then show ?thesis using assms bigint_si_cmp by (auto split: jsval.splits)
next
  case (Big_Int a)
  have "a = b" if "k' = Big_Int b" for b using that Big_Int assms bigint_cmp_eq [of a b] by simp
  then show ?thesis using assms Big_Int bigint_si_cmp(2) by (auto split: jsval.splits)
qed (use assms in \<open>auto split: jsval.splits\<close>)

end
