(* ===== verification/Js_Map.thy ===== *)
theory Js_Map
  imports Js_Value
begin

text \<open>
  \<open>Map\<close> and \<open>Set\<close> of \<open>src/qjs/quickjs.c\<close>: a hash table over records that are also on a list in the order of
  insertion, and iterators that hold the record they returned last. A deleted record that an iterator
  holds stays on the list, empty. A record is named by the number of its insertion; a list of the code is the
  list of the records on it. The counts on the values and keys are those of \<open>Gc\<close> and left out here, and so are
  the weak variants. The counters of 32 bits are numbers modulo \<open>2 ^ 32\<close>. The object of an iterator and the array
  of a pair are the collector's: making one may fail, but its blocks are not counted here.
\<close>

section \<open>The state\<close>

record map_record =
  mr_ref_count :: int
  mr_empty :: bool
  mr_key :: jsval
  mr_value :: jsval

text \<open>\<open>recs\<close>: the records that are allocated; \<open>next_rec\<close>: the number of the next one.\<close>

record map_state =
  recs :: "nat \<Rightarrow> map_record option"
  next_rec :: nat
  records :: "nat list"
  record_count :: nat
  hash_table :: "nat list list"
  hash_size :: nat
  record_count_threshold :: nat

definition rec_of :: "map_state \<Rightarrow> nat \<Rightarrow> map_record" where
  "rec_of s r = the (recs s r)"

text \<open>The map of a constructor without an argument; the state and the table are two blocks.\<close>

definition map_init :: map_state where
  "map_init = \<lparr>recs = \<lambda>_. None, next_rec = 0, records = [], record_count = 0, hash_table = [[]], hash_size = 1,
     record_count_threshold = 4\<rparr>"

definition js_map_constructor :: "map_state alloc" where
  "js_map_constructor = bind_m js_malloc (\<lambda>_. guard_m js_malloc js_free (\<lambda>_. return_m map_init))"

section \<open>Records\<close>

definition hash_slot :: "jsval \<Rightarrow> nat \<Rightarrow> nat" where
  "hash_slot key n = unat (map_hash_key key AND (of_nat n - 1))"

definition map_find_record :: "map_state \<Rightarrow> jsval \<Rightarrow> nat option" where
  "map_find_record s key =
     List.find (\<lambda>r. js_same_value_zero (mr_key (rec_of s r)) key) (hash_table s ! hash_slot key (hash_size s))"

fun rehash :: "map_state \<Rightarrow> nat \<Rightarrow> nat list \<Rightarrow> nat list list \<Rightarrow> nat list list" where
  "rehash s n [] t = t"
| "rehash s n (r # rs) t =
     (if mr_empty (rec_of s r) then rehash s n rs t
      else let h = hash_slot (mr_key (rec_of s r)) n in rehash s n rs (t[h := t ! h @ [r]]))"

text \<open>A failure is not reported; the table stays as it is. The size is doubled at its width: once it gets to zero, the
  reallocation releases the table and the state keeps a dangling pointer, which is the empty table here.\<close>

definition map_hash_resize :: "map_state \<Rightarrow> mem \<Rightarrow> map_state \<times> mem" where
  "map_hash_resize s m =
     (let new_hash_size = (if hash_size s = 1 then 4 else hash_size s * 2 mod 2 ^ 32)
      in if new_hash_size = 0 then (s\<lparr>hash_table := []\<rparr>, snd (js_free m))
      else case js_realloc m of
           (Inl e, m) \<Rightarrow> (s, m)
         | (Inr u, m) \<Rightarrow>
             (s\<lparr>hash_table := rehash s new_hash_size (records s) (replicate new_hash_size []),
                hash_size := new_hash_size, record_count_threshold := new_hash_size * 2 mod 2 ^ 32\<rparr>, m))"

text \<open>The value of the new record is set by the callers before anything else.\<close>

definition map_add_record :: "map_state \<Rightarrow> jsval \<Rightarrow> mem \<Rightarrow> nat option \<times> map_state \<times> mem" where
  "map_add_record s key m =
     (case js_malloc m of
        (Inl e, m) \<Rightarrow> (None, s, m)
      | (Inr u, m) \<Rightarrow>
          (let r = next_rec s; h = hash_slot key (hash_size s);
               s = s\<lparr>recs := (recs s)(r \<mapsto> \<lparr>mr_ref_count = 1, mr_empty = False, mr_key = key, mr_value = Undefined_Val\<rparr>),
                     next_rec := r + 1, hash_table := (hash_table s)[h := hash_table s ! h @ [r]],
                     records := records s @ [r], record_count := (record_count s + 1) mod 2 ^ 32\<rparr>;
               (s, m) = (if record_count s \<ge> record_count_threshold s then map_hash_resize s m else (s, m))
           in (Some r, s, m)))"

definition map_delete_record :: "map_state \<Rightarrow> nat \<Rightarrow> mem \<Rightarrow> map_state \<times> mem" where
  "map_delete_record s r m =
     (let mr = rec_of s r
      in if mr_empty mr then (s, m)
         else let s = s\<lparr>hash_table := map (remove1 r) (hash_table s), record_count := (record_count s + (2 ^ 32 - 1)) mod 2 ^ 32\<rparr>
              in if mr_ref_count mr - 1 = 0
                 then (s\<lparr>records := remove1 r (records s), recs := (recs s)(r := None)\<rparr>, snd (js_free m))
                 else (s\<lparr>recs := (recs s)(r \<mapsto> \<lparr>mr_ref_count = mr_ref_count mr - 1, mr_empty = True,
                          mr_key = Undefined_Val, mr_value = Undefined_Val\<rparr>)\<rparr>, m))"

text \<open>\<open>None\<close>: the assertion fails.\<close>

definition map_decref_record :: "map_state \<Rightarrow> nat \<Rightarrow> mem \<Rightarrow> (map_state \<times> mem) option" where
  "map_decref_record s r m =
     (let mr = rec_of s r; n = mr_ref_count mr - 1
      in if n = 0
         then (if mr_empty mr
               then Some (s\<lparr>records := remove1 r (records s), recs := (recs s)(r := None)\<rparr>, snd (js_free m)) else None)
         else Some (s\<lparr>recs := (recs s)(r \<mapsto> mr\<lparr>mr_ref_count := n\<rparr>)\<rparr>, m))"

definition set_value :: "map_state \<Rightarrow> nat \<Rightarrow> jsval \<Rightarrow> map_state" where
  "set_value s r v = s\<lparr>recs := (recs s)(r \<mapsto> (rec_of s r)\<lparr>mr_value := v\<rparr>)\<rparr>"

section \<open>The methods\<close>

text \<open>\<open>is_set\<close> is the bit \<open>MAGIC_SET\<close>. The outcome \<open>False\<close> is the exception for lack of memory.\<close>

definition js_map_set :: "bool \<Rightarrow> map_state \<Rightarrow> jsval \<Rightarrow> jsval \<Rightarrow> mem \<Rightarrow> bool \<times> map_state \<times> mem" where
  "js_map_set is_set s key arg m =
     (let key = map_normalize_key key; v = (if is_set then Undefined_Val else arg)
      in case map_find_record s key of
           Some r \<Rightarrow> (True, set_value s r v, m)
         | None \<Rightarrow>
             (case map_add_record s key m of
                (None, s, m) \<Rightarrow> (False, s, m)
              | (Some r, s, m) \<Rightarrow> (True, set_value s r v, m)))"

definition js_map_get :: "map_state \<Rightarrow> jsval \<Rightarrow> jsval" where
  "js_map_get s key =
     (case map_find_record s (map_normalize_key key) of
        None \<Rightarrow> Undefined_Val | Some r \<Rightarrow> mr_value (rec_of s r))"

text \<open>\<open>getOrInsert\<close>; the variant that calls a function is not modelled.\<close>

definition js_map_getOrInsert :: "map_state \<Rightarrow> jsval \<Rightarrow> jsval \<Rightarrow> mem \<Rightarrow> jsval option \<times> map_state \<times> mem" where
  "js_map_getOrInsert s key arg m =
     (let key = map_normalize_key key
      in case map_find_record s key of
           Some r \<Rightarrow> (Some (mr_value (rec_of s r)), s, m)
         | None \<Rightarrow>
             (case map_add_record s key m of
                (None, s, m) \<Rightarrow> (None, s, m)
              | (Some r, s, m) \<Rightarrow> (Some arg, set_value s r arg, m)))"

definition js_map_has :: "map_state \<Rightarrow> jsval \<Rightarrow> bool" where
  "js_map_has s key \<longleftrightarrow> map_find_record s (map_normalize_key key) \<noteq> None"

definition js_map_delete :: "map_state \<Rightarrow> jsval \<Rightarrow> mem \<Rightarrow> bool \<times> map_state \<times> mem" where
  "js_map_delete s key m =
     (case map_find_record s (map_normalize_key key) of
        None \<Rightarrow> (False, s, m) | Some r \<Rightarrow> (True, map_delete_record s r m))"

text \<open>The traversal holds the record after the one that is deleted.\<close>

fun clear_loop :: "map_state \<Rightarrow> nat list \<Rightarrow> mem \<Rightarrow> map_state \<times> mem" where
  "clear_loop s [] m = (s, m)"
| "clear_loop s (r # rs) m = (case map_delete_record s r m of (s, m) \<Rightarrow> clear_loop s rs m)"

definition js_map_clear :: "map_state \<Rightarrow> mem \<Rightarrow> map_state \<times> mem" where
  "js_map_clear s m = clear_loop s (records s) m"

definition js_map_get_size :: "map_state \<Rightarrow> nat" where
  "js_map_get_size s = record_count s"

section \<open>Iterators\<close>

datatype iterator_kind = JS_ITERATOR_KIND_KEY | JS_ITERATOR_KIND_VALUE | JS_ITERATOR_KIND_KEY_AND_VALUE

text \<open>\<open>it_obj\<close>: whether the iterator still refers to its map.\<close>

record map_iterator =
  it_obj :: bool
  it_kind :: iterator_kind
  cur_record :: "nat option"

text \<open>A new object of the collector, and an array with elements.\<close>

definition js_new_object :: "unit alloc" where
  "js_new_object = js_realloc"

definition js_create_array :: "unit alloc" where
  "js_create_array = then_m js_new_object js_realloc"

definition js_create_map_iterator :: "iterator_kind \<Rightarrow> map_iterator alloc" where
  "js_create_map_iterator kind =
     then_m js_new_object (bind_m js_malloc (\<lambda>_. return_m \<lparr>it_obj = True, it_kind = kind, cur_record = None\<rparr>))"

datatype map_result =
    Res_Undefined | Res_Value jsval | Res_Pair jsval jsval | Res_Bool bool | Res_Size nat | Res_Done | Res_Failed

text \<open>The value of a step: \<open>magic\<close> is set for \<open>Set\<close>, and the array of a pair is the pair. Making the array may fail.\<close>

definition iterator_value :: "bool \<Rightarrow> iterator_kind \<Rightarrow> jsval \<Rightarrow> jsval \<Rightarrow> map_result" where
  "iterator_value magic kind k v =
     (case kind of
        JS_ITERATOR_KIND_KEY \<Rightarrow> Res_Value k
      | JS_ITERATOR_KIND_VALUE \<Rightarrow> Res_Value (if magic then k else v)
      | JS_ITERATOR_KIND_KEY_AND_VALUE \<Rightarrow> Res_Pair k (if magic then k else v))"

definition iterator_result :: "bool \<Rightarrow> iterator_kind \<Rightarrow> jsval \<Rightarrow> jsval \<Rightarrow> mem \<Rightarrow> map_result \<times> mem" where
  "iterator_result magic kind k v m =
     (if kind = JS_ITERATOR_KIND_KEY_AND_VALUE
      then (case js_create_array m of (Inl e, m) \<Rightarrow> (Res_Failed, m) | (Inr u, m) \<Rightarrow> (iterator_value magic kind k v, m))
      else (iterator_value magic kind k v, m))"

text \<open>The records behind \<open>r\<close> on the list.\<close>

definition list_after :: "nat \<Rightarrow> nat list \<Rightarrow> nat list" where
  "list_after r rs = tl (dropWhile (\<lambda>x. x \<noteq> r) rs)"

text \<open>The record is held before the value is made, and stays so when this fails. \<open>None\<close>: an assertion fails or the
  count of a record overflows.\<close>

definition js_map_iterator_next :: "bool \<Rightarrow> map_iterator \<Rightarrow> map_state \<Rightarrow> mem \<Rightarrow>
    (map_result \<times> map_iterator \<times> map_state \<times> mem) option" where
  "js_map_iterator_next magic it s m =
     (if \<not> it_obj it then Some (Res_Done, it, s, m)
      else let els = (case cur_record it of None \<Rightarrow> records s | Some r \<Rightarrow> list_after r (records s))
           in (case (case cur_record it of None \<Rightarrow> Some (s, m) | Some r \<Rightarrow> map_decref_record s r m) of
                 None \<Rightarrow> None
               | Some (s, m) \<Rightarrow>
                   (case dropWhile (\<lambda>r. mr_empty (rec_of s r)) els of
                      [] \<Rightarrow> Some (Res_Done, it\<lparr>cur_record := None, it_obj := False\<rparr>, s, m)
                    | r # rs \<Rightarrow>
                        (let mr = rec_of s r
                         in if mr_ref_count mr = int INT_MAX then None
                            else case iterator_result magic (it_kind it) (mr_key mr) (mr_value mr) m of
                              (res, m) \<Rightarrow> Some (res, it\<lparr>cur_record := Some r\<rparr>,
                                s\<lparr>recs := (recs s)(r \<mapsto> mr\<lparr>mr_ref_count := mr_ref_count mr + 1\<rparr>)\<rparr>, m)))))"

text \<open>The finalizer of an iterator whose map is alive.\<close>

definition js_map_iterator_finalizer :: "map_iterator \<Rightarrow> map_state \<Rightarrow> mem \<Rightarrow> (map_state \<times> mem) option" where
  "js_map_iterator_finalizer it s m =
     (case (case cur_record it of None \<Rightarrow> Some (s, m) | Some r \<Rightarrow> map_decref_record s r m) of
        None \<Rightarrow> None | Some (s, m) \<Rightarrow> Some (s, snd (js_free m)))"

text \<open>The finalizer of a map, which no iterator uses any more: the records, the table and the state are released.\<close>

fun free_records :: "nat list \<Rightarrow> mem \<Rightarrow> mem" where
  "free_records [] m = m"
| "free_records (r # rs) m = free_records rs (snd (js_free m))"

definition js_map_finalizer :: "map_state \<Rightarrow> mem \<Rightarrow> mem" where
  "js_map_finalizer s m = snd (js_free (snd (js_free (free_records (records s) m))))"

section \<open>A map with its iterators\<close>

text \<open>A script calls the methods of one map and the iterators it made, of which \<open>None\<close> are gone.\<close>

record map_sys =
  the_map :: map_state
  iters :: "map_iterator option list"

datatype map_op =
    Op_Set jsval jsval | Op_Get jsval | Op_Get_Or_Insert jsval jsval | Op_Has jsval | Op_Delete jsval | Op_Clear
  | Op_Size | Op_Iterator iterator_kind | Op_Next nat | Op_Finalize nat

definition iter_at :: "'a option list \<Rightarrow> nat \<Rightarrow> 'a option" where
  "iter_at its i = (if i < length its then its ! i else None)"

text \<open>A call on an iterator that is not there does nothing.\<close>

fun map_call :: "bool \<Rightarrow> map_op \<Rightarrow> map_sys \<Rightarrow> mem \<Rightarrow> (map_result \<times> map_sys \<times> mem) option" where
  "map_call is_set (Op_Set k v) sys m =
     (case js_map_set is_set (the_map sys) k v m of
        (ok, s, m) \<Rightarrow> Some (if ok then Res_Undefined else Res_Failed, sys\<lparr>the_map := s\<rparr>, m))"
| "map_call is_set (Op_Get k) sys m = Some (Res_Value (js_map_get (the_map sys) k), sys, m)"
| "map_call is_set (Op_Get_Or_Insert k v) sys m =
     (case js_map_getOrInsert (the_map sys) k v m of
        (r, s, m) \<Rightarrow> Some (case r of None \<Rightarrow> Res_Failed | Some x \<Rightarrow> Res_Value x, sys\<lparr>the_map := s\<rparr>, m))"
| "map_call is_set (Op_Has k) sys m = Some (Res_Bool (js_map_has (the_map sys) k), sys, m)"
| "map_call is_set (Op_Delete k) sys m =
     (case js_map_delete (the_map sys) k m of (b, s, m) \<Rightarrow> Some (Res_Bool b, sys\<lparr>the_map := s\<rparr>, m))"
| "map_call is_set Op_Clear sys m =
     (case js_map_clear (the_map sys) m of (s, m) \<Rightarrow> Some (Res_Undefined, sys\<lparr>the_map := s\<rparr>, m))"
| "map_call is_set Op_Size sys m = Some (Res_Size (js_map_get_size (the_map sys)), sys, m)"
| "map_call is_set (Op_Iterator kind) sys m =
     (case js_create_map_iterator kind m of
        (Inl e, m) \<Rightarrow> Some (Res_Failed, sys, m)
      | (Inr it, m) \<Rightarrow> Some (Res_Undefined, sys\<lparr>iters := iters sys @ [Some it]\<rparr>, m))"
| "map_call is_set (Op_Next i) sys m =
     (case iter_at (iters sys) i of
        None \<Rightarrow> Some (Res_Undefined, sys, m)
      | Some it \<Rightarrow>
          (case js_map_iterator_next is_set it (the_map sys) m of
             None \<Rightarrow> None
           | Some (r, it, s, m) \<Rightarrow> Some (r, sys\<lparr>the_map := s, iters := (iters sys)[i := Some it]\<rparr>, m)))"
| "map_call is_set (Op_Finalize i) sys m =
     (case iter_at (iters sys) i of
        None \<Rightarrow> Some (Res_Undefined, sys, m)
      | Some it \<Rightarrow>
          (case js_map_iterator_finalizer it (the_map sys) m of
             None \<Rightarrow> None
           | Some (s, m) \<Rightarrow> Some (Res_Undefined, sys\<lparr>the_map := s, iters := (iters sys)[i := None]\<rparr>, m)))"

text \<open>Methods that use the table; with a dangling pointer to it they are undefined.\<close>

fun uses_table :: "map_op \<Rightarrow> bool" where
  "uses_table Op_Size \<longleftrightarrow> False"
| "uses_table (Op_Iterator kind) \<longleftrightarrow> False"
| "uses_table (Op_Next i) \<longleftrightarrow> False"
| "uses_table (Op_Finalize i) \<longleftrightarrow> False"
| "uses_table op \<longleftrightarrow> True"

definition map_exec :: "bool \<Rightarrow> map_op \<Rightarrow> map_sys \<Rightarrow> mem \<Rightarrow> (map_result \<times> map_sys \<times> mem) option" where
  "map_exec is_set op sys m =
     (if uses_table op \<and> hash_table (the_map sys) = [] then None else map_call is_set op sys m)"

fun map_run :: "bool \<Rightarrow> map_op list \<Rightarrow> map_sys \<Rightarrow> mem \<Rightarrow> (map_result list \<times> map_sys \<times> mem) option" where
  "map_run is_set [] sys m = Some ([], sys, m)"
| "map_run is_set (op # ops) sys m =
     (case map_exec is_set op sys m of
        None \<Rightarrow> None
      | Some (r, sys, m) \<Rightarrow>
          (case map_run is_set ops sys m of None \<Rightarrow> None | Some (rs, sys, m) \<Rightarrow> Some (r # rs, sys, m)))"

end
