(* ===== verification/Js_Map_Spec.thy ===== *)
theory Js_Map_Spec
  imports Js_Map
begin

text \<open>
  What \<open>Map\<close> and \<open>Set\<close> promise a script, in the terms of the language specification: the list of all entries
  ever inserted, with deleted ones marked, and iterators that are positions in this list. The tables of
  \<open>Js_Map\<close> refine it.
\<close>

section \<open>The specification\<close>

record spec_iter =
  sp_live :: bool
  sp_kind :: iterator_kind
  sp_index :: nat

record spec_sys =
  map_data :: "(jsval \<times> jsval) option list"
  spec_iters :: "spec_iter option list"

definition spec_find :: "(jsval \<times> jsval) option list \<Rightarrow> jsval \<Rightarrow> nat option" where
  "spec_find d key =
     List.find (\<lambda>i. case d ! i of None \<Rightarrow> False | Some (k, v) \<Rightarrow> js_same_value_zero k key) [0..<length d]"

definition spec_get :: "(jsval \<times> jsval) option list \<Rightarrow> nat \<Rightarrow> jsval \<times> jsval" where
  "spec_get d i = the (d ! i)"

definition spec_put :: "(jsval \<times> jsval) option list \<Rightarrow> jsval \<Rightarrow> jsval \<Rightarrow> (jsval \<times> jsval) option list" where
  "spec_put d key v =
     (case spec_find d key of
        None \<Rightarrow> d @ [Some (key, v)] | Some i \<Rightarrow> d[i := Some (fst (spec_get d i), v)])"

text \<open>The positions from \<open>i\<close> on that have an entry.\<close>

definition entries_from :: "(jsval \<times> jsval) option list \<Rightarrow> nat \<Rightarrow> nat list" where
  "entries_from d i = filter (\<lambda>j. d ! j \<noteq> None) [i..<length d]"

definition spec_next :: "bool \<Rightarrow> spec_iter \<Rightarrow> (jsval \<times> jsval) option list \<Rightarrow> map_result \<times> spec_iter" where
  "spec_next is_set it d =
     (if \<not> sp_live it then (Res_Done, it)
      else case entries_from d (sp_index it) of
             [] \<Rightarrow> (Res_Done, it\<lparr>sp_live := False, sp_index := 0\<rparr>)
           | j # js \<Rightarrow> (iterator_value is_set (sp_kind it) (fst (spec_get d j)) (snd (spec_get d j)), it\<lparr>sp_index := j + 1\<rparr>))"

fun spec_exec :: "bool \<Rightarrow> map_op \<Rightarrow> spec_sys \<Rightarrow> map_result \<times> spec_sys" where
  "spec_exec is_set (Op_Set k v) sp =
     (Res_Undefined, sp\<lparr>map_data := spec_put (map_data sp) (map_normalize_key k) (if is_set then Undefined_Val else v)\<rparr>)"
| "spec_exec is_set (Op_Get k) sp =
     (Res_Value (case spec_find (map_data sp) (map_normalize_key k) of
        None \<Rightarrow> Undefined_Val | Some i \<Rightarrow> snd (spec_get (map_data sp) i)), sp)"
| "spec_exec is_set (Op_Get_Or_Insert k v) sp =
     (case spec_find (map_data sp) (map_normalize_key k) of
        None \<Rightarrow> (Res_Value v, sp\<lparr>map_data := spec_put (map_data sp) (map_normalize_key k) v\<rparr>)
      | Some i \<Rightarrow> (Res_Value (snd (spec_get (map_data sp) i)), sp))"
| "spec_exec is_set (Op_Has k) sp = (Res_Bool (spec_find (map_data sp) (map_normalize_key k) \<noteq> None), sp)"
| "spec_exec is_set (Op_Delete k) sp =
     (case spec_find (map_data sp) (map_normalize_key k) of
        None \<Rightarrow> (Res_Bool False, sp)
      | Some i \<Rightarrow> (Res_Bool True, sp\<lparr>map_data := (map_data sp)[i := None]\<rparr>))"
| "spec_exec is_set Op_Clear sp = (Res_Undefined, sp\<lparr>map_data := map (\<lambda>_. None) (map_data sp)\<rparr>)"
| "spec_exec is_set Op_Size sp = (Res_Size (length (entries_from (map_data sp) 0)), sp)"
| "spec_exec is_set (Op_Iterator kind) sp =
     (Res_Undefined, sp\<lparr>spec_iters := spec_iters sp @ [Some \<lparr>sp_live = True, sp_kind = kind, sp_index = 0\<rparr>]\<rparr>)"
| "spec_exec is_set (Op_Next i) sp =
     (case iter_at (spec_iters sp) i of
        None \<Rightarrow> (Res_Undefined, sp)
      | Some it \<Rightarrow> (case spec_next is_set it (map_data sp) of
          (r, it) \<Rightarrow> (r, sp\<lparr>spec_iters := (spec_iters sp)[i := Some it]\<rparr>)))"
| "spec_exec is_set (Op_Finalize i) sp =
     (case iter_at (spec_iters sp) i of
        None \<Rightarrow> (Res_Undefined, sp) | Some it \<Rightarrow> (Res_Undefined, sp\<lparr>spec_iters := (spec_iters sp)[i := None]\<rparr>))"

text \<open>
  The calls that may fail for lack of memory, and what they leave: an insertion changes nothing and no iterator is made;
  an iterator that cannot make the array for a pair has moved past the entry.
\<close>

fun spec_fail :: "bool \<Rightarrow> map_op \<Rightarrow> spec_sys \<Rightarrow> spec_sys option" where
  "spec_fail is_set (Op_Set k v) sp = (if spec_find (map_data sp) (map_normalize_key k) = None then Some sp else None)"
| "spec_fail is_set (Op_Get_Or_Insert k v) sp = (if spec_find (map_data sp) (map_normalize_key k) = None then Some sp else None)"
| "spec_fail is_set (Op_Iterator kind) sp = Some sp"
| "spec_fail is_set (Op_Next i) sp = (case spec_exec is_set (Op_Next i) sp of (Res_Pair k v, sp) \<Rightarrow> Some sp | _ \<Rightarrow> None)"
| "spec_fail is_set op sp = None"

fun spec_run :: "bool \<Rightarrow> (map_op \<times> bool) list \<Rightarrow> spec_sys \<Rightarrow> (map_result list \<times> spec_sys) option" where
  "spec_run is_set [] sp = Some ([], sp)"
| "spec_run is_set ((op, failed) # ops) sp =
     (case (if failed then map_option (\<lambda>sp. (Res_Failed, sp)) (spec_fail is_set op sp) else Some (spec_exec is_set op sp)) of
        None \<Rightarrow> None
      | Some (r, sp) \<Rightarrow> (case spec_run is_set ops sp of None \<Rightarrow> None | Some (rs, sp) \<Rightarrow> Some (r # rs, sp)))"

section \<open>The abstraction\<close>

definition entry :: "map_state \<Rightarrow> nat \<Rightarrow> (jsval \<times> jsval) option" where
  "entry s r = (case recs s r of None \<Rightarrow> None | Some mr \<Rightarrow> if mr_empty mr then None else Some (mr_key mr, mr_value mr))"

definition abs_data :: "map_state \<Rightarrow> (jsval \<times> jsval) option list" where
  "abs_data s = map (entry s) [0..<next_rec s]"

definition abs_iter :: "map_iterator \<Rightarrow> spec_iter" where
  "abs_iter it = \<lparr>sp_live = it_obj it, sp_kind = it_kind it,
     sp_index = (case cur_record it of None \<Rightarrow> 0 | Some r \<Rightarrow> r + 1)\<rparr>"

definition abs_sys :: "map_sys \<Rightarrow> spec_sys" where
  "abs_sys sys = \<lparr>map_data = abs_data (the_map sys), spec_iters = map (map_option abs_iter) (iters sys)\<rparr>"

section \<open>The invariant\<close>

definition in_slot :: "(nat \<Rightarrow> (jsval \<times> jsval) option) \<Rightarrow> nat \<Rightarrow> nat \<Rightarrow> nat \<Rightarrow> bool" where
  "in_slot e n h r \<longleftrightarrow> (case e r of None \<Rightarrow> False | Some (k, v) \<Rightarrow> hash_slot k n = h)"

text \<open>The numbers that keep the counters from wrapping round.\<close>

definition sizes_ok :: "nat \<Rightarrow> nat \<Rightarrow> nat \<Rightarrow> bool" where
  "sizes_ok n hs threshold \<longleftrightarrow> n < 2 ^ 31 \<and> hs < 2 ^ 31 \<and> threshold = (if hs = 1 then 4 else 2 * hs)"

text \<open>\<open>held r\<close> is the number of the iterators that hold \<open>r\<close>.\<close>

definition map_ok :: "map_state \<Rightarrow> (nat \<Rightarrow> nat) \<Rightarrow> bool" where
  "map_ok s held \<longleftrightarrow>
     records s = filter (\<lambda>r. recs s r \<noteq> None) [0..<next_rec s] \<and>
     (\<forall>r. recs s r \<noteq> None \<longrightarrow> r < next_rec s) \<and>
     (\<forall>r. 0 < held r \<longrightarrow> recs s r \<noteq> None) \<and>
     (\<forall>r mr. recs s r = Some mr \<longrightarrow>
        mr_ref_count mr = of_bool (\<not> mr_empty mr) + int (held r) \<and> 0 < mr_ref_count mr \<and>
        (\<not> mr_empty mr \<longrightarrow> key_ok (mr_key mr))) \<and>
     (\<exists>k. hash_size s = 2 ^ k) \<and>
     hash_table s = map (\<lambda>h. filter (in_slot (entry s) (hash_size s) h) [0..<next_rec s]) [0..<hash_size s] \<and>
     record_count s = length (filter (\<lambda>r. entry s r \<noteq> None) [0..<next_rec s]) \<and>
     sizes_ok (next_rec s) (hash_size s) (record_count_threshold s)"

lemma hash_slot_less: "hash_slot key (2 ^ k) < 2 ^ k"
proof -
  have "(of_nat (2 ^ k) - 1 :: u32) = mask k" by (simp add: mask_eq_exp_minus_1)
  then have "hash_slot key (2 ^ k) = unat (map_hash_key key) mod 2 ^ k" by (simp add: hash_slot_def unat_and_mask)
  then show ?thesis by simp
qed

lemma map_init_ok: "map_ok map_init (\<lambda>_. 0)"
  by (simp add: map_ok_def map_init_def exI [of _ 0] entry_def sizes_ok_def)

lemma entry_Some: "entry s r = Some (k, v) \<longleftrightarrow> (\<exists>mr. recs s r = Some mr \<and> \<not> mr_empty mr \<and> k = mr_key mr \<and> v = mr_value mr)"
  by (auto simp: entry_def split: option.splits)

lemma find_filter: "List.find P (filter Q xs) = List.find (\<lambda>x. Q x \<and> P x) xs"
  by (induction xs) auto

text \<open>The chain of a slot has the key where the list has it: at its first position.\<close>

lemma map_find_record_spec:
  assumes ok: "map_ok s held" and key: "key_ok key"
  shows "map_find_record s key = spec_find (abs_data s) key"
proof -
  obtain k where k: "hash_size s = 2 ^ k" using ok by (auto simp: map_ok_def)
  have slot: "hash_slot key (hash_size s) < hash_size s" using hash_slot_less k by simp
  then have "hash_table s ! hash_slot key (hash_size s) =
      filter (in_slot (entry s) (hash_size s) (hash_slot key (hash_size s))) [0..<next_rec s]"
    using ok by (simp add: map_ok_def)
  moreover have "in_slot (entry s) (hash_size s) (hash_slot key (hash_size s)) r \<and> js_same_value_zero (mr_key (rec_of s r)) key \<longleftrightarrow>
      (case entry s r of None \<Rightarrow> False | Some (k, v) \<Rightarrow> js_same_value_zero k key)" for r
  proof (cases "entry s r")
    case (Some e)
    then obtain mr where mr: "recs s r = Some mr" "\<not> mr_empty mr" "e = (mr_key mr, mr_value mr)"
      by (cases e) (auto simp: entry_Some)
    have "key_ok (mr_key mr)" using ok mr by (simp add: map_ok_def)
    then have "js_same_value_zero (mr_key mr) key \<Longrightarrow> hash_slot (mr_key mr) n = hash_slot key n" for n
      using same_value_hash [OF _ key] by (simp add: hash_slot_def)
    then show ?thesis using Some mr by (auto simp: in_slot_def rec_of_def)
  qed (simp add: in_slot_def)
  ultimately have "map_find_record s key =
      List.find (\<lambda>r. case entry s r of None \<Rightarrow> False | Some (k, v) \<Rightarrow> js_same_value_zero k key) [0..<next_rec s]"
    by (simp add: map_find_record_def find_filter)
  also have "\<dots> = spec_find (abs_data s) key"
    unfolding spec_find_def abs_data_def by (simp, rule find_cong) auto
  finally show ?thesis .
qed

lemma spec_find_Some: "spec_find d key = Some i \<Longrightarrow> i < length d \<and> d ! i \<noteq> None"
  by (auto simp: spec_find_def find_Some_iff split: option.splits)

section \<open>The operations on records\<close>

lemma map_okD:
  assumes "map_ok s held"
  shows "records s = filter (\<lambda>r. recs s r \<noteq> None) [0..<next_rec s]"
    and "recs s r \<noteq> None \<Longrightarrow> r < next_rec s"
    and "0 < held r \<Longrightarrow> recs s r \<noteq> None"
    and "recs s r = Some mr \<Longrightarrow> mr_ref_count mr = of_bool (\<not> mr_empty mr) + int (held r) \<and> 0 < mr_ref_count mr"
    and "recs s r = Some mr \<Longrightarrow> \<not> mr_empty mr \<Longrightarrow> key_ok (mr_key mr)"
    and "\<exists>k. hash_size s = 2 ^ k"
    and "hash_table s = map (\<lambda>h. filter (in_slot (entry s) (hash_size s) h) [0..<next_rec s]) [0..<hash_size s]"
    and "record_count s = length (filter (\<lambda>r. entry s r \<noteq> None) [0..<next_rec s])"
    and "sizes_ok (next_rec s) (hash_size s) (record_count_threshold s)"
  using assms unfolding map_ok_def by (blast, blast, blast, blast, blast, blast, blast, blast, blast)

definition record_entry :: "map_record \<Rightarrow> (jsval \<times> jsval) option" where
  "record_entry mr = (if mr_empty mr then None else Some (mr_key mr, mr_value mr))"

lemma entry_record: "recs s r = Some mr \<Longrightarrow> entry s r = record_entry mr"
  by (simp add: entry_def record_entry_def)

text \<open>A record changes its value or its count.\<close>

lemma upd_record_ok:
  assumes ok: "map_ok s held" and r: "recs s r = Some mr" and k: "mr_empty mr' = mr_empty mr" "mr_key mr' = mr_key mr"
    and c: "mr_ref_count mr' = of_bool (\<not> mr_empty mr) + int (held' r)" "0 < mr_ref_count mr'"
    and h: "\<And>x. x \<noteq> r \<Longrightarrow> held' x = held x"
  defines "s' \<equiv> s\<lparr>recs := (recs s)(r \<mapsto> mr')\<rparr>"
  shows "map_ok s' held'" "entry s' = (entry s)(r := record_entry mr')" "next_rec s' = next_rec s" "records s' = records s"
proof -
  have rs: "recs s' = (recs s)(r \<mapsto> mr')" by (simp add: s'_def)
  show e: "entry s' = (entry s)(r := record_entry mr')"
    by (auto simp: entry_def record_entry_def rs fun_eq_iff)
  show n: "next_rec s' = next_rec s" "records s' = records s" by (simp_all add: s'_def)
  have sl: "in_slot ((entry s)(r := record_entry mr')) n h = in_slot (entry s) n h" for n h
    using k entry_record [OF r] by (auto simp: in_slot_def record_entry_def fun_eq_iff)
  have en: "((entry s)(r := record_entry mr')) x \<noteq> None \<longleftrightarrow> entry s x \<noteq> None" for x
    using k entry_record [OF r] by (simp add: record_entry_def)
  have same: "hash_size s' = hash_size s" "hash_table s' = hash_table s" "record_count s' = record_count s"
    "record_count_threshold s' = record_count_threshold s" by (simp_all add: s'_def)
  show "map_ok s' held'"
    unfolding map_ok_def e n same sl en
  proof (intro conjI allI impI)
    show "records s = filter (\<lambda>r'. recs s' r' \<noteq> None) [0..<next_rec s]"
      using map_okD(1) [OF ok] r by (simp add: rs) metis
    show "recs s' x \<noteq> None \<Longrightarrow> x < next_rec s" for x
      using map_okD(2) [OF ok] r by (auto simp: rs split: if_splits)
    show "0 < held' x \<Longrightarrow> recs s' x \<noteq> None" for x
      using map_okD(3) [OF ok, of x] h [of x] by (cases "x = r") (simp_all add: rs)
    show "mr_ref_count m' = of_bool (\<not> mr_empty m') + int (held' x)" "0 < mr_ref_count m'" if "recs s' x = Some m'" for x m'
      using that map_okD(4) [OF ok, of x] c k h [of x] by (auto simp: rs split: if_splits)
    show "key_ok (mr_key m')" if "recs s' x = Some m'" "\<not> mr_empty m'" for x m'
      using that map_okD(5) [OF ok, of x] r k by (auto simp: rs split: if_splits)
  qed (use map_okD(6-9) [OF ok] in blast)+
qed

lemma set_value_ok:
  assumes ok: "map_ok s held" and r: "entry s r = Some (k, v0)"
  shows "map_ok (set_value s r v) held" "entry (set_value s r v) = (entry s)(r := Some (k, v))"
    "next_rec (set_value s r v) = next_rec s" "records (set_value s r v) = records s"
proof -
  obtain mr where mr: "recs s r = Some mr" "\<not> mr_empty mr" "k = mr_key mr" using r by (auto simp: entry_Some)
  have s: "set_value s r v = s\<lparr>recs := (recs s)(r \<mapsto> mr\<lparr>mr_value := v\<rparr>)\<rparr>" using mr by (simp add: set_value_def rec_of_def)
  note u = upd_record_ok [OF ok mr(1), of "mr\<lparr>mr_value := v\<rparr>" held, folded s]
  show "map_ok (set_value s r v) held" "entry (set_value s r v) = (entry s)(r := Some (k, v))"
    "next_rec (set_value s r v) = next_rec s" "records (set_value s r v) = records s"
    using u map_okD(4) [OF ok mr(1)] mr by (simp_all add: record_entry_def)
qed

text \<open>A record without an entry leaves the list and is released.\<close>

lemma filter_without: "distinct xs \<Longrightarrow> remove1 r (filter P xs) = filter (\<lambda>x. P x \<and> x \<noteq> r) xs"
  by (auto simp: distinct_remove1_removeAll removeAll_filter_not_eq intro!: filter_cong)

lemma records_remove:
  assumes ok: "map_ok s held"
  shows "remove1 r (records s) = filter (\<lambda>x. ((recs s)(r := None)) x \<noteq> None) [0..<next_rec s]"
proof -
  have "remove1 r (records s) = filter (\<lambda>x. recs s x \<noteq> None \<and> x \<noteq> r) [0..<next_rec s]"
    by (subst map_okD(1) [OF ok]) (simp add: filter_without)
  then show ?thesis by (simp add: fun_upd_def) (metis (no_types))
qed

lemma records_member: "map_ok s held \<Longrightarrow> recs s r \<noteq> None \<Longrightarrow> r \<in> set (records s)"
  using map_okD(1,2) by (metis (mono_tags, lifting) atLeastLessThan_iff atLeast_upt le0 mem_Collect_eq set_filter set_upt)

lemma release_ok:
  assumes ok: "map_ok s held" and r: "recs s r = Some mr" "mr_empty mr" and h: "held r = 1"
  defines "s' \<equiv> s\<lparr>records := remove1 r (records s), recs := (recs s)(r := None)\<rparr>"
  shows "map_ok s' (held(r := 0))" "entry s' = entry s" "next_rec s' = next_rec s" "length (records s) = Suc (length (records s'))"
proof -
  have rs: "recs s' = (recs s)(r := None)" by (simp add: s'_def)
  show e: "entry s' = entry s" using r by (auto simp: entry_def rs fun_eq_iff)
  show n: "next_rec s' = next_rec s" by (simp add: s'_def)
  have "r \<in> set (records s)" by (rule records_member [OF ok]) (simp add: r)
  then show "length (records s) = Suc (length (records s'))"
    by (simp add: s'_def length_remove1) (metis Suc_pred length_pos_if_in_set)
  have same: "hash_size s' = hash_size s" "hash_table s' = hash_table s" "record_count s' = record_count s"
    "record_count_threshold s' = record_count_threshold s" by (simp_all add: s'_def)
  show "map_ok s' (held(r := 0))"
    unfolding map_ok_def e n same
  proof (intro conjI allI impI)
    show "records s' = filter (\<lambda>x. recs s' x \<noteq> None) [0..<next_rec s]" using records_remove [OF ok] by (simp add: s'_def)
    show "recs s' x \<noteq> None \<Longrightarrow> x < next_rec s" for x using map_okD(2) [OF ok] by (auto simp: rs split: if_splits)
    show "0 < (held(r := 0)) x \<Longrightarrow> recs s' x \<noteq> None" for x using map_okD(3) [OF ok, of x] by (simp add: rs split: if_splits)
    show "mr_ref_count m' = of_bool (\<not> mr_empty m') + int ((held(r := 0)) x)" "0 < mr_ref_count m'" if "recs s' x = Some m'" for x m'
      using that map_okD(4) [OF ok, of x] by (auto simp: rs split: if_splits)
    show "key_ok (mr_key m')" if "recs s' x = Some m'" "\<not> mr_empty m'" for x m'
      using that map_okD(5) [OF ok, of x] by (auto simp: rs split: if_splits)
  qed (use map_okD(6-9) [OF ok] in blast)+
qed

text \<open>An iterator gives up a record.\<close>

lemma decref_ok:
  assumes ok: "map_ok s held" and h: "0 < held r"
  shows "\<exists>s' m'. map_decref_record s r m = Some (s', m') \<and> map_ok s' (held(r := held r - 1)) \<and> entry s' = entry s \<and>
    next_rec s' = next_rec s \<and> mem_live m' - int (length (records s')) = mem_live m - int (length (records s)) \<and>
    mem_outcomes m' = mem_outcomes m"
proof -
  obtain mr where mr: "recs s r = Some mr" using map_okD(3) [OF ok h] by auto
  note c = map_okD(4) [OF ok mr]
  have ro: "rec_of s r = mr" by (simp add: rec_of_def mr)
  show ?thesis
  proof (cases "mr_ref_count mr - 1 = 0")
    case True
    then have e: "mr_empty mr" and h1: "held r = 1" using c h by (cases "mr_empty mr"; simp)+
    note rl = release_ok [OF ok mr e h1]
    have "held(r := held r - 1) = held(r := 0)" using h1 by simp
    then show ?thesis using True e rl by (simp add: map_decref_record_def ro Let_def js_free_def)
  next
    case False
    let ?mr = "mr\<lparr>mr_ref_count := mr_ref_count mr - 1\<rparr>"
    have u: "map_ok (s\<lparr>recs := (recs s)(r \<mapsto> ?mr)\<rparr>) (held(r := held r - 1))"
      "entry (s\<lparr>recs := (recs s)(r \<mapsto> ?mr)\<rparr>) = (entry s)(r := record_entry ?mr)"
      by (rule upd_record_ok [OF ok mr, where held' = "held(r := held r - 1)"]; use c h False in auto)+
    have "(entry s)(r := record_entry ?mr) = entry s" using entry_record [OF mr] by (auto simp: record_entry_def fun_eq_iff)
    then show ?thesis using False u by (simp add: map_decref_record_def ro Let_def)
  qed
qed

text \<open>An iterator takes a record.\<close>

lemma incref_ok:
  assumes ok: "map_ok s held" and mr: "recs s r = Some mr"
  defines "s' \<equiv> s\<lparr>recs := (recs s)(r \<mapsto> mr\<lparr>mr_ref_count := mr_ref_count mr + 1\<rparr>)\<rparr>"
  shows "map_ok s' (held(r := held r + 1))" "entry s' = entry s" "next_rec s' = next_rec s" "records s' = records s"
proof -
  note c = map_okD(4) [OF ok mr]
  show "map_ok s' (held(r := held r + 1))" "next_rec s' = next_rec s" "records s' = records s"
    unfolding s'_def by (rule upd_record_ok [OF ok mr, where held' = "held(r := held r + 1)"]; use c in auto)+
  have "entry s' = (entry s)(r := record_entry (mr\<lparr>mr_ref_count := mr_ref_count mr + 1\<rparr>))"
    unfolding s'_def by (rule upd_record_ok [OF ok mr, where held' = "held(r := held r + 1)"]; use c in auto)
  then show "entry s' = entry s" using entry_record [OF mr] by (auto simp: record_entry_def fun_eq_iff)
qed

text \<open>A deleted record leaves its chain, and the list too when no iterator holds it.\<close>

lemma in_slot_del: "in_slot (e(r := None)) n h x \<longleftrightarrow> in_slot e n h x \<and> x \<noteq> r"
  by (simp add: in_slot_def)

lemma delete_ok:
  assumes ok: "map_ok s held" and r: "entry s r \<noteq> None" and d: "map_delete_record s r m = (s', m')"
  shows "map_ok s' held \<and> entry s' = (entry s)(r := None) \<and> next_rec s' = next_rec s \<and>
    mem_live m' - int (length (records s')) = mem_live m - int (length (records s)) \<and> mem_outcomes m' = mem_outcomes m"
proof -
  obtain mr where mr: "recs s r = Some mr" "\<not> mr_empty mr" using r by (auto simp: entry_def split: option.splits if_splits)
  have ro: "rec_of s r = mr" by (simp add: rec_of_def mr)
  note c = map_okD(4) [OF ok mr(1)]
  have lt: "r < next_rec s" using map_okD(2) [OF ok, of r] mr by simp
  have ht: "map (remove1 r) (hash_table s) = map (\<lambda>h. filter (in_slot ((entry s)(r := None)) (hash_size s) h) [0..<next_rec s]) [0..<hash_size s]"
    by (subst map_okD(7) [OF ok]) (simp add: filter_without in_slot_del cong: filter_cong)
  have "filter (\<lambda>x. ((entry s)(r := None)) x \<noteq> None) [0..<next_rec s] = remove1 r (filter (\<lambda>x. entry s x \<noteq> None) [0..<next_rec s])"
    by (subst filter_without) (auto intro!: filter_cong)
  moreover have "r \<in> set (filter (\<lambda>x. entry s x \<noteq> None) [0..<next_rec s])" using r lt by simp
  moreover have "record_count s \<le> next_rec s" using map_okD(8) [OF ok] length_filter_le [of _ "[0..<next_rec s]"] by (metis length_upt diff_zero)
  then have "record_count s < 2 ^ 31" using map_okD(9) [OF ok] by (simp add: sizes_ok_def)
  then have "0 < record_count s \<Longrightarrow> (record_count s + (2 ^ 32 - 1)) mod 2 ^ 32 = record_count s - 1"
    by (cases "record_count s") (simp_all add: mod_if)
  ultimately have cnt: "(record_count s + (2 ^ 32 - 1)) mod 2 ^ 32 = length (filter (\<lambda>x. ((entry s)(r := None)) x \<noteq> None) [0..<next_rec s])"
    using map_okD(8) [OF ok] by (simp only: length_remove1 if_True length_pos_if_in_set)
  define zombie where "zombie = \<lparr>mr_ref_count = mr_ref_count mr - 1, mr_empty = True, mr_key = Undefined_Val, mr_value = Undefined_Val\<rparr>"
  define gone where "gone \<longleftrightarrow> mr_ref_count mr - 1 = 0"
  have rs: "recs s' = (if gone then (recs s)(r := None) else (recs s)(r \<mapsto> zombie))"
    "records s' = (if gone then remove1 r (records s) else records s)"
    "mem_live m' = (if gone then mem_live m - 1 else mem_live m)" "mem_outcomes m' = mem_outcomes m"
    "hash_table s' = map (remove1 r) (hash_table s)" "record_count s' = (record_count s + (2 ^ 32 - 1)) mod 2 ^ 32"
    "hash_size s' = hash_size s" "record_count_threshold s' = record_count_threshold s" "next_rec s' = next_rec s"
    using d mr(2) by (auto simp: map_delete_record_def ro Let_def zombie_def gone_def js_free_def split: if_splits)
  have e: "entry s' = (entry s)(r := None)" by (auto simp: entry_def rs(1) zombie_def fun_eq_iff)
  have held: "gone \<longleftrightarrow> held r = 0" using c mr(2) by (auto simp: gone_def)
  have "map_ok s' held"
    unfolding map_ok_def e rs(5-9)
  proof (intro conjI allI impI)
    show "records s' = filter (\<lambda>x. recs s' x \<noteq> None) [0..<next_rec s]"
    proof (cases gone)
      case True
      then show ?thesis using records_remove [OF ok, of r] by (simp add: rs(1,2))
    next
      case False
      then show ?thesis using map_okD(1) [OF ok] mr(1) by (simp add: rs(1,2)) metis
    qed
    show "recs s' x \<noteq> None \<Longrightarrow> x < next_rec s" for x using map_okD(2) [OF ok] lt by (auto simp: rs(1) split: if_splits)
    show "0 < held x \<Longrightarrow> recs s' x \<noteq> None" for x using map_okD(3) [OF ok, of x] held by (auto simp: rs(1))
    show "mr_ref_count m1 = of_bool (\<not> mr_empty m1) + int (held x)" "0 < mr_ref_count m1" if "recs s' x = Some m1" for x m1
      using that map_okD(4) [OF ok, of x] c mr(2) held by (auto simp: rs(1) zombie_def gone_def split: if_splits)
    show "key_ok (mr_key m1)" if "recs s' x = Some m1" "\<not> mr_empty m1" for x m1
      using that map_okD(5) [OF ok, of x] by (auto simp: rs(1) zombie_def split: if_splits)
  qed (use map_okD(6,9) [OF ok] ht cnt in blast)+
  moreover have "r \<in> set (records s)" by (rule records_member [OF ok]) (simp add: mr)
  then have "length (records s) = Suc (length (remove1 r (records s)))"
    by (simp add: length_remove1) (metis Suc_pred length_pos_if_in_set)
  then have "mem_live m' - int (length (records s')) = mem_live m - int (length (records s))" by (simp add: rs)
  ultimately show ?thesis using e rs(4,9) by blast
qed

section \<open>The hash table\<close>

lemma rehash_slots:
  assumes "length t = 2 ^ k"
  shows "rehash s (2 ^ k) rs t = map (\<lambda>h. t ! h @ filter (\<lambda>r. \<not> mr_empty (rec_of s r) \<and> hash_slot (mr_key (rec_of s r)) (2 ^ k) = h) rs) [0..<2 ^ k]"
  using assms
proof (induction rs arbitrary: t)
  case Nil
  then show ?case by (simp add: list_eq_iff_nth_eq)
next
  case (Cons r rs)
  show ?case
  proof (cases "mr_empty (rec_of s r)")
    case True
    then show ?thesis using Cons by simp
  next
    case False
    define h where "h = hash_slot (mr_key (rec_of s r)) (2 ^ k)"
    have "h < length t" using hash_slot_less Cons.prems by (simp add: h_def)
    then show ?thesis using False Cons.IH [of "t[h := t ! h @ [r]]"] Cons.prems
      by (auto simp: h_def [symmetric] Let_def nth_list_update)
  qed
qed

lemma in_slot_rec: "recs s r \<noteq> None \<Longrightarrow> in_slot (entry s) n h r \<longleftrightarrow> \<not> mr_empty (rec_of s r) \<and> hash_slot (mr_key (rec_of s r)) n = h"
  by (auto simp: in_slot_def entry_def rec_of_def split: if_splits)

lemma resize_ok:
  assumes ok: "map_ok s held" and r: "map_hash_resize s m = (s', m')" and full: "record_count_threshold s \<le> record_count s"
  shows "map_ok s' held \<and> entry s' = entry s \<and> next_rec s' = next_rec s \<and> records s' = records s \<and>
    mem_live m' = mem_live m \<and> (mem_outcomes m = [] \<longrightarrow> mem_outcomes m' = [])"
proof -
  obtain a m1 where a: "js_realloc m = (a, m1)" by (cases "js_realloc m")
  have m1: "mem_live m1 = mem_live m" "mem_outcomes m = [] \<Longrightarrow> mem_outcomes m1 = []"
    using a by (auto simp: js_realloc_def split: list.splits)
  define n where "n = (if hash_size s = 1 then 4 else hash_size s * 2)"
  have "record_count s \<le> next_rec s" using map_okD(8) [OF ok] length_filter_le [of _ "[0..<next_rec s]"] by (metis length_upt diff_zero)
  then have small: "n < 2 ^ 31" using map_okD(9) [OF ok] full by (auto simp: sizes_ok_def n_def)
  obtain k0 where "hash_size s = 2 ^ k0" using map_okD(6) [OF ok] by blast
  then have "n = 2 ^ 2 \<or> n = 2 ^ Suc k0" by (simp add: n_def)
  then obtain k where k: "n = 2 ^ k" by blast
  have "rehash s n (records s) (replicate n []) = map (\<lambda>h. filter (in_slot (entry s) n h) [0..<next_rec s]) [0..<n]"
  proof -
    have "filter (\<lambda>r. \<not> mr_empty (rec_of s r) \<and> hash_slot (mr_key (rec_of s r)) n = h) (records s) =
        filter (in_slot (entry s) n h) [0..<next_rec s]" for h
    proof -
      have "in_slot (entry s) n h r \<Longrightarrow> recs s r \<noteq> None" for r by (auto simp: in_slot_def entry_def split: option.splits)
      then have "(recs s r \<noteq> None \<and> \<not> mr_empty (rec_of s r) \<and> hash_slot (mr_key (rec_of s r)) n = h) = in_slot (entry s) n h r" for r
        using in_slot_rec [of s r n h] by blast
      then show ?thesis
        by (subst map_okD(1) [OF ok]) (simp only: filter_filter)
    qed
    then show ?thesis using rehash_slots [of "replicate n []" k s "records s"] by (simp add: k)
  qed
  note t = this
  have nw: "(if hash_size s = 1 then 4 else hash_size s * 2 mod 2 ^ 32) = n" "n \<noteq> 0" using small k by (auto simp: n_def)
  show ?thesis
  proof (cases a)
    case (Inl e)
    then show ?thesis using r a m1 ok nw by (auto simp: map_hash_resize_def Let_def)
  next
    case (Inr u)
    have s': "s' = s\<lparr>hash_table := rehash s n (records s) (replicate n []), hash_size := n, record_count_threshold := n * 2\<rparr>" "m' = m1"
      using r a Inr nw small by (simp_all add: map_hash_resize_def Let_def)
    have "n \<noteq> 1" by (auto simp: n_def)
    then have z: "sizes_ok (next_rec s) n (n * 2)" using map_okD(9) [OF ok] small by (simp add: sizes_ok_def)
    have f: "recs s' = recs s" "next_rec s' = next_rec s" "records s' = records s" "record_count s' = record_count s" "hash_size s' = n"
      "record_count_threshold s' = n * 2"
      "hash_table s' = rehash s n (records s) (replicate n [])" by (simp_all add: s')
    have e: "entry s' = entry s" by (simp add: entry_def f fun_eq_iff)
    have "map_ok s' held" using ok k z unfolding map_ok_def e f t by (intro conjI; blast)
    then show ?thesis using e f m1 s'(2) by simp
  qed
qed

lemma length_hash_table: "map_ok s held \<Longrightarrow> length (hash_table s) = hash_size s"
  by (subst map_okD(7), assumption) simp

text \<open>A new record is the last one of the list and of its chain.\<close>

lemma add_ok:
  assumes ok: "map_ok s held" and key: "key_ok key" and a: "map_add_record s key m = (r, s', m')" and few: "Suc (next_rec s) < 2 ^ 31"
  shows "(mem_outcomes m = [] \<longrightarrow> mem_outcomes m' = [] \<and> r \<noteq> None) \<and>
    (case r of None \<Rightarrow> s' = s \<and> mem_live m' = mem_live m
     | Some x \<Rightarrow> x = next_rec s \<and> map_ok s' held \<and> entry s' = (entry s)(x := Some (key, Undefined_Val)) \<and> next_rec s' = Suc x \<and>
         mem_live m' - int (length (records s')) = mem_live m - int (length (records s)))"
proof -
  obtain b m1 where b: "js_malloc m = (b, m1)" by (cases "js_malloc m")
  show ?thesis
  proof (cases b)
    case (Inl e)
    then show ?thesis using a b by (auto simp: map_add_record_def js_malloc_def split: list.splits if_splits)
  next
    case (Inr u)
    have m1: "mem_live m1 = mem_live m + 1" "mem_outcomes m = [] \<Longrightarrow> mem_outcomes m1 = []"
      using b Inr by (auto simp: js_malloc_def split: list.splits if_splits)
    define x h where "x = next_rec s" and "h = hash_slot key (hash_size s)"
    define mr where "mr = \<lparr>mr_ref_count = 1, mr_empty = False, mr_key = key, mr_value = Undefined_Val\<rparr>"
    define s1 where "s1 = s\<lparr>recs := (recs s)(x \<mapsto> mr), next_rec := x + 1, hash_table := (hash_table s)[h := hash_table s ! h @ [x]],
      records := records s @ [x], record_count := (record_count s + 1) mod 2 ^ 32\<rparr>"
    have "record_count s \<le> next_rec s" using map_okD(8) [OF ok] length_filter_le [of _ "[0..<next_rec s]"] by (metis length_upt diff_zero)
    then have "record_count s + 1 < 2 ^ 32" using few by simp
    then have "(record_count s + 1) mod 2 ^ 32 = record_count s + 1" by (rule mod_less)
    note w = this
    have f: "recs s1 = (recs s)(x \<mapsto> mr)" "next_rec s1 = Suc x" "records s1 = records s @ [x]" "hash_size s1 = hash_size s"
      "hash_table s1 = (hash_table s)[h := hash_table s ! h @ [x]]" "record_count s1 = record_count s + 1"
      "record_count_threshold s1 = record_count_threshold s" by (simp_all add: s1_def w [simplified])
    have new: "recs s x = None" using map_okD(2) [OF ok, of x] by (cases "recs s x") (auto simp: x_def)
    have e: "entry s1 = (entry s)(x := Some (key, Undefined_Val))" by (auto simp: entry_def f mr_def fun_eq_iff)
    obtain k where k: "hash_size s = 2 ^ k" using map_okD(6) [OF ok] by blast
    have hl: "h < hash_size s" using hash_slot_less k by (simp add: h_def)
    have old: "in_slot ((entry s)(x := Some (key, Undefined_Val))) n i y = in_slot (entry s) n i y" if "y \<noteq> x" for n i y
      using that by (simp add: in_slot_def)
    have "hash_table s1 = map (\<lambda>i. filter (in_slot (entry s1) (hash_size s) i) [0..<Suc x]) [0..<hash_size s]"
    proof (rule nth_equalityI)
      show "length (hash_table s1) = length (map (\<lambda>i. filter (in_slot (entry s1) (hash_size s) i) [0..<Suc x]) [0..<hash_size s])"
        using length_hash_table [OF ok] by (simp add: f)
      fix i
      assume "i < length (hash_table s1)"
      then have i: "i < hash_size s" using length_hash_table [OF ok] by (simp add: f)
      have "filter (in_slot (entry s1) (hash_size s) i) [0..<x] = hash_table s ! i"
        using map_okD(7) [OF ok] i old by (auto simp: e x_def intro!: filter_cong)
      moreover have "in_slot (entry s1) (hash_size s) i x \<longleftrightarrow> i = h" by (auto simp: e in_slot_def h_def)
      moreover have "length (hash_table s) = hash_size s" using length_hash_table [OF ok] by simp
      ultimately show "hash_table s1 ! i = map (\<lambda>i. filter (in_slot (entry s1) (hash_size s) i) [0..<Suc x]) [0..<hash_size s] ! i"
        using i hl by (auto simp: f nth_list_update)
    qed
    note t = this
    have ok1: "map_ok s1 held"
      unfolding map_ok_def f(2,4,6,7) t
    proof (intro conjI allI impI)
      have "filter (\<lambda>r. recs s1 r \<noteq> None) [0..<x] = filter (\<lambda>r. recs s r \<noteq> None) [0..<x]" by (rule filter_cong) (auto simp: f)
      then show "records s1 = filter (\<lambda>r. recs s1 r \<noteq> None) [0..<Suc x]" using map_okD(1) [OF ok] by (simp add: f x_def)
      show "recs s1 y \<noteq> None \<Longrightarrow> y < Suc x" for y using map_okD(2) [OF ok, of y] by (auto simp: f x_def split: if_splits)
      show "0 < held y \<Longrightarrow> recs s1 y \<noteq> None" for y using map_okD(3) [OF ok, of y] by (simp add: f)
      have "held x = 0" using map_okD(3) [OF ok, of x] new by auto
      then show "mr_ref_count m2 = of_bool (\<not> mr_empty m2) + int (held y)" "0 < mr_ref_count m2" if "recs s1 y = Some m2" for y m2
        using that map_okD(4) [OF ok, of y] by (auto simp: f mr_def split: if_splits)
      show "key_ok (mr_key m2)" if "recs s1 y = Some m2" "\<not> mr_empty m2" for y m2
        using that map_okD(5) [OF ok, of y] key by (auto simp: f mr_def split: if_splits)
      have "filter (\<lambda>r. entry s1 r \<noteq> None) [0..<x] = filter (\<lambda>r. entry s r \<noteq> None) [0..<x]" by (rule filter_cong) (auto simp: e)
      then show "record_count s + 1 = length (filter (\<lambda>r. entry s1 r \<noteq> None) [0..<Suc x])"
        using map_okD(8) [OF ok] by (simp add: x_def [symmetric] e)
      show "sizes_ok (Suc x) (hash_size s) (record_count_threshold s)" using map_okD(9) [OF ok] few by (simp add: sizes_ok_def x_def)
    qed (use map_okD(6) [OF ok] in auto)
    obtain s2 m2 where r2: "(if record_count s1 \<ge> record_count_threshold s1 then map_hash_resize s1 m1 else (s1, m1)) = (s2, m2)"
      by (cases "if record_count s1 \<ge> record_count_threshold s1 then map_hash_resize s1 m1 else (s1, m1)")
    have k2: "map_ok s2 held \<and> entry s2 = entry s1 \<and> next_rec s2 = next_rec s1 \<and> records s2 = records s1 \<and>
        mem_live m2 = mem_live m1 \<and> (mem_outcomes m1 = [] \<longrightarrow> mem_outcomes m2 = [])"
      using r2 resize_ok [OF ok1] ok1 by (auto split: if_splits)
    have "r = Some x" "s' = s2" "m' = m2"
      using a b Inr r2 by (simp_all add: map_add_record_def Let_def x_def h_def mr_def s1_def cong: if_cong)
    then show ?thesis using k2 e f m1 by (simp add: x_def)
  qed
qed

section \<open>The abstraction under the operations\<close>

lemma length_abs_data [simp]: "length (abs_data s) = next_rec s"
  by (simp add: abs_data_def)

lemma nth_abs_data [simp]: "r < next_rec s \<Longrightarrow> abs_data s ! r = entry s r"
  by (simp add: abs_data_def)

lemma abs_data_upd: "entry s' = (entry s)(r := e) \<Longrightarrow> next_rec s' = next_rec s \<Longrightarrow> abs_data s' = (abs_data s)[r := e]"
  by (auto simp: abs_data_def list_eq_iff_nth_eq nth_list_update)

lemma abs_data_add: "entry s' = (entry s)(next_rec s := e) \<Longrightarrow> next_rec s' = Suc (next_rec s) \<Longrightarrow> abs_data s' = abs_data s @ [e]"
  by (auto simp: abs_data_def)

lemma abs_data_same: "entry s' = entry s \<Longrightarrow> next_rec s' = next_rec s \<Longrightarrow> abs_data s' = abs_data s"
  by (simp add: abs_data_def)

lemma entries_from_abs: "entries_from (abs_data s) i = filter (\<lambda>j. entry s j \<noteq> None) [i..<next_rec s]"
  unfolding entries_from_def by (simp, rule filter_cong) auto

text \<open>What a call does to the memory: the records are the blocks.\<close>

definition mem_follows :: "map_state \<Rightarrow> mem \<Rightarrow> map_state \<Rightarrow> mem \<Rightarrow> bool" where
  "mem_follows s m s' m' \<longleftrightarrow> mem_live m' - int (length (records s')) = mem_live m - int (length (records s)) \<and>
     (mem_outcomes m = [] \<longrightarrow> mem_outcomes m' = [])"

lemma mem_follows_refl [simp]: "mem_follows s m s m"
  by (simp add: mem_follows_def)

lemma mem_follows_trans: "mem_follows s m s1 m1 \<Longrightarrow> mem_follows s1 m1 s2 m2 \<Longrightarrow> mem_follows s m s2 m2"
  by (simp add: mem_follows_def)

lemma mem_follows_records: "records s1 = records s \<Longrightarrow> mem_follows s m s' m' \<Longrightarrow> mem_follows s1 m s' m'"
  by (simp add: mem_follows_def)

text \<open>A record found has an entry; putting a value there or adding a record is what the specification does.\<close>

lemma found_entry:
  assumes "map_ok s held" and "spec_find (abs_data s) key = Some r"
  shows "r < next_rec s" "entry s r = Some (spec_get (abs_data s) r)" "mr_value (rec_of s r) = snd (spec_get (abs_data s) r)"
proof -
  have r: "r < next_rec s" "entry s r \<noteq> None" using spec_find_Some [OF assms(2)] by auto
  then show "r < next_rec s" "entry s r = Some (spec_get (abs_data s) r)" by (auto simp: spec_get_def)
  then show "mr_value (rec_of s r) = snd (spec_get (abs_data s) r)" by (auto simp: entry_def rec_of_def split: option.splits if_splits) (metis snd_conv)+
qed

lemma put_ok:
  assumes ok: "map_ok s held" and key: "key_ok key" and few: "Suc (next_rec s) < 2 ^ 31"
    and p: "(case map_find_record s key of
        Some r \<Rightarrow> (True, set_value s r v, m)
      | None \<Rightarrow> (case map_add_record s key m of (None, s, m) \<Rightarrow> (False, s, m) | (Some r, s, m) \<Rightarrow> (True, set_value s r v, m))) = (b, s', m')"
  shows "map_ok s' held \<and> mem_follows s m s' m' \<and> (mem_outcomes m = [] \<longrightarrow> b) \<and>
    abs_data s' = (if b then spec_put (abs_data s) key v else abs_data s) \<and> (\<not> b \<longrightarrow> spec_find (abs_data s) key = None)"
proof (cases "spec_find (abs_data s) key")
  case (Some r)
  then have f: "map_find_record s key = Some r" using map_find_record_spec [OF ok key] by simp
  obtain k v0 where e: "entry s r = Some (k, v0)" "spec_get (abs_data s) r = (k, v0)"
    using found_entry(2) [OF ok Some] by (cases "spec_get (abs_data s) r") auto
  note sv = set_value_ok [OF ok e(1), of v]
  have "b" "s' = set_value s r v" "m' = m" using p f by simp_all
  then show ?thesis using sv abs_data_upd [OF sv(2,3)] Some e by (simp add: spec_put_def mem_follows_def)
next
  case None
  then have f: "map_find_record s key = None" using map_find_record_spec [OF ok key] by simp
  obtain x s1 m1 where a: "map_add_record s key m = (x, s1, m1)" by (cases "map_add_record s key m")
  note ad = add_ok [OF ok key a few]
  show ?thesis
  proof (cases x)
    case None
    then have "\<not> b" "s' = s1" "m' = m1" using p f a by simp_all
    then show ?thesis using ad None ok \<open>spec_find (abs_data s) key = None\<close> by (simp add: mem_follows_def)
  next
    case (Some r)
    then have s': "b" "s' = set_value s1 r v" "m' = m1" using p f a by simp_all
    have r: "r = next_rec s" "map_ok s1 held" "entry s1 = (entry s)(r := Some (key, Undefined_Val))" "next_rec s1 = Suc r"
      using ad Some by simp_all
    have "entry s1 r = Some (key, Undefined_Val)" by (simp add: r)
    note sv = set_value_ok [OF r(2) this, of v]
    have "entry s' = (entry s)(next_rec s := Some (key, v))" using sv(2) r s' by (auto simp: fun_eq_iff)
    moreover have "next_rec s' = Suc (next_rec s)" using sv(3) r s' by simp
    ultimately have "abs_data s' = abs_data s @ [Some (key, v)]" by (rule abs_data_add)
    then show ?thesis using sv r s' ad Some None by (simp add: spec_put_def mem_follows_def)
  qed
qed

lemma clear_loop_ok:
  assumes "map_ok s held" and "distinct rs" and "\<forall>r\<in>set rs. recs s r \<noteq> None" and "clear_loop s rs m = (s', m')"
  shows "map_ok s' held \<and> mem_follows s m s' m' \<and> next_rec s' = next_rec s \<and>
    entry s' = (\<lambda>r. if r \<in> set rs then None else entry s r)"
  using assms
proof (induction rs arbitrary: s m)
  case Nil
  then show ?case by simp
next
  case (Cons r rs)
  obtain s1 m1 where d: "map_delete_record s r m = (s1, m1)" by (cases "map_delete_record s r m")
  have keep: "recs s1 x = recs s x" if "x \<noteq> r" for x
    using d that by (auto simp: map_delete_record_def Let_def split: if_splits)
  have step: "map_ok s1 held \<and> mem_follows s m s1 m1 \<and> next_rec s1 = next_rec s \<and> entry s1 = (entry s)(r := None)"
  proof (cases "entry s r")
    case None
    then have "mr_empty (rec_of s r)" using Cons.prems(3) by (auto simp: entry_def rec_of_def split: option.splits if_splits)
    then have "s1 = s" "m1 = m" using d by (simp_all add: map_delete_record_def)
    then show ?thesis using Cons.prems(1) None by (simp add: fun_upd_idem)
  next
    case (Some e)
    then show ?thesis using delete_ok [OF Cons.prems(1) _ d] by (simp add: mem_follows_def)
  qed
  have "\<forall>x\<in>set rs. recs s1 x \<noteq> None" using Cons.prems(2,3) keep by (metis distinct.simps(2) list.set_intros(2))
  from Cons.IH [OF conjunct1 [OF step] _ this, of m1] Cons.prems d
  have "map_ok s' held \<and> mem_follows s1 m1 s' m' \<and> next_rec s' = next_rec s1 \<and> entry s' = (\<lambda>r. if r \<in> set rs then None else entry s1 r)"
    by simp
  then show ?case using step mem_follows_trans [of s m s1 m1 s' m'] by (auto simp: fun_eq_iff)
qed

lemma clear_ok:
  assumes ok: "map_ok s held" and c: "js_map_clear s m = (s', m')"
  shows "map_ok s' held \<and> mem_follows s m s' m' \<and> abs_data s' = map (\<lambda>_. None) (abs_data s)"
proof -
  have "distinct (records s)" "\<forall>r\<in>set (records s). recs s r \<noteq> None"
    by (subst map_okD(1) [OF ok], simp)+
  from clear_loop_ok [OF ok this, of m s' m'] c have k: "map_ok s' held" "mem_follows s m s' m'" "next_rec s' = next_rec s"
    "entry s' = (\<lambda>r. if r \<in> set (records s) then None else entry s r)" by (simp_all add: js_map_clear_def)
  have "entry s' = (\<lambda>_. None)"
    using k(4) records_member [OF ok] by (auto simp: fun_eq_iff entry_def split: option.splits)
  then have "abs_data s' = map (\<lambda>_. None) (abs_data s)" using k(3) by (simp add: abs_data_def)
  then show ?thesis using k by simp
qed

section \<open>Iterators\<close>

lemma first_filter:
  "(case dropWhile (\<lambda>x. \<not> Q x) xs of [] \<Rightarrow> a | x # ys \<Rightarrow> f x) = (case filter Q xs of [] \<Rightarrow> a | x # ys \<Rightarrow> f x)"
  by (induction xs) auto

lemma list_after_filter:
  assumes "r < n" and "P r"
  shows "list_after r (filter P [0..<n]) = filter P [Suc r..<n]"
proof -
  have "[0..<n] = [0..<r] @ r # [Suc r..<n]"
    using assms(1) by (metis upt_conv_Cons upt_add_eq_append le_add_diff_inverse less_imp_le zero_le)
  moreover have "dropWhile (\<lambda>x. x \<noteq> r) (filter P [0..<r] @ r # ys) = r # ys" for ys
    by (subst dropWhile_append2) auto
  ultimately show ?thesis using assms(2) by (simp add: list_after_def)
qed

text \<open>An iterator gives up what it holds.\<close>

lemma give_up_ok:
  assumes ok: "map_ok s held" and h: "\<And>r. cur = Some r \<Longrightarrow> 0 < held r"
  shows "\<exists>s1 m1. (case cur of None \<Rightarrow> Some (s, m) | Some r \<Rightarrow> map_decref_record s r m) = Some (s1, m1) \<and>
    map_ok s1 (\<lambda>x. held x - of_bool (cur = Some x)) \<and> entry s1 = entry s \<and> next_rec s1 = next_rec s \<and> mem_follows s m s1 m1 \<and>
    (\<forall>x. cur \<noteq> Some x \<longrightarrow> recs s1 x = recs s x)"
proof (cases cur)
  case None
  then show ?thesis using ok by simp
next
  case (Some r)
  then obtain s1 m1 where d: "map_decref_record s r m = Some (s1, m1)" "map_ok s1 (held(r := held r - 1))" "entry s1 = entry s"
    "next_rec s1 = next_rec s" "mem_follows s m s1 m1"
    using decref_ok [OF ok h [OF Some], of m] by (auto simp: mem_follows_def)
  have "recs s1 x = recs s x" if "x \<noteq> r" for x
    using d(1) that by (auto simp: map_decref_record_def Let_def split: if_splits)
  moreover have "held(r := held r - 1) = (\<lambda>x. held x - of_bool (cur = Some x))" using Some by (auto simp: fun_eq_iff)
  ultimately show ?thesis using Some d by auto
qed

text \<open>The records behind the iterator, without the empty ones, are the entries from its position on.\<close>

lemma behind_entries:
  assumes ok: "map_ok s held" and cur: "\<And>r. cur = Some r \<Longrightarrow> 0 < held r"
    and s1: "entry s1 = entry s" "\<And>x. cur \<noteq> Some x \<Longrightarrow> recs s1 x = recs s x"
  shows "filter (\<lambda>r. \<not> mr_empty (rec_of s1 r)) (case cur of None \<Rightarrow> records s | Some r \<Rightarrow> list_after r (records s)) =
    entries_from (abs_data s) (case cur of None \<Rightarrow> 0 | Some r \<Rightarrow> r + 1)"
proof -
  have els: "(case cur of None \<Rightarrow> records s | Some r \<Rightarrow> list_after r (records s)) =
      filter (\<lambda>r. recs s r \<noteq> None) [(case cur of None \<Rightarrow> 0 | Some r \<Rightarrow> r + 1)..<next_rec s]"
  proof (cases cur)
    case None
    then show ?thesis using map_okD(1) [OF ok] by simp
  next
    case (Some r)
    have "recs s r \<noteq> None" by (rule map_okD(3) [OF ok cur [OF Some]])
    then have "list_after r (filter (\<lambda>r. recs s r \<noteq> None) [0..<next_rec s]) = filter (\<lambda>r. recs s r \<noteq> None) [Suc r..<next_rec s]"
      using map_okD(2) [OF ok] by (intro list_after_filter) auto
    then show ?thesis using Some map_okD(1) [OF ok] by simp
  qed
  have "recs s x \<noteq> None \<and> \<not> mr_empty (rec_of s1 x) \<longleftrightarrow> entry s x \<noteq> None"
    if "x \<in> set [(case cur of None \<Rightarrow> 0 | Some r \<Rightarrow> r + 1)..<next_rec s]" for x
  proof -
    have "cur \<noteq> Some x" using that by auto
    then have "recs s1 x = recs s x" by (rule s1(2))
    then show ?thesis by (cases "recs s x") (auto simp: entry_def rec_of_def)
  qed
  then show ?thesis unfolding els entries_from_abs filter_filter by (rule filter_cong [OF refl])
qed

lemma iterator_result_ok:
  assumes "iterator_result magic kind k v m = (r, m')"
  shows "mem_live m' = mem_live m" "mem_outcomes m = [] \<Longrightarrow> mem_outcomes m' = [] \<and> r \<noteq> Res_Failed"
    "if r = Res_Failed then \<exists>k' v'. iterator_value magic kind k v = Res_Pair k' v' else iterator_value magic kind k v = r"
  using assms by (auto simp: iterator_result_def iterator_value_def js_create_array_def js_new_object_def then_m_def bind_m_def
    guard_m_def return_m_def js_realloc_def split: list.splits if_splits sum.splits prod.splits iterator_kind.splits)

lemma iterator_next_ok:
  assumes ok: "map_ok s held" and few: "\<And>r. Suc (held r) < INT_MAX" and cur: "\<And>r. cur_record it = Some r \<Longrightarrow> 0 < held r" and dead: "\<not> it_obj it \<Longrightarrow> cur_record it = None"
  shows "\<exists>r it' s' m'. js_map_iterator_next is_set it s m = Some (r, it', s', m') \<and>
    map_ok s' (\<lambda>x. held x - of_bool (cur_record it = Some x) + of_bool (cur_record it' = Some x)) \<and> abs_data s' = abs_data s \<and>
    (if r = Res_Failed then \<exists>k v. spec_next is_set (abs_iter it) (abs_data s) = (Res_Pair k v, abs_iter it')
     else spec_next is_set (abs_iter it) (abs_data s) = (r, abs_iter it')) \<and>
    mem_follows s m s' m' \<and> (\<not> it_obj it' \<longrightarrow> cur_record it' = None) \<and> (mem_outcomes m = [] \<longrightarrow> r \<noteq> Res_Failed)"
proof (cases "it_obj it")
  case False
  then show ?thesis using ok dead by (simp add: js_map_iterator_next_def spec_next_def abs_iter_def)
next
  case True
  define els where "els = (case cur_record it of None \<Rightarrow> records s | Some r \<Rightarrow> list_after r (records s))"
  obtain s1 m1 where d: "(case cur_record it of None \<Rightarrow> Some (s, m) | Some r \<Rightarrow> map_decref_record s r m) = Some (s1, m1)"
      "map_ok s1 (\<lambda>x. held x - of_bool (cur_record it = Some x))" "entry s1 = entry s" "next_rec s1 = next_rec s" "mem_follows s m s1 m1"
      "\<And>x. cur_record it \<noteq> Some x \<Longrightarrow> recs s1 x = recs s x"
    using give_up_ok [OF ok cur, of "cur_record it" m] by auto
  define js where "js = entries_from (abs_data s) (sp_index (abs_iter it))"
  have js: "filter (\<lambda>r. \<not> mr_empty (rec_of s1 r)) els = js"
    using behind_entries [OF ok cur d(3,6)] by (simp add: els_def js_def abs_iter_def)
  have nx: "js_map_iterator_next is_set it s m = (case js of
      [] \<Rightarrow> Some (Res_Done, it\<lparr>cur_record := None, it_obj := False\<rparr>, s1, m1)
    | r # rs \<Rightarrow> (if mr_ref_count (rec_of s1 r) = int INT_MAX then None
        else case iterator_result is_set (it_kind it) (mr_key (rec_of s1 r)) (mr_value (rec_of s1 r)) m1 of
          (res, m) \<Rightarrow> Some (res, it\<lparr>cur_record := Some r\<rparr>,
            s1\<lparr>recs := (recs s1)(r \<mapsto> (rec_of s1 r)\<lparr>mr_ref_count := mr_ref_count (rec_of s1 r) + 1\<rparr>)\<rparr>, m)))"
    unfolding js_map_iterator_next_def Let_def els_def [symmetric] d(1)
    by (simp add: True first_filter [where Q = "\<lambda>r. \<not> mr_empty (rec_of s1 r)" and xs = els, unfolded js not_not])
  have ab: "abs_data s1 = abs_data s" by (rule abs_data_same [OF d(3,4)])
  show ?thesis
  proof (cases js)
    case Nil
    then have "spec_next is_set (abs_iter it) (abs_data s) = (Res_Done, abs_iter (it\<lparr>cur_record := None, it_obj := False\<rparr>))"
      using True by (simp add: spec_next_def js_def [symmetric]) (simp add: abs_iter_def)
    then show ?thesis using Nil nx d ab by simp
  next
    case (Cons r rs)
    then have "r \<in> set js" by simp
    then have "r < next_rec s" "entry s r \<noteq> None" by (auto simp: js_def entries_from_abs)
    then obtain k v where e: "entry s1 r = Some (k, v)" "spec_get (abs_data s) r = (k, v)" using d(3) by (auto simp: spec_get_def)
    then obtain mr where mr: "recs s1 r = Some mr" "\<not> mr_empty mr" and sg: "spec_get (abs_data s) r = (mr_key mr, mr_value mr)"
      by (auto simp: entry_Some)
    have ro: "rec_of s1 r = mr" using mr by (simp add: rec_of_def)
    note inc = incref_ok [OF d(2) mr(1)]
    have "mr_ref_count mr \<noteq> int INT_MAX" using map_okD(4) [OF d(2) mr(1)] few [of r] by auto
    obtain res m2 where ir: "iterator_result is_set (it_kind it) (mr_key mr) (mr_value mr) m1 = (res, m2)"
      by (cases "iterator_result is_set (it_kind it) (mr_key mr) (mr_value mr) m1")
    note io = iterator_result_ok [OF ir]
    let ?s = "s1\<lparr>recs := (recs s1)(r \<mapsto> mr\<lparr>mr_ref_count := mr_ref_count mr + 1\<rparr>)\<rparr>"
    have "(\<lambda>x. held x - of_bool (cur_record it = Some x))(r := held r - of_bool (cur_record it = Some r) + 1) =
        (\<lambda>x. held x - of_bool (cur_record it = Some x) + of_bool (cur_record (it\<lparr>cur_record := Some r\<rparr>) = Some x))"
      by (auto simp: fun_eq_iff)
    then have k: "map_ok ?s (\<lambda>x. held x - of_bool (cur_record it = Some x) + of_bool (cur_record (it\<lparr>cur_record := Some r\<rparr>) = Some x))"
      using inc(1) by simp
    have "spec_next is_set (abs_iter it) (abs_data s) =
        (iterator_value is_set (it_kind it) (mr_key mr) (mr_value mr), abs_iter (it\<lparr>cur_record := Some r\<rparr>))"
      using True Cons by (simp add: spec_next_def js_def [symmetric] sg) (simp add: abs_iter_def)
    moreover have "abs_data ?s = abs_data s" using abs_data_same [OF inc(2,3)] ab by simp
    moreover have "mem_follows s m ?s m2" using d(5) io by (simp add: mem_follows_def)
    moreover have "js_map_iterator_next is_set it s m = Some (res, it\<lparr>cur_record := Some r\<rparr>, ?s, m2)"
      using Cons nx ir \<open>mr_ref_count mr \<noteq> int INT_MAX\<close> by (simp add: ro)
    moreover have "mem_outcomes m = [] \<Longrightarrow> res \<noteq> Res_Failed" using d(5) io by (simp add: mem_follows_def)
    ultimately show ?thesis using k True io(3) by (auto split: if_splits)
  qed
qed

section \<open>The map and its iterators\<close>

definition held_by :: "map_iterator option list \<Rightarrow> nat \<Rightarrow> nat" where
  "held_by its r = count_list (map (\<lambda>it. Option.bind it cur_record) its) (Some r)"

definition iter_count :: "map_iterator option list \<Rightarrow> nat" where
  "iter_count its = length its - count_list its None"

definition sys_ok :: "map_sys \<Rightarrow> bool" where
  "sys_ok sys \<longleftrightarrow> map_ok (the_map sys) (held_by (iters sys)) \<and>
     (\<forall>it. Some it \<in> set (iters sys) \<longrightarrow> \<not> it_obj it \<longrightarrow> cur_record it = None)"

text \<open>The blocks that do not belong to a record or an iterator.\<close>

definition sys_balance :: "map_sys \<Rightarrow> mem \<Rightarrow> int" where
  "sys_balance sys m = mem_live m - int (length (records (the_map sys))) - int (iter_count (iters sys))"

fun op_ok :: "map_op \<Rightarrow> bool" where
  "op_ok (Op_Set k v) \<longleftrightarrow> key_ok (map_normalize_key k)"
| "op_ok (Op_Get k) \<longleftrightarrow> key_ok (map_normalize_key k)"
| "op_ok (Op_Get_Or_Insert k v) \<longleftrightarrow> key_ok (map_normalize_key k)"
| "op_ok (Op_Has k) \<longleftrightarrow> key_ok (map_normalize_key k)"
| "op_ok (Op_Delete k) \<longleftrightarrow> key_ok (map_normalize_key k)"
| "op_ok _ \<longleftrightarrow> True"

definition exec_follows :: "bool \<Rightarrow> map_op \<Rightarrow> map_sys \<Rightarrow> mem \<Rightarrow> map_result \<Rightarrow> map_sys \<Rightarrow> mem \<Rightarrow> bool" where
  "exec_follows is_set op sys m r sys' m' \<longleftrightarrow> sys_ok sys' \<and>
     (if r = Res_Failed then spec_fail is_set op (abs_sys sys) = Some (abs_sys sys') else spec_exec is_set op (abs_sys sys) = (r, abs_sys sys')) \<and>
     sys_balance sys' m' = sys_balance sys m \<and> (mem_outcomes m = [] \<longrightarrow> mem_outcomes m' = [] \<and> r \<noteq> Res_Failed)"

text \<open>A call adds at most one record and one iterator.\<close>

definition sys_small :: "nat \<Rightarrow> spec_sys \<Rightarrow> bool" where
  "sys_small n sp \<longleftrightarrow> length (map_data sp) \<le> n \<and> length (spec_iters sp) \<le> n"

lemma spec_exec_small: "spec_exec is_set op sp = (r, sp') \<Longrightarrow> sys_small n sp \<Longrightarrow> sys_small (Suc n) sp'"
  by (cases op) (auto simp: sys_small_def spec_put_def split: option.splits prod.splits)

lemma spec_fail_small: "spec_fail is_set op sp = Some sp' \<Longrightarrow> sys_small n sp \<Longrightarrow> sys_small (Suc n) sp'"
  by (cases op) (auto simp: sys_small_def split: option.splits prod.splits if_splits map_result.splits)

lemma exec_small: "exec_follows is_set op sys m r sys' m' \<Longrightarrow> sys_small n (abs_sys sys) \<Longrightarrow> sys_small (Suc n) (abs_sys sys')"
  using spec_exec_small spec_fail_small by (auto simp: exec_follows_def split: if_splits)

lemma sys_okD: "sys_ok sys \<Longrightarrow> map_ok (the_map sys) (held_by (iters sys))"
  by (simp add: sys_ok_def)

lemma abs_sys_simps [simp]: "map_data (abs_sys sys) = abs_data (the_map sys)"
  "spec_iters (abs_sys sys) = map (map_option abs_iter) (iters sys)"
  by (simp_all add: abs_sys_def)

text \<open>A call of a method leaves the iterators alone.\<close>

lemma map_step:
  assumes "sys_ok sys" and "map_ok s' (held_by (iters sys))" and "mem_follows (the_map sys) m s' m'"
  shows "sys_ok (sys\<lparr>the_map := s'\<rparr>)" "sys_balance (sys\<lparr>the_map := s'\<rparr>) m' = sys_balance sys m"
    "abs_sys (sys\<lparr>the_map := s'\<rparr>) = (abs_sys sys)\<lparr>map_data := abs_data s'\<rparr>" "mem_outcomes m = [] \<Longrightarrow> mem_outcomes m' = []"
  using assms by (simp_all add: sys_ok_def sys_balance_def abs_sys_def mem_follows_def)

lemma count_list_upd: "i < length xs \<Longrightarrow> count_list (xs[i := y]) a + of_bool (xs ! i = a) = count_list xs a + of_bool (y = a)"
proof (induction xs arbitrary: i)
  case (Cons x xs)
  then show ?case
  proof (cases i)
    case (Suc j)
    then show ?thesis using Cons.IH [of j] Cons.prems by (simp add: of_bool_def split: if_splits)
  qed simp
qed simp

lemma held_by_pos:
  assumes "i < length its" and "Option.bind (its ! i) cur_record = Some r"
  shows "0 < held_by its r"
proof -
  have "Some r \<in> set (map (\<lambda>it. Option.bind it cur_record) its)" using assms by (force simp: in_set_conv_nth)
  then show ?thesis using count_list_0_iff by (fastforce simp: held_by_def)
qed

lemma held_by_upd:
  assumes "i < length its"
  shows "held_by (its[i := it]) x = held_by its x - of_bool (Option.bind (its ! i) cur_record = Some x) + of_bool (Option.bind it cur_record = Some x)"
proof -
  have "held_by (its[i := it]) x + of_bool (Option.bind (its ! i) cur_record = Some x) = held_by its x + of_bool (Option.bind it cur_record = Some x)"
    using count_list_upd [of i "map (\<lambda>it. Option.bind it cur_record) its" "Option.bind it cur_record" "Some x"] assms
    by (simp add: held_by_def map_update)
  then show ?thesis using held_by_pos [OF assms, of x] by (simp add: of_bool_def split: if_splits)
qed

lemma iter_count_upd:
  assumes "i < length its" and "its ! i \<noteq> None"
  shows "int (iter_count (its[i := it])) = int (iter_count its) - of_bool (it = None)"
proof -
  have "count_list (its[i := it]) None = count_list its None + of_bool (it = None)"
    using count_list_upd [OF assms(1), of it None] assms(2) by simp
  moreover have "count_list (its[i := it]) None \<le> length (its[i := it])" by (rule count_le_length)
  ultimately show ?thesis by (auto simp: iter_count_def)
qed

lemma iter_at_Some: "iter_at its i = Some it \<longleftrightarrow> i < length its \<and> its ! i = Some it"
  by (simp add: iter_at_def)

lemma iter_at_map: "iter_at (map (map_option f) its) i = map_option f (iter_at its i)"
  by (simp add: iter_at_def)

text \<open>A call on an iterator replaces it.\<close>

lemma iter_step:
  assumes ok: "sys_ok sys" and at: "iter_at (iters sys) i = Some it" and dead: "\<And>x. it' = Some x \<Longrightarrow> \<not> it_obj x \<Longrightarrow> cur_record x = None"
    and k: "map_ok s' (\<lambda>x. held_by (iters sys) x - of_bool (cur_record it = Some x) + of_bool (Option.bind it' cur_record = Some x))"
    and m: "mem_follows (the_map sys) m s' m1" "mem_live m' = mem_live m1 - of_bool (it' = None)" and d: "abs_data s' = abs_data (the_map sys)"
  defines "sys' \<equiv> sys\<lparr>the_map := s', iters := (iters sys)[i := it']\<rparr>"
  shows "sys_ok sys'" "sys_balance sys' m' = sys_balance sys m"
    "abs_sys sys' = (abs_sys sys)\<lparr>spec_iters := (spec_iters (abs_sys sys))[i := map_option abs_iter it']\<rparr>"
proof -
  have i: "i < length (iters sys)" "iters sys ! i = Some it" using at by (simp_all add: iter_at_Some)
  have "held_by ((iters sys)[i := it']) = (\<lambda>x. held_by (iters sys) x - of_bool (cur_record it = Some x) + of_bool (Option.bind it' cur_record = Some x))"
    using held_by_upd [OF i(1), of it'] i(2) by (simp add: fun_eq_iff)
  then show "sys_ok sys'"
    using k ok dead by (auto simp: sys_ok_def sys'_def dest: set_update_subset_insert [THEN subsetD])
  show "sys_balance sys' m' = sys_balance sys m"
    using iter_count_upd [OF i(1), of it'] i(2) m by (simp add: sys_balance_def sys'_def mem_follows_def)
  show "abs_sys sys' = (abs_sys sys)\<lparr>spec_iters := (spec_iters (abs_sys sys))[i := map_option abs_iter it']\<rparr>"
    using d by (simp add: abs_sys_def sys'_def map_update)
qed

text \<open>The operations, one by one.\<close>

lemma map_exec_follows:
  assumes "sys_ok sys" and "map_ok s' (held_by (iters sys))" and "mem_follows (the_map sys) m s' m'"
    and "if r = Res_Failed then abs_data s' = abs_data (the_map sys) \<and> mem_outcomes m \<noteq> [] \<and> spec_fail is_set op (abs_sys sys) = Some (abs_sys sys)
         else spec_exec is_set op (abs_sys sys) = (r, (abs_sys sys)\<lparr>map_data := abs_data s'\<rparr>)"
  shows "exec_follows is_set op sys m r (sys\<lparr>the_map := s'\<rparr>) m'"
  using map_step [OF assms(1-3)] assms(4) by (simp add: exec_follows_def abs_sys_def split: if_splits)

lemma exec_set_ok:
  assumes ok: "sys_ok sys" and op: "op_ok (Op_Set k v)" and few: "Suc (next_rec (the_map sys)) < 2 ^ 31"
  shows "\<exists>r sys' m'. map_call is_set (Op_Set k v) sys m = Some (r, sys', m') \<and> exec_follows is_set (Op_Set k v) sys m r sys' m'"
proof -
  obtain b s' m' where e: "js_map_set is_set (the_map sys) k v m = (b, s', m')" by (cases "js_map_set is_set (the_map sys) k v m")
  have key: "key_ok (map_normalize_key k)" using op by simp
  note p = put_ok [OF sys_okD [OF ok] key few e [unfolded js_map_set_def Let_def]]
  have "exec_follows is_set (Op_Set k v) sys m (if b then Res_Undefined else Res_Failed) (sys\<lparr>the_map := s'\<rparr>) m'"
    by (rule map_exec_follows [OF ok]; use p in \<open>auto simp: abs_sys_def split: if_splits\<close>)
  then show ?thesis using e by (auto split: if_splits)
qed

lemma exec_getOrInsert_ok:
  assumes ok: "sys_ok sys" and op: "op_ok (Op_Get_Or_Insert k v)" and few: "Suc (next_rec (the_map sys)) < 2 ^ 31"
  shows "\<exists>r sys' m'. map_call is_set (Op_Get_Or_Insert k v) sys m = Some (r, sys', m') \<and>
    exec_follows is_set (Op_Get_Or_Insert k v) sys m r sys' m'"
proof -
  have key: "key_ok (map_normalize_key k)" using op by simp
  note f = map_find_record_spec [OF sys_okD [OF ok] key]
  show ?thesis
  proof (cases "spec_find (abs_data (the_map sys)) (map_normalize_key k)")
    case (Some i)
    then have "js_map_getOrInsert (the_map sys) k v m = (Some (snd (spec_get (abs_data (the_map sys)) i)), the_map sys, m)"
      using f found_entry(3) [OF sys_okD [OF ok] Some] by (simp add: js_map_getOrInsert_def)
    moreover have "exec_follows is_set (Op_Get_Or_Insert k v) sys m (Res_Value (snd (spec_get (abs_data (the_map sys)) i))) (sys\<lparr>the_map := the_map sys\<rparr>) m"
      by (rule map_exec_follows [OF ok sys_okD [OF ok]]) (simp_all add: Some abs_sys_def)
    ultimately show ?thesis by simp
  next
    case None
    obtain x s1 m1 where a: "map_add_record (the_map sys) (map_normalize_key k) m = (x, s1, m1)" by (metis prod_cases3)
    define b s' where "b \<longleftrightarrow> x \<noteq> None" and "s' = (case x of None \<Rightarrow> s1 | Some r \<Rightarrow> set_value s1 r v)"
    have p: "(case map_find_record (the_map sys) (map_normalize_key k) of
        Some r \<Rightarrow> (True, set_value (the_map sys) r v, m)
      | None \<Rightarrow> (case map_add_record (the_map sys) (map_normalize_key k) m of
          (None, s, m) \<Rightarrow> (False, s, m) | (Some r, s, m) \<Rightarrow> (True, set_value s r v, m))) = (b, s', m1)"
      using f None a by (cases x) (simp_all add: b_def s'_def)
    have "js_map_getOrInsert (the_map sys) k v m = (if b then Some v else None, s', m1)"
      using f None a by (cases x) (simp_all add: b_def s'_def js_map_getOrInsert_def Let_def)
    moreover have "exec_follows is_set (Op_Get_Or_Insert k v) sys m (if b then Res_Value v else Res_Failed) (sys\<lparr>the_map := s'\<rparr>) m1"
      by (rule map_exec_follows [OF ok]; use put_ok [OF sys_okD [OF ok] key few p] None in \<open>auto simp: abs_sys_def split: if_splits\<close>)
    ultimately show ?thesis by (auto split: if_splits)
  qed
qed

lemma exec_delete_ok:
  assumes ok: "sys_ok sys" and op: "op_ok (Op_Delete k)"
  shows "\<exists>r sys' m'. map_call is_set (Op_Delete k) sys m = Some (r, sys', m') \<and> exec_follows is_set (Op_Delete k) sys m r sys' m'"
proof -
  have key: "key_ok (map_normalize_key k)" using op by simp
  note f = map_find_record_spec [OF sys_okD [OF ok] key]
  show ?thesis
  proof (cases "spec_find (abs_data (the_map sys)) (map_normalize_key k)")
    case None
    have "exec_follows is_set (Op_Delete k) sys m (Res_Bool False) (sys\<lparr>the_map := the_map sys\<rparr>) m"
      by (rule map_exec_follows [OF ok sys_okD [OF ok]]) (simp_all add: None abs_sys_def)
    then show ?thesis using None f by (simp add: js_map_delete_def)
  next
    case (Some i)
    obtain s' m' where d: "map_delete_record (the_map sys) i m = (s', m')" by (cases "map_delete_record (the_map sys) i m")
    have "entry (the_map sys) i \<noteq> None" using found_entry(2) [OF sys_okD [OF ok] Some] by simp
    note dl = delete_ok [OF sys_okD [OF ok] this d]
    have "abs_data s' = (abs_data (the_map sys))[i := None]" by (rule abs_data_upd; use dl in blast)
    then have "exec_follows is_set (Op_Delete k) sys m (Res_Bool True) (sys\<lparr>the_map := s'\<rparr>) m'"
      by (intro map_exec_follows [OF ok]; use dl Some in \<open>simp add: mem_follows_def\<close>)
    then show ?thesis using Some f d by (simp add: js_map_delete_def)
  qed
qed

lemma exec_clear_ok:
  assumes ok: "sys_ok sys"
  shows "\<exists>r sys' m'. map_call is_set Op_Clear sys m = Some (r, sys', m') \<and> exec_follows is_set Op_Clear sys m r sys' m'"
proof -
  obtain s' m' where c: "js_map_clear (the_map sys) m = (s', m')" by (cases "js_map_clear (the_map sys) m")
  have "exec_follows is_set Op_Clear sys m Res_Undefined (sys\<lparr>the_map := s'\<rparr>) m'"
    by (rule map_exec_follows [OF ok]; use clear_ok [OF sys_okD [OF ok] c] in simp)
  then show ?thesis using c by simp
qed

lemma exec_query_ok:
  assumes ok: "sys_ok sys" and op: "op_ok op" and q: "op = Op_Get k \<or> op = Op_Has k \<or> op = Op_Size"
  shows "\<exists>r sys' m'. map_call is_set op sys m = Some (r, sys', m') \<and> exec_follows is_set op sys m r sys' m'"
proof -
  obtain r where e: "map_call is_set op sys m = Some (r, sys, m)" "r \<noteq> Res_Failed" using q by auto
  have f: "map_find_record (the_map sys) (map_normalize_key k) = spec_find (abs_data (the_map sys)) (map_normalize_key k)"
    if "op = Op_Get k \<or> op = Op_Has k"
    by (rule map_find_record_spec [OF sys_okD [OF ok]]) (use op that in auto)
  have "record_count (the_map sys) = length (entries_from (abs_data (the_map sys)) 0)"
    using map_okD(8) [OF sys_okD [OF ok]] by (simp add: entries_from_abs)
  then have "spec_exec is_set op (abs_sys sys) = (r, abs_sys sys)"
    using q e f found_entry(3) [OF sys_okD [OF ok]]
    by (auto simp: js_map_get_def js_map_has_def js_map_get_size_def split: option.splits)
  then show ?thesis using e ok by (simp add: exec_follows_def)
qed

lemma create_iterator_cases:
  assumes "js_create_map_iterator kind m = (x, m')"
  shows "case x of Inl e \<Rightarrow> mem_live m' = mem_live m \<and> mem_outcomes m \<noteq> []
    | Inr it \<Rightarrow> it = \<lparr>it_obj = True, it_kind = kind, cur_record = None\<rparr> \<and> mem_live m' = mem_live m + 1 \<and>
        (mem_outcomes m = [] \<longrightarrow> mem_outcomes m' = [])"
  using assms by (auto simp: js_create_map_iterator_def js_new_object_def then_m_def bind_m_def guard_m_def return_m_def
    js_realloc_def js_malloc_def split: list.splits if_splits sum.splits prod.splits)

lemma exec_iterator_ok:
  assumes ok: "sys_ok sys"
  shows "\<exists>r sys' m'. map_call is_set (Op_Iterator kind) sys m = Some (r, sys', m') \<and> exec_follows is_set (Op_Iterator kind) sys m r sys' m'"
proof -
  obtain a m1 where a: "js_create_map_iterator kind m = (a, m1)" by (cases "js_create_map_iterator kind m")
  show ?thesis
  proof (cases a)
    case (Inl e)
    then have "map_call is_set (Op_Iterator kind) sys m = Some (Res_Failed, sys, m1)" using a by simp
    then show ?thesis using ok create_iterator_cases [OF a] Inl by (simp add: exec_follows_def sys_balance_def)
  next
    case (Inr it)
    define its where "its = iters sys @ [Some it]"
    note c = create_iterator_cases [OF a, unfolded Inr, simplified]
    have "map_call is_set (Op_Iterator kind) sys m = Some (Res_Undefined, sys\<lparr>iters := its\<rparr>, m1)"
      using a Inr by (simp add: its_def)
    moreover have "held_by its = held_by (iters sys)" by (simp add: held_by_def its_def fun_eq_iff c)
    moreover have "int (iter_count its) = int (iter_count (iters sys)) + 1"
      using count_le_length [of "iters sys" None] by (simp add: iter_count_def its_def)
    moreover have "map (map_option abs_iter) its =
        map (map_option abs_iter) (iters sys) @ [Some \<lparr>sp_live = True, sp_kind = kind, sp_index = 0\<rparr>]"
      by (simp add: its_def abs_iter_def c)
    ultimately show ?thesis using ok c by (simp add: exec_follows_def sys_balance_def sys_ok_def abs_sys_def) (auto simp: its_def)
  qed
qed

lemma held_by_le: "held_by its r \<le> length its"
  unfolding held_by_def by (rule order_trans [OF count_le_length]) simp

lemma exec_next_ok:
  assumes ok: "sys_ok sys" and few: "length (iters sys) + 2 < 2 ^ 31"
  shows "\<exists>r sys' m'. map_call is_set (Op_Next i) sys m = Some (r, sys', m') \<and> exec_follows is_set (Op_Next i) sys m r sys' m'"
proof (cases "iter_at (iters sys) i")
  case None
  then show ?thesis using ok by (simp add: exec_follows_def iter_at_map)
next
  case (Some it)
  then have i: "i < length (iters sys)" "iters sys ! i = Some it" by (simp_all add: iter_at_Some)
  have cur: "cur_record it = Some r \<Longrightarrow> 0 < held_by (iters sys) r" for r by (rule held_by_pos [OF i(1)]) (simp add: i)
  have dead: "\<not> it_obj it \<Longrightarrow> cur_record it = None" using ok i nth_mem [OF i(1)] by (auto simp: sys_ok_def)
  have h: "Suc (held_by (iters sys) r) < INT_MAX" for r using held_by_le [of "iters sys" r] few by (simp add: INT_MAX_def)
  obtain r it' s' m' where n: "js_map_iterator_next is_set it (the_map sys) m = Some (r, it', s', m')"
      "map_ok s' (\<lambda>x. held_by (iters sys) x - of_bool (cur_record it = Some x) + of_bool (cur_record it' = Some x))"
      "abs_data s' = abs_data (the_map sys)" "if r = Res_Failed then \<exists>k v. spec_next is_set (abs_iter it) (abs_data (the_map sys)) = (Res_Pair k v, abs_iter it')
         else spec_next is_set (abs_iter it) (abs_data (the_map sys)) = (r, abs_iter it')"
      "mem_follows (the_map sys) m s' m'" "\<not> it_obj it' \<Longrightarrow> cur_record it' = None" "mem_outcomes m = [] \<Longrightarrow> r \<noteq> Res_Failed"
    using iterator_next_ok [OF sys_okD [OF ok] h cur dead, of is_set m] by blast
  note st = iter_step [OF ok Some, of "Some it'" s' m m' m']
  have "exec_follows is_set (Op_Next i) sys m r (sys\<lparr>the_map := s', iters := (iters sys)[i := Some it']\<rparr>) m'"
    using st n Some by (auto simp: exec_follows_def iter_at_map mem_follows_def split: if_splits)
  then show ?thesis using Some n(1) by simp
qed

lemma exec_finalize_ok:
  assumes ok: "sys_ok sys"
  shows "\<exists>r sys' m'. map_call is_set (Op_Finalize i) sys m = Some (r, sys', m') \<and> exec_follows is_set (Op_Finalize i) sys m r sys' m'"
proof (cases "iter_at (iters sys) i")
  case None
  then show ?thesis using ok by (simp add: exec_follows_def iter_at_map)
next
  case (Some it)
  then have i: "i < length (iters sys)" "iters sys ! i = Some it" by (simp_all add: iter_at_Some)
  have cur: "cur_record it = Some r \<Longrightarrow> 0 < held_by (iters sys) r" for r by (rule held_by_pos [OF i(1)]) (simp add: i)
  obtain s1 m1 where d: "(case cur_record it of None \<Rightarrow> Some (the_map sys, m) | Some r \<Rightarrow> map_decref_record (the_map sys) r m) = Some (s1, m1)"
      "map_ok s1 (\<lambda>x. held_by (iters sys) x - of_bool (cur_record it = Some x))" "entry s1 = entry (the_map sys)"
      "next_rec s1 = next_rec (the_map sys)" "mem_follows (the_map sys) m s1 m1"
    using give_up_ok [OF sys_okD [OF ok] cur, of "cur_record it" m] by blast
  have "exec_follows is_set (Op_Finalize i) sys m Res_Undefined (sys\<lparr>the_map := s1, iters := (iters sys)[i := None]\<rparr>) (snd (js_free m1))"
    using iter_step [OF ok Some, of None s1 m m1 "snd (js_free m1)"] d abs_data_same [OF d(3,4)] Some
    by (simp add: exec_follows_def iter_at_map mem_follows_def js_free_def)
  then show ?thesis using Some d(1) by (simp add: js_map_iterator_finalizer_def)
qed

lemma call_ok:
  assumes "sys_ok sys" and "op_ok op" and "Suc (next_rec (the_map sys)) < 2 ^ 31" and "length (iters sys) + 2 < 2 ^ 31"
  shows "\<exists>r sys' m'. map_call is_set op sys m = Some (r, sys', m') \<and> exec_follows is_set op sys m r sys' m'"
proof (cases op)
  case (Op_Set k v)
  then show ?thesis using exec_set_ok [OF assms(1)] assms(2,3) by simp
next
  case (Op_Get k)
  then show ?thesis using exec_query_ok [OF assms(1,2), of k] by simp
next
  case (Op_Get_Or_Insert k v)
  then show ?thesis using exec_getOrInsert_ok [OF assms(1)] assms(2,3) by simp
next
  case (Op_Has k)
  then show ?thesis using exec_query_ok [OF assms(1,2), of k] by simp
next
  case (Op_Delete k)
  then show ?thesis using exec_delete_ok [OF assms(1)] assms(2) by simp
next
  case Op_Clear
  then show ?thesis using exec_clear_ok [OF assms(1)] by simp
next
  case Op_Size
  then show ?thesis using exec_query_ok [OF assms(1,2)] by simp
next
  case (Op_Iterator kind)
  then show ?thesis using exec_iterator_ok [OF assms(1)] by simp
next
  case (Op_Next i)
  then show ?thesis using exec_next_ok [OF assms(1,4)] by simp
next
  case (Op_Finalize i)
  then show ?thesis using exec_finalize_ok [OF assms(1)] by simp
qed

lemma exec_ok:
  assumes "sys_ok sys" and "op_ok op" and "sys_small n (abs_sys sys)" and "n + 2 < 2 ^ 31"
  shows "\<exists>r sys' m'. map_exec is_set op sys m = Some (r, sys', m') \<and> exec_follows is_set op sys m r sys' m'"
proof -
  have "hash_table (the_map sys) \<noteq> []"
    using length_hash_table [OF sys_okD [OF assms(1)]] map_okD(6) [OF sys_okD [OF assms(1)]] by auto
  then show ?thesis using call_ok [OF assms(1,2), of is_set m] assms(3,4) by (simp add: map_exec_def sys_small_def)
qed

section \<open>Whole runs\<close>

definition sys_init :: map_sys where
  "sys_init = \<lparr>the_map = map_init, iters = []\<rparr>"

lemma sys_init_ok: "sys_ok sys_init" "sys_small 0 (abs_sys sys_init)"
  using map_init_ok by (simp_all add: sys_ok_def sys_init_def held_by_def [abs_def] sys_small_def) (simp add: map_init_def)

lemma run_ok:
  assumes "sys_ok sys" and "list_all op_ok ops" and "sys_small n (abs_sys sys)" and "n + length ops + 1 < 2 ^ 31"
  shows "\<exists>rs sys' m'. map_run is_set ops sys m = Some (rs, sys', m') \<and> sys_ok sys' \<and> sys_small (n + length ops) (abs_sys sys') \<and>
    spec_run is_set (zip ops (map (\<lambda>r. r = Res_Failed) rs)) (abs_sys sys) = Some (rs, abs_sys sys') \<and> length rs = length ops \<and>
    sys_balance sys' m' = sys_balance sys m \<and> (mem_outcomes m = [] \<longrightarrow> Res_Failed \<notin> set rs)"
  using assms
proof (induction ops arbitrary: sys m n)
  case Nil
  then show ?case by simp
next
  case (Cons op ops)
  then obtain r sys1 m1 where e: "map_exec is_set op sys m = Some (r, sys1, m1)" and f: "exec_follows is_set op sys m r sys1 m1"
    using exec_ok [of sys op n is_set m] by auto
  then have ok: "sys_ok sys1" by (simp add: exec_follows_def)
  have sm: "sys_small (Suc n) (abs_sys sys1)" by (rule exec_small [OF f Cons.prems(3)])
  obtain rs sys' m' where r: "map_run is_set ops sys1 m1 = Some (rs, sys', m')" "sys_ok sys'" "sys_small (Suc n + length ops) (abs_sys sys')"
      "spec_run is_set (zip ops (map (\<lambda>r. r = Res_Failed) rs)) (abs_sys sys1) = Some (rs, abs_sys sys')" "length rs = length ops"
      "sys_balance sys' m' = sys_balance sys1 m1" "mem_outcomes m1 = [] \<Longrightarrow> Res_Failed \<notin> set rs"
    using Cons.IH [OF ok _ sm, of m1] Cons.prems(2,4) by auto
  have "(if r = Res_Failed then map_option (\<lambda>sp. (Res_Failed, sp)) (spec_fail is_set op (abs_sys sys))
      else Some (spec_exec is_set op (abs_sys sys))) = Some (r, abs_sys sys1)"
    using f by (simp add: exec_follows_def split: if_splits)
  then show ?case using e r f by (auto simp: exec_follows_def)
qed

section \<open>Iterating\<close>

text \<open>What a specified iterator has yet to return.\<close>

definition to_visit :: "spec_iter \<Rightarrow> (jsval \<times> jsval) option list \<Rightarrow> nat list" where
  "to_visit it d = (if sp_live it then entries_from d (sp_index it) else [])"

definition visit :: "bool \<Rightarrow> iterator_kind \<Rightarrow> (jsval \<times> jsval) option list \<Rightarrow> nat \<Rightarrow> map_result" where
  "visit is_set kind d j = iterator_value is_set kind (fst (spec_get d j)) (snd (spec_get d j))"

lemma filter_upt_Cons: "filter P [i..<n] = j # js \<Longrightarrow> filter P [Suc j..<n] = js"
proof (induction "n - i" arbitrary: i)
  case (Suc k)
  then have "[i..<n] = i # [Suc i..<n]" by (simp add: upt_conv_Cons)
  then show ?case using Suc.prems Suc.hyps(1) [of "Suc i"] Suc.hyps(2) by (auto split: if_splits)
qed simp

lemma spec_next_visit:
  "spec_next is_set it d = (case to_visit it d of [] \<Rightarrow> Res_Done | j # js \<Rightarrow> visit is_set (sp_kind it) d j, snd (spec_next is_set it d))"
  "to_visit (snd (spec_next is_set it d)) d = tl (to_visit it d)" "sp_kind (snd (spec_next is_set it d)) = sp_kind it"
  "sp_live (snd (spec_next is_set it d)) \<longleftrightarrow> to_visit it d \<noteq> []"
  using filter_upt_Cons [of "\<lambda>j. d ! j \<noteq> None" "sp_index it" "length d"]
  by (auto simp: spec_next_def to_visit_def visit_def entries_from_def split: list.splits)

text \<open>The result of a step: what the specification gives, or for a pair the failure for lack of memory.\<close>

definition step_result :: "bool \<Rightarrow> map_result \<Rightarrow> map_result \<Rightarrow> bool" where
  "step_result enough r v \<longleftrightarrow> r = v \<or> \<not> enough \<and> r = Res_Failed \<and> (\<exists>k w. v = Res_Pair k w)"

lemma step_result_mono: "(enough \<Longrightarrow> enough') \<Longrightarrow> step_result enough' r v \<Longrightarrow> step_result enough r v"
  by (auto simp: step_result_def)

lemma exec_next_step:
  fixes is_set :: bool
  assumes ok: "sys_ok sys" and few: "length (iters sys) + 2 < 2 ^ 31" and at: "iter_at (spec_iters (abs_sys sys)) i = Some it"
  defines "d \<equiv> abs_data (the_map sys)"
  defines "it1 \<equiv> snd (spec_next is_set it d)"
  shows "\<exists>r sys1 m1. map_exec is_set (Op_Next i) sys m = Some (r, sys1, m1) \<and> step_result (mem_outcomes m = []) r (fst (spec_next is_set it d)) \<and>
    sys_ok sys1 \<and> abs_data (the_map sys1) = d \<and> iter_at (spec_iters (abs_sys sys1)) i = Some it1 \<and> length (iters sys1) = length (iters sys) \<and>
    (mem_outcomes m = [] \<longrightarrow> mem_outcomes m1 = [])"
proof -
  obtain r sys1 m1 where e: "map_exec is_set (Op_Next i) sys m = Some (r, sys1, m1)" "exec_follows is_set (Op_Next i) sys m r sys1 m1"
    using exec_next_ok [OF ok few, of is_set i m] by (auto simp: map_exec_def)
  have i: "i < length (iters sys)" using at by (auto simp: iter_at_def split: if_splits)
  have sx: "spec_exec is_set (Op_Next i) (abs_sys sys) =
      (fst (spec_next is_set it d), (abs_sys sys)\<lparr>spec_iters := (spec_iters (abs_sys sys))[i := Some it1]\<rparr>)"
    using at by (simp add: it1_def d_def split: prod.splits)
  have r: "step_result (mem_outcomes m = []) r (fst (spec_next is_set it d))"
    and a: "abs_sys sys1 = (abs_sys sys)\<lparr>spec_iters := (spec_iters (abs_sys sys))[i := Some it1]\<rparr>"
    using e(2) sx by (auto simp: exec_follows_def step_result_def simp del: spec_exec.simps split: if_splits map_result.splits prod.splits)
  have "abs_data (the_map sys1) = d" using arg_cong [OF a, of map_data] by (simp add: d_def)
  moreover have "iter_at (spec_iters (abs_sys sys1)) i = Some it1" using i unfolding a by (simp add: iter_at_def)
  moreover have "length (iters sys1) = length (iters sys)" using arg_cong [OF a, of "\<lambda>sp. length (spec_iters sp)"] by simp
  ultimately show ?thesis using e r by (auto simp: exec_follows_def)
qed

lemma run_next:
  assumes "sys_ok sys" and "length (iters sys) + 2 < 2 ^ 31" and "iter_at (spec_iters (abs_sys sys)) i = Some it"
  defines "d \<equiv> abs_data (the_map sys)"
  shows "\<exists>rs sys' m' it'. map_run is_set (replicate n (Op_Next i)) sys m = Some (rs, sys', m') \<and>
    list_all2 (step_result (mem_outcomes m = [])) rs (take n (map (visit is_set (sp_kind it) d) (to_visit it d) @ replicate n Res_Done)) \<and>
    sys_ok sys' \<and> abs_data (the_map sys') = d \<and> iter_at (spec_iters (abs_sys sys')) i = Some it' \<and>
    (length (to_visit it d) < n \<longrightarrow> \<not> sp_live it')"
  using assms(1-3) unfolding d_def
proof (induction n arbitrary: sys it m)
  case 0
  then show ?case by simp
next
  case (Suc n)
  let ?d = "abs_data (the_map sys)"
  define it1 where "it1 = snd (spec_next is_set it ?d)"
  note sn = spec_next_visit [of is_set it ?d, folded it1_def]
  obtain r sys1 m1 where e: "map_exec is_set (Op_Next i) sys m = Some (r, sys1, m1)"
      "step_result (mem_outcomes m = []) r (fst (spec_next is_set it ?d))" "sys_ok sys1" "abs_data (the_map sys1) = ?d"
      "iter_at (spec_iters (abs_sys sys1)) i = Some it1" "length (iters sys1) + 2 < 2 ^ 31" "mem_outcomes m = [] \<Longrightarrow> mem_outcomes m1 = []"
    using exec_next_step [OF Suc.prems, of is_set m] Suc.prems(2) by (auto simp: it1_def)
  from Suc.IH [OF e(3,6,5), of m1] obtain rs sys' m' it' where
    h: "map_run is_set (replicate n (Op_Next i)) sys1 m1 = Some (rs, sys', m')"
      "list_all2 (step_result (mem_outcomes m1 = [])) rs (take n (map (visit is_set (sp_kind it1) ?d) (to_visit it1 ?d) @ replicate n Res_Done))"
      "sys_ok sys'" "abs_data (the_map sys') = ?d" "iter_at (spec_iters (abs_sys sys')) i = Some it'"
      "length (to_visit it1 ?d) < n \<Longrightarrow> \<not> sp_live it'"
    unfolding e(4) by blast
  have rs: "list_all2 (step_result (mem_outcomes m = [])) rs
      (take n (map (visit is_set (sp_kind it) ?d) (tl (to_visit it ?d)) @ replicate n Res_Done))"
    using list_all2_mono [OF h(2) step_result_mono [OF e(7)]] sn(2,3) by (simp only: )
  have run: "map_run is_set (replicate (Suc n) (Op_Next i)) sys m = Some (r # rs, sys', m')" using e(1) h(1) by simp
  have dead: "length (to_visit it ?d) < Suc n \<longrightarrow> \<not> sp_live it'"
  proof (cases "to_visit it ?d")
    case Nil
    then show ?thesis using h sn e(5) by (cases n) auto
  next
    case (Cons j js)
    then show ?thesis using h(6) sn by simp
  qed
  have "take (Suc n) (map (visit is_set (sp_kind it) ?d) (to_visit it ?d) @ replicate (Suc n) Res_Done) =
      fst (spec_next is_set it ?d) # take n (map (visit is_set (sp_kind it) ?d) (tl (to_visit it ?d)) @ replicate n Res_Done)"
  proof (cases "to_visit it ?d")
    case (Cons j js)
    have "take (n - length js) (Res_Done # replicate n Res_Done) = replicate (n - length js) Res_Done"
      by (simp flip: replicate_Suc)
    then show ?thesis using Cons sn(1) by simp
  qed (use sn(1) in simp)
  then show ?case using run rs e(2) h dead by auto
qed

section \<open>What a script sees\<close>


text \<open>C40: from every state that such calls lead to, calling \<open>next\<close> on an iterator \<open>n\<close> times gives, in the order of insertion,
  each of the entries from its position on once and then only \<open>done\<close>. When memory is not exhausted all are returned; else
  the array of a pair may fail to be made, and then the call fails and the entry is passed over. The iterator that is done no
  longer refers to the map and holds no record. The keys are no ropes and no BigInts in a longer form than needed.\<close>

theorem js_map_iteration:
  assumes "list_all op_ok ops" and "length ops + 2 < 2 ^ 31"
    and "map_run is_set ops sys_init m = Some (rs, sys, m')" and "iter_at (iters sys) i = Some it"
  defines "es \<equiv> to_visit (abs_iter it) (abs_data (the_map sys))"
  shows "\<exists>vs sys' m'' it'. map_run is_set (replicate n (Op_Next i)) sys m' = Some (vs, sys', m'') \<and>
    list_all2 (step_result (mem_outcomes m' = [])) vs
      (take n (map (visit is_set (it_kind it) (abs_data (the_map sys))) es @ replicate n Res_Done)) \<and>
    abs_data (the_map sys') = abs_data (the_map sys) \<and> iter_at (iters sys') i = Some it' \<and>
    (length es < n \<longrightarrow> \<not> it_obj it' \<and> cur_record it' = None)"
proof -
  have ok: "sys_ok sys" "sys_small (length ops) (abs_sys sys)"
    using run_ok [OF sys_init_ok(1) assms(1) sys_init_ok(2), of is_set m] assms(2,3) by auto
  then have few: "length (iters sys) + 2 < 2 ^ 31" using assms(2) by (simp add: sys_small_def)
  have "iter_at (spec_iters (abs_sys sys)) i = Some (abs_iter it)" using assms(4) by (simp add: iter_at_map)
  from run_next [OF ok(1) few this, where n = n and is_set = is_set and m = m'] obtain vs sys' m'' sit where
    r: "map_run is_set (replicate n (Op_Next i)) sys m' = Some (vs, sys', m'')"
      "list_all2 (step_result (mem_outcomes m' = [])) vs
        (take n (map (visit is_set (it_kind it) (abs_data (the_map sys))) es @ replicate n Res_Done))"
      "sys_ok sys'" "abs_data (the_map sys') = abs_data (the_map sys)" "iter_at (spec_iters (abs_sys sys')) i = Some sit"
      "length es < n \<Longrightarrow> \<not> sp_live sit"
    by (auto simp: abs_iter_def es_def)
  then obtain it' where it': "iter_at (iters sys') i = Some it'" "sit = abs_iter it'" by (auto simp: iter_at_map)
  then have "Some it' \<in> set (iters sys')" by (auto simp: iter_at_Some in_set_conv_nth)
  then have "\<not> it_obj it' \<Longrightarrow> cur_record it' = None" using r(3) by (auto simp: sys_ok_def)
  then show ?thesis using r it' by (auto simp: abs_iter_def)
qed

section \<open>Examples\<close>

text \<open>Iterating while entries are deleted and added; the deleted entry that is held goes when the iterator moves on.\<close>

definition example_ops :: "map_op list" where
  "example_ops = [Op_Set Null_Val (Bool_Val True), Op_Set (Bool_Val False) Null_Val, Op_Iterator JS_ITERATOR_KIND_KEY, Op_Next 0,
     Op_Delete Null_Val, Op_Set Undefined_Val Null_Val, Op_Set Null_Val Null_Val, Op_Size, Op_Next 0, Op_Next 0, Op_Next 0, Op_Next 0]"

definition example_results :: "map_result list" where
  "example_results = [Res_Undefined, Res_Undefined, Res_Undefined, Res_Value Null_Val, Res_Bool True, Res_Undefined, Res_Undefined, Res_Size 3,
     Res_Value (Bool_Val False), Res_Value Undefined_Val, Res_Value Null_Val, Res_Done]"

lemma spec_run_example:
  "spec_run False (zip example_ops (replicate 12 False)) \<lparr>map_data = [], spec_iters = []\<rparr> =
     Some (example_results, \<lparr>map_data = [None, Some (Bool_Val False, Null_Val), Some (Undefined_Val, Null_Val), Some (Null_Val, Null_Val)],
        spec_iters = [Some \<lparr>sp_live = False, sp_kind = JS_ITERATOR_KIND_KEY, sp_index = 0\<rparr>]\<rparr>)"
  by (simp add: example_ops_def example_results_def numeral_eq_Suc spec_put_def spec_find_def spec_get_def iter_at_def
    spec_next_def entries_from_def iterator_value_def)


text \<open>A set that loses the value its iterator stands on.\<close>

definition example_before :: "map_op list" where
  "example_before = [Op_Set Null_Val Null_Val, Op_Set (Bool_Val True) Null_Val, Op_Iterator JS_ITERATOR_KIND_VALUE, Op_Next 0,
     Op_Delete Null_Val, Op_Set Undefined_Val Null_Val]"

definition example_before_results :: "map_result list" where
  "example_before_results = [Res_Undefined, Res_Undefined, Res_Undefined, Res_Value Null_Val, Res_Bool True, Res_Undefined]"

lemma example_before_run:
  "\<exists>sys m'. map_run True example_before sys_init \<lparr>mem_outcomes = [], mem_live = 0\<rparr> = Some (example_before_results, sys, m') \<and>
     abs_sys sys = \<lparr>map_data = [None, Some (Bool_Val True, Undefined_Val), Some (Undefined_Val, Undefined_Val)],
       spec_iters = [Some \<lparr>sp_live = True, sp_kind = JS_ITERATOR_KIND_VALUE, sp_index = 1\<rparr>]\<rparr>"
proof -
  have "list_all op_ok example_before" by (simp add: example_before_def)
  from run_ok [OF sys_init_ok(1) this sys_init_ok(2), of True "\<lparr>mem_outcomes = [], mem_live = 0\<rparr>"] obtain rs sys m' where
    r: "map_run True example_before sys_init \<lparr>mem_outcomes = [], mem_live = 0\<rparr> = Some (rs, sys, m')"
      "spec_run True (zip example_before (map (\<lambda>r. r = Res_Failed) rs)) (abs_sys sys_init) = Some (rs, abs_sys sys)"
      "length rs = length example_before" "Res_Failed \<notin> set rs"
    by (auto simp: example_before_def)
  have f: "map (\<lambda>r. r = Res_Failed) rs = replicate 6 False"
    using r(3,4) by (intro replicate_eqI) (auto simp: example_before_def)
  have "spec_run True (zip example_before (replicate 6 False)) (abs_sys sys_init) = Some (example_before_results,
      \<lparr>map_data = [None, Some (Bool_Val True, Undefined_Val), Some (Undefined_Val, Undefined_Val)],
       spec_iters = [Some \<lparr>sp_live = True, sp_kind = JS_ITERATOR_KIND_VALUE, sp_index = 1\<rparr>]\<rparr>)"
    by (simp add: example_before_def example_before_results_def numeral_eq_Suc spec_put_def spec_find_def spec_get_def iter_at_def
      spec_next_def entries_from_def iterator_value_def abs_sys_def sys_init_def map_init_def abs_data_def)
  then show ?thesis using r f by simp
qed

theorem js_map_iteration_witness:
  "\<exists>sys m' vs sys' m''. map_run True example_before sys_init \<lparr>mem_outcomes = [], mem_live = 0\<rparr> = Some (example_before_results, sys, m') \<and>
     map_run True (replicate 4 (Op_Next 0)) sys m' = Some (vs, sys', m'') \<and>
     vs = [Res_Value (Bool_Val True), Res_Value Undefined_Val, Res_Done, Res_Done]"
proof -
  obtain sys m' where r: "map_run True example_before sys_init \<lparr>mem_outcomes = [], mem_live = 0\<rparr> = Some (example_before_results, sys, m')"
    and a: "abs_sys sys = \<lparr>map_data = [None, Some (Bool_Val True, Undefined_Val), Some (Undefined_Val, Undefined_Val)],
       spec_iters = [Some \<lparr>sp_live = True, sp_kind = JS_ITERATOR_KIND_VALUE, sp_index = 1\<rparr>]\<rparr>"
    using example_before_run by auto
  have ops: "list_all op_ok example_before" "length example_before + 2 < 2 ^ 31" by (simp_all add: example_before_def)
  have d: "abs_data (the_map sys) = [None, Some (Bool_Val True, Undefined_Val), Some (Undefined_Val, Undefined_Val)]"
    and "map (map_option abs_iter) (iters sys) = [Some \<lparr>sp_live = True, sp_kind = JS_ITERATOR_KIND_VALUE, sp_index = 1\<rparr>]"
    using a by (simp_all add: abs_sys_def)
  then obtain it where it: "iter_at (iters sys) 0 = Some it" "abs_iter it = \<lparr>sp_live = True, sp_kind = JS_ITERATOR_KIND_VALUE, sp_index = 1\<rparr>"
    by (auto simp: iter_at_def map_eq_Cons_conv)
  then have k: "it_kind it = JS_ITERATOR_KIND_VALUE" by (simp add: abs_iter_def)
  have "to_visit (abs_iter it) (abs_data (the_map sys)) = [1, 2]"
    by (simp add: it(2) d to_visit_def entries_from_def upt_rec)
  with js_map_iteration [OF ops r it(1), of 4] r show ?thesis
    by (auto simp: d k visit_def iterator_value_def spec_get_def numeral_eq_Suc step_result_def list_all2_Cons2)
qed

section \<open>Ropes as keys\<close>

text \<open>
  A rope and the string with the same units are the same key, but the tag mixed into the hash sends them to
  different chains once the table has four: the lookup of the one misses the other. Hence \<open>key_ok\<close>.
\<close>

lemma hash_string_rope_units: "hash_string_rope r h = hash_string16 (runits r) h"
proof (induction r arbitrary: h)
  case (Str p)
  then show ?case by (simp add: hash_string_units)
next
  case (Rope n w d l r)
  have "hash_string16 (us @ vs) h = hash_string16 vs (hash_string16 us h)" for us vs h by (induction us arbitrary: h) simp_all
  then show ?case using Rope by simp
qed

lemma hash_slot_bit:
  assumes "hash_slot key (2 ^ k) = hash_slot key' (2 ^ k)" and "0 < k"
  shows "bit (map_hash_key key) 0 \<longleftrightarrow> bit (map_hash_key key') 0"
proof -
  have "(of_nat (2 ^ k) - 1 :: u32) = mask k" by (simp add: mask_eq_exp_minus_1)
  then have "unat (map_hash_key key AND mask k) = unat (map_hash_key key' AND mask k)"
    using assms(1) by (simp only: hash_slot_def)
  then have "map_hash_key key AND mask k = map_hash_key key' AND mask k" by (simp only: word_unat_eq_iff)
  then have "bit (map_hash_key key AND mask k) 0 \<longleftrightarrow> bit (map_hash_key key' AND mask k) 0" by (rule arg_cong)
  then show ?thesis using assms(2) by (simp only: bit_and_iff bit_mask_iff) simp
qed

lemma rope_key_missed:
  assumes "rope_wf r" and "runits r = units s" and "2 \<le> k"
  shows "js_same_value_zero (String_Val s) (String_Rope r)" "js_same_value_zero (String_Rope r) (String_Val s)"
    "hash_slot (String_Rope r) (2 ^ k) \<noteq> hash_slot (String_Val s) (2 ^ k)"
proof -
  define h where "h = hash_string s 0"
  have h: "hash_string_rope r 0 = h" using assms(2) by (simp add: h_def hash_string_rope_units hash_string_units)
  have "bit (- 6 :: u32) 0 \<noteq> bit (- 7 :: u32) 0" by simp
  then have "bit (map_hash_key (String_Rope r)) 0 \<noteq> bit (map_hash_key (String_Val s)) 0"
    by (simp only: map_hash_key.simps h h_def [symmetric] tag_defs of_int_minus of_int_numeral bit_xor_iff) blast
  then show "hash_slot (String_Rope r) (2 ^ k) \<noteq> hash_slot (String_Val s) (2 ^ k)"
    using hash_slot_bit assms(3) by (metis less_le_trans zero_less_numeral)
  have r: "rope_ok r" "rope_ok (Str s)"
    using assms(1,2) length_runits [of r] rope_ok_len [of r] str_len_units [of s] by (simp_all add: rope_wf_def)
  show "js_same_value_zero (String_Val s) (String_Rope r)" "js_same_value_zero (String_Rope r) (String_Val s)"
    using rope_compare_units(2) [OF r] rope_compare_units(2) [OF r(2,1)] assms(2) by simp_all
qed

end
