(* ===== verification/Array_Sort.thy ===== *)
theory Array_Sort
  imports "HOL-Library.List_Lexorder" Js_Value Rqsort
begin

text \<open>
  \<open>Array.prototype.sort\<close> of \<open>src/qjs/quickjs.c\<close>: the elements are collected into slots with their positions,
  \<open>rqsort\<close> sorts the slots by the values and equal values by the positions, and the slots are written
  back before the undefined elements and the holes. The array has data properties only, whose reading,
  setting and deleting succeeds. What the script supplies, the conversions and the comparison
  function, is a parameter, without side effects.
\<close>

section \<open>The code\<close>

text \<open>\<open>sc_same\<close>: the two values are the same bits, as \<open>memcmp\<close> sees them. The cached string of a slot is a
  function of its value.\<close>

record sort_context =
  sc_same :: "jsval \<Rightarrow> jsval \<Rightarrow> bool"
  sc_method :: "(jsval \<Rightarrow> jsval \<Rightarrow> jsval) option"
  sc_to_float64 :: "jsval \<Rightarrow> u64"
  sc_to_string :: "jsval \<Rightarrow> js_string"

record value_slot =
  slot_val :: jsval
  slot_pos :: nat

text \<open>\<open>(val > 0) - (val < 0)\<close>, for an integer or a double.\<close>

definition result_sign :: "sort_context \<Rightarrow> jsval \<Rightarrow> int" where
  "result_sign psc res =
     (case res of
        Int_Val i \<Rightarrow> sgn (sint i)
      | _ \<Rightarrow> (let d = sc_to_float64 psc res
              in if f64_is_nan d \<or> f64_is_zero d then 0 else if f64_sign d then - 1 else 1))"

definition value_cmp :: "sort_context \<Rightarrow> jsval \<Rightarrow> jsval \<Rightarrow> int" where
  "value_cmp psc a b =
     (case sc_method psc of
        Some call \<Rightarrow> if sc_same psc a b then 0 else result_sign psc (call a b)
      | None \<Rightarrow> js_string_compare (sc_to_string psc a) (sc_to_string psc b))"

definition js_array_cmp_generic :: "sort_context \<Rightarrow> value_slot \<Rightarrow> value_slot \<Rightarrow> int" where
  "js_array_cmp_generic psc ap bp =
     (let cmp = value_cmp psc (slot_val ap) (slot_val bp)
      in if cmp \<noteq> 0 then cmp else of_bool (slot_pos ap > slot_pos bp) - of_bool (slot_pos ap < slot_pos bp))"

text \<open>Room for one more slot: the new capacity. A slot has 32 bytes; \<open>array\<close> is \<open>NULL\<close> while the capacity is zero.\<close>

definition sort_grow :: "slack \<Rightarrow> nat \<Rightarrow> nat \<Rightarrow> mem \<Rightarrow> (js_error + nat) \<times> mem" where
  "sort_grow slack pos array_size m =
     (if pos \<ge> array_size
      then let new_size = (array_size + array_size div 2 + 31) div 16 * 16
           in case (if array_size = 0 then js_malloc m else js_realloc m) of
                (Inl e, m) \<Rightarrow> (Inl e, m)
              | (Inr u, m) \<Rightarrow> (Inr (new_size + slack (new_size * 32) div 32), m)
      else (Inr array_size, m))"

text \<open>The loop over the elements from \<open>i\<close> on; a hole is \<open>None\<close>.\<close>

fun sort_collect :: "slack \<Rightarrow> jsval option list \<Rightarrow> nat \<Rightarrow> value_slot list \<Rightarrow> nat \<Rightarrow> nat \<Rightarrow> mem \<Rightarrow>
    (js_error + value_slot list \<times> nat \<times> nat) \<times> mem" where
  "sort_collect slack [] i slots array_size undefined_count m = (Inr (slots, array_size, undefined_count), m)"
| "sort_collect slack (v # vs) i slots array_size undefined_count m =
     (case sort_grow slack (length slots) array_size m of
        (Inl e, m) \<Rightarrow> (Inl e, if array_size = 0 then m else snd (js_free m))
      | (Inr array_size, m) \<Rightarrow>
          (case v of
             None \<Rightarrow> sort_collect slack vs (i + 1) slots array_size undefined_count m
           | Some x \<Rightarrow>
               if x = Undefined_Val then sort_collect slack vs (i + 1) slots array_size (undefined_count + 1) m
               else sort_collect slack vs (i + 1) (slots @ [\<lparr>slot_val = x, slot_pos = i\<rparr>]) array_size undefined_count m))"

text \<open>The three loops that write: a slot that is in its place is skipped.\<close>

fun write_slots :: "value_slot list \<Rightarrow> nat \<Rightarrow> jsval option list \<Rightarrow> jsval option list" where
  "write_slots [] n obj = obj"
| "write_slots (s # ss) n obj =
     write_slots ss (n + 1) (if slot_pos s = n then obj else obj[n := Some (slot_val s)])"

fun write_undefined :: "nat \<Rightarrow> nat \<Rightarrow> jsval option list \<Rightarrow> jsval option list" where
  "write_undefined 0 i obj = obj"
| "write_undefined (Suc k) i obj = write_undefined k (i + 1) (obj[i := Some Undefined_Val])"

fun delete_rest :: "nat \<Rightarrow> nat \<Rightarrow> jsval option list \<Rightarrow> jsval option list" where
  "delete_rest 0 i obj = obj"
| "delete_rest (Suc k) i obj = delete_rest k (i + 1) (obj[i := None])"

definition js_array_sort :: "sort_context \<Rightarrow> slack \<Rightarrow> jsval option list \<Rightarrow> mem \<Rightarrow> (js_error + jsval option list) \<times> mem" where
  "js_array_sort psc slack obj m =
     (case sort_collect slack obj 0 [] 0 0 m of
        (Inl e, m) \<Rightarrow> (Inl e, m)
      | (Inr (slots, array_size, undefined_count), m) \<Rightarrow>
          (case rqsort (js_array_cmp_generic psc) slots of
             None \<Rightarrow> (Inl Diverges, m)
           | Some slots \<Rightarrow>
               (let n = length slots;
                    obj = write_slots slots 0 obj;
                    m = (if array_size = 0 then m else snd (js_free m));
                    obj = write_undefined undefined_count n obj;
                    i = n + undefined_count
                in (Inr (delete_rest (length obj - i) i obj), m))))"

section \<open>The order of strings\<close>

text \<open>The comparison is the lexicographic order of the units.\<close>

lemma lex_cmp_le: "lex_cmp a b \<le> 0 \<longleftrightarrow> a \<le> b"
  by (induction a b rule: lex_cmp.induct) (auto simp: word_less_def word_le_def uint_eq_u16 le_less)

lemma lex_cmp_less: "lex_cmp a b < 0 \<longleftrightarrow> a < b"
  by (induction a b rule: lex_cmp.induct) (auto simp: word_less_def)

instantiation js_string :: preorder
begin

definition less_eq_js_string :: "js_string \<Rightarrow> js_string \<Rightarrow> bool" where
  "p \<le> q \<longleftrightarrow> js_string_compare p q \<le> 0"

definition less_js_string :: "js_string \<Rightarrow> js_string \<Rightarrow> bool" where
  "p < q \<longleftrightarrow> js_string_compare p q < 0"

instance
  by standard (auto simp: less_eq_js_string_def less_js_string_def js_string_compare_units lex_cmp_le lex_cmp_less)

end

lemma js_string_le_units: "p \<le> q \<longleftrightarrow> units p \<le> units q" for p q :: js_string
  by (simp add: less_eq_js_string_def js_string_compare_units lex_cmp_le)

lemma js_string_compare_units_le:
  "js_string_compare p q \<le> 0 \<longleftrightarrow> units p \<le> units q" "js_string_compare p q < 0 \<longleftrightarrow> units p < units q"
  "js_string_compare p q = 0 \<longleftrightarrow> units p = units q"
  by (simp_all add: js_string_compare_units lex_cmp_le lex_cmp_less lex_cmp_0)

lemma js_string_compare_flip: "js_string_compare p q < 0 \<longleftrightarrow> 0 < js_string_compare q p"
  using js_string_compare_units_le(1) [of q p] js_string_compare_units_le(2) [of p q] by (simp add: not_le [symmetric])

interpretation string_order: comparison js_string_compare
  by unfold_locales (auto simp: js_string_compare_flip js_string_compare_units_le)

section \<open>Stable sorting\<close>

text \<open>Elements with a value and a place are compared by the values and, if these are equal, by the places. Sorting
  with this comparison is stable, whatever the algorithm.\<close>

locale stable_order = comparison cmp for cmp :: "'v \<Rightarrow> 'v \<Rightarrow> int" +
  fixes elem_val :: "'s \<Rightarrow> 'v" and elem_pos :: "'s \<Rightarrow> nat"
begin

definition elem_cmp :: "'s \<Rightarrow> 's \<Rightarrow> int" where
  "elem_cmp a b =
     (if cmp (elem_val a) (elem_val b) \<noteq> 0 then cmp (elem_val a) (elem_val b)
      else of_bool (elem_pos a > elem_pos b) - of_bool (elem_pos a < elem_pos b))"

lemma elem_cmp_le:
  "elem_cmp a b \<le> 0 \<longleftrightarrow> cmp (elem_val a) (elem_val b) < 0 \<or> cmp (elem_val a) (elem_val b) = 0 \<and> elem_pos a \<le> elem_pos b"
  by (auto simp: elem_cmp_def)

lemma cmp_less_trans:
  assumes "cmp a b \<le> 0" and "cmp b c \<le> 0" and "cmp a b < 0 \<or> cmp b c < 0"
  shows "cmp a c < 0"
proof -
  have "cmp a c \<noteq> 0"
  proof
    assume "cmp a c = 0"
    then have "cmp c a \<le> 0" using cmp_zero_flip [of a c] by simp
    then have "cmp b a \<le> 0" "cmp c b \<le> 0" using cmp_trans assms(1,2) by blast+
    then show False using assms(3) cmp_flip [of a b] cmp_flip [of b c] by auto
  qed
  then show ?thesis using cmp_trans [OF assms(1,2)] by simp
qed

lemma cmp_zero_trans: "cmp a b = 0 \<Longrightarrow> cmp b c = 0 \<Longrightarrow> cmp a c = 0"
  using cmp_trans [of a b c] cmp_trans [of c b a] cmp_zero_flip [of a b] cmp_zero_flip [of b c] cmp_flip [of a c] by auto

end

sublocale stable_order \<subseteq> elems: comparison elem_cmp
proof
  show "elem_cmp a b < 0 \<longleftrightarrow> elem_cmp b a > 0" for a b
    using cmp_flip [of "elem_val a" "elem_val b"] cmp_zero_flip [of "elem_val a" "elem_val b"] by (auto simp: elem_cmp_def)
  show "elem_cmp a c \<le> 0" if "elem_cmp a b \<le> 0" "elem_cmp b c \<le> 0" for a b c
    using that cmp_less_trans [of "elem_val a" "elem_val b" "elem_val c"] cmp_zero_trans [of "elem_val a" "elem_val b" "elem_val c"]
    by (auto simp: elem_cmp_le)
qed

context stable_order
begin

lemma comparison_elem_cmp: "comparison elem_cmp"
  by unfold_locales

lemma sorted_vals: "sorted_wrt (\<lambda>a b. elem_cmp a b \<le> 0) ys \<Longrightarrow> sorted_wrt (\<lambda>a b. cmp a b \<le> 0) (map elem_val ys)"
  unfolding sorted_wrt_map by (erule sorted_wrt_mono_rel [rotated]) (auto simp: elem_cmp_le)

lemma equal_in_place:
  assumes "sorted_wrt (\<lambda>a b. elem_cmp a b \<le> 0) ys" and "mset ys = mset xs" and "sorted (map elem_pos xs)" and "inj_on elem_pos (set xs)"
  shows "filter (\<lambda>s. cmp v (elem_val s) = 0) ys = filter (\<lambda>s. cmp v (elem_val s) = 0) xs"
proof -
  let ?P = "\<lambda>s. cmp v (elem_val s) = 0"
  have "sorted_wrt (\<lambda>a b. elem_cmp a b \<le> 0) (filter ?P ys)" using assms(1) by (rule sorted_wrt_filter)
  moreover have "elem_pos a \<le> elem_pos b" if "elem_cmp a b \<le> 0" "?P a" "?P b" for a b
  proof -
    have "cmp (elem_val a) (elem_val b) = 0" using that(2,3) cmp_zero_flip cmp_zero_trans by blast
    then show ?thesis using that(1) by (simp add: elem_cmp_le)
  qed
  ultimately have "sorted (map elem_pos (filter ?P ys))"
    unfolding sorted_map by (rule sorted_wrt_mono_rel [rotated]) auto
  then have "sort_key elem_pos (filter ?P xs) = filter ?P ys"
    by (rule sort_key_inj_key_eq [rotated -1]) (use assms(2,4) in \<open>auto simp: inj_on_def\<close>)
  moreover have "sorted (map elem_pos (filter ?P xs))" using assms(3) by (rule sorted_filter)
  then have "sort_key elem_pos (filter ?P xs) = filter ?P xs"
    by (rule sort_key_inj_key_eq [rotated -1]) (use assms(4) in \<open>auto simp: inj_on_def\<close>)
  ultimately show ?thesis by simp
qed

end

text \<open>The default order of the slots, and the one of a consistent comparison function.\<close>

interpretation default_order: stable_order "\<lambda>a b. js_string_compare (to_string a) (to_string b)" slot_val slot_pos for to_string
  by unfold_locales (auto simp: js_string_compare_flip js_string_compare_units_le)

lemma value_cmp_default: "sc_method psc = None \<Longrightarrow> value_cmp psc = (\<lambda>a b. js_string_compare (sc_to_string psc a) (sc_to_string psc b))"
  by (simp add: value_cmp_def fun_eq_iff)

lemma stable_order_value_cmp: "sc_method psc = None \<or> comparison (value_cmp psc) \<Longrightarrow> stable_order (value_cmp psc)"
  using default_order.stable_order_axioms [of "sc_to_string psc"] by (auto simp: value_cmp_default stable_order_def)

lemma js_array_cmp_generic_elem:
  "stable_order (value_cmp psc) \<Longrightarrow> js_array_cmp_generic psc = stable_order.elem_cmp (value_cmp psc) slot_val slot_pos"
  by (simp add: js_array_cmp_generic_def stable_order.elem_cmp_def Let_def fun_eq_iff)

section \<open>Collecting and writing back\<close>

text \<open>The elements that take part, and their slots.\<close>

definition present :: "jsval option list \<Rightarrow> jsval list" where
  "present obj = filter (\<lambda>x. x \<noteq> Undefined_Val) (List.map_filter (\<lambda>v. v) obj)"

fun slots_from :: "nat \<Rightarrow> jsval option list \<Rightarrow> value_slot list" where
  "slots_from i [] = []"
| "slots_from i (v # vs) =
     (case v of
        None \<Rightarrow> slots_from (i + 1) vs
      | Some x \<Rightarrow> (if x = Undefined_Val then [] else [\<lparr>slot_val = x, slot_pos = i\<rparr>]) @ slots_from (i + 1) vs)"

lemma slots_from_vals: "map slot_val (slots_from i vs) = present vs"
  by (induction vs arbitrary: i) (auto simp: present_def split: option.splits)

lemma slots_from_pos:
  "s \<in> set (slots_from i vs) \<Longrightarrow> i \<le> slot_pos s \<and> slot_pos s < i + length vs \<and> vs ! (slot_pos s - i) = Some (slot_val s)"
proof (induction vs arbitrary: i)
  case (Cons v vs)
  then have "s \<in> set (slots_from (i + 1) vs) \<or> v = Some (slot_val s) \<and> slot_pos s = i" by (auto split: option.splits if_splits)
  then show ?case using Cons.IH [of "i + 1"] by (auto simp: nth_Cons')
qed simp

lemma slots_from_sorted: "sorted_wrt (<) (map slot_pos (slots_from i vs))"
  using slots_from_pos by (induction vs arbitrary: i) (fastforce split: option.splits)+

lemma present_count: "length (present vs) + count_list vs (Some Undefined_Val) + count_list vs None = length vs"
  by (induction vs) (auto simp: present_def split: if_splits)

text \<open>The block of the array.\<close>

lemma sort_grow_ok:
  assumes "sort_grow slack pos sz m = (r, m')"
  shows "(mem_outcomes m = [] \<longrightarrow> mem_outcomes m' = [] \<and> r \<noteq> Inl OutOfMemory) \<and>
    (case r of Inl e \<Rightarrow> e = OutOfMemory \<and> mem_live m' = mem_live m
     | Inr sz' \<Rightarrow> 0 < sz' \<and> mem_live m' - 1 = mem_live m - of_bool (sz \<noteq> 0))"
  using assms by (auto simp: sort_grow_def js_malloc_def js_realloc_def Let_def split: if_splits list.splits)

lemma sort_collect_ok:
  assumes "sort_collect slack vs i slots sz undefs m = (r, m')"
  shows "(mem_outcomes m = [] \<longrightarrow> (\<exists>x. r = Inr x)) \<and>
    (case r of Inl e \<Rightarrow> e = OutOfMemory \<and> mem_live m' = mem_live m - of_bool (sz \<noteq> 0)
     | Inr (slots', sz', undefs') \<Rightarrow> slots' = slots @ slots_from i vs \<and> undefs' = undefs + count_list vs (Some Undefined_Val) \<and>
         mem_live m' - of_bool (sz' \<noteq> 0) = mem_live m - of_bool (sz \<noteq> 0))"
  using assms
proof (induction vs arbitrary: i slots sz undefs m)
  case Nil
  then show ?case by auto
next
  case (Cons v vs)
  obtain g m1 where g: "sort_grow slack (length slots) sz m = (g, m1)" by (cases "sort_grow slack (length slots) sz m")
  note gr = sort_grow_ok [OF g]
  show ?case
  proof (cases g)
    case (Inl e)
    then show ?thesis using Cons.prems g gr by (auto simp: js_free_def split: if_splits)
  next
    case (Inr size1)
    define slots1 where "slots1 = slots @ (case v of Some x \<Rightarrow> if x = Undefined_Val then [] else [\<lparr>slot_val = x, slot_pos = i\<rparr>] | None \<Rightarrow> [])"
    define undefs1 where "undefs1 = undefs + of_bool (v = Some Undefined_Val)"
    have "sort_collect slack vs (i + 1) slots1 size1 undefs1 m1 = (r, m')"
      using Cons.prems g Inr by (auto simp: slots1_def undefs1_def split: option.splits if_splits)
    from Cons.IH [OF this] show ?thesis
      using gr Inr by (auto simp: slots1_def undefs1_def split: sum.splits option.splits)
  qed
qed

text \<open>What the loops write.\<close>

lemma write_slots_eq:
  assumes "n + length ss \<le> length obj" and "\<forall>s\<in>set ss. n \<le> slot_pos s \<longrightarrow> obj ! slot_pos s = Some (slot_val s)"
  shows "write_slots ss n obj = take n obj @ map (\<lambda>s. Some (slot_val s)) ss @ drop (n + length ss) obj"
  using assms
proof (induction ss arbitrary: n obj)
  case (Cons s ss)
  define obj1 where "obj1 = obj[n := Some (slot_val s)]"
  have o: "(if slot_pos s = n then obj else obj[n := Some (slot_val s)]) = obj1"
    using Cons.prems by (auto simp: obj1_def list_update_same_conv [THEN iffD2])
  have "write_slots ss (n + 1) obj1 = take (n + 1) obj1 @ map (\<lambda>s. Some (slot_val s)) ss @ drop (n + 1 + length ss) obj1"
    by (rule Cons.IH) (use Cons.prems in \<open>auto simp: obj1_def nth_list_update\<close>)
  moreover have "take (n + 1) obj1 = take n obj @ [Some (slot_val s)]"
    using Cons.prems(1) by (simp add: obj1_def take_Suc_conv_app_nth)
  ultimately show ?case by (simp add: o) (simp add: obj1_def)
qed simp

lemma write_undefined_eq:
  "i + k \<le> length obj \<Longrightarrow> write_undefined k i obj = take i obj @ replicate k (Some Undefined_Val) @ drop (i + k) obj"
proof (induction k arbitrary: i obj)
  case (Suc k)
  then show ?case using Suc.IH [of "i + 1" "obj[i := Some Undefined_Val]"] by (simp add: take_Suc_conv_app_nth)
qed simp

lemma delete_rest_eq: "i + k \<le> length obj \<Longrightarrow> delete_rest k i obj = take i obj @ replicate k None @ drop (i + k) obj"
proof (induction k arbitrary: i obj)
  case (Suc k)
  then show ?case using Suc.IH [of "i + 1" "obj[i := None]"] by (simp add: take_Suc_conv_app_nth)
qed simp

lemma written:
  assumes "length ss + k + h = length obj" and "\<forall>s\<in>set ss. obj ! slot_pos s = Some (slot_val s)"
  defines "obj1 \<equiv> write_undefined k (length ss) (write_slots ss 0 obj)"
  shows "delete_rest (length obj1 - (length ss + k)) (length ss + k) obj1 =
    map (\<lambda>s. Some (slot_val s)) ss @ replicate k (Some Undefined_Val) @ replicate h None"
proof -
  have "write_slots ss 0 obj = map (\<lambda>s. Some (slot_val s)) ss @ drop (length ss) obj"
    using write_slots_eq [of 0 ss obj] assms(1,2) by simp
  then have "obj1 = map (\<lambda>s. Some (slot_val s)) ss @ replicate k (Some Undefined_Val) @ drop (length ss + k) obj"
    using write_undefined_eq [of "length ss" k "write_slots ss 0 obj"] assms(1) by (simp add: obj1_def add.commute)
  moreover from this have "length obj1 = length obj" using assms(1) by simp
  moreover have "length obj1 - (length ss + k) = h" using calculation assms(1) by simp
  ultimately show ?thesis using delete_rest_eq [of "length ss + k" h obj1] assms(1) by simp
qed

section \<open>Sorting an array\<close>

lemma sorted_slots:
  assumes "stable_order (value_cmp psc)"
  shows "\<exists>ys. rqsort (js_array_cmp_generic psc) (slots_from 0 obj) = Some ys \<and> mset ys = mset (slots_from 0 obj) \<and>
    sorted_wrt (\<lambda>a b. value_cmp psc a b \<le> 0) (map slot_val ys) \<and>
    (\<forall>v. filter (\<lambda>x. value_cmp psc v x = 0) (map slot_val ys) = filter (\<lambda>x. value_cmp psc v x = 0) (present obj))"
proof -
  let ?c = "js_array_cmp_generic psc"
  have c: "?c = stable_order.elem_cmp (value_cmp psc) slot_val slot_pos" by (rule js_array_cmp_generic_elem [OF assms])
  have "comparison ?c" unfolding c by (rule stable_order.comparison_elem_cmp [OF assms])
  then obtain ys where ys: "rqsort ?c (slots_from 0 obj) = Some ys" "mset ys = mset (slots_from 0 obj)"
      "sorted_wrt (\<lambda>a b. ?c a b \<le> 0) ys"
    using comparison.rqsort_sorted by blast
  have "sorted_wrt (\<lambda>a b. value_cmp psc a b \<le> 0) (map slot_val ys)"
    by (rule stable_order.sorted_vals [OF assms ys(3) [unfolded c]])
  moreover have "filter (\<lambda>x. value_cmp psc v x = 0) (map slot_val ys) = filter (\<lambda>x. value_cmp psc v x = 0) (present obj)" for v
  proof -
    have "sorted (map slot_pos (slots_from 0 obj))" "distinct (map slot_pos (slots_from 0 obj))"
      using slots_from_sorted [of 0 obj] by (simp_all add: strict_sorted_iff)
    then have "filter (\<lambda>s. value_cmp psc v (slot_val s) = 0) ys = filter (\<lambda>s. value_cmp psc v (slot_val s) = 0) (slots_from 0 obj)"
      by (intro stable_order.equal_in_place [OF assms ys(3) [unfolded c] ys(2)]) (simp_all add: distinct_map)
    then show ?thesis by (simp add: filter_map comp_def flip: slots_from_vals [of 0])
  qed
  ultimately show ?thesis using ys by blast
qed

text \<open>C17: \<open>Array.prototype.sort\<close>, in the default order or with a consistent comparison function: it returns, fails at
  most for lack of memory and frees its array; the result has the elements that are present in order, equal ones in the
  order they had (sorting is stable), then the undefined ones, then the holes. In the default order this is sorting by
  the units of the strings.\<close>

theorem js_array_sort_correct:
  assumes "sc_method psc = None \<or> comparison (value_cmp psc)" and "js_array_sort psc slack obj m = (r, m')"
  shows "mem_live m' = mem_live m \<and> (mem_outcomes m = [] \<longrightarrow> (\<exists>x. r = Inr x)) \<and>
    (case r of Inl e \<Rightarrow> e = OutOfMemory
     | Inr obj' \<Rightarrow> (\<exists>vs. obj' = map Some vs @ replicate (count_list obj (Some Undefined_Val)) (Some Undefined_Val) @
           replicate (count_list obj None) None \<and>
         mset vs = mset (present obj) \<and> sorted_wrt (\<lambda>a b. value_cmp psc a b \<le> 0) vs \<and>
         (\<forall>v. filter (\<lambda>x. value_cmp psc v x = 0) vs = filter (\<lambda>x. value_cmp psc v x = 0) (present obj)) \<and>
         (sc_method psc = None \<longrightarrow> vs = sort_key (\<lambda>v. units (sc_to_string psc v)) (present obj))))"
proof -
  obtain c m1 where c: "sort_collect slack obj 0 [] 0 0 m = (c, m1)" by (cases "sort_collect slack obj 0 [] 0 0 m")
  note cl = sort_collect_ok [OF c]
  show ?thesis
  proof (cases c)
    case (Inl e)
    then show ?thesis using assms(2) c cl by (auto simp: js_array_sort_def)
  next
    case (Inr x)
    then obtain sz where x: "c = Inr (slots_from 0 obj, sz, count_list obj (Some Undefined_Val))"
      and live: "mem_live m1 - of_bool (sz \<noteq> 0) = mem_live m" using cl by (cases x) auto
    obtain ys where ys: "rqsort (js_array_cmp_generic psc) (slots_from 0 obj) = Some ys" "mset ys = mset (slots_from 0 obj)"
        "sorted_wrt (\<lambda>a b. value_cmp psc a b \<le> 0) (map slot_val ys)"
        "\<forall>v. filter (\<lambda>x. value_cmp psc v x = 0) (map slot_val ys) = filter (\<lambda>x. value_cmp psc v x = 0) (present obj)"
      using sorted_slots [OF stable_order_value_cmp [OF assms(1)]] by blast
    define vs where "vs = map slot_val ys"
    have m: "mset vs = mset (present obj)" using ys(2) by (simp add: vs_def flip: slots_from_vals [of 0])
    have len: "length ys + count_list obj (Some Undefined_Val) + count_list obj None = length obj"
      using present_count [of obj] mset_eq_length [OF m] by (simp add: vs_def)
    have "obj ! slot_pos s = Some (slot_val s)" if "s \<in> set ys" for s
      using that slots_from_pos [of s 0 obj] mset_eq_setD [OF ys(2)] by simp
    then have r: "r = Inr (map Some vs @ replicate (count_list obj (Some Undefined_Val)) (Some Undefined_Val) @ replicate (count_list obj None) None)"
        "m' = (if sz = 0 then m1 else snd (js_free m1))"
      using assms(2) c x ys(1) written [OF len] by (auto simp: js_array_sort_def Let_def vs_def comp_def)
    have "vs = sort_key (\<lambda>v. units (sc_to_string psc v)) (present obj)" if "sc_method psc = None"
    proof -
      note d = value_cmp_default [OF that]
      have e: "filter (\<lambda>x. units (sc_to_string psc v) = units (sc_to_string psc x)) vs = filter (\<lambda>x. units (sc_to_string psc v) = units (sc_to_string psc x)) (present obj)"
        for v using ys(4) by (simp add: d vs_def js_string_compare_units_le)
      have "sorted (map (\<lambda>v. units (sc_to_string psc v)) vs)"
        using ys(3) by (simp add: d vs_def js_string_compare_units_le sorted_map sorted_wrt_map)
      then show ?thesis using properties_for_sort_key [OF m e] by simp
    qed
    then show ?thesis using r live m ys(3,4) by (cases "sz = 0") (simp_all add: vs_def [symmetric] js_free_def)
  qed
qed

theorem js_array_sort_correct_witness:
  "\<exists>m'. js_array_sort \<lparr>sc_same = (=), sc_method = None, sc_to_float64 = \<lambda>_. 0, sc_to_string = \<lambda>v. case v of String_Val s \<Rightarrow> s | _ \<Rightarrow> Str8 []\<rparr> (\<lambda>_. 0)
      [Some (String_Val (Str8 [98])), None, Some Undefined_Val, Some (String_Val (Str8 [97, 99])), Some (String_Val (Str16 [97]))]
      \<lparr>mem_outcomes = [], mem_live = 0\<rparr> =
    (Inr [Some (String_Val (Str16 [97])), Some (String_Val (Str8 [97, 99])), Some (String_Val (Str8 [98])), Some Undefined_Val, None], m') \<and>
    mem_live m' = 0"
proof -
  let ?psc = "\<lparr>sc_same = (=), sc_method = None, sc_to_float64 = \<lambda>_. 0, sc_to_string = \<lambda>v. case v of String_Val s \<Rightarrow> s | _ \<Rightarrow> Str8 []\<rparr>"
  let ?obj = "[Some (String_Val (Str8 [98])), None, Some Undefined_Val, Some (String_Val (Str8 [97, 99])), Some (String_Val (Str16 [97]))]"
  obtain r m' where s: "js_array_sort ?psc (\<lambda>_. 0) ?obj \<lparr>mem_outcomes = [], mem_live = 0\<rparr> = (r, m')" by (metis surj_pair)
  have "sc_method ?psc = None \<or> comparison (value_cmp ?psc)" by simp
  note c = js_array_sort_correct [OF this s]
  have "sort_key (\<lambda>v. units (sc_to_string ?psc v)) (present ?obj) = [String_Val (Str16 [97]), String_Val (Str8 [97, 99]), String_Val (Str8 [98])]"
    by (simp add: present_def)
  then have "r = Inr [Some (String_Val (Str16 [97])), Some (String_Val (Str8 [97, 99])), Some (String_Val (Str8 [98])), Some Undefined_Val, None]"
    "mem_live m' = 0" using c by auto
  then show ?thesis using s by blast
qed

end
