(* ===== verification/Int_Text.thy ===== *)
theory Int_Text
  imports Cutils
begin

text \<open>
  Integers as text: the functions \<open>u32toa\<close> to \<open>i64toa_radix\<close> of \<open>src/qjs/dtoa.c\<close> (with \<open>USE_FAST_INT\<close>) against the
  numeral of a number in a base. A function returns the characters it writes; the loops that write
  backwards put a character in front of those that are there.
\<close>

section \<open>Numerals\<close>

definition digit_char :: "nat \<Rightarrow> u8" where
  "digit_char d = (if d < 10 then of_nat (48 + d) else of_nat (87 + d))"

function nat_text :: "nat \<Rightarrow> nat \<Rightarrow> u8 list" where
  "nat_text r n = (if n < r \<or> r < 2 then [digit_char n] else nat_text r (n div r) @ [digit_char (n mod r)])"
  by pat_completeness auto
termination by (relation "measure snd") auto

declare nat_text.simps [simp del]

definition int_text :: "nat \<Rightarrow> int \<Rightarrow> u8 list" where
  "int_text r v = (if v < 0 then [45] else []) @ nat_text r (nat \<bar>v\<bar>)"

text \<open>The last \<open>k\<close> digits, with leading zeros.\<close>

fun padded :: "nat \<Rightarrow> nat \<Rightarrow> nat \<Rightarrow> u8 list" where
  "padded r 0 n = []"
| "padded r (Suc k) n = padded r k (n div r) @ [digit_char (n mod r)]"

lemma length_padded [simp]: "length (padded r k n) = k"
  by (induction k arbitrary: n) simp_all

lemma padded_mod: "padded r k (n mod r ^ k) = padded r k n"
proof (induction k arbitrary: n)
  case (Suc k)
  have "n mod r ^ Suc k div r = n div r mod r ^ k" by (cases "r = 0") (simp_all add: mod_mult2_eq)
  moreover have "n mod r ^ Suc k mod r = n mod r" by (simp add: mod_mult2_eq)
  ultimately show ?case using Suc.IH [of "n div r"] by simp
qed simp

lemma nat_text_split:
  assumes "2 \<le> r" and "r ^ k \<le> n"
  shows "nat_text r n = nat_text r (n div r ^ k) @ padded r k n"
  using assms(2)
proof (induction k arbitrary: n)
  case (Suc k)
  have r: "0 < r" "r \<le> r ^ Suc k" using assms(1) by simp_all
  then have "r \<le> n" using Suc.prems by linarith
  then have "nat_text r n = nat_text r (n div r) @ [digit_char (n mod r)]"
    using assms(1) by (subst nat_text.simps) simp
  moreover have "r ^ k \<le> n div r" using Suc.prems r(1) by (simp add: less_eq_div_iff_mult_less_eq mult.commute)
  ultimately show ?case using Suc.IH [of "n div r"] by (simp add: div_mult2_eq)
qed simp

lemma nat_text_digit: "n < r \<Longrightarrow> nat_text r n = [digit_char n]"
  by (subst nat_text.simps) simp

lemma nat_text_padded:
  assumes "2 \<le> r" and "n < r ^ k" and "k = 1 \<or> 1 < k \<and> r ^ (k - 1) \<le> n"
  shows "nat_text r n = padded r k n"
proof (cases "k = 1")
  case True
  then show ?thesis using assms(2) by (simp add: nat_text_digit)
next
  case False
  then obtain j where k: "k = Suc j" "r ^ j \<le> n" using assms(3) by (cases k) auto
  have "n div r ^ j < r" using assms(2) k by (simp add: less_mult_imp_div_less)
  then have t: "nat_text r n = [digit_char (n div r ^ j)] @ padded r j n"
    using nat_text_split [OF assms(1) k(2)] by (simp add: nat_text_digit)
  have "padded r (Suc j) n = [digit_char (n div r ^ j)] @ padded r j n" if "n div r ^ j < r" for n
    using that
  proof (induction j arbitrary: n)
    case (Suc j)
    have "padded r (Suc (Suc j)) n = padded r (Suc j) (n div r) @ [digit_char (n mod r)]" by simp
    also have "padded r (Suc j) (n div r) = [digit_char (n div r div r ^ j)] @ padded r j (n div r)"
      by (rule Suc.IH) (use Suc.prems in \<open>simp add: div_mult2_eq\<close>)
    finally show ?case by (simp add: div_mult2_eq)
  qed simp
  then show ?thesis using t k(1) \<open>n div r ^ j < r\<close> by simp
qed

lemma nat_text_nonempty [simp]: "nat_text r n \<noteq> []"
  by (subst nat_text.simps) simp

lemma length_nat_text: "2 \<le> r \<Longrightarrow> n < r ^ k \<Longrightarrow> 1 \<le> k \<Longrightarrow> length (nat_text r n) \<le> k"
proof (induction r n arbitrary: k rule: nat_text.induct)
  case (1 r n)
  show ?case
  proof (cases "n < r")
    case False
    then obtain j where k: "k = Suc j" "1 \<le> j" using "1.prems" by (cases k; cases "k - 1") auto
    have "n div r < r ^ j" using "1.prems" k by (simp add: less_mult_imp_div_less mult.commute)
    then have "length (nat_text r (n div r)) \<le> j" using "1.IH" "1.prems" False k by simp
    then show ?thesis using False "1.prems" k by (subst nat_text.simps) simp
  qed (use "1.prems" in \<open>simp add: nat_text_digit\<close>)
qed

section \<open>The code\<close>

text \<open>Digits in base ten, and in any base (\<open>if (digit < 10) digit += '0'; else digit += 'a' - 10\<close>).\<close>

fun u32toa_len :: "u32 \<Rightarrow> nat \<Rightarrow> u8 list \<Rightarrow> u8 list" where
  "u32toa_len n 0 buf = buf"
| "u32toa_len n (Suc i) buf = u32toa_len (n div 10) i ((ucast (n mod 10) + 48) # buf)"

definition radix_digit :: "u64 \<Rightarrow> u8" where
  "radix_digit digit = (if digit < 10 then ucast digit + 48 else ucast digit + 87)"

fun u64toa_bin_len :: "u64 \<Rightarrow> nat \<Rightarrow> nat \<Rightarrow> u8 list \<Rightarrow> u8 list" where
  "u64toa_bin_len n radix_bits 0 buf = buf"
| "u64toa_bin_len n radix_bits (Suc i) buf =
     u64toa_bin_len (drop_bit radix_bits n) radix_bits i (radix_digit (n AND (push_bit radix_bits 1 - 1)) # buf)"

function u32toa_loop :: "u32 \<Rightarrow> u8 list \<Rightarrow> u8 list" where
  "u32toa_loop n q =
     (let q = (ucast (n mod 10) + 48) # q; n = n div 10 in if n \<noteq> 0 then u32toa_loop n q else q)"
  by pat_completeness auto
termination
proof (relation "measure (\<lambda>(n, q). unat n)")
  fix n :: u32 and q :: "u8 list" and q' n'
  assume "n' = n div 10" "n' \<noteq> 0"
  then have "unat n \<noteq> 0" "unat n' = unat n div 10" by (auto simp: unat_div unat_eq_0)
  then show "((n', q'), n, q) \<in> measure (\<lambda>(n, q). unat n)" by simp
qed simp

declare u32toa_loop.simps [simp del]

definition u32toa :: "u32 \<Rightarrow> u8 list" where
  "u32toa n = u32toa_loop n []"

definition i32toa :: "u32 \<Rightarrow> u8 list" where
  "i32toa n = (if sint n \<ge> 0 then u32toa n else 45 # u32toa (- n))"

definition u64toa :: "u64 \<Rightarrow> u8 list" where
  "u64toa n =
     (if n < 0x100000000 then u32toa (ucast n)
      else let n1 = n div 1000000000; n = n mod 1000000000;
               q = (if n1 \<ge> 0x100000000
                    then let n2 = ucast (n1 div 1000000000) :: u32; n1 = n1 mod 1000000000
                         in (if n2 \<ge> 10 then [ucast (n2 div 10) + 48, ucast (n2 mod 10) + 48] else [ucast n2 + 48]) @
                            u32toa_len (ucast n1) 9 []
                    else u32toa (ucast n1))
           in q @ u32toa_len (ucast n) 9 [])"

definition i64toa :: "u64 \<Rightarrow> u8 list" where
  "i64toa n = (if sint n \<ge> 0 then u64toa n else 45 # u64toa (- n))"

text \<open>The loop of \<open>u64toa_radix\<close> for a base that is no power of two; a base of one cannot come here.\<close>

function radix_loop :: "u64 \<Rightarrow> u32 \<Rightarrow> u8 list \<Rightarrow> u8 list" where
  "radix_loop n radix q =
     (let q = radix_digit (n mod ucast radix) # q; n' = n div ucast radix
      in if n' \<noteq> 0 \<and> n' \<noteq> n then radix_loop n' radix q else q)"
  by pat_completeness auto
termination
proof (relation "measure (\<lambda>(n, radix, q). unat n)")
  fix n n' :: u64 and radix :: u32 and q q' :: "u8 list"
  assume "n' = n div ucast radix" "n' \<noteq> 0 \<and> n' \<noteq> n"
  then have "unat n' \<le> unat n" "unat n' \<noteq> unat n" by (simp_all add: unat_div word_unat_eq_iff)
  then show "((n', radix, q'), n, radix, q) \<in> measure (\<lambda>(n, radix, q). unat n)" by simp
qed simp

declare radix_loop.simps [simp del]

definition u64toa_radix :: "u64 \<Rightarrow> u32 \<Rightarrow> u8 list" where
  "u64toa_radix n radix =
     (if radix = 10 then u64toa n
      else if radix AND (radix - 1) = 0
      then let radix_bits = 31 - clz32 radix;
               l = (if n = 0 then 1 else (64 - clz64 n + radix_bits - 1) div radix_bits)
           in u64toa_bin_len n radix_bits l []
      else radix_loop n radix [])"

definition i64toa_radix :: "u64 \<Rightarrow> u32 \<Rightarrow> u8 list" where
  "i64toa_radix n radix =
     (if sint n \<ge> 0 then u64toa_radix n radix else 45 # u64toa_radix (- n) radix)"

section \<open>The code writes numerals\<close>

lemma ucast_digit: "unat w < 10 \<Longrightarrow> (ucast w + 48 :: u8) = digit_char (unat w)" for w :: "'a::len word"
  by (simp add: digit_char_def add.commute)

lemma radix_digit_char: "unat d < 36 \<Longrightarrow> radix_digit d = digit_char (unat d)"
proof -
  have "d < 10 \<longleftrightarrow> unat d < 10" by (simp add: word_less_nat_alt)
  then show ?thesis by (simp add: radix_digit_def digit_char_def add.commute)
qed

lemma u32toa_len_padded: "u32toa_len n k buf = padded 10 k (unat n) @ buf"
proof (induction k arbitrary: n buf)
  case (Suc k)
  have "(ucast (n mod 10) + 48 :: u8) = digit_char (unat n mod 10)"
    by (subst ucast_digit) (simp_all add: unat_mod)
  then show ?case using Suc.IH [of "n div 10"] by (simp add: unat_div)
qed simp

lemma u32toa_loop_text: "u32toa_loop n q = nat_text 10 (unat n) @ q"
proof (induction n q rule: u32toa_loop.induct)
  case (1 n q)
  have d: "(ucast (n mod 10) + 48 :: u8) = digit_char (unat n mod 10)"
    by (subst ucast_digit) (simp_all add: unat_mod)
  have z: "n div 10 = 0 \<longleftrightarrow> unat n < 10" by (simp add: word_unat_eq_iff unat_div div_eq_0_iff)
  show ?case
  proof (cases "n div 10 = 0")
    case True
    then show ?thesis using z d by (subst u32toa_loop.simps) (simp add: nat_text_digit)
  next
    case False
    then have "nat_text 10 (unat n) = nat_text 10 (unat (n div 10)) @ [digit_char (unat n mod 10)]"
      using z by (subst nat_text.simps) (simp add: unat_div)
    then show ?thesis using "1.IH" [OF refl refl] False d by (subst u32toa_loop.simps) simp
  qed
qed

lemma u32toa_text: "u32toa n = nat_text 10 (unat n)"
  by (simp add: u32toa_def u32toa_loop_text)

text \<open>The buffers of the code: ten characters, and 41 in base three.\<close>

lemma u32toa_fits: "length (u32toa n) \<le> 10"
  unfolding u32toa_text using unat_lt_u32 [of n] by (intro length_nat_text) simp_all

lemma unat_ucast_u64_u32: "unat n < 4294967296 \<Longrightarrow> unat (ucast n :: u32) = unat n" for n :: u64
  by (simp add: unat_ucast_down_u32)

lemma u64toa_text: "u64toa n = nat_text 10 (unat n)"
proof (cases "unat n < 4294967296")
  case True
  then show ?thesis by (simp add: u64toa_def word_less_nat_alt u32toa_text unat_ucast_u64_u32)
next
  case False
  define n1 where "n1 = n div 1000000000"
  have n1: "unat n1 = unat n div 1000000000" by (simp add: n1_def unat_div)
  have lo: "u32toa_len (ucast (n mod 1000000000)) 9 [] = padded 10 9 (unat n)"
    using padded_mod [of 10 9 "unat n"] by (simp add: u32toa_len_padded unat_ucast_u64_u32 unat_mod)
  have split: "nat_text 10 (unat n) = nat_text 10 (unat n1) @ padded 10 9 (unat n)"
    using nat_text_split [of 10 9 "unat n"] False n1 by simp
  show ?thesis
  proof (cases "unat n1 < 4294967296")
    case True
    then show ?thesis using False
      by (simp add: u64toa_def word_less_nat_alt word_le_nat_alt Let_def n1_def [symmetric] lo split u32toa_text unat_ucast_u64_u32)
  next
    case b: False
    define n2 where "n2 = n1 div 1000000000"
    have n2: "unat n2 = unat n1 div 1000000000" by (simp add: n2_def unat_div)
    have n2b: "unat n2 < 100" using unat_lt_u64 [of n] by (simp add: n2 n1 less_mult_imp_div_less)
    have u: "unat (ucast n2 :: u32) = unat n2" using n2b by (simp add: unat_ucast_u64_u32)
    have mid: "u32toa_len (ucast (n1 mod 1000000000)) 9 [] = padded 10 9 (unat n1)"
      using padded_mod [of 10 9 "unat n1"] by (simp add: u32toa_len_padded unat_ucast_u64_u32 unat_mod)
    have "nat_text 10 (unat n1) = nat_text 10 (unat n2) @ padded 10 9 (unat n1)"
      using nat_text_split [of 10 9 "unat n1"] b n2 by simp
    moreover have "(if (ucast n2 :: u32) \<ge> 10 then [ucast ((ucast n2 :: u32) div 10) + 48, ucast ((ucast n2 :: u32) mod 10) + 48] else [ucast (ucast n2 :: u32) + 48 :: u8])
        = nat_text 10 (unat n2)"
    proof (cases "unat n2 < 10")
      case True
      then show ?thesis using u ucast_digit [of "ucast n2 :: u32"] by (simp add: word_le_nat_alt nat_text_digit)
    next
      case False
      then have "nat_text 10 (unat n2) = [digit_char (unat n2 div 10), digit_char (unat n2 mod 10)]"
        using n2b by (subst nat_text.simps) (simp add: nat_text_digit)
      moreover have "(ucast ((ucast n2 :: u32) div 10) + 48 :: u8) = digit_char (unat n2 div 10)"
        using n2b u by (subst ucast_digit) (simp_all add: unat_div)
      moreover have "(ucast ((ucast n2 :: u32) mod 10) + 48 :: u8) = digit_char (unat n2 mod 10)"
        using u by (subst ucast_digit) (simp_all add: unat_mod)
      ultimately show ?thesis using False u by (simp add: word_le_nat_alt)
    qed
    ultimately show ?thesis using False b
      by (simp add: u64toa_def word_less_nat_alt word_le_nat_alt Let_def n1_def [symmetric] n2_def [symmetric] lo mid split)
  qed
qed

text \<open>The other bases.\<close>

lemma u64toa_bin_len_padded:
  assumes "1 \<le> b" and "b \<le> 5"
  shows "u64toa_bin_len n b k buf = padded (2 ^ b) k (unat n) @ buf"
proof (induction k arbitrary: n buf)
  case (Suc k)
  have "(push_bit b 1 - 1 :: u64) = mask b" by (simp add: mask_eq_exp_minus_1 push_bit_eq_mult)
  then have m: "unat (n AND (push_bit b 1 - 1)) = unat n mod 2 ^ b" by (simp add: unat_and_mask)
  have "(2::nat) ^ b \<le> 32" using power_increasing [OF assms(2), of "2::nat"] by simp
  moreover have "unat n mod 2 ^ b < 2 ^ b" by simp
  ultimately have "unat n mod 2 ^ b < 36" by linarith
  then have "radix_digit (n AND (push_bit b 1 - 1)) = digit_char (unat n mod 2 ^ b)"
    using radix_digit_char m by metis
  then show ?case using Suc.IH [of "drop_bit b n"] by (simp add: unat_drop_bit)
qed simp

lemma radix_loop_text:
  assumes "2 \<le> unat radix" and "unat radix \<le> 36"
  shows "radix_loop n radix q = nat_text (unat radix) (unat n) @ q"
  using assms
proof (induction n radix q rule: radix_loop.induct)
  case (1 n radix q)
  let ?r = "unat radix"
  have u: "unat (ucast radix :: u64) = ?r" by simp
  have "?r \<noteq> 0" using "1.prems" by simp
  then have "unat n mod ?r < 36" using mod_less_divisor [of ?r "unat n"] "1.prems" by linarith
  then have d: "radix_digit (n mod ucast radix) = digit_char (unat n mod ?r)"
    using radix_digit_char [of "n mod ucast radix"] u by (simp add: unat_mod)
  have q: "unat (n div ucast radix) = unat n div ?r" using u by (simp add: unat_div)
  show ?case
  proof (cases "n div ucast radix \<noteq> 0 \<and> n div ucast radix \<noteq> n")
    case True
    then have "\<not> unat n < ?r" using q by (auto simp: word_unat_eq_iff)
    then have "nat_text ?r (unat n) = nat_text ?r (unat (n div ucast radix)) @ [digit_char (unat n mod ?r)]"
      using "1.prems" q by (subst nat_text.simps) simp
    then show ?thesis using "1.IH" [OF refl refl True] "1.prems" True d by (subst radix_loop.simps) simp
  next
    case False
    have "unat n < ?r"
    proof (rule ccontr)
      assume "\<not> unat n < ?r"
      then have "unat n div ?r \<noteq> 0" "unat n div ?r < unat n" using "1.prems" by (simp_all add: div_eq_0_iff)
      then show False using False q by (simp add: word_unat_eq_iff)
    qed
    then show ?thesis using False d by (subst radix_loop.simps) (auto simp: Let_def nat_text_digit)
  qed
qed

lemma binary_radix:
  assumes "radix \<noteq> 0" and "radix AND (radix - 1) = 0"
  shows "unat radix = 2 ^ (31 - clz32 radix)"
proof (rule ccontr)
  let ?k = "31 - clz32 radix"
  note c = clz32_bounds [OF assms(1)]
  assume "unat radix \<noteq> 2 ^ ?k"
  then have lt: "2 ^ ?k < unat radix" using c(2) by simp
  have m: "unat (radix - 1) = unat radix - 1" using assms(1) by (simp add: unat_minus_one)
  have k: "(2::nat) ^ (32 - clz32 radix) = 2 * 2 ^ ?k" using c(1) by (simp flip: power_Suc add: Suc_diff_le)
  have one: "x div 2 ^ ?k = 1" if "2 ^ ?k \<le> x" "x < 2 * 2 ^ ?k" for x :: nat
    by (rule div_nat_eqI) (use that in simp_all)
  have "bit radix ?k" "bit (radix - 1) ?k"
    unfolding bit_unat_iff using one [of "unat radix"] one [of "unat radix - 1"] c(2,3) lt m k by simp_all
  then have "bit (radix AND (radix - 1)) ?k" by (simp only: bit_and_iff)
  then show False using assms(2) by simp
qed

lemma radix_bits:
  assumes "2 \<le> unat radix" and "unat radix \<le> 36" and "radix AND (radix - 1) = 0"
  shows "unat radix = 2 ^ (31 - clz32 radix)" "1 \<le> 31 - clz32 radix" "31 - clz32 radix \<le> 5"
proof -
  have "radix \<noteq> 0" using assms(1) by auto
  then show r: "unat radix = 2 ^ (31 - clz32 radix)" using assms(3) by (rule binary_radix)
  show "1 \<le> 31 - clz32 radix" using r assms(1) by (cases "31 - clz32 radix") auto
  show "31 - clz32 radix \<le> 5"
  proof (rule ccontr)
    assume "\<not> 31 - clz32 radix \<le> 5"
    then have "(2::nat) ^ 6 \<le> 2 ^ (31 - clz32 radix)" by (intro power_increasing) simp_all
    then show False using r assms(2) by simp
  qed
qed

text \<open>The number of digits of \<open>m\<close> bits, \<open>b\<close> bits a digit.\<close>

lemma digit_count:
  fixes n :: nat
  assumes "1 \<le> b" and "2 ^ (m - 1) \<le> n" and "n < 2 ^ m" and "1 \<le> m"
  defines "l \<equiv> (m + b - 1) div b"
  shows "1 \<le> l" "n < (2 ^ b) ^ l" "l = 1 \<or> 1 < l \<and> (2 ^ b) ^ (l - 1) \<le> n"
proof -
  define d where "d = (m + b - 1) mod b"
  have "d < b" using assms(1) by (simp add: d_def)
  moreover have "b * l + d = m + b - 1" by (simp add: l_def d_def)
  ultimately have l: "m \<le> b * l" "b * (l - 1) < m" using assms(4) by (simp_all add: diff_mult_distrib2)
  show l1: "1 \<le> l" using l(1) assms(4) by (cases l) auto
  have "(2::nat) ^ m \<le> 2 ^ (b * l)" using l(1) by (intro power_increasing) simp_all
  then show "n < (2 ^ b) ^ l" using assms(3) by (simp add: power_mult)
  have "(2::nat) ^ (b * (l - 1)) \<le> 2 ^ (m - 1)" using l(2) by (intro power_increasing) simp_all
  then show "l = 1 \<or> 1 < l \<and> (2 ^ b) ^ (l - 1) \<le> n" using assms(2) l1 by (auto simp: power_mult)
qed

lemma u64toa_radix_text:
  assumes "2 \<le> unat radix" and "unat radix \<le> 36"
  shows "u64toa_radix n radix = nat_text (unat radix) (unat n)"
proof -
  consider "radix = 10" | "radix \<noteq> 10" "radix AND (radix - 1) = 0" | "radix \<noteq> 10" "radix AND (radix - 1) \<noteq> 0" by blast
  then show ?thesis
  proof cases
    case 1
    then show ?thesis by (simp add: u64toa_radix_def u64toa_text)
  next
    case 2
    note rb = radix_bits [OF assms 2(2)]
    let ?b = "31 - clz32 radix"
    define l where "l = (if n = 0 then 1 else (64 - clz64 n + ?b - 1) div ?b)"
    have "unat n < (2 ^ ?b) ^ l \<and> (l = 1 \<or> 1 < l \<and> (2 ^ ?b) ^ (l - 1) \<le> unat n)"
    proof (cases "n = 0")
      case False
      note c = clz64_bounds [OF False]
      have "64 - clz64 n - 1 = 63 - clz64 n" by simp
      then show ?thesis
        using digit_count [OF rb(2), of "64 - clz64 n" "unat n"] c False by (simp add: l_def)
    qed (use rb in \<open>simp add: l_def\<close>)
    then have "nat_text (2 ^ ?b) (unat n) = padded (2 ^ ?b) l (unat n)"
      using assms(1) rb(1) by (intro nat_text_padded) simp_all
    then show ?thesis
      using 2 rb u64toa_bin_len_padded [OF rb(2,3), of n l "[]"] by (simp add: u64toa_radix_def Let_def l_def [symmetric])
  next
    case 3
    then show ?thesis using radix_loop_text [OF assms, of n "[]"] by (simp add: u64toa_radix_def)
  qed
qed

lemma unat_sint_u64:
  "sint (n :: u64) \<ge> 0 \<Longrightarrow> unat n = nat (sint n)" "sint (n :: u64) < 0 \<Longrightarrow> unat (- n) = nat (- sint n)"
proof -
  have r: "- (2 ^ 63) \<le> sint n" "sint n < 2 ^ 63" using sint_greater_eq [of n] sint_less [of n] by simp_all
  have u: "uint (word_of_int k :: u64) = k" if "0 \<le> k" "k \<le> 2 ^ 63" for k
    using that by (simp add: uint_word_of_int_eq take_bit_int_eq_self)
  show "sint n \<ge> 0 \<Longrightarrow> unat n = nat (sint n)" using u [of "sint n"] r by (simp add: unat_eq_nat_uint)
  have "- n = word_of_int (- sint n)" by simp
  then show "sint n < 0 \<Longrightarrow> unat (- n) = nat (- sint n)" using u [of "- sint n"] r by (simp only: unat_eq_nat_uint)
qed

lemma i64toa_radix_text:
  assumes "2 \<le> unat radix" and "unat radix \<le> 36"
  shows "i64toa_radix n radix = int_text (unat radix) (sint n)"
  using u64toa_radix_text [OF assms] unat_sint_u64 [of n]
  by (auto simp: i64toa_radix_def int_text_def)

end
