(* ===== verification/BigInt_Text.thy ===== *)
theory BigInt_Text
  imports Js_Value Int_Text
begin

text \<open>
  BigInts from and to text: \<open>js_bigint_from_string\<close> and \<open>js_bigint_to_string1\<close> of \<open>src/qjs/quickjs.c\<close>. A text is
  the list of its characters without the terminator, which the code reads as a character that is no
  digit.
\<close>

section \<open>From text\<close>

definition js_to_digit :: "u8 \<Rightarrow> u32" where
  "js_to_digit c =
     (if c \<ge> 48 \<and> c \<le> 57 then ucast c - 48
      else if c \<ge> 65 \<and> c \<le> 90 then ucast c - 65 + 10
      else if c \<ge> 97 \<and> c \<le> 122 then ucast c - 97 + 10
      else 36)"

definition JS_LIMB_DIGITS :: nat where
  "JS_LIMB_DIGITS = 9"

definition js_pow_dec :: "limb list" where
  "js_pow_dec = [1, 10, 100, 1000, 10000, 100000, 1000000, 10000000, 100000000, 1000000000]"

text \<open>The inner loop: at most \<open>k\<close> more digits into \<open>v\<close>, of which \<open>i\<close> are read.\<close>

fun read_limb :: "nat \<Rightarrow> u8 list \<Rightarrow> limb \<Rightarrow> nat \<Rightarrow> limb \<times> nat \<times> u8 list" where
  "read_limb (Suc k) (x # p) v i =
     (let c = js_to_digit x in if c \<ge> 10 then (v, i, x # p) else read_limb k p (v * 10 + c) (i + 1))"
| "read_limb k p v i = (v, i, p)"

lemma read_limb_length: "read_limb k p v i = (v', i', p') \<Longrightarrow> i' + length p' = i + length p"
  by (induction k p v i rule: read_limb.induct) (auto simp: Let_def split: if_splits)

function dec_loop :: "u8 list \<Rightarrow> limb list \<Rightarrow> limb list" where
  "dec_loop p tab =
     (case read_limb JS_LIMB_DIGITS p 0 0 of
        (v, i, p') \<Rightarrow>
          if i = 0 then tab
          else if length tab = 1 \<and> tab ! 0 = 0 then dec_loop p' [v]
          else (case js_mp_mul1 tab (js_pow_dec ! i) v of (tab, h) \<Rightarrow> dec_loop p' (if h \<noteq> 0 then tab @ [h] else tab)))"
  by pat_completeness auto
termination
  by (relation "measure (\<lambda>(p, tab). length p)") (auto dest: read_limb_length [OF sym])

declare dec_loop.simps [simp del]

text \<open>The digits from the last one on, \<open>i\<close> of which are stored; \<open>None\<close>: the assertion fails.\<close>

fun bin_loop :: "u32 \<Rightarrow> nat \<Rightarrow> u8 list \<Rightarrow> nat \<Rightarrow> limb list \<Rightarrow> limb list option" where
  "bin_loop radix log2_radix [] i tab = Some tab"
| "bin_loop radix log2_radix (x # xs) i tab =
     (let c = js_to_digit x
      in if c \<ge> radix then None
         else let bit_pos = i * log2_radix; shift = bit_pos mod 32; pos = bit_pos div 32;
                  tab = tab[pos := tab ! pos OR push_bit shift c];
                  tab = (if shift + log2_radix > 32 then tab[pos + 1 := tab ! (pos + 1) OR drop_bit (32 - shift) c] else tab)
              in bin_loop radix log2_radix xs (i + 1) tab)"

text \<open>The number of limbs that are allocated for \<open>n_digits\<close> digits.\<close>

definition string_limbs :: "u32 \<Rightarrow> nat \<Rightarrow> nat" where
  "string_limbs radix n_digits =
     (let n_bits = (if radix = 10 then (n_digits * 27 + 7) div 8 else n_digits * (32 - clz32 (radix - 1)))
      in max 1 (n_bits div 32 + 1))"

definition js_bigint_from_string :: "u8 list \<Rightarrow> u32 \<Rightarrow> bigint alloc" where
  "js_bigint_from_string str radix =
     (let is_neg = (case str of c # p \<Rightarrow> c = 45 | [] \<Rightarrow> False);
          p = dropWhile (\<lambda>c. c = 48) (if is_neg then tl str else str);
          n_digits = length p
      in if n_digits > JS_BIGINT_MAX_SIZE * 32 then throw_m too_large_to_allocate
         else let n_limbs = string_limbs radix n_digits
              in bind_m (js_bigint_new n_limbs) (\<lambda>_.
                   (let r = (if radix = 10
                             then let tab = dec_loop p [0]
                                  in Some (if drop_bit 31 (last tab) \<noteq> 0 then tab @ [0] else tab)
                             else bin_loop radix (32 - clz32 (radix - 1)) (rev p) 0 (replicate n_limbs 0))
                    in case r of
                         None \<Rightarrow> throw_m Undefined
                       | Some r \<Rightarrow>
                           bind_m (js_bigint_normalize r) (\<lambda>r.
                             if is_neg then guard_m (js_bigint_neg r) js_free (\<lambda>r1. then_m js_free (return_m r1))
                             else return_m r))))"

section \<open>To text\<close>

definition digits :: "u8 list" where
  "digits = map of_nat ([48..<58] @ [97..<123])"

text \<open>A base of zero or one cannot come here; the second condition of the loop is for them.\<close>

function js_u64toa :: "u64 \<Rightarrow> u32 \<Rightarrow> u8 list \<Rightarrow> u8 list" where
  "js_u64toa n base q =
     (if base = 10
      then let q = (48 + ucast (n mod 10)) # q; n' = n div 10 in if n' \<noteq> 0 then js_u64toa n' base q else q
      else let q = digits ! unat (n mod ucast base) # q; n' = n div ucast base
           in if n' \<noteq> 0 \<and> n' \<noteq> n then js_u64toa n' base q else q)"
  by pat_completeness auto
termination
proof (relation "measure (\<lambda>(n, base, q). unat n)")
  fix n n' :: u64 and base :: u32 and q q' :: "u8 list"
  assume "n' = n div 10" "n' \<noteq> 0"
  then have "unat n \<noteq> 0" "unat n' = unat n div 10" by (auto simp: unat_div unat_eq_0)
  then show "((n', base, q'), n, base, q) \<in> measure (\<lambda>(n, base, q). unat n)" by simp
next
  fix n n' :: u64 and base :: u32 and q q' :: "u8 list"
  assume "n' = n div ucast base" "n' \<noteq> 0 \<and> n' \<noteq> n"
  then have "unat n' \<le> unat n" "unat n' \<noteq> unat n" by (simp_all add: unat_div word_unat_eq_iff)
  then show "((n', base, q'), n, base, q) \<in> measure (\<lambda>(n, base, q). unat n)" by simp
qed simp

declare js_u64toa.simps [simp del]

fun js_limb_to_a :: "limb \<Rightarrow> u32 \<Rightarrow> nat \<Rightarrow> u8 list \<Rightarrow> u8 list" where
  "js_limb_to_a n radix 0 q = q"
| "js_limb_to_a n radix (Suc i) q =
     (if radix = 10 then js_limb_to_a (n div 10) radix i ((ucast (n mod 10) + 48) # q)
      else js_limb_to_a (n div radix) radix i (digits ! unat (n mod radix) # q))"

definition js_digits_per_limb_table :: "nat list" where
  "js_digits_per_limb_table =
     [32, 20, 16, 13, 12, 11, 10, 10, 9, 9, 8, 8, 8, 8, 8, 7, 7, 7, 7, 7, 7, 7, 6, 6, 6, 6, 6, 6, 6, 6, 6, 6, 6, 6, 6]"

definition js_radix_base_table :: "limb list" where
  "js_radix_base_table =
     [0x00000000, 0xcfd41b91, 0x00000000, 0x48c27395,
      0x81bf1000, 0x75db9c97, 0x40000000, 0xcfd41b91,
      0x3b9aca00, 0x8c8b6d2b, 0x19a10000, 0x309f1021,
      0x57f6c100, 0x98c29b81, 0x00000000, 0x18754571,
      0x247dbc80, 0x3547667b, 0x4c4b4000, 0x6b5a6e1d,
      0x94ace180, 0xcaf18367, 0x0b640000, 0x0e8d4a51,
      0x1269ae40, 0x17179149, 0x1cb91000, 0x23744899,
      0x2b73a840, 0x34e63b41, 0x40000000, 0x4cfa3cc1,
      0x5c13d840, 0x6d91b519, 0x81bf1000]"

text \<open>The loop for a base that is no power of two; \<open>None\<close>: it does not end.\<close>

partial_function (option) text_loop :: "u32 \<Rightarrow> limb list \<Rightarrow> u8 list \<Rightarrow> u8 list option" where
  "text_loop radix tab q =
     (let radix_base = js_radix_base_table ! (unat radix - 2);
          tab = take (strip_zeros tab (length tab)) tab
      in if length tab = 1 \<and> tab ! 0 < radix_base
         then Some (if tab ! 0 \<noteq> 0 then js_u64toa (ucast (tab ! 0)) radix q else q)
         else let (tab, v) = js_mp_div1 tab radix_base 0
              in text_loop radix tab (js_limb_to_a v radix (js_digits_per_limb_table ! (unat radix - 2)) q))"

text \<open>The loop for a power of two: the digits from \<open>i\<close> on.\<close>

fun bin_text :: "u32 \<Rightarrow> nat \<Rightarrow> limb list \<Rightarrow> nat \<Rightarrow> nat \<Rightarrow> u8 list \<Rightarrow> u8 list" where
  "bin_text radix log2_radix tab 0 i q = q"
| "bin_text radix log2_radix tab (Suc k) i q =
     (let bit_pos = i * log2_radix; pos = bit_pos div 32; shift = bit_pos mod 32;
          c = drop_bit shift (tab ! pos);
          c = (if shift + log2_radix > 32 \<and> pos + 1 < length tab then c OR push_bit (32 - shift) (tab ! (pos + 1)) else c);
          c = c AND (radix - 1)
      in bin_text radix log2_radix tab k (i + 1) (digits ! unat c # q))"

definition text_digits :: "limb list \<Rightarrow> u32 \<Rightarrow> nat" where
  "text_digits r radix =
     (let log2_radix = 31 - clz32 radix; n_bits = length r * 32 - js_limb_clz (last r)
      in (n_bits + log2_radix - 1) div log2_radix)"

definition js_new_string8_len :: "u8 list \<Rightarrow> js_string alloc" where
  "js_new_string8_len buf = bind_m js_malloc (\<lambda>_. return_m (Str8 buf))"

text \<open>The part that writes the digits of \<open>r\<close>; \<open>free_tmp\<close> frees \<open>tmp\<close>, which may be \<open>NULL\<close>.\<close>

definition digits_of_bigint :: "bool \<Rightarrow> limb list \<Rightarrow> unit alloc \<Rightarrow> u32 \<Rightarrow> js_string alloc" where
  "digits_of_bigint is_neg r free_tmp radix =
     guard_m js_malloc free_tmp (\<lambda>_.
       (case (if radix AND (radix - 1) = 0 then Some (bin_text radix (31 - clz32 radix) r (text_digits r radix) 0 [])
              else text_loop radix r []) of
          None \<Rightarrow> throw_m Diverges
        | Some q \<Rightarrow>
            then_m free_tmp
              (guard_m (js_new_string8_len (if is_neg then 45 # q else q)) js_free (\<lambda>res. then_m js_free (return_m res)))))"

fun js_bigint_to_string1 :: "jsval \<Rightarrow> u32 \<Rightarrow> js_string alloc" where
  "js_bigint_to_string1 (Short_Big_Int i) radix = js_new_string8_len (i64toa_radix (scast i) radix)"
| "js_bigint_to_string1 (Big_Int r) radix =
     (if length r = 1 \<and> r ! 0 = 0 then js_new_string8_len [48]
      else if js_bigint_sign r \<noteq> 0 then bind_m (js_bigint_neg r) (\<lambda>tmp. digits_of_bigint True tmp js_free radix)
      else if radix AND (radix - 1) \<noteq> 0 then bind_m (js_bigint_new (length r)) (\<lambda>_. digits_of_bigint False r js_free radix)
      else digits_of_bigint False r (return_m ()) radix)"
| "js_bigint_to_string1 _ radix = throw_m Undefined"

section \<open>The number of a text\<close>

definition digit_val :: "u8 \<Rightarrow> nat" where
  "digit_val c = unat (js_to_digit c)"

definition text_val :: "nat \<Rightarrow> u8 list \<Rightarrow> nat" where
  "text_val r cs = foldl (\<lambda>v c. v * r + digit_val c) 0 cs"

definition digits_ok :: "nat \<Rightarrow> u8 list \<Rightarrow> bool" where
  "digits_ok r cs \<longleftrightarrow> (\<forall>c\<in>set cs. digit_val c < r)"

lemma foldl_text_val: "foldl (\<lambda>v c. v * r + digit_val c) v cs = v * r ^ length cs + text_val r cs"
proof (induction cs arbitrary: v)
  case (Cons c cs)
  show ?case using Cons.IH [of "v * r + digit_val c"] Cons.IH [of "digit_val c"] by (simp add: text_val_def algebra_simps)
qed (simp add: text_val_def)

lemma text_val_simps [simp]:
  "text_val r [] = 0" "text_val r (c # cs) = digit_val c * r ^ length cs + text_val r cs"
  "text_val r (xs @ ys) = text_val r xs * r ^ length ys + text_val r ys"
  using foldl_text_val [of r "digit_val c" cs] foldl_text_val [of r "text_val r xs" ys] by (simp_all add: text_val_def)

lemma digits_ok_simps [simp]:
  "digits_ok r []" "digits_ok r (c # cs) \<longleftrightarrow> digit_val c < r \<and> digits_ok r cs"
  "digits_ok r (xs @ ys) \<longleftrightarrow> digits_ok r xs \<and> digits_ok r ys" "digits_ok r (rev xs) \<longleftrightarrow> digits_ok r xs"
  by (auto simp: digits_ok_def)

lemma text_val_bound: "digits_ok r cs \<Longrightarrow> text_val r cs < r ^ length cs"
proof (induction cs)
  case (Cons c cs)
  then have "digit_val c * r ^ length cs + text_val r cs < (digit_val c + 1) * r ^ length cs" by simp
  also have "\<dots> \<le> r * r ^ length cs" using Cons.prems by (intro mult_right_mono) simp_all
  finally show ?case by simp
qed simp

lemma digit_val_char: "d < 36 \<Longrightarrow> digit_val (digit_char d) = d"
proof -
  have "\<forall>d\<in>set [0..<36]. digit_val (digit_char d) = d"
    by (simp add: digit_val_def js_to_digit_def digit_char_def upt_rec)
  then show "d < 36 \<Longrightarrow> digit_val (digit_char d) = d" by simp
qed

lemma text_val_nat_text:
  assumes "2 \<le> r" and "r \<le> 36"
  shows "text_val r (nat_text r n) = n" "digits_ok r (nat_text r n)"
proof -
  have "text_val r (nat_text r n) = n \<and> digits_ok r (nat_text r n)"
    using assms
  proof (induction r n rule: nat_text.induct)
    case (1 r n)
    have d: "n mod r < 36" "n mod r < r" using "1.prems" mod_less_divisor [of r n] by linarith+
    show ?case
    proof (cases "n < r")
      case True
      then show ?thesis using "1.prems" by (simp add: nat_text_digit digit_val_char)
    next
      case False
      have "nat_text r n = nat_text r (n div r) @ [digit_char (n mod r)]"
        using False "1.prems" by (subst nat_text.simps) simp
      then show ?thesis using "1.IH" "1.prems" False d(2) digit_val_char [OF d(1)] by simp
    qed
  qed
  then show "text_val r (nat_text r n) = n" "digits_ok r (nat_text r n)" by simp_all
qed

section \<open>Reading decimal digits\<close>

lemma unat_mult_add_u32:
  assumes "unat v * k + unat c < 4294967296" and "unat w = k"
  shows "unat (v * w + c :: u32) = unat v * k + unat c"
proof -
  have "unat (v * w) = unat v * k" using assms by (subst unat_times_nowrap) simp_all
  then show ?thesis using assms by (subst unat_plus_nowrap) simp_all
qed

lemma read_limb_val:
  assumes "digits_ok 10 p" and "unat v < 10 ^ i" and "i + k \<le> 9"
  shows "\<exists>v'. read_limb k p v i = (v', i + min k (length p), drop k p) \<and>
    unat v' = unat v * 10 ^ min k (length p) + text_val 10 (take k p)"
  using assms
proof (induction k p v i rule: read_limb.induct)
  case (1 k x p v i)
  define c where "c = js_to_digit x"
  have c: "unat c = digit_val x" "digit_val x < 10" using "1.prems" by (simp_all add: c_def digit_val_def)
  have "unat v * 10 + digit_val x < (unat v + 1) * 10" using c by simp
  also have "\<dots> \<le> 10 ^ i * 10" using "1.prems"(2) by (intro mult_right_mono) simp_all
  finally have b: "unat v * 10 + digit_val x < 10 ^ (i + 1)" by simp
  have "(10::nat) ^ (i + 1) \<le> 10 ^ 9" using "1.prems"(3) by (intro power_increasing) simp_all
  then have v: "unat (v * 10 + c) = unat v * 10 + digit_val x" using b c by (subst unat_mult_add_u32 [where k = 10]) simp_all
  have nc: "\<not> c \<ge> 10" using c by (simp add: word_le_nat_alt)
  have "digits_ok 10 p" "unat (v * 10 + c) < 10 ^ (i + 1)" "i + 1 + k \<le> 9" using "1.prems" v b by simp_all
  from "1.IH" [OF c_def _ this] nc obtain v' where
    "read_limb k p (v * 10 + c) (i + 1) = (v', i + 1 + min k (length p), drop k p)"
    "unat v' = unat (v * 10 + c) * 10 ^ min k (length p) + text_val 10 (take k p)" by auto
  then show ?case using nc v by (auto simp: c_def [symmetric] Let_def algebra_simps min_def)
qed simp_all

lemma js_pow_dec_val: "i \<le> 9 \<Longrightarrow> unat (js_pow_dec ! i) = 10 ^ i"
proof -
  have "\<forall>i\<in>set [0..<10]. unat (js_pow_dec ! i) = 10 ^ i" by (simp add: js_pow_dec_def upt_rec)
  then show "i \<le> 9 \<Longrightarrow> unat (js_pow_dec ! i) = 10 ^ i" by simp
qed

definition shortest :: "limb list \<Rightarrow> bool" where
  "shortest tab \<longleftrightarrow> tab \<noteq> [] \<and> (length tab = 1 \<or> 4294967296 ^ (length tab - 1) \<le> lval tab)"

lemma dec_loop_val:
  assumes "digits_ok 10 p" and "shortest tab"
  shows "lval (dec_loop p tab) = lval tab * 10 ^ length p + text_val 10 p" "shortest (dec_loop p tab)"
proof -
  have "lval (dec_loop p tab) = lval tab * 10 ^ length p + text_val 10 p \<and> shortest (dec_loop p tab)"
    using assms
  proof (induction p tab rule: dec_loop.induct)
    case (1 p tab)
    define k where "k = min 9 (length p)"
    obtain v where r: "read_limb JS_LIMB_DIGITS p 0 0 = (v, k, drop 9 p)" "unat v = text_val 10 (take 9 p)"
      using read_limb_val [OF "1.prems"(1), of 0 0 9] by (auto simp: JS_LIMB_DIGITS_def k_def)
    have p: "p = take 9 p @ drop 9 p" "length (take 9 p) = k" by (simp_all add: k_def min.commute)
    have tv: "text_val 10 p = text_val 10 (take 9 p) * 10 ^ length (drop 9 p) + text_val 10 (drop 9 p)"
      using text_val_simps(3) [of 10 "take 9 p" "drop 9 p"] by simp
    have dp: "digits_ok 10 (drop 9 p)" using "1.prems"(1) p(1) digits_ok_simps(3) by metis
    have pw: "(10::nat) ^ length p = 10 ^ k * 10 ^ length (drop 9 p)" by (simp add: k_def flip: power_add)
    show ?case
    proof (cases "k = 0")
      case True
      then show ?thesis using "1.prems" r by (subst (1 2) dec_loop.simps) (simp add: k_def min_def split: if_splits)
    next
      case k: False
      show ?thesis
      proof (cases "length tab = 1 \<and> tab ! 0 = 0")
        case True
        then have "lval tab = 0" by (cases tab) auto
        moreover have "dec_loop p tab = dec_loop (drop 9 p) [v]" using True k r by (subst dec_loop.simps) simp
        moreover have "shortest [v]" by (simp add: shortest_def)
        ultimately show ?thesis using "1.IH"(1) [OF r(1) [symmetric] refl k True dp] tv r(2) by simp
      next
        case False
        obtain rs h where m: "js_mp_mul1 tab (js_pow_dec ! k) v = (rs, h)" by force
        have mv: "lval rs + 4294967296 ^ length tab * unat h = lval tab * 10 ^ k + unat v" "length rs = length tab"
          using js_mp_mul1_val [OF m] js_pow_dec_val [of k] by (simp_all add: k_def)
        define tab1 where "tab1 = (if h \<noteq> 0 then rs @ [h] else rs)"
        have l: "lval tab1 = lval tab * 10 ^ k + unat v" using mv by (auto simp: tab1_def lval_append)
        have "shortest tab1"
        proof (cases "h = 0")
          case True
          have "lval tab \<le> lval rs" using mv(1) True trans_le_add1 [of "lval tab" "lval tab * 10 ^ k" "unat v"] by simp
          then show ?thesis using "1.prems"(2) True mv(2) by (auto simp: shortest_def tab1_def intro: order_trans)
        next
          case False
          then have "1 \<le> unat h" by (simp add: Suc_le_eq unat_gt_0)
          then have "4294967296 ^ length tab * 1 \<le> 4294967296 ^ length tab * unat h" by (rule mult_left_mono) simp
          then have "4294967296 ^ length tab \<le> lval tab * 10 ^ k + unat v" using mv(1) by linarith
          then show ?thesis using False mv by (simp add: shortest_def tab1_def lval_append)
        qed
        moreover have "dec_loop p tab = dec_loop (drop 9 p) tab1" using False k r m by (subst dec_loop.simps) (auto simp: tab1_def)
        ultimately show ?thesis
          using "1.IH"(2) [OF r(1) [symmetric] refl k False m [symmetric] dp] l tv r(2) pw by (simp add: tab1_def [symmetric] algebra_simps)
      qed
    qed
  qed
  then show "lval (dec_loop p tab) = lval tab * 10 ^ length p + text_val 10 p" "shortest (dec_loop p tab)" by simp_all
qed

text \<open>The limbs that are allocated are enough for the number, its sign bit included.\<close>

lemma pow10_bits: "(10::nat) ^ n \<le> 2 ^ ((n * 27 + 7) div 8)"
proof -
  have "((10::nat) ^ n) ^ 8 = (10 ^ 8) ^ n" by (metis power_mult mult.commute)
  also have "\<dots> \<le> (2 ^ 27) ^ n" by (intro power_mono) simp_all
  also have "\<dots> = 2 ^ (27 * n)" by (simp add: power_mult)
  also have "\<dots> \<le> 2 ^ ((n * 27 + 7) div 8 * 8)" by (intro power_increasing) simp_all
  also have "\<dots> = (2 ^ ((n * 27 + 7) div 8)) ^ 8" by (simp add: power_mult)
  finally show ?thesis by (subst (asm) power_mono_iff) simp_all
qed

lemma limbs_pow: "(4294967296::nat) ^ n = 2 ^ (32 * n)"
  by (simp add: power_mult)

lemma dec_limbs_fit:
  assumes "shortest tab" and "lval tab < 10 ^ n"
  defines "tab' \<equiv> (if drop_bit 31 (last tab) \<noteq> 0 then tab @ [0] else tab)"
  shows "length tab' \<le> string_limbs 10 n" "bval tab' = int (lval tab)" "tab' \<noteq> []"
proof -
  let ?b = "(n * 27 + 7) div 8"
  have lt: "lval tab < 2 ^ ?b" using assms(2) pow10_bits [of n] by linarith
  have ne: "tab \<noteq> []" using assms(1) by (simp add: shortest_def)
  have top: "drop_bit 31 (last tab) \<noteq> 0 \<longleftrightarrow> 4294967296 ^ length tab \<le> 2 * lval tab"
    using lval_top [OF ne] by (simp add: top_bit_u32) (metis not_le)
  show "tab' \<noteq> []" using ne by (simp add: tab'_def)
  show "bval tab' = int (lval tab)" by (simp add: tab'_def bval_def js_bigint_sign_def lval_append)
  have exp: "k \<le> j" if "(4294967296::nat) ^ k \<le> x" "x < 2 ^ m" "m div 32 = j" for k j x m
  proof -
    have "(2::nat) ^ (32 * k) < 2 ^ m" using that(1,2) unfolding limbs_pow by linarith
    then have "32 * k < m" by (rule power_less_imp_less_exp [rotated]) simp
    then show ?thesis using that(3) by linarith
  qed
  show "length tab' \<le> string_limbs 10 n"
  proof (cases "drop_bit 31 (last tab) = 0")
    case True
    then show ?thesis using assms(1) exp [OF _ lt refl, of "length tab - 1"]
      by (auto simp: tab'_def shortest_def string_limbs_def)
  next
    case False
    have "32 * length tab \<le> ?b"
    proof -
      have "(2::nat) ^ (32 * length tab) < 2 ^ Suc ?b" using top False lt unfolding limbs_pow by simp
      then have "32 * length tab < Suc ?b" by (rule power_less_imp_less_exp [rotated]) simp
      then show ?thesis by simp
    qed
    then have "length tab \<le> ?b div 32" by linarith
    then show ?thesis using False by (simp add: tab'_def string_limbs_def)
  qed
qed

section \<open>Reading digits of a power of two\<close>

lemma lval_or_limb:
  assumes "pos < length tab"
  shows "lval (tab[pos := tab ! pos OR x]) = lval tab OR push_bit (32 * pos) (unat x)"
proof (rule bit_eqI)
  fix j
  have "bit (push_bit (32 * pos) (unat x)) j \<longleftrightarrow> j div 32 = pos \<and> bit x (j mod 32)"
  proof (cases "j div 32 = pos")
    case True
    then have "j - 32 * pos = j mod 32" "32 * pos \<le> j" by (simp_all add: minus_mult_div_eq_mod flip: True)
    then show ?thesis using True by (simp add: bit_push_bit_iff bit_unsigned_iff)
  next
    case False
    have "\<not> bit x (j - 32 * pos)" if "32 * pos \<le> j"
    proof -
      have "pos \<le> j div 32" using div_le_mono [OF that, of 32] by simp
      then have "32 * (pos + 1) \<le> 32 * (j div 32)" using False by (intro mult_le_mono) simp_all
      also have "\<dots> \<le> j" by simp
      finally have "32 \<le> j - 32 * pos" by simp
      then show ?thesis using bit_imp_le_length [of x "j - 32 * pos"] by auto
    qed
    then show ?thesis using False by (auto simp: bit_push_bit_iff bit_unsigned_iff)
  qed
  then show "bit (lval (tab[pos := tab ! pos OR x])) j = bit (lval tab OR push_bit (32 * pos) (unat x)) j"
    using assms by (auto simp: bit_lval bit_or_iff nth_list_update)
qed

text \<open>A digit that crosses the border of a limb is the two parts that are written.\<close>

lemma split_digit:
  assumes "shift < 32" and "unat c < 2 ^ b" and "b \<le> 5"
  shows "unat (push_bit shift c) OR (if shift + b > 32 then push_bit 32 (unat (drop_bit (32 - shift) c)) else 0) = push_bit shift (unat (c :: limb))"
proof (rule bit_eqI)
  fix j
  have nb: "\<not> bit c i" if "b \<le> i" for i
    using that assms(2) not_bit_below [of "unat c" b i] by (simp add: bit_unsigned_iff)
  have lt: "bit c i \<Longrightarrow> i < b" for i using nb [of i] by (cases "i < b") simp_all
  show "bit (unat (push_bit shift c) OR (if shift + b > 32 then push_bit 32 (unat (drop_bit (32 - shift) c)) else 0)) j
      = bit (push_bit shift (unat c)) j"
    using assms(1,3) by (cases "j < 32") (auto dest!: lt simp: bit_or_iff bit_push_bit_iff bit_drop_bit_eq bit_unsigned_iff)
qed

lemma bin_step:
  assumes "lval tab < 2 ^ bp" and "unat c < 2 ^ b" and "1 \<le> b" and "b \<le> 5" and "bp + b \<le> 32 * length tab"
  defines "shift \<equiv> bp mod 32" and "pos \<equiv> bp div 32"
  defines "tab1 \<equiv> tab[pos := tab ! pos OR push_bit shift c]"
  defines "tab2 \<equiv> (if shift + b > 32 then tab1[pos + 1 := tab1 ! (pos + 1) OR drop_bit (32 - shift) c] else tab1)"
  shows "lval tab2 = lval tab + unat c * 2 ^ bp" "length tab2 = length tab"
proof -
  have bp: "bp = 32 * pos + shift" "shift < 32" by (simp_all add: pos_def shift_def)
  have pos: "pos < length tab" using bp assms(3,5) by linarith
  have pos1: "pos + 1 < length tab" if "shift + b > 32" using bp that assms(5) by linarith
  show "length tab2 = length tab" by (simp add: tab2_def tab1_def)
  have l1: "lval tab1 = lval tab OR push_bit (32 * pos) (unat (push_bit shift c))"
    unfolding tab1_def by (rule lval_or_limb [OF pos])
  let ?hi = "if shift + b > 32 then push_bit 32 (unat (drop_bit (32 - shift) c)) else 0"
  have "lval tab2 = lval tab1 OR push_bit (32 * pos) ?hi"
    using lval_or_limb [of "pos + 1" tab1 "drop_bit (32 - shift) c"] pos1 by (simp add: tab2_def tab1_def add.commute)
  also have "\<dots> = lval tab OR push_bit (32 * pos) (unat (push_bit shift c) OR ?hi)"
    by (simp only: l1 push_bit_or or.assoc)
  also have "unat (push_bit shift c) OR ?hi = push_bit shift (unat c)" by (rule split_digit [OF bp(2) assms(2,4)])
  also have "lval tab OR push_bit (32 * pos) (push_bit shift (unat c)) = push_bit bp (unat c) OR lval tab"
    by (simp add: bp(1) or.commute)
  also have "\<dots> = lval tab + unat c * 2 ^ bp" using or_push_bit_nat [OF assms(1), of "unat c"] by simp
  finally show "lval tab2 = lval tab + unat c * 2 ^ bp" .
qed

lemma bin_loop_val:
  assumes "unat radix = 2 ^ b" and "1 \<le> b" and "b \<le> 5" and "digits_ok (2 ^ b) ds" and "lval tab < 2 ^ (i * b)"
    and "(i + length ds) * b \<le> 32 * length tab"
  shows "\<exists>tab'. bin_loop radix b ds i tab = Some tab' \<and> length tab' = length tab \<and>
    lval tab' = lval tab + text_val (2 ^ b) (rev ds) * 2 ^ (i * b)"
  using assms(4-6)
proof (induction ds arbitrary: i tab)
  case (Cons x ds)
  define c where "c = js_to_digit x"
  have c: "unat c = digit_val x" "unat c < 2 ^ b" using Cons.prems(1) by (simp_all add: c_def digit_val_def)
  have nc: "\<not> c \<ge> radix" using c assms(1) by (simp add: word_le_nat_alt)
  define tab2 where "tab2 = (let tab1 = tab[i * b div 32 := tab ! (i * b div 32) OR push_bit (i * b mod 32) c]
     in if i * b mod 32 + b > 32 then tab1[i * b div 32 + 1 := tab1 ! (i * b div 32 + 1) OR drop_bit (32 - i * b mod 32) c] else tab1)"
  have "i * b + b \<le> 32 * length tab" using Cons.prems(3) by (simp add: add_mult_distrib)
  from bin_step [OF Cons.prems(2) c(2) assms(2,3) this]
  have s: "lval tab2 = lval tab + unat c * 2 ^ (i * b)" "length tab2 = length tab" by (simp_all add: tab2_def Let_def)
  have "lval tab2 < (unat c + 1) * 2 ^ (i * b)" using s Cons.prems(2) by simp
  also have "\<dots> \<le> 2 ^ b * 2 ^ (i * b)" using c(2) by (intro mult_right_mono) simp_all
  finally have "lval tab2 < 2 ^ ((i + 1) * b)" by (simp add: power_add)
  moreover have "(i + 1 + length ds) * b \<le> 32 * length tab2" using Cons.prems(3) s by simp
  ultimately obtain tab' where t: "bin_loop radix b ds (i + 1) tab2 = Some tab'" "length tab' = length tab2"
      "lval tab' = lval tab2 + text_val (2 ^ b) (rev ds) * 2 ^ ((i + 1) * b)"
    using Cons.IH [of tab2 "i + 1"] Cons.prems(1) by auto
  have "bin_loop radix b (x # ds) i tab = Some tab'" using nc t(1) by (simp add: c_def [symmetric] tab2_def Let_def)
  then show ?case using t(2,3) s c by (simp add: power_add algebra_simps)
qed simp

section \<open>Reading a BigInt\<close>

lemma bin_radix_bits:
  assumes "radix = 2 \<or> radix = 8 \<or> radix = 16"
  shows "unat radix = 2 ^ (32 - clz32 (radix - 1))" "1 \<le> 32 - clz32 (radix - 1)" "32 - clz32 (radix - 1) \<le> 4" "radix \<noteq> 10"
proof -
  have "clz32 1 = 31" "clz32 7 = 29" "clz32 15 = 28" by (rule clz32_eqI; simp)+
  then show "unat radix = 2 ^ (32 - clz32 (radix - 1))" "1 \<le> 32 - clz32 (radix - 1)" "32 - clz32 (radix - 1) \<le> 4" "radix \<noteq> 10"
    using assms by auto
qed

lemma string_limbs_small:
  assumes "radix = 2 \<or> radix = 8 \<or> radix = 10 \<or> radix = 16" and "JS_BIGINT_MAX_SIZE < string_limbs radix n"
  shows "262144 \<le> n"
proof (cases "radix = 10")
  case True
  then show ?thesis using assms(2) by (simp add: string_limbs_def JS_BIGINT_MAX_SIZE_def)
next
  case False
  define m where "m = n * (32 - clz32 (radix - 1))"
  have "m \<le> n * 4" unfolding m_def using bin_radix_bits(3) [of radix] assms(1) False by (intro mult_left_mono) auto
  moreover have "32767 < m div 32" using assms(2) False by (simp add: string_limbs_def JS_BIGINT_MAX_SIZE_def m_def)
  ultimately show ?thesis by linarith
qed

lemma drop_zeros:
  assumes "digits_ok r ds"
  defines "p \<equiv> dropWhile (\<lambda>c. c = 48) ds"
  shows "digits_ok r p" "text_val r p = text_val r ds" "length p \<le> length ds"
proof -
  have ds: "takeWhile (\<lambda>c. c = 48) ds @ p = ds" by (simp add: p_def)
  show "digits_ok r p" using assms(1) ds digits_ok_simps(3) by metis
  have z: "text_val r zs = 0" if "\<forall>c\<in>set zs. c = 48" for zs
    using that by (induction zs) (simp_all add: digit_val_def js_to_digit_def)
  have "text_val r (takeWhile (\<lambda>c. c = 48) ds) = 0" by (rule z) (auto dest: set_takeWhileD)
  then show "text_val r p = text_val r ds" using text_val_simps(3) [of r "takeWhile (\<lambda>c. c = 48) ds" p] by (simp only: ds mult_zero_left add_0)
  show "length p \<le> length ds" by (simp add: p_def length_dropWhile_le)
qed

text \<open>The limbs before normalization.\<close>

lemma limbs_of_digits:
  assumes "radix = 2 \<or> radix = 8 \<or> radix = 10 \<or> radix = 16" and "digits_ok (unat radix) p"
  defines "n \<equiv> string_limbs radix (length p)"
  shows "\<exists>r. (if radix = 10 then let tab = dec_loop p [0] in Some (if drop_bit 31 (last tab) \<noteq> 0 then tab @ [0] else tab)
      else bin_loop radix (32 - clz32 (radix - 1)) (rev p) 0 (replicate n 0)) = Some r \<and>
    bval r = int (text_val (unat radix) p) \<and> r \<noteq> [] \<and> length r \<le> n"
proof (cases "radix = 10")
  case True
  have "shortest [0]" by (simp add: shortest_def)
  note d = dec_loop_val [OF _ this, of p]
  have ok: "digits_ok 10 p" using assms(2) True by simp
  have "lval (dec_loop p [0]) < 10 ^ length p" using d(1) [OF ok] text_val_bound [OF ok] by simp
  from dec_limbs_fit [OF d(2) [OF ok] this] show ?thesis using True d(1) [OF ok] by (simp add: Let_def n_def)
next
  case False
  let ?b = "32 - clz32 (radix - 1)"
  have b: "unat radix = 2 ^ ?b" "1 \<le> ?b" "?b \<le> 5" using bin_radix_bits [of radix] assms(1) False by auto
  have ok: "digits_ok (2 ^ ?b) p" using assms(2) b(1) by simp
  have n: "length p * ?b < 32 * n" using False by (simp add: n_def string_limbs_def Let_def)
  then obtain r where r: "bin_loop radix ?b (rev p) 0 (replicate n 0) = Some r" "length r = n" "lval r = text_val (2 ^ ?b) p"
    using bin_loop_val [OF b, of "rev p" "replicate n 0" 0] ok by auto
  have "lval r < (2 ^ ?b) ^ length p" using text_val_bound [OF ok] r(3) by simp
  then have "2 * lval r < 2 ^ (length p * ?b + 1)" by (simp add: mult.commute flip: power_mult)
  also have "(2::nat) ^ (length p * ?b + 1) \<le> 4294967296 ^ length r"
    unfolding limbs_pow using n r(2) by (intro power_increasing) simp_all
  finally have l: "2 * lval r < 4294967296 ^ length r" .
  have ne: "r \<noteq> []" using n r(2) by auto
  have "js_bigint_sign r = 0" using l lval_top [OF ne] by (simp add: js_bigint_sign_cases)
  then have "bval r = int (lval r)" by (simp add: bval_def)
  then show ?thesis using False r b(1) ne by simp
qed

definition text_too_long :: "nat \<Rightarrow> js_error \<Rightarrow> bool" where
  "text_too_long n err \<longleftrightarrow> err = too_large_to_allocate \<and> 262144 \<le> n"

lemma runs_from_string:
  assumes "radix = 2 \<or> radix = 8 \<or> radix = 10 \<or> radix = 16" and "digits_ok (unat radix) ds"
  shows "runs (\<lambda>r. bval r = (if neg then - int (text_val (unat radix) ds) else int (text_val (unat radix) ds)) \<and> bigint_wf r) 1
    (text_too_long (length ds)) 0 (js_bigint_from_string ((if neg then [45] else []) @ ds) radix)"
proof -
  define p where "p = dropWhile (\<lambda>c. c = 48) ds"
  note p = drop_zeros [OF assms(2), folded p_def]
  define n where "n = string_limbs radix (length p)"
  obtain r where r: "(if radix = 10 then let tab = dec_loop p [0] in Some (if drop_bit 31 (last tab) \<noteq> 0 then tab @ [0] else tab)
      else bin_loop radix (32 - clz32 (radix - 1)) (rev p) 0 (replicate n 0)) = Some r"
      "bval r = int (text_val (unat radix) ds)" "r \<noteq> []" "length r \<le> n"
    using limbs_of_digits [OF assms(1) p(1), folded n_def] p(2) by auto
  have sign: "(case (if neg then [45] else []) @ ds of c # p \<Rightarrow> c = 45 | [] \<Rightarrow> False) \<longleftrightarrow> neg"
    using assms by (cases ds) (auto simp: digit_val_def js_to_digit_def)
  have strip: "(if neg then tl ((if neg then [45] else []) @ ds) else (if neg then [45] else []) @ ds) = ds" by simp
  have small: "text_too_long (length ds) err" if "size_error n err" for err
    using that string_limbs_small [OF assms(1), of "length p"] p(3) by (auto simp: size_error_def text_too_long_def n_def)
  show ?thesis
  proof (cases "length p > JS_BIGINT_MAX_SIZE * 32")
    case True
    then have "text_too_long (length ds) too_large_to_allocate" using p(3) by (simp add: text_too_long_def JS_BIGINT_MAX_SIZE_def)
    then have "runs P 1 (text_too_long (length ds)) 0 (throw_m too_large_to_allocate)" for P :: "bigint \<Rightarrow> bool" by (intro runs_throw) simp_all
    then show ?thesis using True by (simp add: js_bigint_from_string_def Let_def sign strip p_def [symmetric])
  next
    case False
    let ?f = "\<lambda>r. if neg then guard_m (js_bigint_neg r) js_free (\<lambda>r1. then_m js_free (return_m r1)) else return_m r"
    have e: "js_bigint_from_string ((if neg then [45] else []) @ ds) radix =
        bind_m (js_bigint_new n) (\<lambda>_. bind_m (js_bigint_normalize r) ?f)"
      unfolding js_bigint_from_string_def Let_def sign strip p_def [symmetric] n_def [symmetric] r(1) [unfolded Let_def]
      using False by simp
    have new: "runs (\<lambda>_. n \<le> JS_BIGINT_MAX_SIZE) 1 (text_too_long (length ds)) 0 (js_bigint_new n)"
      by (rule runs_weaken [OF runs_bigint_new]) (use small in auto)
    have neg: "runs (\<lambda>x. bval x = - bval y \<and> bigint_wf x) 0 (text_too_long (length ds)) (- 1)
        (guard_m (js_bigint_neg y) js_free (\<lambda>r1. then_m js_free (return_m r1)))"
      if "n \<le> JS_BIGINT_MAX_SIZE" "y \<noteq> []" "length y \<le> n" for y
    proof (rule runs_guard [OF runs_weaken [OF runs_neg [OF that(2)]] frees_js_free])
      show "text_too_long (length ds) err" if "size_error (length y) err" for err
        using that \<open>length y \<le> n\<close> \<open>n \<le> JS_BIGINT_MAX_SIZE\<close> by (simp add: size_error_def)
    qed (auto intro!: runs_then_free [OF frees_js_free] runs_return)
    show ?thesis
      unfolding e
    proof (rule runs_bind [OF new])
      fix u
      assume n: "n \<le> JS_BIGINT_MAX_SIZE"
      show "runs (\<lambda>r. bval r = (if neg then - int (text_val (unat radix) ds) else int (text_val (unat radix) ds)) \<and> bigint_wf r) (1 - 1)
          (text_too_long (length ds)) (0 - 1) (bind_m (js_bigint_normalize r) ?f)"
      proof (rule runs_bind [OF runs_normalize [OF r(3)]])
        fix y
        assume y: "bval y = bval r \<and> bigint_wf y \<and> length y \<le> length r"
        then have "y \<noteq> []" by (simp add: bigint_wf_def)
        then show "runs (\<lambda>r. bval r = (if neg then - int (text_val (unat radix) ds) else int (text_val (unat radix) ds)) \<and> bigint_wf r)
            (1 - 1 - 0) (text_too_long (length ds)) (0 - 1 - 0) (?f y)"
          using neg [OF n, of y] y r(2,4) by (cases neg) (auto intro: runs_return)
      qed
    qed
  qed
qed

section \<open>Writing digits\<close>

lemma digits_nth: "d < 36 \<Longrightarrow> digits ! d = digit_char d"
proof -
  have "\<forall>d\<in>set [0..<36]. digits ! d = digit_char d" by (simp add: digits_def digit_char_def upt_rec)
  then show "d < 36 \<Longrightarrow> digits ! d = digit_char d" by simp
qed

lemma js_limb_to_a_padded:
  assumes "2 \<le> unat radix" and "unat radix \<le> 36"
  shows "js_limb_to_a n radix k q = padded (unat radix) k (unat n) @ q"
proof (induction k arbitrary: n q)
  case (Suc k)
  have "0 < unat radix" using assms(1) by linarith
  then have "unat n mod unat radix < unat radix" by (rule mod_less_divisor)
  then have lt: "unat (n mod radix) < 36" using assms(2) by (simp add: unat_mod)
  have d10: "(ucast (n mod 10) + 48 :: u8) = digit_char (unat n mod 10)" by (subst ucast_digit) (simp_all add: unat_mod)
  have c: "(if radix = 10 then ucast (n mod 10) + 48 else digits ! unat (n mod radix)) = digit_char (unat n mod unat radix)"
    using digits_nth [OF lt] d10 by (simp add: unat_mod)
  have "js_limb_to_a n radix (Suc k) q =
      js_limb_to_a (n div radix) radix k ((if radix = 10 then ucast (n mod 10) + 48 else digits ! unat (n mod radix)) # q)" by simp
  then show ?case unfolding c by (simp add: Suc.IH unat_div)
qed simp

lemma js_u64toa_text:
  assumes "2 \<le> unat radix" and "unat radix \<le> 36"
  shows "js_u64toa n radix q = nat_text (unat radix) (unat n) @ q"
  using assms
proof (induction n radix q rule: js_u64toa.induct)
  case (1 n radix q)
  let ?r = "unat radix"
  have u: "unat (ucast radix :: u64) = ?r" by simp
  have r0: "0 < ?r" using "1.prems"(1) by linarith
  define n' where "n' = n div ucast radix"
  have n': "unat n' = unat n div ?r" by (simp add: n'_def unat_div)
  have "unat n mod ?r < ?r" using r0 by (rule mod_less_divisor)
  then have lt: "unat (n mod ucast radix) < 36" using "1.prems"(2) by (simp add: unat_mod)
  have d10: "(48 + ucast (n mod 10) :: u8) = digit_char (unat n mod 10)"
    by (subst add.commute, subst ucast_digit) (simp_all add: unat_mod)
  define c where "c = (if radix = 10 then 48 + ucast (n mod 10) else digits ! unat (n mod ucast radix))"
  have c: "c = digit_char (unat n mod ?r)"
    using digits_nth [OF lt] d10 by (simp add: c_def unat_mod)
  have shrink: "n' \<noteq> n" if "n' \<noteq> 0"
  proof -
    have "unat n \<noteq> 0" using that by (auto simp: n'_def unat_eq_0)
    then have "unat n' < unat n" using "1.prems"(1) by (simp add: n')
    then show ?thesis by auto
  qed
  have step: "js_u64toa n radix q = (if n' \<noteq> 0 then js_u64toa n' radix (c # q) else c # q)"
    using shrink by (subst js_u64toa.simps) (auto simp: Let_def c_def n'_def)
  show ?case
  proof (cases "n' = 0")
    case True
    then have "unat n < ?r" using n' r0 by (simp add: div_eq_0_iff)
    then show ?thesis using True step c by (simp add: nat_text_digit)
  next
    case False
    have "js_u64toa n' radix (c # q) = nat_text ?r (unat n') @ c # q"
    proof (cases "radix = 10")
      case True
      then show ?thesis using "1.IH"(1) [OF True refl refl] False "1.prems" by (simp add: n'_def c_def)
    next
      case b: False
      then show ?thesis using "1.IH"(2) [OF b refl refl] False shrink "1.prems" by (simp add: n'_def c_def)
    qed
    moreover have "\<not> unat n < ?r" using False n' by (auto simp: word_unat_eq_iff)
    then have "nat_text ?r (unat n) = nat_text ?r (unat n') @ [c]"
      using "1.prems"(1) n' c by (subst nat_text.simps) simp
    ultimately show ?thesis using False step by simp
  qed
qed

lemma radix_tables:
  fixes radix :: u32
  assumes "2 \<le> unat radix" and "unat radix \<le> 36" and "radix AND (radix - 1) \<noteq> 0"
  shows "unat (js_radix_base_table ! (unat radix - 2)) = unat radix ^ (js_digits_per_limb_table ! (unat radix - 2))"
    "1 < unat (js_radix_base_table ! (unat radix - 2))"
proof -
  have t: "\<forall>r\<in>set [2..<37]. r \<in> {2, 4, 8, 16, 32} \<or> unat (js_radix_base_table ! (r - 2)) = r ^ (js_digits_per_limb_table ! (r - 2)) \<and>
      1 < unat (js_radix_base_table ! (r - 2))"
    by (simp add: js_radix_base_table_def js_digits_per_limb_table_def upt_rec)
  have "radix \<noteq> 2 \<and> radix \<noteq> 4 \<and> radix \<noteq> 8 \<and> radix \<noteq> 16 \<and> radix \<noteq> 32" using assms(3) by auto
  then have "unat radix \<notin> {2, 4, 8, 16, 32}" by (simp add: word_unat_eq_iff)
  moreover have "unat radix \<in> set [2..<37]" unfolding set_upt using assms(1,2) by simp
  ultimately show "unat (js_radix_base_table ! (unat radix - 2)) = unat radix ^ (js_digits_per_limb_table ! (unat radix - 2))"
    "1 < unat (js_radix_base_table ! (unat radix - 2))" using t by blast+
qed

lemma text_loop_val:
  assumes "2 \<le> unat radix" and "unat radix \<le> 36" and "radix AND (radix - 1) \<noteq> 0" and "0 < lval tab"
  shows "text_loop radix tab q = Some (nat_text (unat radix) (lval tab) @ q)"
  using assms(4)
proof (induction "lval tab" arbitrary: tab q rule: less_induct)
  case less
  let ?r = "unat radix"
  define base dpl where "base = js_radix_base_table ! (?r - 2)" and "dpl = js_digits_per_limb_table ! (?r - 2)"
  have base: "unat base = ?r ^ dpl" "1 < unat base" using radix_tables [OF assms(1-3)] by (simp_all add: base_def dpl_def)
  define l where "l = strip_zeros tab (length tab)"
  define tab1 where "tab1 = take l tab"
  have "tab \<noteq> []" using less.prems by auto
  then have l: "0 < l" "l \<le> length tab" "lval tab1 = lval tab" "l = 1 \<or> tab ! (l - 1) \<noteq> 0"
    using strip_zeros_val [of "length tab" tab] by (simp_all add: l_def tab1_def)
  have len: "length tab1 = l" using l(2) by (simp add: tab1_def)
  have step: "text_loop radix tab q =
      (if length tab1 = 1 \<and> tab1 ! 0 < base then Some (if tab1 ! 0 \<noteq> 0 then js_u64toa (ucast (tab1 ! 0)) radix q else q)
       else case js_mp_div1 tab1 base 0 of (t, v) \<Rightarrow> text_loop radix t (js_limb_to_a v radix dpl q))"
    by (subst text_loop.simps) (simp only: Let_def base_def dpl_def tab1_def l_def)
  show ?case
  proof (cases "length tab1 = 1 \<and> tab1 ! 0 < base")
    case True
    then obtain x where x: "tab1 = [x]" by (cases tab1) auto
    then have "unat x = lval tab" using l(3) by simp
    moreover from this have "x \<noteq> 0" using less.prems by auto
    ultimately show ?thesis using True step x js_u64toa_text [OF assms(1,2), of "ucast x" q] by simp
  next
    case False
    have ge: "unat base \<le> lval tab"
    proof (cases "l = 1")
      case True
      then obtain x where x: "tab1 = [x]" using len by (cases tab1) auto
      then show ?thesis using False l(3) by (simp add: word_less_nat_alt)
    next
      case l1: False
      then obtain k where k: "l = Suc k" "0 < k" using l(1) by (cases l) auto
      have "4294967296 ^ k \<le> lval tab1"
        unfolding tab1_def k(1) by (rule lval_top_nonzero) (use l l1 k in auto)
      moreover have "(4294967296::nat) ^ 1 \<le> 4294967296 ^ k" using k(2) by (intro power_increasing) simp_all
      ultimately show ?thesis using unat_lt_u32 [of base] l(3) by simp
    qed
    obtain t v where d: "js_mp_div1 tab1 base 0 = (t, v)" by force
    have "lval t * unat base + unat v = lval tab" "unat v < unat base"
      using js_mp_div1_val [OF d] base(2) l(3) by simp_all
    then have t: "lval t = lval tab div unat base" "unat v = lval tab mod unat base"
      using base(2) by (metis div_less add_0 not_one_less_zero div_mult_self1 add.commute, metis mod_mult_self3 mod_less)
    have "lval t < lval tab" using t(1) base(2) less.prems by simp
    moreover have "0 < lval t" using t(1) ge base(2) by (simp add: div_greater_zero_iff)
    ultimately have "text_loop radix t (js_limb_to_a v radix dpl q) = Some (nat_text ?r (lval t) @ padded ?r dpl (unat v) @ q)"
      using less.hyps [of t] js_limb_to_a_padded [OF assms(1,2)] by simp
    moreover have "nat_text ?r (lval tab) = nat_text ?r (lval t) @ padded ?r dpl (unat v)"
      using nat_text_split [OF assms(1), of dpl "lval tab"] ge base(1) t padded_mod [of ?r dpl "lval tab"] by simp
    moreover have "text_loop radix tab q = text_loop radix t (js_limb_to_a v radix dpl q)"
      unfolding step if_not_P [OF False] d by simp
    ultimately show ?thesis by simp
  qed
qed

lemma divmod_32: "j = 32 * p + s \<Longrightarrow> s < 32 \<Longrightarrow> j div 32 = p \<and> j mod 32 = (s :: nat)"
  by simp

text \<open>A digit of a power of two, which may cross the border of a limb.\<close>

lemma digit_bits:
  assumes "bp div 32 < length tab" and "b \<le> 5"
  defines "shift \<equiv> bp mod 32" and "pos \<equiv> bp div 32"
  defines "c \<equiv> (if shift + b > 32 \<and> pos + 1 < length tab then drop_bit shift (tab ! pos) OR push_bit (32 - shift) (tab ! (pos + 1))
    else drop_bit shift (tab ! pos))"
  shows "unat (c AND mask b) = lval tab div 2 ^ bp mod 2 ^ b"
proof -
  have bp: "bp = 32 * pos + shift" "shift < 32" by (simp_all add: pos_def shift_def)
  have pos: "pos < length tab" using assms(1) by (simp add: pos_def)
  have "bit c k \<longleftrightarrow> bit (lval tab) (bp + k)" if k: "k < b" for k
  proof (cases "shift + k < 32")
    case True
    then have "(bp + k) div 32 = pos" "(bp + k) mod 32 = shift + k" using bp divmod_32 [of "bp + k" pos "shift + k"] by simp_all
    then have "bit (lval tab) (bp + k) \<longleftrightarrow> bit (tab ! pos) (shift + k)" using pos by (simp add: bit_lval)
    moreover have "\<not> 32 - shift \<le> k" using True by linarith
    ultimately show ?thesis by (simp add: c_def bit_or_iff bit_drop_bit_eq bit_push_bit_iff)
  next
    case False
    have e: "bp + k = 32 * (pos + 1) + (shift + k - 32)" "shift + k - 32 < 32" using False bp k assms(2) by simp_all
    have "(bp + k) div 32 = pos + 1" "(bp + k) mod 32 = shift + k - 32" using divmod_32 [OF e] by simp_all
    then have l: "bit (lval tab) (bp + k) \<longleftrightarrow> pos + 1 < length tab \<and> bit (tab ! (pos + 1)) (shift + k - 32)" by (simp add: bit_lval)
    have "\<not> bit (tab ! pos) (shift + k)" using bit_imp_le_length [of "tab ! pos" "shift + k"] False by auto
    moreover have "k - (32 - shift) = shift + k - 32" "32 - shift \<le> k" "k < 32" using False bp(2) k assms(2) by linarith+
    moreover have "shift + b > 32" using False k by linarith
    ultimately show ?thesis using l by (simp add: c_def bit_or_iff bit_drop_bit_eq bit_push_bit_iff)
  qed
  then have "unat (c AND mask b) = take_bit b (drop_bit bp (lval tab))"
    using assms(2) by (intro bit_eqI) (auto simp: bit_unsigned_iff bit_and_iff bit_mask_iff bit_take_bit_iff bit_drop_bit_eq dest: bit_imp_le_length)
  then show ?thesis by (simp add: take_bit_eq_mod drop_bit_eq_div)
qed

lemma bin_text_padded:
  assumes "unat radix = 2 ^ b" and "1 \<le> b" and "b \<le> 5" and "(i + k) * b < 32 * length tab + b"
  shows "bin_text radix b tab k i q = padded (2 ^ b) k (lval tab div 2 ^ (i * b)) @ q"
  using assms(4)
proof (induction k arbitrary: i q)
  case (Suc k)
  have "i * b < 32 * length tab"
  proof -
    have "(i + Suc k) * b = i * b + k * b + b" by (simp add: algebra_simps)
    then show ?thesis using Suc.prems by linarith
  qed
  then have pos: "i * b div 32 < length tab" by linarith
  have "radix = of_nat (unat radix)" by simp
  then have "radix = 2 ^ b" unfolding assms(1) by simp
  then have m: "radix - 1 = mask b" by (simp add: mask_eq_exp_minus_1)
  define c where "c = (if i * b mod 32 + b > 32 \<and> i * b div 32 + 1 < length tab
      then drop_bit (i * b mod 32) (tab ! (i * b div 32)) OR push_bit (32 - i * b mod 32) (tab ! (i * b div 32 + 1))
      else drop_bit (i * b mod 32) (tab ! (i * b div 32)))"
  have c: "unat (c AND (radix - 1)) = lval tab div 2 ^ (i * b) mod 2 ^ b"
    unfolding m c_def by (rule digit_bits [OF pos assms(3)])
  have "(2::nat) ^ b \<le> 32" using power_increasing [OF assms(3), of "2::nat"] by simp
  moreover have "lval tab div 2 ^ (i * b) mod 2 ^ b < 2 ^ b" by simp
  ultimately have d: "digits ! unat (c AND (radix - 1)) = digit_char (lval tab div 2 ^ (i * b) mod 2 ^ b)"
    unfolding c by (intro digits_nth) linarith
  have "(i + 1 + k) * b < 32 * length tab + b" using Suc.prems by simp
  from Suc.IH [OF this] have "bin_text radix b tab k (i + 1) (digits ! unat (c AND (radix - 1)) # q) =
      padded (2 ^ b) k (lval tab div 2 ^ ((i + 1) * b)) @ digit_char (lval tab div 2 ^ (i * b) mod 2 ^ b) # q"
    by (simp only: d)
  moreover have "lval tab div 2 ^ ((i + 1) * b) = lval tab div 2 ^ (i * b) div 2 ^ b"
    by (simp add: power_add mult.commute flip: div_mult2_eq)
  moreover have "bin_text radix b tab (Suc k) i q = bin_text radix b tab k (i + 1) (digits ! unat (c AND (radix - 1)) # q)"
    by (simp only: bin_text.simps Let_def c_def)
  ultimately show ?case by simp
qed simp

text \<open>The bits of a positive number.\<close>

lemma positive_bits:
  assumes "bigint_wf r" and "0 < bval r"
  defines "m \<equiv> length r * 32 - js_limb_clz (last r)"
  shows "lval r = nat (bval r)" "1 \<le> m" "2 ^ (m - 1) \<le> lval r" "lval r < 2 ^ m" "m \<le> 32 * length r"
proof -
  have ne: "r \<noteq> []" using assms(1) by (simp add: bigint_wf_def)
  have s: "js_bigint_sign r = 0" using sign_bval [OF ne] assms(2) by simp
  then show v: "lval r = nat (bval r)" by (simp add: bval_def)
  show "m \<le> 32 * length r" by (simp add: m_def)
  define n where "n = length r - 1"
  have r: "r = butlast r @ [last r]" "length r = Suc n" "length (butlast r) = n" using ne by (simp_all add: n_def)
  have l: "lval r = lval (butlast r) + 2 ^ (32 * n) * unat (last r)"
    using lval_append [of "butlast r" "[last r]"] r by (simp add: limbs_pow)
  have lb: "lval (butlast r) < 2 ^ (32 * n)" using lval_bound [of "butlast r"] r(3) by (simp add: limbs_pow)
  have "1 \<le> m \<and> 2 ^ (m - 1) \<le> lval r \<and> lval r < 2 ^ m"
  proof (cases "last r = 0")
    case False
    define c where "c = clz32 (last r)"
    have c: "c < 32" "2 ^ (31 - c) \<le> unat (last r)" "unat (last r) < 2 ^ (32 - c)" using clz32_bounds [OF False] by (simp_all add: c_def)
    have m: "m = 32 * n + (32 - c)" using False r(2) c(1) by (simp add: m_def js_limb_clz_def c_def)
    have "(2::nat) ^ (m - 1) = 2 ^ (32 * n) * 2 ^ (31 - c)" using c(1) by (simp add: m flip: power_add)
    also have "\<dots> \<le> 2 ^ (32 * n) * unat (last r)" using c(2) by (rule mult_left_mono) simp
    finally have lo: "2 ^ (m - 1) \<le> lval r" using l by linarith
    have "lval r < 2 ^ (32 * n) * (unat (last r) + 1)" using l lb by simp
    also have "\<dots> \<le> 2 ^ (32 * n) * 2 ^ (32 - c)" using c(3) by (intro mult_left_mono) simp_all
    also have "\<dots> = 2 ^ m" by (simp add: m power_add)
    finally show ?thesis using lo c(1) m by simp
  next
    case True
    then have "n \<noteq> 0" using l lb assms(2) v by (cases "n = 0") auto
    then obtain k where k: "n = Suc k" by (cases n) auto
    define w where "w = r ! (length r - 2)"
    have "drop_bit 31 w \<noteq> 0"
      using assms(1) True r(2) k ne by (auto simp: bigint_wf_def redundant_limb_def last_conv_nth w_def)
    then have w: "2147483648 \<le> unat w" by (auto simp: top_bit_u32 split: if_splits)
    have "butlast r = butlast (butlast r) @ [w]"
    proof -
      have b: "butlast r \<noteq> []" using r(3) k by (metis list.size(3) nat.distinct(1))
      then have "last (butlast r) = w" using r(2,3) k by (simp add: w_def last_conv_nth nth_butlast)
      with b show ?thesis by (metis append_butlast_last_id)
    qed
    then have "lval (butlast r) = lval (butlast (butlast r)) + 2 ^ (32 * k) * unat w"
      using lval_append [of "butlast (butlast r)" "[w]"] r(2) k by (simp add: limbs_pow)
    moreover have "(2::nat) ^ (32 * k) * 2147483648 \<le> 2 ^ (32 * k) * unat w" using w by (rule mult_left_mono) simp
    ultimately have lo: "(2::nat) ^ (32 * k) * 2147483648 \<le> lval r" using l by linarith
    have m: "m = 32 * n" using True r(2) by (simp add: m_def js_limb_clz_def)
    have "(2::nat) ^ (m - 1) = 2 ^ (32 * k) * 2147483648" by (simp add: m k power_add)
    moreover have "lval r = lval (butlast r)" using l True by simp
    moreover have "1 \<le> m" by (simp add: m k)
    ultimately show ?thesis using lo lb m by simp
  qed
  then show "1 \<le> m" "2 ^ (m - 1) \<le> lval r" "lval r < 2 ^ m" by simp_all
qed

section \<open>Writing a BigInt\<close>

text \<open>The digits of a positive number fill the room that is computed for them, or less of it.\<close>

lemma digits_of_positive:
  assumes "2 \<le> unat radix" and "unat radix \<le> 36" and "bigint_wf r" and "0 < bval r"
  shows "(if radix AND (radix - 1) = 0 then Some (bin_text radix (31 - clz32 radix) r (text_digits r radix) 0 []) else text_loop radix r [])
      = Some (nat_text (unat radix) (nat (bval r)))"
    and "length (nat_text (unat radix) (nat (bval r))) \<le> text_digits r radix"
proof -
  let ?b = "31 - clz32 radix"
  define m where "m = length r * 32 - js_limb_clz (last r)"
  note pb = positive_bits [OF assms(3,4), folded m_def]
  have td: "text_digits r radix = (m + ?b - 1) div ?b" by (simp add: text_digits_def m_def Let_def)
  have "radix \<noteq> 0" using assms(1) by auto
  note c = clz32_bounds [OF this]
  have b1: "1 \<le> ?b"
  proof (rule ccontr)
    assume "\<not> 1 \<le> ?b"
    then have "32 - clz32 radix = 1" using c(1) by linarith
    then show False using c(3) assms(1) by simp
  qed
  note dc = digit_count [OF b1 pb(3,4,2), folded td]
  have "(2 ^ ?b) ^ text_digits r radix \<le> unat radix ^ text_digits r radix" using c(2) by (intro power_mono) simp_all
  then have "nat (bval r) < unat radix ^ text_digits r radix" using dc(2) pb(1) by linarith
  then show "length (nat_text (unat radix) (nat (bval r))) \<le> text_digits r radix"
    using assms(1) dc(1) by (intro length_nat_text) simp_all
  show "(if radix AND (radix - 1) = 0 then Some (bin_text radix ?b r (text_digits r radix) 0 []) else text_loop radix r [])
      = Some (nat_text (unat radix) (nat (bval r)))"
  proof (cases "radix AND (radix - 1) = 0")
    case True
    note rb = radix_bits [OF assms(1,2) True]
    have "text_digits r radix * ?b \<le> m + ?b - 1" unfolding td by (rule div_times_less_eq_dividend)
    then have "text_digits r radix * ?b < 32 * length r + ?b" using pb(5) rb(2) by linarith
    then have "(0 + text_digits r radix) * ?b < 32 * length r + ?b" unfolding add_0 .
    from bin_text_padded [OF rb this, of "[]"] have "bin_text radix ?b r (text_digits r radix) 0 [] = padded (2 ^ ?b) (text_digits r radix) (lval r)"
      by simp
    moreover have "nat_text (2 ^ ?b) (lval r) = padded (2 ^ ?b) (text_digits r radix) (lval r)"
      by (rule nat_text_padded) (use assms(1) rb(1) dc in auto)
    ultimately show ?thesis using True rb(1) pb(1) by simp
  next
    case False
    then show ?thesis using text_loop_val [OF assms(1,2) False, of r "[]"] pb(1) assms(4) by simp
  qed
qed

lemma runs_new_string8: "runs (\<lambda>s. s = Str8 buf) 1 E 0 (js_new_string8_len buf)"
  unfolding js_new_string8_len_def by (rule runs_bind [OF runs_malloc]) (simp add: runs_return)

lemma runs_digits_of_bigint:
  assumes "2 \<le> unat radix" and "unat radix \<le> 36" and "bigint_wf r" and "0 < bval r" and "frees n free_tmp"
  shows "runs (\<lambda>s. s = Str8 ((if is_neg then [45] else []) @ nat_text (unat radix) (nat (bval r)))) (1 - n) E (- n)
    (digits_of_bigint is_neg r free_tmp radix)"
  unfolding digits_of_bigint_def digits_of_positive(1) [OF assms(1-4)] option.case
proof (rule runs_guard [OF runs_malloc assms(5)])
  let ?t = "if is_neg then 45 # nat_text (unat radix) (nat (bval r)) else nat_text (unat radix) (nat (bval r))"
  have "runs (\<lambda>s. s = Str8 ((if is_neg then [45] else []) @ nat_text (unat radix) (nat (bval r)))) 0 E (- 1)
      (guard_m (js_new_string8_len ?t) js_free (\<lambda>res. then_m js_free (return_m res)))"
    by (rule runs_guard [OF runs_new_string8 frees_js_free]) (auto intro!: runs_then_free [OF frees_js_free] runs_return)
  then show "runs (\<lambda>s. s = Str8 ((if is_neg then [45] else []) @ nat_text (unat radix) (nat (bval r)))) (1 - n - 1) E (- n - 1)
      (then_m free_tmp (guard_m (js_new_string8_len ?t) js_free (\<lambda>res. then_m js_free (return_m res))))"
    by (intro runs_then_free [OF assms(5)]) simp
qed simp

text \<open>The number of a BigInt value.\<close>

fun bigint_value :: "jsval \<Rightarrow> int" where
  "bigint_value (Short_Big_Int i) = sint i"
| "bigint_value (Big_Int a) = bval a"
| "bigint_value _ = 0"

fun bigint_size :: "jsval \<Rightarrow> nat" where
  "bigint_size (Big_Int a) = length a"
| "bigint_size _ = 1"

fun is_bigint :: "jsval \<Rightarrow> bool" where
  "is_bigint (Short_Big_Int i) \<longleftrightarrow> True"
| "is_bigint (Big_Int a) \<longleftrightarrow> bigint_wf a"
| "is_bigint _ \<longleftrightarrow> False"

lemma runs_to_string1:
  assumes "2 \<le> unat radix" and "unat radix \<le> 36" and "is_bigint v"
  shows "runs (\<lambda>s. s = Str8 (int_text (unat radix) (bigint_value v))) 1 (size_error (bigint_size v)) 0 (js_bigint_to_string1 v radix)"
proof (cases v)
  case (Short_Big_Int i)
  have "sint (scast i :: u64) = sint i" by (simp add: sint_up_scast is_up)
  then show ?thesis using Short_Big_Int i64toa_radix_text [OF assms(1,2), of "scast i"] runs_new_string8 by simp
next
  case (Big_Int a)
  then have wf: "bigint_wf a" "a \<noteq> []" using assms(3) by (auto simp: bigint_wf_def)
  note dig = runs_digits_of_bigint [OF assms(1,2)]
  consider "length a = 1 \<and> a ! 0 = 0" | "bval a < 0" | "0 < bval a" "\<not> (length a = 1 \<and> a ! 0 = 0)"
  proof -
    have "length a = 1 \<and> a ! 0 = 0" if "bval a = 0"
      using that bval_inj [OF wf(1) wf_single, of 0] by (simp add: bval_single)
    then show ?thesis using that by (metis linorder_neqE)
  qed
  then show ?thesis
  proof cases
    case 1
    then have "a = [0]" by (cases a) auto
    moreover have "int_text (unat radix) 0 = [48]" using assms(1) by (simp add: int_text_def nat_text_digit digit_char_def)
    ultimately show ?thesis using Big_Int runs_new_string8 by (simp add: bval_single)
  next
    case 2
    have "\<not> (length a = 1 \<and> a ! 0 = 0)"
    proof
      assume "length a = 1 \<and> a ! 0 = 0"
      then have "a = [0]" by (cases a) auto
      then show False using 2 by (simp add: bval_single)
    qed
    then have s: "js_bigint_sign a \<noteq> 0" "\<not> (length a = 1 \<and> a ! 0 = 0)" using 2 sign_bval [OF wf(2)] by auto
    have "runs (\<lambda>s. s = Str8 (int_text (unat radix) (bval a))) (1 - 1) (size_error (length a)) (0 - 1) (digits_of_bigint True tmp js_free radix)"
      if t: "bval tmp = - bval a \<and> bigint_wf tmp \<and> length tmp \<le> length a + 1" for tmp
      using dig [of tmp 1 js_free True] t 2 frees_js_free by (simp add: int_text_def)
    then have "runs (\<lambda>s. s = Str8 (int_text (unat radix) (bval a))) 1 (size_error (length a)) 0
        (bind_m (js_bigint_neg a) (\<lambda>tmp. digits_of_bigint True tmp js_free radix))"
      by (rule runs_bind [OF runs_neg [OF wf(2)]])
    then show ?thesis using Big_Int s by auto
  next
    case 3
    then have s: "js_bigint_sign a = 0" using sign_bval [OF wf(2)] by simp
    have i: "int_text (unat radix) (bval a) = nat_text (unat radix) (nat (bval a))" using 3 by (simp add: int_text_def)
    have "runs (\<lambda>s. s = Str8 (int_text (unat radix) (bval a))) 1 (size_error (length a)) 0
        (bind_m (js_bigint_new (length a)) (\<lambda>_. digits_of_bigint False a js_free radix))"
      by (rule runs_bind [OF runs_bigint_new]) (use dig [of a 1 js_free False] wf 3 frees_js_free i in simp)
    moreover have "runs (\<lambda>s. s = Str8 (int_text (unat radix) (bval a))) 1 (size_error (length a)) 0 (digits_of_bigint False a (return_m ()) radix)"
      using dig [of a 0 "return_m ()" False] wf 3 frees_return i by simp
    ultimately show ?thesis using Big_Int s 3(2) by auto
  qed
qed (use assms(3) in simp_all)

section \<open>The properties\<close>

lemma bigint_of_text:
  assumes "radix = 2 \<or> radix = 8 \<or> radix = 10 \<or> radix = 16" and "bigint_wf a"
  shows "runs (\<lambda>r. r = a) 1 (text_too_long (length (int_text (unat radix) (bval a)))) 0
    (js_bigint_from_string (int_text (unat radix) (bval a)) radix)"
proof -
  let ?ds = "nat_text (unat radix) (nat \<bar>bval a\<bar>)"
  have rb: "2 \<le> unat radix" "unat radix \<le> 36" using assms(1) by auto
  have t: "int_text (unat radix) (bval a) = (if bval a < 0 then [45] else []) @ ?ds" by (simp add: int_text_def)
  have "runs (\<lambda>r. bval r = bval a \<and> bigint_wf r) 1 (text_too_long (length ?ds)) 0
      (js_bigint_from_string (int_text (unat radix) (bval a)) radix)"
    using runs_from_string [OF assms(1) text_val_nat_text(2) [OF rb, of "nat \<bar>bval a\<bar>"], of "bval a < 0"]
    unfolding t by (rule runs_weaken) (auto simp: text_val_nat_text(1) [OF rb])
  then show ?thesis
    by (rule runs_weaken) (auto simp: text_too_long_def t intro: bval_inj [OF _ assms(2)])
qed

text \<open>C12: the text of a BigInt in any base from 2 to 36 is the numeral of its value, with a sign when it is negative, and its
  digits fit in the buffer that is allocated for them; the only error is \<open>RangeError\<close> for too many limbs, apart from a failed
  allocation, and nothing leaks.\<close>

theorem js_bigint_to_string1_correct:
  assumes "2 \<le> unat radix" and "unat radix \<le> 36" and "is_bigint v"
  shows "runs (\<lambda>s. s = Str8 (int_text (unat radix) (bigint_value v))) 1 (size_error (bigint_size v)) 0 (js_bigint_to_string1 v radix) \<and>
    (\<forall>r. bigint_wf r \<longrightarrow> 0 < bval r \<longrightarrow> length (nat_text (unat radix) (nat (bval r))) \<le> text_digits r radix)"
  using runs_to_string1 [OF assms] digits_of_positive(2) [OF assms(1,2)] by blast

theorem js_bigint_to_string1_correct_witness:
  "runs (\<lambda>s. s = Str8 [45, 102, 97]) 1 (size_error 1) 0 (js_bigint_to_string1 (Big_Int [-250]) 16)"
proof -
  have "int_text 16 (- 250) = [45, 102, 97]"
    by (simp add: int_text_def nat_text.simps digit_char_def)
  then show ?thesis
    using js_bigint_to_string1_correct [of 16 "Big_Int [-250]"] by (simp add: wf_single bval_single)
qed

text \<open>C13: the text of a BigInt in base 2, 8, 10 or 16 reads back as the very same representation, or is refused with a
  \<open>RangeError\<close> because it has more than 262143 characters.\<close>

theorem js_bigint_text_roundtrip:
  assumes "radix = 2 \<or> radix = 8 \<or> radix = 10 \<or> radix = 16" and "bigint_wf a"
    and "js_bigint_to_string1 (Big_Int a) radix m = (Inr t, m')"
  shows "\<exists>cs. t = Str8 cs \<and> runs (\<lambda>r. r = a) 1 (text_too_long (length cs)) 0 (js_bigint_from_string cs radix)"
proof -
  have "2 \<le> unat radix" "unat radix \<le> 36" "is_bigint (Big_Int a)" using assms(1,2) by auto
  from runs_to_string1 [OF this] assms(3) have "t = Str8 (int_text (unat radix) (bval a))"
    by (auto simp: runs_def split: prod.splits sum.splits)
  then show ?thesis using bigint_of_text [OF assms(1,2)] by blast
qed

theorem js_bigint_text_roundtrip_witness:
  "runs (\<lambda>r. r = [-6]) 1 (text_too_long 4) 0 (js_bigint_from_string [45, 49, 49, 48] 2)"
proof -
  have clz: "clz32 (2 :: limb) = 30" "clz32 (6 :: limb) = 29" by (rule clz32_eqI; simp)+
  have "js_bigint_to_string1 (Big_Int [-6]) 2 \<lparr>mem_outcomes = [], mem_live = 0\<rparr>
      = (Inr (Str8 [45, 49, 49, 48]), \<lparr>mem_outcomes = [], mem_live = 1\<rparr>)"
    by (simp add: bigint_eval digits_of_bigint_def text_digits_def js_limb_clz_def clz js_new_string8_len_def
          js_bigint_neg_def js_bigint_add_def js_bigint_set_si_def ADDC_def SUBC_def)
       (simp add: numeral_3_eq_3 Let_def digits_def upt_rec)
  from js_bigint_text_roundtrip [OF _ wf_single this] show ?thesis by (simp add: eval_nat_numeral)
qed

end
