(* ===== verification/Spec2Isabelle.thy ===== *)
theory Spec2Isabelle
  imports BigInt_Spec Rqsort Unicode_Props Uri Pc2line Rope_Balance Gc_Cycles Stack_Verifier Js_Map_Spec Array_Sort BigInt_Text
begin

text \<open>
  A verification library for the JavaScript engine of the repository, the C sources under
  \<open>src/qjs\<close> (QuickJS-ng, compiled into a Go package).

  \<^bold>\<open>The program.\<close> \<open>quickjs.c\<close> holds the engine: values and their reference counts, strings and ropes,
  BigInts, the property system, the parser, the bytecode compiler and interpreter, and the builtin
  objects. It stands on \<open>cutils.h\<close> (growing buffers, UTF-8 and UTF-16, sorting, bit counting),
  \<open>libunicode.c\<close> (sets of code points, case folding, normalization), \<open>libregexp.c\<close> (regular
  expressions), \<open>dtoa.c\<close> (numbers as text) and \<open>list.h\<close>. \<open>quickjs-libc.c\<close> adds an event loop and
  operating-system modules; \<open>bridge.c\<close> and the Go files wrap the C interface for Go programs.
  The library takes the components whose results the rest of the engine relies on and which are
  algorithms of their own: arithmetic, text, sorting, sets of code points, tables of the compiler,
  the verifier of bytecode, memory, and of the builtin objects the sorting of arrays, \<open>Map\<close> and \<open>Set\<close>.

  \<^bold>\<open>How the code is modelled.\<close> Machine integers are words of their width (\<open>u8\<close> to \<open>u64\<close>), with \<open>nat\<close>
  or \<open>int\<close> where the code's guards exclude a wrap-around; where they do not, it is written out, an overflow of
  \<open>int\<close> being the error \<open>Undefined\<close>. An array and its length are a list; a pointer
  into a buffer is the list from that position on. A structure is a record with the fields of the code, or a
  datatype where a tag selects the contents. Every function that allocates takes the outcomes of its
  allocations from an oracle (\<open>mem\<close>, with \<open>js_malloc\<close>, \<open>js_realloc\<close>, \<open>js_free\<close> in \<open>Prelude\<close>) and
  returns an error of \<open>js_error\<close> or a value, so that every theorem covers a failure at any point;
  \<open>mem_live\<close> counts the blocks that are held, so that \<open>runs\<close> and \<open>yields\<close> also say that nothing leaks.
  Definitions carry the names of the C functions; a loop is named after its function.

  \<^bold>\<open>The theories\<close>, in the order of the imports:

  \<^item> \<open>Prelude\<close>: integer types, the allocation monad and the calculus of its contracts (\<open>runs\<close>, \<open>yields\<close>).
    \<open>Codec\<close>: the interface of item-by-item encodings, a locale; reading back sequences and prefix freedom
    are proved once in it.
  \<^item> \<open>Limbs\<close>, \<open>Limb_Division\<close> (\<open>js_mp_*\<close>): arrays of 32-bit limbs with their value \<open>lval\<close>; each routine is an
    equation between values and carries. The division is the normalized schoolbook one with a precomputed
    reciprocal; its add-back loop is proved to end.
  \<^item> \<open>Cutils\<close>: bit counting, byte order and hexadecimal digits (\<open>cutils.h\<close>).
  \<^item> \<open>BigInt\<close>, \<open>BigInt_Ops\<close>, \<open>BigInt_Pow\<close>, \<open>BigInt_Float\<close> (\<open>js_bigint_*\<close>): two's complement numbers of minimal
    length; \<open>bval\<close> is the integer of a \<open>bigint\<close>, \<open>bigint_wf\<close> its invariant. Every operation is shown to
    compute the integer operation, to keep the invariant, to fail only with a \<open>RangeError\<close> or for
    lack of memory, and to release what it allocated (with the one exception that \<open>js_bigint_pow_leak\<close>
    states). Conversion to a double is the nearest double, ties to even.
    \<open>BigInt_Spec\<close>: the contract as the locale \<open>integer_ops\<close>, its consequences for a client, the
    interpretation on the code's functions, and the properties C1 to C11.
  \<^item> \<open>Int_Text\<close> (\<open>u32toa\<close> to \<open>i64toa_radix\<close> of \<open>dtoa.c\<close>) and \<open>BigInt_Text\<close> (\<open>js_bigint_from_string\<close>,
    \<open>js_bigint_to_string1\<close>): integers as text, against \<open>nat_text\<close>, the numeral of a number in a base, and
    \<open>text_val\<close>, the number of a text; what is written is that numeral and fits in its buffer (C12), and reads back
    as the same BigInt (C13).
  \<^item> \<open>Rqsort\<close> (\<open>rqsort\<close>, \<open>heapsortx\<close>, \<open>med3\<close>): the main loop is a \<open>while_option\<close> over a stack of segments with
    their depth limits. It ends for every comparison function, permutes, sorts under the locale
    \<open>comparison\<close> of total preorders, and its stack stays within the 50 entries of the code (C14 to C16).
    \<open>Array_Sort\<close> (\<open>js_array_sort\<close>, \<open>js_array_cmp_generic\<close>): the default order of strings as an instance of the
    class of preorders, the locale \<open>stable_order\<close> of elements compared by value and then by place, and
    \<open>Array.prototype.sort\<close> as the stable sort that the language asks for (C17). The conversions and the
    comparison function are parameters without side effects; the array has data properties only.
  \<^item> \<open>Char_Range\<close> (\<open>cr_*\<close>): sorted lists of change points; \<open>canonical\<close> is their unique
    form. The set operations are the operations on sets, the locale \<open>set_representation\<close> gives the
    algebra of the representations, the sort of intervals rests on \<open>Rqsort\<close> (C18 to C20). \<open>Unicode_Props\<close>
    (\<open>unicode_general_category1\<close>, \<open>unicode_prop1\<close>, \<open>unicode_case1\<close>, \<open>unicode_prop_ops\<close>): the scans of the
    compressed tables, against the sets that the tables encode, and the stack machine of property expressions, which
    evaluates them (C21). The contents of the tables, generated data, are a parameter; the hypotheses on them
    (complete, at most 0x110000 code points, conversions in order) hold for those of the repository.
  \<^item> \<open>Utf8\<close> (\<open>utf8_*\<close>, \<open>JS_NewStringLen\<close>, \<open>JS_ToCStringLen2\<close>): encoding and decoding of code points, an
    interpretation of \<open>Codec\<close>; scanning, the two widths of strings, round trips, and the bytes that the
    encoders store (C22 to C25). A string of more than 715827882 16-bit units cannot be converted (C24).
  \<^item> \<open>Dynbuf\<close> (\<open>dbuf_*\<close>): growth in 64-bit sizes, the error flag that stays set (C26).
    \<open>Pc2line\<close> (\<open>dbuf_put_leb128\<close>, \<open>get_leb128\<close>, \<open>compute_pc2line_info\<close>, \<open>find_line_num\<close>): LEB128 as another
    \<open>Codec\<close>; the search finds the last entry at or before the position (C27, C28).
  \<^item> \<open>String_Buffer\<close> (\<open>string_buffer_*\<close>): 8-bit units until a wide one comes; the contents are exactly what was
    appended, or an error is pending, and the calls that go wrong, by an overflow of a length or on a buffer
    without a string, are told apart (C29). \<open>Uri\<close> (\<open>encodeURI\<close>, \<open>decodeURI\<close>, \<open>escape\<close>, \<open>unescape\<close>): against their
    description on text, for strings within the limit of the engine, and the round trips (C30, C31).
  \<^item> \<open>Rope\<close>, \<open>Rope_Balance\<close> (\<open>js_string_*\<close>, \<open>js_string_rope_*\<close>, \<open>JS_ConcatString\<close>): trees of strings; \<open>runits\<close> is
    the text, \<open>rope_wf\<close> the invariant. Comparison walks two ropes with explicit stacks, concatenation
    keeps text and invariant, rebalancing is proved against the locale \<open>rope_maker\<close> (C32 to C34).
  \<^item> \<open>Gc\<close>, \<open>Gc_Release\<close>, \<open>Gc_Free\<close>, \<open>Gc_Cycles\<close> (\<open>mark_children\<close>, \<open>JS_FreeValueRT\<close>, \<open>free_zero_refcount\<close>,
    \<open>JS_RunGC\<close>): a heap of typed blocks with counts, marks and the three lists of the runtime. \<open>counted\<close>
    says that every count is the number of references from blocks and from outside; \<open>roots\<close> and
    \<open>live_roots\<close> are the locales in which the release of references and the removal of cycles are
    proved, interpreted on the heap of the model. The survivors of a collection are the blocks
    reachable from outside, unchanged (C35), and releasing a reference keeps the heap exact (C36).
  \<^item> \<open>Bytecode\<close> (\<open>quickjs-opcode.h\<close>): the table of all instructions. \<open>Stack_Size\<close> (\<open>compute_stack_size\<close>): the
    verifier that runs over the bytecode of each function, with its work list and its two tables (a \<open>while_option\<close>).
    \<open>Stack_Map\<close>: what \<open>JS_CallInternal\<close> does with the position and the stack, as a step relation: exception entries and
    integers on the stack are told apart, all else is left open, so that an instruction may leave any values. The
    locale \<open>stack_map\<close> holds the conditions on an assignment of depths and exception entries to positions under which
    no disciplined run goes wrong. \<open>disciplined\<close> is what the verifier takes for granted: exception
    entries are pushed, dropped and moved only by the instructions that it knows to do so, where it expects them, and
    \<open>ret\<close> goes back to a \<open>gosub\<close> of the run. \<open>Stack_Verifier\<close>: the invariant of the loop, the
    interpretation of \<open>stack_map\<close> on the tables that an accepting run leaves, and completeness: the
    verifier decides whether there is such an assignment (C37), and what it accepts runs, as long as it is disciplined,
    within the stack it computes (C38). Without discipline it does not: \<open>nip1_unsafe\<close> and
    \<open>ret_unbounded\<close> are code that is accepted and goes wrong. The compiler is meant to emit disciplined code only; this is
    not proved, the compiler not being modelled, and bytecode that is read from outside need not be.
  \<^item> \<open>Js_Value\<close>: the tags, \<open>SameValueZero\<close> and the hash function of keys; equal keys have equal hashes, with the
    exception of ropes (\<open>rope_key_missed\<close>). \<open>Js_Map\<close> (\<open>map_*\<close>, \<open>js_map_*\<close>): the records, the hash chains and the
    iterators. A record is named by the number of its insertion, which the code does not keep, so that
    a record of the model is the same one for ever. \<open>Js_Map_Spec\<close>: the specification of the language, a list of
    entries with deleted ones marked, and positions in it; the tables refine it for every sequence of
    fewer than \<open>2 ^ 31 - 1\<close> calls whose keys are no ropes and no BigInts that are longer than needed (\<open>op_ok\<close>), failures for
    lack of memory included (C39), and iteration gives each entry once and ends (C40).

  \<^bold>\<open>Bounds and termination.\<close> \<open>JS_BIGINT_MAX_SIZE\<close>, \<open>JS_STRING_LEN_MAX\<close>, \<open>JS_STRING_ROPE_MAX_DEPTH\<close> and the 50
  entries of the sort are the code's limits. Loops are structural recursions or functions with a measure; the
  sort is a \<open>while_option\<close> that is proved to return. The release of memory recurses through the heap in a
  way that is only bounded when the counts are exact, so those functions are \<open>partial_function\<close>s in
  the option monad, \<open>None\<close> standing also for a failed assertion, and C35 and C36 prove that they return.
  \<open>js_new_string_rope\<close> and \<open>js_rebalance_string_rope\<close> call each other; their nesting is bounded by an
  explicit argument: two levels are enough for every text below 2178309 units, and C34 shows a
  larger text for which no bound is. The verifier visits a position at most once, which bounds its
  loop. The loop of an iterator is a search on the list of the records.

  \<^bold>\<open>Not modelled\<close>, and why:

  \<^item> the parser, the bytecode compiler and the interpreter loop (\<open>js_parse_*\<close>, \<open>resolve_*\<close>,
    \<open>JS_CallInternal\<close> but for its control flow): half of \<open>quickjs.c\<close>, whose specification is the language itself;
  \<^item> the property system (shapes, atoms, property lookup) and the builtin objects that are stated in its
    terms (\<open>Proxy\<close>, \<open>Reflect\<close>, the other methods of \<open>Array\<close>, \<open>JSON\<close>, \<open>Date\<close>, promises, generators, typed
    arrays, \<open>Atomics\<close>, modules, the serialization of bytecode);
  \<^item> of \<open>Map\<close> and \<open>Set\<close>, the weak variants and the methods that call functions of the script (\<open>forEach\<close>,
    \<open>groupBy\<close>, \<open>getOrInsertComputed\<close>, the constructor with an iterable);
  \<^item> \<open>libregexp.c\<close>, the conversions of doubles in \<open>dtoa.c\<close>, and of \<open>libunicode.c\<close> case conversion and folding, normalization, scripts and the lookup of names;
  \<^item> in the collector: weak references, the references that a block holds to atoms, and the open variables of
    a suspended stack frame; the counts are taken not to overflow;
  \<^item> of the BigInts, the methods of the builtin object; of the buffers, \<open>dbuf_printf\<close>;
  \<^item> \<open>quickjs-libc.c\<close>, \<open>bridge.c\<close>, the Go packages and the JavaScript prelude: input, output, threads and
    wrappers of the interface.
\<close>

end
